(* ===== verification/RT_Prelude.thy ===== *)
theory RT_Prelude
  imports Main "HOL-Library.Word" "HOL-Library.Monad_Syntax"
begin

text \<open>The prelude of the development: the scalar types of include/rtdef.h, its error
  codes and limits, the assertion of include/rtdebug.h, the collections of simplification
  rules the other theories fill, and lemmas on lists, options and machine words that
  several components use.\<close>

unbundle bit_operations_syntax

named_theorems err_simps \<open>the error codes of include/rtdef.h\<close>
named_theorems flag_simps \<open>the flag and status constants of include/rtdef.h\<close>
named_theorems frame_simps \<open>what an operation leaves unchanged\<close>
named_theorems kernel_defs \<open>the small operations of the kernel state\<close>

section \<open>Scalar types and limits\<close>

text \<open>The target is a 32-bit processor: int, long and pointers have 32 bits.\<close>

type_synonym rt_uint8 = "8 word"
type_synonym rt_uint16 = "16 word"
type_synonym rt_uint32 = "32 word"
type_synonym rt_tick = "32 word"
type_synonym rt_size = "32 word"
type_synonym rt_err = int

definition RT_EOK :: rt_err where "RT_EOK = 0"
definition RT_ERROR :: rt_err where "RT_ERROR = 1"
definition RT_ETIMEOUT :: rt_err where "RT_ETIMEOUT = 2"
definition RT_EFULL :: rt_err where "RT_EFULL = 3"
definition RT_EEMPTY :: rt_err where "RT_EEMPTY = 4"
definition RT_ENOMEM :: rt_err where "RT_ENOMEM = 5"
definition RT_ENOSYS :: rt_err where "RT_ENOSYS = 6"
definition RT_EBUSY :: rt_err where "RT_EBUSY = 7"
definition RT_EIO :: rt_err where "RT_EIO = 8"
definition RT_EINTR :: rt_err where "RT_EINTR = 9"
definition RT_EINVAL :: rt_err where "RT_EINVAL = 10"

lemmas rt_error_codes [err_simps] =
  RT_EOK_def RT_ERROR_def RT_ETIMEOUT_def RT_EFULL_def RT_EEMPTY_def RT_ENOMEM_def
  RT_ENOSYS_def RT_EBUSY_def RT_EIO_def RT_EINTR_def RT_EINVAL_def

definition RT_NAME_MAX :: nat where "RT_NAME_MAX = 8"
definition RT_THREAD_PRIORITY_MAX :: nat where "RT_THREAD_PRIORITY_MAX = 32"
definition RT_TICK_MAX :: rt_tick where "RT_TICK_MAX = 0xffffffff"
definition RT_TICK_PER_SECOND :: int where "RT_TICK_PER_SECOND = 1000"

text \<open>RT_ALIGN and RT_ALIGN_DOWN, computed in unsigned 32-bit arithmetic as the macros are.\<close>

definition RT_ALIGN :: "rt_uint32 \<Rightarrow> rt_uint32 \<Rightarrow> rt_uint32" where
  "RT_ALIGN sz align = (sz + align - 1) AND NOT (align - 1)"

definition RT_ALIGN_DOWN :: "rt_uint32 \<Rightarrow> rt_uint32 \<Rightarrow> rt_uint32" where
  "RT_ALIGN_DOWN sz align = sz AND NOT (align - 1)"

section \<open>Assertions\<close>

text \<open>RT_ASSERT stops the system in an endless loop when its condition is false. An operation
  that contains assertions has an option as its result, and a failed assertion is
  \<^const>\<open>None\<close>: no state follows it.\<close>

definition RT_ASSERT :: "bool \<Rightarrow> unit option" where
  "RT_ASSERT b = (if b then Some () else None)"

lemma RT_ASSERT_simps [simp]:
  "RT_ASSERT True = Some ()" "RT_ASSERT False = None"
  by (simp_all add: RT_ASSERT_def)

lemma RT_ASSERT_Some [simp]: "(RT_ASSERT b = Some u) = b"
  by (cases b) simp_all

lemma RT_ASSERT_bind [simp]: "(RT_ASSERT b \<bind> f = Some x) = (b \<and> f () = Some x)"
  by (cases b) simp_all

lemma bind_Some_iff: "(m \<bind> f = Some y) = (\<exists>x. m = Some x \<and> f x = Some y)"
  by (cases m) simp_all

section \<open>Lists\<close>

lemma sorted_wrt_snocI:
  "sorted_wrt P xs \<Longrightarrow> (\<And>x. x \<in> set xs \<Longrightarrow> P x y) \<Longrightarrow> sorted_wrt P (xs @ [y])"
  by (simp add: sorted_wrt_append)

lemma removeAll_distinct_append:
  "distinct (xs @ y # ys) \<Longrightarrow> removeAll y (xs @ y # ys) = xs @ ys"
  by simp

lemma hd_in_set_if: "xs \<noteq> [] \<Longrightarrow> hd xs \<in> set xs"
  by simp

lemma removeAll_hd_distinct:
  "distinct xs \<Longrightarrow> xs \<noteq> [] \<Longrightarrow> removeAll (hd xs) xs = tl xs"
  by (cases xs) simp_all

lemma sorted_wrt_removeAll:
  "sorted_wrt P xs \<Longrightarrow> sorted_wrt P (removeAll x xs)"
  by (induction xs) auto

section \<open>Machine words\<close>

lemma unat_less_bit_push [simp]:
  fixes p :: "8 word"
  assumes "unat p < 32"
  shows "bit (push_bit (unat p) (1 :: 32 word)) i \<longleftrightarrow> i = unat p"
  using assms by (auto simp: bit_simps)

lemma bit_one_push32:
  "p < 32 \<Longrightarrow> bit (push_bit p (1 :: 32 word)) i \<longleftrightarrow> i = p"
  by (auto simp: bit_simps)

lemma bit_exp32:
  "p < 32 \<Longrightarrow> bit ((2 :: 32 word) ^ p) i \<longleftrightarrow> i = p"
  by (auto simp: bit_simps)

lemma word32_nonzero_bit: "(w :: 32 word) \<noteq> 0 \<Longrightarrow> \<exists>i < 32. bit w i"
proof (rule ccontr)
  assume nz: "w \<noteq> 0" and "\<not> ?thesis"
  then have "bit w i = bit (0 :: 32 word) i" if "i < LENGTH(32)" for i
    using that by auto
  then have "w = 0" by (rule bit_word_eqI) simp
  with nz show False by simp
qed

text \<open>Alignment to four bytes.\<close>

lemma and_not_mask_push: "x AND NOT (mask n) = push_bit n (drop_bit n (x :: 'a::len word))"
  by (rule bit_word_eqI) (auto simp: bit_simps)

lemma unat_and_not_mask:
  fixes x :: "'a::len word"
  shows "unat (x AND NOT (mask n)) = unat x div 2 ^ n * 2 ^ n"
proof -
  have "unat (push_bit n (drop_bit n x)) = take_bit LENGTH('a) (unat x div 2 ^ n * 2 ^ n)"
    by (subst unsigned_push_bit_eq, subst unat_drop_bit_eq) (simp only: push_bit_eq_mult drop_bit_eq_div)
  moreover have "unat x div 2 ^ n * 2 ^ n \<le> unat x" by simp
  moreover have "unat x < 2 ^ LENGTH('a)" by (rule unsigned_less)
  ultimately show ?thesis by (simp add: and_not_mask_push take_bit_eq_mod)
qed

lemma align4_mask: "(4 - 1 :: 32 word) = mask 2" "(8 - 1 :: 32 word) = mask 3"
  by (simp_all add: mask_eq_exp_minus_1)

lemma unat_RT_ALIGN_DOWN4: "unat (RT_ALIGN_DOWN x 4) = unat x div 4 * 4"
  unfolding RT_ALIGN_DOWN_def align4_mask unat_and_not_mask by simp

lemma unat_RT_ALIGN4:
  assumes "unat x + 3 < 2 ^ 32"
  shows "unat (RT_ALIGN x 4) = (unat x + 3) div 4 * 4"
proof -
  have e: "x + 4 - 1 = x + 3" by simp
  have "unat (x + 3) = unat x + 3" using assms by (simp add: unat_word_ariths)
  then show ?thesis unfolding RT_ALIGN_def align4_mask unat_and_not_mask e by (simp only: power2_eq_square) simp
qed

lemma unat_small32: "x < 2 ^ 32 \<Longrightarrow> unat (of_nat x :: 32 word) = x"
  by (simp add: unat_of_nat)

lemma of_nat32_inj:
  assumes "x < 2 ^ 32" "y < 2 ^ 32"
  shows "((of_nat x :: 32 word) = of_nat y) = (x = y)"
  using unat_small32[OF assms(1)] unat_small32[OF assms(2)] by metis

end
