(* ===== verification/RT_List.thy ===== *)
theory RT_List
  imports RT_Prelude
begin

text \<open>The doubly linked lists of include/rtservice.h, at the level of their links. A node is
  the address of an \<^verbatim>\<open>rt_list_node\<close> embedded in a kernel object; a list is a circle of nodes through
  its head. The operations are the assignments of the source in their order, and the lemmas
  show that on a well-formed circle they are the operations on the sequence of its elements
  (append, cons, remove, emptiness, length) by which the kernel theories model their queues.\<close>

section \<open>Links and operations\<close>

record 'n links =
  nxt :: "'n \<Rightarrow> 'n"
  prv :: "'n \<Rightarrow> 'n"

definition set_next :: "'n \<Rightarrow> 'n \<Rightarrow> 'n links \<Rightarrow> 'n links" where
  "set_next a b st = st\<lparr>nxt := (nxt st)(a := b)\<rparr>"

definition set_prev :: "'n \<Rightarrow> 'n \<Rightarrow> 'n links \<Rightarrow> 'n links" where
  "set_prev a b st = st\<lparr>prv := (prv st)(a := b)\<rparr>"

definition rt_list_init :: "'n \<Rightarrow> 'n links \<Rightarrow> 'n links" where
  "rt_list_init l st = set_next l l (set_prev l l st)"

definition rt_list_insert_after :: "'n \<Rightarrow> 'n \<Rightarrow> 'n links \<Rightarrow> 'n links" where
  "rt_list_insert_after l n st0 =
    (let st1 = set_prev (nxt st0 l) n st0;
         st2 = set_next n (nxt st1 l) st1;
         st3 = set_next l n st2
     in set_prev n l st3)"

definition rt_list_insert_before :: "'n \<Rightarrow> 'n \<Rightarrow> 'n links \<Rightarrow> 'n links" where
  "rt_list_insert_before l n st0 =
    (let st1 = set_next (prv st0 l) n st0;
         st2 = set_prev n (prv st1 l) st1;
         st3 = set_prev l n st2
     in set_next n l st3)"

definition rt_list_remove :: "'n \<Rightarrow> 'n links \<Rightarrow> 'n links" where
  "rt_list_remove n st0 =
    (let st1 = set_prev (nxt st0 n) (prv st0 n) st0;
         st2 = set_next (prv st1 n) (nxt st1 n) st1;
         st3 = set_prev n n st2
     in set_next n n st3)"

definition rt_list_isempty :: "'n \<Rightarrow> 'n links \<Rightarrow> bool" where
  "rt_list_isempty l st = (nxt st l = l)"

text \<open>\<^verbatim>\<open>rt_list_len\<close> walks from the head until the next node is the head again. On a broken
  circle the walk need not end.\<close>

partial_function (option) rt_list_len_from :: "'n \<Rightarrow> 'n links \<Rightarrow> 'n \<Rightarrow> nat \<Rightarrow> nat option" where
  "rt_list_len_from l st p len =
    (if nxt st p \<noteq> l then rt_list_len_from l st (nxt st p) (Suc len) else Some len)"

definition rt_list_len :: "'n \<Rightarrow> 'n links \<Rightarrow> nat option" where
  "rt_list_len l st = rt_list_len_from l st l 0"

lemmas link_defs = set_next_def set_prev_def rt_list_init_def rt_list_insert_after_def
  rt_list_insert_before_def rt_list_remove_def rt_list_isempty_def Let_def

section \<open>Circles and the sequences they hold\<close>

text \<open>\<^term>\<open>chain st a ns b\<close>: from \<^term>\<open>a\<close> the links lead through \<^term>\<open>ns\<close> to \<^term>\<open>b\<close>, both ways.\<close>

fun chain :: "'n links \<Rightarrow> 'n \<Rightarrow> 'n list \<Rightarrow> 'n \<Rightarrow> bool" where
  "chain st a [] b = (nxt st a = b \<and> prv st b = a)"
| "chain st a (n # ns) b = (nxt st a = n \<and> prv st n = a \<and> chain st n ns b)"

definition dlist :: "'n links \<Rightarrow> 'n \<Rightarrow> 'n list \<Rightarrow> bool" where
  "dlist st l ns = (distinct (l # ns) \<and> chain st l ns l)"

lemma chain_append:
  "chain st a (xs @ y # ys) b = (chain st a xs y \<and> chain st y ys b)"
  by (induction xs arbitrary: a) auto

lemma chain_cong:
  assumes "\<And>x. x \<in> set (a # ns) \<Longrightarrow> nxt st' x = nxt st x"
    and "\<And>x. x \<in> set (ns @ [b]) \<Longrightarrow> prv st' x = prv st x"
  shows "chain st' a ns b = chain st a ns b"
  using assms by (induction ns arbitrary: a) auto

lemma chain_next: "chain st a ns b \<Longrightarrow> nxt st a = hd (ns @ [b])"
  by (cases ns) auto

lemma chain_prev: "chain st a ns b \<Longrightarrow> prv st b = last (a # ns)"
  by (induction ns arbitrary: a) auto

lemma dlist_empty: "dlist st l [] = (nxt st l = l \<and> prv st l = l)"
  by (auto simp: dlist_def)

lemma dlist_isempty: "dlist st l ns \<Longrightarrow> rt_list_isempty l st = (ns = [])"
  by (cases ns) (auto simp: dlist_def rt_list_isempty_def)

lemma dlist_first: "dlist st l (n # ns) \<Longrightarrow> nxt st l = n"
  by (auto simp: dlist_def)

text \<open>The links of a circle determine the sequence it holds.\<close>

lemma chain_unique:
  assumes "chain st a xs b" "chain st a ys b" "b \<notin> set xs" "b \<notin> set ys"
  shows "xs = ys"
  using assms
proof (induction xs arbitrary: a ys)
  case Nil
  then show ?case by (cases ys) auto
next
  case (Cons x xs)
  then show ?case by (cases ys) auto
qed

lemma dlist_unique: "dlist st l xs \<Longrightarrow> dlist st l ys \<Longrightarrow> xs = ys"
  by (auto simp: dlist_def intro: chain_unique)

section \<open>The operations on a circle\<close>

lemma dlist_init: "dlist (rt_list_init l st) l []"
  by (simp add: dlist_empty link_defs)

lemma dlist_insert_after:
  assumes "dlist st l ns" "n \<notin> set (l # ns)"
  shows "dlist (rt_list_insert_after l n st) l (n # ns)"
proof (cases ns)
  case Nil
  with assms show ?thesis by (auto simp: dlist_def link_defs)
next
  case (Cons m ms)
  let ?t = "rt_list_insert_after l n st"
  have "chain ?t m ms l = chain st m ms l"
    using assms Cons by (intro chain_cong) (auto simp: dlist_def link_defs)
  with assms Cons show ?thesis by (auto simp: dlist_def link_defs)
qed

lemma dlist_insert_before:
  assumes "dlist st l ns" "n \<notin> set (l # ns)"
  shows "dlist (rt_list_insert_before l n st) l (ns @ [n])"
proof (cases ns rule: rev_cases)
  case Nil
  with assms show ?thesis by (auto simp: dlist_def link_defs)
next
  case (snoc ms m)
  let ?t = "rt_list_insert_before l n st"
  have p: "prv st l = m" using assms snoc by (auto simp: dlist_def chain_append)
  have "chain ?t l ms m = chain st l ms m"
    using assms snoc p by (intro chain_cong) (auto simp: dlist_def link_defs)
  with assms snoc p show ?thesis by (auto simp: dlist_def chain_append link_defs)
qed

text \<open>Inserting before an element that is not the head puts the node at its place; the
  priority-ordered wait queues insert this way.\<close>

lemma dlist_insert_before_elem:
  assumes "dlist st l (xs @ m # ys)" "n \<notin> set (l # xs @ m # ys)"
  shows "dlist (rt_list_insert_before m n st) l (xs @ n # m # ys)"
proof -
  let ?t = "rt_list_insert_before m n st"
  have c: "chain st l xs m" "chain st m ys l" and d: "distinct (l # xs @ m # ys)"
    using assms by (auto simp: dlist_def chain_append)
  have p: "prv st m = last (l # xs)" "prv st m \<in> set (l # xs)"
    using chain_prev[OF c(1)] by (metis, metis last_in_set list.distinct(1))
  have 1: "chain ?t m ys l"
    using assms c d p by (subst chain_cong[where st = st]) (auto simp: link_defs)
  have "chain ?t l xs n"
  proof (cases xs rule: rev_cases)
    case Nil
    then show ?thesis using p assms by (auto simp: link_defs)
  next
    case (snoc zs z)
    have "chain ?t l zs z = chain st l zs z"
      using assms c d p snoc by (intro chain_cong) (auto simp: link_defs)
    then show ?thesis using c assms d p snoc by (auto simp: chain_append link_defs)
  qed
  moreover have "nxt ?t n = m" "prv ?t m = n" using assms by (auto simp: link_defs)
  ultimately have "chain ?t l (xs @ n # m # ys) l"
    using 1 by (simp add: chain_append)
  then show ?thesis using assms d by (auto simp: dlist_def)
qed

lemma dlist_remove:
  assumes "dlist st l (xs @ n # ys)"
  shows "dlist (rt_list_remove n st) l (xs @ ys)" "dlist (rt_list_remove n st) n []"
proof -
  let ?t = "rt_list_remove n st"
  have c: "chain st l xs n" "chain st n ys l" and d: "distinct (l # xs @ n # ys)"
    using assms by (auto simp: dlist_def chain_append)
  have p: "prv st n = last (l # xs)" and q: "nxt st n = hd (ys @ [l])"
    using chain_prev[OF c(1)] chain_next[OF c(2)] by simp_all
  have "chain ?t l (xs @ ys) l"
  proof (cases xs rule: rev_cases)
    case Nil
    note xs = this
    show ?thesis
    proof (cases ys)
      case Nil
      then show ?thesis using xs p q d by (auto simp: link_defs)
    next
      case (Cons y zs)
      have "chain ?t y zs l = chain st y zs l"
        using d p q xs Cons by (intro chain_cong) (auto simp: link_defs)
      then show ?thesis using c d p q xs Cons by (auto simp: link_defs)
    qed
  next
    case (snoc ws w)
    note xs = this
    have 1: "chain ?t l ws w = chain st l ws w"
      using d p q xs by (intro chain_cong) (cases ys; auto simp: link_defs)+
    show ?thesis
    proof (cases ys)
      case Nil
      then show ?thesis using 1 c d p q xs by (auto simp: chain_append link_defs)
    next
      case (Cons y zs)
      have "chain ?t y zs l = chain st y zs l"
        using d p q xs Cons by (intro chain_cong) (auto simp: link_defs)
      then show ?thesis using 1 c d p q xs Cons by (auto simp: chain_append link_defs)
    qed
  qed
  then show "dlist ?t l (xs @ ys)" using d by (simp add: dlist_def)
  show "dlist ?t n []" by (simp add: dlist_empty link_defs)
qed

text \<open>Removing a node that is in no list leaves every list as it is: the kernel removes the
  list node of the running thread, which is in no queue.\<close>

lemma dlist_remove_single:
  "dlist st n [] \<Longrightarrow> rt_list_remove n st = st"
  by (cases st) (auto simp: dlist_empty link_defs fun_upd_idem)

text \<open>A circle does not see the changes of another one.\<close>

lemma dlist_frame:
  assumes "dlist st l ns"
    and "\<And>x. x \<in> set (l # ns) \<Longrightarrow> nxt st' x = nxt st x \<and> prv st' x = prv st x"
  shows "dlist st' l ns"
proof -
  have "chain st' l ns l = chain st l ns l" using assms(2) by (intro chain_cong) auto
  with assms(1) show ?thesis by (simp add: dlist_def)
qed

lemma dlist_remove_other:
  assumes "dlist st l ns" "dlist st m ms" "set (l # ns) \<inter> set (m # ms) = {}" "n \<in> set ms"
  shows "dlist (rt_list_remove n st) l ns"
proof -
  obtain xs ys where ms: "ms = xs @ n # ys" using assms(4) by (meson split_list)
  have c: "chain st m xs n" "chain st n ys m"
    using assms(2) ms by (auto simp: dlist_def chain_append)
  have "prv st n \<in> set (m # ms)" "nxt st n \<in> set (m # ms)"
    using chain_prev[OF c(1)] chain_next[OF c(2)] ms by (cases ys; auto)+
  then show ?thesis using assms ms by (intro dlist_frame[OF assms(1)]) (auto simp: link_defs)
qed

section \<open>The length\<close>

lemma rt_list_len_chain:
  "chain st a ns l \<Longrightarrow> l \<notin> set ns \<Longrightarrow> rt_list_len_from l st a k = Some (k + length ns)"
proof (induction ns arbitrary: a k)
  case Nil
  then show ?case by (subst rt_list_len_from.simps) auto
next
  case (Cons n ns)
  then show ?case by (subst rt_list_len_from.simps) auto
qed

lemma dlist_len: "dlist st l ns \<Longrightarrow> rt_list_len l st = Some (length ns)"
  by (simp add: rt_list_len_def dlist_def rt_list_len_chain[of st l ns l 0, simplified])

end
