(* ===== verification/RT_Ffs.thy ===== *)
theory RT_Ffs
  imports RT_Prelude
begin

text \<open>Find-first-set of src/kservice.c: the table \<^verbatim>\<open>__lowest_bit_bitmap\<close> of the lowest set bit of
  every byte, and \<^verbatim>\<open>__rt_ffs\<close>, by which the scheduler finds the most urgent non-empty ready
  queue.\<close>

definition lowest_bit_bitmap :: "nat list" where
  "lowest_bit_bitmap =
    [0, 0, 1, 0, 2, 0, 1, 0, 3, 0, 1, 0, 2, 0, 1, 0,
     4, 0, 1, 0, 2, 0, 1, 0, 3, 0, 1, 0, 2, 0, 1, 0,
     5, 0, 1, 0, 2, 0, 1, 0, 3, 0, 1, 0, 2, 0, 1, 0,
     4, 0, 1, 0, 2, 0, 1, 0, 3, 0, 1, 0, 2, 0, 1, 0,
     6, 0, 1, 0, 2, 0, 1, 0, 3, 0, 1, 0, 2, 0, 1, 0,
     4, 0, 1, 0, 2, 0, 1, 0, 3, 0, 1, 0, 2, 0, 1, 0,
     5, 0, 1, 0, 2, 0, 1, 0, 3, 0, 1, 0, 2, 0, 1, 0,
     4, 0, 1, 0, 2, 0, 1, 0, 3, 0, 1, 0, 2, 0, 1, 0,
     7, 0, 1, 0, 2, 0, 1, 0, 3, 0, 1, 0, 2, 0, 1, 0,
     4, 0, 1, 0, 2, 0, 1, 0, 3, 0, 1, 0, 2, 0, 1, 0,
     5, 0, 1, 0, 2, 0, 1, 0, 3, 0, 1, 0, 2, 0, 1, 0,
     4, 0, 1, 0, 2, 0, 1, 0, 3, 0, 1, 0, 2, 0, 1, 0,
     6, 0, 1, 0, 2, 0, 1, 0, 3, 0, 1, 0, 2, 0, 1, 0,
     4, 0, 1, 0, 2, 0, 1, 0, 3, 0, 1, 0, 2, 0, 1, 0,
     5, 0, 1, 0, 2, 0, 1, 0, 3, 0, 1, 0, 2, 0, 1, 0,
     4, 0, 1, 0, 2, 0, 1, 0, 3, 0, 1, 0, 2, 0, 1, 0]"

text \<open>The argument is the bit pattern of the C int; the masked values are unsigned, so the
  shifts bring in zeros.\<close>

definition rt_ffs :: "32 word \<Rightarrow> nat" where
  "rt_ffs x =
    (if x = 0 then 0
     else if x AND 0xff \<noteq> 0 then lowest_bit_bitmap ! unat (x AND 0xff) + 1
     else if x AND 0xff00 \<noteq> 0 then lowest_bit_bitmap ! unat (drop_bit 8 (x AND 0xff00)) + 9
     else if x AND 0xff0000 \<noteq> 0 then lowest_bit_bitmap ! unat (drop_bit 16 (x AND 0xff0000)) + 17
     else lowest_bit_bitmap ! unat (drop_bit 24 (x AND 0xff000000)) + 25)"

text \<open>The table is checked row by row with numerals: entry \<^term>\<open>k\<close> for \<^term>\<open>v\<close> divides
  \<^term>\<open>v\<close> by an exact power of two.\<close>

fun lowest_table_ok :: "nat \<Rightarrow> nat list \<Rightarrow> bool" where
  "lowest_table_ok v [] = True"
| "lowest_table_ok v (k # ks) =
    ((v = 0 \<or> (k < 8 \<and> v mod 2 ^ k = 0 \<and> v div 2 ^ k mod 2 = 1)) \<and> lowest_table_ok (v + 1) ks)"

lemma lowest_table_ok_nth:
  "lowest_table_ok v ks \<Longrightarrow> j < length ks \<Longrightarrow> v + j \<noteq> 0 \<Longrightarrow>
    ks ! j < 8 \<and> (v + j) mod 2 ^ (ks ! j) = 0 \<and> (v + j) div 2 ^ (ks ! j) mod 2 = 1"
proof (induction ks arbitrary: v j)
  case (Cons k ks)
  then show ?case by (cases j) fastforce+
qed simp

lemma lowest_bit_bitmap_table: "lowest_table_ok 0 lowest_bit_bitmap"
  by (simp add: lowest_bit_bitmap_def)

lemma lowest_bit_bitmap_length: "length lowest_bit_bitmap = 256"
  by (simp add: lowest_bit_bitmap_def)

lemma lowest_bit_bitmap_lowest:
  assumes "v < 256" "v \<noteq> 0"
  shows "lowest_bit_bitmap ! v < 8" "bit v (lowest_bit_bitmap ! v)"
    "i < lowest_bit_bitmap ! v \<Longrightarrow> \<not> bit v i"
proof -
  let ?k = "lowest_bit_bitmap ! v"
  have t: "?k < 8" "take_bit ?k v = 0" "v div 2 ^ ?k mod 2 = 1"
    using lowest_table_ok_nth[OF lowest_bit_bitmap_table, of v] assms
    by (simp_all add: lowest_bit_bitmap_length take_bit_eq_mod)
  show "?k < 8" by (rule t)
  show "bit v ?k" using t(3) by (simp add: bit_iff_odd odd_iff_mod_2_eq_one)
  assume "i < ?k"
  then have "bit v i = bit (take_bit ?k v) i" by (simp add: bit_take_bit_iff)
  then show "\<not> bit v i" by (simp add: t(2))
qed

lemma byte_mask_bit:
  fixes x :: "32 word"
  shows "bit (x AND 0xff) i = (i < 8 \<and> bit x i)"
    and "bit (x AND 0xff00) i = (8 \<le> i \<and> i < 16 \<and> bit x i)"
    and "bit (x AND 0xff0000) i = (16 \<le> i \<and> i < 24 \<and> bit x i)"
    and "bit (x AND 0xff000000) i = (24 \<le> i \<and> i < 32 \<and> bit x i)"
proof -
  have 1: "(0xff :: 32 word) = mask 8" by (simp add: mask_eq_exp_minus_1)
  have 2: "(0xff00 :: 32 word) = push_bit 8 (mask 8)" by (simp add: mask_eq_exp_minus_1 push_bit_eq_mult)
  have 3: "(0xff0000 :: 32 word) = push_bit 16 (mask 8)" by (simp add: mask_eq_exp_minus_1 push_bit_eq_mult)
  have 4: "(0xff000000 :: 32 word) = push_bit 24 (mask 8)" by (simp add: mask_eq_exp_minus_1 push_bit_eq_mult)
  show "bit (x AND 0xff) i = (i < 8 \<and> bit x i)"
    unfolding 1 by (auto simp: bit_simps)
  show "bit (x AND 0xff00) i = (8 \<le> i \<and> i < 16 \<and> bit x i)"
    unfolding 2 by (auto simp: bit_simps dest: bit_imp_le_length)
  show "bit (x AND 0xff0000) i = (16 \<le> i \<and> i < 24 \<and> bit x i)"
    unfolding 3 by (auto simp: bit_simps dest: bit_imp_le_length)
  show "bit (x AND 0xff000000) i = (24 \<le> i \<and> i < 32 \<and> bit x i)"
    unfolding 4 by (auto simp: bit_simps dest: bit_imp_le_length)
qed

text \<open>One byte of the word: the table gives the lowest set bit of the byte, and the bits
  below the byte are clear.\<close>

lemma byte_lowest:
  fixes x y :: "32 word"
  assumes y: "\<And>i. bit y i = (i < 8 \<and> bit x (k + i))" and "y \<noteq> 0"
    and low: "\<And>i. i < k \<Longrightarrow> \<not> bit x i"
  shows "bit x (k + lowest_bit_bitmap ! unat y)" "lowest_bit_bitmap ! unat y < 8"
    "i < k + lowest_bit_bitmap ! unat y \<Longrightarrow> \<not> bit x i"
proof -
  have "y = take_bit 8 y" by (rule bit_eqI) (auto simp: bit_simps y)
  then have "unat y = take_bit 8 (unat y)" by (metis unsigned_take_bit_eq)
  then have u: "unat y < 256" by (metis take_bit_nat_less_exp[of 8 "unat y", simplified])
  have nz: "unat y \<noteq> 0" using \<open>y \<noteq> 0\<close> by (simp add: unat_eq_0)
  have b: "bit (unat y) i = bit y i" for i
    by (auto simp: bit_unsigned_iff dest: bit_imp_le_length)
  note t = lowest_bit_bitmap_lowest[OF u nz]
  show "bit x (k + lowest_bit_bitmap ! unat y)" using t(2) by (simp add: b y)
  show l8: "lowest_bit_bitmap ! unat y < 8" by (rule t(1))
  assume i: "i < k + lowest_bit_bitmap ! unat y"
  show "\<not> bit x i"
  proof (cases "i < k")
    case True
    then show ?thesis by (rule low)
  next
    case False
    then have "\<not> bit (unat y) (i - k)" using i t(3)[of "i - k"] by simp
    then show ?thesis using False i l8 by (simp add: b y)
  qed
qed

lemma rt_ffs_zero [simp]: "rt_ffs 0 = 0"
  by (simp add: rt_ffs_def)

lemma rt_ffs_pos: "x \<noteq> 0 \<Longrightarrow> 0 < rt_ffs x"
  by (simp add: rt_ffs_def)

lemma rt_ffs_byte:
  fixes x y :: "32 word"
  assumes "\<And>i. bit y i = (i < 8 \<and> bit x (k + i))" and "y \<noteq> 0"
    and "\<And>i. i < k \<Longrightarrow> \<not> bit x i"
    and r: "rt_ffs x = lowest_bit_bitmap ! unat y + (k + 1)" and k: "k \<le> 24"
  shows "bit x (rt_ffs x - 1) \<and> rt_ffs x - 1 < 32 \<and> (\<forall>i < rt_ffs x - 1. \<not> bit x i)"
proof -
  note b = byte_lowest[OF assms(1-3)]
  have e: "rt_ffs x - 1 = k + lowest_bit_bitmap ! unat y" using r by simp
  show ?thesis unfolding e using b k by auto
qed

lemma byte_shift_bit:
  fixes x :: "32 word"
  shows "bit (drop_bit 8 (x AND 0xff00)) i = (i < 8 \<and> bit x (8 + i))"
    and "bit (drop_bit 16 (x AND 0xff0000)) i = (i < 8 \<and> bit x (16 + i))"
    and "bit (drop_bit 24 (x AND 0xff000000)) i = (i < 8 \<and> bit x (24 + i))"
  by (auto simp: bit_drop_bit_eq byte_mask_bit)

lemma word32_zero_bits: "y = 0 \<longleftrightarrow> (\<forall>i. \<not> bit y i)" for y :: "32 word"
  by (metis bit_0_eq bot_apply bot_bool_def bit_eqI)

lemma byte_mask_low_clear:
  fixes x :: "32 word"
  shows "x AND 0xff = 0 \<Longrightarrow> i < 8 \<Longrightarrow> \<not> bit x i"
    and "x AND 0xff00 = 0 \<Longrightarrow> 8 \<le> i \<Longrightarrow> i < 16 \<Longrightarrow> \<not> bit x i"
    and "x AND 0xff0000 = 0 \<Longrightarrow> 16 \<le> i \<Longrightarrow> i < 24 \<Longrightarrow> \<not> bit x i"
  by (auto simp: word32_zero_bits byte_mask_bit)

lemma byte_mask_shift_nonzero:
  fixes x :: "32 word"
  shows "x AND 0xff00 \<noteq> 0 \<Longrightarrow> drop_bit 8 (x AND 0xff00) \<noteq> 0"
    and "x AND 0xff0000 \<noteq> 0 \<Longrightarrow> drop_bit 16 (x AND 0xff0000) \<noteq> 0"
    and "x AND 0xff000000 \<noteq> 0 \<Longrightarrow> drop_bit 24 (x AND 0xff000000) \<noteq> 0"
proof -
  have shift: "\<exists>i < 8. bit x (k + i)" if "bit x j" "k \<le> j" "j < k + 8" for k j
    using that by (intro exI[of _ "j - k"]) auto
  show "x AND 0xff00 \<noteq> 0 \<Longrightarrow> drop_bit 8 (x AND 0xff00) \<noteq> 0"
    using shift[where k = 8] by (auto simp: word32_zero_bits byte_mask_bit bit_drop_bit_eq)
  show "x AND 0xff0000 \<noteq> 0 \<Longrightarrow> drop_bit 16 (x AND 0xff0000) \<noteq> 0"
    using shift[where k = 16] by (auto simp: word32_zero_bits byte_mask_bit bit_drop_bit_eq)
  show "x AND 0xff000000 \<noteq> 0 \<Longrightarrow> drop_bit 24 (x AND 0xff000000) \<noteq> 0"
    using shift[where k = 24] by (auto simp: word32_zero_bits byte_mask_bit bit_drop_bit_eq)
qed

lemma rt_ffs_lowest:
  assumes nz: "x \<noteq> 0"
  shows "bit x (rt_ffs x - 1) \<and> rt_ffs x - 1 < 32 \<and> (\<forall>i < rt_ffs x - 1. \<not> bit x i)"
proof -
  consider "x AND 0xff \<noteq> 0" | "x AND 0xff = 0" "x AND 0xff00 \<noteq> 0"
    | "x AND 0xff = 0" "x AND 0xff00 = 0" "x AND 0xff0000 \<noteq> 0"
    | "x AND 0xff = 0" "x AND 0xff00 = 0" "x AND 0xff0000 = 0" by blast
  then show ?thesis
  proof cases
    case 1
    show ?thesis
      by (rule rt_ffs_byte[where k = 0 and y = "x AND 0xff"])
        (use 1 nz in \<open>auto simp: rt_ffs_def byte_mask_bit\<close>)
  next
    case 2
    show ?thesis
      by (rule rt_ffs_byte[where k = 8 and y = "drop_bit 8 (x AND 0xff00)"])
        (use 2 nz byte_mask_shift_nonzero byte_mask_low_clear in
          \<open>auto simp: rt_ffs_def bit_drop_bit_eq byte_mask_bit\<close>)
  next
    case 3
    have l: "\<not> bit x i" if "i < 16" for i
      using 3 that byte_mask_low_clear[of x i] by (cases "i < 8") auto
    show ?thesis
      by (rule rt_ffs_byte[where k = 16 and y = "drop_bit 16 (x AND 0xff0000)"])
        (use 3 nz l byte_mask_shift_nonzero in \<open>auto simp: rt_ffs_def bit_drop_bit_eq byte_mask_bit\<close>)
  next
    case 4
    have l: "\<not> bit x i" if "i < 24" for i
      using 4 that byte_mask_low_clear[of x i] by (cases "i < 8"; cases "i < 16") auto
    then obtain i where "bit x i" "24 \<le> i" "i < 32"
      using nz by (metis word32_nonzero_bit not_less)
    then have "x AND 0xff000000 \<noteq> 0" by (auto simp: word32_zero_bits byte_mask_bit)
    then show ?thesis
      by (intro rt_ffs_byte[where k = 24 and y = "drop_bit 24 (x AND 0xff000000)"])
        (use 4 nz l byte_mask_shift_nonzero in \<open>auto simp: rt_ffs_def bit_drop_bit_eq byte_mask_bit\<close>)
  qed
qed

lemma rt_ffs_least: "bit x i \<Longrightarrow> rt_ffs x - 1 \<le> i"
  using rt_ffs_lowest[of x] by (cases "x = 0") (auto simp: not_less[symmetric])

end
