(* ===== verification/RT_State.thy ===== *)
theory RT_State
  imports RT_Prelude
begin

text \<open>The state of the kernel: the structures of include/rtdef.h as records, the static data of
  the kernel's source files as the fields of one record \<^verbatim>\<open>kernel\<close>, and the operations on list
  nodes embedded in threads.

  A pointer to a kernel object is a number in a store of its type, so that a thread is
  \<^term>\<open>thr s t\<close>. The timer embedded in a thread is the reference \<^verbatim>\<open>ThreadTimer t\<close>. A queue
  of threads linked through their \<^verbatim>\<open>tlist\<close> nodes is the list of the threads from the head on, in
  \<^term>\<open>tq s\<close> under the name of its head; RT\_List shows that the link operations of the
  source are these list operations on well-formed circles.\<close>

section \<open>Flags and statuses\<close>

definition RT_THREAD_INIT :: rt_uint8 where "RT_THREAD_INIT = 0x00"
definition RT_THREAD_READY :: rt_uint8 where "RT_THREAD_READY = 0x01"
definition RT_THREAD_SUSPEND :: rt_uint8 where "RT_THREAD_SUSPEND = 0x02"
definition RT_THREAD_CLOSE :: rt_uint8 where "RT_THREAD_CLOSE = 0x04"
definition RT_THREAD_STAT_MASK :: rt_uint8 where "RT_THREAD_STAT_MASK = 0x0f"

definition RT_TIMER_FLAG_ACTIVATED :: rt_uint8 where "RT_TIMER_FLAG_ACTIVATED = 0x1"
definition RT_TIMER_FLAG_ONE_SHOT :: rt_uint8 where "RT_TIMER_FLAG_ONE_SHOT = 0x0"
definition RT_TIMER_FLAG_PERIODIC :: rt_uint8 where "RT_TIMER_FLAG_PERIODIC = 0x2"

definition RT_IPC_FLAG_FIFO :: rt_uint8 where "RT_IPC_FLAG_FIFO = 0x00"
definition RT_IPC_FLAG_PRIO :: rt_uint8 where "RT_IPC_FLAG_PRIO = 0x01"

definition RT_EVENT_FLAG_AND :: rt_uint8 where "RT_EVENT_FLAG_AND = 0x01"
definition RT_EVENT_FLAG_OR :: rt_uint8 where "RT_EVENT_FLAG_OR = 0x02"
definition RT_EVENT_FLAG_CLEAR :: rt_uint8 where "RT_EVENT_FLAG_CLEAR = 0x04"

lemmas rt_flags [flag_simps] =
  RT_THREAD_INIT_def RT_THREAD_READY_def RT_THREAD_SUSPEND_def RT_THREAD_CLOSE_def
  RT_THREAD_STAT_MASK_def RT_TIMER_FLAG_ACTIVATED_def RT_TIMER_FLAG_ONE_SHOT_def
  RT_TIMER_FLAG_PERIODIC_def RT_IPC_FLAG_FIFO_def RT_IPC_FLAG_PRIO_def
  RT_EVENT_FLAG_AND_def RT_EVENT_FLAG_OR_def RT_EVENT_FLAG_CLEAR_def

section \<open>Kernel objects\<close>

datatype rt_object_class_type =
    RT_Object_Class_Thread
  | RT_Object_Class_Semaphore
  | RT_Object_Class_Mutex
  | RT_Object_Class_Event
  | RT_Object_Class_MailBox
  | RT_Object_Class_MessageQueue
  | RT_Object_Class_MemHeap
  | RT_Object_Class_MemPool
  | RT_Object_Class_Device
  | RT_Object_Class_Timer
  | RT_Object_Class_Module
  | RT_Object_Class_Unknown

text \<open>The values of the enumeration. \<^verbatim>\<open>RT_Object_Class_Static\<close> is a flag ORed into the type
  field of a statically allocated object.\<close>

fun class_code :: "rt_object_class_type \<Rightarrow> rt_uint8" where
  "class_code RT_Object_Class_Thread = 0"
| "class_code RT_Object_Class_Semaphore = 1"
| "class_code RT_Object_Class_Mutex = 2"
| "class_code RT_Object_Class_Event = 3"
| "class_code RT_Object_Class_MailBox = 4"
| "class_code RT_Object_Class_MessageQueue = 5"
| "class_code RT_Object_Class_MemHeap = 6"
| "class_code RT_Object_Class_MemPool = 7"
| "class_code RT_Object_Class_Device = 8"
| "class_code RT_Object_Class_Timer = 9"
| "class_code RT_Object_Class_Module = 10"
| "class_code RT_Object_Class_Unknown = 11"

definition RT_Object_Class_Static :: rt_uint8 where "RT_Object_Class_Static = 0x80"

lemma class_code_inject [simp]: "(class_code a = class_code b) = (a = b)"
  by (cases a; cases b) simp_all

instantiation rt_object_class_type :: linorder
begin

definition less_eq_rt_object_class_type :: "rt_object_class_type \<Rightarrow> rt_object_class_type \<Rightarrow> bool" where
  "a \<le> b \<longleftrightarrow> class_code a \<le> class_code b"

definition less_rt_object_class_type :: "rt_object_class_type \<Rightarrow> rt_object_class_type \<Rightarrow> bool" where
  "a < b \<longleftrightarrow> class_code a < class_code b"

instance
  by intro_classes
    (auto simp: less_eq_rt_object_class_type_def less_rt_object_class_type_def
      intro: order_trans dest: order_antisym)

end

text \<open>The references to kernel objects, one constructor for each class.\<close>

datatype tmref = ThreadTimer nat | UserTimer nat

datatype objref =
    OThread nat | OSem nat | OMutex nat | OEvent nat | OMailbox nat | OMq nat
  | OMemheap nat | OMempool nat | ODevice nat | OTimer tmref

record rt_object =
  obj_name :: "rt_uint8 list"
  obj_type :: rt_uint8
  obj_flag :: rt_uint8

section \<open>Threads and timers\<close>

text \<open>The first byte of a thread's stack, which the scheduler compares with \<^verbatim>\<open>'#'\<close>, is the field
  \<^verbatim>\<open>stack_byte0\<close>; the rest of the stack is not modelled. The entry function, its parameter and
  the cleanup function are the numbers that name them.\<close>

record rt_thread =
  sp :: rt_uint32
  entry :: nat
  parameter :: nat
  stack_addr :: rt_uint32
  stack_size :: rt_uint32
  stack_byte0 :: rt_uint8
  err :: rt_err
  stat :: rt_uint8
  current_priority :: rt_uint8
  init_priority :: rt_uint8
  number_mask :: rt_uint32
  event_set :: rt_uint32
  event_info :: rt_uint8
  init_tick :: rt_uint32
  remaining_tick :: rt_uint32
  cleanup :: "nat option"
  user_data :: rt_uint32

datatype timeout_fn = RT_thread_timeout nat | User_timeout nat

record rt_timer =
  timeout_func :: timeout_fn
  tm_init_tick :: rt_tick
  timeout_tick :: rt_tick

section \<open>Inter-process communication objects\<close>

record rt_semaphore =
  sem_value :: rt_uint16

record rt_mutex =
  mtx_value :: rt_uint16
  original_priority :: rt_uint8
  hold :: rt_uint8
  owner :: "nat option"

record rt_event =
  evt_set :: rt_uint32

text \<open>The memory pools of mailboxes and message queues are their addresses and their contents.\<close>

record rt_mailbox =
  mb_addr :: rt_uint32
  mb_pool :: "rt_uint32 list"
  mb_size :: rt_uint16
  mb_entry :: rt_uint16
  in_offset :: rt_uint16
  out_offset :: rt_uint16

text \<open>A message queue block is a link and a buffer; the blocks are numbered by their place in
  the pool.\<close>

record rt_messagequeue =
  mq_addr :: rt_uint32
  mq_link :: "nat \<Rightarrow> nat option"
  mq_buf :: "nat \<Rightarrow> rt_uint8 list"
  mq_msg_size :: rt_uint16
  mq_max_msgs :: rt_uint16
  mq_entry :: rt_uint16
  msg_queue_head :: "nat option"
  msg_queue_tail :: "nat option"
  msg_queue_free :: "nat option"

text \<open>The header word of a memory pool block: the next free block while the block is free, the
  pool while it is allocated.\<close>

datatype mp_header = NextFree "nat option" | OwnedBy nat

record rt_mempool =
  mp_addr :: rt_uint32
  mp_size :: rt_size
  mp_block_size :: rt_size
  mp_head :: "nat \<Rightarrow> mp_header"
  mp_block_list :: "nat option"
  mp_total :: rt_size
  mp_free_count :: rt_size
  mp_suspend_count :: rt_size

section \<open>Objects of the drivers\<close>

text \<open>The data queues and completions of components/drivers, and the devices of src/device.c, whose
  functions are the numbers that name them.\<close>

record rt_data_queue =
  dq_size :: rt_uint16
  dq_lwm :: rt_uint16
  get_index :: rt_uint16
  put_index :: rt_uint16
  dq_queue :: "(rt_uint32 \<times> rt_size) list"
  evt_notify :: "nat option"

record rt_completion =
  compl_flag :: rt_uint32

record rt_device =
  dev_class :: nat
  dev_flag :: rt_uint16
  open_flag :: rt_uint16
  ref_count :: rt_uint8
  device_id :: rt_uint8
  rx_indicate :: "nat option"
  tx_complete :: "nat option"
  dev_init :: "nat option"
  dev_open :: "nat option"
  dev_close :: "nat option"
  dev_read :: "nat option"
  dev_write :: "nat option"
  dev_control :: "nat option"

record drivers =
  dqs :: "nat \<Rightarrow> rt_data_queue"
  cmps :: "nat \<Rightarrow> rt_completion"
  devs :: "nat \<Rightarrow> rt_device"

section \<open>The kernel state\<close>

text \<open>The heads of the thread queues; those of the drivers' objects are named by \<^verbatim>\<open>drvq\<close>.\<close>

datatype drvq =
    PushQ nat         \<comment> \<open>\<^verbatim>\<open>suspended_push_list\<close> of a data queue\<close>
  | PopQ nat          \<comment> \<open>\<^verbatim>\<open>suspended_pop_list\<close> of a data queue\<close>
  | ComplQ nat        \<comment> \<open>\<^verbatim>\<open>suspended_list\<close> of a completion\<close>

datatype lhead =
    ReadyQ nat        \<comment> \<open>\<^verbatim>\<open>rt_thread_priority_table[p]\<close>\<close>
  | WaitQ objref      \<comment> \<open>\<^verbatim>\<open>suspend_thread\<close> of an object\<close>
  | SendQ nat         \<comment> \<open>\<^verbatim>\<open>suspend_sender_thread\<close> of a mailbox\<close>
  | DrvQ drvq
  | DefunctQ          \<comment> \<open>\<^verbatim>\<open>rt_thread_defunct\<close>\<close>

record kernel =
  objs :: "objref \<Rightarrow> rt_object"
  obj_list :: "rt_object_class_type \<Rightarrow> objref list"
  thr :: "nat \<Rightarrow> rt_thread"
  tq :: "lhead \<Rightarrow> nat list"
  rt_current_thread :: "nat option"
  rt_current_priority :: rt_uint8
  rt_thread_ready_priority_group :: rt_uint32
  rt_scheduler_lock_nest :: "16 word"
  rt_interrupt_nest :: rt_uint8
  rt_tick :: rt_tick
  tmr :: "tmref \<Rightarrow> rt_timer"
  rt_timer_list :: "tmref list"
  sem :: "nat \<Rightarrow> rt_semaphore"
  mtx :: "nat \<Rightarrow> rt_mutex"
  evt :: "nat \<Rightarrow> rt_event"
  mbx :: "nat \<Rightarrow> rt_mailbox"
  mqs :: "nat \<Rightarrow> rt_messagequeue"
  mps :: "nat \<Rightarrow> rt_mempool"
  drv :: drivers
  global_errno :: rt_err
  freed_mem :: "rt_uint32 list"
  freed_objs :: "objref list"

text \<open>Assignments through a pointer.\<close>

definition upd_thr :: "nat \<Rightarrow> (rt_thread \<Rightarrow> rt_thread) \<Rightarrow> kernel \<Rightarrow> kernel" where
  [kernel_defs]: "upd_thr t f s = s\<lparr>thr := (thr s)(t := f (thr s t))\<rparr>"

definition upd_tmr :: "tmref \<Rightarrow> (rt_timer \<Rightarrow> rt_timer) \<Rightarrow> kernel \<Rightarrow> kernel" where
  [kernel_defs]: "upd_tmr r f s = s\<lparr>tmr := (tmr s)(r := f (tmr s r))\<rparr>"

definition upd_obj :: "objref \<Rightarrow> (rt_object \<Rightarrow> rt_object) \<Rightarrow> kernel \<Rightarrow> kernel" where
  [kernel_defs]: "upd_obj r f s = s\<lparr>objs := (objs s)(r := f (objs s r))\<rparr>"

definition upd_sem :: "nat \<Rightarrow> (rt_semaphore \<Rightarrow> rt_semaphore) \<Rightarrow> kernel \<Rightarrow> kernel" where
  [kernel_defs]: "upd_sem i f s = s\<lparr>sem := (sem s)(i := f (sem s i))\<rparr>"

definition upd_mtx :: "nat \<Rightarrow> (rt_mutex \<Rightarrow> rt_mutex) \<Rightarrow> kernel \<Rightarrow> kernel" where
  [kernel_defs]: "upd_mtx i f s = s\<lparr>mtx := (mtx s)(i := f (mtx s i))\<rparr>"

definition upd_evt :: "nat \<Rightarrow> (rt_event \<Rightarrow> rt_event) \<Rightarrow> kernel \<Rightarrow> kernel" where
  [kernel_defs]: "upd_evt i f s = s\<lparr>evt := (evt s)(i := f (evt s i))\<rparr>"

definition upd_mbx :: "nat \<Rightarrow> (rt_mailbox \<Rightarrow> rt_mailbox) \<Rightarrow> kernel \<Rightarrow> kernel" where
  [kernel_defs]: "upd_mbx i f s = s\<lparr>mbx := (mbx s)(i := f (mbx s i))\<rparr>"

definition upd_mqs :: "nat \<Rightarrow> (rt_messagequeue \<Rightarrow> rt_messagequeue) \<Rightarrow> kernel \<Rightarrow> kernel" where
  [kernel_defs]: "upd_mqs i f s = s\<lparr>mqs := (mqs s)(i := f (mqs s i))\<rparr>"

definition upd_mps :: "nat \<Rightarrow> (rt_mempool \<Rightarrow> rt_mempool) \<Rightarrow> kernel \<Rightarrow> kernel" where
  [kernel_defs]: "upd_mps i f s = s\<lparr>mps := (mps s)(i := f (mps s i))\<rparr>"

definition upd_dq :: "nat \<Rightarrow> (rt_data_queue \<Rightarrow> rt_data_queue) \<Rightarrow> kernel \<Rightarrow> kernel" where
  "upd_dq i f s = s\<lparr>drv := (drv s)\<lparr>dqs := (dqs (drv s))(i := f (dqs (drv s) i))\<rparr>\<rparr>"

definition upd_cmp :: "nat \<Rightarrow> (rt_completion \<Rightarrow> rt_completion) \<Rightarrow> kernel \<Rightarrow> kernel" where
  "upd_cmp i f s = s\<lparr>drv := (drv s)\<lparr>cmps := (cmps (drv s))(i := f (cmps (drv s) i))\<rparr>\<rparr>"

definition upd_dev :: "nat \<Rightarrow> (rt_device \<Rightarrow> rt_device) \<Rightarrow> kernel \<Rightarrow> kernel" where
  "upd_dev i f s = s\<lparr>drv := (drv s)\<lparr>devs := (devs (drv s))(i := f (devs (drv s) i))\<rparr>\<rparr>"

section \<open>The list nodes of threads\<close>

text \<open>Removing a node takes it out of whatever list it is in. The insertions describe the
  source only for a node that is in no list; the kernel invariant contains that no thread is
  in two places, so its preservation shows that no linked node is ever inserted.\<close>

definition tlist_linked :: "nat \<Rightarrow> kernel \<Rightarrow> bool" where
  "tlist_linked t s = (\<exists>h. t \<in> set (tq s h))"

definition tlist_remove :: "nat \<Rightarrow> kernel \<Rightarrow> kernel" where
  [kernel_defs]: "tlist_remove t s = s\<lparr>tq := (\<lambda>h. removeAll t (tq s h))\<rparr>"

definition tlist_push_back :: "lhead \<Rightarrow> nat \<Rightarrow> kernel \<Rightarrow> kernel" where
  [kernel_defs]: "tlist_push_back h t s = s\<lparr>tq := (tq s)(h := tq s h @ [t])\<rparr>"

definition tlist_push_front :: "lhead \<Rightarrow> nat \<Rightarrow> kernel \<Rightarrow> kernel" where
  [kernel_defs]: "tlist_push_front h t s = s\<lparr>tq := (tq s)(h := t # tq s h)\<rparr>"

definition tlist_init :: "lhead \<Rightarrow> kernel \<Rightarrow> kernel" where
  [kernel_defs]: "tlist_init h s = s\<lparr>tq := (tq s)(h := [])\<rparr>"

end
