(* ===== verification/RT_Object.thy ===== *)
theory RT_Object
  imports RT_State
begin

text \<open>The object system of src/object.c: the container with one list of objects for each
  class, the initialisation and detachment of static objects, the allocation and deletion
  of dynamic ones, and the search by name.

  A C string is the list of its bytes; reading at its end gives the terminating NUL.\<close>

section \<open>Names\<close>

definition cstr :: "rt_uint8 list \<Rightarrow> bool" where
  "cstr xs = (0 \<notin> set xs)"

definition char_at :: "rt_uint8 list \<Rightarrow> nat \<Rightarrow> rt_uint8" where
  "char_at xs i = (if i < length xs then xs ! i else 0)"

text \<open>\<^verbatim>\<open>rt_strncpy(object->name, name, n)\<close>: the bytes written, from index \<^term>\<open>i\<close> on. After a
  NUL the rest is padded with NULs.\<close>

fun strncpy_bytes :: "rt_uint8 list \<Rightarrow> nat \<Rightarrow> nat \<Rightarrow> rt_uint8 list" where
  "strncpy_bytes src i 0 = []"
| "strncpy_bytes src i (Suc n) =
    (if char_at src i = 0 then replicate (Suc n) 0
     else char_at src i # strncpy_bytes src (Suc i) n)"

text \<open>\<^verbatim>\<open>rt_strncmp(cs, ct, count)\<close>, from index \<^term>\<open>i\<close> on: the difference of the first
  characters that differ, truncated to a signed char. Plain char is unsigned on the target.\<close>

fun strncmp_bytes :: "rt_uint8 list \<Rightarrow> rt_uint8 list \<Rightarrow> nat \<Rightarrow> nat \<Rightarrow> int" where
  "strncmp_bytes cs ct i 0 = 0"
| "strncmp_bytes cs ct i (Suc n) =
    (let res = char_at cs i - char_at ct i
     in if res \<noteq> 0 then sint res
        else if char_at cs i = 0 then 0
        else strncmp_bytes cs ct (Suc i) n)"

lemma strncpy_bytes_length [simp]: "length (strncpy_bytes src i n) = n"
  by (induction src i n rule: strncpy_bytes.induct) auto

lemma strncpy_bytes_spec:
  "cstr src \<Longrightarrow> strncpy_bytes src i n = take n (drop i src @ replicate n 0)"
proof (induction src i n rule: strncpy_bytes.induct)
  case (2 src i n)
  have len: "i < length src \<Longrightarrow> src ! i \<noteq> 0" using 2(2) by (metis cstr_def nth_mem)
  show ?case
  proof (cases "i < length src")
    case True
    then show ?thesis using 2 len
      by (auto simp: char_at_def Cons_nth_drop_Suc[symmetric] take_Cons' Suc_diff_le)
  qed (simp add: char_at_def)
qed simp

section \<open>The container\<close>

text \<open>The table \<^verbatim>\<open>rt_object_container\<close> of the configuration: the classes that have an
  object list.\<close>

definition rt_object_container :: "rt_object_class_type list" where
  "rt_object_container =
    [RT_Object_Class_Thread, RT_Object_Class_Semaphore, RT_Object_Class_Mutex,
     RT_Object_Class_Event, RT_Object_Class_MailBox, RT_Object_Class_MessageQueue,
     RT_Object_Class_MemHeap, RT_Object_Class_MemPool, RT_Object_Class_Device,
     RT_Object_Class_Timer]"

fun find_class :: "rt_object_class_type list \<Rightarrow> rt_uint8 \<Rightarrow> rt_object_class_type option" where
  "find_class [] code = None"
| "find_class (c # cs) code = (if class_code c = code then Some c else find_class cs code)"

definition rt_object_get_information :: "rt_uint8 \<Rightarrow> rt_object_class_type option" where
  "rt_object_get_information code = find_class rt_object_container code"

lemma find_class_mem: "c \<in> set cs \<Longrightarrow> find_class cs (class_code c) = Some c"
  by (induction cs) auto

lemma find_class_SomeD: "find_class cs code = Some c \<Longrightarrow> c \<in> set cs \<and> class_code c = code"
  by (induction cs) (auto split: if_splits)

lemma rt_object_get_information_registered [simp]:
  "c \<in> set rt_object_container \<Longrightarrow> rt_object_get_information (class_code c) = Some c"
  by (simp add: rt_object_get_information_def find_class_mem)

section \<open>Attach and detach\<close>

definition obj_attach :: "rt_object_class_type \<Rightarrow> objref \<Rightarrow> kernel \<Rightarrow> kernel" where
  [kernel_defs]: "obj_attach c r s = s\<lparr>obj_list := (obj_list s)(c := r # obj_list s c)\<rparr>"

definition obj_unlink :: "objref \<Rightarrow> kernel \<Rightarrow> kernel" where
  [kernel_defs]: "obj_unlink r s = s\<lparr>obj_list := (\<lambda>c. removeAll r (obj_list s c))\<rparr>"

definition rt_object_init ::
  "objref \<Rightarrow> rt_object_class_type \<Rightarrow> rt_uint8 list \<Rightarrow> kernel \<Rightarrow> kernel option" where
  "rt_object_init r cls nm s = do {
     info \<leftarrow> rt_object_get_information (class_code cls);
     let s = upd_obj r (\<lambda>ob. ob\<lparr>obj_type := class_code cls OR RT_Object_Class_Static\<rparr>) s;
     let s = upd_obj r (\<lambda>ob. ob\<lparr>obj_name := strncpy_bytes nm 0 RT_NAME_MAX\<rparr>) s;
     Some (obj_attach info r s)
   }"

definition rt_object_detach :: "objref \<Rightarrow> kernel \<Rightarrow> kernel" where
  "rt_object_detach r s =
    obj_unlink r (upd_obj r (\<lambda>ob. ob\<lparr>obj_type := 0\<rparr>) s)"

text \<open>\<^verbatim>\<open>RT_DEBUG_NOT_IN_INTERRUPT\<close>.\<close>

definition not_in_interrupt :: "kernel \<Rightarrow> unit option" where
  "not_in_interrupt s = RT_ASSERT (rt_interrupt_nest s = 0)"

text \<open>The memory an object is allocated in comes from \<^verbatim>\<open>RT_KERNEL_MALLOC\<close>: its answer is the
  argument \<^term>\<open>mem\<close>, \<^const>\<open>None\<close> when there is no memory.\<close>

definition rt_object_allocate ::
  "objref option \<Rightarrow> rt_object_class_type \<Rightarrow> rt_uint8 list \<Rightarrow> kernel \<Rightarrow> (objref option \<times> kernel) option"
  where
  "rt_object_allocate mem cls nm s = do {
     not_in_interrupt s;
     info \<leftarrow> rt_object_get_information (class_code cls);
     (case mem of
        None \<Rightarrow> Some (None, s)
      | Some r \<Rightarrow>
          (let s = upd_obj r (\<lambda>_. \<lparr>obj_name = replicate RT_NAME_MAX 0, obj_type = 0, obj_flag = 0\<rparr>) s;
               s = upd_obj r (\<lambda>ob. ob\<lparr>obj_type := class_code cls\<rparr>) s;
               s = upd_obj r (\<lambda>ob. ob\<lparr>obj_flag := 0\<rparr>) s;
               s = upd_obj r (\<lambda>ob. ob\<lparr>obj_name := strncpy_bytes nm 0 RT_NAME_MAX\<rparr>) s
           in Some (Some r, obj_attach info r s)))
   }"

definition rt_object_delete :: "objref \<Rightarrow> kernel \<Rightarrow> kernel option" where
  "rt_object_delete r s = do {
     RT_ASSERT (obj_type (objs s r) AND RT_Object_Class_Static = 0);
     let s = obj_unlink r (upd_obj r (\<lambda>ob. ob\<lparr>obj_type := 0\<rparr>) s);
     Some (s\<lparr>freed_objs := r # freed_objs s\<rparr>)
   }"

definition rt_object_is_systemobject :: "objref \<Rightarrow> kernel \<Rightarrow> bool" where
  "rt_object_is_systemobject r s = (obj_type (objs s r) AND RT_Object_Class_Static \<noteq> 0)"

definition rt_object_get_type :: "objref \<Rightarrow> kernel \<Rightarrow> rt_uint8" where
  "rt_object_get_type r s = obj_type (objs s r) AND NOT RT_Object_Class_Static"

section \<open>Facts about types\<close>

lemma class_code_static:
  "(class_code c OR 0x80) AND NOT 0x80 = class_code c" "(class_code c OR 0x80) AND 0x80 \<noteq> 0"
  "class_code c AND 0x80 = 0" "class_code c AND NOT 0x80 = class_code c"
  by (cases c; simp)+

text \<open>The class of an object and whether it is registered.\<close>

definition is_class :: "kernel \<Rightarrow> objref \<Rightarrow> rt_object_class_type \<Rightarrow> bool" where
  "is_class s r c = (rt_object_get_type r s = class_code c)"

text \<open>What initialisation of a static object does.\<close>

lemma rt_object_init_Some:
  assumes "cls \<in> set rt_object_container"
  shows "rt_object_init r cls nm s = Some (s\<lparr>
      objs := (objs s)(r := (objs s r)\<lparr>obj_type := class_code cls OR RT_Object_Class_Static,
                                        obj_name := strncpy_bytes nm 0 RT_NAME_MAX\<rparr>),
      obj_list := (obj_list s)(cls := r # obj_list s cls)\<rparr>)"
  using assms by (simp add: rt_object_init_def upd_obj_def obj_attach_def Let_def)

lemma rt_object_detach_type [simp]: "rt_object_get_type r (rt_object_detach r s) = 0"
  by (simp add: rt_object_detach_def kernel_defs rt_object_get_type_def)

end
