(* ===== verification/RT_Order.thy ===== *)
theory RT_Order
  imports RT_Prelude
begin

text \<open>The contract of the kernel's ordered queues. The timer list is ordered by expiry and the
  wait queues of objects with \<^verbatim>\<open>RT_IPC_FLAG_PRIO\<close> by priority; both insert a new element after
  all elements that do not come later. The locale states what such an insertion loop does
  step by step, relative to a state that gives the keys, and derives what the kernel relies
  on: the contents, the order, and first-in first-out among equal keys.\<close>

definition sorted_key :: "('a \<Rightarrow> nat) \<Rightarrow> 'a list \<Rightarrow> bool" where
  "sorted_key key xs = sorted_wrt (\<lambda>a b. key a \<le> key b) xs"

lemma sorted_key_simps [simp]:
  "sorted_key key []"
  "sorted_key key (x # xs) = ((\<forall>y \<in> set xs. key x \<le> key y) \<and> sorted_key key xs)"
  by (simp_all add: sorted_key_def)

lemma sorted_key_removeAll [intro]: "sorted_key key xs \<Longrightarrow> sorted_key key (removeAll x xs)"
  by (simp add: sorted_key_def sorted_wrt_removeAll)

lemma sorted_key_cong:
  "(\<And>x. x \<in> set xs \<Longrightarrow> key' x = key x) \<Longrightarrow> sorted_key key' xs = sorted_key key xs"
  by (induction xs) auto

lemma sorted_key_mono:
  "sorted_key key xs \<Longrightarrow> (\<And>x y. x \<in> set xs \<Longrightarrow> y \<in> set xs \<Longrightarrow> key x \<le> key y \<Longrightarrow> key' x \<le> key' y)
    \<Longrightarrow> sorted_key key' xs"
  by (induction xs) auto

definition stable_insert :: "('a \<Rightarrow> nat) \<Rightarrow> 'a \<Rightarrow> 'a list \<Rightarrow> 'a list" where
  "stable_insert key x xs =
    takeWhile (\<lambda>y. key y \<le> key x) xs @ x # dropWhile (\<lambda>y. key y \<le> key x) xs"

lemma stable_insert_set [simp]: "set (stable_insert key x xs) = insert x (set xs)"
proof -
  have "set xs = set (takeWhile (\<lambda>y. key y \<le> key x) xs @ dropWhile (\<lambda>y. key y \<le> key x) xs)"
    by (simp only: takeWhile_dropWhile_id)
  then show ?thesis unfolding stable_insert_def set_append by auto
qed

lemma stable_insert_distinct:
  assumes "distinct xs" "x \<notin> set xs"
  shows "distinct (stable_insert key x xs)"
proof -
  let ?P = "\<lambda>y. key y \<le> key x"
  have "xs = takeWhile ?P xs @ dropWhile ?P xs" by (simp only: takeWhile_dropWhile_id)
  then have "distinct (takeWhile ?P xs @ dropWhile ?P xs)" "x \<notin> set (takeWhile ?P xs @ dropWhile ?P xs)"
    using assms by simp_all
  then show ?thesis unfolding stable_insert_def by (auto simp del: takeWhile_dropWhile_id)
qed

lemma stable_insert_sorted:
  "sorted_key key xs \<Longrightarrow> sorted_key key (stable_insert key x xs)"
proof (induction xs)
  case (Cons y ys)
  have "set (takeWhile (\<lambda>y. key y \<le> key x) ys) \<union> set (dropWhile (\<lambda>y. key y \<le> key x) ys) = set ys"
    by (simp only: set_append[symmetric] takeWhile_dropWhile_id)
  then show ?case using Cons by (fastforce simp: stable_insert_def)
qed (simp add: stable_insert_def)

locale ordered_queue =
  fixes key :: "'s \<Rightarrow> 'a \<Rightarrow> nat"
    and ins :: "'s \<Rightarrow> 'a \<Rightarrow> 'a list \<Rightarrow> 'a list"
    and ok :: "'s \<Rightarrow> 'a \<Rightarrow> 'a \<Rightarrow> bool"
  assumes ins_end: "ins s x [] = [x]"
    and ins_pass: "ok s x y \<Longrightarrow> key s y \<le> key s x \<Longrightarrow> ins s x (y # ys) = y # ins s x ys"
    and ins_stop: "ok s x y \<Longrightarrow> key s x < key s y \<Longrightarrow> ins s x (y # ys) = x # y # ys"
begin

lemma ins_stable:
  "\<forall>y \<in> set ys. ok s x y \<Longrightarrow> ins s x ys = stable_insert (key s) x ys"
  by (induction ys) (auto simp: stable_insert_def ins_end ins_pass ins_stop not_le)

lemma ins_members: "\<forall>y \<in> set ys. ok s x y \<Longrightarrow> set (ins s x ys) = insert x (set ys)"
  by (simp add: ins_stable)

lemma ins_distinct:
  "\<forall>y \<in> set ys. ok s x y \<Longrightarrow> distinct ys \<Longrightarrow> x \<notin> set ys \<Longrightarrow> distinct (ins s x ys)"
  by (simp add: ins_stable stable_insert_distinct)

lemma ins_keeps_order:
  "\<forall>y \<in> set ys. ok s x y \<Longrightarrow> sorted_key (key s) ys \<Longrightarrow> sorted_key (key s) (ins s x ys)"
  by (simp add: ins_stable stable_insert_sorted)

lemma ins_fifo:
  assumes "\<forall>y \<in> set ys. ok s x y" "sorted_key (key s) ys"
  shows "\<exists>us vs. ys = us @ vs \<and> ins s x ys = us @ x # vs
    \<and> (\<forall>u \<in> set us. key s u \<le> key s x) \<and> (\<forall>v \<in> set vs. key s x < key s v)"
proof (intro exI conjI)
  let ?P = "\<lambda>y. key s y \<le> key s x"
  show "ys = takeWhile ?P ys @ dropWhile ?P ys" by simp
  show "ins s x ys = takeWhile ?P ys @ x # dropWhile ?P ys"
    using ins_stable[OF assms(1)] by (simp add: stable_insert_def)
  show "\<forall>u \<in> set (takeWhile ?P ys). key s u \<le> key s x" by (auto dest: set_takeWhileD)
  have "\<forall>v \<in> set (dropWhile ?P ys). \<not> ?P v"
    using assms(2)
  proof (induction ys)
    case (Cons a as)
    then show ?case by (auto intro: order_less_le_trans simp: not_le)
  qed simp
  then show "\<forall>v \<in> set (dropWhile ?P ys). key s x < key s v" by (simp add: not_le)
qed

end

end
