(* ===== verification/RT_Timer.thy ===== *)
theory RT_Timer
  imports RT_Object RT_Order
begin

text \<open>The timers of src/timer.c in the configuration with one list level and no timer thread
  (\<^verbatim>\<open>RT_TIMER_SKIP_LIST_LEVEL\<close> 1, no \<^verbatim>\<open>RT_USING_TIMER_SOFT\<close>): initialisation, start, stop,
  control, detach, create and delete. The check of the timer list, which calls back into
  the scheduler, is in RT\_Clock. The counter \<^verbatim>\<open>random_nr\<close> only chooses list levels and has no
  effect with one level.\<close>

section \<open>Operations\<close>

definition timer_active :: "tmref \<Rightarrow> kernel \<Rightarrow> bool" where
  "timer_active r s = (obj_flag (objs s (OTimer r)) AND RT_TIMER_FLAG_ACTIVATED \<noteq> 0)"

definition timer_clear_active :: "tmref \<Rightarrow> kernel \<Rightarrow> kernel" where
  [kernel_defs]: "timer_clear_active r s =
    upd_obj (OTimer r) (\<lambda>ob. ob\<lparr>obj_flag := obj_flag ob AND NOT RT_TIMER_FLAG_ACTIVATED\<rparr>) s"

definition timer_set_active :: "tmref \<Rightarrow> kernel \<Rightarrow> kernel" where
  [kernel_defs]: "timer_set_active r s =
    upd_obj (OTimer r) (\<lambda>ob. ob\<lparr>obj_flag := obj_flag ob OR RT_TIMER_FLAG_ACTIVATED\<rparr>) s"

definition rt_timer_init0 :: "tmref \<Rightarrow> timeout_fn \<Rightarrow> rt_tick \<Rightarrow> rt_uint8 \<Rightarrow> kernel \<Rightarrow> kernel" where
  "rt_timer_init0 r fn time flag s =
    (let s = upd_obj (OTimer r) (\<lambda>ob. ob\<lparr>obj_flag := flag\<rparr>) s;
         s = timer_clear_active r s
     in upd_tmr r (\<lambda>_. \<lparr>timeout_func = fn, tm_init_tick = time, timeout_tick = 0\<rparr>) s)"

definition rt_timer_list_next_timeout :: "kernel \<Rightarrow> rt_tick" where
  "rt_timer_list_next_timeout s =
    (case rt_timer_list s of [] \<Rightarrow> RT_TICK_MAX | r # _ \<Rightarrow> timeout_tick (tmr s r))"

definition rt_timer_remove :: "tmref \<Rightarrow> kernel \<Rightarrow> kernel" where
  [kernel_defs]: "rt_timer_remove r s = s\<lparr>rt_timer_list := removeAll r (rt_timer_list s)\<rparr>"

definition rt_timer_init ::
  "tmref \<Rightarrow> rt_uint8 list \<Rightarrow> timeout_fn \<Rightarrow> rt_tick \<Rightarrow> rt_uint8 \<Rightarrow> kernel \<Rightarrow> kernel option" where
  "rt_timer_init r nm fn time flag s = do {
     s \<leftarrow> rt_object_init (OTimer r) RT_Object_Class_Timer nm s;
     Some (rt_timer_init0 r fn time flag s)
   }"

definition rt_timer_detach :: "tmref \<Rightarrow> kernel \<Rightarrow> (rt_err \<times> kernel) option" where
  "rt_timer_detach r s = do {
     RT_ASSERT (rt_object_get_type (OTimer r) s = class_code RT_Object_Class_Timer);
     RT_ASSERT (rt_object_is_systemobject (OTimer r) s);
     let s = rt_timer_remove r s;
     Some (RT_EOK, rt_object_detach (OTimer r) s)
   }"

definition rt_timer_create ::
  "objref option \<Rightarrow> rt_uint8 list \<Rightarrow> timeout_fn \<Rightarrow> rt_tick \<Rightarrow> rt_uint8 \<Rightarrow> kernel
    \<Rightarrow> (objref option \<times> kernel) option" where
  "rt_timer_create mem nm fn time flag s = do {
     (ob, s) \<leftarrow> rt_object_allocate mem RT_Object_Class_Timer nm s;
     (case ob of
        Some (OTimer r) \<Rightarrow> Some (Some (OTimer r), rt_timer_init0 r fn time flag s)
      | _ \<Rightarrow> Some (None, s))
   }"

definition rt_timer_delete :: "tmref \<Rightarrow> kernel \<Rightarrow> (rt_err \<times> kernel) option" where
  "rt_timer_delete r s = do {
     RT_ASSERT (rt_object_get_type (OTimer r) s = class_code RT_Object_Class_Timer);
     RT_ASSERT (\<not> rt_object_is_systemobject (OTimer r) s);
     let s = rt_timer_remove r s;
     s \<leftarrow> rt_object_delete (OTimer r) s;
     Some (RT_EOK, s)
   }"

text \<open>The search of \<^verbatim>\<open>rt_timer_start\<close> for the place of the new timer, by differences of expiry
  ticks modulo 2 to the 32.\<close>

fun timer_list_insert :: "(tmref \<Rightarrow> rt_tick) \<Rightarrow> tmref \<Rightarrow> tmref list \<Rightarrow> tmref list" where
  "timer_list_insert tt r [] = [r]"
| "timer_list_insert tt r (t # ts) =
    (if tt t - tt r = 0 then t # timer_list_insert tt r ts
     else if tt t - tt r < RT_TICK_MAX div 2 then r # t # ts
     else t # timer_list_insert tt r ts)"

definition rt_timer_start :: "tmref \<Rightarrow> kernel \<Rightarrow> (rt_err \<times> kernel) option" where
  "rt_timer_start r s = do {
     RT_ASSERT (rt_object_get_type (OTimer r) s = class_code RT_Object_Class_Timer);
     let s = rt_timer_remove r s;
     let s = timer_clear_active r s;
     RT_ASSERT (tm_init_tick (tmr s r) < RT_TICK_MAX div 2);
     let s = upd_tmr r (\<lambda>tm. tm\<lparr>timeout_tick := rt_tick s + tm_init_tick tm\<rparr>) s;
     let s = s\<lparr>rt_timer_list :=
               timer_list_insert (\<lambda>t. timeout_tick (tmr s t)) r (rt_timer_list s)\<rparr>;
     Some (RT_EOK, timer_set_active r s)
   }"

definition rt_timer_stop :: "tmref \<Rightarrow> kernel \<Rightarrow> (rt_err \<times> kernel) option" where
  "rt_timer_stop r s = do {
     RT_ASSERT (rt_object_get_type (OTimer r) s = class_code RT_Object_Class_Timer);
     (if \<not> timer_active r s then Some (- RT_ERROR, s)
      else (let s = rt_timer_remove r s in Some (RT_EOK, timer_clear_active r s)))
   }"

definition RT_TIMER_CTRL_SET_TIME :: int where "RT_TIMER_CTRL_SET_TIME = 0"
definition RT_TIMER_CTRL_GET_TIME :: int where "RT_TIMER_CTRL_GET_TIME = 1"
definition RT_TIMER_CTRL_SET_ONESHOT :: int where "RT_TIMER_CTRL_SET_ONESHOT = 2"
definition RT_TIMER_CTRL_SET_PERIODIC :: int where "RT_TIMER_CTRL_SET_PERIODIC = 3"

text \<open>The result holds the tick that \<^term>\<open>arg\<close> points to afterwards.\<close>

definition rt_timer_control ::
  "tmref \<Rightarrow> int \<Rightarrow> rt_tick \<Rightarrow> kernel \<Rightarrow> (rt_err \<times> rt_tick \<times> kernel) option" where
  "rt_timer_control r cmd arg s = do {
     RT_ASSERT (rt_object_get_type (OTimer r) s = class_code RT_Object_Class_Timer);
     (if cmd = RT_TIMER_CTRL_GET_TIME then Some (RT_EOK, tm_init_tick (tmr s r), s)
      else if cmd = RT_TIMER_CTRL_SET_TIME then
        Some (RT_EOK, arg, upd_tmr r (\<lambda>tm. tm\<lparr>tm_init_tick := arg\<rparr>) s)
      else if cmd = RT_TIMER_CTRL_SET_ONESHOT then
        Some (RT_EOK, arg, upd_obj (OTimer r)
          (\<lambda>ob. ob\<lparr>obj_flag := obj_flag ob AND NOT RT_TIMER_FLAG_PERIODIC\<rparr>) s)
      else if cmd = RT_TIMER_CTRL_SET_PERIODIC then
        Some (RT_EOK, arg, upd_obj (OTimer r)
          (\<lambda>ob. ob\<lparr>obj_flag := obj_flag ob OR RT_TIMER_FLAG_PERIODIC\<rparr>) s)
      else Some (RT_EOK, arg, s))
   }"

definition rt_timer_next_timeout_tick :: "kernel \<Rightarrow> rt_tick" where
  "rt_timer_next_timeout_tick s = rt_timer_list_next_timeout s"

definition rt_system_timer_init :: "kernel \<Rightarrow> kernel" where
  "rt_system_timer_init s = s\<lparr>rt_timer_list := []\<rparr>"

definition rt_tick_get :: "kernel \<Rightarrow> rt_tick" where
  "rt_tick_get s = rt_tick s"

section \<open>The order of the timer list\<close>

text \<open>The ticks left until a timer expires, plus one: a timer that expired at the previous tick
  and is not served yet has key 0, one that expires now has key 1.\<close>

definition tkey :: "kernel \<Rightarrow> tmref \<Rightarrow> nat" where
  "tkey s r = unat (timeout_tick (tmr s r) - rt_tick s + 1)"

definition tkey_max :: nat where "tkey_max = 0x7fffffff"

definition timer_inv :: "kernel \<Rightarrow> bool" where
  "timer_inv s = (distinct (rt_timer_list s) \<and> sorted_key (tkey s) (rt_timer_list s)
     \<and> (\<forall>r \<in> set (rt_timer_list s). tkey s r \<le> tkey_max))"

lemma RT_TICK_MAX_half: "RT_TICK_MAX div 2 = 0x7fffffff"
  by (simp add: RT_TICK_MAX_def)

lemma tick_later_iff:
  fixes x y :: rt_tick
  assumes "unat x \<le> 0x7fffffff" "unat y \<le> 0x7fffffff" "1 \<le> unat y"
  shows "x - y < 0x7fffffff \<longleftrightarrow> unat y \<le> unat x"
  using assms by (auto simp: word_less_nat_alt unat_sub_if')

definition timer_cmp_ok :: "kernel \<Rightarrow> tmref \<Rightarrow> tmref \<Rightarrow> bool" where
  "timer_cmp_ok s r t = (tkey s t \<le> tkey_max \<and> tkey s r \<le> tkey_max \<and> 1 \<le> tkey s r)"

lemma timer_diff:
  assumes "timer_cmp_ok s r t"
  shows "(timeout_tick (tmr s t) - timeout_tick (tmr s r) = 0) = (tkey s t = tkey s r)"
    and "(timeout_tick (tmr s t) - timeout_tick (tmr s r) < RT_TICK_MAX div 2)
      = (tkey s r \<le> tkey s t)"
proof -
  let ?x = "timeout_tick (tmr s t) - rt_tick s + 1" and ?y = "timeout_tick (tmr s r) - rt_tick s + 1"
  have d: "timeout_tick (tmr s t) - timeout_tick (tmr s r) = ?x - ?y" by simp
  show "(timeout_tick (tmr s t) - timeout_tick (tmr s r) = 0) = (tkey s t = tkey s r)"
    by (metis (no_types, opaque_lifting) d tkey_def diff_add_cancel right_minus_eq unsigned_word_eqI)
  show "(timeout_tick (tmr s t) - timeout_tick (tmr s r) < RT_TICK_MAX div 2)
      = (tkey s r \<le> tkey s t)"
    unfolding d RT_TICK_MAX_half using assms tick_later_iff[of ?x ?y]
    by (simp add: timer_cmp_ok_def tkey_def tkey_max_def)
qed

interpretation timer_queue: ordered_queue tkey
  "\<lambda>s. timer_list_insert (\<lambda>t. timeout_tick (tmr s t))" timer_cmp_ok
proof
  fix s r t ts
  assume ok: "timer_cmp_ok s r t"
  note d = timer_diff[OF ok]
  show "tkey s t \<le> tkey s r \<Longrightarrow> timer_list_insert (\<lambda>t. timeout_tick (tmr s t)) r (t # ts)
      = t # timer_list_insert (\<lambda>t. timeout_tick (tmr s t)) r ts"
    using d by (auto simp del: right_minus_eq)
  show "tkey s r < tkey s t \<Longrightarrow> timer_list_insert (\<lambda>t. timeout_tick (tmr s t)) r (t # ts)
      = r # t # ts"
    using d by (auto simp del: right_minus_eq)
qed simp

end
