(* ===== verification/RT_Sched.thy ===== *)
theory RT_Sched
  imports RT_Ffs RT_Timer
begin

text \<open>The scheduler of src/scheduler.c for one processor: the ready queues with their bitmap,
  insertion and removal of threads, the scheduling step, and the scheduler lock. The second
  part states the invariant of the kernel state that all components keep.\<close>

section \<open>Operations\<close>

text \<open>\<^verbatim>\<open>_rt_scheduler_stack_check\<close>: on an overflow the system stops in an endless loop. Pointers
  are compared as unsigned words; 0x23 is the character \<^verbatim>\<open>'#'\<close>.\<close>

definition stack_ok :: "rt_thread \<Rightarrow> bool" where
  "stack_ok th = (\<not> (stack_byte0 th \<noteq> 0x23 \<or> sp th \<le> stack_addr th
     \<or> stack_addr th + stack_size th < sp th))"

definition rt_scheduler_stack_check :: "nat \<Rightarrow> kernel \<Rightarrow> unit option" where
  "rt_scheduler_stack_check t s =
    (if stack_byte0 (thr s t) \<noteq> 0x23 \<or> sp (thr s t) \<le> stack_addr (thr s t)
        \<or> stack_addr (thr s t) + stack_size (thr s t) < sp (thr s t)
     then None else Some ())"

definition get_highest_priority_thread :: "kernel \<Rightarrow> (nat \<times> nat) option" where
  "get_highest_priority_thread s =
    (let p = rt_ffs (rt_thread_ready_priority_group s) - 1
     in case tq s (ReadyQ p) of [] \<Rightarrow> None | t # _ \<Rightarrow> Some (t, p))"

definition rt_system_scheduler_init :: "kernel \<Rightarrow> kernel" where
  "rt_system_scheduler_init s =
    s\<lparr>rt_scheduler_lock_nest := 0,
      tq := (\<lambda>h. case h of ReadyQ p \<Rightarrow> if p < RT_THREAD_PRIORITY_MAX then [] else tq s h
                         | DefunctQ \<Rightarrow> []
                         | _ \<Rightarrow> tq s h),
      rt_thread_ready_priority_group := 0\<rparr>"

definition rt_schedule_insert_thread :: "nat \<Rightarrow> kernel \<Rightarrow> kernel" where
  "rt_schedule_insert_thread t s =
    (let s = upd_thr t (\<lambda>th. th\<lparr>stat := RT_THREAD_READY OR (stat th AND NOT RT_THREAD_STAT_MASK)\<rparr>) s
     in if rt_current_thread s = Some t then s
        else let s = tlist_push_back (ReadyQ (unat (current_priority (thr s t)))) t s
             in s\<lparr>rt_thread_ready_priority_group :=
                    rt_thread_ready_priority_group s OR number_mask (thr s t)\<rparr>)"

definition rt_schedule_remove_thread :: "nat \<Rightarrow> kernel \<Rightarrow> kernel" where
  "rt_schedule_remove_thread t s =
    (let s = tlist_remove t s
     in if tq s (ReadyQ (unat (current_priority (thr s t)))) = []
        then s\<lparr>rt_thread_ready_priority_group :=
                 rt_thread_ready_priority_group s AND NOT (number_mask (thr s t))\<rparr>
        else s)"

definition rt_system_scheduler_start :: "kernel \<Rightarrow> kernel option" where
  "rt_system_scheduler_start s = do {
     (to, hp) \<leftarrow> get_highest_priority_thread s;
     let s = s\<lparr>rt_current_thread := Some to\<rparr>;
     Some (rt_schedule_remove_thread to s)
   }"

text \<open>The context switch makes the thread \<^term>\<open>rt_current_thread\<close> run, at once or, in an
  interrupt handler, when the handler returns.\<close>

definition rt_schedule :: "kernel \<Rightarrow> kernel option" where
  "rt_schedule s =
    (if rt_scheduler_lock_nest s = 0 then
       if rt_thread_ready_priority_group s \<noteq> 0 then do {
         (to0, hp) \<leftarrow> get_highest_priority_thread s;
         from \<leftarrow> rt_current_thread s;
         let ready = (stat (thr s from) AND RT_THREAD_STAT_MASK = RT_THREAD_READY);
         let stay = (ready \<and> unat (current_priority (thr s from)) < hp);
         let to = (if stay then from else to0);
         let need_insert_from_thread = (ready \<and> \<not> stay);
         (if to \<noteq> from then do {
            let s = s\<lparr>rt_current_priority := of_nat hp, rt_current_thread := Some to\<rparr>;
            let s = (if need_insert_from_thread then rt_schedule_insert_thread from s else s);
            let s = rt_schedule_remove_thread to s;
            rt_scheduler_stack_check to s;
            Some s
          } else Some (rt_schedule_remove_thread from s))
       } else Some s
     else Some s)"

definition rt_enter_critical :: "kernel \<Rightarrow> kernel" where
  "rt_enter_critical s = s\<lparr>rt_scheduler_lock_nest := rt_scheduler_lock_nest s + 1\<rparr>"

definition rt_exit_critical :: "kernel \<Rightarrow> kernel option" where
  "rt_exit_critical s =
    (let s = s\<lparr>rt_scheduler_lock_nest := rt_scheduler_lock_nest s - 1\<rparr>
     in if sint (rt_scheduler_lock_nest s) \<le> 0
        then rt_schedule (s\<lparr>rt_scheduler_lock_nest := 0\<rparr>)
        else Some s)"

definition rt_critical_level :: "kernel \<Rightarrow> rt_uint16" where
  "rt_critical_level s = rt_scheduler_lock_nest s"

section \<open>The status of a thread\<close>

definition tstat :: "kernel \<Rightarrow> nat \<Rightarrow> rt_uint8" where
  "tstat s t = stat (thr s t) AND RT_THREAD_STAT_MASK"

definition prio :: "kernel \<Rightarrow> nat \<Rightarrow> nat" where
  "prio s t = unat (current_priority (thr s t))"

definition is_ready :: "kernel \<Rightarrow> nat \<Rightarrow> bool" where
  "is_ready s t = (tstat s t = RT_THREAD_READY)"

definition is_suspended :: "kernel \<Rightarrow> nat \<Rightarrow> bool" where
  "is_suspended s t = (tstat s t = RT_THREAD_SUSPEND)"

definition is_closed :: "kernel \<Rightarrow> nat \<Rightarrow> bool" where
  "is_closed s t = (tstat s t = RT_THREAD_CLOSE)"

definition alive :: "kernel \<Rightarrow> nat \<Rightarrow> bool" where
  "alive s t = (is_ready s t \<or> is_suspended s t)"

lemmas stat_defs = tstat_def is_ready_def is_suspended_def is_closed_def alive_def

lemma stat_disjoint:
  "is_ready s t \<Longrightarrow> \<not> is_suspended s t" "is_ready s t \<Longrightarrow> \<not> is_closed s t"
  "is_suspended s t \<Longrightarrow> \<not> is_closed s t"
  by (auto simp: stat_defs flag_simps)

lemma stat_set_masked:
  fixes a x m :: rt_uint8
  assumes "a AND m = a"
  shows "(a OR (x AND NOT m)) AND m = a"
proof (rule bit_eqI)
  fix n
  have "bit (a AND m) n = bit a n" by (simp add: assms)
  then show "bit ((a OR (x AND NOT m)) AND m) n = bit a n"
    by (auto simp: bit_and_iff bit_or_iff bit_not_iff)
qed

lemma stat_set_simps [simp]:
  "(RT_THREAD_READY OR (x AND NOT RT_THREAD_STAT_MASK)) AND RT_THREAD_STAT_MASK = RT_THREAD_READY"
  "(RT_THREAD_SUSPEND OR (x AND NOT RT_THREAD_STAT_MASK)) AND RT_THREAD_STAT_MASK = RT_THREAD_SUSPEND"
  "RT_THREAD_CLOSE AND RT_THREAD_STAT_MASK = RT_THREAD_CLOSE"
  "RT_THREAD_INIT AND RT_THREAD_STAT_MASK = RT_THREAD_INIT"
  "RT_THREAD_SUSPEND AND RT_THREAD_STAT_MASK = RT_THREAD_SUSPEND"
  by (rule stat_set_masked, simp add: flag_simps)+ (simp_all add: flag_simps)

lemma stat_neq [simp]:
  "RT_THREAD_READY \<noteq> RT_THREAD_SUSPEND" "RT_THREAD_SUSPEND \<noteq> RT_THREAD_READY"
  "RT_THREAD_CLOSE \<noteq> RT_THREAD_READY" "RT_THREAD_CLOSE \<noteq> RT_THREAD_SUSPEND"
  "RT_THREAD_READY \<noteq> RT_THREAD_CLOSE" "RT_THREAD_SUSPEND \<noteq> RT_THREAD_CLOSE"
  "RT_THREAD_INIT \<noteq> RT_THREAD_READY" "RT_THREAD_INIT \<noteq> RT_THREAD_SUSPEND"
  "RT_THREAD_READY \<noteq> RT_THREAD_INIT" "RT_THREAD_SUSPEND \<noteq> RT_THREAD_INIT"
  "RT_THREAD_CLOSE \<noteq> RT_THREAD_INIT" "RT_THREAD_INIT \<noteq> RT_THREAD_CLOSE"
  by (simp_all add: flag_simps)

section \<open>The kernel invariant\<close>

text \<open>No thread is in two places.\<close>

definition queues_inv :: "kernel \<Rightarrow> bool" where
  "queues_inv s = ((\<forall>h. distinct (tq s h))
     \<and> (\<forall>h h' t. t \<in> set (tq s h) \<longrightarrow> t \<in> set (tq s h') \<longrightarrow> h = h'))"

text \<open>The ready queues hold exactly the ready threads that do not run, each in the queue of its
  priority, and the bitmap shows the queues that are not empty.\<close>

definition ready_inv :: "kernel \<Rightarrow> bool" where
  "ready_inv s =
    ((\<forall>p t. t \<in> set (tq s (ReadyQ p)) \<longrightarrow>
        is_ready s t \<and> prio s t = p \<and> rt_current_thread s \<noteq> Some t)
     \<and> (\<forall>t. is_ready s t \<longrightarrow> rt_current_thread s \<noteq> Some t \<longrightarrow> t \<in> set (tq s (ReadyQ (prio s t))))
     \<and> (\<forall>p < 32. bit (rt_thread_ready_priority_group s) p = (tq s (ReadyQ p) \<noteq> [])))"

text \<open>A thread that waits in a queue is suspended, a thread to be cleaned up is closed.\<close>

definition wait_inv :: "kernel \<Rightarrow> bool" where
  "wait_inv s =
    ((\<forall>r t. t \<in> set (tq s (WaitQ r)) \<longrightarrow> is_suspended s t)
     \<and> (\<forall>i t. t \<in> set (tq s (SendQ i)) \<longrightarrow> is_suspended s t)
     \<and> (\<forall>i t. t \<in> set (tq s (DrvQ i)) \<longrightarrow> is_suspended s t)
     \<and> (\<forall>t. t \<in> set (tq s DefunctQ) \<longrightarrow> is_closed s t))"

text \<open>What holds of every thread that has been started and not closed.\<close>

definition thread_ok :: "kernel \<Rightarrow> nat \<Rightarrow> bool" where
  "thread_ok s t =
    (prio s t < 32 \<and> number_mask (thr s t) = push_bit (prio s t) 1 \<and> stack_ok (thr s t)
     \<and> rt_object_get_type (OThread t) s = class_code RT_Object_Class_Thread
     \<and> rt_object_get_type (OTimer (ThreadTimer t)) s = class_code RT_Object_Class_Timer
     \<and> timeout_func (tmr s (ThreadTimer t)) = RT_thread_timeout t
     \<and> obj_flag (objs s (OTimer (ThreadTimer t))) AND RT_TIMER_FLAG_PERIODIC = 0)"

definition threads_inv :: "kernel \<Rightarrow> bool" where
  "threads_inv s = (\<forall>t. alive s t \<longrightarrow> thread_ok s t)"

text \<open>A timer in the list is a timer object; the timer of a thread is in the list only while the
  thread is suspended, and is then marked active.\<close>

definition ttimer_inv :: "kernel \<Rightarrow> bool" where
  "ttimer_inv s =
    ((\<forall>r \<in> set (rt_timer_list s).
        rt_object_get_type (OTimer r) s = class_code RT_Object_Class_Timer)
     \<and> (\<forall>t. ThreadTimer t \<in> set (rt_timer_list s) \<longrightarrow>
          is_suspended s t \<and> timer_active (ThreadTimer t) s))"

definition kinv :: "kernel \<Rightarrow> bool" where
  "kinv s = (queues_inv s \<and> ready_inv s \<and> wait_inv s \<and> threads_inv s \<and> ttimer_inv s \<and> timer_inv s)"

text \<open>Each part of the invariant sees only some fields.\<close>

lemma queues_inv_cong: "tq s' = tq s \<Longrightarrow> queues_inv s' = queues_inv s"
  by (simp add: queues_inv_def)

lemma status_cong:
  assumes "thr s' = thr s"
  shows "tstat s' = tstat s" "prio s' = prio s"
  by (auto simp: tstat_def prio_def assms fun_eq_iff)

lemma stat_cong:
  assumes "tstat s' = tstat s"
  shows "is_ready s' = is_ready s" "is_suspended s' = is_suspended s" "is_closed s' = is_closed s"
    "alive s' = alive s"
  by (auto simp: is_ready_def is_suspended_def is_closed_def alive_def assms fun_eq_iff)

lemma ready_inv_cong:
  assumes "tq s' = tq s" "tstat s' = tstat s" "prio s' = prio s"
    "rt_current_thread s' = rt_current_thread s"
    "rt_thread_ready_priority_group s' = rt_thread_ready_priority_group s"
  shows "ready_inv s' = ready_inv s"
  unfolding ready_inv_def is_ready_def assms ..

lemma wait_inv_cong:
  assumes "tq s' = tq s" "tstat s' = tstat s"
  shows "wait_inv s' = wait_inv s"
  unfolding wait_inv_def is_suspended_def is_closed_def assms ..

lemma thread_ok_cong:
  assumes "thr s' = thr s" "objs s' = objs s" "tmr s' = tmr s"
  shows "thread_ok s' = thread_ok s"
  by (rule ext) (simp add: thread_ok_def prio_def rt_object_get_type_def assms)

lemma threads_inv_cong:
  assumes "tstat s' = tstat s" "thread_ok s' = thread_ok s"
  shows "threads_inv s' = threads_inv s"
  unfolding threads_inv_def alive_def is_ready_def is_suspended_def assms ..

lemma ttimer_inv_cong:
  assumes "tstat s' = tstat s" "objs s' = objs s" "rt_timer_list s' = rt_timer_list s"
  shows "ttimer_inv s' = ttimer_inv s"
  unfolding ttimer_inv_def is_suspended_def rt_object_get_type_def timer_active_def assms ..

lemma timer_inv_cong:
  assumes "tmr s' = tmr s" "rt_tick s' = rt_tick s" "rt_timer_list s' = rt_timer_list s"
  shows "timer_inv s' = timer_inv s"
  unfolding timer_inv_def tkey_def[abs_def] assms ..

lemmas inv_congs = queues_inv_cong ready_inv_cong wait_inv_cong threads_inv_cong ttimer_inv_cong
  timer_inv_cong thread_ok_cong

lemma kinvI:
  "queues_inv s \<Longrightarrow> ready_inv s \<Longrightarrow> wait_inv s \<Longrightarrow> threads_inv s \<Longrightarrow> ttimer_inv s \<Longrightarrow> timer_inv s
    \<Longrightarrow> kinv s"
  by (simp add: kinv_def)

lemma kinvD:
  assumes "kinv s"
  shows "queues_inv s" "ready_inv s" "wait_inv s" "threads_inv s" "ttimer_inv s" "timer_inv s"
  using assms by (simp_all add: kinv_def)

lemma queue_distinct: "kinv s \<Longrightarrow> distinct (tq s h)"
  by (simp add: kinv_def queues_inv_def)

lemma queue_unique: "kinv s \<Longrightarrow> t \<in> set (tq s h) \<Longrightarrow> t \<in> set (tq s h') \<Longrightarrow> h = h'"
  by (auto simp: kinv_def queues_inv_def)

lemma ready_queued:
  "kinv s \<Longrightarrow> t \<in> set (tq s (ReadyQ p)) \<Longrightarrow>
    is_ready s t \<and> prio s t = p \<and> rt_current_thread s \<noteq> Some t"
  by (auto simp: kinv_def ready_inv_def)

lemma ready_in_queue:
  "kinv s \<Longrightarrow> is_ready s t \<Longrightarrow> rt_current_thread s \<noteq> Some t \<Longrightarrow> t \<in> set (tq s (ReadyQ (prio s t)))"
  by (auto simp: kinv_def ready_inv_def)

lemma group_bit:
  "kinv s \<Longrightarrow> p < 32 \<Longrightarrow> bit (rt_thread_ready_priority_group s) p = (tq s (ReadyQ p) \<noteq> [])"
  by (auto simp: kinv_def ready_inv_def)

lemma alive_ok: "kinv s \<Longrightarrow> alive s t \<Longrightarrow> thread_ok s t"
  by (auto simp: kinv_def threads_inv_def)

lemma waiting_suspended:
  "kinv s \<Longrightarrow> t \<in> set (tq s (WaitQ r)) \<Longrightarrow> is_suspended s t"
  "kinv s \<Longrightarrow> t \<in> set (tq s (SendQ i)) \<Longrightarrow> is_suspended s t"
  "kinv s \<Longrightarrow> t \<in> set (tq s DefunctQ) \<Longrightarrow> is_closed s t"
  "kinv s \<Longrightarrow> t \<in> set (tq s (DrvQ q)) \<Longrightarrow> is_suspended s t"
  by (auto simp: kinv_def wait_inv_def)

lemma queued_stat:
  assumes "kinv s" "t \<in> set (tq s h)"
  shows "(\<exists>p. h = ReadyQ p) = is_ready s t" "(h = DefunctQ) = is_closed s t"
proof -
  have "case h of ReadyQ p \<Rightarrow> is_ready s t | DefunctQ \<Rightarrow> is_closed s t | _ \<Rightarrow> is_suspended s t"
    using assms ready_queued waiting_suspended by (cases h) auto
  then show "(\<exists>p. h = ReadyQ p) = is_ready s t" "(h = DefunctQ) = is_closed s t"
    using stat_disjoint by (cases h; auto)+
qed

section \<open>What insertion and removal change\<close>

lemma insert_thread_thr:
  "thr (rt_schedule_insert_thread t s) =
    (thr s)(t := (thr s t)\<lparr>stat := RT_THREAD_READY OR (stat (thr s t) AND NOT RT_THREAD_STAT_MASK)\<rparr>)"
  by (simp add: rt_schedule_insert_thread_def kernel_defs Let_def)

lemma insert_thread_tq:
  "tq (rt_schedule_insert_thread t s) =
    (if rt_current_thread s = Some t then tq s
     else (tq s)(ReadyQ (prio s t) := tq s (ReadyQ (prio s t)) @ [t]))"
  by (simp add: rt_schedule_insert_thread_def kernel_defs Let_def prio_def)

lemma insert_thread_group:
  "rt_thread_ready_priority_group (rt_schedule_insert_thread t s) =
    (if rt_current_thread s = Some t then rt_thread_ready_priority_group s
     else rt_thread_ready_priority_group s OR number_mask (thr s t))"
  by (simp add: rt_schedule_insert_thread_def kernel_defs Let_def)

lemma insert_thread_frame [simp]:
  "objs (rt_schedule_insert_thread t s) = objs s"
  "obj_list (rt_schedule_insert_thread t s) = obj_list s"
  "rt_current_thread (rt_schedule_insert_thread t s) = rt_current_thread s"
  "rt_current_priority (rt_schedule_insert_thread t s) = rt_current_priority s"
  "rt_scheduler_lock_nest (rt_schedule_insert_thread t s) = rt_scheduler_lock_nest s"
  "rt_interrupt_nest (rt_schedule_insert_thread t s) = rt_interrupt_nest s"
  "rt_tick (rt_schedule_insert_thread t s) = rt_tick s"
  "tmr (rt_schedule_insert_thread t s) = tmr s"
  "rt_timer_list (rt_schedule_insert_thread t s) = rt_timer_list s"
  "sem (rt_schedule_insert_thread t s) = sem s"
  "mtx (rt_schedule_insert_thread t s) = mtx s"
  "evt (rt_schedule_insert_thread t s) = evt s"
  "mbx (rt_schedule_insert_thread t s) = mbx s"
  "mqs (rt_schedule_insert_thread t s) = mqs s"
  "mps (rt_schedule_insert_thread t s) = mps s" "drv (rt_schedule_insert_thread t s) = drv s"
  "freed_mem (rt_schedule_insert_thread t s) = freed_mem s"
  "freed_objs (rt_schedule_insert_thread t s) = freed_objs s"
  "global_errno (rt_schedule_insert_thread t s) = global_errno s"
  by (simp_all add: rt_schedule_insert_thread_def kernel_defs Let_def)

lemma insert_thread_status [simp]:
  "tstat (rt_schedule_insert_thread t s) u = (if u = t then RT_THREAD_READY else tstat s u)"
  "prio (rt_schedule_insert_thread t s) u = prio s u"
  "thread_ok (rt_schedule_insert_thread t s) u = thread_ok s u"
  "stack_ok (thr (rt_schedule_insert_thread t s) u) = stack_ok (thr s u)"
  by (simp_all add: tstat_def prio_def insert_thread_thr thread_ok_def rt_object_get_type_def
      stack_ok_def)

lemma remove_thread_tq:
  "tq (rt_schedule_remove_thread t s) = (\<lambda>h. removeAll t (tq s h))"
  by (simp add: rt_schedule_remove_thread_def kernel_defs Let_def)

lemma remove_thread_group:
  "rt_thread_ready_priority_group (rt_schedule_remove_thread t s) =
    (if removeAll t (tq s (ReadyQ (prio s t))) = []
     then rt_thread_ready_priority_group s AND NOT (number_mask (thr s t))
     else rt_thread_ready_priority_group s)"
  by (simp add: rt_schedule_remove_thread_def kernel_defs Let_def prio_def)

lemma remove_thread_frame [simp]:
  "objs (rt_schedule_remove_thread t s) = objs s"
  "obj_list (rt_schedule_remove_thread t s) = obj_list s"
  "thr (rt_schedule_remove_thread t s) = thr s"
  "rt_current_thread (rt_schedule_remove_thread t s) = rt_current_thread s"
  "rt_current_priority (rt_schedule_remove_thread t s) = rt_current_priority s"
  "rt_scheduler_lock_nest (rt_schedule_remove_thread t s) = rt_scheduler_lock_nest s"
  "rt_interrupt_nest (rt_schedule_remove_thread t s) = rt_interrupt_nest s"
  "rt_tick (rt_schedule_remove_thread t s) = rt_tick s"
  "tmr (rt_schedule_remove_thread t s) = tmr s"
  "rt_timer_list (rt_schedule_remove_thread t s) = rt_timer_list s"
  "sem (rt_schedule_remove_thread t s) = sem s"
  "mtx (rt_schedule_remove_thread t s) = mtx s"
  "evt (rt_schedule_remove_thread t s) = evt s"
  "mbx (rt_schedule_remove_thread t s) = mbx s"
  "mqs (rt_schedule_remove_thread t s) = mqs s"
  "mps (rt_schedule_remove_thread t s) = mps s" "drv (rt_schedule_remove_thread t s) = drv s"
  "freed_mem (rt_schedule_remove_thread t s) = freed_mem s"
  "freed_objs (rt_schedule_remove_thread t s) = freed_objs s"
  "global_errno (rt_schedule_remove_thread t s) = global_errno s"
  by (simp_all add: rt_schedule_remove_thread_def kernel_defs Let_def)

lemma remove_thread_status [simp]:
  "tstat (rt_schedule_remove_thread t s) u = tstat s u"
  "prio (rt_schedule_remove_thread t s) u = prio s u"
  "thread_ok (rt_schedule_remove_thread t s) u = thread_ok s u"
  by (simp_all add: tstat_def prio_def thread_ok_def rt_object_get_type_def)

section \<open>The bitmap\<close>

definition bitmap_ok :: "kernel \<Rightarrow> bool" where
  "bitmap_ok s = (\<forall>p < 32. bit (rt_thread_ready_priority_group s) p = (tq s (ReadyQ p) \<noteq> []))"

definition mask_ok :: "kernel \<Rightarrow> nat \<Rightarrow> bool" where
  "mask_ok s t = (prio s t < 32 \<and> number_mask (thr s t) = push_bit (prio s t) 1)"

lemma thread_ok_mask: "thread_ok s t \<Longrightarrow> mask_ok s t"
  by (simp add: thread_ok_def mask_ok_def)

lemma bitmap_insert:
  assumes "bitmap_ok s" "mask_ok s t"
  shows "bitmap_ok (rt_schedule_insert_thread t s)"
  using assms bit_one_push32[of "prio s t"]
  by (auto simp: bitmap_ok_def mask_ok_def insert_thread_tq insert_thread_group bit_or_iff)

lemma bitmap_remove:
  assumes "bitmap_ok s" "mask_ok s t" "\<And>p. t \<in> set (tq s (ReadyQ p)) \<Longrightarrow> p = prio s t"
  shows "bitmap_ok (rt_schedule_remove_thread t s)"
proof -
  have "removeAll t (tq s (ReadyQ p)) = tq s (ReadyQ p)" if "p \<noteq> prio s t" for p
    using assms(3)[of p] that by (metis removeAll_id)
  moreover have "bit (push_bit (prio s t) (1 :: 32 word)) p = (p = prio s t)" if "p < 32" for p
    using assms(2) bit_one_push32[of "prio s t" p] by (simp add: mask_ok_def)
  ultimately show ?thesis
    using assms(1,2)
    by (auto simp: bitmap_ok_def mask_ok_def remove_thread_tq remove_thread_group bit_and_iff
        bit_not_iff) metis+
qed

lemma group_nonzero:
  assumes "bitmap_ok s"
  shows "rt_thread_ready_priority_group s \<noteq> 0 \<longleftrightarrow> (\<exists>p < 32. tq s (ReadyQ p) \<noteq> [])"
  using assms word32_nonzero_bit[of "rt_thread_ready_priority_group s"]
  by (auto simp: bitmap_ok_def)

text \<open>The first set bit of the bitmap is the number of the most urgent queue that is not
  empty.\<close>

lemma highest_some:
  assumes "bitmap_ok s" "rt_thread_ready_priority_group s \<noteq> 0"
  obtains t p where "get_highest_priority_thread s = Some (t, p)" "p < 32"
    "tq s (ReadyQ p) \<noteq> []" "t = hd (tq s (ReadyQ p))" "\<forall>q < p. tq s (ReadyQ q) = []"
proof -
  let ?p = "rt_ffs (rt_thread_ready_priority_group s) - 1"
  have p: "?p < 32" "tq s (ReadyQ ?p) \<noteq> []" "\<forall>q < ?p. tq s (ReadyQ q) = []"
    using rt_ffs_lowest[OF assms(2)] assms(1) by (auto simp: bitmap_ok_def)
  then obtain t ts where "tq s (ReadyQ ?p) = t # ts" by (cases "tq s (ReadyQ ?p)") auto
  then show ?thesis using p by (intro that[of t ?p]) (auto simp: get_highest_priority_thread_def Let_def)
qed

section \<open>Making a thread ready\<close>

lemma suspended_not_ready_queue:
  "kinv s \<Longrightarrow> \<not> is_ready s t \<Longrightarrow> t \<notin> set (tq s (ReadyQ p))"
  using ready_queued by auto

lemma kinv_bitmap: "kinv s \<Longrightarrow> bitmap_ok s"
  by (simp add: kinv_def ready_inv_def bitmap_ok_def)

text \<open>A suspended thread that is in no queue and whose timer does not run becomes ready.\<close>

lemma kinv_insert_thread:
  assumes k: "kinv s" and t: "is_suspended s t" "\<not> tlist_linked t s"
    and tm: "ThreadTimer t \<notin> set (rt_timer_list s)"
  shows "kinv (rt_schedule_insert_thread t s)" (is "kinv ?s")
proof (rule kinvI)
  note K = kinvD[OF k]
  have unl: "t \<notin> set (tq s h)" for h using t(2) by (simp add: tlist_linked_def)
  have ok: "thread_ok s t" using alive_ok[OF k] t(1) by (simp add: alive_def)
  have st: "is_ready ?s u = (u = t \<or> is_ready s u)" "is_suspended ?s u = (u \<noteq> t \<and> is_suspended s u)"
    "is_closed ?s u = (u \<noteq> t \<and> is_closed s u)" for u
    by (simp_all add: is_ready_def is_suspended_def is_closed_def)
  have q: "u \<in> set (tq ?s h) \<longleftrightarrow> u \<in> set (tq s h)
      \<or> (u = t \<and> h = ReadyQ (prio s t) \<and> rt_current_thread s \<noteq> Some t)" for u h
    by (auto simp: insert_thread_tq)
  show "queues_inv ?s"
    using K(1) unl unfolding queues_inv_def q by (auto simp: insert_thread_tq)
  have "bitmap_ok ?s" by (rule bitmap_insert[OF kinv_bitmap[OF k] thread_ok_mask[OF ok]])
  then show "ready_inv ?s"
    using K(2) unl unfolding ready_inv_def bitmap_ok_def[symmetric] st q by auto
  show "wait_inv ?s"
    using K(3) unl unfolding wait_inv_def st q by blast
  show "threads_inv ?s"
    using K(4) ok by (auto simp: threads_inv_def alive_def st)
  show "ttimer_inv ?s"
    using K(5) tm unfolding ttimer_inv_def st by (auto simp: rt_object_get_type_def timer_active_def)
  show "timer_inv ?s"
    using K(6) by (simp add: timer_inv_def tkey_def[abs_def])
qed

text \<open>A suspended thread leaves the queue it waits in.\<close>

lemma tlist_remove_frame [simp]:
  "objs (tlist_remove t s) = objs s" "thr (tlist_remove t s) = thr s" "tmr (tlist_remove t s) = tmr s"
  "obj_list (tlist_remove t s) = obj_list s"
  "rt_current_thread (tlist_remove t s) = rt_current_thread s"
  "rt_thread_ready_priority_group (tlist_remove t s) = rt_thread_ready_priority_group s"
  "rt_timer_list (tlist_remove t s) = rt_timer_list s" "rt_tick (tlist_remove t s) = rt_tick s"
  "tstat (tlist_remove t s) = tstat s" "prio (tlist_remove t s) = prio s"
  by (simp_all add: tlist_remove_def tstat_def[abs_def] prio_def[abs_def])

lemma tlist_remove_tq: "tq (tlist_remove t s) h = removeAll t (tq s h)"
  by (simp add: tlist_remove_def)

lemma kinv_tlist_remove:
  assumes k: "kinv s" and t: "is_suspended s t"
  shows "kinv (tlist_remove t s)" "\<not> tlist_linked t (tlist_remove t s)"
    "tq (tlist_remove t s) (ReadyQ p) = tq s (ReadyQ p)"
proof -
  note K = kinvD[OF k]
  let ?s = "tlist_remove t s"
  have nr: "tq ?s (ReadyQ p) = tq s (ReadyQ p)" for p
    using suspended_not_ready_queue[OF k] t stat_disjoint by (simp add: tlist_remove_def) (meson removeAll_id)
  have q: "u \<in> set (tq ?s h) \<longleftrightarrow> u \<in> set (tq s h) \<and> u \<noteq> t" for u h
    by (simp add: tlist_remove_def)
  show "tq ?s (ReadyQ p) = tq s (ReadyQ p)" by (rule nr)
  show "\<not> tlist_linked t ?s" by (simp add: tlist_linked_def q)
  show "kinv ?s"
  proof (rule kinvI)
    show "queues_inv ?s"
      using K(1) unfolding queues_inv_def q by (simp add: tlist_remove_def distinct_removeAll) blast
    show "ready_inv ?s"
      using K(2) unfolding ready_inv_def nr is_ready_def by simp
    show "wait_inv ?s"
      using K(3) unfolding wait_inv_def q is_suspended_def is_closed_def by auto
    show "threads_inv ?s" using K(4) threads_inv_cong[of ?s s] thread_ok_cong[of ?s s] by simp
    show "ttimer_inv ?s" using K(5) ttimer_inv_cong[of ?s s] by simp
    show "timer_inv ?s" using K(6) timer_inv_cong[of ?s s] by simp
  qed
qed

section \<open>The scheduling step\<close>

text \<open>The scheduler changes the ready queues and their bitmap, and which thread runs.\<close>

definition sched_only :: "kernel \<Rightarrow> kernel \<Rightarrow> bool" where
  "sched_only s s' =
    (s' = s\<lparr>tq := tq s', rt_current_thread := rt_current_thread s',
            rt_current_priority := rt_current_priority s',
            rt_thread_ready_priority_group := rt_thread_ready_priority_group s'\<rparr>
     \<and> (\<forall>h. (\<forall>p. h \<noteq> ReadyQ p) \<longrightarrow> tq s' h = tq s h))"

lemma sched_only_refl [simp]: "sched_only s s"
  by (simp add: sched_only_def)

lemma sched_onlyD:
  assumes "sched_only s s'"
  shows "objs s' = objs s" "obj_list s' = obj_list s" "thr s' = thr s"
    "rt_scheduler_lock_nest s' = rt_scheduler_lock_nest s" "rt_interrupt_nest s' = rt_interrupt_nest s"
    "rt_tick s' = rt_tick s" "tmr s' = tmr s" "rt_timer_list s' = rt_timer_list s"
    "sem s' = sem s" "mtx s' = mtx s" "evt s' = evt s" "mbx s' = mbx s" "mqs s' = mqs s"
    "mps s' = mps s" "global_errno s' = global_errno s" "freed_mem s' = freed_mem s"
    "freed_objs s' = freed_objs s" "tq s' (WaitQ r) = tq s (WaitQ r)" "tq s' (SendQ i) = tq s (SendQ i)"
    "tq s' DefunctQ = tq s DefunctQ" "tq s' (DrvQ q) = tq s (DrvQ q)" "drv s' = drv s"
proof -
  let ?u = "s\<lparr>tq := tq s', rt_current_thread := rt_current_thread s',
            rt_current_priority := rt_current_priority s',
            rt_thread_ready_priority_group := rt_thread_ready_priority_group s'\<rparr>"
  have e: "s' = ?u" using assms by (simp add: sched_only_def)
  show "objs s' = objs s" "obj_list s' = obj_list s" "thr s' = thr s"
    "rt_scheduler_lock_nest s' = rt_scheduler_lock_nest s" "rt_interrupt_nest s' = rt_interrupt_nest s"
    "rt_tick s' = rt_tick s" "tmr s' = tmr s" "rt_timer_list s' = rt_timer_list s"
    "sem s' = sem s" "mtx s' = mtx s" "evt s' = evt s" "mbx s' = mbx s" "mqs s' = mqs s"
    "mps s' = mps s" "global_errno s' = global_errno s" "freed_mem s' = freed_mem s"
    "freed_objs s' = freed_objs s" "drv s' = drv s"
    by (subst e, simp)+
  show "tq s' (WaitQ r) = tq s (WaitQ r)" "tq s' (SendQ i) = tq s (SendQ i)"
    "tq s' DefunctQ = tq s DefunctQ" "tq s' (DrvQ q) = tq s (DrvQ q)"
    using assms by (simp_all add: sched_only_def)
qed

lemma sched_only_status:
  assumes "sched_only s s'"
  shows "tstat s' t = tstat s t" "prio s' t = prio s t" "is_ready s' t = is_ready s t"
    "is_suspended s' t = is_suspended s t" "is_closed s' t = is_closed s t"
  using sched_onlyD[OF assms] by (simp_all add: stat_defs prio_def)

lemma stat_ready_idem:
  fixes x a m :: rt_uint8
  assumes "x AND m = a"
  shows "a OR (x AND NOT m) = x"
  unfolding assms[symmetric] by (rule bit_eqI) (auto simp: bit_simps)

lemma insert_ready_thr:
  "is_ready s t \<Longrightarrow> thr (rt_schedule_insert_thread t s) = thr s"
  by (simp add: insert_thread_thr is_ready_def tstat_def stat_ready_idem)

text \<open>The current thread keeps the processor when it is ready and more urgent than every queued
  thread; then nothing changes.\<close>

lemma empty_queue_mask:
  assumes k: "kinv s" and m: "mask_ok s t" and e: "tq s (ReadyQ (prio s t)) = []"
  shows "rt_thread_ready_priority_group s AND NOT (number_mask (thr s t)) = rt_thread_ready_priority_group s"
proof (rule bit_eqI)
  fix n
  have "bit (number_mask (thr s t)) n = (n = prio s t)"
    using m by (simp add: mask_ok_def bit_exp32)
  moreover have "\<not> bit (rt_thread_ready_priority_group s) (prio s t)"
    using group_bit[OF k] m e by (simp add: mask_ok_def)
  ultimately show "bit (rt_thread_ready_priority_group s AND NOT (number_mask (thr s t))) n
      = bit (rt_thread_ready_priority_group s) n"
    by (auto simp: bit_simps dest: bit_imp_le_length)
qed

lemma remove_thread_noop:
  assumes "\<not> tlist_linked t s"
    and "tq s (ReadyQ (prio s t)) = [] \<Longrightarrow>
      rt_thread_ready_priority_group s AND NOT (number_mask (thr s t)) = rt_thread_ready_priority_group s"
  shows "rt_schedule_remove_thread t s = s"
proof -
  have "\<And>h. removeAll t (tq s h) = tq s h" using assms(1) by (simp add: tlist_linked_def)
  then show ?thesis using assms(2)
    by (cases s) (auto simp: rt_schedule_remove_thread_def tlist_remove_def Let_def prio_def)
qed

lemma running_unlinked:
  assumes "kinv s" "rt_current_thread s = Some c" "is_ready s c"
  shows "c \<notin> set (tq s h)" "\<not> tlist_linked c s"
  using queued_stat(1)[OF assms(1), of c] ready_queued[OF assms(1), of c] assms(2,3)
  by (auto simp: tlist_linked_def)

lemma remove_running_thread:
  assumes k: "kinv s" and c: "rt_current_thread s = Some c" "is_ready s c"
  shows "rt_schedule_remove_thread c s = s"
proof (rule remove_thread_noop[OF running_unlinked(2)[OF assms]])
  have "mask_ok s c" using c alive_ok[OF k] thread_ok_mask by (simp add: alive_def)
  then show "tq s (ReadyQ (prio s c)) = [] \<Longrightarrow>
      rt_thread_ready_priority_group s AND NOT (number_mask (thr s c)) = rt_thread_ready_priority_group s"
    by (rule empty_queue_mask[OF k])
qed

definition switch_to :: "nat \<Rightarrow> nat \<Rightarrow> nat \<Rightarrow> kernel \<Rightarrow> kernel" where
  "switch_to c t p s =
    rt_schedule_remove_thread t
      ((if is_ready s c then rt_schedule_insert_thread c else id)
         (s\<lparr>rt_current_priority := of_nat p, rt_current_thread := Some t\<rparr>))"

lemma rt_schedule_locked: "rt_scheduler_lock_nest s \<noteq> 0 \<Longrightarrow> rt_schedule s = Some s"
  by (simp add: rt_schedule_def)

lemma rt_schedule_idle: "rt_thread_ready_priority_group s = 0 \<Longrightarrow> rt_schedule s = Some s"
  by (simp add: rt_schedule_def)

lemma rt_schedule_stay:
  assumes "kinv s" "rt_current_thread s = Some c" "is_ready s c"
    "get_highest_priority_thread s = Some (t, p)" "prio s c < p"
  shows "rt_schedule s = Some s"
  using assms remove_running_thread[OF assms(1-3)]
  by (simp add: rt_schedule_def is_ready_def tstat_def prio_def Let_def)

lemma rt_schedule_switch:
  assumes k: "kinv s" and c: "rt_current_thread s = Some c" and l: "rt_scheduler_lock_nest s = 0"
    and g: "rt_thread_ready_priority_group s \<noteq> 0"
    and h: "get_highest_priority_thread s = Some (t, p)"
    and n: "\<not> (is_ready s c \<and> prio s c < p)"
  shows "rt_schedule s = Some (switch_to c t p s)" "t \<noteq> c" "is_ready s t" "prio s t = p"
    "t \<in> set (tq s (ReadyQ p))"
proof -
  show t: "t \<in> set (tq s (ReadyQ p))"
    using h by (auto simp: get_highest_priority_thread_def Let_def split: list.splits)
  show r: "is_ready s t" "prio s t = p" and tc: "t \<noteq> c"
    using ready_queued[OF k t] c by auto
  have "stack_ok (thr s t)" using alive_ok[OF k] r by (simp add: alive_def thread_ok_def)
  then have "rt_scheduler_stack_check t (switch_to c t p s) = Some ()"
    by (simp add: rt_scheduler_stack_check_def switch_to_def insert_thread_thr tc stack_ok_def)
  then show "rt_schedule s = Some (switch_to c t p s)"
    using c l g h n tc
    by (cases "is_ready s c")
      (simp_all add: rt_schedule_def switch_to_def is_ready_def tstat_def prio_def Let_def)
qed

lemma switch_to_tq:
  assumes "kinv s" "rt_current_thread s = Some c" "t \<in> set (tq s (ReadyQ p))" "t \<noteq> c"
  shows "tq (switch_to c t p s) h =
    (if h = ReadyQ p then removeAll t (tq s h) else tq s h)
      @ (if is_ready s c \<and> h = ReadyQ (prio s c) then [c] else [])"
proof -
  have "t \<notin> set (tq s h)" if "h \<noteq> ReadyQ p" using queue_unique[OF assms(1,3)] that by blast
  then show ?thesis using assms(4)
    by (auto simp: switch_to_def remove_thread_tq insert_thread_tq prio_def)
qed

lemma switch_to_sched_only:
  assumes "kinv s" "rt_current_thread s = Some c" "t \<in> set (tq s (ReadyQ p))" "t \<noteq> c"
  shows "sched_only s (switch_to c t p s)" "rt_current_thread (switch_to c t p s) = Some t"
proof -
  have 1: "thr (switch_to c t p s) = thr s"
    by (auto simp: switch_to_def insert_thread_thr is_ready_def tstat_def stat_ready_idem)
  have 2: "tq (switch_to c t p s) h = tq s h" if "\<forall>p. h \<noteq> ReadyQ p" for h
    using switch_to_tq[OF assms] that by simp
  show "rt_current_thread (switch_to c t p s) = Some t" by (simp add: switch_to_def)
  show "sched_only s (switch_to c t p s)"
    unfolding sched_only_def using 1 2
    by (auto intro!: kernel.equality simp: switch_to_def)
qed

lemma switch_to_kinv:
  assumes k: "kinv s" and c: "rt_current_thread s = Some c" and t: "t \<in> set (tq s (ReadyQ p))" "t \<noteq> c"
  shows "kinv (switch_to c t p s)" (is "kinv ?s")
proof (rule kinvI)
  note K = kinvD[OF k] and so = switch_to_sched_only[OF assms]
  note D = sched_onlyD[OF so(1)] and Q = switch_to_tq[OF assms]
  have st: "is_ready ?s u = is_ready s u" "prio ?s u = prio s u" for u
    using sched_only_status[OF so(1)] by simp_all
  have q: "u \<in> set (tq ?s h) \<longleftrightarrow> (u \<in> set (tq s h) \<and> \<not> (h = ReadyQ p \<and> u = t))
      \<or> (u = c \<and> is_ready s c \<and> h = ReadyQ (prio s c))" for u h
    unfolding Q by auto
  have cu: "is_ready s c \<Longrightarrow> c \<notin> set (tq s h)" for h
    using queued_stat(1)[OF k, of c h] ready_queued[OF k, of c] c by auto
  have tr: "is_ready s t" "prio s t = p" using ready_queued[OF k t(1)] by auto
  show "queues_inv ?s"
    unfolding queues_inv_def q using cu queue_unique[OF k] queue_distinct[OF k]
    by (auto simp: Q distinct_removeAll)
  let ?m = "s\<lparr>rt_current_priority := of_nat p, rt_current_thread := Some t\<rparr>"
  let ?u = "(if is_ready s c then rt_schedule_insert_thread c else id) ?m"
  have "bitmap_ok ?m" using kinv_bitmap[OF k] by (simp add: bitmap_ok_def)
  moreover have mk: "mask_ok s x" if "is_ready s x" for x
    using alive_ok[OF k] that thread_ok_mask by (simp add: alive_def)
  ultimately have bu: "bitmap_ok ?u"
    using bitmap_insert[of ?m c] by (auto simp: mask_ok_def prio_def)
  have "bitmap_ok ?s" unfolding switch_to_def
  proof (rule bitmap_remove[OF bu])
    show "mask_ok ?u t" using mk[OF tr(1)] t(2) by (auto simp: mask_ok_def prio_def insert_thread_thr)
    show "q = prio ?u t" if "t \<in> set (tq ?u (ReadyQ q))" for q
    proof -
      have "prio ?u t = p" using tr(2) by (auto simp: prio_def insert_thread_thr)
      moreover have "t \<in> set (tq s (ReadyQ q))"
        using that t(2) by (auto simp: insert_thread_tq split: if_splits)
      ultimately show ?thesis using ready_queued[OF k] tr by auto
    qed
  qed
  then show "ready_inv ?s"
    unfolding ready_inv_def bitmap_ok_def[symmetric] st q so(2)
    using ready_queued[OF k] ready_in_queue[OF k] cu tr c t by (auto; blast)
  show "wait_inv ?s"
    using K(3) unfolding wait_inv_def q using sched_only_status[OF so(1)] by auto
  show "threads_inv ?s" using K(4) threads_inv_cong[of ?s s] thread_ok_cong[of ?s s] status_cong[of ?s s] D by simp
  show "ttimer_inv ?s" using K(5) ttimer_inv_cong[of ?s s] status_cong[of ?s s] D by simp
  show "timer_inv ?s" using K(6) timer_inv_cong[of ?s s] D by simp
qed

text \<open>One scheduling step under the invariant: it always returns, keeps the invariant, and when
  the scheduler is not locked and some thread is ready, the thread that runs afterwards is
  ready and no ready thread is more urgent.\<close>

definition runs_best :: "kernel \<Rightarrow> bool" where
  "runs_best s = (\<exists>c. rt_current_thread s = Some c \<and> is_ready s c
     \<and> (\<forall>t. is_ready s t \<longrightarrow> prio s c \<le> prio s t))"

lemma get_highest_least:
  assumes k: "kinv s" and h: "get_highest_priority_thread s = Some (t, p)"
    and g: "rt_thread_ready_priority_group s \<noteq> 0"
    and r: "is_ready s u" "rt_current_thread s \<noteq> Some u"
  shows "p \<le> prio s u"
proof -
  obtain t' p' where e: "get_highest_priority_thread s = Some (t', p')" "\<forall>q < p'. tq s (ReadyQ q) = []"
    using highest_some[OF kinv_bitmap[OF k] g] by metis
  have "tq s (ReadyQ (prio s u)) \<noteq> []" using ready_in_queue[OF k r] by auto
  then show ?thesis using e h by (metis not_le option.inject prod.inject)
qed

lemma no_ready_queue:
  assumes "kinv s" "rt_thread_ready_priority_group s = 0" "is_ready s u"
  shows "rt_current_thread s = Some u"
proof (rule ccontr)
  assume "rt_current_thread s \<noteq> Some u"
  then have "u \<in> set (tq s (ReadyQ (prio s u)))" "prio s u < 32"
    using ready_in_queue[OF assms(1,3)] alive_ok[OF assms(1), of u] assms(3)
    by (auto simp: alive_def thread_ok_def)
  then show False using group_bit[OF assms(1)] assms(2) by fastforce
qed

lemma rt_schedule_step:
  assumes k: "kinv s" and c: "rt_current_thread s = Some c"
  shows "\<exists>s'. rt_schedule s = Some s' \<and> kinv s' \<and> sched_only s s' \<and> rt_current_thread s' \<noteq> None
    \<and> (rt_scheduler_lock_nest s \<noteq> 0 \<longrightarrow> s' = s)
    \<and> (rt_scheduler_lock_nest s = 0 \<longrightarrow> (\<exists>t. is_ready s t) \<longrightarrow> runs_best s')"
proof -
  consider "rt_scheduler_lock_nest s \<noteq> 0"
    | "rt_scheduler_lock_nest s = 0" "rt_thread_ready_priority_group s = 0"
    | "rt_scheduler_lock_nest s = 0" "rt_thread_ready_priority_group s \<noteq> 0" by blast
  then show ?thesis
  proof cases
    case 1
    then show ?thesis using rt_schedule_locked[OF 1] k c by (intro exI[of _ s]) simp
  next
    case 2
    have "runs_best s" if "is_ready s t" for t
      using no_ready_queue[OF k 2(2)] that c unfolding runs_best_def by fastforce
    then show ?thesis using rt_schedule_idle[OF 2(2)] k c 2 by (intro exI[of _ s]) auto
  next
    case 3
    obtain t p where h: "get_highest_priority_thread s = Some (t, p)"
      using highest_some[OF kinv_bitmap[OF k] 3(2)] by metis
    note least = get_highest_least[OF k h 3(2)]
    show ?thesis
    proof (cases "is_ready s c \<and> prio s c < p")
      case True
      have "prio s c \<le> prio s u" if "is_ready s u" for u
        using least[OF that] True c by (cases "u = c") auto
      then have "runs_best s" using True c by (auto simp: runs_best_def)
      then show ?thesis using rt_schedule_stay[OF k c _ h] True k c 3 by (intro exI[of _ s]) auto
    next
      case False
      note w = rt_schedule_switch[OF k c 3 h False]
      note so = switch_to_sched_only[OF k c w(5,2)] and st = sched_only_status[OF so(1)]
      have "prio s t \<le> prio s u" if "is_ready s u" for u
        using least[OF that] that False w(4) c by (cases "u = c") auto
      then have "runs_best (switch_to c t p s)" using w(3) so(2) by (auto simp: runs_best_def st)
      then show ?thesis using w(1) so switch_to_kinv[OF k c w(5,2)] 3 by auto
    qed
  qed
qed

section \<open>The scheduler lock\<close>

lemma kinv_lock_nest [simp]: "kinv (s\<lparr>rt_scheduler_lock_nest := n\<rparr>) = kinv s"
proof -
  let ?s = "s\<lparr>rt_scheduler_lock_nest := n\<rparr>"
  have "thr ?s = thr s" "tstat ?s = tstat s" "prio ?s = prio s" "thread_ok ?s = thread_ok s"
    using status_cong[of ?s s] thread_ok_cong[of ?s s] by simp_all
  then show ?thesis unfolding kinv_def
    using queues_inv_cong[of ?s s] ready_inv_cong[of ?s s] wait_inv_cong[of ?s s]
      threads_inv_cong[of ?s s] ttimer_inv_cong[of ?s s] timer_inv_cong[of ?s s] by simp
qed

lemma rt_enter_critical_kinv: "kinv s \<Longrightarrow> kinv (rt_enter_critical s)"
  by (simp add: rt_enter_critical_def)

lemma rt_exit_critical_total:
  assumes "kinv s" "rt_current_thread s = Some c"
  shows "\<exists>s'. rt_exit_critical s = Some s' \<and> kinv s' \<and> rt_current_thread s' \<noteq> None"
proof (cases "sint (rt_scheduler_lock_nest s - 1) \<le> 0")
  case True
  let ?s = "s\<lparr>rt_scheduler_lock_nest := 0\<rparr>"
  have "kinv ?s" "rt_current_thread ?s = Some c" using assms by simp_all
  from rt_schedule_step[OF this] True show ?thesis
    by (auto simp: rt_exit_critical_def Let_def)
next
  case False
  then show ?thesis using assms by (simp add: rt_exit_critical_def Let_def)
qed

text \<open>Locking and then unlocking restores the lock: while the lock is held no other thread runs,
  and with the last unlock the scheduling that was put off is done.\<close>

lemma rt_critical_nested:
  assumes "0 < sint (rt_scheduler_lock_nest s)"
  shows "rt_exit_critical (rt_enter_critical s) = Some s"
  using assms by (auto simp: rt_exit_critical_def rt_enter_critical_def Let_def)

lemma rt_critical_outermost:
  assumes "rt_scheduler_lock_nest s = 0"
  shows "rt_schedule (rt_enter_critical s) = Some (rt_enter_critical s)"
    and "rt_exit_critical (rt_enter_critical s) = rt_schedule s"
proof -
  have e: "s\<lparr>rt_scheduler_lock_nest := 0\<rparr> = s" using assms by (cases s) simp
  show "rt_schedule (rt_enter_critical s) = Some (rt_enter_critical s)"
    by (rule rt_schedule_locked) (simp add: rt_enter_critical_def assms)
  show "rt_exit_critical (rt_enter_critical s) = rt_schedule s"
    using assms by (simp add: rt_exit_critical_def rt_enter_critical_def Let_def) (simp only: e)
qed

end
