(* ===== verification/RT_Thread.thy ===== *)
theory RT_Thread
  imports RT_Sched
begin

text \<open>The threads of src/thread.c: initialisation and creation, startup, suspension and
  resumption, sleeping, exit, detachment and deletion, priority control, and the searches by
  name, with the invariant of RT\_Sched through each of them. The stack frame of a new thread
  is that of libcpu/arm/cortex-m3/cpuport.c.

  A call that gives up the processor stops at \<^verbatim>\<open>rt_schedule\<close>: when another thread runs after it,
  the result is \<^verbatim>\<open>Blocked\<close>, and the rest of the call is a continuation that runs when the thread
  is current again.\<close>

datatype 'a call = Done 'a | Blocked

definition after_schedule ::
  "nat \<Rightarrow> (kernel \<Rightarrow> ('a call \<times> kernel) option) \<Rightarrow> kernel \<Rightarrow> ('a call \<times> kernel) option" where
  "after_schedule t k s = do {
     s \<leftarrow> rt_schedule s;
     (if rt_current_thread s = Some t then k s else Some (Blocked, s))
   }"

section \<open>Suspension and resumption\<close>

definition rt_thread_self :: "kernel \<Rightarrow> nat option" where
  "rt_thread_self s = rt_current_thread s"

definition rt_thread_suspend :: "nat \<Rightarrow> kernel \<Rightarrow> (rt_err \<times> kernel) option" where
  "rt_thread_suspend t s = do {
     RT_ASSERT (rt_object_get_type (OThread t) s = class_code RT_Object_Class_Thread);
     (if stat (thr s t) AND RT_THREAD_STAT_MASK \<noteq> RT_THREAD_READY then Some (- RT_ERROR, s)
      else do {
        RT_ASSERT (rt_thread_self s = Some t);
        let s = upd_thr t (\<lambda>th. th\<lparr>stat := RT_THREAD_SUSPEND OR (stat th AND NOT RT_THREAD_STAT_MASK)\<rparr>) s;
        let s = rt_schedule_remove_thread t s;
        (_, s) \<leftarrow> rt_timer_stop (ThreadTimer t) s;
        Some (RT_EOK, s)
      })
   }"

definition rt_thread_resume :: "nat \<Rightarrow> kernel \<Rightarrow> (rt_err \<times> kernel) option" where
  "rt_thread_resume t s = do {
     RT_ASSERT (rt_object_get_type (OThread t) s = class_code RT_Object_Class_Thread);
     (if stat (thr s t) AND RT_THREAD_STAT_MASK \<noteq> RT_THREAD_SUSPEND then Some (- RT_ERROR, s)
      else do {
        let s = tlist_remove t s;
        (_, s) \<leftarrow> rt_timer_stop (ThreadTimer t) s;
        Some (RT_EOK, rt_schedule_insert_thread t s)
      })
   }"

definition rt_thread_timeout :: "nat \<Rightarrow> kernel \<Rightarrow> kernel option" where
  "rt_thread_timeout t s = do {
     RT_ASSERT (stat (thr s t) AND RT_THREAD_STAT_MASK = RT_THREAD_SUSPEND);
     RT_ASSERT (rt_object_get_type (OThread t) s = class_code RT_Object_Class_Thread);
     let s = upd_thr t (\<lambda>th. th\<lparr>err := - RT_ETIMEOUT\<rparr>) s;
     let s = tlist_remove t s;
     let s = rt_schedule_insert_thread t s;
     rt_schedule s
   }"

section \<open>Initialisation and startup\<close>

text \<open>\<^verbatim>\<open>rt_hw_stack_init\<close> places a frame of sixteen registers below the given top of the stack,
  aligned to eight bytes; only the stack pointer is modelled.\<close>

definition sizeof_stack_frame :: rt_uint32 where "sizeof_stack_frame = 64"

definition rt_hw_stack_init :: "rt_uint32 \<Rightarrow> rt_uint32" where
  "rt_hw_stack_init addr = RT_ALIGN_DOWN (addr + 4) 8 - sizeof_stack_frame"

definition rt_thread_init0 ::
  "nat \<Rightarrow> nat \<Rightarrow> nat \<Rightarrow> rt_uint32 \<Rightarrow> rt_uint32 \<Rightarrow> rt_uint8 \<Rightarrow> rt_uint32 \<Rightarrow> kernel
    \<Rightarrow> (rt_err \<times> kernel) option" where
  "rt_thread_init0 t en param stack_start stksize priority tick s = do {
     let s = upd_thr t (\<lambda>th. th\<lparr>entry := en, parameter := param, stack_addr := stack_start,
               stack_size := stksize, stack_byte0 := 0x23,
               sp := rt_hw_stack_init (stack_start + stksize - 4)\<rparr>) s;
     RT_ASSERT (unat priority < RT_THREAD_PRIORITY_MAX);
     let s = upd_thr t (\<lambda>th. th\<lparr>init_priority := priority, current_priority := priority,
               number_mask := 0, init_tick := tick, remaining_tick := tick, err := RT_EOK,
               stat := RT_THREAD_INIT, cleanup := None, user_data := 0\<rparr>) s;
     s \<leftarrow> rt_timer_init (ThreadTimer t) (obj_name (objs s (OThread t))) (RT_thread_timeout t) 0
            RT_TIMER_FLAG_ONE_SHOT s;
     Some (RT_EOK, s)
   }"

definition rt_thread_init ::
  "nat \<Rightarrow> rt_uint8 list \<Rightarrow> nat \<Rightarrow> nat \<Rightarrow> rt_uint32 \<Rightarrow> rt_uint32 \<Rightarrow> rt_uint8 \<Rightarrow> rt_uint32 \<Rightarrow> kernel
    \<Rightarrow> (rt_err \<times> kernel) option" where
  "rt_thread_init t nm en param stack_start stksize priority tick s = do {
     RT_ASSERT (stack_start \<noteq> 0);
     s \<leftarrow> rt_object_init (OThread t) RT_Object_Class_Thread nm s;
     rt_thread_init0 t en param stack_start stksize priority tick s
   }"

text \<open>The object memory and the stack come from \<^verbatim>\<open>RT_KERNEL_MALLOC\<close>: its two answers are
  arguments. The object memory is cleared.\<close>

definition zero_thread :: rt_thread where
  "zero_thread = \<lparr>sp = 0, entry = 0, parameter = 0, stack_addr = 0, stack_size = 0, stack_byte0 = 0,
     err = 0, stat = 0, current_priority = 0, init_priority = 0, number_mask = 0, event_set = 0,
     event_info = 0, init_tick = 0, remaining_tick = 0, cleanup = None, user_data = 0\<rparr>"

definition rt_thread_create ::
  "objref option \<Rightarrow> rt_uint32 option \<Rightarrow> rt_uint8 list \<Rightarrow> nat \<Rightarrow> nat \<Rightarrow> rt_uint32 \<Rightarrow> rt_uint8 \<Rightarrow> rt_uint32
    \<Rightarrow> kernel \<Rightarrow> (objref option \<times> kernel) option" where
  "rt_thread_create mem stk nm en param stksize priority tick s = do {
     (ob, s) \<leftarrow> rt_object_allocate mem RT_Object_Class_Thread nm s;
     (case ob of
        Some (OThread t) \<Rightarrow>
          (let s = upd_thr t (\<lambda>_. zero_thread) s in
           case stk of
             None \<Rightarrow> do {
               s \<leftarrow> rt_object_delete (OThread t) s;
               Some (None, s)
             }
           | Some stack_start \<Rightarrow> do {
               (_, s) \<leftarrow> rt_thread_init0 t en param stack_start stksize priority tick s;
               Some (Some (OThread t), s)
             })
      | _ \<Rightarrow> Some (None, s))
   }"

definition rt_thread_startup :: "nat \<Rightarrow> kernel \<Rightarrow> (rt_err \<times> kernel) option" where
  "rt_thread_startup t s = do {
     RT_ASSERT (stat (thr s t) AND RT_THREAD_STAT_MASK = RT_THREAD_INIT);
     RT_ASSERT (rt_object_get_type (OThread t) s = class_code RT_Object_Class_Thread);
     let s = upd_thr t (\<lambda>th. th\<lparr>current_priority := init_priority th\<rparr>) s;
     let s = upd_thr t (\<lambda>th. th\<lparr>number_mask := push_bit (unat (current_priority th)) 1\<rparr>) s;
     let s = upd_thr t (\<lambda>th. th\<lparr>stat := RT_THREAD_SUSPEND\<rparr>) s;
     (_, s) \<leftarrow> rt_thread_resume t s;
     s \<leftarrow> (if rt_thread_self s \<noteq> None then rt_schedule s else Some s);
     Some (RT_EOK, s)
   }"

section \<open>The end of a thread\<close>

definition rt_thread_exit :: "kernel \<Rightarrow> kernel option" where
  "rt_thread_exit s = do {
     t \<leftarrow> rt_thread_self s;
     let s = rt_schedule_remove_thread t s;
     let s = upd_thr t (\<lambda>th. th\<lparr>stat := RT_THREAD_CLOSE\<rparr>) s;
     (_, s) \<leftarrow> rt_timer_detach (ThreadTimer t) s;
     let s = (if rt_object_is_systemobject (OThread t) s \<and> cleanup (thr s t) = None
              then rt_object_detach (OThread t) s
              else tlist_push_front DefunctQ t s);
     rt_schedule s
   }"

definition rt_thread_detach :: "nat \<Rightarrow> kernel \<Rightarrow> (rt_err \<times> kernel) option" where
  "rt_thread_detach t s = do {
     RT_ASSERT (rt_object_get_type (OThread t) s = class_code RT_Object_Class_Thread);
     RT_ASSERT (rt_object_is_systemobject (OThread t) s);
     let s = (if stat (thr s t) AND RT_THREAD_STAT_MASK \<noteq> RT_THREAD_INIT
              then rt_schedule_remove_thread t s else s);
     (_, s) \<leftarrow> rt_timer_detach (ThreadTimer t) s;
     let s = upd_thr t (\<lambda>th. th\<lparr>stat := RT_THREAD_CLOSE\<rparr>) s;
     let s = rt_object_detach (OThread t) s;
     Some (RT_EOK, if cleanup (thr s t) \<noteq> None then tlist_push_front DefunctQ t s else s)
   }"

definition rt_thread_delete :: "nat \<Rightarrow> kernel \<Rightarrow> (rt_err \<times> kernel) option" where
  "rt_thread_delete t s = do {
     RT_ASSERT (rt_object_get_type (OThread t) s = class_code RT_Object_Class_Thread);
     RT_ASSERT (\<not> rt_object_is_systemobject (OThread t) s);
     let s = (if stat (thr s t) AND RT_THREAD_STAT_MASK \<noteq> RT_THREAD_INIT
              then rt_schedule_remove_thread t s else s);
     (_, s) \<leftarrow> rt_timer_detach (ThreadTimer t) s;
     let s = upd_thr t (\<lambda>th. th\<lparr>stat := RT_THREAD_CLOSE\<rparr>) s;
     Some (RT_EOK, tlist_push_front DefunctQ t s)
   }"

section \<open>Yielding and sleeping\<close>

definition rt_thread_yield :: "kernel \<Rightarrow> (rt_err \<times> kernel) option" where
  "rt_thread_yield s = do { s \<leftarrow> rt_schedule s; Some (RT_EOK, s) }"

definition rt_thread_sleep_wake :: "nat \<Rightarrow> kernel \<Rightarrow> (rt_err call \<times> kernel) option" where
  "rt_thread_sleep_wake t s =
    Some (Done RT_EOK,
      if err (thr s t) = - RT_ETIMEOUT then upd_thr t (\<lambda>th. th\<lparr>err := RT_EOK\<rparr>) s else s)"

definition rt_thread_sleep :: "rt_tick \<Rightarrow> kernel \<Rightarrow> (rt_err call \<times> kernel) option" where
  "rt_thread_sleep tick s = do {
     t \<leftarrow> rt_thread_self s;
     RT_ASSERT (rt_object_get_type (OThread t) s = class_code RT_Object_Class_Thread);
     (_, s) \<leftarrow> rt_thread_suspend t s;
     (_, _, s) \<leftarrow> rt_timer_control (ThreadTimer t) RT_TIMER_CTRL_SET_TIME tick s;
     (_, s) \<leftarrow> rt_timer_start (ThreadTimer t) s;
     after_schedule t (rt_thread_sleep_wake t) s
   }"

definition rt_thread_delay :: "rt_tick \<Rightarrow> kernel \<Rightarrow> (rt_err call \<times> kernel) option" where
  "rt_thread_delay tick s = rt_thread_sleep tick s"

text \<open>\<^verbatim>\<open>rt_tick_from_millisecond\<close> computes in the type int; a product that leaves it has no
  defined result. RT\_WAITING\_FOREVER is -1.\<close>

definition int32_ok :: "int \<Rightarrow> bool" where
  "int32_ok x = (- 2147483648 \<le> x \<and> x \<le> 2147483647)"

definition rt_tick_from_millisecond :: "int \<Rightarrow> int option" where
  "rt_tick_from_millisecond ms =
    (if ms < 0 then Some (- 1)
     else if int32_ok (RT_TICK_PER_SECOND * ms + 999)
     then Some ((RT_TICK_PER_SECOND * ms + 999) div 1000) else None)"

definition rt_thread_mdelay :: "int \<Rightarrow> kernel \<Rightarrow> (rt_err call \<times> kernel) option" where
  "rt_thread_mdelay ms s = do {
     tick \<leftarrow> rt_tick_from_millisecond ms;
     rt_thread_sleep (word_of_int tick) s
   }"

section \<open>Control and search\<close>

definition RT_THREAD_CTRL_STARTUP :: int where "RT_THREAD_CTRL_STARTUP = 0"
definition RT_THREAD_CTRL_CLOSE :: int where "RT_THREAD_CTRL_CLOSE = 1"
definition RT_THREAD_CTRL_CHANGE_PRIORITY :: int where "RT_THREAD_CTRL_CHANGE_PRIORITY = 2"

definition rt_thread_control :: "nat \<Rightarrow> int \<Rightarrow> rt_uint8 \<Rightarrow> kernel \<Rightarrow> (rt_err \<times> kernel) option" where
  "rt_thread_control t cmd arg s = do {
     RT_ASSERT (rt_object_get_type (OThread t) s = class_code RT_Object_Class_Thread);
     (if cmd = RT_THREAD_CTRL_CHANGE_PRIORITY then
        (let set_prio = upd_thr t (\<lambda>th. th\<lparr>current_priority := arg, number_mask := push_bit (unat arg) 1\<rparr>)
         in if stat (thr s t) AND RT_THREAD_STAT_MASK = RT_THREAD_READY
            then Some (RT_EOK, rt_schedule_insert_thread t (set_prio (rt_schedule_remove_thread t s)))
            else Some (RT_EOK, set_prio s))
      else if cmd = RT_THREAD_CTRL_STARTUP then rt_thread_startup t s
      else if cmd = RT_THREAD_CTRL_CLOSE then rt_thread_delete t s
      else Some (RT_EOK, s))
   }"

fun find_name :: "kernel \<Rightarrow> rt_uint8 list \<Rightarrow> objref list \<Rightarrow> objref option" where
  "find_name s nm [] = None"
| "find_name s nm (r # rs) =
    (if strncmp_bytes (obj_name (objs s r)) nm 0 RT_NAME_MAX = 0 then Some r else find_name s nm rs)"

definition rt_thread_find :: "rt_uint8 list \<Rightarrow> kernel \<Rightarrow> (objref option \<times> kernel) option" where
  "rt_thread_find nm s = do {
     let s = (if rt_thread_self s \<noteq> None then rt_enter_critical s else s);
     info \<leftarrow> rt_object_get_information (class_code RT_Object_Class_Thread);
     let found = find_name s nm (obj_list s info);
     s \<leftarrow> (if rt_thread_self s \<noteq> None then rt_exit_critical s else Some s);
     Some (found, s)
   }"

definition rt_object_find :: "rt_uint8 list \<Rightarrow> rt_uint8 \<Rightarrow> kernel \<Rightarrow> (objref option \<times> kernel) option" where
  "rt_object_find nm type s =
    (if type > class_code RT_Object_Class_Unknown then Some (None, s)
     else do {
       not_in_interrupt s;
       let s = rt_enter_critical s;
       info \<leftarrow> rt_object_get_information type;
       let found = find_name s nm (obj_list s info);
       s \<leftarrow> rt_exit_critical s;
       Some (found, s)
     })"

end
