(* ===== verification/RT_Thread_Inv.thy ===== *)
theory RT_Thread_Inv
  imports RT_Thread
begin

text \<open>The invariant of the kernel through the operations on timers and threads. For each
  operation there is an equation that gives its result in a state of the invariant, the
  fields it leaves alone, and the invariant of the result; the theories of the
  communication objects use these and not the definitions.\<close>

section \<open>Timers under the invariant\<close>

definition timer_typed :: "kernel \<Rightarrow> tmref \<Rightarrow> bool" where
  "timer_typed s r = (rt_object_get_type (OTimer r) s = class_code RT_Object_Class_Timer)"

text \<open>The state after \<^verbatim>\<open>rt_timer_stop\<close> and after \<^verbatim>\<open>rt_timer_start\<close>.\<close>

definition timer_stopped :: "tmref \<Rightarrow> kernel \<Rightarrow> kernel" where
  "timer_stopped r s =
    (if timer_active r s then timer_clear_active r (rt_timer_remove r s) else s)"

definition timer_started :: "tmref \<Rightarrow> kernel \<Rightarrow> kernel" where
  "timer_started r s =
    (let s = timer_clear_active r (rt_timer_remove r s);
         s = upd_tmr r (\<lambda>tm. tm\<lparr>timeout_tick := rt_tick s + tm_init_tick tm\<rparr>) s;
         s = s\<lparr>rt_timer_list := timer_list_insert (\<lambda>t. timeout_tick (tmr s t)) r (rt_timer_list s)\<rparr>
     in timer_set_active r s)"

lemma rt_timer_stop_eq:
  "timer_typed s r \<Longrightarrow>
    rt_timer_stop r s = Some (if timer_active r s then RT_EOK else - RT_ERROR, timer_stopped r s)"
  by (simp add: rt_timer_stop_def timer_typed_def timer_stopped_def Let_def)

lemma rt_timer_start_eq:
  "timer_typed s r \<Longrightarrow> tm_init_tick (tmr s r) < RT_TICK_MAX div 2 \<Longrightarrow>
    rt_timer_start r s = Some (RT_EOK, timer_started r s)"
  by (simp add: rt_timer_start_def timer_typed_def timer_started_def kernel_defs Let_def
      cong: if_cong)

lemma timer_stopped_frame [simp]:
  "thr (timer_stopped r s) = thr s" "tq (timer_stopped r s) = tq s"
  "obj_list (timer_stopped r s) = obj_list s"
  "rt_current_thread (timer_stopped r s) = rt_current_thread s"
  "rt_current_priority (timer_stopped r s) = rt_current_priority s"
  "rt_thread_ready_priority_group (timer_stopped r s) = rt_thread_ready_priority_group s"
  "rt_scheduler_lock_nest (timer_stopped r s) = rt_scheduler_lock_nest s"
  "rt_interrupt_nest (timer_stopped r s) = rt_interrupt_nest s"
  "rt_tick (timer_stopped r s) = rt_tick s" "tmr (timer_stopped r s) = tmr s"
  "sem (timer_stopped r s) = sem s" "mtx (timer_stopped r s) = mtx s" "evt (timer_stopped r s) = evt s"
  "mbx (timer_stopped r s) = mbx s" "mqs (timer_stopped r s) = mqs s" "mps (timer_stopped r s) = mps s" "drv (timer_stopped r s) = drv s"
  "global_errno (timer_stopped r s) = global_errno s"
  "freed_mem (timer_stopped r s) = freed_mem s" "freed_objs (timer_stopped r s) = freed_objs s"
  by (simp_all add: timer_stopped_def kernel_defs)

lemma timer_started_frame [simp]:
  "thr (timer_started r s) = thr s" "tq (timer_started r s) = tq s"
  "obj_list (timer_started r s) = obj_list s"
  "rt_current_thread (timer_started r s) = rt_current_thread s"
  "rt_current_priority (timer_started r s) = rt_current_priority s"
  "rt_thread_ready_priority_group (timer_started r s) = rt_thread_ready_priority_group s"
  "rt_scheduler_lock_nest (timer_started r s) = rt_scheduler_lock_nest s"
  "rt_interrupt_nest (timer_started r s) = rt_interrupt_nest s"
  "rt_tick (timer_started r s) = rt_tick s"
  "sem (timer_started r s) = sem s" "mtx (timer_started r s) = mtx s" "evt (timer_started r s) = evt s"
  "mbx (timer_started r s) = mbx s" "mqs (timer_started r s) = mqs s" "mps (timer_started r s) = mps s" "drv (timer_started r s) = drv s"
  "global_errno (timer_started r s) = global_errno s"
  "freed_mem (timer_started r s) = freed_mem s" "freed_objs (timer_started r s) = freed_objs s"
  by (simp_all add: timer_started_def kernel_defs Let_def)

lemma activated_nonzero [simp]: "RT_TIMER_FLAG_ACTIVATED \<noteq> 0"
  by (simp add: RT_TIMER_FLAG_ACTIVATED_def)

lemma flag_word_facts [simp]:
  fixes x :: rt_uint8
  shows "(x AND NOT RT_TIMER_FLAG_ACTIVATED) AND RT_TIMER_FLAG_PERIODIC = x AND RT_TIMER_FLAG_PERIODIC"
    "(x OR RT_TIMER_FLAG_ACTIVATED) AND RT_TIMER_FLAG_PERIODIC = x AND RT_TIMER_FLAG_PERIODIC"
    "(x AND NOT RT_TIMER_FLAG_ACTIVATED) AND RT_TIMER_FLAG_ACTIVATED = 0"
    "(x OR RT_TIMER_FLAG_ACTIVATED) AND RT_TIMER_FLAG_ACTIVATED \<noteq> 0"
proof -
  show "(x AND NOT RT_TIMER_FLAG_ACTIVATED) AND RT_TIMER_FLAG_PERIODIC = x AND RT_TIMER_FLAG_PERIODIC"
    "(x OR RT_TIMER_FLAG_ACTIVATED) AND RT_TIMER_FLAG_PERIODIC = x AND RT_TIMER_FLAG_PERIODIC"
    "(x AND NOT RT_TIMER_FLAG_ACTIVATED) AND RT_TIMER_FLAG_ACTIVATED = 0"
    unfolding RT_TIMER_FLAG_ACTIVATED_def RT_TIMER_FLAG_PERIODIC_def
    by (rule bit_eqI; auto simp: bit_simps)+
  have "(x OR 1) AND 1 = 1" by (rule bit_eqI) (auto simp: bit_simps)
  then show "(x OR RT_TIMER_FLAG_ACTIVATED) AND RT_TIMER_FLAG_ACTIVATED \<noteq> 0"
    by (simp add: RT_TIMER_FLAG_ACTIVATED_def)
qed

definition obj_same_but_active :: "kernel \<Rightarrow> kernel \<Rightarrow> bool" where
  "obj_same_but_active s s' =
    (\<forall>r. obj_type (objs s' r) = obj_type (objs s r) \<and> obj_name (objs s' r) = obj_name (objs s r)
      \<and> obj_flag (objs s' r) AND RT_TIMER_FLAG_PERIODIC = obj_flag (objs s r) AND RT_TIMER_FLAG_PERIODIC
      \<and> ((\<forall>m. r \<noteq> OTimer m) \<longrightarrow> objs s' r = objs s r))"

lemma timer_stopped_objs: "obj_same_but_active s (timer_stopped r s)"
  by (auto simp: timer_stopped_def kernel_defs obj_same_but_active_def)

lemma timer_started_objs: "obj_same_but_active s (timer_started r s)"
  by (auto simp: timer_started_def kernel_defs obj_same_but_active_def
      Let_def cong: if_cong)

lemma timer_stopped_status [simp]:
  "tstat (timer_stopped r s) = tstat s" "prio (timer_stopped r s) = prio s"
  using status_cong[of "timer_stopped r s" s] by simp_all

lemma timer_stopped_list [simp]:
  "rt_timer_list (timer_stopped r s) =
    (if timer_active r s then removeAll r (rt_timer_list s) else rt_timer_list s)"
  by (simp add: timer_stopped_def kernel_defs)

lemma timer_stopped_active [simp]:
  "timer_active x (timer_stopped r s) = (x \<noteq> r \<and> timer_active x s)"
  by (auto simp: timer_stopped_def timer_active_def kernel_defs)

lemma timer_started_active [simp]:
  "timer_active x (timer_started r s) = (x = r \<or> timer_active x s)"
  by (auto simp: timer_started_def timer_active_def kernel_defs Let_def)

lemma timer_started_tmr:
  "tmr (timer_started r s) =
    (tmr s)(r := (tmr s r)\<lparr>timeout_tick := rt_tick s + tm_init_tick (tmr s r)\<rparr>)"
  by (simp add: timer_started_def kernel_defs Let_def cong: if_cong)

lemma timer_started_list:
  "rt_timer_list (timer_started r s) =
    timer_list_insert (\<lambda>t. timeout_tick (tmr (timer_started r s) t)) r (removeAll r (rt_timer_list s))"
  by (simp add: timer_started_def kernel_defs Let_def cong: if_cong)

lemma obj_same_types:
  assumes "obj_same_but_active s s'"
  shows "rt_object_get_type r s' = rt_object_get_type r s" "timer_typed s' m = timer_typed s m"
    "rt_object_is_systemobject r s' = rt_object_is_systemobject r s"
  using assms by (simp_all add: obj_same_but_active_def rt_object_get_type_def timer_typed_def
      rt_object_is_systemobject_def)

lemma obj_same_thread_ok:
  assumes "obj_same_but_active s s'" "thr s' t = thr s t"
    "timeout_func (tmr s' (ThreadTimer t)) = timeout_func (tmr s (ThreadTimer t))"
  shows "thread_ok s' t = thread_ok s t"
  using assms obj_same_types[OF assms(1)]
  by (simp add: thread_ok_def prio_def obj_same_but_active_def)

section \<open>Stopping a timer\<close>

lemma kinv_timer_stopped:
  assumes k: "kinv s"
  shows "kinv (timer_stopped r s)" (is "kinv ?s")
proof (rule kinvI)
  note K = kinvD[OF k] and ob = timer_stopped_objs[of s r]
  have st: "tstat ?s = tstat s" "prio ?s = prio s" using status_cong[of ?s s] by simp_all
  have ok: "thread_ok ?s = thread_ok s" using obj_same_thread_ok[OF ob] by auto
  show "queues_inv ?s" using K(1) queues_inv_cong[of ?s s] by simp
  show "ready_inv ?s" using K(2) ready_inv_cong[of ?s s] st by simp
  show "wait_inv ?s" using K(3) wait_inv_cong[of ?s s] st by simp
  show "threads_inv ?s" using K(4) threads_inv_cong[OF st(1) ok] by simp
  show "ttimer_inv ?s"
    using K(5) obj_same_types[OF ob] stat_cong[OF st(1)] by (auto simp: ttimer_inv_def)
  show "timer_inv ?s"
    using K(6) by (auto simp: timer_inv_def tkey_def[abs_def] distinct_removeAll)
qed

lemma thread_timer_stopped:
  assumes "kinv s"
  shows "ThreadTimer t \<notin> set (rt_timer_list (timer_stopped (ThreadTimer t) s))"
  using kinvD(5)[OF assms] by (auto simp: ttimer_inv_def)

section \<open>Starting a timer\<close>

lemma timer_started_key:
  assumes "tm_init_tick (tmr s r) < RT_TICK_MAX div 2"
  shows "tkey (timer_started r s) r = unat (tm_init_tick (tmr s r)) + 1"
    "x \<noteq> r \<Longrightarrow> tkey (timer_started r s) x = tkey s x"
proof -
  have "unat (tm_init_tick (tmr s r)) < 0x7fffffff"
    using assms unfolding RT_TICK_MAX_half by (simp add: word_less_nat_alt)
  then have "unat (tm_init_tick (tmr s r) + 1) = unat (tm_init_tick (tmr s r)) + 1"
    by (simp add: unat_add_lem[THEN iffD1] unat_word_ariths)
  then show "tkey (timer_started r s) r = unat (tm_init_tick (tmr s r)) + 1"
    by (simp add: tkey_def timer_started_tmr)
  show "x \<noteq> r \<Longrightarrow> tkey (timer_started r s) x = tkey s x"
    by (simp add: tkey_def timer_started_tmr)
qed

text \<open>A started timer stands behind all timers that do not expire later and before those that
  do.\<close>

lemma timer_started_inv:
  assumes "timer_inv s" and i: "tm_init_tick (tmr s r) < RT_TICK_MAX div 2"
  shows "timer_inv (timer_started r s)"
    "rt_timer_list (timer_started r s) =
      stable_insert (tkey (timer_started r s)) r (removeAll r (rt_timer_list s))"
proof -
  let ?s = "timer_started r s" and ?xs = "removeAll r (rt_timer_list s)"
  note key = timer_started_key[OF i]
  have r: "1 \<le> tkey ?s r" "tkey ?s r \<le> tkey_max"
    using i key by (simp_all add: tkey_max_def RT_TICK_MAX_half word_less_nat_alt)
  have xs: "\<forall>x \<in> set ?xs. tkey ?s x = tkey s x \<and> tkey s x \<le> tkey_max"
    using assms(1) key by (auto simp: timer_inv_def)
  then have ok: "\<forall>x \<in> set ?xs. timer_cmp_ok ?s r x" using r by (auto simp: timer_cmp_ok_def)
  have so: "sorted_key (tkey ?s) ?xs"
    using assms(1) xs sorted_key_cong[of ?xs "tkey ?s" "tkey s"] by (auto simp: timer_inv_def)
  have di: "distinct ?xs" "r \<notin> set ?xs" using assms(1) by (auto simp: timer_inv_def distinct_removeAll)
  note l = timer_started_list[of r s]
  show "rt_timer_list ?s = stable_insert (tkey ?s) r ?xs"
    unfolding l by (rule timer_queue.ins_stable[OF ok])
  show "timer_inv ?s"
  proof -
    have "tkey ?s x \<le> tkey_max" if "x \<in> insert r (set (rt_timer_list s))" for x
      using that xs r by (cases "x = r") auto
    then show ?thesis
      unfolding timer_inv_def l
      using timer_queue.ins_distinct[OF ok di] timer_queue.ins_keeps_order[OF ok so]
        timer_queue.ins_members[OF ok] by auto
  qed
qed

lemma kinv_timer_started:
  assumes k: "kinv s" and ty: "timer_typed s r" and i: "tm_init_tick (tmr s r) < RT_TICK_MAX div 2"
    and t: "\<And>t. r = ThreadTimer t \<Longrightarrow> is_suspended s t"
  shows "kinv (timer_started r s)" (is "kinv ?s")
proof (rule kinvI)
  note K = kinvD[OF k] and ob = timer_started_objs[of s r]
  have st: "tstat ?s = tstat s" "prio ?s = prio s" using status_cong[of ?s s] by simp_all
  have ok: "thread_ok ?s = thread_ok s" using obj_same_thread_ok[OF ob] by (auto simp: timer_started_tmr)
  have m: "set (rt_timer_list ?s) = insert r (set (rt_timer_list s))"
    using timer_started_inv(2)[OF K(6) i] by auto
  show "queues_inv ?s" using K(1) queues_inv_cong[of ?s s] by simp
  show "ready_inv ?s" using K(2) ready_inv_cong[of ?s s] st by simp
  show "wait_inv ?s" using K(3) wait_inv_cong[of ?s s] st by simp
  show "threads_inv ?s" using K(4) threads_inv_cong[OF st(1) ok] by simp
  show "ttimer_inv ?s"
    using K(5) obj_same_types[OF ob] stat_cong[OF st(1)] t ty
    by (auto simp: ttimer_inv_def m timer_typed_def)
  show "timer_inv ?s" by (rule timer_started_inv(1)[OF K(6) i])
qed

lemma kinv_set_init_tick:
  assumes k: "kinv s"
  shows "kinv (upd_tmr r (\<lambda>tm. tm\<lparr>tm_init_tick := x\<rparr>) s)" (is "kinv ?s")
proof -
  note K = kinvD[OF k]
  have st: "tstat ?s = tstat s" "prio ?s = prio s" using status_cong[of ?s s] by (simp_all add: kernel_defs)
  have "obj_same_but_active s ?s" by (simp add: obj_same_but_active_def kernel_defs)
  then have ok: "thread_ok ?s = thread_ok s" using obj_same_thread_ok[of s ?s] by (auto simp: kernel_defs)
  have "tkey ?s = tkey s" by (auto simp: tkey_def kernel_defs)
  then have "timer_inv ?s" using K(6) by (simp add: timer_inv_def kernel_defs)
  moreover have "queues_inv ?s" using K(1) queues_inv_cong[of ?s s] by (simp add: kernel_defs)
  moreover have "ready_inv ?s" using K(2) ready_inv_cong[of ?s s] st by (simp add: kernel_defs)
  moreover have "wait_inv ?s" using K(3) wait_inv_cong[of ?s s] st by (simp add: kernel_defs)
  moreover have "threads_inv ?s" using K(4) threads_inv_cong[OF st(1) ok] by simp
  moreover have "ttimer_inv ?s" using K(5) ttimer_inv_cong[of ?s s] st by (simp add: kernel_defs)
  ultimately show ?thesis by (intro kinvI)
qed

section \<open>Suspending the running thread\<close>

definition mark_suspended :: "nat \<Rightarrow> kernel \<Rightarrow> kernel" where
  "mark_suspended t s =
    upd_thr t (\<lambda>th. th\<lparr>stat := RT_THREAD_SUSPEND OR (stat th AND NOT RT_THREAD_STAT_MASK)\<rparr>) s"

lemma mark_suspended_frame [simp]:
  "tq (mark_suspended t s) = tq s" "objs (mark_suspended t s) = objs s"
  "obj_list (mark_suspended t s) = obj_list s"
  "rt_current_thread (mark_suspended t s) = rt_current_thread s"
  "rt_current_priority (mark_suspended t s) = rt_current_priority s"
  "rt_thread_ready_priority_group (mark_suspended t s) = rt_thread_ready_priority_group s"
  "rt_scheduler_lock_nest (mark_suspended t s) = rt_scheduler_lock_nest s"
  "rt_interrupt_nest (mark_suspended t s) = rt_interrupt_nest s"
  "rt_tick (mark_suspended t s) = rt_tick s" "tmr (mark_suspended t s) = tmr s"
  "rt_timer_list (mark_suspended t s) = rt_timer_list s"
  "sem (mark_suspended t s) = sem s" "mtx (mark_suspended t s) = mtx s" "evt (mark_suspended t s) = evt s"
  "mbx (mark_suspended t s) = mbx s" "mqs (mark_suspended t s) = mqs s" "mps (mark_suspended t s) = mps s" "drv (mark_suspended t s) = drv s"
  "tstat (mark_suspended t s) u = (if u = t then RT_THREAD_SUSPEND else tstat s u)"
  "prio (mark_suspended t s) u = prio s u"
  "timer_active m (mark_suspended t s) = timer_active m s"
  "timer_typed (mark_suspended t s) m = timer_typed s m"
  by (simp_all add: mark_suspended_def kernel_defs tstat_def prio_def timer_active_def timer_typed_def
      rt_object_get_type_def)

lemma mark_suspended_thr:
  "thr (mark_suspended t s) =
    (thr s)(t := (thr s t)\<lparr>stat := RT_THREAD_SUSPEND OR (stat (thr s t) AND NOT RT_THREAD_STAT_MASK)\<rparr>)"
  by (simp add: mark_suspended_def kernel_defs)

lemma mark_suspended_ok [simp]: "thread_ok (mark_suspended t s) u = thread_ok s u"
  by (simp add: thread_ok_def prio_def mark_suspended_thr stack_ok_def rt_object_get_type_def)

lemma kinv_mark_suspended:
  assumes k: "kinv s" and c: "rt_current_thread s = Some c" "is_ready s c"
  shows "kinv (mark_suspended c s)" (is "kinv ?s")
proof (rule kinvI)
  note K = kinvD[OF k] and u = running_unlinked(1)[OF assms]
  have ok: "thread_ok s c" using alive_ok[OF k] c by (simp add: alive_def)
  have st: "is_ready ?s x = (x \<noteq> c \<and> is_ready s x)" "is_suspended ?s x = (x = c \<or> is_suspended s x)"
    "is_closed ?s x = (x \<noteq> c \<and> is_closed s x)" for x
    by (simp_all add: is_ready_def is_suspended_def is_closed_def)
  show "queues_inv ?s" using K(1) queues_inv_cong[of ?s s] by simp
  show "ready_inv ?s" using K(2) c u unfolding ready_inv_def st by auto
  show "wait_inv ?s" using K(3) u unfolding wait_inv_def st by auto
  show "threads_inv ?s" using K(4) ok by (auto simp: threads_inv_def alive_def st)
  show "ttimer_inv ?s" using K(5) unfolding ttimer_inv_def st
    by (auto simp: rt_object_get_type_def)
  show "timer_inv ?s" using K(6) timer_inv_cong[of ?s s] by simp
qed

lemma mark_suspended_remove:
  assumes k: "kinv s" and c: "rt_current_thread s = Some c" "is_ready s c"
  shows "rt_schedule_remove_thread c (mark_suspended c s) = mark_suspended c s"
proof (rule remove_thread_noop)
  show "\<not> tlist_linked c (mark_suspended c s)"
    using running_unlinked(1)[OF assms] by (simp add: tlist_linked_def)
  have "mask_ok s c" using c alive_ok[OF k] thread_ok_mask by (simp add: alive_def)
  then show "tq (mark_suspended c s) (ReadyQ (prio (mark_suspended c s) c)) = [] \<Longrightarrow>
      rt_thread_ready_priority_group (mark_suspended c s) AND NOT (number_mask (thr (mark_suspended c s) c))
      = rt_thread_ready_priority_group (mark_suspended c s)"
    using empty_queue_mask[OF k] by (simp add: mark_suspended_thr)
qed

lemma thread_ok_types:
  assumes "thread_ok s t"
  shows "timer_typed s (ThreadTimer t)"
    "rt_object_get_type (OThread t) s = class_code RT_Object_Class_Thread"
  using assms by (simp_all add: thread_ok_def timer_typed_def)

definition thread_suspended :: "nat \<Rightarrow> kernel \<Rightarrow> kernel" where
  "thread_suspended t s = timer_stopped (ThreadTimer t) (mark_suspended t s)"

lemma thread_suspended_status [simp]:
  "tstat (thread_suspended c s) u = (if u = c then RT_THREAD_SUSPEND else tstat s u)"
  "prio (thread_suspended c s) u = prio s u"
  by (simp_all add: thread_suspended_def tstat_def prio_def mark_suspended_thr)

lemma rt_thread_suspend_eq:
  assumes k: "kinv s" and c: "rt_current_thread s = Some c" "is_ready s c"
  shows "rt_thread_suspend c s = Some (RT_EOK, thread_suspended c s)"
proof -
  have ok: "thread_ok s c" using alive_ok[OF k] c by (simp add: alive_def)
  then have ty: "timer_typed (mark_suspended c s) (ThreadTimer c)"
    by (simp add: thread_ok_types)
  show ?thesis
    using c thread_ok_types[OF ok] rt_timer_stop_eq[OF ty] mark_suspended_remove[OF assms]
    by (simp add: rt_thread_suspend_def thread_suspended_def is_ready_def tstat_def Let_def
        rt_thread_self_def mark_suspended_def[symmetric])
qed

lemma rt_thread_suspend_not_ready:
  assumes "rt_object_get_type (OThread t) s = class_code RT_Object_Class_Thread" "\<not> is_ready s t"
  shows "rt_thread_suspend t s = Some (- RT_ERROR, s)"
  using assms by (simp add: rt_thread_suspend_def is_ready_def tstat_def)

lemma thread_suspended_facts:
  assumes k: "kinv s" and c: "rt_current_thread s = Some c" "is_ready s c"
  shows "kinv (thread_suspended c s)" "is_suspended (thread_suspended c s) c"
    "\<not> tlist_linked c (thread_suspended c s)"
    "ThreadTimer c \<notin> set (rt_timer_list (thread_suspended c s))"
proof -
  note m = kinv_mark_suspended[OF assms]
  show "kinv (thread_suspended c s)" unfolding thread_suspended_def by (rule kinv_timer_stopped[OF m])
  show "ThreadTimer c \<notin> set (rt_timer_list (thread_suspended c s))"
    unfolding thread_suspended_def by (rule thread_timer_stopped[OF m])
  show "is_suspended (thread_suspended c s) c"
    by (simp add: thread_suspended_def is_suspended_def tstat_def mark_suspended_thr)
  show "\<not> tlist_linked c (thread_suspended c s)"
    using running_unlinked(1)[OF assms] by (simp add: tlist_linked_def thread_suspended_def)
qed

section \<open>Resuming a waiting thread\<close>

definition thread_resumed :: "nat \<Rightarrow> kernel \<Rightarrow> kernel" where
  "thread_resumed t s =
    rt_schedule_insert_thread t (timer_stopped (ThreadTimer t) (tlist_remove t s))"

lemma alive_types:
  assumes "kinv s" "is_suspended s t \<or> is_ready s t"
  shows "timer_typed s (ThreadTimer t)"
    "rt_object_get_type (OThread t) s = class_code RT_Object_Class_Thread"
  using thread_ok_types[OF alive_ok[OF assms(1), of t]] assms(2) by (auto simp: alive_def)

lemma rt_thread_resume_eq:
  assumes "kinv s" "is_suspended s t"
  shows "rt_thread_resume t s = Some (RT_EOK, thread_resumed t s)"
proof -
  have "timer_typed (tlist_remove t s) (ThreadTimer t)"
    using alive_types[OF assms(1)] assms(2) by (simp add: timer_typed_def rt_object_get_type_def)
  then show ?thesis
    using alive_types[OF assms(1)] assms(2) rt_timer_stop_eq[of "tlist_remove t s"]
    by (simp add: rt_thread_resume_def thread_resumed_def is_suspended_def tstat_def Let_def)
qed

lemma rt_thread_resume_not_suspended:
  assumes "rt_object_get_type (OThread t) s = class_code RT_Object_Class_Thread" "\<not> is_suspended s t"
  shows "rt_thread_resume t s = Some (- RT_ERROR, s)"
  using assms by (simp add: rt_thread_resume_def is_suspended_def tstat_def)

lemma timer_started_status [simp]:
  "tstat (timer_started r s) = tstat s" "prio (timer_started r s) = prio s"
  using status_cong[of "timer_started r s" s] by simp_all

lemma thread_resumed_kinv:
  assumes k: "kinv s" and t: "is_suspended s t"
  shows "kinv (thread_resumed t s)"
proof -
  note r = kinv_tlist_remove[OF k t]
  have "is_suspended (timer_stopped (ThreadTimer t) (tlist_remove t s)) t"
    using t by (simp add: is_suspended_def)
  moreover have "\<not> tlist_linked t (timer_stopped (ThreadTimer t) (tlist_remove t s))"
    using r(2) by (simp add: tlist_linked_def)
  ultimately show ?thesis
    unfolding thread_resumed_def
    by (intro kinv_insert_thread kinv_timer_stopped r(1) thread_timer_stopped)
qed

lemma thread_resumed_tq:
  assumes "kinv s" "is_suspended s t"
  shows "tq (thread_resumed t s) h =
    (if h = ReadyQ (prio s t) \<and> rt_current_thread s \<noteq> Some t then tq s h @ [t]
     else removeAll t (tq s h))"
  using kinv_tlist_remove(3)[OF assms]
  by (auto simp: thread_resumed_def insert_thread_tq tlist_remove_tq)

lemma thread_resumed_frame [simp]:
  "obj_list (thread_resumed t s) = obj_list s"
  "rt_current_thread (thread_resumed t s) = rt_current_thread s"
  "rt_current_priority (thread_resumed t s) = rt_current_priority s"
  "rt_scheduler_lock_nest (thread_resumed t s) = rt_scheduler_lock_nest s"
  "rt_interrupt_nest (thread_resumed t s) = rt_interrupt_nest s"
  "rt_tick (thread_resumed t s) = rt_tick s" "tmr (thread_resumed t s) = tmr s"
  "sem (thread_resumed t s) = sem s" "mtx (thread_resumed t s) = mtx s" "evt (thread_resumed t s) = evt s"
  "mbx (thread_resumed t s) = mbx s" "mqs (thread_resumed t s) = mqs s" "mps (thread_resumed t s) = mps s" "drv (thread_resumed t s) = drv s"
  "global_errno (thread_resumed t s) = global_errno s"
  "freed_mem (thread_resumed t s) = freed_mem s" "freed_objs (thread_resumed t s) = freed_objs s"
  "tstat (thread_resumed t s) u = (if u = t then RT_THREAD_READY else tstat s u)"
  "prio (thread_resumed t s) u = prio s u"
  by (simp_all add: thread_resumed_def tlist_remove_def)
    (simp_all add: tstat_def prio_def)

lemma thread_resumed_thr:
  "thr (thread_resumed t s) =
    (thr s)(t := (thr s t)\<lparr>stat := RT_THREAD_READY OR (stat (thr s t) AND NOT RT_THREAD_STAT_MASK)\<rparr>)"
  by (simp add: thread_resumed_def insert_thread_thr)

lemma thread_resumed_objs: "obj_same_but_active s (thread_resumed t s)"
  using timer_stopped_objs[of "tlist_remove t s" "ThreadTimer t"]
  by (simp add: thread_resumed_def obj_same_but_active_def)

section \<open>Fields of threads outside the invariant\<close>

lemma kinv_upd_thr:
  assumes "\<And>x. stat (f x) = stat x" "\<And>x. current_priority (f x) = current_priority x"
    "\<And>x. number_mask (f x) = number_mask x" "\<And>x. stack_ok (f x) = stack_ok x"
  shows "kinv (upd_thr t f s) = kinv s"
proof -
  let ?s = "upd_thr t f s"
  have st: "tstat ?s = tstat s" "prio ?s = prio s"
    using assms by (auto simp: tstat_def prio_def kernel_defs)
  have ok: "thread_ok ?s = thread_ok s"
    using assms st by (auto simp: thread_ok_def kernel_defs rt_object_get_type_def fun_eq_iff)
  show ?thesis unfolding kinv_def
    using st threads_inv_cong[OF st(1) ok] queues_inv_cong[of ?s s] ready_inv_cong[of ?s s]
      wait_inv_cong[of ?s s] ttimer_inv_cong[of ?s s] timer_inv_cong[of ?s s]
    by (simp add: kernel_defs)
qed

definition set_err :: "nat \<Rightarrow> rt_err \<Rightarrow> kernel \<Rightarrow> kernel" where
  [kernel_defs]: "set_err t e s = upd_thr t (\<lambda>th. th\<lparr>err := e\<rparr>) s"

lemma kinv_set_err [simp]: "kinv (set_err t e s) = kinv s"
  unfolding set_err_def by (rule kinv_upd_thr) (simp_all add: stack_ok_def)

section \<open>Timing out\<close>

definition thread_timed_out :: "nat \<Rightarrow> kernel \<Rightarrow> kernel" where
  "thread_timed_out t s = rt_schedule_insert_thread t (tlist_remove t (set_err t (- RT_ETIMEOUT) s))"

lemma rt_thread_timeout_eq:
  assumes "kinv s" "is_suspended s t"
  shows "rt_thread_timeout t s = rt_schedule (thread_timed_out t s)"
  using alive_types[OF assms(1)] assms(2)
  by (simp add: rt_thread_timeout_def thread_timed_out_def is_suspended_def tstat_def Let_def set_err_def)

lemma thread_timed_out_kinv:
  assumes k: "kinv s" and t: "is_suspended s t" "ThreadTimer t \<notin> set (rt_timer_list s)"
  shows "kinv (thread_timed_out t s)"
proof -
  let ?s = "set_err t (- RT_ETIMEOUT) s"
  have k': "kinv ?s" using k by simp
  have t': "is_suspended ?s t" using t by (simp add: is_suspended_def tstat_def kernel_defs)
  note r = kinv_tlist_remove[OF k' t']
  have "is_suspended (tlist_remove t ?s) t" using t' by (simp add: is_suspended_def)
  then show ?thesis unfolding thread_timed_out_def
    using r t(2) by (intro kinv_insert_thread) (simp_all add: kernel_defs)
qed

section \<open>Starting a thread\<close>

definition thread_fresh :: "kernel \<Rightarrow> nat \<Rightarrow> bool" where
  "thread_fresh s t =
    (tstat s t = RT_THREAD_INIT \<and> unat (init_priority (thr s t)) < 32 \<and> stack_ok (thr s t)
     \<and> rt_object_get_type (OThread t) s = class_code RT_Object_Class_Thread
     \<and> rt_object_get_type (OTimer (ThreadTimer t)) s = class_code RT_Object_Class_Timer
     \<and> timeout_func (tmr s (ThreadTimer t)) = RT_thread_timeout t
     \<and> obj_flag (objs s (OTimer (ThreadTimer t))) AND RT_TIMER_FLAG_PERIODIC = 0
     \<and> ThreadTimer t \<notin> set (rt_timer_list s))"

lemma init_unlinked:
  assumes "kinv s" "tstat s t = RT_THREAD_INIT"
  shows "t \<notin> set (tq s h)"
proof
  assume "t \<in> set (tq s h)"
  then show False
    using ready_queued[OF assms(1), of t] waiting_suspended[OF assms(1), of t] assms(2)
    by (cases h) (auto simp: stat_defs)
qed

definition thread_prepared :: "nat \<Rightarrow> kernel \<Rightarrow> kernel" where
  "thread_prepared t s = upd_thr t (\<lambda>th. th\<lparr>current_priority := init_priority th,
     number_mask := push_bit (unat (init_priority th)) 1, stat := RT_THREAD_SUSPEND\<rparr>) s"

lemma kinv_thread_prepared:
  assumes k: "kinv s" and f: "thread_fresh s t"
  shows "kinv (thread_prepared t s)" "is_suspended (thread_prepared t s) t"
proof -
  let ?s = "thread_prepared t s"
  note K = kinvD[OF k]
  have i: "tstat s t = RT_THREAD_INIT" using f by (simp add: thread_fresh_def)
  note u = init_unlinked[OF k i]
  have st: "tstat ?s x = (if x = t then RT_THREAD_SUSPEND else tstat s x)" for x
    by (simp add: tstat_def thread_prepared_def kernel_defs)
  have pr: "x \<noteq> t \<Longrightarrow> prio ?s x = prio s x" for x
    by (simp add: prio_def thread_prepared_def kernel_defs)
  have fr: "tq ?s = tq s" "objs ?s = objs s" "tmr ?s = tmr s" "rt_timer_list ?s = rt_timer_list s"
    "rt_tick ?s = rt_tick s" "rt_current_thread ?s = rt_current_thread s"
    "rt_thread_ready_priority_group ?s = rt_thread_ready_priority_group s"
    by (simp_all add: thread_prepared_def kernel_defs)
  have s3: "is_ready ?s x = (x \<noteq> t \<and> is_ready s x)" "is_suspended ?s x = (x = t \<or> is_suspended s x)"
    "is_closed ?s x = (x \<noteq> t \<and> is_closed s x)" for x
    using i by (auto simp: is_ready_def is_suspended_def is_closed_def st)
  show "is_suspended ?s t" by (simp add: s3)
  show "kinv ?s"
  proof (rule kinvI)
    show "queues_inv ?s" using K(1) queues_inv_cong[OF fr(1)] by simp
    have "\<forall>x p. x \<in> set (tq s (ReadyQ p)) \<longrightarrow> is_ready ?s x \<and> prio ?s x = p \<and> rt_current_thread s \<noteq> Some x"
      using ready_queued[OF k] u pr s3 by metis
    moreover have "\<forall>x. is_ready ?s x \<longrightarrow> rt_current_thread s \<noteq> Some x \<longrightarrow> x \<in> set (tq s (ReadyQ (prio ?s x)))"
      using ready_in_queue[OF k] pr s3 by simp
    ultimately show "ready_inv ?s" using K(2) by (simp add: ready_inv_def fr)
    show "wait_inv ?s" using K(3) u unfolding wait_inv_def fr s3 by auto
    have "thread_ok ?s t"
      using f by (simp add: thread_fresh_def thread_ok_def prio_def thread_prepared_def kernel_defs
          stack_ok_def rt_object_get_type_def)
    moreover have "thread_ok ?s x = thread_ok s x" if "x \<noteq> t" for x
      using that by (simp add: thread_ok_def prio_def thread_prepared_def kernel_defs rt_object_get_type_def)
    ultimately show "threads_inv ?s"
      using K(4) by (auto simp: threads_inv_def alive_def s3) metis+
    show "ttimer_inv ?s" using K(5)
      unfolding ttimer_inv_def fr s3 timer_active_def rt_object_get_type_def by auto
    show "timer_inv ?s" using K(6) timer_inv_cong[of ?s s] fr by simp
  qed
qed

lemma rt_thread_startup_eq:
  assumes k: "kinv s" and f: "thread_fresh s t"
  shows "rt_thread_startup t s =
    (let s' = thread_resumed t (thread_prepared t s)
     in if rt_current_thread s = None then Some (RT_EOK, s')
        else do { s'' \<leftarrow> rt_schedule s'; Some (RT_EOK, s'') })"
proof -
  have "upd_thr t (\<lambda>th. th\<lparr>stat := RT_THREAD_SUSPEND\<rparr>)
      (upd_thr t (\<lambda>th. th\<lparr>number_mask := push_bit (unat (current_priority th)) 1\<rparr>)
        (upd_thr t (\<lambda>th. th\<lparr>current_priority := init_priority th\<rparr>) s)) = thread_prepared t s"
    by (simp add: thread_prepared_def kernel_defs)
  moreover have "rt_current_thread (thread_prepared t s) = rt_current_thread s"
    by (simp add: thread_prepared_def kernel_defs)
  ultimately show ?thesis
    using f rt_thread_resume_eq[OF kinv_thread_prepared[OF assms]]
    by (simp add: rt_thread_startup_def thread_fresh_def tstat_def Let_def rt_thread_self_def)
qed

end
