(* ===== verification/RT_Thread_Life.thy ===== *)
theory RT_Thread_Life
  imports RT_Thread_Inv
begin

text \<open>Whole operations on threads under the kernel invariant: the calls that end with a
  scheduling step return and keep the invariant, whatever the scheduler then decides; the
  end of a thread takes it out of every queue; a change of priority moves a ready thread to
  its new queue.\<close>

section \<open>Starting, resuming and yielding\<close>

lemma rt_thread_startup_total:
  assumes k: "kinv s" and f: "thread_fresh s t"
  shows "\<exists>s'. rt_thread_startup t s = Some (RT_EOK, s') \<and> kinv s' \<and> is_ready s' t
    \<and> (rt_current_thread s = None \<longrightarrow> rt_current_thread s' = None)
    \<and> (rt_current_thread s \<noteq> None \<longrightarrow> rt_scheduler_lock_nest s = 0 \<longrightarrow> runs_best s')"
proof -
  let ?p = "thread_prepared t s"
  let ?r = "thread_resumed t ?p"
  note p = kinv_thread_prepared[OF assms]
  have k': "kinv ?r" by (rule thread_resumed_kinv[OF p])
  have c: "rt_current_thread ?r = rt_current_thread s" "rt_scheduler_lock_nest ?r = rt_scheduler_lock_nest s"
    by (simp_all add: thread_prepared_def kernel_defs)
  have rd: "is_ready ?r t" by (simp add: is_ready_def)
  show ?thesis
  proof (cases "rt_current_thread s")
    case None
    then show ?thesis using k' rd c by (simp add: rt_thread_startup_eq[OF assms] Let_def)
  next
    case (Some x)
    from rt_schedule_step[OF k' c(1)[unfolded Some]] obtain s' where
      s': "rt_schedule ?r = Some s'" "kinv s'" "sched_only ?r s'"
      "rt_scheduler_lock_nest ?r = 0 \<longrightarrow> (\<exists>t. is_ready ?r t) \<longrightarrow> runs_best s'" by blast
    then show ?thesis using Some c rd sched_only_status[OF s'(3)]
      by (auto simp: rt_thread_startup_eq[OF assms] Let_def)
  qed
qed

text \<open>Yielding among threads of the same priority passes the processor around.\<close>

lemma rt_thread_yield_rotates:
  assumes k: "kinv s" and c: "rt_current_thread s = Some c" "is_ready s c"
    and l: "rt_scheduler_lock_nest s = 0"
    and q: "tq s (ReadyQ (prio s c)) = t # ts" and best: "\<forall>p < prio s c. tq s (ReadyQ p) = []"
  shows "\<exists>s'. rt_thread_yield s = Some (RT_EOK, s') \<and> rt_current_thread s' = Some t
    \<and> tq s' (ReadyQ (prio s c)) = ts @ [c] \<and> (\<forall>h. h \<noteq> ReadyQ (prio s c) \<longrightarrow> tq s' h = tq s h)"
proof -
  have p32: "prio s c < 32" using alive_ok[OF k, of c] c by (simp add: alive_def thread_ok_def)
  then have g: "rt_thread_ready_priority_group s \<noteq> 0"
    using group_nonzero[OF kinv_bitmap[OF k]] q by auto
  obtain t' p' where h: "get_highest_priority_thread s = Some (t', p')" "p' < 32"
    "tq s (ReadyQ p') \<noteq> []" "t' = hd (tq s (ReadyQ p'))" "\<forall>q < p'. tq s (ReadyQ q) = []"
    by (rule highest_some[OF kinv_bitmap[OF k] g])
  have p: "p' = prio s c" using h(3,5) q best by (metis list.distinct(1) linorder_neqE_nat)
  then have t: "t' = t" using h(4) q by simp
  have n: "\<not> (is_ready s c \<and> prio s c < prio s c)" by simp
  note w = rt_schedule_switch[OF k c(1) l g h(1)[unfolded p t] n]
  have d: "t \<notin> set ts" using queue_distinct[OF k, of "ReadyQ (prio s c)"] q by simp
  show ?thesis
    using w(1) switch_to_sched_only(2)[OF k c(1) w(5,2)] switch_to_tq[OF k c(1) w(5,2)] q c(2) d
    by (auto simp: rt_thread_yield_def)
qed

section \<open>Sleeping\<close>

lemma rt_thread_sleep_full:
  assumes k: "kinv s" and c: "rt_current_thread s = Some c" "is_ready s c"
    and tick: "tick < RT_TICK_MAX div 2"
  shows "\<exists>r s'. rt_thread_sleep tick s = Some (r, s') \<and> kinv s' \<and> is_suspended s' c
    \<and> ThreadTimer c \<in> set (rt_timer_list s') \<and> timeout_tick (tmr s' (ThreadTimer c)) = rt_tick s + tick
    \<and> rt_tick s' = rt_tick s
    \<and> (rt_current_thread s' \<noteq> None \<and> set (rt_timer_list s') = insert (ThreadTimer c) (set (rt_timer_list s))
        \<and> (\<forall>x. x \<noteq> ThreadTimer c \<longrightarrow> timeout_tick (tmr s' x) = timeout_tick (tmr s x))
        \<and> (drv s' = drv s \<and> (\<forall>h. (\<forall>p. h \<noteq> ReadyQ p) \<longrightarrow> tq s' h = tq s h)
            \<and> (\<forall>u. u \<noteq> c \<longrightarrow> err (thr s' u) = err (thr s u))))
    \<and> (rt_scheduler_lock_nest s = 0 \<longrightarrow> (\<exists>t. t \<noteq> c \<and> is_ready s t) \<longrightarrow> r = Blocked \<and> runs_best s')"
proof -
  let ?r = "ThreadTimer c"
  define s1 where "s1 = thread_suspended c s"
  define s2 where "s2 = upd_tmr ?r (\<lambda>tm. tm\<lparr>tm_init_tick := tick\<rparr>) s1"
  define s3 where "s3 = timer_started ?r s2"
  note f1 = thread_suspended_facts[OF k c, folded s1_def]
  have cur1: "rt_current_thread s1 = Some c" "rt_tick s1 = rt_tick s"
    "rt_scheduler_lock_nest s1 = rt_scheduler_lock_nest s" "tmr s1 = tmr s"
    "rt_timer_list s1 = rt_timer_list s \<or> rt_timer_list s1 = removeAll ?r (rt_timer_list s)"
    using c by (simp_all add: s1_def thread_suspended_def)
  have k2: "kinv s2" unfolding s2_def by (rule kinv_set_init_tick[OF f1(1)])
  have s2: "tstat s2 = tstat s1" "rt_current_thread s2 = Some c" "rt_tick s2 = rt_tick s"
    "rt_scheduler_lock_nest s2 = rt_scheduler_lock_nest s" "tm_init_tick (tmr s2 ?r) = tick"
    "timer_typed s2 ?r = timer_typed s1 ?r"
    using cur1 status_cong[of s2 s1] by (auto simp: s2_def kernel_defs timer_typed_def rt_object_get_type_def)
  have ty: "timer_typed s1 ?r" using alive_types[OF f1(1)] f1(2) by blast
  have i: "tm_init_tick (tmr s2 ?r) < RT_TICK_MAX div 2" using s2 tick by simp
  have susp2: "is_suspended s2 c" using f1(2) s2 by (simp add: is_suspended_def)
  have k3: "kinv s3" unfolding s3_def
    using susp2 by (intro kinv_timer_started[OF k2 _ i]) (auto simp: ty s2)
  have s3: "rt_current_thread s3 = Some c" "is_suspended s3 c" "?r \<in> set (rt_timer_list s3)"
    "timeout_tick (tmr s3 ?r) = rt_tick s + tick" "rt_tick s3 = rt_tick s"
    "rt_scheduler_lock_nest s3 = rt_scheduler_lock_nest s" "tstat s3 = tstat s1"
    using s2 susp2 timer_started_inv(2)[OF kinvD(6)[OF k2] i]
    by (simp_all add: s3_def is_suspended_def timer_started_tmr)
  have l2: "rt_timer_list s2 = rt_timer_list s1" "x \<noteq> ?r \<longrightarrow> tmr s2 x = tmr s x" for x
    using cur1(4) by (simp_all add: s2_def kernel_defs)
  have l3: "set (rt_timer_list s3) = insert ?r (set (rt_timer_list s))"
    using timer_started_inv(2)[OF kinvD(6)[OF k2] i] cur1(5) l2(1) by (auto simp: s3_def)
  have t3: "\<forall>x. x \<noteq> ?r \<longrightarrow> timeout_tick (tmr s3 x) = timeout_tick (tmr s x)"
    using l2(2) by (simp add: s3_def timer_started_tmr)
  have fr3: "drv s3 = drv s" "tq s3 = tq s" "err (thr s3 u) = err (thr s u)" for u
    by (simp_all add: s3_def s2_def s1_def thread_suspended_def kernel_defs mark_suspended_thr)
  have e: "rt_thread_sleep tick s = after_schedule c (rt_thread_sleep_wake c) s3"
    using c ty rt_thread_suspend_eq[OF k c] rt_timer_start_eq[of s2 ?r] s2 i alive_types[OF k] c(2)
    by (simp add: rt_thread_sleep_def rt_thread_self_def rt_timer_control_def timer_typed_def
        RT_TIMER_CTRL_SET_TIME_def RT_TIMER_CTRL_GET_TIME_def s1_def[symmetric] s2_def[symmetric]
        s3_def[symmetric])
  from rt_schedule_step[OF k3 s3(1)] obtain s4 where
    s4: "rt_schedule s3 = Some s4" "kinv s4" "sched_only s3 s4"
    "rt_scheduler_lock_nest s3 = 0 \<longrightarrow> (\<exists>t. is_ready s3 t) \<longrightarrow> runs_best s4"
    "rt_current_thread s4 \<noteq> None" by blast
  note D = sched_onlyD[OF s4(3)] and S = sched_only_status[OF s4(3)]
  have q4: "tq s4 h = tq s h" if "\<And>p. h \<noteq> ReadyQ p" for h
    using that D(18-21) fr3(2) by (cases h) auto
  have fr4: "drv s4 = drv s" "err (thr s4 u) = err (thr s u)" for u using D fr3 by simp_all
  have other: "is_ready s3 t" if "t \<noteq> c" "is_ready s t" for t
    using that s3(7) by (simp add: is_ready_def s1_def)
  have rb: "runs_best s4" if "rt_scheduler_lock_nest s = 0" "t \<noteq> c" "is_ready s t" for t
    using s4(4) s3(6) other that by auto
  show ?thesis
  proof (cases "rt_current_thread s4 = Some c")
    case False
    moreover have "drv s4 = drv s \<and> (\<forall>h. (\<forall>p. h \<noteq> ReadyQ p) \<longrightarrow> tq s4 h = tq s h)
        \<and> (\<forall>u. u \<noteq> c \<longrightarrow> err (thr s4 u) = err (thr s u))" using fr4 q4 by blast
    ultimately show ?thesis using e s3 s4(1-3,5) D(5-8) S rb l3 t3 by (auto simp: after_schedule_def)
  next
    case True
    have nb: "\<not> runs_best s4" using True S s3(2) stat_disjoint by (auto simp: runs_best_def)
    let ?s5 = "if err (thr s4 c) = - RT_ETIMEOUT then set_err c RT_EOK s4 else s4"
    have "rt_thread_sleep tick s = Some (Done RT_EOK, ?s5)"
      using e s4 True by (simp add: after_schedule_def rt_thread_sleep_wake_def set_err_def)
    moreover have "kinv ?s5" using s4(2) by simp
    moreover have "is_suspended ?s5 c" using S s3(2) by (simp add: is_suspended_def tstat_def kernel_defs)
    moreover have "?r \<in> set (rt_timer_list ?s5)" "timeout_tick (tmr ?s5 ?r) = rt_tick s + tick"
      "rt_tick ?s5 = rt_tick s" using D s3 by (simp_all add: kernel_defs)
    moreover have "rt_current_thread ?s5 \<noteq> None"
      "set (rt_timer_list ?s5) = insert ?r (set (rt_timer_list s))"
      "\<forall>x. x \<noteq> ?r \<longrightarrow> timeout_tick (tmr ?s5 x) = timeout_tick (tmr s x)"
      using D l3 t3 s4(5) by (simp_all add: kernel_defs)
    moreover have "\<not> (rt_scheduler_lock_nest s = 0 \<and> (\<exists>t. t \<noteq> c \<and> is_ready s t))"
      using nb rb by blast
    moreover have "drv ?s5 = drv s \<and> (\<forall>h. (\<forall>p. h \<noteq> ReadyQ p) \<longrightarrow> tq ?s5 h = tq s h)
        \<and> (\<forall>u. u \<noteq> c \<longrightarrow> err (thr ?s5 u) = err (thr s u))"
      using fr4 q4 by (simp add: kernel_defs)
    ultimately show ?thesis by auto
  qed
qed

lemma rt_thread_sleep_total:
  assumes "kinv s" "rt_current_thread s = Some c" "is_ready s c" "tick < RT_TICK_MAX div 2"
  shows "\<exists>r s'. rt_thread_sleep tick s = Some (r, s') \<and> kinv s' \<and> is_suspended s' c
    \<and> ThreadTimer c \<in> set (rt_timer_list s') \<and> timeout_tick (tmr s' (ThreadTimer c)) = rt_tick s + tick
    \<and> rt_tick s' = rt_tick s
    \<and> (rt_scheduler_lock_nest s = 0 \<longrightarrow> (\<exists>t. t \<noteq> c \<and> is_ready s t) \<longrightarrow> r = Blocked \<and> runs_best s')"
  using rt_thread_sleep_full[OF assms] by blast

section \<open>The end of a thread\<close>

text \<open>What exit, detachment and deletion have in common: the thread leaves every queue, its
  timer leaves the timer list, and its status is closed; it may be put among the threads to
  be cleaned up, and its object and its timer may leave the object system.\<close>

definition closes :: "nat \<Rightarrow> kernel \<Rightarrow> kernel \<Rightarrow> bool" where
  "closes t s s' =
    ((\<forall>h. h \<noteq> DefunctQ \<longrightarrow> tq s' h = removeAll t (tq s h))
     \<and> tq s' DefunctQ \<in> {removeAll t (tq s DefunctQ), t # removeAll t (tq s DefunctQ)}
     \<and> rt_thread_ready_priority_group s' = rt_thread_ready_priority_group (rt_schedule_remove_thread t s)
     \<and> rt_current_thread s' = rt_current_thread s
     \<and> (\<forall>u. u \<noteq> t \<longrightarrow> thr s' u = thr s u) \<and> tstat s' t = RT_THREAD_CLOSE
     \<and> rt_timer_list s' = removeAll (ThreadTimer t) (rt_timer_list s)
     \<and> tmr s' = tmr s \<and> rt_tick s' = rt_tick s
     \<and> (\<forall>r. r \<noteq> OThread t \<longrightarrow> r \<noteq> OTimer (ThreadTimer t) \<longrightarrow> objs s' r = objs s r))"

lemma kinv_closes:
  assumes k: "kinv s" and t: "mask_ok s t" "\<And>p. t \<in> set (tq s (ReadyQ p)) \<Longrightarrow> p = prio s t"
    and c: "closes t s s'"
  shows "kinv s'" "is_closed s' t"
proof -
  note K = kinvD[OF k]
  define d where "d = (t \<in> set (tq s' DefunctQ))"
  have tq: "set (tq s' h) = set (tq s h) - {t} \<union> (if h = DefunctQ \<and> d then {t} else {})"
    "distinct (tq s' h)" for h
  proof -
    have "tq s' h = removeAll t (tq s h) \<or> (h = DefunctQ \<and> tq s' h = t # removeAll t (tq s h))"
      using c by (cases "h = DefunctQ") (auto simp: closes_def)
    then show "set (tq s' h) = set (tq s h) - {t} \<union> (if h = DefunctQ \<and> d then {t} else {})"
      "distinct (tq s' h)"
      using queue_distinct[OF k, of h] by (auto simp: distinct_removeAll d_def)
  qed
  have th: "u \<noteq> t \<Longrightarrow> thr s' u = thr s u" "tstat s' t = RT_THREAD_CLOSE" for u
    using c by (auto simp: closes_def)
  have ob: "r \<noteq> OThread t \<Longrightarrow> r \<noteq> OTimer (ThreadTimer t) \<Longrightarrow> objs s' r = objs s r" for r
    using c by (simp add: closes_def)
  have cl: "is_closed s' t" "\<not> is_ready s' t" "\<not> is_suspended s' t"
    using th(2) by (simp_all add: is_closed_def is_ready_def is_suspended_def)
  have st: "is_ready s' u = is_ready s u" "is_suspended s' u = is_suspended s u"
    "is_closed s' u = is_closed s u" "prio s' u = prio s u" if "u \<noteq> t" for u
    using th(1)[OF that] by (simp_all add: stat_defs prio_def)
  show "is_closed s' t" by (rule cl)
  show "kinv s'"
  proof (rule kinvI)
    show "queues_inv s'"
      unfolding queues_inv_def using queue_unique[OF k] by (auto simp: tq split: if_splits)
    have "bitmap_ok (rt_schedule_remove_thread t s)" by (rule bitmap_remove[OF kinv_bitmap[OF k] t])
    then have b: "bitmap_ok s'"
      using c unfolding bitmap_ok_def closes_def remove_thread_tq by simp
    have "is_ready s' u \<and> prio s' u = p \<and> rt_current_thread s' \<noteq> Some u" if "u \<in> set (tq s' (ReadyQ p))" for u p
      using that c ready_queued[OF k, of u p] st by (auto simp: closes_def tq(1))
    moreover have "u \<in> set (tq s' (ReadyQ (prio s' u)))" if "is_ready s' u" "rt_current_thread s' \<noteq> Some u" for u
      using that c ready_in_queue[OF k, of u] st[of u] cl(2)
      by (cases "u = t") (auto simp: closes_def)
    ultimately show "ready_inv s'" using b by (simp add: ready_inv_def bitmap_ok_def)
    show "wait_inv s'"
      using K(3) st cl unfolding wait_inv_def by (auto simp: tq split: if_splits)
    have "thread_ok s' u" if "alive s' u" for u
    proof -
      have u: "u \<noteq> t" using that cl by (auto simp: alive_def)
      then have "thread_ok s u" using K(4) that st by (auto simp: threads_inv_def alive_def)
      then show ?thesis using u th(1) ob c st
        by (auto simp: thread_ok_def rt_object_get_type_def closes_def)
    qed
    then show "threads_inv s'" by (simp add: threads_inv_def)
    have "is_suspended s' u \<and> timer_active (ThreadTimer u) s'" if "ThreadTimer u \<in> set (rt_timer_list s')" for u
    proof -
      have "u \<noteq> t" "ThreadTimer u \<in> set (rt_timer_list s)" using that c by (auto simp: closes_def)
      then show ?thesis using K(5) st ob by (auto simp: ttimer_inv_def timer_active_def)
    qed
    then show "ttimer_inv s'"
      using K(5) ob c by (auto simp: ttimer_inv_def closes_def rt_object_get_type_def)
    have "tkey s' = tkey s" using c by (auto simp: tkey_def closes_def)
    then show "timer_inv s'" using K(6) c by (auto simp: timer_inv_def closes_def distinct_removeAll)
  qed
qed

text \<open>A thread that has been initialised and not closed, in any status.\<close>

definition attached :: "kernel \<Rightarrow> nat \<Rightarrow> bool" where
  "attached s t =
    (rt_object_get_type (OThread t) s = class_code RT_Object_Class_Thread
     \<and> rt_object_get_type (OTimer (ThreadTimer t)) s = class_code RT_Object_Class_Timer
     \<and> rt_object_is_systemobject (OTimer (ThreadTimer t)) s)"

lemma alive_ready_queue:
  assumes "kinv s" "alive s t"
  shows "mask_ok s t" "\<And>p. t \<in> set (tq s (ReadyQ p)) \<Longrightarrow> p = prio s t"
  using thread_ok_mask[OF alive_ok[OF assms]] ready_queued[OF assms(1)] by auto

lemma rt_thread_exit_total:
  assumes k: "kinv s" and c: "rt_current_thread s = Some c" "alive s c" "attached s c"
  shows "\<exists>s'. rt_thread_exit s = Some s' \<and> kinv s' \<and> is_closed s' c
    \<and> (c \<in> set (tq s' DefunctQ) \<longleftrightarrow>
         \<not> (rt_object_is_systemobject (OThread c) s \<and> cleanup (thr s c) = None))
    \<and> (rt_scheduler_lock_nest s = 0 \<longrightarrow> (\<exists>t. t \<noteq> c \<and> is_ready s t) \<longrightarrow> runs_best s')"
proof -
  define s1 where "s1 = upd_thr c (\<lambda>th. th\<lparr>stat := RT_THREAD_CLOSE\<rparr>) (rt_schedule_remove_thread c s)"
  define s2 where "s2 = rt_object_detach (OTimer (ThreadTimer c)) (rt_timer_remove (ThreadTimer c) s1)"
  define P where "P = (rt_object_is_systemobject (OThread c) s \<and> cleanup (thr s c) = None)"
  define s3 where "s3 = (if P then rt_object_detach (OThread c) s2 else tlist_push_front DefunctQ c s2)"
  have "rt_timer_detach (ThreadTimer c) s1 = Some (RT_EOK, s2)"
    using c(3) by (simp add: rt_timer_detach_def attached_def s1_def s2_def kernel_defs Let_def
        rt_object_get_type_def rt_object_is_systemobject_def)
  moreover have "(rt_object_is_systemobject (OThread c) s2 \<and> cleanup (thr s2 c) = None) = P"
    by (simp add: P_def s2_def s1_def rt_object_is_systemobject_def rt_object_detach_def kernel_defs)
  ultimately have e: "rt_thread_exit s = rt_schedule s3"
    by (simp add: rt_thread_exit_def rt_thread_self_def c(1) Let_def s1_def[symmetric] s3_def)
  have cl: "closes c s s3"
    by (auto simp: closes_def s3_def s2_def s1_def rt_object_detach_def kernel_defs tstat_def
        remove_thread_tq)
  note k3 = kinv_closes[OF k alive_ready_queue[OF k c(2)] cl]
  have cur: "rt_current_thread s3 = Some c" using cl c by (simp add: closes_def)
  from rt_schedule_step[OF k3(1) cur] obtain s4 where
    s4: "rt_schedule s3 = Some s4" "kinv s4" "sched_only s3 s4"
    "rt_scheduler_lock_nest s3 = 0 \<longrightarrow> (\<exists>t. is_ready s3 t) \<longrightarrow> runs_best s4" by blast
  have "c \<in> set (tq s3 DefunctQ) \<longleftrightarrow> \<not> P"
    by (auto simp: s3_def s2_def s1_def rt_object_detach_def kernel_defs remove_thread_tq)
  moreover have "runs_best s4" if "rt_scheduler_lock_nest s = 0" "t \<noteq> c" "is_ready s t" for t
  proof -
    have "rt_scheduler_lock_nest s3 = 0"
      using that(1) by (simp add: s3_def s2_def s1_def rt_object_detach_def kernel_defs)
    moreover have "is_ready s3 t" using that(2,3) cl by (simp add: closes_def stat_defs)
    ultimately show ?thesis using s4(4) by blast
  qed
  ultimately show ?thesis
    using e s4(1-3) k3(2) sched_onlyD(20)[OF s4(3)] sched_only_status[OF s4(3)]
    by (auto simp: P_def)
qed

text \<open>Detachment of a static thread by another one, and deletion of a dynamic one.\<close>

lemma init_thread_unqueued:
  assumes k: "kinv s" and i: "tstat s t = RT_THREAD_INIT"
  shows "tlist_remove t s = s" "removeAll t (tq s h) = tq s h"
  using init_unlinked[OF assms] by (cases s, simp_all add: tlist_remove_def)

lemma rt_thread_detach_total:
  assumes k: "kinv s" and t: "alive s t" "attached s t"
    and st: "rt_object_is_systemobject (OThread t) s"
  shows "\<exists>s'. rt_thread_detach t s = Some (RT_EOK, s') \<and> kinv s' \<and> is_closed s' t
    \<and> (\<forall>h. h \<noteq> DefunctQ \<longrightarrow> t \<notin> set (tq s' h))
    \<and> (t \<in> set (tq s' DefunctQ) \<longleftrightarrow> cleanup (thr s t) \<noteq> None)
    \<and> ThreadTimer t \<notin> set (rt_timer_list s') \<and> \<not> rt_object_is_systemobject (OThread t) s'"
proof -
  define s1 where "s1 = rt_schedule_remove_thread t s"
  define s2 where "s2 = rt_object_detach (OTimer (ThreadTimer t)) (rt_timer_remove (ThreadTimer t) s1)"
  define s3 where "s3 = rt_object_detach (OThread t) (upd_thr t (\<lambda>th. th\<lparr>stat := RT_THREAD_CLOSE\<rparr>) s2)"
  define s4 where "s4 = (if cleanup (thr s3 t) \<noteq> None then tlist_push_front DefunctQ t s3 else s3)"
  have "tstat s t \<noteq> RT_THREAD_INIT" using t(1) by (auto simp: stat_defs)
  moreover have "rt_timer_detach (ThreadTimer t) s1 = Some (RT_EOK, s2)"
    using t(2) by (simp add: rt_timer_detach_def attached_def s1_def s2_def kernel_defs Let_def
        rt_object_get_type_def rt_object_is_systemobject_def)
  ultimately have e: "rt_thread_detach t s = Some (RT_EOK, s4)"
    using t(2) st
    by (simp add: rt_thread_detach_def attached_def tstat_def Let_def s1_def[symmetric] s3_def s4_def)
  have cl: "closes t s s4"
    by (auto simp: closes_def s4_def s3_def s2_def s1_def rt_object_detach_def kernel_defs tstat_def
        remove_thread_tq)
  have "t \<in> set (tq s4 DefunctQ) \<longleftrightarrow> cleanup (thr s t) \<noteq> None"
    by (auto simp: s4_def s3_def s2_def s1_def rt_object_detach_def kernel_defs remove_thread_tq)
  moreover have "\<not> rt_object_is_systemobject (OThread t) s4"
    by (simp add: s4_def s3_def rt_object_detach_def kernel_defs rt_object_is_systemobject_def)
  ultimately show ?thesis
    using e cl kinv_closes[OF k alive_ready_queue[OF k t(1)] cl] by (auto simp: closes_def)
qed

lemma rt_thread_delete_closes:
  assumes k: "kinv s" and t: "alive s t" "attached s t"
    and st: "\<not> rt_object_is_systemobject (OThread t) s"
  shows "\<exists>s'. rt_thread_delete t s = Some (RT_EOK, s') \<and> kinv s' \<and> is_closed s' t \<and> closes t s s'
    \<and> tq s' DefunctQ = t # tq s DefunctQ \<and> \<not> rt_object_is_systemobject (OThread t) s'
    \<and> stack_addr (thr s' t) = stack_addr (thr s t) \<and> cleanup (thr s' t) = cleanup (thr s t)
    \<and> freed_mem s' = freed_mem s \<and> freed_objs s' = freed_objs s
    \<and> rt_scheduler_lock_nest s' = rt_scheduler_lock_nest s \<and> rt_interrupt_nest s' = rt_interrupt_nest s
    \<and> sem s' = sem s"
proof -
  define s1 where "s1 = rt_schedule_remove_thread t s"
  define s2 where "s2 = rt_object_detach (OTimer (ThreadTimer t)) (rt_timer_remove (ThreadTimer t) s1)"
  define s4 where "s4 = tlist_push_front DefunctQ t (upd_thr t (\<lambda>th. th\<lparr>stat := RT_THREAD_CLOSE\<rparr>) s2)"
  have "tstat s t \<noteq> RT_THREAD_INIT" using t(1) by (auto simp: stat_defs)
  moreover have "rt_timer_detach (ThreadTimer t) s1 = Some (RT_EOK, s2)"
    using t(2) by (simp add: rt_timer_detach_def attached_def s1_def s2_def kernel_defs Let_def
        rt_object_get_type_def rt_object_is_systemobject_def)
  ultimately have e: "rt_thread_delete t s = Some (RT_EOK, s4)"
    using t(2) st
    by (simp add: rt_thread_delete_def attached_def tstat_def Let_def s1_def[symmetric] s4_def)
  have cl: "closes t s s4"
    by (auto simp: closes_def s4_def s2_def s1_def rt_object_detach_def kernel_defs tstat_def
        remove_thread_tq)
  have "t \<notin> set (tq s DefunctQ)"
    using kinvD(3)[OF k] t(1) by (auto simp: wait_inv_def alive_def stat_disjoint)
  then have "tq s4 DefunctQ = t # tq s DefunctQ"
    by (simp add: s4_def s2_def s1_def rt_object_detach_def kernel_defs remove_thread_tq)
  moreover have "\<not> rt_object_is_systemobject (OThread t) s4" "stack_addr (thr s4 t) = stack_addr (thr s t)"
    "cleanup (thr s4 t) = cleanup (thr s t)" "freed_mem s4 = freed_mem s" "freed_objs s4 = freed_objs s"
    "rt_scheduler_lock_nest s4 = rt_scheduler_lock_nest s" "rt_interrupt_nest s4 = rt_interrupt_nest s"
    "sem s4 = sem s"
    using st by (simp_all add: s4_def s2_def s1_def rt_object_detach_def kernel_defs rt_object_is_systemobject_def)
  ultimately show ?thesis
    using e cl kinv_closes[OF k alive_ready_queue[OF k t(1)] cl] by auto
qed

lemma rt_thread_delete_total:
  assumes k: "kinv s" and t: "alive s t" "attached s t"
    and st: "\<not> rt_object_is_systemobject (OThread t) s"
  shows "\<exists>s'. rt_thread_delete t s = Some (RT_EOK, s') \<and> kinv s' \<and> is_closed s' t
    \<and> hd (tq s' DefunctQ) = t \<and> t \<in> set (tq s' DefunctQ) \<and> ThreadTimer t \<notin> set (rt_timer_list s')
    \<and> (\<forall>h. h \<noteq> DefunctQ \<longrightarrow> t \<notin> set (tq s' h)) \<and> rt_current_thread s' = rt_current_thread s"
  using rt_thread_delete_closes[OF assms] by (auto simp: closes_def)

section \<open>Changing the priority of a thread\<close>

definition set_prio :: "nat \<Rightarrow> rt_uint8 \<Rightarrow> kernel \<Rightarrow> kernel" where
  [kernel_defs]: "set_prio t p =
    upd_thr t (\<lambda>th. th\<lparr>current_priority := p, number_mask := push_bit (unat p) 1\<rparr>)"

definition prio_changed :: "nat \<Rightarrow> rt_uint8 \<Rightarrow> kernel \<Rightarrow> kernel" where
  "prio_changed t p s =
    (if is_ready s t then rt_schedule_insert_thread t (set_prio t p (rt_schedule_remove_thread t s))
     else set_prio t p s)"

lemma rt_thread_control_prio:
  assumes "rt_object_get_type (OThread t) s = class_code RT_Object_Class_Thread"
  shows "rt_thread_control t RT_THREAD_CTRL_CHANGE_PRIORITY p s = Some (RT_EOK, prio_changed t p s)"
  using assms by (simp add: rt_thread_control_def prio_changed_def is_ready_def tstat_def set_prio_def)

lemma set_prio_status [simp]:
  "tstat (set_prio t p s) u = tstat s u"
  "prio (set_prio t p s) u = (if u = t then unat p else prio s u)"
  by (simp_all add: tstat_def prio_def kernel_defs)

lemma set_prio_ok:
  assumes "unat p < 32" "thread_ok s u"
  shows "thread_ok (set_prio t p s) u"
  using assms by (cases "u = t")
    (simp_all add: thread_ok_def kernel_defs prio_def stack_ok_def rt_object_get_type_def)

lemma kinv_set_prio:
  assumes k: "kinv s" and u: "\<And>p. t \<notin> set (tq s (ReadyQ p))" and p: "unat p < 32"
  shows "kinv (set_prio t p s)" (is "kinv ?s")
proof (rule kinvI)
  note K = kinvD[OF k]
  have st: "tstat ?s = tstat s" by auto
  have fr: "tq ?s = tq s" "objs ?s = objs s" "tmr ?s = tmr s" "rt_timer_list ?s = rt_timer_list s"
    "rt_tick ?s = rt_tick s" "rt_current_thread ?s = rt_current_thread s"
    "rt_thread_ready_priority_group ?s = rt_thread_ready_priority_group s"
    by (simp_all add: kernel_defs)
  show "queues_inv ?s" using K(1) queues_inv_cong[OF fr(1)] by simp
  have "x \<in> set (tq s (ReadyQ (prio ?s x)))" if "is_ready s x" "rt_current_thread s \<noteq> Some x" for x
    using ready_in_queue[OF k that] u by auto
  then show "ready_inv ?s"
    using K(2) u unfolding ready_inv_def fr stat_cong[OF st] by auto
  show "wait_inv ?s" using K(3) wait_inv_cong[OF fr(1) st] by simp
  show "threads_inv ?s"
    using K(4) set_prio_ok[OF p] by (auto simp: threads_inv_def stat_cong[OF st])
  show "ttimer_inv ?s" using K(5) ttimer_inv_cong[OF st fr(2,4)] by simp
  show "timer_inv ?s" using K(6) timer_inv_cong[OF fr(3,5,4)] by simp
qed

lemma kinv_prio_changed:
  assumes k: "kinv s" and p: "unat p < 32"
  shows "kinv (prio_changed t p s)" (is "kinv ?s")
proof -
  consider "\<not> is_ready s t" | "is_ready s t" "rt_current_thread s = Some t"
    | "is_ready s t" "rt_current_thread s \<noteq> Some t" by blast
  then show ?thesis
  proof cases
    case 1
    then show ?thesis using kinv_set_prio[OF k suspended_not_ready_queue[OF k 1] p]
      by (simp add: prio_changed_def)
  next
    case 2
    have r: "is_ready (set_prio t p s) t" using 2(1) by (simp add: is_ready_def)
    have cur: "rt_current_thread (set_prio t p s) = Some t" using 2 by (simp add: kernel_defs)
    have "rt_schedule_insert_thread t (set_prio t p s) = set_prio t p s"
      using insert_ready_thr[OF r] cur
      by (intro kernel.equality) (simp_all add: insert_thread_tq insert_thread_group)
    then show ?thesis
      using 2 kinv_set_prio[OF k running_unlinked(1)[OF k 2(2,1)] p] remove_running_thread[OF k 2(2,1)]
      by (simp add: prio_changed_def)
  next
    case 3
    let ?r = "rt_schedule_remove_thread t s"
    let ?m = "set_prio t p ?r"
    have e: "?s = rt_schedule_insert_thread t ?m" using 3 by (simp add: prio_changed_def)
    note K = kinvD[OF k]
    have ok: "thread_ok s t" using alive_ok[OF k] 3(1) by (simp add: alive_def)
    have tqm: "tq ?m = (\<lambda>h. removeAll t (tq s h))" by (simp add: kernel_defs remove_thread_tq)
    have curm: "rt_current_thread ?m = rt_current_thread s" by (simp add: kernel_defs)
    have prm: "prio ?m t = unat p" by simp
    have tqs: "tq ?s h = (if h = ReadyQ (unat p) then removeAll t (tq s h) @ [t] else removeAll t (tq s h))" for h
      using 3(2) by (simp add: e insert_thread_tq tqm curm)
    have st: "tstat ?s u = tstat s u" "prio ?s u = (if u = t then unat p else prio s u)" for u
      using 3(1) by (simp_all add: e is_ready_def)
    then have st': "tstat ?s = tstat s" by auto
    have "bitmap_ok ?r" by (rule bitmap_remove[OF kinv_bitmap[OF k] thread_ok_mask[OF ok]])
        (use ready_queued[OF k] in auto)
    then have "bitmap_ok ?m" by (simp add: bitmap_ok_def kernel_defs)
    then have b: "bitmap_ok ?s" unfolding e
      by (rule bitmap_insert) (simp add: mask_ok_def p, simp add: kernel_defs)
    show ?thesis
    proof (rule kinvI)
      show "queues_inv ?s" unfolding queues_inv_def
        using queue_unique[OF k] queue_distinct[OF k] by (auto simp: tqs distinct_removeAll split: if_splits)
      have "x \<in> set (tq ?s (ReadyQ (prio ?s x)))" if "is_ready s x" "rt_current_thread s \<noteq> Some x" for x
        using ready_in_queue[OF k that] by (auto simp: tqs st)
      moreover have "rt_current_thread ?s = rt_current_thread s" by (simp add: e curm)
      ultimately show "ready_inv ?s"
        using b ready_queued[OF k] 3 unfolding ready_inv_def bitmap_ok_def[symmetric]
        by (auto simp: tqs stat_cong[OF st'] st split: if_splits)
      show "wait_inv ?s" using K(3) unfolding wait_inv_def stat_cong[OF st'] by (auto simp: tqs)
      have "thread_ok ?s u = thread_ok ?m u" for u by (simp add: e)
      then show "threads_inv ?s"
        using K(4) set_prio_ok[OF p] unfolding threads_inv_def stat_cong[OF st']
        by (metis remove_thread_status(3))
      show "ttimer_inv ?s" using K(5) ttimer_inv_cong[OF st'] by (simp add: e kernel_defs)
      show "timer_inv ?s" using K(6) timer_inv_cong[of ?s s] by (simp add: e kernel_defs)
    qed
  qed
qed

lemma prio_changed_status [simp]:
  "tstat (prio_changed t p s) u = tstat s u"
  "prio (prio_changed t p s) u = (if u = t then unat p else prio s u)"
  by (auto simp: prio_changed_def is_ready_def)

end
