(* ===== verification/RT_Demo.thy ===== *)
theory RT_Demo
  imports RT_Thread_Life
begin

text \<open>A concrete kernel state, on which the theorems are applied. Thread 0 is the idle thread
  with the lowest priority 31; it runs. Threads 1 and 2 are ready with priority 5, thread 3
  is suspended with priority 3 and waits for semaphore 0, thread 4 is initialised with
  priority 2 and not started. The other objects are static objects of their classes.\<close>

definition demo_type :: "objref \<Rightarrow> rt_uint8" where
  "demo_type r = (case r of
      OThread _ \<Rightarrow> 0x80 | OSem _ \<Rightarrow> 0x81 | OMutex _ \<Rightarrow> 0x82 | OEvent _ \<Rightarrow> 0x83 | OMailbox _ \<Rightarrow> 0x84
    | OMq _ \<Rightarrow> 0x85 | OMemheap _ \<Rightarrow> 0x86 | OMempool _ \<Rightarrow> 0x87 | ODevice _ \<Rightarrow> 0x88 | OTimer _ \<Rightarrow> 0x89)"

definition demo_thread :: "rt_uint8 \<Rightarrow> rt_uint8 \<Rightarrow> rt_thread" where
  "demo_thread st p = zero_thread\<lparr>stack_addr := 0x20000000, stack_size := 0x200,
     sp := 0x20000100, stack_byte0 := 0x23, stat := st, current_priority := p, init_priority := p,
     number_mask := push_bit (unat p) 1, init_tick := 10, remaining_tick := 10\<rparr>"

definition demo_threads :: "nat \<Rightarrow> rt_thread" where
  "demo_threads t =
    (if t = 0 then demo_thread 1 31 else if t = 1 \<or> t = 2 then demo_thread 1 5
     else if t = 3 then demo_thread 2 3 else demo_thread 0 2)"

definition demo :: kernel where
  "demo = \<lparr>
     objs = (\<lambda>r. \<lparr>obj_name = [], obj_type = demo_type r, obj_flag = 0\<rparr>),
     obj_list = (\<lambda>_. []),
     thr = demo_threads,
     tq = (\<lambda>h. if h = ReadyQ 5 then [1, 2] else if h = WaitQ (OSem 0) then [3] else []),
     rt_current_thread = Some 0,
     rt_current_priority = 31,
     rt_thread_ready_priority_group = 32,
     rt_scheduler_lock_nest = 0,
     rt_interrupt_nest = 0,
     rt_tick = 0,
     tmr = (\<lambda>r. case r of
         ThreadTimer t \<Rightarrow> \<lparr>timeout_func = RT_thread_timeout t, tm_init_tick = 0, timeout_tick = 0\<rparr>
       | UserTimer n \<Rightarrow> \<lparr>timeout_func = User_timeout n, tm_init_tick = 10, timeout_tick = 0\<rparr>),
     rt_timer_list = [],
     sem = (\<lambda>_. \<lparr>sem_value = 0\<rparr>),
     mtx = (\<lambda>_. \<lparr>mtx_value = 1, original_priority = 0xff, hold = 0, owner = None\<rparr>),
     evt = (\<lambda>_. \<lparr>evt_set = 0\<rparr>),
     mbx = (\<lambda>_. \<lparr>mb_addr = 0x20001000, mb_pool = [0, 0], mb_size = 2, mb_entry = 0, in_offset = 0, out_offset = 0\<rparr>),
     mqs = (\<lambda>_. \<lparr>mq_addr = 0x20002000, mq_link = (\<lambda>i. if i = 1 then Some 0 else None), mq_buf = (\<lambda>_. [0, 0, 0, 0]),
       mq_msg_size = 4, mq_max_msgs = 2, mq_entry = 0, msg_queue_head = None, msg_queue_tail = None,
       msg_queue_free = Some 1\<rparr>),
     mps = (\<lambda>_. \<lparr>mp_addr = 0x20003000, mp_size = 24, mp_block_size = 8,
       mp_head = (\<lambda>i. NextFree (if i = 0 then Some 1 else None)), mp_block_list = Some 0,
       mp_total = 2, mp_free_count = 2, mp_suspend_count = 0\<rparr>),
     drv = \<lparr>dqs = (\<lambda>_. \<lparr>dq_size = 2, dq_lwm = 1, get_index = 0, put_index = 0, dq_queue = [(0, 0), (0, 0)],
         evt_notify = None\<rparr>), cmps = (\<lambda>_. \<lparr>compl_flag = 0\<rparr>),
       devs = (\<lambda>_. \<lparr>dev_class = 0, dev_flag = 3, open_flag = 0, ref_count = 0, device_id = 0, rx_indicate = None,
         tx_complete = None, dev_init = Some 0, dev_open = Some 1, dev_close = Some 2, dev_read = Some 3,
         dev_write = None, dev_control = None\<rparr>)\<rparr>,
     global_errno = 0,
     freed_mem = [],
     freed_objs = []\<rparr>"

lemma demo_thr [simp]:
  "stat (demo_threads t) = (if t = 0 \<or> t = 1 \<or> t = 2 then 1 else if t = 3 then 2 else 0)"
  "current_priority (demo_threads t) = (if t = 0 then 31 else if t = 1 \<or> t = 2 then 5 else if t = 3 then 3 else 2)"
  "init_priority (demo_threads t) = (if t = 0 then 31 else if t = 1 \<or> t = 2 then 5 else if t = 3 then 3 else 2)"
  "number_mask (demo_threads t) = push_bit (unat (current_priority (demo_threads t))) 1"
  "stack_ok (demo_threads t)" "cleanup (demo_threads t) = None" "err (demo_threads t) = 0"
  by (simp_all add: demo_threads_def demo_thread_def zero_thread_def stack_ok_def)

lemma demo_fields [simp]:
  "thr demo = demo_threads" "rt_current_thread demo = Some 0"
  "tq demo = (\<lambda>h. if h = ReadyQ 5 then [1, 2] else if h = WaitQ (OSem 0) then [3] else [])"
  "rt_thread_ready_priority_group demo = 32" "rt_timer_list demo = []" "rt_scheduler_lock_nest demo = 0"
  "rt_interrupt_nest demo = 0" "rt_tick demo = 0" "obj_list demo = (\<lambda>_. [])"
  "obj_type (objs demo r) = demo_type r" "obj_flag (objs demo r) = 0"
  "timeout_func (tmr demo (ThreadTimer t)) = RT_thread_timeout t"
  "sem demo = (\<lambda>_. \<lparr>sem_value = 0\<rparr>)"
  by (simp_all add: demo_def)

lemma demo_status [simp]:
  "is_ready demo t = (t = 0 \<or> t = 1 \<or> t = 2)" "is_suspended demo t = (t = 3)"
  "is_closed demo t = False"
  "prio demo t = (if t = 0 then 31 else if t = 1 \<or> t = 2 then 5 else if t = 3 then 3 else 2)"
  by (auto simp: stat_defs flag_simps prio_def)

lemma demo_types [simp]:
  "rt_object_get_type (OThread t) demo = class_code RT_Object_Class_Thread"
  "rt_object_get_type (OTimer r) demo = class_code RT_Object_Class_Timer"
  "rt_object_get_type (OSem i) demo = class_code RT_Object_Class_Semaphore"
  "rt_object_get_type (OMutex i) demo = class_code RT_Object_Class_Mutex"
  "rt_object_get_type (OEvent i) demo = class_code RT_Object_Class_Event"
  "rt_object_get_type (OMailbox i) demo = class_code RT_Object_Class_MailBox"
  "rt_object_get_type (OMq i) demo = class_code RT_Object_Class_MessageQueue"
  "rt_object_get_type (OMempool i) demo = class_code RT_Object_Class_MemPool"
  "rt_object_is_systemobject ob demo"
  by (simp_all add: rt_object_get_type_def rt_object_is_systemobject_def demo_type_def
      RT_Object_Class_Static_def split: objref.splits)

lemma demo_group: "p < 32 \<Longrightarrow> bit (32 :: 32 word) p = (p = 5)"
  using bit_exp32[of 5 p] by simp

lemma kinv_demo [simp]: "kinv demo"
proof (rule kinvI)
  show "queues_inv demo" by (auto simp: queues_inv_def split: if_splits)
  have "\<forall>p < 32. bit (rt_thread_ready_priority_group demo) p = (tq demo (ReadyQ p) \<noteq> [])"
    using demo_group by simp
  then show "ready_inv demo" unfolding ready_inv_def by (auto split: if_splits)
  show "wait_inv demo" unfolding wait_inv_def by (auto split: if_splits)
  show "threads_inv demo" unfolding threads_inv_def alive_def thread_ok_def
    by (auto simp: prio_def[symmetric] simp del: class_code.simps)
  show "ttimer_inv demo" by (simp add: ttimer_inv_def)
  show "timer_inv demo" by (simp add: timer_inv_def)
qed

end
