(* ===== verification/RT_Sched_Spec.thy ===== *)
theory RT_Sched_Spec
  imports RT_Demo
begin

text \<open>What the scheduler promises, without its bitmap: a state of the specification is the
  running thread and the ready threads queued by priority; a scheduling step runs the first
  thread of the most urgent queue unless the running thread is ready and more urgent, and
  puts a preempted ready thread at the end of its queue. The scheduler of the source refines
  it, and the properties of the scheduler and of the thread operations follow.\<close>

section \<open>The specification\<close>

record asched =
  arun :: nat
  aqueue :: "nat \<Rightarrow> nat list"

definition most_urgent :: "(nat \<Rightarrow> nat list) \<Rightarrow> nat option" where
  "most_urgent Q = find (\<lambda>p. Q p \<noteq> []) [0..<32]"

definition spec_schedule :: "(nat \<Rightarrow> bool) \<Rightarrow> (nat \<Rightarrow> nat) \<Rightarrow> asched \<Rightarrow> asched" where
  "spec_schedule rdy pr a =
    (let c = arun a in
     case most_urgent (aqueue a) of
       None \<Rightarrow> a
     | Some p \<Rightarrow>
         if rdy c \<and> pr c < p then a
         else let Q = (aqueue a)(p := tl (aqueue a p))
              in \<lparr>arun = hd (aqueue a p),
                  aqueue = (if rdy c then Q(pr c := Q (pr c) @ [c]) else Q)\<rparr>)"

definition abs_sched :: "kernel \<Rightarrow> asched" where
  "abs_sched s = \<lparr>arun = the (rt_current_thread s), aqueue = (\<lambda>p. tq s (ReadyQ p))\<rparr>"

lemma most_urgent_Some:
  assumes "p < 32" "Q p \<noteq> []" "\<forall>q < p. Q q = []"
  shows "most_urgent Q = Some p"
  using assms unfolding most_urgent_def find_Some_iff by (intro exI[of _ p]) auto

lemma most_urgent_None: "(\<forall>q < 32. Q q = []) \<Longrightarrow> most_urgent Q = None"
  by (simp add: most_urgent_def find_None_iff)

text \<open>C1. The scheduling step of the source, with its bitmap and its table lookup, is the step of
  the specification on the running thread and the ready queues.\<close>

theorem rt_schedule_refines:
  assumes k: "kinv s" and c: "rt_current_thread s = Some c" and l: "rt_scheduler_lock_nest s = 0"
  shows "map_option abs_sched (rt_schedule s)
    = Some (spec_schedule (is_ready s) (prio s) (abs_sched s))"
proof (cases "rt_thread_ready_priority_group s = 0")
  case True
  then have "most_urgent (\<lambda>p. tq s (ReadyQ p)) = None"
    using group_nonzero[OF kinv_bitmap[OF k]] by (intro most_urgent_None) auto
  then show ?thesis
    using rt_schedule_idle[OF True] by (simp add: spec_schedule_def abs_sched_def Let_def)
next
  case False
  obtain t p where h: "get_highest_priority_thread s = Some (t, p)" "p < 32"
    "tq s (ReadyQ p) \<noteq> []" "t = hd (tq s (ReadyQ p))" "\<forall>q < p. tq s (ReadyQ q) = []"
    by (rule highest_some[OF kinv_bitmap[OF k] False])
  have m: "most_urgent (\<lambda>p. tq s (ReadyQ p)) = Some p" using h(2,3,5) by (intro most_urgent_Some)
  show ?thesis
  proof (cases "is_ready s c \<and> prio s c < p")
    case True
    then show ?thesis using rt_schedule_stay[OF k c _ h(1)] c m
      by (simp add: spec_schedule_def abs_sched_def Let_def)
  next
    case n: False
    note w = rt_schedule_switch[OF k c l False h(1) n]
    have "removeAll t (tq s (ReadyQ p)) = tl (tq s (ReadyQ p))"
      using removeAll_hd_distinct[OF queue_distinct[OF k] h(3)] h(4) by simp
    then show ?thesis
      using w(1) n c m h(4) switch_to_sched_only(2)[OF k c w(5,2)] switch_to_tq[OF k c w(5,2)]
      by (auto simp: spec_schedule_def abs_sched_def Let_def fun_eq_iff)
  qed
qed

lemma rt_schedule_refines_witness:
  "map_option abs_sched (rt_schedule demo)
    = Some (spec_schedule (is_ready demo) (prio demo) (abs_sched demo))"
  by (rule rt_schedule_refines[of demo 0]) simp_all

text \<open>C2. A scheduling step in a state of the invariant always returns, keeps the invariant and
  everything but the ready queues and the running thread; it does nothing while the
  scheduler is locked, and otherwise the thread that runs afterwards is ready and no ready
  thread is more urgent.\<close>

theorem rt_schedule_correct:
  assumes "kinv s" "rt_current_thread s = Some c"
  shows "\<exists>s'. rt_schedule s = Some s' \<and> kinv s' \<and> sched_only s s'
    \<and> (rt_scheduler_lock_nest s \<noteq> 0 \<longrightarrow> s' = s)
    \<and> (rt_scheduler_lock_nest s = 0 \<longrightarrow> (\<exists>t. is_ready s t) \<longrightarrow> runs_best s')"
  using rt_schedule_step[OF assms] by blast

lemma rt_schedule_correct_witness:
  "\<exists>s'. rt_schedule demo = Some s' \<and> kinv s' \<and> runs_best s'"
  using rt_schedule_correct[of demo 0] by auto

text \<open>The bitmap search of the scheduler finds the lowest set bit of any nonzero word: the
  table walk over the four bytes returns its index plus one.\<close>

theorem rt_ffs_correct:
  assumes "x \<noteq> 0"
  shows "1 \<le> rt_ffs x \<and> rt_ffs x \<le> 32 \<and> bit x (rt_ffs x - 1) \<and> (\<forall>i < rt_ffs x - 1. \<not> bit x i)"
  using rt_ffs_lowest[OF assms] rt_ffs_pos[OF assms] by auto

lemma rt_ffs_correct_witness: "rt_ffs 0x00a00000 = 22 \<and> bit (0x00a00000 :: 32 word) 21"
proof -
  have "rt_ffs 0x00a00000 = 22" by (simp add: rt_ffs_def lowest_bit_bitmap_def)
  then show ?thesis using rt_ffs_correct[of "0x00a00000"] by simp
qed

text \<open>A thread that yields while others of its priority are ready and none is more urgent
  passes the processor to the first of them and goes to the end of their queue.\<close>

theorem rt_thread_yield_round_robin:
  assumes "kinv s" "rt_current_thread s = Some c" "is_ready s c" "rt_scheduler_lock_nest s = 0"
    and "tq s (ReadyQ (prio s c)) = t # ts" "\<forall>p < prio s c. tq s (ReadyQ p) = []"
  shows "\<exists>s'. rt_thread_yield s = Some (RT_EOK, s') \<and> rt_current_thread s' = Some t
    \<and> tq s' (ReadyQ (prio s c)) = ts @ [c] \<and> (\<forall>h. h \<noteq> ReadyQ (prio s c) \<longrightarrow> tq s' h = tq s h)"
  using assms by (rule rt_thread_yield_rotates)

text \<open>In \<^term>\<open>demo\<close> the scheduler switches to thread 1, which then shares priority 5 with thread 2.\<close>

lemma rt_thread_yield_round_robin_witness:
  "\<exists>s s'. rt_current_thread s = Some 1 \<and> tq s (ReadyQ 5) = [2]
     \<and> rt_thread_yield s = Some (RT_EOK, s') \<and> rt_current_thread s' = Some 2 \<and> tq s' (ReadyQ 5) = [1]"
proof -
  define s1 where "s1 = switch_to 0 1 5 demo"
  have c: "rt_current_thread demo = Some 0" "1 \<in> set (tq demo (ReadyQ 5))" "(1::nat) \<noteq> 0" by simp_all
  note so = switch_to_sched_only[OF kinv_demo c, folded s1_def]
    and q = switch_to_tq[OF kinv_demo c, folded s1_def]
    and k = switch_to_kinv[OF kinv_demo c, folded s1_def]
  note st = sched_only_status[OF so(1)]
  have "\<exists>s'. rt_thread_yield s1 = Some (RT_EOK, s') \<and> rt_current_thread s' = Some 2
    \<and> tq s' (ReadyQ (prio s1 1)) = [] @ [1] \<and> (\<forall>h. h \<noteq> ReadyQ (prio s1 1) \<longrightarrow> tq s' h = tq s1 h)"
    by (rule rt_thread_yield_round_robin[OF k so(2)])
      (use sched_onlyD(4)[OF so(1)] in \<open>simp_all add: st q\<close>)
  moreover have "tq s1 (ReadyQ 5) = [2]" by (simp add: q)
  ultimately show ?thesis using so(2) by (auto simp: st)
qed

text \<open>C3. Starting a thread that has been initialised puts it among the ready threads and
  keeps the invariant; once the system runs and the scheduler is not locked, the most urgent
  ready thread runs afterwards.\<close>

theorem rt_thread_startup_correct:
  assumes "kinv s" "thread_fresh s t"
  shows "\<exists>s'. rt_thread_startup t s = Some (RT_EOK, s') \<and> kinv s' \<and> is_ready s' t
    \<and> (rt_current_thread s = None \<longrightarrow> rt_current_thread s' = None)
    \<and> (rt_current_thread s \<noteq> None \<longrightarrow> rt_scheduler_lock_nest s = 0 \<longrightarrow> runs_best s')"
  by (rule rt_thread_startup_total[OF assms])

lemma rt_thread_startup_correct_witness:
  "\<exists>s'. rt_thread_startup 4 demo = Some (RT_EOK, s') \<and> is_ready s' 4 \<and> runs_best s'"
proof -
  have "thread_fresh demo 4"
    by (simp add: thread_fresh_def tstat_def flag_simps del: class_code.simps)
  from rt_thread_startup_correct[OF kinv_demo this] show ?thesis by auto
qed

text \<open>C4. A running thread that sleeps for less than half the tick range is suspended with its
  timer set to expire after that many ticks; another ready thread, if there is one, runs.\<close>

theorem rt_thread_sleep_correct:
  assumes "kinv s" "rt_current_thread s = Some c" "is_ready s c" "tick < RT_TICK_MAX div 2"
  shows "\<exists>r s'. rt_thread_sleep tick s = Some (r, s') \<and> kinv s' \<and> is_suspended s' c
    \<and> ThreadTimer c \<in> set (rt_timer_list s') \<and> timeout_tick (tmr s' (ThreadTimer c)) = rt_tick s + tick
    \<and> rt_tick s' = rt_tick s
    \<and> (rt_scheduler_lock_nest s = 0 \<longrightarrow> (\<exists>t. t \<noteq> c \<and> is_ready s t) \<longrightarrow> r = Blocked \<and> runs_best s')"
  by (rule rt_thread_sleep_total[OF assms])

lemma rt_thread_sleep_correct_witness:
  "\<exists>s'. rt_thread_sleep 7 demo = Some (Blocked, s') \<and> is_suspended s' 0
     \<and> timeout_tick (tmr s' (ThreadTimer 0)) = 7"
  using rt_thread_sleep_correct[of demo 0 7] by (auto simp: RT_TICK_MAX_half word_less_nat_alt)

end
