(* ===== verification/RT_Clock.thy ===== *)
theory RT_Clock
  imports RT_Demo
begin

text \<open>The clock tick: src/clock.c, the check of the timer list of src/timer.c and the interrupt
  nesting of src/irq.c. A timer of the application calls a function of the application, which
  is the parameter \<^term>\<open>cb\<close> of the definitions here. The loop of the check need not end (a periodic
  timer with the period 0 is due again at once), so it is a partial function; when it ends is
  the subject of the theory RT\_Timeout. Here are the due timers, and the ticks while only
  threads wait for timers.\<close>

section \<open>Operations\<close>

definition rt_interrupt_enter :: "kernel \<Rightarrow> kernel" where
  "rt_interrupt_enter s = s\<lparr>rt_interrupt_nest := rt_interrupt_nest s + 1\<rparr>"

definition rt_interrupt_leave :: "kernel \<Rightarrow> kernel" where
  "rt_interrupt_leave s = s\<lparr>rt_interrupt_nest := rt_interrupt_nest s - 1\<rparr>"

definition rt_interrupt_get_nest :: "kernel \<Rightarrow> rt_uint8" where
  "rt_interrupt_get_nest s = rt_interrupt_nest s"

definition rt_tick_set :: "rt_tick \<Rightarrow> kernel \<Rightarrow> kernel" where
  "rt_tick_set tick s = s\<lparr>rt_tick := tick\<rparr>"

definition call_timeout :: "(nat \<Rightarrow> kernel \<Rightarrow> kernel option) \<Rightarrow> timeout_fn \<Rightarrow> kernel \<Rightarrow> kernel option" where
  "call_timeout cb fn s =
    (case fn of RT_thread_timeout t \<Rightarrow> rt_thread_timeout t s | User_timeout n \<Rightarrow> cb n s)"

definition timer_periodic :: "tmref \<Rightarrow> kernel \<Rightarrow> bool" where
  "timer_periodic r s = (obj_flag (objs s (OTimer r)) AND RT_TIMER_FLAG_PERIODIC \<noteq> 0)"

text \<open>One round of the loop for the first timer \<^term>\<open>t\<close>, which is due.\<close>

definition timer_fire :: "(nat \<Rightarrow> kernel \<Rightarrow> kernel option) \<Rightarrow> tmref \<Rightarrow> kernel \<Rightarrow> (rt_tick \<times> kernel) option" where
  "timer_fire cb t s = do {
     let s = rt_timer_remove t s;
     s \<leftarrow> call_timeout cb (timeout_func (tmr s t)) s;
     let current_tick = rt_tick_get s;
     (if timer_periodic t s \<and> timer_active t s then do {
        (_, s) \<leftarrow> rt_timer_start t (timer_clear_active t s);
        Some (current_tick, s)
      } else Some (current_tick, timer_clear_active t s))
   }"

partial_function (option) timer_check_loop ::
  "(nat \<Rightarrow> kernel \<Rightarrow> kernel option) \<Rightarrow> rt_tick \<Rightarrow> kernel \<Rightarrow> kernel option" where
  "timer_check_loop cb current_tick s =
    (case rt_timer_list s of
       [] \<Rightarrow> Some s
     | t # _ \<Rightarrow>
         if current_tick - timeout_tick (tmr s t) < RT_TICK_MAX div 2
         then Option.bind (timer_fire cb t s) (\<lambda>(tick, s). timer_check_loop cb tick s)
         else Some s)"

definition rt_timer_check :: "(nat \<Rightarrow> kernel \<Rightarrow> kernel option) \<Rightarrow> kernel \<Rightarrow> kernel option" where
  "rt_timer_check cb s = timer_check_loop cb (rt_tick_get s) s"

definition rt_tick_increase :: "(nat \<Rightarrow> kernel \<Rightarrow> kernel option) \<Rightarrow> kernel \<Rightarrow> kernel option" where
  "rt_tick_increase cb s = do {
     let s = s\<lparr>rt_tick := rt_tick s + 1\<rparr>;
     t \<leftarrow> rt_thread_self s;
     let s = upd_thr t (\<lambda>th. th\<lparr>remaining_tick := remaining_tick th - 1\<rparr>) s;
     s \<leftarrow> (if remaining_tick (thr s t) = 0 then do {
            let s = upd_thr t (\<lambda>th. th\<lparr>remaining_tick := init_tick th\<rparr>) s;
            (_, s) \<leftarrow> rt_thread_yield s;
            Some s
          } else Some s);
     rt_timer_check cb s
   }"

section \<open>Due timers\<close>

definition due :: "kernel \<Rightarrow> tmref \<Rightarrow> bool" where
  "due s r = (rt_tick s - timeout_tick (tmr s r) < RT_TICK_MAX div 2)"

lemma tick_due_iff:
  fixes x :: rt_tick
  assumes "unat x \<le> 0x7fffffff"
  shows "(1 - x < 0x7fffffff) = (unat x \<le> 1)"
proof -
  have "unat (1 - x) = (if unat x \<le> 1 then 1 - unat x else 4294967297 - unat x)"
    using unat_sub_if'[of 1 x] by simp
  moreover have "unat (0x7fffffff :: 32 word) = 0x7fffffff" by simp
  ultimately show ?thesis
    using assms unfolding word_less_nat_alt[of "1 - x"] by (cases "unat x \<le> 1") auto
qed

lemma due_key:
  assumes "tkey s r \<le> tkey_max"
  shows "due s r = (tkey s r \<le> 1)"
proof -
  let ?x = "timeout_tick (tmr s r) - rt_tick s + 1"
  have e: "rt_tick s - timeout_tick (tmr s r) = 1 - ?x" by simp
  have "(1 - ?x < 0x7fffffff) = (unat ?x \<le> 1)"
    using assms by (intro tick_due_iff) (simp add: tkey_def tkey_max_def)
  then show ?thesis unfolding due_def e RT_TICK_MAX_half tkey_def .
qed

lemma due_in_list: "kinv s \<Longrightarrow> r \<in> set (rt_timer_list s) \<Longrightarrow> due s r = (tkey s r \<le> 1)"
  using due_key kinvD(6) by (auto simp: timer_inv_def)

lemma none_due:
  assumes "kinv s" "rt_timer_list s = t # ts" "\<not> due s t" "r \<in> set (rt_timer_list s)"
  shows "\<not> due s r"
proof -
  have "tkey s t \<le> tkey s r"
    using kinvD(6)[OF assms(1)] assms(2,4) by (auto simp: timer_inv_def)
  then show ?thesis using due_in_list[OF assms(1)] assms(2-4) by fastforce
qed

section \<open>The time-out of a thread\<close>

text \<open>A step that starts no timer and changes neither the periods and expiry ticks of the timers nor
  the tick.\<close>

definition quiet_step :: "kernel \<Rightarrow> kernel \<Rightarrow> bool" where
  "quiet_step s s' =
    (kinv s' \<and> tmr s' = tmr s \<and> rt_tick s' = rt_tick s \<and> obj_same_but_active s s'
     \<and> (\<exists>P. rt_timer_list s' = filter P (rt_timer_list s)) \<and> rt_current_thread s' \<noteq> None)"

lemma timed_out_step:
  assumes k: "kinv s" and t: "is_suspended s t" "ThreadTimer t \<notin> set (rt_timer_list s)"
    and c: "rt_current_thread s \<noteq> None"
  shows "\<exists>s'. rt_thread_timeout t s = Some s' \<and> quiet_step s s'
    \<and> rt_timer_list s' = rt_timer_list s \<and> is_ready s' t \<and> err (thr s' t) = - RT_ETIMEOUT
    \<and> (\<forall>u. u \<noteq> t \<longrightarrow> tstat s' u = tstat s u \<and> thr s' u = thr s u)
    \<and> (\<forall>r. t \<notin> set (tq s' (WaitQ r))) \<and> objs s' = objs s"
proof -
  let ?s = "thread_timed_out t s"
  have k': "kinv ?s" by (rule thread_timed_out_kinv[OF k t])
  obtain c where c: "rt_current_thread ?s = Some c"
    using c by (auto simp: thread_timed_out_def kernel_defs)
  from rt_schedule_step[OF k' c] obtain s' where
    s': "rt_schedule ?s = Some s'" "kinv s'" "sched_only ?s s'" "rt_current_thread s' \<noteq> None" by blast
  note D = sched_onlyD[OF s'(3)] and S = sched_only_status[OF s'(3)]
  have q: "quiet_step s s'"
    using s'(2,4) D by (auto simp: quiet_step_def thread_timed_out_def kernel_defs obj_same_but_active_def
        intro!: exI[of _ "\<lambda>_. True"])
  have r: "is_ready s' t" by (simp add: S is_ready_def thread_timed_out_def)
  moreover have "err (thr s' t) = - RT_ETIMEOUT"
    by (simp add: D thread_timed_out_def insert_thread_thr kernel_defs)
  moreover have "t \<notin> set (tq s' (WaitQ r))" for r
    using waiting_suspended(1)[OF s'(2), of t] r stat_disjoint by blast
  ultimately show ?thesis
    using s'(1) q rt_thread_timeout_eq[OF k t(1)] D S
    by (auto simp: thread_timed_out_def kernel_defs insert_thread_thr tstat_def)
qed

section \<open>Leaving the timer list\<close>

lemma kinv_timer_remove:
  assumes "kinv s"
  shows "kinv (rt_timer_remove r s)"
proof -
  note K = kinvD[OF assms]
  let ?s = "rt_timer_remove r s"
  have st: "tstat ?s = tstat s" "prio ?s = prio s" using status_cong[of ?s s] by (simp_all add: kernel_defs)
  have ok: "thread_ok ?s = thread_ok s" using thread_ok_cong[of ?s s] by (simp add: kernel_defs)
  have "ttimer_inv ?s" using K(5) unfolding ttimer_inv_def stat_cong[OF st(1)]
    by (auto simp: kernel_defs rt_object_get_type_def timer_active_def)
  moreover have "timer_inv ?s"
    using K(6) by (auto simp: timer_inv_def tkey_def[abs_def] kernel_defs distinct_removeAll)
  ultimately show ?thesis
    using K queues_inv_cong[of ?s s] ready_inv_cong[of ?s s] wait_inv_cong[of ?s s]
      threads_inv_cong[OF st(1) ok] st
    by (intro kinvI) (simp_all add: kernel_defs)
qed

lemma kinv_timer_clear_active:
  assumes "kinv s" "r \<notin> set (rt_timer_list s) \<or> (\<exists>n. r = UserTimer n)"
  shows "kinv (timer_clear_active r s)"
proof -
  note K = kinvD[OF assms(1)]
  let ?s = "timer_clear_active r s"
  have ob: "obj_same_but_active s ?s" by (simp add: obj_same_but_active_def kernel_defs)
  have st: "tstat ?s = tstat s" "prio ?s = prio s" using status_cong[of ?s s] by (simp_all add: kernel_defs)
  have ok: "thread_ok ?s = thread_ok s" using obj_same_thread_ok[OF ob] by (auto simp: kernel_defs)
  have "ttimer_inv ?s"
    using K(5) assms(2) obj_same_types[OF ob] unfolding ttimer_inv_def stat_cong[OF st(1)]
    by (auto simp: kernel_defs timer_active_def)
  then show ?thesis
    using K queues_inv_cong[of ?s s] ready_inv_cong[of ?s s] wait_inv_cong[of ?s s]
      threads_inv_cong[OF st(1) ok] timer_inv_cong[of ?s s] st
    by (intro kinvI) (simp_all add: kernel_defs)
qed

section \<open>What the check does to sleeping threads\<close>

definition thread_timers_only :: "kernel \<Rightarrow> bool" where
  "thread_timers_only s = (\<forall>r \<in> set (rt_timer_list s). \<exists>t. r = ThreadTimer t)"

definition expired :: "kernel \<Rightarrow> nat \<Rightarrow> bool" where
  "expired s t = (ThreadTimer t \<in> set (rt_timer_list s) \<and> due s (ThreadTimer t))"

definition woken :: "kernel \<Rightarrow> kernel \<Rightarrow> bool" where
  "woken s s' =
    (rt_timer_list s' = filter (\<lambda>r. \<not> due s r) (rt_timer_list s)
     \<and> (\<forall>t. if expired s t then is_ready s' t \<and> err (thr s' t) = - RT_ETIMEOUT
            else tstat s' t = tstat s t \<and> thr s' t = thr s t))"

lemma timer_fire_thread:
  assumes k: "kinv s" and c: "rt_current_thread s \<noteq> None" and l: "rt_timer_list s = ThreadTimer x # ts"
  shows "\<exists>s'. timer_fire cb (ThreadTimer x) s = Some (rt_tick s', s') \<and> kinv s' \<and> rt_current_thread s' \<noteq> None
    \<and> rt_tick s' = rt_tick s \<and> tmr s' = tmr s \<and> rt_timer_list s' = ts
    \<and> is_ready s' x \<and> err (thr s' x) = - RT_ETIMEOUT
    \<and> (\<forall>u. u \<noteq> x \<longrightarrow> tstat s' u = tstat s u \<and> thr s' u = thr s u)"
proof -
  let ?t = "ThreadTimer x"
  let ?r = "rt_timer_remove ?t s"
  have k1: "kinv ?r" by (rule kinv_timer_remove[OF k])
  have d: "?t \<notin> set ts" using kinvD(6)[OF k] l by (simp add: timer_inv_def)
  have fr: "tmr ?r = tmr s" "rt_tick ?r = rt_tick s" "rt_current_thread ?r = rt_current_thread s"
    "tstat ?r = tstat s" "objs ?r = objs s" "thr ?r = thr s" "rt_timer_list ?r = ts"
    using status_cong[of ?r s] d l by (simp_all add: kernel_defs)
  have x: "is_suspended s x" "thread_ok s x"
    using kinvD(5)[OF k] l alive_ok[OF k, of x] by (auto simp: ttimer_inv_def alive_def)
  have x1: "is_suspended ?r x" using x(1) fr by (simp add: is_suspended_def)
  have "?t \<notin> set (rt_timer_list ?r)" "rt_current_thread ?r \<noteq> None" using d fr c by simp_all
  from timed_out_step[OF k1 x1 this] obtain s2 where
    s2: "rt_thread_timeout x ?r = Some s2" "quiet_step ?r s2" "rt_timer_list s2 = ts" "is_ready s2 x"
    "err (thr s2 x) = - RT_ETIMEOUT" "\<forall>u. u \<noteq> x \<longrightarrow> tstat s2 u = tstat s u \<and> thr s2 u = thr s u"
    "objs s2 = objs s" using fr by auto
  have q: "kinv s2" "tmr s2 = tmr s" "rt_tick s2 = rt_tick s" "rt_current_thread s2 \<noteq> None"
    using s2(2) fr by (auto simp: quiet_step_def)
  let ?c = "timer_clear_active ?t s2"
  have "\<not> timer_periodic ?t s2" using x(2) s2(7) by (simp add: thread_ok_def timer_periodic_def)
  then have "timer_fire cb ?t s = Some (rt_tick s, ?c)"
    using s2(1) x(2) fr q by (simp add: timer_fire_def call_timeout_def thread_ok_def rt_tick_get_def)
  moreover have "kinv ?c" using kinv_timer_clear_active[OF q(1)] s2(3) d by simp
  moreover have "tstat ?c = tstat s2" using status_cong[of ?c s2] by (simp add: kernel_defs)
  ultimately show ?thesis
    using q s2 by (intro exI[of _ ?c]) (simp add: kernel_defs is_ready_def)
qed

lemma timer_check_threads:
  assumes "kinv s" "rt_current_thread s \<noteq> None" "thread_timers_only s"
  shows "\<exists>s'. timer_check_loop cb (rt_tick s) s = Some s' \<and> kinv s' \<and> rt_current_thread s' \<noteq> None
    \<and> rt_tick s' = rt_tick s \<and> tmr s' = tmr s \<and> woken s s'"
  using assms
proof (induction "rt_timer_list s" arbitrary: s)
  case Nil
  then show ?case by (subst timer_check_loop.simps) (auto simp: woken_def expired_def)
next
  case (Cons t ts)
  obtain x where x: "t = ThreadTimer x" using Cons by (metis thread_timers_only_def list.set_intros(1))
  have l: "rt_timer_list s = ThreadTimer x # ts" using Cons(2) x by simp
  have d: "ThreadTimer x \<notin> set ts" using kinvD(6)[OF Cons.prems(1)] l by (simp add: timer_inv_def)
  show ?case
  proof (cases "due s (ThreadTimer x)")
    case False
    have n: "\<not> due s r" if "r \<in> set (rt_timer_list s)" for r
      using none_due[OF Cons.prems(1) l False that] .
    then have "filter (\<lambda>r. \<not> due s r) (rt_timer_list s) = rt_timer_list s" by (simp add: filter_id_conv)
    then have "woken s s" using n by (auto simp: woken_def expired_def)
    then show ?thesis using Cons.prems l False
      by (subst timer_check_loop.simps) (auto simp: due_def)
  next
    case True
    from timer_fire_thread[OF Cons.prems(1,2) l] obtain s1 where
      s1: "timer_fire cb (ThreadTimer x) s = Some (rt_tick s1, s1)" "kinv s1" "rt_current_thread s1 \<noteq> None"
      "rt_tick s1 = rt_tick s" "tmr s1 = tmr s" "rt_timer_list s1 = ts" "is_ready s1 x"
      "err (thr s1 x) = - RT_ETIMEOUT" "\<forall>u. u \<noteq> x \<longrightarrow> tstat s1 u = tstat s u \<and> thr s1 u = thr s u" by blast
    have du: "due s1 r = due s r" for r using s1(4,5) by (simp add: due_def)
    have "thread_timers_only s1" using Cons.prems(3) l s1(6) by (simp add: thread_timers_only_def)
    from Cons.hyps(1)[OF s1(6)[symmetric] s1(2,3) this] obtain s2 where
      s2: "timer_check_loop cb (rt_tick s1) s1 = Some s2" "kinv s2" "rt_current_thread s2 \<noteq> None"
      "rt_tick s2 = rt_tick s1" "tmr s2 = tmr s1" "woken s1 s2" by blast
    have ex: "expired s u = (u = x \<or> expired s1 u)" "\<not> expired s1 x" for u
      using l True d s1(6) by (auto simp: expired_def du)
    have "woken s s2"
      unfolding woken_def
    proof (intro conjI allI)
      show "rt_timer_list s2 = filter (\<lambda>r. \<not> due s r) (rt_timer_list s)"
        using s2(6) l True s1(6) by (simp add: woken_def du)
      fix u
      have w: "if expired s1 u then is_ready s2 u \<and> err (thr s2 u) = - RT_ETIMEOUT
          else tstat s2 u = tstat s1 u \<and> thr s2 u = thr s1 u"
        using s2(6) by (simp add: woken_def)
      show "if expired s u then is_ready s2 u \<and> err (thr s2 u) = - RT_ETIMEOUT
          else tstat s2 u = tstat s u \<and> thr s2 u = thr s u"
        using w ex(1)[of u] ex(2) s1(7-9) by (cases "u = x") (auto simp: is_ready_def)
    qed
    then show ?thesis using s1 s2 l True
      by (subst timer_check_loop.simps) (auto simp: due_def)
  qed
qed

section \<open>The tick\<close>

text \<open>Between two ticks no timer is overdue: the check of the last tick served all that were
  due.\<close>

definition timers_current :: "kernel \<Rightarrow> bool" where
  "timers_current s = (\<forall>r \<in> set (rt_timer_list s). 1 \<le> tkey s r)"

definition tick_advanced :: "kernel \<Rightarrow> kernel" where
  "tick_advanced s = s\<lparr>rt_tick := rt_tick s + 1\<rparr>"

lemma tick_advanced_frame [simp]:
  "rt_timer_list (tick_advanced s) = rt_timer_list s" "thr (tick_advanced s) = thr s"
  "rt_current_thread (tick_advanced s) = rt_current_thread s" "objs (tick_advanced s) = objs s"
  "tmr (tick_advanced s) = tmr s" "tq (tick_advanced s) = tq s" "rt_tick (tick_advanced s) = rt_tick s + 1"
  "rt_thread_ready_priority_group (tick_advanced s) = rt_thread_ready_priority_group s"
  by (simp_all add: tick_advanced_def)

lemma tick_advanced_key:
  assumes "1 \<le> tkey s r"
  shows "tkey (tick_advanced s) r = tkey s r - 1"
proof -
  let ?x = "timeout_tick (tmr s r) - rt_tick s + 1"
  have "?x \<noteq> 0" using assms by (auto simp: tkey_def)
  then have "unat (?x - 1) = unat ?x - 1" by (rule unat_minus_one)
  moreover have "timeout_tick (tmr s r) - (rt_tick s + 1) + 1 = ?x - 1" by simp
  ultimately show ?thesis unfolding tkey_def tick_advanced_frame by metis
qed

lemma kinv_tick_advanced:
  assumes k: "kinv s" and c: "timers_current s"
  shows "kinv (tick_advanced s)"
proof -
  note K = kinvD[OF k]
  let ?s = "tick_advanced s"
  have st: "tstat ?s = tstat s" "prio ?s = prio s" using status_cong[of ?s s] by simp_all
  have ok: "thread_ok ?s = thread_ok s" using thread_ok_cong[of ?s s] by simp
  have key: "tkey ?s r = tkey s r - 1" if "r \<in> set (rt_timer_list s)" for r
    using that c tick_advanced_key by (auto simp: timers_current_def)
  have "sorted_key (tkey ?s) (rt_timer_list s)"
    by (rule sorted_key_mono[of "tkey s"]) (use K(6) key in \<open>auto simp: timer_inv_def\<close>)
  moreover have "tkey ?s r \<le> tkey_max" if "r \<in> set (rt_timer_list s)" for r
  proof -
    have "tkey s r \<le> tkey_max" using K(6) that by (simp add: timer_inv_def)
    then show ?thesis using key[OF that] by simp
  qed
  ultimately have "timer_inv ?s" using K(6) by (simp add: timer_inv_def)
  then show ?thesis
    using K queues_inv_cong[of ?s s] ready_inv_cong[of ?s s] wait_inv_cong[of ?s s]
      threads_inv_cong[OF st(1) ok] ttimer_inv_cong[of ?s s] st by (intro kinvI) simp_all
qed

text \<open>The time slice: the running thread loses a tick, and yields when none is left.\<close>

definition slice :: "kernel \<Rightarrow> kernel option" where
  "slice s = do {
     t \<leftarrow> rt_thread_self s;
     let s = upd_thr t (\<lambda>th. th\<lparr>remaining_tick := remaining_tick th - 1\<rparr>) s;
     (if remaining_tick (thr s t) = 0 then do {
        let s = upd_thr t (\<lambda>th. th\<lparr>remaining_tick := init_tick th\<rparr>) s;
        (_, s) \<leftarrow> rt_thread_yield s;
        Some s
      } else Some s)
   }"

lemma rt_tick_increase_slice:
  "rt_tick_increase cb s = slice (tick_advanced s) \<bind> rt_timer_check cb"
  by (auto simp: rt_tick_increase_def slice_def tick_advanced_def rt_thread_self_def Let_def
      split: option.splits bind_splits)

lemma upd_slice_status:
  "tstat (upd_thr t (\<lambda>th. th\<lparr>remaining_tick := f th\<rparr>) s) = tstat s"
  "err (thr (upd_thr t (\<lambda>th. th\<lparr>remaining_tick := f th\<rparr>) s) u) = err (thr s u)"
  "kinv (upd_thr t (\<lambda>th. th\<lparr>remaining_tick := f th\<rparr>) s) = kinv s"
proof -
  show "kinv (upd_thr t (\<lambda>th. th\<lparr>remaining_tick := f th\<rparr>) s) = kinv s"
    by (rule kinv_upd_thr) (simp_all add: stack_ok_def)
qed (auto simp: tstat_def kernel_defs)

definition slice_frame :: "kernel \<Rightarrow> kernel \<Rightarrow> bool" where
  "slice_frame s s' =
    (rt_timer_list s' = rt_timer_list s \<and> tmr s' = tmr s \<and> rt_tick s' = rt_tick s \<and> tstat s' = tstat s
     \<and> objs s' = objs s \<and> (\<forall>t. err (thr s' t) = err (thr s t)))"

lemma slice_total:
  assumes k: "kinv s" and c: "rt_current_thread s = Some c"
  shows "\<exists>s'. slice s = Some s' \<and> kinv s' \<and> rt_current_thread s' \<noteq> None \<and> slice_frame s s'"
proof -
  let ?a = "upd_thr c (\<lambda>th. th\<lparr>remaining_tick := remaining_tick th - 1\<rparr>) s"
  let ?b = "upd_thr c (\<lambda>th. th\<lparr>remaining_tick := init_tick th\<rparr>) ?a"
  have fa: "slice_frame s ?a" "rt_current_thread ?a = Some c"
    using c by (simp_all add: slice_frame_def upd_slice_status) (simp_all add: kernel_defs)
  have fb: "slice_frame s ?b" "rt_current_thread ?b = Some c"
    using c by (simp_all add: slice_frame_def upd_slice_status) (simp_all add: kernel_defs)
  show ?thesis
  proof (cases "remaining_tick (thr ?a c) = 0")
    case False
    then show ?thesis using fa k c
      by (intro exI[of _ ?a]) (simp add: slice_def rt_thread_self_def Let_def upd_slice_status)
  next
    case True
    have "kinv ?b" using k by (simp add: upd_slice_status)
    from rt_schedule_step[OF this fb(2)] obtain s' where
      s': "rt_schedule ?b = Some s'" "kinv s'" "sched_only ?b s'" "rt_current_thread s' \<noteq> None" by blast
    have "slice_frame s s'"
      using fb(1) sched_onlyD[OF s'(3)] sched_only_status(1)[OF s'(3)]
      by (auto simp: slice_frame_def fun_eq_iff)
    then show ?thesis using True c s'
      by (intro exI[of _ s']) (simp add: slice_def rt_thread_self_def rt_thread_yield_def Let_def)
  qed
qed

lemma slice_frame_due:
  assumes "slice_frame s s'"
  shows "due s' = due s" "expired s' t = expired s t" "thread_timers_only s' = thread_timers_only s"
  using assms by (auto simp: slice_frame_def due_def expired_def thread_timers_only_def)

text \<open>A tick when only threads sleep: exactly the threads whose timers expire become ready, with
  the error of a timeout, and exactly their timers leave the list.\<close>

lemma tick_advanced_due:
  assumes "kinv s" "timers_current s" "r \<in> set (rt_timer_list s)"
  shows "due (tick_advanced s) r = (tkey s r \<le> 2)"
proof -
  have "tkey (tick_advanced s) r = tkey s r - 1"
    using assms(2,3) tick_advanced_key by (auto simp: timers_current_def)
  then show ?thesis
    using due_in_list[OF kinv_tick_advanced[OF assms(1,2)], of r] assms(3) by auto
qed

lemma rt_tick_increase_threads:
  assumes k: "kinv s" and c: "rt_current_thread s \<noteq> None"
    and t: "timers_current s" "thread_timers_only s"
  shows "\<exists>s'. rt_tick_increase cb s = Some s' \<and> kinv s' \<and> rt_current_thread s' \<noteq> None
    \<and> timers_current s' \<and> thread_timers_only s' \<and> rt_tick s' = rt_tick s + 1 \<and> tmr s' = tmr s
    \<and> rt_timer_list s' = filter (\<lambda>r. 2 < tkey s r) (rt_timer_list s)
    \<and> (\<forall>t. if ThreadTimer t \<in> set (rt_timer_list s) \<and> tkey s (ThreadTimer t) \<le> 2
           then is_ready s' t \<and> err (thr s' t) = - RT_ETIMEOUT
           else tstat s' t = tstat s t \<and> err (thr s' t) = err (thr s t))"
proof -
  let ?a = "tick_advanced s"
  note ka = kinv_tick_advanced[OF k t(1)]
  obtain c where "rt_current_thread ?a = Some c" using c by auto
  with slice_total[OF ka] obtain s1 where s1: "slice ?a = Some s1" "kinv s1" "rt_current_thread s1 \<noteq> None"
    "slice_frame ?a s1" by blast
  note f = slice_frame_due[OF s1(4)]
  have to: "thread_timers_only s1" unfolding f(3) using t(2) by (simp add: thread_timers_only_def)
  from timer_check_threads[OF s1(2,3) to] obtain s' where
    s': "timer_check_loop cb (rt_tick s1) s1 = Some s'" "kinv s'" "rt_current_thread s' \<noteq> None"
    "rt_tick s' = rt_tick s1" "tmr s' = tmr s1" "woken s1 s'" by blast
  have g: "rt_timer_list s1 = rt_timer_list s" "tmr s1 = tmr s" "rt_tick s1 = rt_tick s + 1"
    "tstat s1 u = tstat s u" "err (thr s1 u) = err (thr s u)" for u
    using s1(4) status_cong[of ?a s] by (simp_all add: slice_frame_def)
  have du: "due s1 r = (tkey s r \<le> 2)" if "r \<in> set (rt_timer_list s)" for r
    unfolding f(1) by (rule tick_advanced_due[OF k t(1) that])
  have l: "rt_timer_list s' = filter (\<lambda>r. 2 < tkey s r) (rt_timer_list s)"
    using s'(6) du by (auto simp: woken_def g not_le intro: filter_cong)
  have key: "tkey s' r = tkey s r - 1" if "r \<in> set (rt_timer_list s)" for r
    using tick_advanced_key[of s r] t(1) that g s'(4,5)
    by (simp add: tkey_def timers_current_def)
  have "timers_current s'" using l key by (auto simp: timers_current_def)
  moreover have "thread_timers_only s'" using l t(2) by (simp add: thread_timers_only_def)
  moreover have "expired s1 u = (ThreadTimer u \<in> set (rt_timer_list s) \<and> tkey s (ThreadTimer u) \<le> 2)" for u
    using du by (auto simp: expired_def g)
  then have "if ThreadTimer u \<in> set (rt_timer_list s) \<and> tkey s (ThreadTimer u) \<le> 2
      then is_ready s' u \<and> err (thr s' u) = - RT_ETIMEOUT
      else tstat s' u = tstat s u \<and> err (thr s' u) = err (thr s u)" for u
    using s'(6)[unfolded woken_def, THEN conjunct2, THEN spec, of u] g(4)[of u] g(5)[of u] by (simp split: if_splits)
  ultimately show ?thesis
    using s1(1) s' g l by (simp add: rt_tick_increase_slice rt_timer_check_def rt_tick_get_def)
qed

text \<open>The first ticks of a sleep: a number of clock ticks one after the other.\<close>

fun ticks :: "(nat \<Rightarrow> kernel \<Rightarrow> kernel option) \<Rightarrow> nat \<Rightarrow> kernel \<Rightarrow> kernel option" where
  "ticks cb 0 s = Some s"
| "ticks cb (Suc n) s = rt_tick_increase cb s \<bind> ticks cb n"

definition ticks_left :: "kernel \<Rightarrow> nat \<Rightarrow> nat" where
  "ticks_left s t = tkey s (ThreadTimer t) - 1"

lemma ticks_before_wakeup:
  assumes "kinv s" "rt_current_thread s \<noteq> None" "timers_current s" "thread_timers_only s"
    and "ThreadTimer t \<in> set (rt_timer_list s)" "n < ticks_left s t"
  shows "\<exists>s'. ticks cb n s = Some s' \<and> kinv s' \<and> rt_current_thread s' \<noteq> None \<and> timers_current s'
    \<and> thread_timers_only s' \<and> ThreadTimer t \<in> set (rt_timer_list s') \<and> is_suspended s' t
    \<and> ticks_left s' t = ticks_left s t - n"
  using assms
proof (induction n arbitrary: s)
  case 0
  then show ?case using kinvD(5)[OF 0(1)] by (auto simp: ttimer_inv_def)
next
  case (Suc n)
  from rt_tick_increase_threads[OF Suc.prems(1-4)] obtain s1 where
    s1: "rt_tick_increase cb s = Some s1" "kinv s1" "rt_current_thread s1 \<noteq> None" "timers_current s1"
    "thread_timers_only s1" "rt_tick s1 = rt_tick s + 1" "tmr s1 = tmr s"
    "rt_timer_list s1 = filter (\<lambda>r. 2 < tkey s r) (rt_timer_list s)" by blast
  have "tkey s1 (ThreadTimer t) = tkey s (ThreadTimer t) - 1"
    using tick_advanced_key[of s "ThreadTimer t"] Suc.prems(3,5) s1(6,7)
    by (simp add: tkey_def timers_current_def)
  then have l: "ticks_left s1 t = ticks_left s t - 1" by (simp add: ticks_left_def)
  moreover have "ThreadTimer t \<in> set (rt_timer_list s1)" using s1(8) Suc.prems by (auto simp: ticks_left_def)
  moreover have "n < ticks_left s1 t" using l Suc.prems(6) by simp
  ultimately show ?case using Suc.IH[OF s1(2-5), of] s1(1) by fastforce
qed

lemma ticks_wakeup:
  assumes "kinv s" "rt_current_thread s \<noteq> None" "timers_current s" "thread_timers_only s"
    and t: "ThreadTimer t \<in> set (rt_timer_list s)" "1 \<le> ticks_left s t"
  shows "\<exists>s'. ticks cb (ticks_left s t) s = Some s' \<and> kinv s' \<and> is_ready s' t \<and> err (thr s' t) = - RT_ETIMEOUT"
proof -
  let ?n = "ticks_left s t - 1"
  from ticks_before_wakeup[OF assms(1-5), of ?n cb] t(2) obtain s1 where
    s1: "ticks cb ?n s = Some s1" "kinv s1" "rt_current_thread s1 \<noteq> None" "timers_current s1"
    "thread_timers_only s1" "ThreadTimer t \<in> set (rt_timer_list s1)" "ticks_left s1 t = 1" by auto
  from rt_tick_increase_threads[OF s1(2-5), of cb] s1(6,7) obtain s2 where
    s2: "rt_tick_increase cb s1 = Some s2" "kinv s2" "is_ready s2 t" "err (thr s2 t) = - RT_ETIMEOUT"
    by (force simp: ticks_left_def)
  have "ticks cb (Suc n) s = ticks cb n s \<bind> rt_tick_increase cb" for n
  proof (induction n arbitrary: s)
    case 0
    show ?case by (cases "rt_tick_increase cb s") simp_all
  next
    case (Suc n)
    have "ticks cb (Suc (Suc n)) s = rt_tick_increase cb s \<bind> ticks cb (Suc n)" by simp
    also have "\<dots> = rt_tick_increase cb s \<bind> (\<lambda>s. ticks cb n s \<bind> rt_tick_increase cb)"
      using Suc by metis
    finally show ?case by simp
  qed
  then show ?thesis using s1(1) s2 t(2) by (metis Option.bind_lunit Suc_pred' One_nat_def Suc_le_eq)
qed

end
