(* ===== verification/RT_Ipc.thy ===== *)
theory RT_Ipc
  imports RT_Clock
begin

text \<open>What the objects of src/ipc.c share: the wait queues, first-in first-out or by priority,
  waiting with a timeout, waking the first waiter and waking all of them.\<close>

section \<open>Operations\<close>

text \<open>\<^verbatim>\<open>RT_DEBUG_IN_THREAD_CONTEXT\<close>.\<close>

definition in_thread_context :: "kernel \<Rightarrow> unit option" where
  "in_thread_context s = do {
     RT_ASSERT (rt_thread_self s \<noteq> None);
     not_in_interrupt s
   }"

definition rt_ipc_object_init :: "lhead \<Rightarrow> kernel \<Rightarrow> kernel" where
  "rt_ipc_object_init h s = tlist_init h s"

text \<open>The search of \<^verbatim>\<open>RT_IPC_FLAG_PRIO\<close> for the place of a thread.\<close>

fun prio_list_insert :: "(nat \<Rightarrow> rt_uint8) \<Rightarrow> nat \<Rightarrow> nat list \<Rightarrow> nat list" where
  "prio_list_insert pr t [] = [t]"
| "prio_list_insert pr t (n # ns) = (if pr t < pr n then t # n # ns else n # prio_list_insert pr t ns)"

definition rt_ipc_list_suspend :: "lhead \<Rightarrow> nat \<Rightarrow> rt_uint8 \<Rightarrow> kernel \<Rightarrow> kernel option" where
  "rt_ipc_list_suspend h t flag s = do {
     (_, s) \<leftarrow> rt_thread_suspend t s;
     Some (if flag = RT_IPC_FLAG_FIFO then tlist_push_back h t s
           else if flag = RT_IPC_FLAG_PRIO
           then s\<lparr>tq := (tq s)(h := prio_list_insert (\<lambda>u. current_priority (thr s u)) t (tq s h))\<rparr>
           else s)
   }"

definition rt_ipc_list_resume :: "lhead \<Rightarrow> kernel \<Rightarrow> kernel option" where
  "rt_ipc_list_resume h s =
    (case tq s h of
       [] \<Rightarrow> None
     | t # _ \<Rightarrow> do { (_, s) \<leftarrow> rt_thread_resume t s; Some s })"

text \<open>The loop ends only because every resumed thread leaves the list.\<close>

partial_function (option) rt_ipc_list_resume_all :: "lhead \<Rightarrow> kernel \<Rightarrow> kernel option" where
  "rt_ipc_list_resume_all h s =
    (case tq s h of
       [] \<Rightarrow> Some s
     | t # _ \<Rightarrow>
         Option.bind (rt_thread_resume t (set_err t (- RT_ERROR) s)) (\<lambda>(e, s). rt_ipc_list_resume_all h s))"

text \<open>The part that all blocking calls have: the thread goes to the wait queue, and its timer
  starts when there is a waiting time.\<close>

definition start_wait_timer :: "nat \<Rightarrow> int \<Rightarrow> kernel \<Rightarrow> kernel option" where
  "start_wait_timer t time s =
    (if time > 0 then do {
       (_, _, s) \<leftarrow> rt_timer_control (ThreadTimer t) RT_TIMER_CTRL_SET_TIME (word_of_int time) s;
       (_, s) \<leftarrow> rt_timer_start (ThreadTimer t) s;
       Some s
     } else Some s)"

definition ipc_wait :: "lhead \<Rightarrow> nat \<Rightarrow> rt_uint8 \<Rightarrow> int \<Rightarrow> kernel \<Rightarrow> kernel option" where
  "ipc_wait h t flag time s = do {
     s \<leftarrow> rt_ipc_list_suspend h t flag s;
     start_wait_timer t time s
   }"

section \<open>The order of the wait queues\<close>

interpretation wait_queue: ordered_queue prio
  "\<lambda>s. prio_list_insert (\<lambda>u. current_priority (thr s u))" "\<lambda>_ _ _. True"
  by unfold_locales (auto simp: prio_def word_less_nat_alt)

lemma prio_list_insert_stable:
  "prio_list_insert (\<lambda>u. current_priority (thr s u)) t ns = stable_insert (prio s) t ns"
  by (rule wait_queue.ins_stable) simp

section \<open>Frames\<close>

text \<open>The operations on wait queues leave the contents of the objects alone.\<close>

definition ipc_same :: "kernel \<Rightarrow> kernel \<Rightarrow> bool" where
  "ipc_same s s' =
    (sem s' = sem s \<and> mtx s' = mtx s \<and> evt s' = evt s \<and> mbx s' = mbx s \<and> mqs s' = mqs s \<and> mps s' = mps s \<and> drv s' = drv s
     \<and> rt_scheduler_lock_nest s' = rt_scheduler_lock_nest s \<and> rt_interrupt_nest s' = rt_interrupt_nest s
     \<and> rt_tick s' = rt_tick s \<and> obj_list s' = obj_list s \<and> obj_same_but_active s s')"

lemma ipc_same_refl [simp]: "ipc_same s s"
  by (simp add: ipc_same_def obj_same_but_active_def)

lemma ipc_same_trans: "ipc_same s s' \<Longrightarrow> ipc_same s' s'' \<Longrightarrow> ipc_same s s''"
  by (simp add: ipc_same_def obj_same_but_active_def)

lemma ipc_sameD:
  assumes "ipc_same s s'"
  shows "sem s' = sem s" "mtx s' = mtx s" "evt s' = evt s" "mbx s' = mbx s" "mqs s' = mqs s"
    "mps s' = mps s" "rt_scheduler_lock_nest s' = rt_scheduler_lock_nest s"
    "rt_interrupt_nest s' = rt_interrupt_nest s" "rt_tick s' = rt_tick s"
    "rt_object_get_type r s' = rt_object_get_type r s"
    "rt_object_is_systemobject r s' = rt_object_is_systemobject r s" "drv s' = drv s"
  using assms obj_same_types[of s s'] by (simp_all add: ipc_same_def)

lemma ipc_same_flag:
  assumes "ipc_same s s'" "\<And>m. r \<noteq> OTimer m"
  shows "objs s' r = objs s r"
  using assms by (simp add: ipc_same_def obj_same_but_active_def)

lemma ipc_same_sched: "sched_only s s' \<Longrightarrow> ipc_same s s'"
  using sched_onlyD[of s s'] by (simp add: ipc_same_def obj_same_but_active_def)

lemma ipc_same_resumed: "ipc_same s (thread_resumed t s)"
  by (simp add: ipc_same_def thread_resumed_objs)

lemma ipc_same_set_err [simp]: "ipc_same s (set_err t e s)"
  by (simp add: ipc_same_def kernel_defs obj_same_but_active_def)

lemma ipc_same_suspended: "ipc_same s (thread_suspended t s)"
  using timer_stopped_objs[of "mark_suspended t s" "ThreadTimer t"]
  by (simp add: ipc_same_def thread_suspended_def obj_same_but_active_def)

lemma ipc_same_started: "ipc_same s (timer_started r s)"
  by (simp add: ipc_same_def timer_started_objs)

lemma set_err_simps [simp]:
  "tq (set_err t e s) = tq s" "rt_current_thread (set_err t e s) = rt_current_thread s"
  "tstat (set_err t e s) = tstat s" "prio (set_err t e s) = prio s"
  "err (thr (set_err t e s) u) = (if u = t then e else err (thr s u))"
  "rt_timer_list (set_err t e s) = rt_timer_list s" "objs (set_err t e s) = objs s"
  "rt_object_get_type r (set_err t e s) = rt_object_get_type r s"
  "rt_scheduler_lock_nest (set_err t e s) = rt_scheduler_lock_nest s"
  "rt_interrupt_nest (set_err t e s) = rt_interrupt_nest s" "rt_tick (set_err t e s) = rt_tick s"
  "tmr (set_err t e s) = tmr s" "sem (set_err t e s) = sem s" "mtx (set_err t e s) = mtx s"
  "evt (set_err t e s) = evt s" "mbx (set_err t e s) = mbx s" "mqs (set_err t e s) = mqs s"
  "mps (set_err t e s) = mps s" "drv (set_err t e s) = drv s" "obj_list (set_err t e s) = obj_list s"
  by (simp_all add: kernel_defs rt_object_get_type_def tstat_def[abs_def] prio_def[abs_def] fun_eq_iff)

lemma set_err_stat_simps [simp]:
  "is_ready (set_err t e s) = is_ready s" "is_suspended (set_err t e s) = is_suspended s"
  by (simp_all add: is_ready_def[abs_def] is_suspended_def[abs_def])

section \<open>Waiting\<close>

definition is_wait_head :: "lhead \<Rightarrow> bool" where
  "is_wait_head h = (case h of WaitQ _ \<Rightarrow> True | SendQ _ \<Rightarrow> True | DrvQ _ \<Rightarrow> True | _ \<Rightarrow> False)"

lemma is_wait_head_simps [simp]:
  "is_wait_head (WaitQ r)" "is_wait_head (SendQ i)" "is_wait_head (DrvQ q)" "\<not> is_wait_head (ReadyQ p)" "\<not> is_wait_head DefunctQ"
  by (simp_all add: is_wait_head_def)

definition wait_insert :: "rt_uint8 \<Rightarrow> kernel \<Rightarrow> nat \<Rightarrow> nat list \<Rightarrow> nat list" where
  "wait_insert flag s t q = (if flag = RT_IPC_FLAG_FIFO then q @ [t] else stable_insert (prio s) t q)"

lemma wait_insert_set [simp]: "set (wait_insert flag s t q) = insert t (set q)"
  by (simp add: wait_insert_def)

lemma wait_insert_distinct: "distinct q \<Longrightarrow> t \<notin> set q \<Longrightarrow> distinct (wait_insert flag s t q)"
  by (simp add: wait_insert_def stable_insert_distinct)

definition queued_in :: "lhead \<Rightarrow> nat list \<Rightarrow> kernel \<Rightarrow> kernel" where
  "queued_in h q s = s\<lparr>tq := (tq s)(h := q)\<rparr>"

lemma queued_in_frame [simp]:
  "tq (queued_in h q s) = (tq s)(h := q)" "thr (queued_in h q s) = thr s" "objs (queued_in h q s) = objs s"
  "tmr (queued_in h q s) = tmr s" "rt_timer_list (queued_in h q s) = rt_timer_list s"
  "rt_tick (queued_in h q s) = rt_tick s" "rt_current_thread (queued_in h q s) = rt_current_thread s"
  "rt_thread_ready_priority_group (queued_in h q s) = rt_thread_ready_priority_group s"
  "tstat (queued_in h q s) = tstat s" "prio (queued_in h q s) = prio s"
  "thread_ok (queued_in h q s) = thread_ok s" "timer_typed (queued_in h q s) r = timer_typed s r"
  by (simp_all add: queued_in_def tstat_def[abs_def] prio_def[abs_def] thread_ok_def[abs_def]
      timer_typed_def rt_object_get_type_def)

lemma ipc_same_queued_in [simp]: "ipc_same s (queued_in h q s)"
  by (simp add: queued_in_def ipc_same_def obj_same_but_active_def)

lemma kinv_queued_in:
  assumes k: "kinv s" and t: "is_suspended s t" "\<not> tlist_linked t s" and h: "is_wait_head h"
    and q: "set q = insert t (set (tq s h))" "distinct q"
  shows "kinv (queued_in h q s)" (is "kinv ?s")
proof -
  note K = kinvD[OF k]
  have u: "t \<notin> set (tq s h')" for h' using t(2) by (simp add: tlist_linked_def)
  have hr: "h \<noteq> ReadyQ p" "h \<noteq> DefunctQ" for p using h by auto
  have rq: "tq ?s (ReadyQ p) = tq s (ReadyQ p)" for p using hr(1)[of p] by simp
  have "queues_inv ?s"
    using K(1) u q unfolding queues_inv_def by (auto split: if_splits)
  moreover have "ready_inv ?s"
    using K(2) unfolding ready_inv_def rq is_ready_def
    by (simp add: queued_in_def tstat_def prio_def)
  moreover have "wait_inv ?s"
    using K(3) t(1) q(1) hr(2) unfolding wait_inv_def is_suspended_def is_closed_def queued_in_frame by auto
  ultimately show ?thesis
    using K threads_inv_cong[of ?s s] ttimer_inv_cong[of ?s s] timer_inv_cong[of ?s s]
    by (intro kinvI) simp_all
qed

lemma rt_ipc_list_suspend_eq:
  assumes "kinv s" "rt_current_thread s = Some c" "is_ready s c"
    and f: "flag = RT_IPC_FLAG_FIFO \<or> flag = RT_IPC_FLAG_PRIO"
  shows "rt_ipc_list_suspend h c flag s
    = Some (queued_in h (wait_insert flag s c (tq s h)) (thread_suspended c s))"
proof -
  have "prio (thread_suspended c s) = prio s" by auto
  then show ?thesis
    using f unfolding rt_ipc_list_suspend_def rt_thread_suspend_eq[OF assms(1-3)] prio_list_insert_stable
    by (auto simp: queued_in_def wait_insert_def tlist_push_back_def thread_suspended_def)
qed

text \<open>The state of a waiting thread.\<close>

definition waits_in :: "lhead \<Rightarrow> nat list \<Rightarrow> nat \<Rightarrow> int \<Rightarrow> kernel \<Rightarrow> kernel \<Rightarrow> bool" where
  "waits_in h q c time s s' =
    (kinv s' \<and> tq s' = (tq s)(h := q) \<and> ipc_same s s'
     \<and> rt_current_thread s' = rt_current_thread s
     \<and> tstat s' = (tstat s)(c := RT_THREAD_SUSPEND) \<and> prio s' = prio s
     \<and> (\<forall>u. err (thr s' u) = err (thr s u) \<and> event_set (thr s' u) = event_set (thr s u)
            \<and> event_info (thr s' u) = event_info (thr s u))
     \<and> (if time > 0 then ThreadTimer c \<in> set (rt_timer_list s')
          \<and> timeout_tick (tmr s' (ThreadTimer c)) = rt_tick s + word_of_int time
        else ThreadTimer c \<notin> set (rt_timer_list s')))"

abbreviation waits :: "lhead \<Rightarrow> nat \<Rightarrow> rt_uint8 \<Rightarrow> int \<Rightarrow> kernel \<Rightarrow> kernel \<Rightarrow> bool" where
  "waits h c flag time s s' \<equiv> waits_in h (wait_insert flag s c (tq s h)) c time s s'"

lemma start_wait_total:
  assumes k: "kinv s" and c: "rt_current_thread s = Some c" "is_ready s c" and h: "is_wait_head h"
    and q: "set q = insert c (set (tq s h))" "distinct q" and time: "time < 0x7fffffff"
  shows "\<exists>s'. start_wait_timer c time (queued_in h q (thread_suspended c s)) = Some s'
    \<and> waits_in h q c time s s'"
proof -
  let ?r = "ThreadTimer c"
  define s1 where "s1 = thread_suspended c s"
  define s2 where "s2 = queued_in h q s1"
  note f1 = thread_suspended_facts[OF k c, folded s1_def]
  have tq1: "tq s1 = tq s" "rt_current_thread s1 = Some c" "prio s1 = prio s" "rt_tick s1 = rt_tick s"
    "tstat s1 = (tstat s)(c := RT_THREAD_SUSPEND)"
    using c by (auto simp: s1_def thread_suspended_def)
  have th1: "err (thr s1 u) = err (thr s u) \<and> event_set (thr s1 u) = event_set (thr s u)
      \<and> event_info (thr s1 u) = event_info (thr s u)" for u
    by (simp add: s1_def thread_suspended_def mark_suspended_thr)
  have k2: "kinv s2" unfolding s2_def
    using q tq1(1) by (intro kinv_queued_in[OF f1(1-3) h]) simp_all
  have same2: "ipc_same s s2"
    unfolding s2_def s1_def by (rule ipc_same_trans[OF ipc_same_suspended[of s c]]) simp
  have w2: "tq s2 = (tq s)(h := q)" "rt_current_thread s2 = Some c"
    "tstat s2 = (tstat s)(c := RT_THREAD_SUSPEND)" "prio s2 = prio s" "thr s2 = thr s1" "rt_tick s2 = rt_tick s"
    "?r \<notin> set (rt_timer_list s2)" "is_suspended s2 c"
    using tq1 f1(4) by (simp_all add: s2_def is_suspended_def)
  show ?thesis unfolding s1_def[symmetric] s2_def[symmetric]
  proof (cases "time > 0")
    case False
    then show "\<exists>s'. start_wait_timer c time s2 = Some s' \<and> waits_in h q c time s s'"
      using k2 w2 same2 th1 c by (simp add: start_wait_timer_def waits_in_def)
  next
    case True
    let ?w = "word_of_int time :: rt_tick"
    define s3 where "s3 = upd_tmr ?r (\<lambda>tm. tm\<lparr>tm_init_tick := ?w\<rparr>) s2"
    have ty: "timer_typed s2 ?r" using alive_types(1)[OF k2] w2(8) by blast
    have k3: "kinv s3" unfolding s3_def by (rule kinv_set_init_tick[OF k2])
    have f3: "tstat s3 = tstat s2" "prio s3 = prio s2" "timer_typed s3 ?r" "tm_init_tick (tmr s3 ?r) = ?w"
      "rt_tick s3 = rt_tick s" "tq s3 = tq s2" "thr s3 = thr s2" "rt_current_thread s3 = Some c"
      "ipc_same s2 s3"
      using ty w2 status_cong[of s3 s2]
      by (auto simp: s3_def kernel_defs timer_typed_def rt_object_get_type_def ipc_same_def obj_same_but_active_def)
    have i: "tm_init_tick (tmr s3 ?r) < RT_TICK_MAX div 2"
      using True time by (simp add: f3 RT_TICK_MAX_half word_less_def uint_word_of_int)
    have s3c: "is_suspended s3 c" using w2(8) f3(1) by (simp add: is_suspended_def)
    let ?s = "timer_started ?r s3"
    have k4: "kinv ?s" by (rule kinv_timer_started[OF k3 f3(3) i]) (use s3c in auto)
    have "?r \<in> set (rt_timer_list ?s)" using timer_started_inv(2)[OF kinvD(6)[OF k3] i] by simp
    moreover have "timeout_tick (tmr ?s ?r) = rt_tick s + ?w" by (simp add: timer_started_tmr f3)
    moreover have "start_wait_timer c time s2 = Some ?s"
      using True ty rt_timer_start_eq[OF f3(3) i]
      by (simp add: start_wait_timer_def rt_timer_control_def timer_typed_def
          RT_TIMER_CTRL_SET_TIME_def RT_TIMER_CTRL_GET_TIME_def s3_def)
    moreover have "ipc_same s ?s"
      by (rule ipc_same_trans[OF ipc_same_trans[OF same2 f3(9)] ipc_same_started])
    ultimately show "\<exists>s'. start_wait_timer c time s2 = Some s' \<and> waits_in h q c time s s'"
      using k4 f3 w2 th1 True c by (simp add: waits_in_def)
  qed
qed

lemma ipc_wait_total:
  assumes k: "kinv s" and c: "rt_current_thread s = Some c" "is_ready s c" and h: "is_wait_head h"
    and f: "flag = RT_IPC_FLAG_FIFO \<or> flag = RT_IPC_FLAG_PRIO" and time: "time < 0x7fffffff"
  shows "\<exists>s'. ipc_wait h c flag time s = Some s' \<and> waits h c flag time s s'"
proof -
  have "distinct (wait_insert flag s c (tq s h))"
    using running_unlinked(1)[OF k c, of h] queue_distinct[OF k] by (auto intro: wait_insert_distinct)
  from start_wait_total[OF k c h wait_insert_set this time] show ?thesis
    by (simp add: ipc_wait_def rt_ipc_list_suspend_eq[OF k c f])
qed

section \<open>Waking all waiters\<close>

lemma resume_all_total:
  assumes "kinv s" "is_wait_head h"
  shows "\<exists>s'. rt_ipc_list_resume_all h s = Some s' \<and> kinv s' \<and> ipc_same s s'
    \<and> rt_current_thread s' = rt_current_thread s \<and> tq s' h = []
    \<and> (\<forall>t \<in> set (tq s h). is_ready s' t \<and> err (thr s' t) = - RT_ERROR)
    \<and> (\<forall>t. t \<notin> set (tq s h) \<longrightarrow> tstat s' t = tstat s t \<and> err (thr s' t) = err (thr s t))
    \<and> (\<forall>h'. is_wait_head h' \<longrightarrow> h' \<noteq> h \<longrightarrow> tq s' h' = tq s h') \<and> prio s' = prio s"
  using assms
proof (induction "tq s h" arbitrary: s)
  case Nil
  then show ?case by (subst rt_ipc_list_resume_all.simps) auto
next
  case (Cons t ts)
  let ?e = "set_err t (- RT_ERROR) s"
  let ?r = "thread_resumed t ?e"
  have m: "t \<in> set (tq s h)" using Cons(2) by (metis list.set_intros(1))
  have ts: "t \<notin> set ts" "distinct ts" using queue_distinct[OF Cons.prems(1), of h] Cons(2) by (metis distinct.simps(2))+
  have su: "is_suspended ?e t"
    using m Cons.prems waiting_suspended[OF Cons.prems(1), of t] by (cases h) auto
  have ke: "kinv ?e" using Cons.prems(1) by simp
  have kr: "kinv ?r" by (rule thread_resumed_kinv[OF ke su])
  have q: "tq ?r h' = tq s h'" if "is_wait_head h'" "h' \<noteq> h" for h'
  proof -
    have "t \<notin> set (tq s h')" using queue_unique[OF Cons.prems(1) m] that by blast
    then show ?thesis using that by (auto simp: thread_resumed_tq[OF ke su] is_wait_head_def)
  qed
  have qh: "tq ?r h = ts"
    using Cons.prems(2) Cons(2)[symmetric] ts by (auto simp: thread_resumed_tq[OF ke su] is_wait_head_def)
  from Cons.hyps(1)[OF qh[symmetric] kr Cons.prems(2)] obtain s' where
    s': "rt_ipc_list_resume_all h ?r = Some s'" "kinv s'" "ipc_same ?r s'"
    "rt_current_thread s' = rt_current_thread ?r" "tq s' h = []"
    "\<forall>x \<in> set ts. is_ready s' x \<and> err (thr s' x) = - RT_ERROR"
    "\<forall>x. x \<notin> set ts \<longrightarrow> tstat s' x = tstat ?r x \<and> err (thr s' x) = err (thr ?r x)"
    "\<forall>h'. is_wait_head h' \<longrightarrow> h' \<noteq> h \<longrightarrow> tq s' h' = tq ?r h'" "prio s' = prio ?r"
    unfolding qh by blast
  have "ipc_same s s'"
    by (rule ipc_same_trans[OF ipc_same_trans[OF ipc_same_set_err ipc_same_resumed] s'(3)])
  moreover have "rt_ipc_list_resume_all h s = Some s'"
    using s'(1) Cons(2)[symmetric] rt_thread_resume_eq[OF ke su]
    by (subst rt_ipc_list_resume_all.simps) simp
  moreover have "is_ready s' t \<and> err (thr s' t) = - RT_ERROR"
    using s'(7) ts(1) by (simp add: is_ready_def thread_resumed_thr)
  moreover have "tstat s' x = tstat s x \<and> err (thr s' x) = err (thr s x)" if "x \<noteq> t" "x \<notin> set ts" for x
    using s'(7) that by (simp add: thread_resumed_thr)
  ultimately show ?case
    using s' q Cons(2)[symmetric] by auto
qed

end
