(* ===== verification/RT_Sem.thy ===== *)
theory RT_Sem
  imports RT_Ipc
begin

text \<open>The semaphores of src/ipc.c. A semaphore has a 16-bit value and a wait queue. Taking
  decrements the value or waits; releasing hands the semaphore to the first waiter, or
  increments the value when nobody waits.\<close>

section \<open>Operations\<close>

abbreviation sem_queue :: "nat \<Rightarrow> lhead" where
  "sem_queue i \<equiv> WaitQ (OSem i)"

abbreviation ipc_flag :: "kernel \<Rightarrow> objref \<Rightarrow> rt_uint8" where
  "ipc_flag s r \<equiv> obj_flag (objs s r)"

definition set_obj_flag :: "objref \<Rightarrow> rt_uint8 \<Rightarrow> kernel \<Rightarrow> kernel" where
  [kernel_defs]: "set_obj_flag r flag = upd_obj r (\<lambda>ob. ob\<lparr>obj_flag := flag\<rparr>)"

definition rt_sem_init ::
  "nat \<Rightarrow> rt_uint8 list \<Rightarrow> rt_uint32 \<Rightarrow> rt_uint8 \<Rightarrow> kernel \<Rightarrow> (rt_err \<times> kernel) option" where
  "rt_sem_init i nm initial flag s = do {
     s \<leftarrow> rt_object_init (OSem i) RT_Object_Class_Semaphore nm s;
     let s = rt_ipc_object_init (sem_queue i) s;
     let s = upd_sem i (\<lambda>x. x\<lparr>sem_value := ucast initial\<rparr>) s;
     Some (RT_EOK, set_obj_flag (OSem i) flag s)
   }"

definition rt_sem_detach :: "nat \<Rightarrow> kernel \<Rightarrow> (rt_err \<times> kernel) option" where
  "rt_sem_detach i s = do {
     RT_ASSERT (rt_object_get_type (OSem i) s = class_code RT_Object_Class_Semaphore);
     RT_ASSERT (rt_object_is_systemobject (OSem i) s);
     s \<leftarrow> rt_ipc_list_resume_all (sem_queue i) s;
     Some (RT_EOK, rt_object_detach (OSem i) s)
   }"

definition rt_sem_create ::
  "objref option \<Rightarrow> rt_uint8 list \<Rightarrow> rt_uint32 \<Rightarrow> rt_uint8 \<Rightarrow> kernel \<Rightarrow> (objref option \<times> kernel) option" where
  "rt_sem_create mem nm initial flag s = do {
     not_in_interrupt s;
     (ob, s) \<leftarrow> rt_object_allocate mem RT_Object_Class_Semaphore nm s;
     (case ob of
        Some (OSem i) \<Rightarrow>
          (let s = rt_ipc_object_init (sem_queue i) s;
               s = upd_sem i (\<lambda>x. x\<lparr>sem_value := ucast initial\<rparr>) s
           in Some (ob, set_obj_flag (OSem i) flag s))
      | _ \<Rightarrow> Some (None, s))
   }"

definition rt_sem_delete :: "nat \<Rightarrow> kernel \<Rightarrow> (rt_err \<times> kernel) option" where
  "rt_sem_delete i s = do {
     not_in_interrupt s;
     RT_ASSERT (rt_object_get_type (OSem i) s = class_code RT_Object_Class_Semaphore);
     RT_ASSERT (\<not> rt_object_is_systemobject (OSem i) s);
     s \<leftarrow> rt_ipc_list_resume_all (sem_queue i) s;
     s \<leftarrow> rt_object_delete (OSem i) s;
     Some (RT_EOK, s)
   }"

text \<open>What \<^verbatim>\<open>rt_sem_take\<close> does when the waiting thread runs again.\<close>

definition rt_sem_take_wake :: "nat \<Rightarrow> kernel \<Rightarrow> (rt_err call \<times> kernel) option" where
  "rt_sem_take_wake t s =
    (if err (thr s t) \<noteq> RT_EOK then Some (Done (err (thr s t)), s) else Some (Done RT_EOK, s))"

definition rt_sem_take :: "nat \<Rightarrow> int \<Rightarrow> kernel \<Rightarrow> (rt_err call \<times> kernel) option" where
  "rt_sem_take i time s = do {
     RT_ASSERT (rt_object_get_type (OSem i) s = class_code RT_Object_Class_Semaphore);
     (if sem_value (sem s i) > 0
      then Some (Done RT_EOK, upd_sem i (\<lambda>x. x\<lparr>sem_value := sem_value x - 1\<rparr>) s)
      else if time = 0 then Some (Done (- RT_ETIMEOUT), s)
      else do {
        in_thread_context s;
        t \<leftarrow> rt_thread_self s;
        let s = set_err t RT_EOK s;
        s \<leftarrow> ipc_wait (sem_queue i) t (ipc_flag s (OSem i)) time s;
        after_schedule t (rt_sem_take_wake t) s
      })
   }"

definition rt_sem_trytake :: "nat \<Rightarrow> kernel \<Rightarrow> (rt_err call \<times> kernel) option" where
  "rt_sem_trytake i s = rt_sem_take i 0 s"

definition rt_sem_release :: "nat \<Rightarrow> kernel \<Rightarrow> (rt_err \<times> kernel) option" where
  "rt_sem_release i s = do {
     RT_ASSERT (rt_object_get_type (OSem i) s = class_code RT_Object_Class_Semaphore);
     (if tq s (sem_queue i) \<noteq> [] then do {
        s \<leftarrow> rt_ipc_list_resume (sem_queue i) s;
        s \<leftarrow> rt_schedule s;
        Some (RT_EOK, s)
      } else Some (RT_EOK, upd_sem i (\<lambda>x. x\<lparr>sem_value := sem_value x + 1\<rparr>) s))
   }"

definition RT_IPC_CMD_RESET :: int where "RT_IPC_CMD_RESET = 1"

definition rt_sem_control :: "nat \<Rightarrow> int \<Rightarrow> rt_uint32 \<Rightarrow> kernel \<Rightarrow> (rt_err \<times> kernel) option" where
  "rt_sem_control i cmd arg s = do {
     RT_ASSERT (rt_object_get_type (OSem i) s = class_code RT_Object_Class_Semaphore);
     (if cmd = RT_IPC_CMD_RESET then do {
        s \<leftarrow> rt_ipc_list_resume_all (sem_queue i) s;
        let s = upd_sem i (\<lambda>x. x\<lparr>sem_value := ucast arg\<rparr>) s;
        s \<leftarrow> rt_schedule s;
        Some (RT_EOK, s)
      } else Some (- RT_ERROR, s))
   }"

section \<open>Object data and the kernel invariant\<close>

text \<open>The kernel invariant does not look at the data of the communication objects.\<close>

definition same_but_data :: "kernel \<Rightarrow> kernel \<Rightarrow> bool" where
  "same_but_data s s' =
    (s' = s\<lparr>sem := sem s', mtx := mtx s', evt := evt s', mbx := mbx s', mqs := mqs s', mps := mps s',
      drv := drv s', global_errno := global_errno s', freed_mem := freed_mem s'\<rparr>)"

lemma same_but_dataD:
  assumes "same_but_data s s'"
  shows "tq s' = tq s" "thr s' = thr s" "objs s' = objs s" "tmr s' = tmr s" "rt_tick s' = rt_tick s"
    "rt_timer_list s' = rt_timer_list s" "rt_current_thread s' = rt_current_thread s"
    "rt_thread_ready_priority_group s' = rt_thread_ready_priority_group s"
    "rt_scheduler_lock_nest s' = rt_scheduler_lock_nest s" "rt_interrupt_nest s' = rt_interrupt_nest s"
    "rt_object_get_type r s' = rt_object_get_type r s" "tstat s' = tstat s" "prio s' = prio s"
    "is_ready s' = is_ready s"
proof -
  let ?u = "s\<lparr>sem := sem s', mtx := mtx s', evt := evt s', mbx := mbx s', mqs := mqs s', mps := mps s',
      drv := drv s', global_errno := global_errno s', freed_mem := freed_mem s'\<rparr>"
  have e: "s' = ?u" using assms by (simp add: same_but_data_def)
  show "tq s' = tq s" "thr s' = thr s" "objs s' = objs s" "tmr s' = tmr s" "rt_tick s' = rt_tick s"
    "rt_timer_list s' = rt_timer_list s" "rt_current_thread s' = rt_current_thread s"
    "rt_thread_ready_priority_group s' = rt_thread_ready_priority_group s"
    "rt_scheduler_lock_nest s' = rt_scheduler_lock_nest s" "rt_interrupt_nest s' = rt_interrupt_nest s"
    "rt_object_get_type r s' = rt_object_get_type r s" "tstat s' = tstat s" "prio s' = prio s"
    "is_ready s' = is_ready s"
    by (subst e, simp add: rt_object_get_type_def tstat_def[abs_def] prio_def[abs_def] is_ready_def[abs_def])+
qed

lemma kinv_same_but_data:
  assumes "same_but_data s s'"
  shows "kinv s' = kinv s"
proof -
  note D = same_but_dataD[OF assms]
  have "thread_ok s' = thread_ok s" by (rule thread_ok_cong[OF D(2,3,4)])
  then show ?thesis unfolding kinv_def
    using queues_inv_cong[OF D(1)] ready_inv_cong[OF D(1,12,13,7,8)] wait_inv_cong[OF D(1,12)]
      threads_inv_cong[OF D(12)] ttimer_inv_cong[OF D(12,3,6)] timer_inv_cong[OF D(4,5,6)] by simp
qed

lemma same_but_data_upd [simp]:
  "same_but_data s (upd_sem i f1 s)" "same_but_data s (upd_mtx i f2 s)" "same_but_data s (upd_evt i f3 s)"
  "same_but_data s (upd_mbx i f4 s)" "same_but_data s (upd_mqs i f5 s)" "same_but_data s (upd_mps i f6 s)"
  "same_but_data s (upd_dq i f7 s)" "same_but_data s (upd_cmp i f8 s)" "same_but_data s (upd_dev i f9 s)"
  by (simp_all add: same_but_data_def kernel_defs upd_dq_def upd_cmp_def upd_dev_def)

lemma same_but_data_trans:
  "same_but_data s s' \<Longrightarrow> same_but_data s' s'' \<Longrightarrow> same_but_data s s''"
  unfolding same_but_data_def by (cases s; cases s'; cases s'') simp

lemma same_but_data_frame:
  assumes "same_but_data s s'"
  shows "obj_list s' = obj_list s" "freed_objs s' = freed_objs s" "rt_current_priority s' = rt_current_priority s"
  using assms unfolding same_but_data_def by (cases s; cases s'; simp)+

section \<open>Blocking and waking\<close>

definition other_ready :: "kernel \<Rightarrow> nat \<Rightarrow> bool" where
  "other_ready s c = (\<exists>t. t \<noteq> c \<and> is_ready s t)"

definition can_block :: "kernel \<Rightarrow> nat \<Rightarrow> bool" where
  "can_block s c =
    (rt_current_thread s = Some c \<and> is_ready s c \<and> rt_scheduler_lock_nest s = 0
     \<and> rt_interrupt_nest s = 0 \<and> other_ready s c)"

definition flag_ok :: "kernel \<Rightarrow> objref \<Rightarrow> bool" where
  "flag_ok s r = (ipc_flag s r = RT_IPC_FLAG_FIFO \<or> ipc_flag s r = RT_IPC_FLAG_PRIO)"

lemma in_thread_context_ok:
  "can_block s c \<Longrightarrow> in_thread_context s = Some ()"
  by (simp add: can_block_def in_thread_context_def not_in_interrupt_def rt_thread_self_def)

text \<open>A thread that waits while another one is ready gives up the processor.\<close>

definition blocked_in :: "lhead \<Rightarrow> nat list \<Rightarrow> nat \<Rightarrow> int \<Rightarrow> kernel \<Rightarrow> kernel \<Rightarrow> bool" where
  "blocked_in h q c time s s' =
    (\<exists>s1. waits_in h q c time s s1 \<and> kinv s' \<and> sched_only s1 s' \<and> runs_best s'
       \<and> rt_current_thread s' \<noteq> Some c)"

abbreviation blocked :: "lhead \<Rightarrow> nat \<Rightarrow> rt_uint8 \<Rightarrow> int \<Rightarrow> kernel \<Rightarrow> kernel \<Rightarrow> bool" where
  "blocked h c flag time s s' \<equiv> blocked_in h (wait_insert flag s c (tq s h)) c time s s'"

lemma waits_blocks:
  assumes b: "can_block s c" and w: "waits_in h q c time s s1"
  shows "\<exists>s'. after_schedule c k s1 = Some (Blocked, s') \<and> blocked_in h q c time s s'"
proof -
  have k1: "kinv s1" and c1: "rt_current_thread s1 = Some c"
    and l1: "rt_scheduler_lock_nest s1 = 0" and st: "tstat s1 = (tstat s)(c := RT_THREAD_SUSPEND)"
    using b w by (auto simp: waits_in_def can_block_def ipc_sameD)
  have "\<exists>t. is_ready s1 t" using b st by (auto simp: can_block_def other_ready_def is_ready_def)
  with rt_schedule_step[OF k1 c1] l1 obtain s' where
    s': "rt_schedule s1 = Some s'" "kinv s'" "sched_only s1 s'" "runs_best s'" by blast
  have "\<not> is_ready s' c" using sched_only_status(3)[OF s'(3)] st by (simp add: is_ready_def)
  then have "rt_current_thread s' \<noteq> Some c" using s'(4) by (auto simp: runs_best_def)
  then show ?thesis using s' w by (auto simp: after_schedule_def blocked_in_def)
qed

lemma blockedD:
  assumes "blocked_in h q c time s s'" "is_wait_head h"
  shows "kinv s'" "runs_best s'" "is_suspended s' c" "tq s' h = q"
    "sem s' = sem s" "mtx s' = mtx s" "evt s' = evt s" "mbx s' = mbx s" "mqs s' = mqs s" "mps s' = mps s"
    "is_wait_head h' \<Longrightarrow> h' \<noteq> h \<Longrightarrow> tq s' h' = tq s h'" "ipc_same s s'" "prio s' = prio s"
    "u \<noteq> c \<Longrightarrow> tstat s' u = tstat s u" "err (thr s' u) = err (thr s u)"
    "event_set (thr s' u) = event_set (thr s u)" "event_info (thr s' u) = event_info (thr s u)"
proof -
  obtain s1 where w: "waits_in h q c time s s1" and so: "sched_only s1 s'" and k: "kinv s'" "runs_best s'"
    using assms(1) by (auto simp: blocked_in_def)
  note D = sched_onlyD[OF so] and S = sched_only_status[OF so]
  have tq: "tq s' h' = tq s1 h'" if "is_wait_head h'" for h'
    using D(18,19,21) that by (cases h') auto
  have same: "ipc_same s s'"
    using w ipc_same_trans[OF _ ipc_same_sched[OF so]] by (simp add: waits_in_def)
  show "kinv s'" "runs_best s'" by (rule k)+
  show "is_suspended s' c" using w S by (simp add: waits_in_def is_suspended_def)
  show "tq s' h = q" using w tq[OF assms(2)] by (simp add: waits_in_def)
  show "is_wait_head h' \<Longrightarrow> h' \<noteq> h \<Longrightarrow> tq s' h' = tq s h'" using w tq by (simp add: waits_in_def)
  show "prio s' = prio s" using w S by (auto simp: waits_in_def)
  show "u \<noteq> c \<Longrightarrow> tstat s' u = tstat s u" using w S by (simp add: waits_in_def)
  show "err (thr s' u) = err (thr s u)" "event_set (thr s' u) = event_set (thr s u)"
    "event_info (thr s' u) = event_info (thr s u)" using w D by (simp_all add: waits_in_def)
  show "ipc_same s s'" by (rule same)
  show "sem s' = sem s" "mtx s' = mtx s" "evt s' = evt s" "mbx s' = mbx s" "mqs s' = mqs s" "mps s' = mps s"
    using ipc_sameD[OF same] by simp_all
qed

text \<open>Waking the first waiter of a queue.\<close>

lemma rt_ipc_list_resume_eq:
  assumes k: "kinv s" and h: "is_wait_head h" and q: "tq s h = t # ts"
  shows "rt_ipc_list_resume h s = Some (thread_resumed t s)" "kinv (thread_resumed t s)"
    "is_suspended s t" "is_ready (thread_resumed t s) t" "tq (thread_resumed t s) h = ts"
    "is_wait_head h' \<Longrightarrow> h' \<noteq> h \<Longrightarrow> tq (thread_resumed t s) h' = tq s h'"
proof -
  have m: "t \<in> set (tq s h)" using q by simp
  show su: "is_suspended s t"
    using m waiting_suspended[OF k, of t] h by (cases h) auto
  show "rt_ipc_list_resume h s = Some (thread_resumed t s)"
    by (simp add: rt_ipc_list_resume_def q rt_thread_resume_eq[OF k su])
  show "kinv (thread_resumed t s)" by (rule thread_resumed_kinv[OF k su])
  show "is_ready (thread_resumed t s) t" by (simp add: is_ready_def)
  have "t \<notin> set ts" using queue_distinct[OF k, of h] q by simp
  then show "tq (thread_resumed t s) h = ts"
    using h q by (auto simp: thread_resumed_tq[OF k su] is_wait_head_def)
  have "t \<notin> set (tq s h')" if "h' \<noteq> h" for h' using queue_unique[OF k m] that by blast
  then show "is_wait_head h' \<Longrightarrow> h' \<noteq> h \<Longrightarrow> tq (thread_resumed t s) h' = tq s h'"
    by (auto simp: thread_resumed_tq[OF k su] is_wait_head_def)
qed

lemma schedule_after:
  assumes "kinv s" "rt_current_thread s \<noteq> None" "is_ready s t"
  shows "\<exists>s'. rt_schedule s = Some s' \<and> kinv s' \<and> sched_only s s'
    \<and> (rt_scheduler_lock_nest s = 0 \<longrightarrow> runs_best s')"
proof -
  obtain c where "rt_current_thread s = Some c" using assms(2) by auto
  from rt_schedule_step[OF assms(1) this] assms(3) show ?thesis by blast
qed

lemma sched_only_queue: "sched_only s s' \<Longrightarrow> is_wait_head h \<Longrightarrow> tq s' h = tq s h"
  using sched_onlyD(18,19,21)[of s s'] by (cases h) auto

section \<open>The semaphore under the invariant\<close>

text \<open>A semaphore with a positive value has no waiters.\<close>

definition sem_inv :: "kernel \<Rightarrow> nat \<Rightarrow> bool" where
  "sem_inv s i = (sem_value (sem s i) > 0 \<longrightarrow> tq s (sem_queue i) = [])"

definition sem_ready :: "kernel \<Rightarrow> nat \<Rightarrow> bool" where
  "sem_ready s i =
    (rt_object_get_type (OSem i) s = class_code RT_Object_Class_Semaphore \<and> flag_ok s (OSem i)
     \<and> sem_inv s i)"

lemma rt_sem_take_available:
  assumes "rt_object_get_type (OSem i) s = class_code RT_Object_Class_Semaphore" "sem_value (sem s i) > 0"
  shows "rt_sem_take i time s = Some (Done RT_EOK, upd_sem i (\<lambda>x. x\<lparr>sem_value := sem_value x - 1\<rparr>) s)"
  using assms by (simp add: rt_sem_take_def)

lemma rt_sem_take_nowait:
  assumes "rt_object_get_type (OSem i) s = class_code RT_Object_Class_Semaphore" "sem_value (sem s i) = 0"
  shows "rt_sem_take i 0 s = Some (Done (- RT_ETIMEOUT), s)"
  using assms by (simp add: rt_sem_take_def)

lemma can_block_set_err [simp]: "can_block (set_err t e s) c = can_block s c"
  by (simp add: can_block_def other_ready_def)

lemma rt_sem_take_waits:
  assumes k: "kinv s" and r: "sem_ready s i" and v: "sem_value (sem s i) = 0"
    and b: "can_block s c" and t: "time \<noteq> 0" "time < 0x7fffffff"
  shows "\<exists>s'. rt_sem_take i time s = Some (Blocked, s')
    \<and> blocked (sem_queue i) c (ipc_flag s (OSem i)) time (set_err c RT_EOK s) s'"
proof -
  let ?s = "set_err c RT_EOK s"
  have c: "rt_current_thread ?s = Some c" "is_ready ?s c" using b by (simp_all add: can_block_def)
  have f: "ipc_flag s (OSem i) = RT_IPC_FLAG_FIFO \<or> ipc_flag s (OSem i) = RT_IPC_FLAG_PRIO"
    using r by (simp add: sem_ready_def flag_ok_def)
  have "kinv ?s" using k by simp
  from ipc_wait_total[OF this c _ f t(2), of "sem_queue i"] obtain s1 where
    s1: "ipc_wait (sem_queue i) c (ipc_flag s (OSem i)) time ?s = Some s1"
    "waits (sem_queue i) c (ipc_flag s (OSem i)) time ?s s1" by auto
  have "can_block ?s c" using b by simp
  from waits_blocks[OF this s1(2)] obtain s' where
    "after_schedule c (rt_sem_take_wake c) s1 = Some (Blocked, s')"
    "blocked (sem_queue i) c (ipc_flag s (OSem i)) time ?s s'" by blast
  then show ?thesis
    using s1(1) r v t(1) b
    by (auto simp: rt_sem_take_def sem_ready_def in_thread_context_ok[OF b] rt_thread_self_def can_block_def)
qed

lemma rt_sem_release_empty:
  assumes "rt_object_get_type (OSem i) s = class_code RT_Object_Class_Semaphore" "tq s (sem_queue i) = []"
  shows "rt_sem_release i s = Some (RT_EOK, upd_sem i (\<lambda>x. x\<lparr>sem_value := sem_value x + 1\<rparr>) s)"
  using assms by (simp add: rt_sem_release_def)

lemma rt_sem_release_wakes:
  assumes k: "kinv s" and c: "rt_current_thread s \<noteq> None"
    and ty: "rt_object_get_type (OSem i) s = class_code RT_Object_Class_Semaphore"
    and q: "tq s (sem_queue i) = t # ts"
  shows "\<exists>s'. rt_sem_release i s = Some (RT_EOK, s') \<and> kinv s' \<and> is_ready s' t
    \<and> tq s' (sem_queue i) = ts \<and> sem s' = sem s \<and> err (thr s' t) = err (thr s t) \<and> ipc_same s s'
    \<and> (rt_scheduler_lock_nest s = 0 \<longrightarrow> runs_best s')"
proof -
  have h: "is_wait_head (sem_queue i)" by simp
  note w = rt_ipc_list_resume_eq[OF k h q]
  let ?r = "thread_resumed t s"
  have "rt_current_thread ?r \<noteq> None" using c by simp
  from schedule_after[OF w(2) this w(4)] obtain s' where
    s': "rt_schedule ?r = Some s'" "kinv s'" "sched_only ?r s'"
    "rt_scheduler_lock_nest ?r = 0 \<longrightarrow> runs_best s'" by blast
  note D = sched_onlyD[OF s'(3)]
  have "ipc_same s s'" by (rule ipc_same_trans[OF ipc_same_resumed ipc_same_sched[OF s'(3)]])
  then show ?thesis
    using s' w sched_only_queue[OF s'(3) h] sched_only_status(3)[OF s'(3)] D ty q
    by (auto simp: rt_sem_release_def thread_resumed_thr)
qed

lemma rt_sem_control_reset:
  assumes k: "kinv s" and c: "rt_current_thread s \<noteq> None"
    and ty: "rt_object_get_type (OSem i) s = class_code RT_Object_Class_Semaphore"
  shows "\<exists>s'. rt_sem_control i RT_IPC_CMD_RESET v s = Some (RT_EOK, s') \<and> kinv s'
    \<and> tq s' (sem_queue i) = [] \<and> sem_value (sem s' i) = ucast v
    \<and> (\<forall>t \<in> set (tq s (sem_queue i)). is_ready s' t \<and> err (thr s' t) = - RT_ERROR)"
proof -
  have h: "is_wait_head (sem_queue i)" by simp
  from resume_all_total[OF k h] obtain s1 where
    s1: "rt_ipc_list_resume_all (sem_queue i) s = Some s1" "kinv s1"
    "rt_current_thread s1 = rt_current_thread s" "tq s1 (sem_queue i) = []"
    "\<forall>t \<in> set (tq s (sem_queue i)). is_ready s1 t \<and> err (thr s1 t) = - RT_ERROR" by blast
  let ?s = "upd_sem i (\<lambda>x. x\<lparr>sem_value := ucast v\<rparr>) s1"
  note sd = same_but_data_upd(1)[of s1 i "\<lambda>x. x\<lparr>sem_value := ucast v\<rparr>"]
  note D = same_but_dataD[OF sd]
  have k2: "kinv ?s" using s1(2) kinv_same_but_data[OF sd] by simp
  obtain c' where "rt_current_thread ?s = Some c'" using c s1(3) D(7) by auto
  from rt_schedule_step[OF k2 this] obtain s2 where
    s2: "rt_schedule ?s = Some s2" "kinv s2" "sched_only ?s s2" by blast
  have "sem_value (sem s2 i) = ucast v" using sched_onlyD(9)[OF s2(3)] by (simp add: kernel_defs)
  moreover have "tq s2 (sem_queue i) = []" using sched_only_queue[OF s2(3) h] D(1) s1(4) by simp
  moreover have "is_ready s2 t = is_ready s1 t" "err (thr s2 t) = err (thr s1 t)" for t
    using sched_only_status(3)[OF s2(3)] sched_onlyD(3)[OF s2(3)] D(2,14) by simp_all
  ultimately show ?thesis using s1 s2 ty by (auto simp: rt_sem_control_def)
qed

end
