(* ===== verification/RT_Timeout.thy ===== *)
theory RT_Timeout
  imports RT_Sem
begin

text \<open>The timeout functions of the application timers, and that the check of the timer list in
  src/timer.c ends with them. The interface is a locale: what the check needs of the functions
  that it calls. It is interpreted with every function that makes calls of the kernel: the
  timeout functions are programs of such calls, as those in examples/kernel are.\<close>

section \<open>The interface of the timeout functions\<close>

definition same_types :: "kernel \<Rightarrow> kernel \<Rightarrow> bool" where
  "same_types s s' = (\<forall>r. rt_object_get_type r s' = rt_object_get_type r s)"

text \<open>The function has returned: it made no timer due that was not due before.\<close>

definition served :: "kernel \<Rightarrow> kernel \<Rightarrow> bool" where
  "served s s' =
    (kinv s' \<and> rt_current_thread s' \<noteq> None \<and> rt_tick s' = rt_tick s \<and> same_types s s'
     \<and> (\<forall>r \<in> set (rt_timer_list s'). due s' r \<longrightarrow> r \<in> set (rt_timer_list s) \<and> due s r))"

definition user_timer_ok :: "kernel \<Rightarrow> nat \<Rightarrow> bool" where
  "user_timer_ok s n =
    (1 \<le> tm_init_tick (tmr s (UserTimer n)) \<and> tm_init_tick (tmr s (UserTimer n)) < RT_TICK_MAX div 2
     \<and> (\<exists>m. timeout_func (tmr s (UserTimer n)) = User_timeout m))"

definition user_timers_same :: "kernel \<Rightarrow> kernel \<Rightarrow> bool" where
  "user_timers_same s s' =
    (same_types s s' \<and> (\<forall>n. tm_init_tick (tmr s' (UserTimer n)) = tm_init_tick (tmr s (UserTimer n))
       \<and> timeout_func (tmr s' (UserTimer n)) = timeout_func (tmr s (UserTimer n))))"

lemma same_types_refl [simp]: "same_types s s"
  by (simp add: same_types_def)

lemma same_types_trans: "same_types s s' \<Longrightarrow> same_types s' s'' \<Longrightarrow> same_types s s''"
  by (simp add: same_types_def)

lemma same_types_active: "obj_same_but_active s s' \<Longrightarrow> same_types s s'"
  using obj_same_types(1) by (auto simp: same_types_def)

lemma same_types_timer: "same_types s s' \<Longrightarrow> timer_typed s' r = timer_typed s r"
  by (simp add: same_types_def timer_typed_def)

lemma served_trans: "served s s' \<Longrightarrow> served s' s'' \<Longrightarrow> served s s''"
  unfolding served_def using same_types_trans by metis

lemma quiet_served:
  assumes "quiet_step s s'"
  shows "served s s'" "user_timers_same s s'"
  using assms same_types_active[of s s']
  by (auto simp: quiet_step_def served_def user_timers_same_def due_def)

lemma timer_remove_facts:
  assumes k: "kinv s" and c: "rt_current_thread s \<noteq> None"
  shows "served s (rt_timer_remove r s)" "user_timers_same s (rt_timer_remove r s)"
proof -
  have e: "tmr (rt_timer_remove r s) = tmr s" "rt_tick (rt_timer_remove r s) = rt_tick s"
    "rt_current_thread (rt_timer_remove r s) = rt_current_thread s" "objs (rt_timer_remove r s) = objs s"
    "rt_timer_list (rt_timer_remove r s) = removeAll r (rt_timer_list s)" by (simp_all add: kernel_defs)
  show "user_timers_same s (rt_timer_remove r s)"
    using e(1,4) by (simp add: user_timers_same_def same_types_def rt_object_get_type_def)
  show "served s (rt_timer_remove r s)"
    using kinv_timer_remove[OF k] c e by (auto simp: served_def same_types_def rt_object_get_type_def due_def)
qed

lemma timer_clear_active_facts:
  assumes k: "kinv s" and c: "rt_current_thread s \<noteq> None" and r: "r \<notin> set (rt_timer_list s) \<or> (\<exists>n. r = UserTimer n)"
  shows "served s (timer_clear_active r s)" "user_timers_same s (timer_clear_active r s)"
proof -
  have e: "tmr (timer_clear_active r s) = tmr s" "rt_tick (timer_clear_active r s) = rt_tick s"
    "rt_current_thread (timer_clear_active r s) = rt_current_thread s"
    "rt_timer_list (timer_clear_active r s) = rt_timer_list s" by (simp_all add: kernel_defs)
  have ob: "obj_same_but_active s (timer_clear_active r s)" by (simp add: obj_same_but_active_def kernel_defs)
  show "user_timers_same s (timer_clear_active r s)"
    using e(1) same_types_active[OF ob] by (simp add: user_timers_same_def)
  show "served s (timer_clear_active r s)"
    using kinv_timer_clear_active[OF k r] same_types_active[OF ob] c e by (auto simp: served_def due_def)
qed

text \<open>A started timer of at least one tick is not due.\<close>

lemma timer_started_facts:
  assumes k: "kinv s" and c: "rt_current_thread s \<noteq> None" and ty: "timer_typed s (UserTimer n)"
    and i: "1 \<le> tm_init_tick (tmr s (UserTimer n))" "tm_init_tick (tmr s (UserTimer n)) < RT_TICK_MAX div 2"
  shows "served s (timer_started (UserTimer n) s)" "user_timers_same s (timer_started (UserTimer n) s)"
    "\<not> due (timer_started (UserTimer n) s) (UserTimer n)"
proof -
  let ?r = "UserTimer n" and ?s = "timer_started (UserTimer n) s"
  have k': "kinv ?s" by (rule kinv_timer_started[OF k ty i(2)]) auto
  have m: "set (rt_timer_list ?s) = insert ?r (set (rt_timer_list s))"
    using timer_started_inv(2)[OF kinvD(6)[OF k] i(2)] by auto
  have "2 \<le> tkey ?s ?r" using timer_started_key(1)[OF i(2)] i(1) by (simp add: word_le_nat_alt)
  then show nd: "\<not> due ?s ?r" using due_in_list[OF k', of ?r] m by simp
  have d: "due ?s r = due s r" if "r \<noteq> ?r" for r using that by (simp add: due_def timer_started_tmr)
  have "r \<in> set (rt_timer_list s) \<and> due s r" if "r \<in> set (rt_timer_list ?s)" "due ?s r" for r
    using that d[of r] m nd by (cases "r = ?r") auto
  then show "served s ?s"
    using k' c same_types_active[OF timer_started_objs[of s ?r]] by (simp add: served_def)
  show "user_timers_same s ?s"
    using same_types_active[OF timer_started_objs[of s ?r]] by (simp add: user_timers_same_def timer_started_tmr)
qed

section \<open>The check ends\<close>

locale timeout_contract =
  fixes cb :: "nat \<Rightarrow> kernel \<Rightarrow> kernel option" and ok :: "kernel \<Rightarrow> bool"
  assumes ok_timer: "ok s \<Longrightarrow> timer_typed s (UserTimer n) \<Longrightarrow> user_timer_ok s n"
    and ok_kept: "ok s \<Longrightarrow> user_timers_same s s' \<Longrightarrow> ok s'"
    and cb_served: "kinv s \<Longrightarrow> rt_current_thread s \<noteq> None \<Longrightarrow> ok s \<Longrightarrow> \<exists>s'. cb m s = Some s' \<and> served s s' \<and> ok s'"
begin

text \<open>The call of the timeout function of a timer that has left the list.\<close>

lemma fired_call:
  assumes k: "kinv s" and c: "rt_current_thread s \<noteq> None" and o: "ok s" and t: "t \<in> set (rt_timer_list s)"
  shows "\<exists>s'. call_timeout cb (timeout_func (tmr (rt_timer_remove t s) t)) (rt_timer_remove t s) = Some s'
    \<and> served (rt_timer_remove t s) s' \<and> ok s'
    \<and> (\<forall>x. t = ThreadTimer x \<longrightarrow> \<not> timer_periodic t s' \<and> t \<notin> set (rt_timer_list s'))"
proof -
  let ?r = "rt_timer_remove t s"
  have k1: "kinv ?r" and c1: "rt_current_thread ?r \<noteq> None" and o1: "ok ?r"
    using timer_remove_facts[OF k c, of t] ok_kept[OF o] by (simp_all add: served_def)
  have e: "tmr ?r = tmr s" "objs ?r = objs s" "rt_timer_list ?r = removeAll t (rt_timer_list s)"
    "tstat ?r = tstat s" using status_cong[of ?r s] by (simp_all add: kernel_defs)
  show ?thesis
  proof (cases t)
    case (ThreadTimer x)
    have x: "is_suspended s x" "thread_ok s x"
      using kinvD(5)[OF k] t ThreadTimer alive_ok[OF k, of x] by (auto simp: ttimer_inv_def alive_def)
    have x1: "is_suspended ?r x" using x(1) e(4) by (simp add: is_suspended_def)
    have n1: "ThreadTimer x \<notin> set (rt_timer_list ?r)" using e(3) ThreadTimer by simp
    from timed_out_step[OF k1 x1 n1 c1] obtain s2 where
      s2: "rt_thread_timeout x ?r = Some s2" "quiet_step ?r s2" "rt_timer_list s2 = rt_timer_list ?r" "objs s2 = objs ?r"
      by blast
    have "\<not> timer_periodic t s2" using x(2) s2(4) e(2) ThreadTimer by (simp add: thread_ok_def timer_periodic_def)
    then show ?thesis
      using s2 x(2) e n1 ThreadTimer quiet_served[OF s2(2)] ok_kept[OF o1]
      by (intro exI[of _ s2]) (simp add: call_timeout_def thread_ok_def)
  next
    case (UserTimer n)
    have "timer_typed s t" using kinvD(5)[OF k] t by (simp add: ttimer_inv_def timer_typed_def)
    then obtain m where "timeout_func (tmr s t) = User_timeout m"
      using ok_timer[OF o, of n] UserTimer by (auto simp: user_timer_ok_def)
    then show ?thesis using cb_served[OF k1 c1 o1, of m] e(1) UserTimer by (auto simp: call_timeout_def)
  qed
qed

text \<open>One round: the first timer was due; it leaves the list, or enters it again with its full
  period. The due timers become fewer.\<close>

lemma fired_round:
  assumes k: "kinv s" and c: "rt_current_thread s \<noteq> None" and o: "ok s" and t: "t \<in> set (rt_timer_list s)"
  shows "\<exists>s'. timer_fire cb t s = Some (rt_tick s', s') \<and> served (rt_timer_remove t s) s' \<and> ok s'"
proof -
  let ?r = "rt_timer_remove t s"
  from fired_call[OF assms] obtain s2 where
    s2: "call_timeout cb (timeout_func (tmr ?r t)) ?r = Some s2" "served ?r s2" "ok s2"
    and th: "\<And>x. t = ThreadTimer x \<Longrightarrow> \<not> timer_periodic t s2 \<and> t \<notin> set (rt_timer_list s2)" by blast
  have k2: "kinv s2" "rt_current_thread s2 \<noteq> None" using s2(2) by (simp_all add: served_def)
  let ?c = "timer_clear_active t s2"
  have "t \<notin> set (rt_timer_list s2) \<or> (\<exists>n. t = UserTimer n)" using th by (cases t) auto
  note C = timer_clear_active_facts[OF k2 this]
  have sc: "served ?r ?c" "ok ?c" "rt_tick ?c = rt_tick s2"
    using served_trans[OF s2(2) C(1)] ok_kept[OF s2(3) C(2)] by (simp_all add: kernel_defs)
  show ?thesis
  proof (cases "timer_periodic t s2 \<and> timer_active t s2")
    case False
    then have "timer_fire cb t s = Some (rt_tick s2, ?c)"
      using s2(1) by (auto simp: timer_fire_def rt_tick_get_def)
    then show ?thesis using sc by (intro exI[of _ ?c]) simp
  next
    case True
    obtain n where n: "t = UserTimer n" using th True by (cases t) auto
    have "timer_typed s t" using kinvD(5)[OF k] t by (simp add: ttimer_inv_def timer_typed_def)
    moreover have "same_types s ?r" using timer_remove_facts(1)[OF k c] by (simp add: served_def)
    ultimately have ty: "timer_typed ?c (UserTimer n)"
      using sc(1) same_types_timer[of s ?r] same_types_timer[of ?r ?c] n by (simp add: served_def)
    note i = ok_timer[OF sc(2) ty, unfolded user_timer_ok_def]
    have kc: "kinv ?c" "rt_current_thread ?c \<noteq> None" using sc(1) by (simp_all add: served_def)
    let ?s = "timer_started (UserTimer n) ?c"
    have S: "served ?c ?s" "user_timers_same ?c ?s"
      using i by (simp_all add: timer_started_facts[OF kc ty])
    have "timer_fire cb t s = Some (rt_tick s2, ?s)"
      using True s2(1) n ty i rt_timer_start_eq[OF ty] by (simp add: timer_fire_def rt_tick_get_def)
    moreover have "rt_tick ?s = rt_tick s2" using sc(3) by simp
    ultimately show ?thesis
      using served_trans[OF sc(1) S(1)] ok_kept[OF sc(2) S(2)] by (intro exI[of _ ?s]) simp
  qed
qed

lemma check_loop_ends:
  assumes "kinv s" "rt_current_thread s \<noteq> None" "ok s"
  shows "\<exists>s'. timer_check_loop cb (rt_tick s) s = Some s' \<and> kinv s' \<and> rt_current_thread s' \<noteq> None
    \<and> ok s' \<and> rt_tick s' = rt_tick s \<and> (\<forall>r \<in> set (rt_timer_list s'). \<not> due s' r)"
  using assms
proof (induction "card {r \<in> set (rt_timer_list s). due s r}" arbitrary: s rule: less_induct)
  case less
  show ?case
  proof (cases "rt_timer_list s")
    case Nil
    then show ?thesis using less.prems by (subst timer_check_loop.simps) auto
  next
    case (Cons t ts)
    show ?thesis
    proof (cases "due s t")
      case False
      then show ?thesis
        using less.prems Cons none_due[OF less.prems(1) Cons False]
        by (subst timer_check_loop.simps) (auto simp: due_def)
    next
      case True
      have t: "t \<in> set (rt_timer_list s)" using Cons by simp
      from fired_round[OF less.prems t] obtain s1 where
        s1: "timer_fire cb t s = Some (rt_tick s1, s1)" "served (rt_timer_remove t s) s1" "ok s1" by blast
      have tk: "rt_tick s1 = rt_tick s" "kinv s1" "rt_current_thread s1 \<noteq> None"
        using s1(2) by (simp_all add: served_def kernel_defs)
      have "r \<in> set (rt_timer_list s) \<and> due s r \<and> r \<noteq> t" if "r \<in> set (rt_timer_list s1)" "due s1 r" for r
        using that s1(2) by (auto simp: served_def kernel_defs due_def)
      then have "{r \<in> set (rt_timer_list s1). due s1 r} \<subset> {r \<in> set (rt_timer_list s). due s r}"
        using t True by blast
      then have "card {r \<in> set (rt_timer_list s1). due s1 r} < card {r \<in> set (rt_timer_list s). due s r}"
        by (intro psubset_card_mono) auto
      from less.hyps[OF this tk(2,3) s1(3)] show ?thesis
        using s1(1) tk Cons True by (subst timer_check_loop.simps) (auto simp: due_def)
    qed
  qed
qed

text \<open>A tick returns, keeps the invariant, and leaves no overdue timer.\<close>

lemma tick_served:
  assumes k: "kinv s" and c: "rt_current_thread s \<noteq> None" and t: "timers_current s" "ok s"
  shows "\<exists>s'. rt_tick_increase cb s = Some s' \<and> kinv s' \<and> rt_current_thread s' \<noteq> None
    \<and> timers_current s' \<and> ok s' \<and> rt_tick s' = rt_tick s + 1 \<and> (\<forall>r \<in> set (rt_timer_list s'). \<not> due s' r)"
proof -
  let ?a = "tick_advanced s"
  have "kinv ?a" by (rule kinv_tick_advanced[OF k t(1)])
  moreover obtain c where "rt_current_thread ?a = Some c" using c by auto
  ultimately obtain s1 where s1: "slice ?a = Some s1" "kinv s1" "rt_current_thread s1 \<noteq> None"
    "slice_frame ?a s1" using slice_total by blast
  have "user_timers_same s s1"
    using s1(4) by (simp add: slice_frame_def user_timers_same_def same_types_def rt_object_get_type_def)
  from check_loop_ends[OF s1(2,3) ok_kept[OF t(2) this]] obtain s' where
    s': "timer_check_loop cb (rt_tick s1) s1 = Some s'" "kinv s'" "rt_current_thread s' \<noteq> None"
    "ok s'" "rt_tick s' = rt_tick s1" "\<forall>r \<in> set (rt_timer_list s'). \<not> due s' r" by blast
  have "timers_current s'"
    using s'(6) due_in_list[OF s'(2)] by (auto simp: timers_current_def not_le)
  moreover have "rt_tick s1 = rt_tick s + 1" using s1(4) by (simp add: slice_frame_def)
  ultimately show ?thesis
    using s1(1) s' by (simp add: rt_tick_increase_slice rt_timer_check_def rt_tick_get_def)
qed

end

section \<open>Timeout functions as programs\<close>

text \<open>The calls that a timeout function makes: it stops and starts timers of the application, its own
  timer too, changes their periods and kinds, resumes threads and releases semaphores.\<close>

datatype timeout_call =
    TC_stop nat
  | TC_start nat
  | TC_set_time nat rt_tick
  | TC_one_shot nat
  | TC_periodic nat
  | TC_resume nat
  | TC_release nat

definition run_call :: "timeout_call \<Rightarrow> kernel \<Rightarrow> kernel option" where
  "run_call c s =
    (case c of
       TC_stop n \<Rightarrow> do { (_, s) \<leftarrow> rt_timer_stop (UserTimer n) s; Some s }
     | TC_start n \<Rightarrow> do { (_, s) \<leftarrow> rt_timer_start (UserTimer n) s; Some s }
     | TC_set_time n k \<Rightarrow> do { (_, _, s) \<leftarrow> rt_timer_control (UserTimer n) RT_TIMER_CTRL_SET_TIME k s; Some s }
     | TC_one_shot n \<Rightarrow> do { (_, _, s) \<leftarrow> rt_timer_control (UserTimer n) RT_TIMER_CTRL_SET_ONESHOT 0 s; Some s }
     | TC_periodic n \<Rightarrow> do { (_, _, s) \<leftarrow> rt_timer_control (UserTimer n) RT_TIMER_CTRL_SET_PERIODIC 0 s; Some s }
     | TC_resume t \<Rightarrow> do { (_, s) \<leftarrow> rt_thread_resume t s; Some s }
     | TC_release k \<Rightarrow> do { (_, s) \<leftarrow> rt_sem_release k s; Some s })"

fun run_calls :: "timeout_call list \<Rightarrow> kernel \<Rightarrow> kernel option" where
  "run_calls [] s = Some s"
| "run_calls (c # cs) s = run_call c s \<bind> run_calls cs"

text \<open>The objects of the calls exist, and a new period is between 1 tick and half the tick range, which
  \<^verbatim>\<open>rt_timer_start\<close> asserts of the upper end.\<close>

definition call_ok :: "kernel \<Rightarrow> timeout_call \<Rightarrow> bool" where
  "call_ok s c =
    (case c of
       TC_stop n \<Rightarrow> timer_typed s (UserTimer n)
     | TC_start n \<Rightarrow> timer_typed s (UserTimer n)
     | TC_set_time n k \<Rightarrow> timer_typed s (UserTimer n) \<and> 1 \<le> k \<and> k < RT_TICK_MAX div 2
     | TC_one_shot n \<Rightarrow> timer_typed s (UserTimer n)
     | TC_periodic n \<Rightarrow> timer_typed s (UserTimer n)
     | TC_resume t \<Rightarrow> rt_object_get_type (OThread t) s = class_code RT_Object_Class_Thread
     | TC_release k \<Rightarrow> rt_object_get_type (OSem k) s = class_code RT_Object_Class_Semaphore)"

definition user_timers_ok :: "kernel \<Rightarrow> bool" where
  "user_timers_ok s = (\<forall>n. timer_typed s (UserTimer n) \<longrightarrow> user_timer_ok s n)"

text \<open>Function m makes the calls \<^term>\<open>prog m u\<close> when it is called in the state u.\<close>

definition timeouts_ok :: "(nat \<Rightarrow> kernel \<Rightarrow> timeout_call list) \<Rightarrow> kernel \<Rightarrow> bool" where
  "timeouts_ok prog s = (user_timers_ok s \<and> (\<forall>m u. \<forall>c \<in> set (prog m u). call_ok s c))"

lemma call_ok_same: "same_types s s' \<Longrightarrow> call_ok s' c = call_ok s c"
  by (auto simp: call_ok_def same_types_def timer_typed_def split: timeout_call.split)

lemma user_timers_ok_same: "user_timers_same s s' \<Longrightarrow> user_timers_ok s \<Longrightarrow> user_timers_ok s'"
  using same_types_timer[of s s'] by (simp add: user_timers_same_def user_timers_ok_def user_timer_ok_def)

lemma kinv_user_flag:
  assumes k: "kinv s"
  shows "kinv (upd_obj (OTimer (UserTimer n)) (\<lambda>ob. ob\<lparr>obj_flag := f (obj_flag ob)\<rparr>) s)" (is "kinv ?s")
proof -
  note K = kinvD[OF k]
  have st: "tstat ?s = tstat s" "prio ?s = prio s" using status_cong[of ?s s] by (simp_all add: kernel_defs)
  have "thread_ok ?s = thread_ok s"
    using st by (auto simp: thread_ok_def[abs_def] rt_object_get_type_def kernel_defs)
  moreover have "ttimer_inv ?s = ttimer_inv s"
    using st by (auto simp: ttimer_inv_def is_suspended_def timer_active_def rt_object_get_type_def kernel_defs)
  ultimately show ?thesis
    using k st queues_inv_cong[of ?s s] ready_inv_cong[of ?s s] wait_inv_cong[of ?s s]
      threads_inv_cong[of ?s s] timer_inv_cong[of ?s s] by (simp add: kinv_def kernel_defs)
qed

lemma user_flag_facts:
  assumes k: "kinv s" "rt_current_thread s \<noteq> None"
  shows "served s (upd_obj (OTimer (UserTimer n)) (\<lambda>ob. ob\<lparr>obj_flag := f (obj_flag ob)\<rparr>) s)"
    "user_timers_same s (upd_obj (OTimer (UserTimer n)) (\<lambda>ob. ob\<lparr>obj_flag := f (obj_flag ob)\<rparr>) s)"
proof -
  let ?s = "upd_obj (OTimer (UserTimer n)) (\<lambda>ob. ob\<lparr>obj_flag := f (obj_flag ob)\<rparr>) s"
  have ty: "same_types s ?s" by (simp add: same_types_def rt_object_get_type_def kernel_defs)
  then show "user_timers_same s ?s" by (simp add: user_timers_same_def kernel_defs)
  show "served s ?s" using kinv_user_flag[OF k(1)] k(2) ty by (auto simp: served_def due_def kernel_defs)
qed

lemma set_time_facts:
  assumes k: "kinv s" "rt_current_thread s \<noteq> None" and o: "user_timers_ok s" and i: "1 \<le> x" "x < RT_TICK_MAX div 2"
  shows "served s (upd_tmr (UserTimer n) (\<lambda>tm. tm\<lparr>tm_init_tick := x\<rparr>) s)"
    "user_timers_ok (upd_tmr (UserTimer n) (\<lambda>tm. tm\<lparr>tm_init_tick := x\<rparr>) s)"
proof -
  let ?s = "upd_tmr (UserTimer n) (\<lambda>tm. tm\<lparr>tm_init_tick := x\<rparr>) s"
  have ty: "same_types s ?s" by (simp add: same_types_def rt_object_get_type_def kernel_defs)
  show "served s ?s" using kinv_set_init_tick[OF k(1)] k(2) ty by (auto simp: served_def due_def kernel_defs)
  show "user_timers_ok ?s"
    using o i same_types_timer[OF ty] by (auto simp: user_timers_ok_def user_timer_ok_def kernel_defs)
qed

lemma resumed_quiet:
  assumes k: "kinv s" "rt_current_thread s \<noteq> None" and t: "is_suspended s t"
  shows "quiet_step s (thread_resumed t s)"
proof -
  have "\<exists>P. rt_timer_list (thread_resumed t s) = filter P (rt_timer_list s)"
    by (auto simp: thread_resumed_def removeAll_filter_not_eq intro: exI[of _ "\<lambda>_. True"])
  then show ?thesis
    using thread_resumed_kinv[OF k(1) t] k(2) thread_resumed_objs[of s t] by (simp add: quiet_step_def)
qed

lemma scheduled_quiet:
  assumes k: "kinv s" "rt_current_thread s \<noteq> None"
  shows "\<exists>s'. rt_schedule s = Some s' \<and> quiet_step s s'"
proof -
  obtain c where "rt_current_thread s = Some c" using k(2) by auto
  from rt_schedule_step[OF k(1) this] obtain s' where
    s': "rt_schedule s = Some s'" "kinv s'" "sched_only s s'" "rt_current_thread s' \<noteq> None" by blast
  then show ?thesis using sched_onlyD[OF s'(3)]
    by (auto simp: quiet_step_def obj_same_but_active_def intro!: exI[of _ "\<lambda>_. True"])
qed

lemma user_timers_same_trans:
  "user_timers_same s s' \<Longrightarrow> user_timers_same s' s'' \<Longrightarrow> user_timers_same s s''"
  by (simp add: user_timers_same_def same_types_def)

lemma run_call_served:
  assumes k: "kinv s" "rt_current_thread s \<noteq> None" and o: "user_timers_ok s" and c: "call_ok s c"
  shows "\<exists>s'. run_call c s = Some s' \<and> served s s' \<and> user_timers_ok s'"
proof (cases c)
  case (TC_stop n)
  then have ty: "timer_typed s (UserTimer n)" using c by (simp add: call_ok_def)
  have f: "served s (timer_stopped (UserTimer n) s)" "user_timers_same s (timer_stopped (UserTimer n) s)"
  proof -
    let ?r = "rt_timer_remove (UserTimer n) s"
    note R = timer_remove_facts[OF k, of "UserTimer n"]
    have kr: "kinv ?r" "rt_current_thread ?r \<noteq> None" using R(1) by (simp_all add: served_def)
    note C = timer_clear_active_facts[OF kr, of "UserTimer n"]
    have "served s s" "user_timers_same s s" using k by (simp_all add: served_def user_timers_same_def)
    then show "served s (timer_stopped (UserTimer n) s)" "user_timers_same s (timer_stopped (UserTimer n) s)"
      using served_trans[OF R(1) C(1)] user_timers_same_trans[OF R(2) C(2)] by (simp_all add: timer_stopped_def)
  qed
  then show ?thesis
    using rt_timer_stop_eq[OF ty] TC_stop user_timers_ok_same[OF f(2) o] by (simp add: run_call_def)
next
  case (TC_start n)
  then have ty: "timer_typed s (UserTimer n)" using c by (simp add: call_ok_def)
  then have i: "1 \<le> tm_init_tick (tmr s (UserTimer n))" "tm_init_tick (tmr s (UserTimer n)) < RT_TICK_MAX div 2"
    using o by (simp_all add: user_timers_ok_def user_timer_ok_def)
  note F = timer_started_facts[OF k ty i]
  show ?thesis
    using rt_timer_start_eq[OF ty i(2)] TC_start F(1) user_timers_ok_same[OF F(2) o] by (simp add: run_call_def)
next
  case (TC_set_time n x)
  then have i: "timer_typed s (UserTimer n)" "1 \<le> x" "x < RT_TICK_MAX div 2" using c by (simp_all add: call_ok_def)
  show ?thesis
    using TC_set_time set_time_facts[OF k o i(2,3), of n] i(1)
    by (simp add: run_call_def rt_timer_control_def timer_typed_def RT_TIMER_CTRL_SET_TIME_def RT_TIMER_CTRL_GET_TIME_def)
next
  case (TC_one_shot n)
  note F = user_flag_facts[OF k, of n "\<lambda>x. x AND NOT RT_TIMER_FLAG_PERIODIC"]
  show ?thesis
    using TC_one_shot c F(1) user_timers_ok_same[OF F(2) o]
    by (simp add: run_call_def call_ok_def rt_timer_control_def timer_typed_def RT_TIMER_CTRL_SET_TIME_def
        RT_TIMER_CTRL_GET_TIME_def RT_TIMER_CTRL_SET_ONESHOT_def)
next
  case (TC_periodic n)
  note F = user_flag_facts[OF k, of n "\<lambda>x. x OR RT_TIMER_FLAG_PERIODIC"]
  show ?thesis
    using TC_periodic c F(1) user_timers_ok_same[OF F(2) o]
    by (simp add: run_call_def call_ok_def rt_timer_control_def timer_typed_def RT_TIMER_CTRL_SET_TIME_def
        RT_TIMER_CTRL_GET_TIME_def RT_TIMER_CTRL_SET_ONESHOT_def RT_TIMER_CTRL_SET_PERIODIC_def)
next
  case (TC_resume t)
  have ty: "rt_object_get_type (OThread t) s = class_code RT_Object_Class_Thread"
    using c TC_resume by (simp add: call_ok_def)
  show ?thesis
  proof (cases "is_suspended s t")
    case True
    note Q = quiet_served[OF resumed_quiet[OF k True]]
    show ?thesis
      using TC_resume rt_thread_resume_eq[OF k(1) True] Q(1) user_timers_ok_same[OF Q(2) o]
      by (simp add: run_call_def)
  next
    case False
    have "served s s" using k by (simp add: served_def)
    then show ?thesis using TC_resume rt_thread_resume_not_suspended[OF ty False] o by (simp add: run_call_def)
  qed
next
  case (TC_release i)
  have ty: "rt_object_get_type (OSem i) s = class_code RT_Object_Class_Semaphore"
    using c TC_release by (simp add: call_ok_def)
  show ?thesis
  proof (cases "tq s (sem_queue i)")
    case Nil
    let ?s = "upd_sem i (\<lambda>x. x\<lparr>sem_value := sem_value x + 1\<rparr>) s"
    have d: "same_but_data s ?s" by simp
    note D = same_but_dataD[OF d]
    have ty': "same_types s ?s" using D(11) by (simp add: same_types_def)
    then have "served s ?s"
      using D(4-7) kinv_same_but_data[OF d] k by (auto simp: served_def due_def)
    moreover have "user_timers_same s ?s" using ty' D(4) by (simp add: user_timers_same_def)
    ultimately show ?thesis
      using TC_release rt_sem_release_empty[OF ty Nil] user_timers_ok_same[of s ?s] o by (simp add: run_call_def)
  next
    case (Cons t ts)
    have h: "is_wait_head (sem_queue i)" by simp
    note w = rt_ipc_list_resume_eq[OF k(1) h Cons]
    note Q = quiet_served[OF resumed_quiet[OF k w(3)]]
    have c1: "rt_current_thread (thread_resumed t s) \<noteq> None" using k(2) by simp
    from scheduled_quiet[OF w(2) c1] obtain s' where
      s': "rt_schedule (thread_resumed t s) = Some s'" "quiet_step (thread_resumed t s) s'" by blast
    note S = quiet_served[OF s'(2)]
    have "rt_sem_release i s = Some (RT_EOK, s')" using w(1) s'(1) ty Cons by (simp add: rt_sem_release_def)
    then show ?thesis
      using TC_release served_trans[OF Q(1) S(1)] user_timers_ok_same[OF user_timers_same_trans[OF Q(2) S(2)] o]
      by (simp add: run_call_def)
  qed
qed

lemma run_calls_served:
  assumes "kinv s" "rt_current_thread s \<noteq> None" "user_timers_ok s" "\<forall>c \<in> set cs. call_ok s c"
  shows "\<exists>s'. run_calls cs s = Some s' \<and> served s s' \<and> user_timers_ok s'"
  using assms
proof (induction cs arbitrary: s)
  case Nil
  then show ?case by (simp add: served_def)
next
  case (Cons c cs)
  have "call_ok s c" using Cons.prems(4) by simp
  from run_call_served[OF Cons.prems(1-3) this] obtain s1 where
    s1: "run_call c s = Some s1" "served s s1" "user_timers_ok s1" by blast
  have k1: "kinv s1" "rt_current_thread s1 \<noteq> None" using s1(2) by (simp_all add: served_def)
  have "\<forall>c \<in> set cs. call_ok s1 c"
    using Cons.prems(4) call_ok_same[of s s1] s1(2) by (simp add: served_def)
  from Cons.IH[OF k1 s1(3) this] show ?case using s1(1) served_trans[OF s1(2)] by auto
qed

interpretation user_timeouts: timeout_contract "\<lambda>m s. run_calls (prog m s) s" "timeouts_ok prog" for prog
proof
  fix s n
  assume "timeouts_ok prog s" "timer_typed s (UserTimer n)"
  then show "user_timer_ok s n" by (simp add: timeouts_ok_def user_timers_ok_def)
next
  fix s s'
  assume o: "timeouts_ok prog s" and u: "user_timers_same s s'"
  then have "same_types s s'" by (simp add: user_timers_same_def)
  then show "timeouts_ok prog s'"
    using o user_timers_ok_same[OF u] call_ok_same by (simp add: timeouts_ok_def)
next
  fix s m
  assume k: "kinv s" "rt_current_thread s \<noteq> None" and o: "timeouts_ok prog s"
  have "user_timers_ok s" "\<forall>c \<in> set (prog m s). call_ok s c" using o by (simp_all add: timeouts_ok_def)
  from run_calls_served[OF k this] obtain s' where
    s': "run_calls (prog m s) s = Some s'" "served s s'" "user_timers_ok s'" by blast
  have "same_types s s'" using s'(2) by (simp add: served_def)
  then show "\<exists>s'. run_calls (prog m s) s = Some s' \<and> served s s' \<and> timeouts_ok prog s'"
    using s' o call_ok_same by (simp add: timeouts_ok_def)
qed

end
