(* ===== verification/RT_Clock_Spec.thy ===== *)
theory RT_Clock_Spec
  imports RT_Timeout
begin

text \<open>The properties of the clock: the check of the timers ends, a tick serves exactly the timers
  that are due, and a sleeping thread wakes up at the tick it asked for.\<close>

text \<open>Thread 0 of the state \<^verbatim>\<open>demo\<close> has gone to sleep for n ticks.\<close>

lemma demo_sleeps:
  assumes "n < RT_TICK_MAX div 2"
  shows "\<exists>s. rt_thread_sleep n demo = Some (Blocked, s) \<and> kinv s \<and> rt_current_thread s \<noteq> None
    \<and> rt_timer_list s = [ThreadTimer 0] \<and> timeout_tick (tmr s (ThreadTimer 0)) = n \<and> rt_tick s = 0"
proof -
  from rt_thread_sleep_full[OF kinv_demo, of 0 n] assms obtain r s where
    s: "rt_thread_sleep n demo = Some (r, s)" "kinv s" "timeout_tick (tmr s (ThreadTimer 0)) = n" "rt_tick s = 0"
    "rt_current_thread s \<noteq> None" "set (rt_timer_list s) = {ThreadTimer 0}" "r = Blocked" by auto
  have "distinct (rt_timer_list s)" using kinvD(6)[OF s(2)] by (simp add: timer_inv_def)
  then have "rt_timer_list s = [ThreadTimer 0]"
    using s(6) by (cases "rt_timer_list s" rule: list.exhaust; cases "tl (rt_timer_list s)") auto
  then show ?thesis using s by blast
qed

text \<open>C39. The check of the timer list ends and leaves no due timer. The timeout functions of the
  application are programs: each makes, in every state, some list of calls that stop and start timers
  of the application (its own timer too), change their periods and kinds, resume threads and release
  semaphores. The objects of the calls must exist, and the timers and the calls that set a period must have
  periods from 1 on, within half the tick range. (A periodic timer with the period 0 is due again
  at once.)\<close>

theorem rt_timer_check_ends:
  assumes "kinv s" "rt_current_thread s \<noteq> None" "timeouts_ok prog s"
  shows "\<exists>s'. rt_timer_check (\<lambda>m s. run_calls (prog m s) s) s = Some s' \<and> kinv s' \<and> rt_current_thread s' \<noteq> None
    \<and> timeouts_ok prog s' \<and> rt_tick s' = rt_tick s \<and> (\<forall>r \<in> set (rt_timer_list s'). \<not> due s' r)"
  using user_timeouts.check_loop_ends[OF assms] by (simp add: rt_timer_check_def rt_tick_get_def)

text \<open>A periodic timer of 10 ticks is due; its function gives it a period of 50 ticks, as in
  examples/kernel/timer\_control.c, and starts a second timer.\<close>

definition timeout_demo :: kernel where
  "timeout_demo = demo\<lparr>rt_timer_list := [UserTimer 0],
     objs := (objs demo)(OTimer (UserTimer 0) := \<lparr>obj_name = [], obj_type = 0x89, obj_flag = 3\<rparr>)\<rparr>"

definition timeout_prog :: "nat \<Rightarrow> kernel \<Rightarrow> timeout_call list" where
  "timeout_prog m s = (if m = 0 then [TC_set_time 0 50, TC_start 1] else [])"

lemma timeout_demo_types: "rt_object_get_type r timeout_demo = rt_object_get_type r demo"
  by (simp add: timeout_demo_def rt_object_get_type_def demo_def demo_type_def)

lemma timeout_demo_fields:
  "tmr timeout_demo = tmr demo" "rt_tick timeout_demo = 0" "rt_timer_list timeout_demo = [UserTimer 0]"
  "rt_current_thread timeout_demo = Some 0"
  by (simp_all add: timeout_demo_def)

lemma kinv_timeout_demo: "kinv timeout_demo"
proof (rule kinvI)
  note K = kinvD[OF kinv_demo]
  have th: "thr timeout_demo = thr demo" "tq timeout_demo = tq demo"
    "rt_thread_ready_priority_group timeout_demo = rt_thread_ready_priority_group demo"
    by (simp_all add: timeout_demo_def)
  note st = status_cong[OF th(1)]
  note f = timeout_demo_fields
  show "queues_inv timeout_demo" using K(1) queues_inv_cong[OF th(2)] by simp
  show "ready_inv timeout_demo" using K(2) ready_inv_cong[of timeout_demo demo] th st f by simp
  show "wait_inv timeout_demo" using K(3) wait_inv_cong[of timeout_demo demo] th st by simp
  have "thread_ok timeout_demo = thread_ok demo"
    using st th(1) timeout_demo_types f(1) by (auto simp: thread_ok_def[abs_def] timeout_demo_def)
  then show "threads_inv timeout_demo" using K(4) threads_inv_cong[of timeout_demo demo] st by simp
  show "ttimer_inv timeout_demo" using timeout_demo_types f by (simp add: ttimer_inv_def)
  show "timer_inv timeout_demo"
    using f by (simp add: timer_inv_def tkey_def tkey_max_def demo_def)
qed

lemma timeouts_ok_demo: "timeouts_ok timeout_prog timeout_demo"
proof -
  have "timer_typed timeout_demo r" for r by (simp add: timer_typed_def timeout_demo_types)
  then show ?thesis
    by (auto simp: timeouts_ok_def user_timers_ok_def user_timer_ok_def timeout_prog_def call_ok_def
        timeout_demo_fields RT_TICK_MAX_half demo_def)
qed

lemma rt_timer_check_ends_witness:
  "\<exists>s'. rt_timer_check (\<lambda>m s. run_calls (timeout_prog m s) s) timeout_demo = Some s'
    \<and> tm_init_tick (tmr s' (UserTimer 0)) = 50 \<and> rt_timer_list s' = [UserTimer 1, UserTimer 0]"
proof -
  let ?cb = "\<lambda>m s. run_calls (timeout_prog m s) s"
  note f = timeout_demo_fields
  have c: "rt_current_thread timeout_demo \<noteq> None" by (simp add: f)
  from rt_timer_check_ends[OF kinv_timeout_demo c timeouts_ok_demo] obtain s' where
    s': "rt_timer_check ?cb timeout_demo = Some s'" by blast
  have "\<exists>s1. timer_fire ?cb (UserTimer 0) timeout_demo = Some (0, s1) \<and> tm_init_tick (tmr s1 (UserTimer 0)) = 50
    \<and> rt_timer_list s1 = [UserTimer 1, UserTimer 0] \<and> timeout_tick (tmr s1 (UserTimer 1)) = 10"
    by (simp add: timer_fire_def call_timeout_def timeout_prog_def run_call_def rt_timer_control_def
        rt_timer_start_def timer_periodic_def timer_active_def kernel_defs Let_def rt_tick_get_def
        timeout_demo_def demo_def demo_type_def rt_object_get_type_def RT_TICK_MAX_half
        RT_TIMER_CTRL_SET_TIME_def RT_TIMER_CTRL_GET_TIME_def RT_TIMER_FLAG_PERIODIC_def
        RT_TIMER_FLAG_ACTIVATED_def RT_Object_Class_Static_def)
  then obtain s1 where s1: "timer_fire ?cb (UserTimer 0) timeout_demo = Some (0, s1)"
    "tm_init_tick (tmr s1 (UserTimer 0)) = 50" "rt_timer_list s1 = [UserTimer 1, UserTimer 0]"
    "timeout_tick (tmr s1 (UserTimer 1)) = 10" by blast
  have "timer_check_loop ?cb 0 s1 = Some s1"
    using s1(3,4) by (subst timer_check_loop.simps) (simp add: RT_TICK_MAX_half)
  moreover have "timeout_tick (tmr timeout_demo (UserTimer 0)) = 0" by (simp add: f demo_def)
  ultimately have "rt_timer_check ?cb timeout_demo = Some s1"
    using s1(1) f(3) by (simp add: rt_timer_check_def rt_tick_get_def f(2))
      (subst timer_check_loop.simps, simp add: RT_TICK_MAX_half)
  then show ?thesis using s' s1(2,3) by blast
qed

text \<open>A whole clock tick with such timeout functions returns, keeps the invariant and leaves no due
  timer, so that the next tick finds the timers as this one did.\<close>

theorem rt_tick_increase_served:
  assumes "kinv s" "rt_current_thread s \<noteq> None" "timers_current s" "timeouts_ok prog s"
  shows "\<exists>s'. rt_tick_increase (\<lambda>m s. run_calls (prog m s) s) s = Some s' \<and> kinv s' \<and> rt_current_thread s' \<noteq> None
    \<and> timers_current s' \<and> timeouts_ok prog s' \<and> rt_tick s' = rt_tick s + 1
    \<and> (\<forall>r \<in> set (rt_timer_list s'). \<not> due s' r)"
  by (rule user_timeouts.tick_served[OF assms])

text \<open>A one-shot timer that starts itself again in its timeout function cannot be stopped: the check
  clears its activated flag after the function has returned, while the timer is in the list, and
  \<^verbatim>\<open>rt_timer_stop\<close> refuses a timer without this flag.\<close>

theorem one_shot_restart_unstoppable:
  assumes "kinv s" "rt_current_thread s \<noteq> None" "timeouts_ok prog s" "UserTimer n \<in> set (rt_timer_list s)"
    and "\<not> timer_periodic (UserTimer n) s" "timeout_func (tmr s (UserTimer n)) = User_timeout m"
    and "\<And>u. prog m u = [TC_start n]"
  shows "\<exists>s'. timer_fire (\<lambda>m s. run_calls (prog m s) s) (UserTimer n) s = Some (rt_tick s, s')
    \<and> UserTimer n \<in> set (rt_timer_list s') \<and> rt_timer_stop (UserTimer n) s' = Some (- RT_ERROR, s')"
proof -
  let ?t = "UserTimer n"
  let ?r = "rt_timer_remove ?t s"
  note R = timer_remove_facts[OF assms(1,2), of ?t]
  have ty: "timer_typed s ?t" using kinvD(5)[OF assms(1)] assms(4) by (simp add: ttimer_inv_def timer_typed_def)
  have ty1: "timer_typed ?r ?t" using ty same_types_timer[of s ?r ?t] R(1) by (simp add: served_def)
  have k1: "kinv ?r" "tmr ?r = tmr s" "objs ?r = objs s" "rt_tick ?r = rt_tick s"
    using R(1) by (simp_all add: served_def kernel_defs)
  have i: "tm_init_tick (tmr ?r ?t) < RT_TICK_MAX div 2"
    using assms(3) ty by (simp add: timeouts_ok_def user_timers_ok_def user_timer_ok_def kernel_defs)
  let ?s = "timer_started ?t ?r"
  let ?c = "timer_clear_active ?t ?s"
  have m: "?t \<in> set (rt_timer_list ?s)" using timer_started_inv(2)[OF kinvD(6)[OF k1(1)] i] by auto
  have "obj_same_but_active ?r ?s" by (rule timer_started_objs)
  then have "\<not> timer_periodic ?t ?s"
    using assms(5) k1(3) by (simp add: timer_periodic_def obj_same_but_active_def)
  then have f: "timer_fire (\<lambda>m s. run_calls (prog m s) s) ?t s = Some (rt_tick s, ?c)"
    using assms(6,7) rt_timer_start_eq[OF ty1 i] k1(2,4)
    by (simp add: timer_fire_def call_timeout_def run_call_def rt_tick_get_def)
  have "timer_typed ?c ?t"
    using ty1 same_types_timer[OF same_types_active[OF timer_started_objs[of ?r ?t]], of ?t]
    by (simp add: timer_typed_def rt_object_get_type_def kernel_defs)
  moreover have "\<not> timer_active ?t ?c"
    by (simp add: timer_active_def kernel_defs RT_TIMER_FLAG_ACTIVATED_def word_bw_assocs)
  moreover have "?t \<in> set (rt_timer_list ?c)" using m by (simp add: kernel_defs)
  ultimately show ?thesis
    using f rt_timer_stop_eq[of ?c ?t] by (intro exI[of _ ?c]) (simp add: timer_stopped_def)
qed

text \<open>A clock tick, while only threads wait for timers: it always returns, exactly the threads
  whose timers expire at the new tick become ready with the error of a timeout, every other
  thread keeps its status, and exactly the expired timers leave the list. \<^term>\<open>tkey\<close> is the
  number of ticks to the expiry plus one.\<close>

theorem rt_tick_increase_correct:
  assumes "kinv s" "rt_current_thread s \<noteq> None" "timers_current s" "thread_timers_only s"
  shows "\<exists>s'. rt_tick_increase cb s = Some s' \<and> kinv s' \<and> rt_current_thread s' \<noteq> None
    \<and> timers_current s' \<and> thread_timers_only s' \<and> rt_tick s' = rt_tick s + 1 \<and> tmr s' = tmr s
    \<and> rt_timer_list s' = filter (\<lambda>r. 2 < tkey s r) (rt_timer_list s)
    \<and> (\<forall>t. if ThreadTimer t \<in> set (rt_timer_list s) \<and> tkey s (ThreadTimer t) \<le> 2
           then is_ready s' t \<and> err (thr s' t) = - RT_ETIMEOUT
           else tstat s' t = tstat s t \<and> err (thr s' t) = err (thr s t))"
  by (rule rt_tick_increase_threads[OF assms])

lemma rt_tick_increase_correct_witness:
  "\<exists>s s'. rt_timer_list s = [ThreadTimer 0] \<and> rt_tick_increase (\<lambda>_. Some) s = Some s' \<and> rt_timer_list s' = []
     \<and> is_ready s' 0"
proof -
  obtain s where s: "kinv s" "rt_current_thread s \<noteq> None" "rt_timer_list s = [ThreadTimer 0]"
    "timeout_tick (tmr s (ThreadTimer 0)) = 1" "rt_tick s = 0"
    using demo_sleeps[of 1] by (auto simp: RT_TICK_MAX_half)
  then have k: "tkey s (ThreadTimer 0) = 2" by (simp add: tkey_def)
  with s(3) have "timers_current s" "thread_timers_only s"
    by (simp_all add: timers_current_def thread_timers_only_def)
  from rt_tick_increase_correct[OF s(1,2) this, of "\<lambda>_. Some"] obtain s' where
    s': "rt_tick_increase (\<lambda>_. Some) s = Some s'" "rt_timer_list s' = []"
    "if ThreadTimer 0 \<in> set (rt_timer_list s) \<and> tkey s (ThreadTimer 0) \<le> 2
     then is_ready s' 0 \<and> err (thr s' 0) = - RT_ETIMEOUT
     else tstat s' 0 = tstat s 0 \<and> err (thr s' 0) = err (thr s 0)" using k s(3) by auto
  then show ?thesis using k s(3) by (intro exI[of _ s] exI[of _ s']) simp
qed

text \<open>C11. Waking up on time. A running thread that sleeps for n ticks, from 1 on and less than half
  the tick range, while only threads wait for timers, is still suspended after every smaller
  number of clock ticks, and is ready after n of them.\<close>

theorem sleep_wakes_on_time:
  assumes "kinv s" "rt_current_thread s = Some c" "is_ready s c" "1 \<le> n" "n < RT_TICK_MAX div 2"
    and "timers_current s" "thread_timers_only s"
  shows "\<exists>r s'. rt_thread_sleep n s = Some (r, s')
    \<and> (\<forall>k < unat n. \<exists>s''. ticks cb k s' = Some s'' \<and> is_suspended s'' c)
    \<and> (\<exists>s''. ticks cb (unat n) s' = Some s'' \<and> kinv s'' \<and> is_ready s'' c)"
proof -
  let ?r = "ThreadTimer c"
  from rt_thread_sleep_full[OF assms(1-3,5)] obtain r s' where
    s': "rt_thread_sleep n s = Some (r, s')" "kinv s'" "?r \<in> set (rt_timer_list s')"
    "timeout_tick (tmr s' ?r) = rt_tick s + n" "rt_tick s' = rt_tick s" "rt_current_thread s' \<noteq> None"
    "set (rt_timer_list s') = insert ?r (set (rt_timer_list s))"
    "\<forall>x. x \<noteq> ?r \<longrightarrow> timeout_tick (tmr s' x) = timeout_tick (tmr s x)" by blast
  have l: "unat n < 0x7fffffff" "1 \<le> unat n"
    using assms(4,5) by (simp_all add: RT_TICK_MAX_half word_less_nat_alt word_le_nat_alt)
  then have "unat (n + 1) = Suc (unat n)" by (simp add: unat_word_ariths)
  then have key: "tkey s' ?r = Suc (unat n)" using s'(4,5) by (simp add: tkey_def)
  have "tkey s' x = tkey s x" if "x \<noteq> ?r" for x using s'(5,8) that by (simp add: tkey_def)
  then have "1 \<le> tkey s' x" if "x \<in> set (rt_timer_list s')" for x
    using s'(7) assms(6) key that by (cases "x = ?r") (auto simp: timers_current_def)
  then have cur: "timers_current s'" by (simp add: timers_current_def)
  have to: "thread_timers_only s'" using s'(7) assms(7) by (auto simp: thread_timers_only_def)
  have left: "ticks_left s' c = unat n" using key by (simp add: ticks_left_def)
  have "\<exists>s''. ticks cb k s' = Some s'' \<and> is_suspended s'' c" if "k < unat n" for k
    using ticks_before_wakeup[OF s'(2,6) cur to s'(3), of k cb] that left by auto
  moreover have "\<exists>s''. ticks cb (unat n) s' = Some s'' \<and> kinv s'' \<and> is_ready s'' c"
    using ticks_wakeup[OF s'(2,6) cur to s'(3), of cb] left l by auto
  ultimately show ?thesis using s'(1) by blast
qed

lemma sleep_wakes_on_time_witness:
  "\<exists>r s' s''. rt_thread_sleep 3 demo = Some (r, s') \<and> ticks (\<lambda>_. Some) 3 s' = Some s'' \<and> is_ready s'' 0"
  using sleep_wakes_on_time[of demo 0 3 "\<lambda>_. Some"]
  by (auto simp: RT_TICK_MAX_half timers_current_def thread_timers_only_def)

text \<open>At 1000 ticks in a second the conversion of milliseconds gives as many ticks, and the
  waiting forever of every negative number, up to 2147482 milliseconds; from there on the
  product leaves the type int, although the comment of the function allows up to 0x7fffffff.\<close>

theorem rt_tick_from_millisecond_correct:
  "rt_tick_from_millisecond ms =
    (if ms < 0 then Some (- 1)
     else if ms \<le> 2147482 then Some ms else None)"
proof -
  have "(1000 * ms + 999) div 1000 = ms" by simp
  then show ?thesis by (auto simp: rt_tick_from_millisecond_def int32_ok_def RT_TICK_PER_SECOND_def)
qed

end
