(* ===== verification/RT_Mutex.thy ===== *)
theory RT_Mutex
  imports RT_Sem
begin

text \<open>The mutexes of src/ipc.c: an owner with a nesting count, the priority the owner had when
  it got the mutex, and a wait queue. A thread that waits for a mutex lends its priority to
  the owner; the owner gets its own back when it releases the mutex.\<close>

section \<open>Operations\<close>

abbreviation mtx_queue :: "nat \<Rightarrow> lhead" where
  "mtx_queue i \<equiv> WaitQ (OMutex i)"

definition mutex_initial :: rt_mutex where
  "mutex_initial = \<lparr>mtx_value = 1, original_priority = 0xff, hold = 0, owner = None\<rparr>"

definition rt_mutex_init :: "nat \<Rightarrow> rt_uint8 list \<Rightarrow> rt_uint8 \<Rightarrow> kernel \<Rightarrow> (rt_err \<times> kernel) option" where
  "rt_mutex_init i nm flag s = do {
     s \<leftarrow> rt_object_init (OMutex i) RT_Object_Class_Mutex nm s;
     let s = rt_ipc_object_init (mtx_queue i) s;
     let s = upd_mtx i (\<lambda>_. mutex_initial) s;
     Some (RT_EOK, set_obj_flag (OMutex i) flag s)
   }"

definition rt_mutex_detach :: "nat \<Rightarrow> kernel \<Rightarrow> (rt_err \<times> kernel) option" where
  "rt_mutex_detach i s = do {
     RT_ASSERT (rt_object_get_type (OMutex i) s = class_code RT_Object_Class_Mutex);
     RT_ASSERT (rt_object_is_systemobject (OMutex i) s);
     s \<leftarrow> rt_ipc_list_resume_all (mtx_queue i) s;
     Some (RT_EOK, rt_object_detach (OMutex i) s)
   }"

definition rt_mutex_create ::
  "objref option \<Rightarrow> rt_uint8 list \<Rightarrow> rt_uint8 \<Rightarrow> kernel \<Rightarrow> (objref option \<times> kernel) option" where
  "rt_mutex_create mem nm flag s = do {
     not_in_interrupt s;
     (ob, s) \<leftarrow> rt_object_allocate mem RT_Object_Class_Mutex nm s;
     (case ob of
        Some (OMutex i) \<Rightarrow>
          (let s = rt_ipc_object_init (mtx_queue i) s;
               s = upd_mtx i (\<lambda>_. mutex_initial) s
           in Some (ob, set_obj_flag (OMutex i) flag s))
      | _ \<Rightarrow> Some (None, s))
   }"

definition rt_mutex_delete :: "nat \<Rightarrow> kernel \<Rightarrow> (rt_err \<times> kernel) option" where
  "rt_mutex_delete i s = do {
     not_in_interrupt s;
     RT_ASSERT (rt_object_get_type (OMutex i) s = class_code RT_Object_Class_Mutex);
     RT_ASSERT (\<not> rt_object_is_systemobject (OMutex i) s);
     s \<leftarrow> rt_ipc_list_resume_all (mtx_queue i) s;
     s \<leftarrow> rt_object_delete (OMutex i) s;
     Some (RT_EOK, s)
   }"

text \<open>The part of \<^verbatim>\<open>rt_mutex_take\<close> from its label \<^verbatim>\<open>__again\<close> on. A wait that is interrupted
  (\<^verbatim>\<open>RT_EINTR\<close>) is tried again; nothing bounds how often.\<close>

definition mutex_grab :: "nat \<Rightarrow> nat \<Rightarrow> kernel \<Rightarrow> kernel" where
  "mutex_grab i t s =
    upd_mtx i (\<lambda>m. m\<lparr>mtx_value := mtx_value m - 1, owner := Some t,
      original_priority := current_priority (thr s t), hold := hold m + 1\<rparr>) s"

definition mutex_lend :: "nat \<Rightarrow> nat \<Rightarrow> kernel \<Rightarrow> kernel option" where
  "mutex_lend t ow s =
    (if current_priority (thr s t) < current_priority (thr s ow) then do {
       (_, s) \<leftarrow> rt_thread_control ow RT_THREAD_CTRL_CHANGE_PRIORITY (current_priority (thr s t)) s;
       Some s
     } else Some s)"

definition mutex_block :: "nat \<Rightarrow> nat \<Rightarrow> int \<Rightarrow> kernel \<Rightarrow> kernel option" where
  "mutex_block i t time s = do {
     ow \<leftarrow> owner (mtx s i);
     s \<leftarrow> mutex_lend t ow s;
     ipc_wait (mtx_queue i) t (ipc_flag s (OMutex i)) time s
   }"

partial_function (option) rt_mutex_again :: "nat \<Rightarrow> nat \<Rightarrow> int \<Rightarrow> kernel \<Rightarrow> (rt_err call \<times> kernel) option" where
  "rt_mutex_again i t time s =
    (if mtx_value (mtx s i) > 0 then Some (Done RT_EOK, mutex_grab i t s)
     else if time = 0 then Some (Done (- RT_ETIMEOUT), set_err t (- RT_ETIMEOUT) s)
     else Option.bind (mutex_block i t time s) (\<lambda>s. Option.bind (rt_schedule s) (\<lambda>s.
       if rt_current_thread s \<noteq> Some t then Some (Blocked, s)
       else if err (thr s t) \<noteq> RT_EOK then
         (if err (thr s t) = - RT_EINTR then rt_mutex_again i t time s
          else Some (Done (err (thr s t)), s))
       else Some (Done RT_EOK, s))))"

text \<open>What the call does when the waiting thread runs again.\<close>

definition rt_mutex_take_wake :: "nat \<Rightarrow> nat \<Rightarrow> int \<Rightarrow> kernel \<Rightarrow> (rt_err call \<times> kernel) option" where
  "rt_mutex_take_wake i t time s =
    (if err (thr s t) \<noteq> RT_EOK then
       (if err (thr s t) = - RT_EINTR then rt_mutex_again i t time s
        else Some (Done (err (thr s t)), s))
     else Some (Done RT_EOK, s))"

definition rt_mutex_take :: "nat \<Rightarrow> int \<Rightarrow> kernel \<Rightarrow> (rt_err call \<times> kernel) option" where
  "rt_mutex_take i time s = do {
     in_thread_context s;
     RT_ASSERT (rt_object_get_type (OMutex i) s = class_code RT_Object_Class_Mutex);
     t \<leftarrow> rt_thread_self s;
     let s = set_err t RT_EOK s;
     (if owner (mtx s i) = Some t
      then Some (Done RT_EOK, upd_mtx i (\<lambda>m. m\<lparr>hold := hold m + 1\<rparr>) s)
      else rt_mutex_again i t time s)
   }"

definition rt_mutex_release :: "nat \<Rightarrow> kernel \<Rightarrow> (rt_err \<times> kernel) option" where
  "rt_mutex_release i s = do {
     RT_ASSERT (rt_object_get_type (OMutex i) s = class_code RT_Object_Class_Mutex);
     in_thread_context s;
     t \<leftarrow> rt_thread_self s;
     (if owner (mtx s i) \<noteq> Some t then Some (- RT_ERROR, set_err t (- RT_ERROR) s)
      else do {
        let s = upd_mtx i (\<lambda>m. m\<lparr>hold := hold m - 1\<rparr>) s;
        (if hold (mtx s i) \<noteq> 0 then Some (RT_EOK, s)
         else do {
           (_, s) \<leftarrow> (if original_priority (mtx s i) \<noteq> current_priority (thr s t)
                      then rt_thread_control t RT_THREAD_CTRL_CHANGE_PRIORITY (original_priority (mtx s i)) s
                      else Some (RT_EOK, s));
           (case tq s (mtx_queue i) of
              u # _ \<Rightarrow> do {
                let s = upd_mtx i (\<lambda>m. m\<lparr>owner := Some u,
                          original_priority := current_priority (thr s u), hold := hold m + 1\<rparr>) s;
                s \<leftarrow> rt_ipc_list_resume (mtx_queue i) s;
                s \<leftarrow> rt_schedule s;
                Some (RT_EOK, s)
              }
            | [] \<Rightarrow>
                Some (RT_EOK, upd_mtx i (\<lambda>m. m\<lparr>mtx_value := mtx_value m + 1, owner := None,
                                               original_priority := 0xff\<rparr>) s))
         })
      })
   }"

definition rt_mutex_control :: "nat \<Rightarrow> int \<Rightarrow> kernel \<Rightarrow> (rt_err \<times> kernel) option" where
  "rt_mutex_control i cmd s = do {
     RT_ASSERT (rt_object_get_type (OMutex i) s = class_code RT_Object_Class_Mutex);
     Some (- RT_ERROR, s)
   }"

section \<open>Changing priorities leaves the wait queues alone\<close>

lemma set_prio_frame [simp]:
  "tq (set_prio t p s) = tq s" "objs (set_prio t p s) = objs s" "obj_list (set_prio t p s) = obj_list s"
  "rt_current_thread (set_prio t p s) = rt_current_thread s"
  "rt_scheduler_lock_nest (set_prio t p s) = rt_scheduler_lock_nest s"
  "rt_interrupt_nest (set_prio t p s) = rt_interrupt_nest s" "rt_tick (set_prio t p s) = rt_tick s"
  "sem (set_prio t p s) = sem s" "mtx (set_prio t p s) = mtx s" "evt (set_prio t p s) = evt s"
  "mbx (set_prio t p s) = mbx s" "mqs (set_prio t p s) = mqs s" "mps (set_prio t p s) = mps s" "drv (set_prio t p s) = drv s"
  "err (thr (set_prio t p s) u) = err (thr s u)"
  "current_priority (thr (set_prio t p s) u) = (if u = t then p else current_priority (thr s u))"
  by (simp_all add: kernel_defs)

lemma prio_changed_frame [simp]:
  "objs (prio_changed t p s) = objs s" "obj_list (prio_changed t p s) = obj_list s"
  "rt_current_thread (prio_changed t p s) = rt_current_thread s"
  "rt_scheduler_lock_nest (prio_changed t p s) = rt_scheduler_lock_nest s"
  "rt_interrupt_nest (prio_changed t p s) = rt_interrupt_nest s" "rt_tick (prio_changed t p s) = rt_tick s"
  "sem (prio_changed t p s) = sem s" "mtx (prio_changed t p s) = mtx s" "evt (prio_changed t p s) = evt s"
  "mbx (prio_changed t p s) = mbx s" "mqs (prio_changed t p s) = mqs s" "mps (prio_changed t p s) = mps s" "drv (prio_changed t p s) = drv s"
  "err (thr (prio_changed t p s) u) = err (thr s u)"
  "current_priority (thr (prio_changed t p s) u) = (if u = t then p else current_priority (thr s u))"
  by (simp_all add: prio_changed_def insert_thread_thr)

lemma prio_changed_same: "ipc_same s (prio_changed t p s)"
  by (simp add: ipc_same_def obj_same_but_active_def)

lemma prio_changed_stat [simp]:
  "is_ready (prio_changed t p s) u = is_ready s u" "is_suspended (prio_changed t p s) u = is_suspended s u"
  "alive (prio_changed t p s) u = alive s u"
  by (simp_all add: is_ready_def is_suspended_def alive_def)

lemma prio_changed_queue:
  assumes k: "kinv s" and h: "is_wait_head h"
  shows "tq (prio_changed t p s) h = tq s h"
proof (cases "is_ready s t")
  case True
  have "t \<notin> set (tq s h)"
    using waiting_suspended[OF k, of t] stat_disjoint(1)[OF True] h by (cases h) auto
  then show ?thesis
    using h True by (auto simp: prio_changed_def insert_thread_tq remove_thread_tq)
qed (simp add: prio_changed_def)

lemma can_block_prio_changed [simp]: "can_block (prio_changed t p s) c = can_block s c"
  by (simp add: can_block_def other_ready_def)

section \<open>The invariant of a mutex\<close>

text \<open>Either nobody owns the mutex, it is available and nobody waits, or it has an owner that is
  alive, holds it at least once and does not wait for it.\<close>

definition mutex_inv :: "kernel \<Rightarrow> nat \<Rightarrow> bool" where
  "mutex_inv s i =
    (case owner (mtx s i) of
       None \<Rightarrow> mtx_value (mtx s i) = 1 \<and> hold (mtx s i) = 0 \<and> tq s (mtx_queue i) = []
     | Some t \<Rightarrow> mtx_value (mtx s i) = 0 \<and> hold (mtx s i) \<noteq> 0 \<and> t \<notin> set (tq s (mtx_queue i))
         \<and> alive s t \<and> unat (original_priority (mtx s i)) < 32)"

definition mutex_ready :: "kernel \<Rightarrow> nat \<Rightarrow> bool" where
  "mutex_ready s i =
    (rt_object_get_type (OMutex i) s = class_code RT_Object_Class_Mutex \<and> flag_ok s (OMutex i)
     \<and> mutex_inv s i)"

lemma mutex_ready_same:
  assumes "ipc_same s s'" "mutex_inv s' i" "mutex_ready s i"
  shows "mutex_ready s' i"
  using assms ipc_sameD(10)[OF assms(1)] ipc_same_flag[OF assms(1), of "OMutex i"]
  by (simp add: mutex_ready_def flag_ok_def)

lemma mutex_ready_data:
  assumes "same_but_data s s'" "mutex_inv s' i" "mutex_ready s i"
  shows "mutex_ready s' i"
  using assms same_but_dataD(3,11)[OF assms(1)] by (simp add: mutex_ready_def flag_ok_def)

lemma alive_prio: "kinv s \<Longrightarrow> alive s t \<Longrightarrow> unat (current_priority (thr s t)) < 32"
  using alive_ok[of s t] by (simp add: thread_ok_def prio_def)

section \<open>Waiting for a mutex\<close>

definition lent :: "nat \<Rightarrow> nat \<Rightarrow> kernel \<Rightarrow> kernel" where
  "lent c ow s =
    (if current_priority (thr s c) < current_priority (thr s ow)
     then prio_changed ow (current_priority (thr s c)) s else s)"

lemma lent_frame [simp]:
  "rt_current_thread (lent c ow s) = rt_current_thread s" "mtx (lent c ow s) = mtx s"
  "objs (lent c ow s) = objs s" "err (thr (lent c ow s) u) = err (thr s u)"
  "is_ready (lent c ow s) u = is_ready s u" "is_suspended (lent c ow s) u = is_suspended s u"
  "alive (lent c ow s) u = alive s u" "tstat (lent c ow s) u = tstat s u"
  "can_block (lent c ow s) c' = can_block s c'" "ipc_same s (lent c ow s)"
  by (simp_all add: lent_def prio_changed_same)

lemma lent_prio:
  "prio (lent c ow s) u = (if u = ow then min (prio s c) (prio s ow) else prio s u)"
  by (auto simp: lent_def prio_def word_less_nat_alt min_def)

lemma lent_queue: "kinv s \<Longrightarrow> is_wait_head h \<Longrightarrow> tq (lent c ow s) h = tq s h"
  by (simp add: lent_def prio_changed_queue)

lemma kinv_lent: "kinv s \<Longrightarrow> alive s c \<Longrightarrow> kinv (lent c ow s)"
  by (simp add: lent_def kinv_prio_changed alive_prio)

lemma mutex_lend_eq:
  assumes "kinv s" "alive s ow"
  shows "mutex_lend c ow s = Some (lent c ow s)"
  using thread_ok_types(2)[OF alive_ok[OF assms]]
  by (simp add: mutex_lend_def lent_def rt_thread_control_prio)

lemma rt_mutex_again_waits:
  assumes k: "kinv s" and r: "mutex_ready s i" and o: "owner (mtx s i) = Some ow"
    and b: "can_block s c" and t: "time \<noteq> 0" "time < 0x7fffffff"
  shows "\<exists>s'. rt_mutex_again i c time s = Some (Blocked, s')
    \<and> blocked (mtx_queue i) c (ipc_flag s (OMutex i)) time (lent c ow s) s'"
proof -
  have oa: "alive s ow" and v: "mtx_value (mtx s i) = 0"
    using r o by (simp_all add: mutex_ready_def mutex_inv_def)
  have ca: "alive s c" and c: "rt_current_thread s = Some c" "is_ready s c"
    using b by (simp_all add: can_block_def alive_def)
  let ?s = "lent c ow s"
  have f: "ipc_flag s (OMutex i) = RT_IPC_FLAG_FIFO \<or> ipc_flag s (OMutex i) = RT_IPC_FLAG_PRIO"
    using r by (simp add: mutex_ready_def flag_ok_def)
  have c': "rt_current_thread ?s = Some c" "is_ready ?s c" using c by simp_all
  from ipc_wait_total[OF kinv_lent[OF k ca] c' _ f t(2), of "mtx_queue i"] obtain s1 where
    s1: "ipc_wait (mtx_queue i) c (ipc_flag s (OMutex i)) time ?s = Some s1"
    "waits (mtx_queue i) c (ipc_flag s (OMutex i)) time ?s s1" by auto
  have "mutex_block i c time s = Some s1"
    using s1(1) o mutex_lend_eq[OF k oa] by (simp add: mutex_block_def)
  moreover have "can_block ?s c" using b by simp
  from waits_blocks[OF this s1(2), of "\<lambda>_. None"] obtain s' where
    "after_schedule c (\<lambda>_. None :: (rt_err call \<times> kernel) option) s1 = Some (Blocked, s')"
    "blocked (mtx_queue i) c (ipc_flag s (OMutex i)) time ?s s'" by blast
  moreover from this have "rt_schedule s1 = Some s'" "rt_current_thread s' \<noteq> Some c"
    by (auto simp: after_schedule_def bind_Some_iff split: if_splits)
  ultimately show ?thesis using v t(1) by (subst rt_mutex_again.simps) auto
qed

end
