(* ===== verification/RT_Wait.thy ===== *)
theory RT_Wait
  imports RT_Sem
begin

text \<open>The interface between the communication objects and the events that happen to their waiters
  from outside: time-outs and scheduling. An object whose invariant survives that waiters
  leave its queues keeps it under both.\<close>

section \<open>What the events do to the objects\<close>

definition ipc_kept :: "kernel \<Rightarrow> kernel \<Rightarrow> bool" where
  "ipc_kept s s' =
    (sem s' = sem s \<and> mtx s' = mtx s \<and> evt s' = evt s \<and> mbx s' = mbx s \<and> mqs s' = mqs s \<and> mps s' = mps s \<and> drv s' = drv s
     \<and> obj_same_but_active s s' \<and> (\<forall>t. alive s t \<longrightarrow> alive s' t)
     \<and> (\<forall>t. event_set (thr s' t) = event_set (thr s t) \<and> event_info (thr s' t) = event_info (thr s t))
     \<and> (\<forall>h. is_wait_head h \<longrightarrow> (\<exists>P. tq s' h = filter P (tq s h))))"

lemma ipc_keptD:
  assumes "ipc_kept s s'"
  shows "sem s' = sem s" "mtx s' = mtx s" "evt s' = evt s" "mbx s' = mbx s" "mqs s' = mqs s" "mps s' = mps s"
    "rt_object_get_type r s' = rt_object_get_type r s" "alive s t \<Longrightarrow> alive s' t"
    "event_set (thr s' t) = event_set (thr s t)" "event_info (thr s' t) = event_info (thr s t)"
    "is_wait_head h \<Longrightarrow> set (tq s' h) \<subseteq> set (tq s h)" "is_wait_head h \<Longrightarrow> tq s h = [] \<Longrightarrow> tq s' h = []"
    "(\<And>m. r \<noteq> OTimer m) \<Longrightarrow> objs s' r = objs s r" "drv s' = drv s"
proof -
  show "sem s' = sem s" "mtx s' = mtx s" "evt s' = evt s" "mbx s' = mbx s" "mqs s' = mqs s" "mps s' = mps s"
    "alive s t \<Longrightarrow> alive s' t" "event_set (thr s' t) = event_set (thr s t)"
    "event_info (thr s' t) = event_info (thr s t)" "(\<And>m. r \<noteq> OTimer m) \<Longrightarrow> objs s' r = objs s r" "drv s' = drv s"
    using assms by (simp_all add: ipc_kept_def obj_same_but_active_def)
  show "rt_object_get_type r s' = rt_object_get_type r s"
    using assms obj_same_types(1) by (simp add: ipc_kept_def)
  show "is_wait_head h \<Longrightarrow> set (tq s' h) \<subseteq> set (tq s h)" "is_wait_head h \<Longrightarrow> tq s h = [] \<Longrightarrow> tq s' h = []"
    using assms by (fastforce simp: ipc_kept_def)+
qed

lemma ipc_kept_trans:
  assumes "ipc_kept s s'" "ipc_kept s' s''"
  shows "ipc_kept s s''"
proof -
  have "\<exists>P. tq s'' h = filter P (tq s h)" if "is_wait_head h" for h
    using assms that by (auto simp: ipc_kept_def) (metis filter_filter)
  then show ?thesis using assms by (simp add: ipc_kept_def obj_same_but_active_def)
qed

lemma ipc_kept_sched: "sched_only s s' \<Longrightarrow> ipc_kept s s'"
  using sched_onlyD[of s s'] sched_only_status[of s s'] sched_only_queue[of s s']
  by (auto simp: ipc_kept_def obj_same_but_active_def alive_def is_suspended_def intro: exI[of _ "\<lambda>_. True"])

lemma set_err_event [simp]:
  "event_set (thr (set_err t e s) u) = event_set (thr s u)"
  "event_info (thr (set_err t e s) u) = event_info (thr s u)"
  by (simp_all add: kernel_defs)

lemma timed_out_frame:
  "ipc_same s (thread_timed_out t s)"
  "is_wait_head h \<Longrightarrow> tq (thread_timed_out t s) h = removeAll t (tq s h)"
  "event_set (thr (thread_timed_out t s) u) = event_set (thr s u)"
  "event_info (thr (thread_timed_out t s) u) = event_info (thr s u)"
  "alive s u \<Longrightarrow> alive (thread_timed_out t s) u"
proof -
  show "ipc_same s (thread_timed_out t s)"
    by (simp add: ipc_same_def thread_timed_out_def obj_same_but_active_def tlist_remove_def)
  show "is_wait_head h \<Longrightarrow> tq (thread_timed_out t s) h = removeAll t (tq s h)"
    by (cases h) (simp_all add: thread_timed_out_def insert_thread_tq tlist_remove_tq)
  show "event_set (thr (thread_timed_out t s) u) = event_set (thr s u)"
    "event_info (thr (thread_timed_out t s) u) = event_info (thr s u)"
    by (simp_all add: thread_timed_out_def insert_thread_thr)
  show "alive s u \<Longrightarrow> alive (thread_timed_out t s) u"
    by (simp add: alive_def is_ready_def is_suspended_def thread_timed_out_def)
qed

lemma ipc_kept_timed_out: "ipc_kept s (thread_timed_out t s)"
proof -
  note S = timed_out_frame(1)[of s t]
  have "\<exists>P. tq (thread_timed_out t s) h = filter P (tq s h)" if "is_wait_head h" for h
    using timed_out_frame(2)[OF that] by (metis removeAll_filter_not_eq)
  then show ?thesis
    using S by (simp add: ipc_kept_def ipc_same_def timed_out_frame)
qed

section \<open>Objects with waiters\<close>

locale waiting_object =
  fixes inv :: "nat \<Rightarrow> kernel \<Rightarrow> bool"
  assumes inv_kept: "inv i s \<Longrightarrow> ipc_kept s s' \<Longrightarrow> inv i s'"
begin

lemma switch_keeps:
  assumes k: "kinv s" and c: "rt_current_thread s \<noteq> None" and i: "inv i s" and r: "rt_schedule s = Some s'"
  shows "kinv s' \<and> rt_current_thread s' \<noteq> None \<and> inv i s' \<and> ipc_kept s s'"
proof -
  obtain c where "rt_current_thread s = Some c" using c by auto
  from rt_schedule_step[OF k this] r have
    s': "kinv s'" "sched_only s s'" "rt_current_thread s' \<noteq> None" by auto
  then show ?thesis using inv_kept[OF i] ipc_kept_sched by blast
qed

lemma timeout_keeps:
  assumes k: "kinv s" and c: "rt_current_thread s \<noteq> None" and i: "inv i s"
    and t: "is_suspended s t" "ThreadTimer t \<notin> set (rt_timer_list s)" and r: "rt_thread_timeout t s = Some s'"
  shows "kinv s' \<and> rt_current_thread s' \<noteq> None \<and> inv i s' \<and> ipc_kept s s'"
proof -
  let ?s = "thread_timed_out t s"
  have k': "kinv ?s" by (rule thread_timed_out_kinv[OF k t])
  have c': "rt_current_thread ?s \<noteq> None" using c by (simp add: thread_timed_out_def)
  have "rt_schedule ?s = Some s'" using r rt_thread_timeout_eq[OF k t(1)] by simp
  from switch_keeps[OF k' c' inv_kept[OF i ipc_kept_timed_out] this] show ?thesis
    using ipc_kept_trans[OF ipc_kept_timed_out] by blast
qed

text \<open>Any number of them.\<close>

lemma events_keep:
  assumes "(\<lambda>s s'. rt_schedule s = Some s' \<or> (\<exists>t. is_suspended s t
      \<and> ThreadTimer t \<notin> set (rt_timer_list s) \<and> rt_thread_timeout t s = Some s'))\<^sup>*\<^sup>* s s'"
    and "kinv s" "rt_current_thread s \<noteq> None" "inv i s"
  shows "kinv s' \<and> rt_current_thread s' \<noteq> None \<and> inv i s'"
  using assms
proof (induction rule: rtranclp_induct)
  case (step s' s'')
  then show ?case using switch_keeps[of s' i s''] timeout_keeps[of s' i _ s''] by blast
qed simp

end

interpretation semaphore: waiting_object "\<lambda>i s. sem_ready s i"
proof
  fix i s s'
  assume "sem_ready s i" "ipc_kept s s'"
  then show "sem_ready s' i"
    using ipc_keptD(1,7,12,13)[of s s'] by (simp add: sem_ready_def sem_inv_def flag_ok_def)
qed

end
