(* ===== verification/RT_Sem_Run.thy ===== *)
theory RT_Sem_Run
  imports RT_Wait
begin

text \<open>Runs of a system that uses a semaphore, as a step relation: threads take it, with or
  without waiting, threads or interrupt handlers release it, waiting threads time out, the
  scheduler switches, and a thread that waited and runs again leaves its call. The relation
  counts the calls of \<^verbatim>\<open>rt_sem_take\<close> that returned with success and the releases, and keeps the
  set of the threads that are inside a waiting \<^verbatim>\<open>rt_sem_take\<close>; such a thread makes no other call. The
  counts come from what the calls return, not from the state of the semaphore. The properties
  of semaphores are at the end.\<close>

inductive sem_run :: "nat \<Rightarrow> kernel \<Rightarrow> nat \<Rightarrow> nat \<Rightarrow> nat set \<Rightarrow> kernel \<Rightarrow> bool" for i s0 where
  start: "sem_run i s0 0 0 (set (tq s0 (sem_queue i))) s0"
| taken: "sem_run i s0 g r W s \<Longrightarrow> time = 0 \<or> can_block s c \<and> c \<notin> W \<Longrightarrow> time < 0x7fffffff
    \<Longrightarrow> rt_sem_take i time s = Some (Done RT_EOK, s') \<Longrightarrow> sem_run i s0 (Suc g) r W s'"
| refused: "sem_run i s0 g r W s \<Longrightarrow> time = 0 \<or> can_block s c \<and> c \<notin> W \<Longrightarrow> time < 0x7fffffff
    \<Longrightarrow> rt_sem_take i time s = Some (Done e, s') \<Longrightarrow> e \<noteq> RT_EOK \<Longrightarrow> sem_run i s0 g r W s'"
| waiting: "sem_run i s0 g r W s \<Longrightarrow> can_block s c \<Longrightarrow> c \<notin> W \<Longrightarrow> time < 0x7fffffff
    \<Longrightarrow> rt_sem_take i time s = Some (Blocked, s') \<Longrightarrow> sem_run i s0 g r (insert c W) s'"
| released: "sem_run i s0 g r W s \<Longrightarrow> rt_sem_release i s = Some (e, s') \<Longrightarrow> sem_run i s0 g (Suc r) W s'"
| timed_out: "sem_run i s0 g r W s \<Longrightarrow> is_suspended s t \<Longrightarrow> ThreadTimer t \<notin> set (rt_timer_list s)
    \<Longrightarrow> rt_thread_timeout t s = Some s' \<Longrightarrow> sem_run i s0 g r W s'"
| switched: "sem_run i s0 g r W s \<Longrightarrow> rt_schedule s = Some s' \<Longrightarrow> sem_run i s0 g r W s'"
| woken: "sem_run i s0 g r W s \<Longrightarrow> t \<in> W \<Longrightarrow> rt_current_thread s = Some t \<Longrightarrow> is_ready s t
    \<Longrightarrow> rt_sem_take_wake t s = Some (Done e, s')
    \<Longrightarrow> sem_run i s0 (if e = RT_EOK then Suc g else g) r (W - {t}) s'"

text \<open>The threads that were handed the semaphore and have not left their call yet.\<close>

definition sem_granted :: "nat \<Rightarrow> nat set \<Rightarrow> kernel \<Rightarrow> nat set" where
  "sem_granted i W s = {t \<in> W. t \<notin> set (tq s (sem_queue i)) \<and> err (thr s t) = RT_EOK}"

definition sem_waiters :: "nat \<Rightarrow> nat set \<Rightarrow> kernel \<Rightarrow> bool" where
  "sem_waiters i W s =
    (finite W \<and> set (tq s (sem_queue i)) \<subseteq> W \<and> (\<forall>t \<in> set (tq s (sem_queue i)). err (thr s t) = RT_EOK)
     \<and> (\<forall>t \<in> W. t \<notin> set (tq s (sem_queue i)) \<longrightarrow> is_ready s t))"

definition sem_ok :: "nat \<Rightarrow> kernel \<Rightarrow> bool" where
  "sem_ok i s = (kinv s \<and> rt_current_thread s \<noteq> None \<and> sem_ready s i)"

lemma sem_ready_same:
  assumes "ipc_same s s'" "sem_inv s' i" "sem_ready s i"
  shows "sem_ready s' i"
  using assms ipc_sameD(10)[OF assms(1)] ipc_same_flag[OF assms(1), of "OSem i"]
  by (simp add: sem_ready_def flag_ok_def)

lemma sem_ready_data:
  assumes "same_but_data s s'" "sem_inv s' i" "sem_ready s i"
  shows "sem_ready s' i"
  using assms same_but_dataD(3,11)[OF assms(1)] by (simp add: sem_ready_def flag_ok_def)

lemma blocked_current: "blocked_in h q c time s s' \<Longrightarrow> rt_current_thread s' \<noteq> None"
  by (auto simp: blocked_in_def runs_best_def)

lemma sem_take_cases:
  assumes ok: "sem_ok i s" and b: "time = 0 \<or> can_block s c" and t: "time < 0x7fffffff"
    and r: "rt_sem_take i time s = Some (x, s')"
  shows "sem_ok i s' \<and>
    ((x = Done RT_EOK \<and> sem_value (sem s i) > 0 \<and> sem_value (sem s' i) = sem_value (sem s i) - 1)
     \<or> (x \<in> {Done (- RT_ETIMEOUT), Blocked} \<and> sem_value (sem s i) = 0 \<and> sem s' = sem s))"
proof -
  have k: "kinv s" and sr: "sem_ready s i" and cu: "rt_current_thread s \<noteq> None"
    and ty: "rt_object_get_type (OSem i) s = class_code RT_Object_Class_Semaphore"
    using ok by (simp_all add: sem_ok_def sem_ready_def)
  consider "sem_value (sem s i) > 0" | "sem_value (sem s i) = 0" "time = 0"
    | "sem_value (sem s i) = 0" "time \<noteq> 0" by (auto simp: word_gt_0)
  then show ?thesis
  proof cases
    case 1
    let ?s = "upd_sem i (\<lambda>x. x\<lparr>sem_value := sem_value x - 1\<rparr>) s"
    have e: "s' = ?s" "x = Done RT_EOK" using r rt_sem_take_available[OF ty 1] by simp_all
    have d: "same_but_data s ?s" by simp
    have "sem_inv ?s i" using sr 1 same_but_dataD(1)[OF d] by (simp add: sem_inv_def sem_ready_def)
    then show ?thesis using e k cu kinv_same_but_data[OF d] same_but_dataD(7)[OF d] sem_ready_data[OF d _ sr] 1
      by (simp add: sem_ok_def kernel_defs)
  next
    case 2
    then show ?thesis using r rt_sem_take_nowait[OF ty 2(1)] ok by simp
  next
    case 3
    let ?s = "set_err c RT_EOK s"
    have "can_block s c" using b 3 by simp
    from rt_sem_take_waits[OF k sr 3(1) this 3(2) t] r have
      e: "x = Blocked" and bl: "blocked (sem_queue i) c (ipc_flag s (OSem i)) time ?s s'" by auto
    have h: "is_wait_head (sem_queue i)" by simp
    note B = blockedD[OF bl h]
    have "sem_inv s' i" using 3 B(5) by (simp add: sem_inv_def)
    then have "sem_ready s' i"
      using sem_ready_same[OF ipc_same_trans[OF ipc_same_set_err B(12)] _ sr] by simp
    then show ?thesis using e B(1,5) 3 blocked_current[OF bl] by (simp add: sem_ok_def)
  qed
qed

lemma sem_release_cases:
  assumes ok: "sem_ok i s" and r: "rt_sem_release i s = Some (e, s')"
  shows "sem_ok i s' \<and> e = RT_EOK \<and>
    (if tq s (sem_queue i) = [] then sem_value (sem s' i) = sem_value (sem s i) + 1
     else sem s' = sem s \<and> is_ready s' (hd (tq s (sem_queue i)))
       \<and> tq s' (sem_queue i) = tl (tq s (sem_queue i)))"
proof -
  have k: "kinv s" and sr: "sem_ready s i" and cu: "rt_current_thread s \<noteq> None"
    and ty: "rt_object_get_type (OSem i) s = class_code RT_Object_Class_Semaphore"
    using ok by (simp_all add: sem_ok_def sem_ready_def)
  show ?thesis
  proof (cases "tq s (sem_queue i)")
    case Nil
    let ?s = "upd_sem i (\<lambda>x. x\<lparr>sem_value := sem_value x + 1\<rparr>) s"
    have e: "s' = ?s" "e = RT_EOK" using r rt_sem_release_empty[OF ty Nil] by simp_all
    have d: "same_but_data s ?s" by simp
    have "sem_inv ?s i" using Nil same_but_dataD(1)[OF d] by (simp add: sem_inv_def)
    then show ?thesis using e k cu Nil kinv_same_but_data[OF d] same_but_dataD(7)[OF d] sem_ready_data[OF d _ sr]
      by (simp add: sem_ok_def kernel_defs)
  next
    case (Cons t ts)
    from rt_sem_release_wakes[OF k cu ty Cons] r have
      s': "e = RT_EOK" "kinv s'" "is_ready s' t" "tq s' (sem_queue i) = ts" "sem s' = sem s" "ipc_same s s'"
      by auto
    have v: "sem_value (sem s i) = 0" using sr Cons by (auto simp: sem_ready_def sem_inv_def word_gt_0)
    then have "sem_ready s' i" using sem_ready_same[OF s'(6) _ sr] s'(5) by (simp add: sem_inv_def)
    moreover have "rt_current_thread s' \<noteq> None"
    proof -
      have h: "is_wait_head (sem_queue i)" by simp
      note w = rt_ipc_list_resume_eq[OF k h Cons]
      have "rt_current_thread (thread_resumed t s) \<noteq> None" using cu by simp
      then obtain c where c: "rt_current_thread (thread_resumed t s) = Some c" by blast
      from rt_schedule_step[OF w(2) c] r show ?thesis
        by (auto simp: rt_sem_release_def ty Cons w(1) bind_Some_iff)
    qed
    ultimately show ?thesis using s' Cons by (simp add: sem_ok_def)
  qed
qed

lemma sem_timeout_case:
  assumes "sem_ok i s" "is_suspended s t" "ThreadTimer t \<notin> set (rt_timer_list s)"
    and "rt_thread_timeout t s = Some s'"
  shows "sem_ok i s' \<and> sem s' = sem s"
  using semaphore.timeout_keeps[OF _ _ _ assms(2-4), of i] ipc_keptD(1)[of s s'] assms(1)
  by (simp add: sem_ok_def)

lemma sem_switch_case:
  assumes "sem_ok i s" "rt_schedule s = Some s'"
  shows "sem_ok i s' \<and> sem s' = sem s"
  using semaphore.switch_keeps[OF _ _ _ assms(2), of i] ipc_keptD(1)[of s s'] assms(1)
  by (simp add: sem_ok_def)

section \<open>The waiting threads\<close>

lemma sem_waiters_cong:
  assumes "set (tq s' (sem_queue i)) = set (tq s (sem_queue i))"
    and "\<And>t. t \<in> W \<Longrightarrow> err (thr s' t) = err (thr s t) \<and> is_ready s' t = is_ready s t"
    and "sem_waiters i W s"
  shows "sem_waiters i W s'" "sem_granted i W s' = sem_granted i W s"
  using assms by (auto simp: sem_waiters_def sem_granted_def)

lemma sem_done_waiters:
  assumes ok: "sem_ok i s" and b: "time = 0 \<or> can_block s c" and t: "time < 0x7fffffff"
    and r: "rt_sem_take i time s = Some (Done e, s')" and w: "sem_waiters i W s"
  shows "sem_waiters i W s'" "sem_granted i W s' = sem_granted i W s"
proof -
  have k: "kinv s" and sr: "sem_ready s i"
    and ty: "rt_object_get_type (OSem i) s = class_code RT_Object_Class_Semaphore"
    using ok by (simp_all add: sem_ok_def sem_ready_def)
  have d: "same_but_data s s'"
  proof (cases "sem_value (sem s i) > 0")
    case True
    then show ?thesis using r rt_sem_take_available[OF ty True] by auto
  next
    case False
    then have v: "sem_value (sem s i) = 0" by (simp add: word_gt_0)
    show ?thesis
    proof (cases "time = 0")
      case True
      then show ?thesis using r rt_sem_take_nowait[OF ty v] by (simp add: same_but_data_def)
    next
      case False
      with b rt_sem_take_waits[OF k sr v _ False t, of c] r show ?thesis by auto
    qed
  qed
  show "sem_waiters i W s'" "sem_granted i W s' = sem_granted i W s"
    using same_but_dataD(1,2,14)[OF d] by - (rule sem_waiters_cong[OF _ _ w]; simp)+
qed

lemma sem_blocked_waiters:
  assumes ok: "sem_ok i s" and b: "can_block s c" "c \<notin> W" and t: "time < 0x7fffffff"
    and r: "rt_sem_take i time s = Some (Blocked, s')" and w: "sem_waiters i W s"
  shows "sem_waiters i (insert c W) s'" "sem_granted i (insert c W) s' = sem_granted i W s"
proof -
  have k: "kinv s" and sr: "sem_ready s i"
    and ty: "rt_object_get_type (OSem i) s = class_code RT_Object_Class_Semaphore"
    using ok by (simp_all add: sem_ok_def sem_ready_def)
  have v: "sem_value (sem s i) = 0"
    using r rt_sem_take_available[OF ty] by (cases "sem_value (sem s i) > 0") (auto simp: word_gt_0)
  have t0: "time \<noteq> 0" using r rt_sem_take_nowait[OF ty v] by auto
  let ?s = "set_err c RT_EOK s"
  from rt_sem_take_waits[OF k sr v b(1) t0 t] r have
    bl: "blocked (sem_queue i) c (ipc_flag s (OSem i)) time ?s s'" by auto
  have h: "is_wait_head (sem_queue i)" by simp
  note B = blockedD[OF bl h]
  have q: "set (tq s' (sem_queue i)) = insert c (set (tq s (sem_queue i)))" using B(4) by simp
  have e: "err (thr s' u) = (if u = c then RT_EOK else err (thr s u))" for u using B(15) by simp
  have st: "is_ready s' u = is_ready s u" if "u \<noteq> c" for u
    using B(14)[OF that] by (simp add: is_ready_def)
  show "sem_waiters i (insert c W) s'" "sem_granted i (insert c W) s' = sem_granted i W s"
    using w b(2) st unfolding sem_waiters_def sem_granted_def q e by auto
qed

lemma sem_release_step:
  assumes k: "kinv s" and cu: "rt_current_thread s \<noteq> None"
    and ty: "rt_object_get_type (OSem i) s = class_code RT_Object_Class_Semaphore"
    and q: "tq s (sem_queue i) = t # ts" and r: "rt_sem_release i s = Some (e, s')"
  shows "err (thr s' u) = err (thr s u)" "is_ready s' u = (u = t \<or> is_ready s u)"
    "tq s' (sem_queue i) = ts" "prio s' u = prio s u"
proof -
  have h: "is_wait_head (sem_queue i)" by simp
  note rs = rt_ipc_list_resume_eq[OF k h q]
  let ?r = "thread_resumed t s"
  have "rt_current_thread ?r \<noteq> None" using cu by simp
  from schedule_after[OF rs(2) this rs(4)] r have so: "sched_only ?r s'"
    by (auto simp: rt_sem_release_def ty q rs(1))
  show "err (thr s' u) = err (thr s u)"
    using sched_onlyD(3)[OF so] by (simp add: thread_resumed_thr)
  show "is_ready s' u = (u = t \<or> is_ready s u)"
    using sched_only_status(3)[OF so] by (simp add: is_ready_def)
  show "tq s' (sem_queue i) = ts" using sched_only_queue[OF so h] rs(5) by simp
  show "prio s' u = prio s u" using sched_only_status(2)[OF so] by simp
qed

lemma sem_release_waiters:
  assumes ok: "sem_ok i s" and r: "rt_sem_release i s = Some (e, s')" and w: "sem_waiters i W s"
  shows "sem_waiters i W s' \<and> (case tq s (sem_queue i) of
      [] \<Rightarrow> sem_granted i W s' = sem_granted i W s
    | t # _ \<Rightarrow> sem_granted i W s' = insert t (sem_granted i W s) \<and> t \<notin> sem_granted i W s)"
proof (cases "tq s (sem_queue i)")
  case Nil
  have ty: "rt_object_get_type (OSem i) s = class_code RT_Object_Class_Semaphore"
    using ok by (simp add: sem_ok_def sem_ready_def)
  have d: "same_but_data s s'" using r rt_sem_release_empty[OF ty Nil] by auto
  have "sem_waiters i W s'" "sem_granted i W s' = sem_granted i W s"
    using same_but_dataD(1,2,14)[OF d]
    by - (rule sem_waiters_cong[OF _ _ w]; simp)+
  then show ?thesis by (simp add: Nil)
next
  case (Cons t ts)
  have k: "kinv s" and cu: "rt_current_thread s \<noteq> None"
    and ty: "rt_object_get_type (OSem i) s = class_code RT_Object_Class_Semaphore"
    using ok by (simp_all add: sem_ok_def sem_ready_def)
  note R = sem_release_step[OF k cu ty Cons r]
  have "t \<notin> set ts" using queue_distinct[OF k, of "sem_queue i"] Cons by simp
  then show ?thesis
    using w unfolding sem_waiters_def sem_granted_def R Cons by auto
qed

lemma sem_timeout_waiters:
  assumes ok: "sem_ok i s" and t: "is_suspended s t" "ThreadTimer t \<notin> set (rt_timer_list s)"
    and r: "rt_thread_timeout t s = Some s'" and w: "sem_waiters i W s"
  shows "sem_waiters i W s'" "sem_granted i W s' = sem_granted i W s"
proof -
  have k: "kinv s" and cu: "rt_current_thread s \<noteq> None" using ok by (simp_all add: sem_ok_def)
  let ?u = "thread_timed_out t s"
  from timed_out_step[OF k t cu] r have
    f: "is_ready s' t" "err (thr s' t) = - RT_ETIMEOUT" "\<And>u. u \<noteq> t \<Longrightarrow> tstat s' u = tstat s u"
    "\<And>u. u \<noteq> t \<Longrightarrow> err (thr s' u) = err (thr s u)" by auto
  have "rt_current_thread ?u \<noteq> None" using cu by (simp add: thread_timed_out_def)
  moreover have "is_ready ?u t" by (simp add: is_ready_def thread_timed_out_def)
  moreover have h: "is_wait_head (sem_queue i)" by simp
  ultimately have q: "tq s' (sem_queue i) = removeAll t (tq s (sem_queue i))"
    using schedule_after[OF thread_timed_out_kinv[OF k t], of t] rt_thread_timeout_eq[OF k t(1)] r
      timed_out_frame(2)[OF h] sched_only_queue[OF _ h] by fastforce
  have nr: "\<not> is_ready s t" using t(1) stat_disjoint by blast
  have st: "is_ready s' u = (u = t \<or> is_ready s u)" for u
    using f(1) f(3)[of u] by (cases "u = t") (simp_all add: is_ready_def)
  have e: "err (thr s' u) = (if u = t then - RT_ETIMEOUT else err (thr s u))" for u using f(2,4) by simp
  have ne: "- RT_ETIMEOUT \<noteq> RT_EOK" by (simp add: RT_ETIMEOUT_def RT_EOK_def)
  show "sem_waiters i W s'" "sem_granted i W s' = sem_granted i W s"
    using w nr ne unfolding sem_waiters_def sem_granted_def q e st by (auto split: if_splits)
qed

lemma sem_switch_waiters:
  assumes ok: "sem_ok i s" and r: "rt_schedule s = Some s'" and w: "sem_waiters i W s"
  shows "sem_waiters i W s'" "sem_granted i W s' = sem_granted i W s"
proof -
  obtain c where "rt_current_thread s = Some c" "kinv s" using ok by (auto simp: sem_ok_def)
  from rt_schedule_step[OF this(2,1)] r have so: "sched_only s s'" by auto
  have h: "is_wait_head (sem_queue i)" by simp
  show "sem_waiters i W s'" "sem_granted i W s' = sem_granted i W s"
    using sched_only_queue[OF so h] sched_onlyD(3)[OF so] sched_only_status(3)[OF so]
    by - (rule sem_waiters_cong[OF _ _ w]; simp)+
qed

lemma sem_wake_waiters:
  assumes "sem_waiters i W s" "t \<in> W" "kinv s" "is_ready s t" "rt_sem_take_wake t s = Some (Done e, s')"
  shows "s' = s" "sem_waiters i (W - {t}) s"
    "card (sem_granted i W s) = card (sem_granted i (W - {t}) s) + (if e = RT_EOK then 1 else 0)"
proof -
  have q: "t \<notin> set (tq s (sem_queue i))"
    using waiting_suspended(1)[OF assms(3), of t] assms(4) stat_disjoint by blast
  show "s' = s" using assms(5) by (auto simp: rt_sem_take_wake_def split: if_splits)
  show "sem_waiters i (W - {t}) s" using assms(1) q by (auto simp: sem_waiters_def)
  have fin: "finite (sem_granted i (W - {t}) s)" using assms(1) by (simp add: sem_waiters_def sem_granted_def)
  have "sem_granted i W s = (if e = RT_EOK then insert t (sem_granted i (W - {t}) s) else sem_granted i (W - {t}) s)"
    using assms(2,5) q by (auto simp: sem_granted_def rt_sem_take_wake_def split: if_splits)
  moreover have "t \<notin> sem_granted i (W - {t}) s" by (simp add: sem_granted_def)
  ultimately show "card (sem_granted i W s) = card (sem_granted i (W - {t}) s) + (if e = RT_EOK then 1 else 0)"
    using fin by simp
qed

text \<open>The balance of a run.\<close>

definition sem_balanced :: "nat \<Rightarrow> kernel \<Rightarrow> nat \<Rightarrow> nat \<Rightarrow> nat set \<Rightarrow> kernel \<Rightarrow> bool" where
  "sem_balanced i s0 g r W s =
    (sem_ok i s \<and> sem_waiters i W s
     \<and> sem_value (sem s0 i) + of_nat r = sem_value (sem s i) + of_nat (g + card (sem_granted i W s)))"

lemma sem_balancedD:
  assumes "sem_balanced i s0 g r W s"
  shows "sem_ok i s" "sem_waiters i W s" "kinv s"
    "sem_value (sem s0 i) + of_nat r = sem_value (sem s i) + of_nat (g + card (sem_granted i W s))"
  using assms by (simp_all add: sem_balanced_def sem_ok_def)

lemma sem_run_conserves:
  assumes "sem_run i s0 g r W s" "sem_ok i s0" "\<forall>t \<in> set (tq s0 (sem_queue i)). err (thr s0 t) = RT_EOK"
  shows "sem_balanced i s0 g r W s"
  using assms
proof (induction rule: sem_run.induct)
  case start
  then have "sem_granted i (set (tq s0 (sem_queue i))) s0 = {}" by (auto simp: sem_granted_def)
  then show ?case using start by (simp add: sem_balanced_def sem_waiters_def)
next
  case (taken g r W s time c s')
  note D = sem_balancedD[OF taken.IH[OF taken.prems]]
  have b: "time = 0 \<or> can_block s c" using taken(2) by blast
  from sem_take_cases[OF D(1) b taken(3,4)]
  have "sem_ok i s'" "sem_value (sem s' i) = sem_value (sem s i) - 1" by (auto simp: RT_ETIMEOUT_def RT_EOK_def)
  then show ?case using D(4) sem_done_waiters[OF D(1) b taken(3,4) D(2)] by (simp add: sem_balanced_def)
next
  case (refused g r W s time c e s')
  note D = sem_balancedD[OF refused.IH[OF refused.prems]]
  have b: "time = 0 \<or> can_block s c" using refused(2) by blast
  from sem_take_cases[OF D(1) b refused(3,4)] refused(5) have "sem_ok i s'" "sem s' = sem s" by auto
  then show ?case using D(4) sem_done_waiters[OF D(1) b refused(3,4) D(2)] by (simp add: sem_balanced_def)
next
  case (waiting g r W s c time s')
  note D = sem_balancedD[OF waiting.IH[OF waiting.prems]]
  have b: "time = 0 \<or> can_block s c" using waiting(2) by blast
  from sem_take_cases[OF D(1) b waiting(4,5)] have "sem_ok i s'" "sem s' = sem s" by auto
  then show ?case using D(4) sem_blocked_waiters[OF D(1) waiting(2,3,4,5) D(2)] by (simp add: sem_balanced_def)
next
  case (released g r W s e s')
  note D = sem_balancedD[OF released.IH[OF released.prems]]
  note C = sem_release_cases[OF D(1) released(2)] and R = sem_release_waiters[OF D(1) released(2) D(2)]
  show ?case
  proof (cases "tq s (sem_queue i)")
    case Nil
    then show ?thesis using C R D(4) by (simp add: sem_balanced_def algebra_simps)
  next
    case (Cons t ts)
    have "finite (sem_granted i W s)" using D(2) by (simp add: sem_waiters_def sem_granted_def)
    then have "card (sem_granted i W s') = Suc (card (sem_granted i W s))" using R Cons by simp
    then show ?thesis using C R D(4) Cons by (simp add: sem_balanced_def algebra_simps)
  qed
next
  case (timed_out g r W s t s')
  note D = sem_balancedD[OF timed_out.IH[OF timed_out.prems]]
  show ?case using D(4) sem_timeout_case[OF D(1) timed_out(2-4)] sem_timeout_waiters[OF D(1) timed_out(2-4) D(2)]
    by (simp add: sem_balanced_def)
next
  case (switched g r W s s')
  note D = sem_balancedD[OF switched.IH[OF switched.prems]]
  show ?case using D(4) sem_switch_case[OF D(1) switched(2)] sem_switch_waiters[OF D(1) switched(2) D(2)]
    by (simp add: sem_balanced_def)
next
  case (woken g r W s t e s')
  note D = sem_balancedD[OF woken.IH[OF woken.prems]]
  show ?case using D(1,4) sem_wake_waiters[OF D(2) woken(2) D(3) woken(4,5)]
    by (auto simp: sem_balanced_def algebra_simps)
qed

section \<open>Properties\<close>

text \<open>Taking a semaphore. With a positive value the value is decremented and the call
  succeeds; with value 0 and no waiting time it fails with a timeout and changes nothing;
  otherwise the thread stands in the wait queue, at the end or after the threads that are
  not less urgent, its timer runs if there is a waiting time, and another thread runs.\<close>

theorem rt_sem_take_correct:
  assumes "kinv s" "sem_ready s i" "can_block s c" "time < 0x7fffffff"
  shows "(sem_value (sem s i) > 0 \<longrightarrow> rt_sem_take i time s
             = Some (Done RT_EOK, upd_sem i (\<lambda>x. x\<lparr>sem_value := sem_value x - 1\<rparr>) s))
    \<and> (sem_value (sem s i) = 0 \<and> time = 0 \<longrightarrow> rt_sem_take i time s = Some (Done (- RT_ETIMEOUT), s))
    \<and> (sem_value (sem s i) = 0 \<and> time \<noteq> 0 \<longrightarrow> (\<exists>s'. rt_sem_take i time s = Some (Blocked, s')
          \<and> kinv s' \<and> is_suspended s' c \<and> runs_best s'
          \<and> tq s' (sem_queue i) = wait_insert (ipc_flag s (OSem i)) s c (tq s (sem_queue i))
          \<and> sem s' = sem s))"
proof -
  have ty: "rt_object_get_type (OSem i) s = class_code RT_Object_Class_Semaphore"
    using assms(2) by (simp add: sem_ready_def)
  have "\<exists>s'. rt_sem_take i time s = Some (Blocked, s') \<and> kinv s' \<and> is_suspended s' c \<and> runs_best s'
      \<and> tq s' (sem_queue i) = wait_insert (ipc_flag s (OSem i)) s c (tq s (sem_queue i)) \<and> sem s' = sem s"
    if "sem_value (sem s i) = 0" "time \<noteq> 0"
    using rt_sem_take_waits[OF assms(1,2) that(1) assms(3) that(2) assms(4)]
      blockedD[of "sem_queue i" _ c time "set_err c RT_EOK s"] by (fastforce simp: wait_insert_def)
  then show ?thesis
    using rt_sem_take_available[OF ty] rt_sem_take_nowait[OF ty] by auto
qed

lemma can_block_demo: "can_block demo 0"
  by (auto simp: can_block_def other_ready_def)

lemma sem_ready_demo: "sem_ready demo i"
  by (simp add: sem_ready_def flag_ok_def sem_inv_def RT_IPC_FLAG_FIFO_def del: class_code.simps)

lemma rt_sem_take_correct_witness:
  "\<exists>s'. rt_sem_take 0 5 demo = Some (Blocked, s') \<and> is_suspended s' 0 \<and> tq s' (sem_queue 0) = [3, 0]"
  using rt_sem_take_correct[OF kinv_demo sem_ready_demo can_block_demo, of 5 0]
  by (auto simp: wait_insert_def RT_IPC_FLAG_FIFO_def)

text \<open>Releasing a semaphore never fails: the first waiter gets it and becomes ready, the
  value staying 0, or, when nobody waits, the value grows by one modulo 2 to the 16.\<close>

theorem rt_sem_release_correct:
  assumes "sem_ok i s"
  shows "\<exists>s'. rt_sem_release i s = Some (RT_EOK, s') \<and> sem_ok i s' \<and>
    (if tq s (sem_queue i) = [] then sem_value (sem s' i) = sem_value (sem s i) + 1
     else sem s' = sem s \<and> is_ready s' (hd (tq s (sem_queue i)))
       \<and> tq s' (sem_queue i) = tl (tq s (sem_queue i)))"
proof -
  have k: "kinv s" "rt_current_thread s \<noteq> None"
    and ty: "rt_object_get_type (OSem i) s = class_code RT_Object_Class_Semaphore"
    using assms by (simp_all add: sem_ok_def sem_ready_def)
  obtain s' where "rt_sem_release i s = Some (RT_EOK, s')"
    using rt_sem_release_empty[OF ty] rt_sem_release_wakes[OF k ty] by (cases "tq s (sem_queue i)") auto
  then show ?thesis using sem_release_cases[OF assms] by auto
qed

lemma rt_sem_release_correct_witness:
  "\<exists>s'. rt_sem_release 0 demo = Some (RT_EOK, s') \<and> is_ready s' 3 \<and> tq s' (sem_queue 0) = []"
proof -
  have "sem_ok 0 demo" by (simp add: sem_ok_def sem_ready_demo)
  from rt_sem_release_correct[OF this] show ?thesis by auto
qed

text \<open>C8. No release is lost. In every run from a state in which the waiters of the semaphore have
  no error yet, the initial value plus the releases equals the value plus the calls of
  \<^verbatim>\<open>rt_sem_take\<close> that returned with success plus the threads that a release has woken and that
  have not left their call yet, modulo 2 to the 16. Every thread inside a waiting call stands
  in the wait queue, or is ready to run and leave its call; a semaphore with a positive value
  has no waiters.\<close>

theorem sem_conservation:
  assumes "sem_run i s0 g r W s" "sem_ok i s0" "\<forall>t \<in> set (tq s0 (sem_queue i)). err (thr s0 t) = RT_EOK"
  shows "sem_value (sem s0 i) + of_nat r
      = sem_value (sem s i) + of_nat g
        + of_nat (card {t \<in> W. t \<notin> set (tq s (sem_queue i)) \<and> err (thr s t) = RT_EOK})
    \<and> (\<forall>t \<in> W. t \<in> set (tq s (sem_queue i)) \<or> is_ready s t)
    \<and> set (tq s (sem_queue i)) \<subseteq> W \<and> finite W
    \<and> (sem_value (sem s i) > 0 \<longrightarrow> tq s (sem_queue i) = []) \<and> kinv s"
  using sem_run_conserves[OF assms]
  by (auto simp: sem_balanced_def sem_waiters_def sem_granted_def sem_ok_def sem_ready_def sem_inv_def
      algebra_simps)

text \<open>Thread 3 waits for semaphore 0 in the state \<^verbatim>\<open>demo\<close>. A release wakes it, it is the most urgent
  thread, runs and leaves its call with success: one release, one call that succeeded.\<close>

lemma sem_conservation_witness:
  "\<exists>s. sem_run 0 demo 1 1 {} s \<and> tq s (sem_queue 0) = [] \<and> sem_value (sem s 0) = 0"
proof -
  have ok: "sem_ok 0 demo" by (simp add: sem_ok_def sem_ready_demo)
  have k: "kinv demo" "rt_current_thread demo \<noteq> None"
    "rt_object_get_type (OSem 0) demo = class_code RT_Object_Class_Semaphore" by simp_all
  have q: "tq demo (sem_queue 0) = 3 # []" by simp
  from rt_sem_release_wakes[OF k q] obtain s where
    s: "rt_sem_release 0 demo = Some (RT_EOK, s)" "kinv s" "is_ready s 3" "tq s (sem_queue 0) = []"
    "sem s = sem demo" "err (thr s 3) = RT_EOK" "runs_best s" by (auto simp: RT_EOK_def)
  have run: "sem_run 0 demo 0 1 {3} s"
    using sem_run.released[OF sem_run.start s(1)] by simp
  have e: "\<forall>t \<in> set (tq demo (sem_queue 0)). err (thr demo t) = RT_EOK" by (simp add: RT_EOK_def)
  have cur: "rt_current_thread s = Some 3"
    using s(7) sem_release_step(2,4)[OF k q s(1)] by (auto simp: runs_best_def)
  have w: "rt_sem_take_wake 3 s = Some (Done RT_EOK, s)" using s(6) by (simp add: rt_sem_take_wake_def)
  from sem_run.woken[OF run _ cur s(3) w] have run2: "sem_run 0 demo 1 1 {} s" by simp
  from sem_conservation[OF this ok e] have "sem_value (sem s 0) = 0" by simp
  with run2 s(4) show ?thesis by blast
qed

text \<open>C40. A thread that takes an unavailable semaphore while the scheduler is locked does not
  lose the processor: the call returns RT\_EOK although the semaphore was not available, and
  the thread, still running, stays in the wait queue as a suspended thread.\<close>

theorem rt_sem_take_locked:
  assumes "kinv s" "sem_ready s i" "sem_value (sem s i) = 0" "rt_current_thread s = Some c" "is_ready s c"
    and "rt_scheduler_lock_nest s \<noteq> 0" "rt_interrupt_nest s = 0" "time \<noteq> 0" "time < 0x7fffffff"
  shows "\<exists>s'. rt_sem_take i time s = Some (Done RT_EOK, s') \<and> sem s' = sem s
    \<and> rt_current_thread s' = Some c \<and> is_suspended s' c \<and> c \<in> set (tq s' (sem_queue i))"
proof -
  let ?s = "set_err c RT_EOK s"
  have c: "rt_current_thread ?s = Some c" "is_ready ?s c" "kinv ?s" using assms by simp_all
  have f: "ipc_flag s (OSem i) = RT_IPC_FLAG_FIFO \<or> ipc_flag s (OSem i) = RT_IPC_FLAG_PRIO"
    using assms(2) by (simp add: sem_ready_def flag_ok_def)
  from ipc_wait_total[OF c(3,1,2) _ f assms(9), of "sem_queue i"] obtain s1 where
    s1: "ipc_wait (sem_queue i) c (ipc_flag s (OSem i)) time ?s = Some s1"
    "waits (sem_queue i) c (ipc_flag s (OSem i)) time ?s s1" by auto
  have same: "ipc_same ?s s1" using s1(2) by (simp add: waits_in_def)
  have "rt_scheduler_lock_nest s1 \<noteq> 0" using assms(6) ipc_sameD(7)[OF same] by simp
  from rt_schedule_locked[OF this] show ?thesis
    using s1 assms ipc_sameD(1)[OF same]
    by (intro exI[of _ s1])
      (auto simp: rt_sem_take_def sem_ready_def in_thread_context_def not_in_interrupt_def
        rt_thread_self_def after_schedule_def rt_sem_take_wake_def waits_in_def is_suspended_def)
qed

lemma rt_sem_take_locked_witness:
  "\<exists>s'. rt_sem_take 1 5 (rt_enter_critical demo) = Some (Done RT_EOK, s') \<and> sem_value (sem s' 1) = 0"
proof -
  let ?s = "rt_enter_critical demo"
  have "kinv ?s" by (rule rt_enter_critical_kinv) simp
  moreover have "sem_ready ?s 1"
    using sem_ready_demo[of 1]
    by (simp add: sem_ready_def flag_ok_def sem_inv_def rt_enter_critical_def rt_object_get_type_def)
  moreover have "is_ready ?s 0" by (simp add: rt_enter_critical_def stat_defs flag_simps)
  ultimately have "\<exists>s'. rt_sem_take 1 5 ?s = Some (Done RT_EOK, s') \<and> sem s' = sem ?s
    \<and> rt_current_thread s' = Some 0 \<and> is_suspended s' 0 \<and> 0 \<in> set (tq s' (sem_queue 1))"
    by (intro rt_sem_take_locked) (simp_all add: rt_enter_critical_def)
  then show ?thesis by (auto simp: rt_enter_critical_def)
qed

end
