(* ===== verification/RT_Mutex_Run.thy ===== *)
theory RT_Mutex_Run
  imports RT_Mutex RT_Sem_Run
begin

text \<open>The mutex operations on every branch, and runs of a system that uses a mutex as a step
  relation, which records how often each thread holds it. The properties are mutual
  exclusion, release by the owner only, and priority inheritance.\<close>

definition mutex_ok :: "nat \<Rightarrow> kernel \<Rightarrow> bool" where
  "mutex_ok i s = (kinv s \<and> rt_current_thread s \<noteq> None \<and> mutex_ready s i)"

section \<open>Taking\<close>

lemma alive_set_err [simp]: "alive (set_err t e s) = alive s"
  by (auto simp: alive_def fun_eq_iff)

lemma mutex_ready_set_err [simp]: "mutex_ready (set_err t e s) i = mutex_ready s i"
  by (simp add: mutex_ready_def flag_ok_def mutex_inv_def cong: option.case_cong)

lemma mutex_take_owned:
  assumes r: "mutex_ready s i" and b: "can_block s c" and o: "owner (mtx s i) = Some c"
    and h: "hold (mtx s i) \<noteq> 0xff" and k: "kinv s"
  shows "\<exists>s'. rt_mutex_take i time s = Some (Done RT_EOK, s') \<and> mutex_ok i s'
    \<and> owner (mtx s' i) = Some c \<and> hold (mtx s' i) = hold (mtx s i) + 1
    \<and> original_priority (mtx s' i) = original_priority (mtx s i) \<and> prio s' = prio s"
proof -
  let ?e = "set_err c RT_EOK s"
  let ?s = "upd_mtx i (\<lambda>m. m\<lparr>hold := hold m + 1\<rparr>) ?e"
  have c: "rt_current_thread s = Some c" using b by (simp add: can_block_def)
  have d: "same_but_data ?e ?s" by simp
  note D = same_but_dataD[OF d]
  have e: "rt_mutex_take i time s = Some (Done RT_EOK, ?s)"
    using r c o in_thread_context_ok[OF b] by (simp add: rt_mutex_take_def mutex_ready_def rt_thread_self_def)
  have ne: "hold (mtx s i) + 1 \<noteq> 0"
  proof
    assume "hold (mtx s i) + 1 = 0"
    then have "hold (mtx s i) = - 1" by (metis add.commute add_eq_0_iff)
    then show False using h by simp
  qed
  have "alive ?s = alive ?e" using D(12) by (rule stat_cong(4))
  then have "alive ?s = alive s" by simp
  then have "mutex_inv ?s i"
    using r o ne D(1) by (simp add: mutex_inv_def mutex_ready_def upd_mtx_def)
  then have "mutex_ready ?s i" using mutex_ready_data[OF d] r by simp
  then have "mutex_ok i ?s" using k c kinv_same_but_data[OF d] D(7) by (simp add: mutex_ok_def)
  moreover have "prio ?s = prio s" using D(13) by simp
  moreover have "mtx ?s i = (mtx s i)\<lparr>hold := hold (mtx s i) + 1\<rparr>" by (simp add: upd_mtx_def)
  ultimately show ?thesis using e o by (intro exI[of _ ?s]) simp
qed

lemma mutex_take_free:
  assumes r: "mutex_ready s i" and b: "can_block s c" and o: "owner (mtx s i) = None" and k: "kinv s"
  shows "\<exists>s'. rt_mutex_take i time s = Some (Done RT_EOK, s') \<and> mutex_ok i s'
    \<and> owner (mtx s' i) = Some c \<and> hold (mtx s' i) = 1 \<and> mtx_value (mtx s' i) = 0
    \<and> original_priority (mtx s' i) = current_priority (thr s c) \<and> prio s' = prio s"
proof -
  let ?e = "set_err c RT_EOK s"
  let ?s = "mutex_grab i c ?e"
  have c: "rt_current_thread s = Some c" "is_ready s c" using b by (simp_all add: can_block_def)
  have d: "same_but_data ?e ?s" by (simp add: mutex_grab_def)
  note D = same_but_dataD[OF d]
  have v: "mtx_value (mtx s i) = 1" "hold (mtx s i) = 0" "tq s (mtx_queue i) = []"
    using r o by (simp_all add: mutex_ready_def mutex_inv_def)
  have e: "rt_mutex_take i time s = Some (Done RT_EOK, ?s)"
    using r c o v in_thread_context_ok[OF b]
    by (simp add: rt_mutex_take_def mutex_ready_def rt_thread_self_def) (subst rt_mutex_again.simps, simp)
  have a: "alive s c" using c by (simp add: alive_def)
  have "alive ?s = alive ?e" using D(12) by (rule stat_cong(4))
  then have "alive ?s = alive s" by simp
  moreover have "unat (current_priority (thr s c)) < 32" by (rule alive_prio[OF k a])
  moreover have m: "mtx ?s i = (mtx s i)\<lparr>mtx_value := 0, owner := Some c,
      original_priority := current_priority (thr s c), hold := 1\<rparr>"
    using v by (simp add: mutex_grab_def upd_mtx_def) (simp add: kernel_defs)
  ultimately have "mutex_inv ?s i" using v D(1) a by (simp add: mutex_inv_def)
  then have "mutex_ready ?s i" using mutex_ready_data[OF d] r by simp
  then have "mutex_ok i ?s" using k c kinv_same_but_data[OF d] D(7) by (simp add: mutex_ok_def)
  then show ?thesis using e m D(13) by (intro exI[of _ ?s]) simp
qed

lemma mutex_take_refused:
  assumes r: "mutex_ready s i" and b: "can_block s c" and o: "owner (mtx s i) = Some ow" "ow \<noteq> c"
    and k: "kinv s"
  shows "rt_mutex_take i 0 s = Some (Done (- RT_ETIMEOUT), set_err c (- RT_ETIMEOUT) s)"
    "mutex_ok i (set_err c (- RT_ETIMEOUT) s)"
proof -
  have c: "rt_current_thread s = Some c" using b by (simp add: can_block_def)
  have v: "mtx_value (mtx s i) = 0" using r o by (simp add: mutex_ready_def mutex_inv_def)
  have "set_err c (- RT_ETIMEOUT) (set_err c RT_EOK s) = set_err c (- RT_ETIMEOUT) s"
    by (simp add: kernel_defs)
  then show "rt_mutex_take i 0 s = Some (Done (- RT_ETIMEOUT), set_err c (- RT_ETIMEOUT) s)"
    using r c o v in_thread_context_ok[OF b]
    by (simp add: rt_mutex_take_def mutex_ready_def rt_thread_self_def) (subst rt_mutex_again.simps, simp)
  show "mutex_ok i (set_err c (- RT_ETIMEOUT) s)" using k r c by (simp add: mutex_ok_def)
qed

lemma mutex_take_waits:
  assumes r: "mutex_ready s i" and b: "can_block s c" and o: "owner (mtx s i) = Some ow" "ow \<noteq> c"
    and t: "time \<noteq> 0" "time < 0x7fffffff" and k: "kinv s"
  shows "\<exists>s'. rt_mutex_take i time s = Some (Blocked, s') \<and> mutex_ok i s' \<and> mtx s' = mtx s
    \<and> is_suspended s' c \<and> runs_best s' \<and> c \<in> set (tq s' (mtx_queue i))
    \<and> prio s' = (prio s)(ow := min (prio s c) (prio s ow))"
proof -
  let ?e = "set_err c RT_EOK s"
  let ?l = "lent c ow ?e"
  have c: "rt_current_thread s = Some c" using b by (simp add: can_block_def)
  have h: "is_wait_head (mtx_queue i)" by simp
  have "kinv ?e" "mutex_ready ?e i" "owner (mtx ?e i) = Some ow" "can_block ?e c" using k r o b by simp_all
  from rt_mutex_again_waits[OF this t] obtain s' where
    s': "rt_mutex_again i c time ?e = Some (Blocked, s')"
    "blocked (mtx_queue i) c (ipc_flag ?e (OMutex i)) time ?l s'" by blast
  note B = blockedD[OF s'(2) h]
  have e: "rt_mutex_take i time s = Some (Blocked, s')"
    using r c o s'(1) in_thread_context_ok[OF b] by (simp add: rt_mutex_take_def mutex_ready_def rt_thread_self_def)
  have m: "mtx s' = mtx s" using B(6) by simp
  have q: "set (tq s' (mtx_queue i)) = insert c (set (tq s (mtx_queue i)))"
    using B(4) lent_queue[OF \<open>kinv ?e\<close> h] by simp
  have "alive s ow" "mutex_inv s i" using r o by (simp_all add: mutex_ready_def mutex_inv_def)
  moreover have "tstat s' ow = tstat s ow" using B(14)[of ow] o(2) by simp
  ultimately have "mutex_inv s' i"
    using o q m by (simp add: mutex_inv_def alive_def is_ready_def is_suspended_def)
  moreover have "ipc_same ?e ?l" by simp
  then have "ipc_same s s'" using ipc_same_set_err ipc_same_trans B(12) by blast
  ultimately have "mutex_ready s' i" using mutex_ready_same r by blast
  then have "mutex_ok i s'" using B(1) blocked_current[OF s'(2)] by (simp add: mutex_ok_def)
  moreover have "prio s' = (prio s)(ow := min (prio s c) (prio s ow))"
    using B(13) o(2) by (auto simp: lent_prio)
  ultimately show ?thesis using e m B(2,3) q by auto
qed

section \<open>Releasing\<close>

lemma mutex_release_not_owner:
  assumes r: "mutex_ready s i" and b: "rt_current_thread s = Some c" "rt_interrupt_nest s = 0"
    and o: "owner (mtx s i) \<noteq> Some c"
  shows "rt_mutex_release i s = Some (- RT_ERROR, set_err c (- RT_ERROR) s)"
  using assms by (simp add: rt_mutex_release_def mutex_ready_def in_thread_context_def
      not_in_interrupt_def rt_thread_self_def)

definition held_less :: "nat \<Rightarrow> kernel \<Rightarrow> kernel" where
  "held_less i s = upd_mtx i (\<lambda>m. m\<lparr>hold := hold m - 1\<rparr>) s"

lemma mutex_release_nested:
  assumes r: "mutex_ok i s" and b: "rt_current_thread s = Some c" "rt_interrupt_nest s = 0"
    and o: "owner (mtx s i) = Some c" and h: "hold (mtx s i) \<noteq> 1"
  shows "rt_mutex_release i s = Some (RT_EOK, held_less i s)" "mutex_ok i (held_less i s)"
proof -
  have rr: "mutex_ready s i" "kinv s" using r by (simp_all add: mutex_ok_def)
  have m: "mtx (held_less i s) i = (mtx s i)\<lparr>hold := hold (mtx s i) - 1\<rparr>"
    by (simp add: held_less_def upd_mtx_def)
  have h': "hold (mtx s i) - 1 \<noteq> 0" using h by simp
  have d: "same_but_data s (held_less i s)" by (simp add: held_less_def)
  note D = same_but_dataD[OF d]
  show "rt_mutex_release i s = Some (RT_EOK, held_less i s)"
    using rr b o h' m by (simp add: rt_mutex_release_def mutex_ready_def in_thread_context_def
        not_in_interrupt_def rt_thread_self_def held_less_def[symmetric] Let_def)
  have "alive (held_less i s) = alive s" using D(12) by (rule stat_cong(4))
  then have "mutex_inv (held_less i s) i"
    using rr o h' m D(1) by (simp add: mutex_inv_def mutex_ready_def)
  then show "mutex_ok i (held_less i s)"
    using rr b mutex_ready_data[OF d] kinv_same_but_data[OF d] D(7) by (simp add: mutex_ok_def)
qed

text \<open>The last release restores the priority of the owner; what follows depends on whether a
  thread waits.\<close>

definition restored :: "nat \<Rightarrow> nat \<Rightarrow> kernel \<Rightarrow> kernel" where
  "restored i c s =
    (if original_priority (mtx s i) \<noteq> current_priority (thr s c)
     then prio_changed c (original_priority (mtx s i)) (held_less i s) else held_less i s)"

lemma restored_facts:
  assumes r: "mutex_ok i s" and c: "rt_current_thread s = Some c" and o: "owner (mtx s i) = Some c"
  shows "kinv (restored i c s)" "rt_current_thread (restored i c s) = Some c"
    "mtx (restored i c s) = mtx (held_less i s)" "objs (restored i c s) = objs s"
    "is_wait_head h \<Longrightarrow> tq (restored i c s) h = tq s h" "tstat (restored i c s) u = tstat s u"
    "prio (restored i c s) = (prio s)(c := unat (original_priority (mtx s i)))"
    "rt_scheduler_lock_nest (restored i c s) = rt_scheduler_lock_nest s"
    "err (thr (restored i c s) u) = err (thr s u)"
    "rt_thread_control c RT_THREAD_CTRL_CHANGE_PRIORITY p (held_less i s)
      = Some (RT_EOK, prio_changed c p (held_less i s))"
proof -
  have rr: "mutex_inv s i" "kinv s" using r by (simp_all add: mutex_ok_def mutex_ready_def)
  have a: "alive s c" "unat (original_priority (mtx s i)) < 32" using rr o by (simp_all add: mutex_inv_def)
  have d: "same_but_data s (held_less i s)" by (simp add: held_less_def)
  note D = same_but_dataD[OF d]
  have k: "kinv (held_less i s)" using rr kinv_same_but_data[OF d] by simp
  show "kinv (restored i c s)" using k kinv_prio_changed[OF k a(2)] by (simp add: restored_def)
  show "rt_current_thread (restored i c s) = Some c" "objs (restored i c s) = objs s"
    "tstat (restored i c s) u = tstat s u"
    "rt_scheduler_lock_nest (restored i c s) = rt_scheduler_lock_nest s"
    "err (thr (restored i c s) u) = err (thr s u)"
    using c D by (simp_all add: restored_def)
  show "mtx (restored i c s) = mtx (held_less i s)" by (simp add: restored_def)
  show "is_wait_head h \<Longrightarrow> tq (restored i c s) h = tq s h"
    using D(1) prio_changed_queue[OF k] by (simp add: restored_def)
  show "prio (restored i c s) = (prio s)(c := unat (original_priority (mtx s i)))"
    using D(13) by (auto simp: restored_def prio_def fun_eq_iff)
  have "rt_object_get_type (OThread c) (held_less i s) = class_code RT_Object_Class_Thread"
    using thread_ok_types(2)[OF alive_ok[OF rr(2) a(1)]] D(11) by simp
  then show "rt_thread_control c RT_THREAD_CTRL_CHANGE_PRIORITY p (held_less i s)
      = Some (RT_EOK, prio_changed c p (held_less i s))"
    by (rule rt_thread_control_prio)
qed

lemma mutex_release_eq:
  assumes r: "mutex_ok i s" and b: "rt_current_thread s = Some c" "rt_interrupt_nest s = 0"
    and o: "owner (mtx s i) = Some c" and h: "hold (mtx s i) = 1"
  shows "rt_mutex_release i s =
    (case tq s (mtx_queue i) of
       u # _ \<Rightarrow> do {
         s \<leftarrow> rt_ipc_list_resume (mtx_queue i) (upd_mtx i (\<lambda>m. m\<lparr>owner := Some u,
                original_priority := current_priority (thr (restored i c s) u), hold := hold m + 1\<rparr>)
                (restored i c s));
         s \<leftarrow> rt_schedule s;
         Some (RT_EOK, s)
       }
     | [] \<Rightarrow> Some (RT_EOK, upd_mtx i (\<lambda>m. m\<lparr>mtx_value := mtx_value m + 1, owner := None,
                                               original_priority := 0xff\<rparr>) (restored i c s)))"
proof -
  note F = restored_facts[OF r b(1) o]
  have hw: "is_wait_head (mtx_queue i)" by simp
  have m: "hold (mtx (held_less i s) i) = 0" "original_priority (mtx (held_less i s) i) = original_priority (mtx s i)"
    "thr (held_less i s) = thr s"
    using h by (simp_all add: held_less_def upd_mtx_def)
  have q: "tq (restored i c s) (mtx_queue i) = tq s (mtx_queue i)" by (rule F(5)[OF hw])
  have x: "Option.bind (if original_priority (mtx (held_less i s) i) \<noteq> current_priority (thr (held_less i s) c)
      then rt_thread_control c RT_THREAD_CTRL_CHANGE_PRIORITY (original_priority (mtx (held_less i s) i)) (held_less i s)
      else Some (RT_EOK, held_less i s)) (\<lambda>(e, s). k s) = k (restored i c s)" for k :: "kernel \<Rightarrow> (rt_err \<times> kernel) option"
    using F(10) m by (simp add: restored_def)
  show ?thesis
    using r b o m(1) unfolding rt_mutex_release_def held_less_def[symmetric] Let_def x q
    by (simp add: mutex_ok_def mutex_ready_def in_thread_context_def not_in_interrupt_def
        rt_thread_self_def x q)
qed

lemma mutex_release_free:
  assumes r: "mutex_ok i s" and b: "rt_current_thread s = Some c" "rt_interrupt_nest s = 0"
    and o: "owner (mtx s i) = Some c" and h: "hold (mtx s i) = 1" and q: "tq s (mtx_queue i) = []"
  shows "\<exists>s'. rt_mutex_release i s = Some (RT_EOK, s') \<and> mutex_ok i s' \<and> owner (mtx s' i) = None
    \<and> prio s' = (prio s)(c := unat (original_priority (mtx s i)))"
proof -
  note F = restored_facts[OF r b(1) o]
  let ?m = "restored i c s"
  let ?s = "upd_mtx i (\<lambda>m. m\<lparr>mtx_value := mtx_value m + 1, owner := None, original_priority := 0xff\<rparr>) ?m"
  have e: "rt_mutex_release i s = Some (RT_EOK, ?s)" using mutex_release_eq[OF r b o h] q by simp
  have d: "same_but_data ?m ?s" by simp
  note D = same_but_dataD[OF d]
  have v: "mtx_value (mtx s i) = 0" using r o by (simp add: mutex_ok_def mutex_ready_def mutex_inv_def)
  have m: "mtx ?s i = \<lparr>mtx_value = 1, original_priority = 0xff, hold = 0, owner = None\<rparr>"
    using v h F(3) by (simp add: upd_mtx_def held_less_def)
  have "mutex_inv ?s i" using m D(1) F(5)[of "mtx_queue i"] q by (simp add: mutex_inv_def)
  moreover have "rt_object_get_type (OMutex i) ?s = rt_object_get_type (OMutex i) s"
    using D(11) F(4) by (simp add: rt_object_get_type_def)
  ultimately have "mutex_ready ?s i"
    using r D(3) F(4) by (simp add: mutex_ok_def mutex_ready_def flag_ok_def)
  then have "mutex_ok i ?s" using F(1,2) kinv_same_but_data[OF d] D(7) by (simp add: mutex_ok_def)
  then show ?thesis using e m D(13) F(7) by auto
qed

lemma mutex_release_handover:
  assumes r: "mutex_ok i s" and b: "rt_current_thread s = Some c" "rt_interrupt_nest s = 0"
    and o: "owner (mtx s i) = Some c" and h: "hold (mtx s i) = 1" and q: "tq s (mtx_queue i) = u # us"
  shows "\<exists>s'. rt_mutex_release i s = Some (RT_EOK, s') \<and> mutex_ok i s' \<and> owner (mtx s' i) = Some u
    \<and> hold (mtx s' i) = 1 \<and> is_ready s' u \<and> tq s' (mtx_queue i) = us
    \<and> prio s' = (prio s)(c := unat (original_priority (mtx s i)))
    \<and> (rt_scheduler_lock_nest s = 0 \<longrightarrow> runs_best s')"
proof -
  note F = restored_facts[OF r b(1) o]
  let ?m = "restored i c s"
  define s1 where "s1 = upd_mtx i (\<lambda>m. m\<lparr>owner := Some u,
                original_priority := current_priority (thr ?m u), hold := hold m + 1\<rparr>) ?m"
  have hw: "is_wait_head (mtx_queue i)" by simp
  have d: "same_but_data ?m s1" by (simp add: s1_def)
  note D = same_but_dataD[OF d]
  have k1: "kinv s1" using F(1) kinv_same_but_data[OF d] by simp
  have q1: "tq s1 (mtx_queue i) = u # us" using D(1) F(5)[OF hw] q by simp
  note w = rt_ipc_list_resume_eq[OF k1 hw q1]
  let ?r = "thread_resumed u s1"
  have "rt_current_thread ?r \<noteq> None" using D(7) F(2) by simp
  then obtain x where x: "rt_current_thread ?r = Some x" by auto
  from rt_schedule_step[OF w(2) x] w(4) obtain s' where
    s': "rt_schedule ?r = Some s'" "kinv s'" "sched_only ?r s'" "rt_current_thread s' \<noteq> None"
    "rt_scheduler_lock_nest ?r = 0 \<longrightarrow> runs_best s'" by blast
  have e: "rt_mutex_release i s = Some (RT_EOK, s')"
    using mutex_release_eq[OF r b o h] q w(1) s'(1) by (simp add: s1_def)
  have mi: "mutex_inv s i" using r by (simp add: mutex_ok_def mutex_ready_def)
  have m: "mtx s' i = (mtx s i)\<lparr>owner := Some u, original_priority := current_priority (thr ?m u), hold := 1\<rparr>"
    using sched_onlyD(10)[OF s'(3)] h F(3) by (simp add: s1_def upd_mtx_def held_less_def)
  have us: "tq s' (mtx_queue i) = us" using sched_only_queue[OF s'(3) hw] w(5) by simp
  have un: "u \<notin> set us" using q r queue_distinct[of s "mtx_queue i"] by (simp add: mutex_ok_def)
  have ur: "is_ready s' u" using w(4) sched_only_status(3)[OF s'(3)] by simp
  have "is_suspended ?m u" using w(3) D(12) by (simp add: is_suspended_def)
  then have pu: "unat (current_priority (thr ?m u)) < 32" by (intro alive_prio[OF F(1)]) (simp add: alive_def)
  have "mutex_inv s' i"
    using m us un ur pu mi o by (simp add: mutex_inv_def alive_def)
  moreover have same: "ipc_same s1 s'"
    by (rule ipc_same_trans[OF ipc_same_resumed ipc_same_sched[OF s'(3)]])
  have "mutex_ready s1 i \<longrightarrow> True" by simp
  have "rt_object_get_type (OMutex i) s' = class_code RT_Object_Class_Mutex" "flag_ok s' (OMutex i)"
    using r ipc_sameD(10)[OF same] ipc_same_flag[OF same, of "OMutex i"] D(3) F(4)
    by (auto simp: mutex_ok_def mutex_ready_def flag_ok_def rt_object_get_type_def)
  ultimately have "mutex_ready s' i" by (simp add: mutex_ready_def)
  then have "mutex_ok i s'" using s'(2,4) by (simp add: mutex_ok_def)
  moreover have "prio s' = (prio s)(c := unat (original_priority (mtx s i)))"
    using sched_only_status(2)[OF s'(3)] D(13) F(7) by (auto simp: fun_eq_iff)
  moreover have "rt_scheduler_lock_nest ?r = rt_scheduler_lock_nest s" using D(9) F(8) by simp
  ultimately show ?thesis using e m us ur s'(5) by auto
qed

section \<open>Runs\<close>

text \<open>\<^verbatim>\<open>mutex_run i s0 H s\<close>: from a state in which nobody owns mutex i, threads took and released
  it, waited and timed out and the scheduler switched, until the state s; thread t has
  been given the mutex \<^verbatim>\<open>H t\<close> times more than it released it. A release that frees the mutex gives
  it to the first waiter. The nesting count has 8 bits; a thread does not nest deeper.\<close>

definition given_back :: "nat \<Rightarrow> nat \<Rightarrow> kernel \<Rightarrow> (nat \<Rightarrow> nat) \<Rightarrow> nat \<Rightarrow> nat" where
  "given_back i c s H =
    (let H' = H(c := H c - 1) in
       (case tq s (mtx_queue i) of
          u # _ \<Rightarrow> (if H' c = 0 then H'(u := H' u + 1) else H')
        | [] \<Rightarrow> H'))"

inductive mutex_run :: "nat \<Rightarrow> kernel \<Rightarrow> (nat \<Rightarrow> nat) \<Rightarrow> kernel \<Rightarrow> bool" for i s0 where
  m_start: "owner (mtx s0 i) = None \<Longrightarrow> mutex_run i s0 (\<lambda>_. 0) s0"
| m_taken: "mutex_run i s0 H s \<Longrightarrow> can_block s c \<Longrightarrow> hold (mtx s i) \<noteq> 0xff \<Longrightarrow> time < 0x7fffffff
    \<Longrightarrow> rt_mutex_take i time s = Some (Done RT_EOK, s') \<Longrightarrow> mutex_run i s0 (H(c := H c + 1)) s'"
| m_refused: "mutex_run i s0 H s \<Longrightarrow> can_block s c \<Longrightarrow> hold (mtx s i) \<noteq> 0xff \<Longrightarrow> time < 0x7fffffff
    \<Longrightarrow> rt_mutex_take i time s = Some (Done e, s') \<Longrightarrow> e \<noteq> RT_EOK \<Longrightarrow> mutex_run i s0 H s'"
| m_waiting: "mutex_run i s0 H s \<Longrightarrow> can_block s c \<Longrightarrow> hold (mtx s i) \<noteq> 0xff \<Longrightarrow> time < 0x7fffffff
    \<Longrightarrow> rt_mutex_take i time s = Some (Blocked, s') \<Longrightarrow> mutex_run i s0 H s'"
| m_released: "mutex_run i s0 H s \<Longrightarrow> rt_current_thread s = Some c \<Longrightarrow> rt_interrupt_nest s = 0
    \<Longrightarrow> rt_mutex_release i s = Some (RT_EOK, s') \<Longrightarrow> mutex_run i s0 (given_back i c s H) s'"
| m_not_owner: "mutex_run i s0 H s \<Longrightarrow> rt_current_thread s = Some c \<Longrightarrow> rt_interrupt_nest s = 0
    \<Longrightarrow> rt_mutex_release i s = Some (e, s') \<Longrightarrow> e \<noteq> RT_EOK \<Longrightarrow> mutex_run i s0 H s'"
| m_timed_out: "mutex_run i s0 H s \<Longrightarrow> is_suspended s t \<Longrightarrow> ThreadTimer t \<notin> set (rt_timer_list s)
    \<Longrightarrow> rt_thread_timeout t s = Some s' \<Longrightarrow> mutex_run i s0 H s'"
| m_switched: "mutex_run i s0 H s \<Longrightarrow> rt_schedule s = Some s' \<Longrightarrow> mutex_run i s0 H s'"

definition holders :: "nat \<Rightarrow> kernel \<Rightarrow> nat \<Rightarrow> nat" where
  "holders i s = (\<lambda>t. if owner (mtx s i) = Some t then unat (hold (mtx s i)) else 0)"

lemma holders_cong: "mtx s' i = mtx s i \<Longrightarrow> holders i s' = holders i s"
  by (simp add: holders_def fun_eq_iff)

lemma unat_hold_Suc: "(h :: rt_uint8) \<noteq> 0xff \<Longrightarrow> unat (h + 1) = Suc (unat h)"
proof -
  assume "h \<noteq> 0xff"
  moreover have "unat h < 2 ^ LENGTH(8)" by (rule unsigned_less)
  ultimately show ?thesis using word_unat_eq_iff[of h "0xff"] by (simp add: unat_word_ariths)
qed

lemma mutex_take_cases:
  assumes ok: "mutex_ok i s" and b: "can_block s c" and h: "hold (mtx s i) \<noteq> 0xff" and t: "time < 0x7fffffff"
    and r: "rt_mutex_take i time s = Some (x, s')"
  shows "mutex_ok i s' \<and>
    ((x = Done RT_EOK \<and> holders i s' = (holders i s)(c := holders i s c + 1))
     \<or> (x \<in> {Done (- RT_ETIMEOUT), Blocked} \<and> mtx s' = mtx s))"
proof -
  have k: "kinv s" and mr: "mutex_ready s i" using ok by (simp_all add: mutex_ok_def)
  consider (free) "owner (mtx s i) = None" | (own) "owner (mtx s i) = Some c"
    | (other) ow where "owner (mtx s i) = Some ow" "ow \<noteq> c" "time = 0"
    | (wait) ow where "owner (mtx s i) = Some ow" "ow \<noteq> c" "time \<noteq> 0"
    by (cases "owner (mtx s i)") auto
  then show ?thesis
  proof cases
    case free
    from mutex_take_free[OF mr b free k, of time] r show ?thesis
      by (auto simp: holders_def free fun_eq_iff)
  next
    case own
    from mutex_take_owned[OF mr b own h k, of time] r show ?thesis
      by (auto simp: holders_def own fun_eq_iff unat_hold_Suc[OF h])
  next
    case other
    from mutex_take_refused[OF mr b other(1,2) k] r other(3) show ?thesis by auto
  next
    case wait
    from mutex_take_waits[OF mr b wait t k] r show ?thesis by auto
  qed
qed

lemma mutex_release_cases:
  assumes ok: "mutex_ok i s" and b: "rt_current_thread s = Some c" "rt_interrupt_nest s = 0"
    and r: "rt_mutex_release i s = Some (e, s')"
  shows "mutex_ok i s' \<and>
    ((e = RT_EOK \<and> owner (mtx s i) = Some c \<and> holders i s' = given_back i c s (holders i s))
     \<or> (e = - RT_ERROR \<and> owner (mtx s i) \<noteq> Some c \<and> mtx s' = mtx s))"
proof -
  have k: "kinv s" and mr: "mutex_ready s i" using ok by (simp_all add: mutex_ok_def)
  show ?thesis
  proof (cases "owner (mtx s i) = Some c")
    case False
    then show ?thesis using mutex_release_not_owner[OF mr b False] r k mr b by (auto simp: mutex_ok_def)
  next
    case o: True
    have h0: "hold (mtx s i) \<noteq> 0" and cq: "c \<notin> set (tq s (mtx_queue i))"
      using mr o by (simp_all add: mutex_ready_def mutex_inv_def)
    show ?thesis
    proof (cases "hold (mtx s i) = 1")
      case False
      have m: "mtx (held_less i s) i = (mtx s i)\<lparr>hold := hold (mtx s i) - 1\<rparr>"
        by (simp add: held_less_def upd_mtx_def)
      have u: "unat (hold (mtx s i) - 1) = unat (hold (mtx s i)) - 1" using h0 by (simp add: unat_minus_one)
      have "unat (hold (mtx s i)) \<noteq> 0" "unat (hold (mtx s i)) \<noteq> 1"
        using h0 False word_unat_eq_iff[of "hold (mtx s i)" 0] word_unat_eq_iff[of "hold (mtx s i)" 1]
        by simp_all
      then have "holders i s c - 1 \<noteq> 0" using o by (simp add: holders_def)
      then have "given_back i c s (holders i s) = (holders i s)(c := holders i s c - 1)"
        by (cases "tq s (mtx_queue i)") (simp_all add: given_back_def)
      moreover have "owner (mtx (held_less i s) i) = Some c" using m o by simp
      moreover have "hold (mtx (held_less i s) i) = hold (mtx s i) - 1" using m by simp
      ultimately have "holders i (held_less i s) = given_back i c s (holders i s)"
        using o u by (simp add: holders_def fun_eq_iff)
      then show ?thesis using mutex_release_nested[OF ok b o False] r o by simp
    next
      case True
      show ?thesis
      proof (cases "tq s (mtx_queue i)")
        case Nil
        from mutex_release_free[OF ok b o True Nil] r o True show ?thesis
          by (auto simp: holders_def given_back_def Nil fun_eq_iff)
      next
        case (Cons u us)
        from mutex_release_handover[OF ok b o True Cons] r o True cq show ?thesis
          by (auto simp: holders_def given_back_def Cons fun_eq_iff)
      qed
    qed
  qed
qed

interpretation mutex: waiting_object "\<lambda>i s. mutex_ready s i"
proof
  fix i s s'
  assume m: "mutex_ready s i" and k: "ipc_kept s s'"
  have "is_wait_head (mtx_queue i)" by simp
  note K = ipc_keptD[OF k] and Q = ipc_keptD(11,12)[OF k this]
  have "t \<notin> set (tq s (mtx_queue i)) \<Longrightarrow> t \<notin> set (tq s' (mtx_queue i))" for t using Q(1) by blast
  then have "mutex_inv s' i"
    using m K(2,8) Q(2) by (auto simp: mutex_inv_def mutex_ready_def split: option.splits)
  then show "mutex_ready s' i" using m K(7) K(13)[of "OMutex i"] by (simp add: mutex_ready_def flag_ok_def)
qed

lemma mutex_timeout_case:
  assumes "mutex_ok i s" "is_suspended s t" "ThreadTimer t \<notin> set (rt_timer_list s)"
    and "rt_thread_timeout t s = Some s'"
  shows "mutex_ok i s' \<and> mtx s' = mtx s"
  using mutex.timeout_keeps[OF _ _ _ assms(2-4), of i] ipc_keptD(2)[of s s'] assms(1)
  by (simp add: mutex_ok_def)

lemma mutex_switch_case:
  assumes "mutex_ok i s" "rt_schedule s = Some s'"
  shows "mutex_ok i s' \<and> mtx s' = mtx s"
  using mutex.switch_keeps[OF _ _ _ assms(2), of i] ipc_keptD(2)[of s s'] assms(1)
  by (simp add: mutex_ok_def)

lemma mutex_run_holders:
  assumes "mutex_run i s0 H s" "mutex_ok i s0"
  shows "mutex_ok i s \<and> H = holders i s"
  using assms
proof (induction rule: mutex_run.induct)
  case m_start
  then show ?case by (simp add: holders_def)
next
  case (m_taken H s c time s')
  then have "mutex_ok i s" "H = holders i s" by simp_all
  with mutex_take_cases[OF this(1) m_taken(2-5)] show ?case by (auto simp: RT_ETIMEOUT_def RT_EOK_def)
next
  case (m_refused H s c time e s')
  then have "mutex_ok i s" "H = holders i s" by simp_all
  with mutex_take_cases[OF this(1) m_refused(2-5)] m_refused(6) show ?case by (auto intro: holders_cong[symmetric])
next
  case (m_waiting H s c time s')
  then have "mutex_ok i s" "H = holders i s" by simp_all
  with mutex_take_cases[OF this(1) m_waiting(2-5)] show ?case by (auto intro: holders_cong[symmetric])
next
  case (m_released H s c s')
  then have "mutex_ok i s" "H = holders i s" by simp_all
  with mutex_release_cases[OF this(1) m_released(2-4)] show ?case by (auto simp: RT_ERROR_def RT_EOK_def)
next
  case (m_not_owner H s c e s')
  then have "mutex_ok i s" "H = holders i s" by simp_all
  with mutex_release_cases[OF this(1) m_not_owner(2-4)] m_not_owner(5) show ?case
    by (auto intro: holders_cong[symmetric])
next
  case (m_timed_out H s t s')
  then show ?case using mutex_timeout_case[OF _ m_timed_out(2-4)] by (auto intro: holders_cong[symmetric])
next
  case (m_switched H s s')
  then show ?case using mutex_switch_case[OF _ m_switched(2)] by (auto intro: holders_cong[symmetric])
qed

section \<open>Properties\<close>

text \<open>C5. Mutual exclusion. In every run at most one thread holds a mutex: the thread that its
  owner field names, as often as its nesting count says.\<close>

theorem mutex_exclusion:
  assumes "mutex_run i s0 H s" "mutex_ok i s0"
  shows "(0 < H t \<and> 0 < H u \<longrightarrow> t = u) \<and> (owner (mtx s i) = Some t \<longleftrightarrow> 0 < H t)
    \<and> (0 < H t \<longrightarrow> H t = unat (hold (mtx s i)))"
proof -
  have "mutex_ok i s" and H: "H = holders i s" using mutex_run_holders[OF assms] by simp_all
  then have "owner (mtx s i) = Some t \<Longrightarrow> unat (hold (mtx s i)) \<noteq> 0"
    by (auto simp: mutex_ok_def mutex_ready_def mutex_inv_def unat_eq_0)
  then show ?thesis unfolding H holders_def by auto
qed

lemma mutex_ready_demo: "mutex_ready demo i"
  by (simp add: mutex_ready_def flag_ok_def mutex_inv_def RT_IPC_FLAG_FIFO_def demo_def
      rt_object_get_type_def demo_type_def RT_Object_Class_Static_def)

lemma mutex_ok_demo: "mutex_ok i demo"
  by (simp add: mutex_ok_def mutex_ready_demo)

lemma owner_demo: "owner (mtx demo i) = None" "hold (mtx demo i) = 0"
  by (simp_all add: demo_def)

lemma mutex_exclusion_witness:
  "\<exists>H s. mutex_run 0 demo H s \<and> H 0 = 1 \<and> owner (mtx s 0) = Some 0"
proof -
  from mutex_take_free[OF mutex_ready_demo can_block_demo owner_demo(1) kinv_demo, of 0 0] obtain s' where
    s': "rt_mutex_take 0 0 demo = Some (Done RT_EOK, s')" by auto
  have "mutex_run 0 demo ((\<lambda>_. 0)(0 := 0 + 1)) s'"
    by (rule m_taken[OF m_start[of demo 0, OF owner_demo(1)] can_block_demo _ _ s']) (simp_all add: owner_demo)
  then have r: "mutex_run 0 demo ((\<lambda>_. 0)(0 := 1)) s'" by simp
  from mutex_exclusion[OF r mutex_ok_demo, of 0 0] have "owner (mtx s' 0) = Some 0" by simp
  with r show ?thesis by (intro exI[of _ "(\<lambda>_. 0)(0 := 1)"] exI[of _ s']) simp
qed

text \<open>C25. Priority inheritance. A thread that waits for a mutex is suspended in its wait
  queue, and the owner gets the priority of the waiter when that is more urgent than its own; no
  other priority changes, and the most urgent ready thread runs.\<close>

theorem rt_mutex_take_inherits:
  assumes "mutex_ok i s" "can_block s c" "owner (mtx s i) = Some ow" "ow \<noteq> c"
    "time \<noteq> 0" "time < 0x7fffffff"
  shows "\<exists>s'. rt_mutex_take i time s = Some (Blocked, s') \<and> mutex_ok i s' \<and> mtx s' = mtx s
    \<and> is_suspended s' c \<and> runs_best s' \<and> c \<in> set (tq s' (mtx_queue i))
    \<and> prio s' = (prio s)(ow := min (prio s c) (prio s ow))"
  using mutex_take_waits[OF _ assms(2-6)] assms(1) by (simp add: mutex_ok_def)

text \<open>In the state \<^verbatim>\<open>demo\<close>, with mutex 0 owned by the ready thread 1.\<close>

definition demo_owned :: kernel where
  "demo_owned = upd_mtx 0 (\<lambda>_. \<lparr>mtx_value = 0, original_priority = 5, hold = 1, owner = Some 1\<rparr>) demo"

lemma demo_owned_same: "same_but_data demo demo_owned"
  by (simp add: demo_owned_def)

lemma mutex_ok_demo_owned: "mutex_ok 0 demo_owned"
proof -
  note D = same_but_dataD[OF demo_owned_same]
  have "alive demo_owned = alive demo" using D(12) by (rule stat_cong(4))
  then have "mutex_inv demo_owned 0"
    using D(1) by (simp add: mutex_inv_def demo_owned_def upd_mtx_def alive_def)
  then have "mutex_ready demo_owned 0" by (rule mutex_ready_data[OF demo_owned_same _ mutex_ready_demo])
  then show ?thesis using kinv_same_but_data[OF demo_owned_same] D(7) by (simp add: mutex_ok_def)
qed

lemma rt_mutex_take_inherits_witness:
  "\<exists>s'. rt_mutex_take 0 7 demo_owned = Some (Blocked, s') \<and> is_suspended s' 0 \<and> prio s' 1 = 5"
proof -
  note D = same_but_dataD[OF demo_owned_same]
  have "can_block demo_owned 0"
    using can_block_demo D by (simp add: can_block_def other_ready_def)
  moreover have "owner (mtx demo_owned 0) = Some 1" by (simp add: demo_owned_def upd_mtx_def)
  ultimately have "\<exists>s'. rt_mutex_take 0 7 demo_owned = Some (Blocked, s') \<and> mutex_ok 0 s' \<and> mtx s' = mtx demo_owned
    \<and> is_suspended s' 0 \<and> runs_best s' \<and> 0 \<in> set (tq s' (mtx_queue 0))
    \<and> prio s' = (prio demo_owned)(1 := min (prio demo_owned 0) (prio demo_owned 1))"
    by (intro rt_mutex_take_inherits[OF mutex_ok_demo_owned]) simp_all
  then show ?thesis using D(13) by auto
qed

text \<open>C26. Releasing a mutex. Only the owner can: another thread gets RT\_ERROR and changes
  nothing but its error code. The last release of the owner gives it its original priority
  back, and the mutex goes to the first waiter, which becomes ready and holds it once, or is
  free when nobody waits.\<close>

theorem rt_mutex_release_correct:
  assumes "mutex_ok i s" "rt_current_thread s = Some c" "rt_interrupt_nest s = 0"
  shows "(owner (mtx s i) \<noteq> Some c \<longrightarrow> rt_mutex_release i s = Some (- RT_ERROR, set_err c (- RT_ERROR) s))
    \<and> (owner (mtx s i) = Some c \<and> hold (mtx s i) \<noteq> 1 \<longrightarrow> rt_mutex_release i s = Some (RT_EOK, held_less i s))
    \<and> (owner (mtx s i) = Some c \<and> hold (mtx s i) = 1 \<longrightarrow> (\<exists>s'. rt_mutex_release i s = Some (RT_EOK, s')
         \<and> mutex_ok i s' \<and> prio s' = (prio s)(c := unat (original_priority (mtx s i)))
         \<and> (case tq s (mtx_queue i) of
              [] \<Rightarrow> owner (mtx s' i) = None
            | u # us \<Rightarrow> owner (mtx s' i) = Some u \<and> hold (mtx s' i) = 1 \<and> is_ready s' u
                \<and> tq s' (mtx_queue i) = us \<and> (rt_scheduler_lock_nest s = 0 \<longrightarrow> runs_best s'))))"
proof -
  have mr: "mutex_ready s i" using assms(1) by (simp add: mutex_ok_def)
  show ?thesis
    using mutex_release_not_owner[OF mr assms(2,3)] mutex_release_nested(1)[OF assms]
      mutex_release_free[OF assms] mutex_release_handover[OF assms]
    by (cases "tq s (mtx_queue i)") auto
qed

lemma rt_mutex_release_correct_witness:
  "rt_mutex_release 0 demo_owned = Some (- RT_ERROR, set_err 0 (- RT_ERROR) demo_owned)"
proof -
  note D = same_but_dataD[OF demo_owned_same]
  have "owner (mtx demo_owned 0) \<noteq> Some 0" by (simp add: demo_owned_def upd_mtx_def)
  then show ?thesis using rt_mutex_release_correct[OF mutex_ok_demo_owned, of 0] D by simp
qed

end
