(* ===== verification/RT_Event.thy ===== *)
theory RT_Event
  imports RT_Sem_Run
begin

text \<open>The events of src/ipc.c. An event is a word of flags. A thread waits for all flags of a set
  or for one of them, and may have them cleared when it gets them; sending adds flags and wakes
  the waiters they satisfy, in the order of the wait queue.\<close>

section \<open>Operations\<close>

abbreviation evt_queue :: "nat \<Rightarrow> lhead" where
  "evt_queue i \<equiv> WaitQ (OEvent i)"

definition rt_event_init :: "nat \<Rightarrow> rt_uint8 list \<Rightarrow> rt_uint8 \<Rightarrow> kernel \<Rightarrow> (rt_err \<times> kernel) option" where
  "rt_event_init i nm flag s = do {
     s \<leftarrow> rt_object_init (OEvent i) RT_Object_Class_Event nm s;
     let s = set_obj_flag (OEvent i) flag s;
     let s = rt_ipc_object_init (evt_queue i) s;
     Some (RT_EOK, upd_evt i (\<lambda>x. x\<lparr>evt_set := 0\<rparr>) s)
   }"

definition rt_event_detach :: "nat \<Rightarrow> kernel \<Rightarrow> (rt_err \<times> kernel) option" where
  "rt_event_detach i s = do {
     RT_ASSERT (rt_object_get_type (OEvent i) s = class_code RT_Object_Class_Event);
     RT_ASSERT (rt_object_is_systemobject (OEvent i) s);
     s \<leftarrow> rt_ipc_list_resume_all (evt_queue i) s;
     Some (RT_EOK, rt_object_detach (OEvent i) s)
   }"

definition rt_event_create ::
  "objref option \<Rightarrow> rt_uint8 list \<Rightarrow> rt_uint8 \<Rightarrow> kernel \<Rightarrow> (objref option \<times> kernel) option" where
  "rt_event_create mem nm flag s = do {
     not_in_interrupt s;
     (ob, s) \<leftarrow> rt_object_allocate mem RT_Object_Class_Event nm s;
     (case ob of
        Some (OEvent i) \<Rightarrow>
          (let s = set_obj_flag (OEvent i) flag s;
               s = rt_ipc_object_init (evt_queue i) s
           in Some (ob, upd_evt i (\<lambda>x. x\<lparr>evt_set := 0\<rparr>) s))
      | _ \<Rightarrow> Some (None, s))
   }"

definition rt_event_delete :: "nat \<Rightarrow> kernel \<Rightarrow> (rt_err \<times> kernel) option" where
  "rt_event_delete i s = do {
     RT_ASSERT (rt_object_get_type (OEvent i) s = class_code RT_Object_Class_Event);
     RT_ASSERT (\<not> rt_object_is_systemobject (OEvent i) s);
     not_in_interrupt s;
     s \<leftarrow> rt_ipc_list_resume_all (evt_queue i) s;
     s \<leftarrow> rt_object_delete (OEvent i) s;
     Some (RT_EOK, s)
   }"

text \<open>One round of the loop of \<^verbatim>\<open>rt_event_send\<close>: whether the thread's condition holds, and the
  thread with the flags it got. The loop reads the successor of a node before it resumes the
  thread, so it visits the threads that the queue has at the start.\<close>

definition event_offer :: "rt_uint32 \<Rightarrow> rt_thread \<Rightarrow> rt_thread option" where
  "event_offer e th =
    (if event_info th AND RT_EVENT_FLAG_AND \<noteq> 0 then
       (if event_set th AND e = event_set th then Some th else None)
     else if event_info th AND RT_EVENT_FLAG_OR \<noteq> 0 then
       (if event_set th AND e \<noteq> 0 then Some (th\<lparr>event_set := event_set th AND e\<rparr>) else None)
     else None)"

fun event_wake :: "nat \<Rightarrow> nat list \<Rightarrow> bool \<Rightarrow> kernel \<Rightarrow> (bool \<times> kernel) option" where
  "event_wake i [] need s = Some (need, s)"
| "event_wake i (t # ts) need s =
    (case event_offer (evt_set (evt s i)) (thr s t) of
       None \<Rightarrow> event_wake i ts need s
     | Some th \<Rightarrow> do {
         let s = upd_thr t (\<lambda>_. th) s;
         let s = (if event_info th AND RT_EVENT_FLAG_CLEAR \<noteq> 0
                  then upd_evt i (\<lambda>x. x\<lparr>evt_set := evt_set x AND NOT (event_set th)\<rparr>) s else s);
         (_, s) \<leftarrow> rt_thread_resume t s;
         event_wake i ts True s
       })"

definition rt_event_send :: "nat \<Rightarrow> rt_uint32 \<Rightarrow> kernel \<Rightarrow> (rt_err \<times> kernel) option" where
  "rt_event_send i v s = do {
     RT_ASSERT (rt_object_get_type (OEvent i) s = class_code RT_Object_Class_Event);
     (if v = 0 then Some (- RT_ERROR, s)
      else do {
        let s = upd_evt i (\<lambda>x. x\<lparr>evt_set := evt_set x OR v\<rparr>) s;
        (need, s) \<leftarrow> event_wake i (tq s (evt_queue i)) False s;
        s \<leftarrow> (if need then rt_schedule s else Some s);
        Some (RT_EOK, s)
      })
   }"

text \<open>The result of a receive is the error code and what is stored through \<^verbatim>\<open>recved\<close>, if anything;
  \<^verbatim>\<open>want\<close> says that \<^verbatim>\<open>recved\<close> is not a null pointer.\<close>

definition event_status :: "rt_uint32 \<Rightarrow> rt_uint32 \<Rightarrow> rt_uint8 \<Rightarrow> bool option" where
  "event_status e v option =
    (if option AND RT_EVENT_FLAG_AND \<noteq> 0 then Some (e AND v = v)
     else if option AND RT_EVENT_FLAG_OR \<noteq> 0 then Some (e AND v \<noteq> 0)
     else None)"

definition rt_event_recv_wake ::
  "nat \<Rightarrow> bool \<Rightarrow> kernel \<Rightarrow> ((rt_err \<times> rt_uint32 option) call \<times> kernel) option" where
  "rt_event_recv_wake t want s =
    (if err (thr s t) \<noteq> RT_EOK then Some (Done (err (thr s t), None), s)
     else Some (Done (err (thr s t), if want then Some (event_set (thr s t)) else None), s))"

definition rt_event_recv ::
  "nat \<Rightarrow> rt_uint32 \<Rightarrow> rt_uint8 \<Rightarrow> int \<Rightarrow> bool \<Rightarrow> kernel \<Rightarrow> ((rt_err \<times> rt_uint32 option) call \<times> kernel) option" where
  "rt_event_recv i v option timeout want s = do {
     in_thread_context s;
     RT_ASSERT (rt_object_get_type (OEvent i) s = class_code RT_Object_Class_Event);
     (if v = 0 then Some (Done (- RT_ERROR, None), s)
      else do {
        t \<leftarrow> rt_thread_self s;
        let s = set_err t RT_EOK s;
        ok \<leftarrow> event_status (evt_set (evt s i)) v option;
        (if ok then
           (let got = evt_set (evt s i) AND v;
                s = (if option AND RT_EVENT_FLAG_CLEAR \<noteq> 0
                     then upd_evt i (\<lambda>x. x\<lparr>evt_set := evt_set x AND NOT v\<rparr>) s else s)
            in Some (Done (err (thr s t), if want then Some got else None), s))
         else if timeout = 0 then
           (let s = set_err t (- RT_ETIMEOUT) s in Some (Done (err (thr s t), None), s))
         else do {
           let s = upd_thr t (\<lambda>th. th\<lparr>event_set := v, event_info := option\<rparr>) s;
           s \<leftarrow> ipc_wait (evt_queue i) t (ipc_flag s (OEvent i)) timeout s;
           after_schedule t (rt_event_recv_wake t want) s
         })
      })
   }"

definition rt_event_control :: "nat \<Rightarrow> int \<Rightarrow> kernel \<Rightarrow> (rt_err \<times> kernel) option" where
  "rt_event_control i cmd s = do {
     RT_ASSERT (rt_object_get_type (OEvent i) s = class_code RT_Object_Class_Event);
     (if cmd = RT_IPC_CMD_RESET then do {
        s \<leftarrow> rt_ipc_list_resume_all (evt_queue i) s;
        let s = upd_evt i (\<lambda>x. x\<lparr>evt_set := 0\<rparr>) s;
        s \<leftarrow> rt_schedule s;
        Some (RT_EOK, s)
      } else Some (- RT_ERROR, s))
   }"

section \<open>The event fields of a thread\<close>

definition set_event :: "nat \<Rightarrow> rt_uint32 \<Rightarrow> rt_uint8 \<Rightarrow> kernel \<Rightarrow> kernel" where
  "set_event t v info s = upd_thr t (\<lambda>th. th\<lparr>event_set := v, event_info := info\<rparr>) s"

lemma set_event_simps [simp]:
  "tq (set_event t v o' s) = tq s" "rt_current_thread (set_event t v o' s) = rt_current_thread s"
  "tstat (set_event t v o' s) = tstat s" "prio (set_event t v o' s) = prio s"
  "err (thr (set_event t v o' s) u) = err (thr s u)"
  "event_set (thr (set_event t v o' s) u) = (if u = t then v else event_set (thr s u))"
  "event_info (thr (set_event t v o' s) u) = (if u = t then o' else event_info (thr s u))"
  "objs (set_event t v o' s) = objs s"
  "rt_object_get_type r (set_event t v o' s) = rt_object_get_type r s"
  "rt_scheduler_lock_nest (set_event t v o' s) = rt_scheduler_lock_nest s"
  "rt_interrupt_nest (set_event t v o' s) = rt_interrupt_nest s" "evt (set_event t v o' s) = evt s"
  "ipc_same s (set_event t v o' s)"
  by (simp_all add: set_event_def kernel_defs rt_object_get_type_def tstat_def[abs_def] prio_def[abs_def]
      fun_eq_iff ipc_same_def obj_same_but_active_def)

lemma set_event_stat_simps [simp]:
  "is_ready (set_event t v o' s) = is_ready s" "is_suspended (set_event t v o' s) = is_suspended s"
  "can_block (set_event t v o' s) c = can_block s c"
  by (simp_all add: is_ready_def[abs_def] is_suspended_def[abs_def] can_block_def other_ready_def)

lemma set_event_kinv [simp]: "kinv (set_event t v o' s) = kinv s"
  unfolding set_event_def by (rule kinv_upd_thr) (simp_all add: stack_ok_def)

section \<open>The flags the waiters get\<close>

text \<open>What sending does, on the flags and the list of the waiters alone: a waiter is a thread, the
  flags it waits for and its options.\<close>

definition event_match :: "rt_uint32 \<Rightarrow> rt_uint32 \<Rightarrow> rt_uint8 \<Rightarrow> rt_uint32 option" where
  "event_match e v option =
    (if option AND RT_EVENT_FLAG_AND \<noteq> 0 then (if v AND e = v then Some v else None)
     else if option AND RT_EVENT_FLAG_OR \<noteq> 0 \<and> v AND e \<noteq> 0 then Some (v AND e)
     else None)"

fun event_scan :: "rt_uint32 \<Rightarrow> (nat \<times> rt_uint32 \<times> rt_uint8) list \<Rightarrow> rt_uint32 \<times> (nat \<times> rt_uint32) list" where
  "event_scan e [] = (e, [])"
| "event_scan e ((t, v, option) # ws) =
    (case event_match e v option of
       None \<Rightarrow> event_scan e ws
     | Some g \<Rightarrow>
         (let (e', woken) = event_scan (if option AND RT_EVENT_FLAG_CLEAR \<noteq> 0 then e AND NOT g else e) ws
          in (e', (t, g) # woken)))"

definition flags_within :: "rt_uint32 \<Rightarrow> rt_uint32 \<Rightarrow> bool" where
  "flags_within a b = (a AND b = a)"

lemma flags_within_iff: "flags_within a b = (\<forall>n < 32. bit a n \<longrightarrow> bit b n)"
  by (auto simp: flags_within_def bit_eq_iff bit_and_iff)

lemma flags_within_refl [simp]: "flags_within a a"
  by (simp add: flags_within_iff)

lemma flags_within_trans: "flags_within a b \<Longrightarrow> flags_within b c \<Longrightarrow> flags_within a c"
  by (simp add: flags_within_iff)

lemma flags_within_clear [simp]: "flags_within (a AND NOT b) a" "flags_within (b AND a) a"
  by (simp_all add: flags_within_iff bit_and_iff)

lemma event_match_mono:
  assumes "event_match e v option = None" "flags_within e' e"
  shows "event_match e' v option = None"
proof -
  have "v AND e' = v \<Longrightarrow> v AND e = v" "v AND e' \<noteq> 0 \<Longrightarrow> v AND e \<noteq> 0"
    using assms(2) by (auto simp: flags_within_iff bit_eq_iff bit_and_iff)
  then show ?thesis using assms(1) by (auto simp: event_match_def split: if_splits)
qed

lemma event_match_within:
  "event_match e v option = Some g \<Longrightarrow> flags_within g e \<and> flags_within g v \<and> (v \<noteq> 0 \<longrightarrow> g \<noteq> 0)"
  by (auto simp: event_match_def flags_within_def and.assoc and.left_commute and.commute split: if_splits)

lemma event_scan_within: "flags_within (fst (event_scan e ws)) e"
  by (induction e ws rule: event_scan.induct)
    (auto split: option.splits prod.splits simp: Let_def intro: flags_within_trans)

lemma event_scan_rest:
  assumes "(t, v, option) \<in> set ws" "t \<notin> fst ` set (snd (event_scan e ws))"
  shows "event_match (fst (event_scan e ws)) v option = None"
  using assms
proof (induction e ws rule: event_scan.induct)
  case (2 e t' v' o' ws)
  show ?case
  proof (cases "event_match e v' o'")
    case None
    then show ?thesis using 2 event_match_mono[OF None event_scan_within] by auto
  next
    case (Some g)
    then show ?thesis using 2(2)[OF Some] 2(3,4) by (auto split: prod.splits)
  qed
qed simp

lemma event_scan_woken:
  assumes "(t, g) \<in> set (snd (event_scan e ws))"
  shows "\<exists>v option. (t, v, option) \<in> set ws \<and> flags_within g e \<and> flags_within g v \<and> (v \<noteq> 0 \<longrightarrow> g \<noteq> 0)"
  using assms
proof (induction e ws rule: event_scan.induct)
  case (2 e t' v' o' ws)
  show ?case
  proof (cases "event_match e v' o'")
    case None
    then show ?thesis using 2(1)[OF None] 2(3) by auto
  next
    case (Some g')
    let ?e = "if o' AND RT_EVENT_FLAG_CLEAR \<noteq> 0 then e AND NOT g' else e"
    have w: "flags_within ?e e" by simp
    consider "t = t'" "g = g'" | "(t, g) \<in> set (snd (event_scan ?e ws))"
      using 2(3) Some by (auto split: prod.splits)
    then show ?thesis
    proof cases
      case 1
      then show ?thesis using event_match_within[OF Some] by auto
    next
      case 2
      then show ?thesis using "2.IH"(2)[OF Some 2] flags_within_trans[OF _ w] by fastforce
    qed
  qed
qed simp

lemma event_scan_sub: "fst ` set (snd (event_scan e ws)) \<subseteq> fst ` set ws"
  using event_scan_woken by force

section \<open>Sending\<close>

definition event_waiters :: "kernel \<Rightarrow> nat list \<Rightarrow> (nat \<times> rt_uint32 \<times> rt_uint8) list" where
  "event_waiters s ts = map (\<lambda>t. (t, event_set (thr s t), event_info (thr s t))) ts"

lemma event_waiters_simps [simp]:
  "event_waiters s [] = []"
  "event_waiters s (t # ts) = (t, event_set (thr s t), event_info (thr s t)) # event_waiters s ts"
  by (simp_all add: event_waiters_def)

lemma event_waiters_cong:
  "\<forall>t \<in> set ts. event_set (thr s' t) = event_set (thr s t) \<and> event_info (thr s' t) = event_info (thr s t)
    \<Longrightarrow> event_waiters s' ts = event_waiters s ts"
  by (simp add: event_waiters_def)

lemma event_offer_eq:
  "event_offer e th = (case event_match e (event_set th) (event_info th) of
     None \<Rightarrow> None | Some g \<Rightarrow> Some (th\<lparr>event_set := g\<rparr>))"
  by (auto simp: event_offer_def event_match_def)

lemma event_got: "upd_thr t (\<lambda>_. (thr s t)\<lparr>event_set := g\<rparr>) s = set_event t g (event_info (thr s t)) s"
  by (simp add: set_event_def kernel_defs)

text \<open>Same object data up to the flags of the events.\<close>

definition evt_same :: "kernel \<Rightarrow> kernel \<Rightarrow> bool" where
  "evt_same s s' = ipc_same s (s'\<lparr>evt := evt s\<rparr>)"

lemma evt_same_trans: "evt_same s s' \<Longrightarrow> evt_same s' s'' \<Longrightarrow> evt_same s s''"
  by (simp add: evt_same_def ipc_same_def obj_same_but_active_def)

lemma evt_same_ipc: "ipc_same s s' \<Longrightarrow> evt_same s s'"
  by (simp add: evt_same_def ipc_same_def obj_same_but_active_def)

lemma evt_same_upd: "evt_same s (upd_evt i f s)"
  by (simp add: evt_same_def ipc_same_def obj_same_but_active_def kernel_defs)

lemma evt_sameD:
  assumes "evt_same s s'"
  shows "rt_scheduler_lock_nest s' = rt_scheduler_lock_nest s"
    "rt_object_get_type (OEvent i) s' = rt_object_get_type (OEvent i) s"
    "ipc_flag s' (OEvent i) = ipc_flag s (OEvent i)"
  using assms by (simp_all add: evt_same_def ipc_same_def obj_same_but_active_def rt_object_get_type_def)

text \<open>The waiting thread t gets the flags g of event i.\<close>

definition event_given :: "nat \<Rightarrow> nat \<Rightarrow> rt_uint32 \<Rightarrow> kernel \<Rightarrow> kernel" where
  "event_given i t g s =
    (let s' = set_event t g (event_info (thr s t)) s in
       if event_info (thr s t) AND RT_EVENT_FLAG_CLEAR \<noteq> 0
       then upd_evt i (\<lambda>x. x\<lparr>evt_set := evt_set x AND NOT g\<rparr>) s' else s')"

lemma event_given_facts:
  "evt_same s (event_given i t g s)" "tq (event_given i t g s) = tq s"
  "rt_current_thread (event_given i t g s) = rt_current_thread s" "tstat (event_given i t g s) = tstat s"
  "prio (event_given i t g s) = prio s"
  "event_set (thr (event_given i t g s) u) = (if u = t then g else event_set (thr s u))"
  "event_info (thr (event_given i t g s) u) = event_info (thr s u)"
  "err (thr (event_given i t g s) u) = err (thr s u)"
  "evt (event_given i t g s) = (evt s)(i := \<lparr>evt_set =
     (if event_info (thr s t) AND RT_EVENT_FLAG_CLEAR \<noteq> 0 then evt_set (evt s i) AND NOT g else evt_set (evt s i))\<rparr>)"
  "kinv (event_given i t g s) = kinv s"
proof -
  let ?e = "set_event t g (event_info (thr s t)) s"
  have d: "same_but_data ?e (upd_evt i f ?e)" for f by simp
  note D = same_but_dataD[OF d]
  have "evt_same s ?e" by (rule evt_same_ipc) simp
  then show "evt_same s (event_given i t g s)"
    using evt_same_trans[OF _ evt_same_upd] by (simp add: event_given_def Let_def)
  show "tq (event_given i t g s) = tq s"
    "rt_current_thread (event_given i t g s) = rt_current_thread s" "tstat (event_given i t g s) = tstat s"
    "prio (event_given i t g s) = prio s"
    "event_set (thr (event_given i t g s) u) = (if u = t then g else event_set (thr s u))"
    "event_info (thr (event_given i t g s) u) = event_info (thr s u)"
    "err (thr (event_given i t g s) u) = err (thr s u)"
    using D(1,2,7,12,13) by (simp_all add: event_given_def Let_def)
  show "evt (event_given i t g s) = (evt s)(i := \<lparr>evt_set =
     (if event_info (thr s t) AND RT_EVENT_FLAG_CLEAR \<noteq> 0 then evt_set (evt s i) AND NOT g else evt_set (evt s i))\<rparr>)"
    by (simp add: event_given_def Let_def upd_evt_def fun_eq_iff)
  show "kinv (event_given i t g s) = kinv s"
    using kinv_same_but_data[OF d] by (simp add: event_given_def Let_def)
qed

lemma event_wake_step:
  "event_wake i (t # ts) need s =
    (case event_match (evt_set (evt s i)) (event_set (thr s t)) (event_info (thr s t)) of
       None \<Rightarrow> event_wake i ts need s
     | Some g \<Rightarrow> Option.bind (rt_thread_resume t (event_given i t g s)) (\<lambda>(e, s). event_wake i ts True s))"
  by (simp add: event_offer_eq event_got event_given_def Let_def split: option.split)

definition event_woke :: "nat \<Rightarrow> rt_uint32 \<Rightarrow> (nat \<times> rt_uint32) list \<Rightarrow> kernel \<Rightarrow> kernel \<Rightarrow> bool" where
  "event_woke i e W s s' =
    (kinv s' \<and> evt_same s s' \<and> rt_current_thread s' = rt_current_thread s \<and> prio s' = prio s
     \<and> evt_set (evt s' i) = e
     \<and> tq s' (evt_queue i) = filter (\<lambda>t. t \<notin> fst ` set W) (tq s (evt_queue i))
     \<and> (\<forall>(t, g) \<in> set W. is_ready s' t \<and> event_set (thr s' t) = g)
     \<and> (\<forall>t. err (thr s' t) = err (thr s t) \<and> event_info (thr s' t) = event_info (thr s t))
     \<and> (\<forall>t. t \<notin> fst ` set W \<longrightarrow> tstat s' t = tstat s t \<and> event_set (thr s' t) = event_set (thr s t)))"

lemma event_woke_first:
  assumes k: "kinv s" and t: "t \<in> set (tq s (evt_queue i))"
    and s1: "s1 = thread_resumed t (event_given i t g s)"
  shows "rt_thread_resume t (event_given i t g s) = Some (RT_EOK, s1)" "kinv s1" "evt_same s s1"
    "rt_current_thread s1 = rt_current_thread s" "prio s1 = prio s"
    "evt_set (evt s1 i) = (if event_info (thr s t) AND RT_EVENT_FLAG_CLEAR \<noteq> 0
       then evt_set (evt s i) AND NOT g else evt_set (evt s i))"
    "tq s1 (evt_queue i) = filter (\<lambda>u. u \<noteq> t) (tq s (evt_queue i))"
    "is_ready s1 t" "event_set (thr s1 t) = g" "err (thr s1 u) = err (thr s u)"
    "event_info (thr s1 u) = event_info (thr s u)"
    "u \<noteq> t \<Longrightarrow> tstat s1 u = tstat s u \<and> event_set (thr s1 u) = event_set (thr s u)"
proof -
  note G = event_given_facts[where s = s and i = i and t = t and g = g]
  have kg: "kinv (event_given i t g s)" using k G(10) by simp
  have su: "is_suspended (event_given i t g s) t"
    using waiting_suspended(1)[OF k t] G(4) by (simp add: is_suspended_def)
  show "rt_thread_resume t (event_given i t g s) = Some (RT_EOK, s1)"
    unfolding s1 by (rule rt_thread_resume_eq[OF kg su])
  show "kinv s1" unfolding s1 by (rule thread_resumed_kinv[OF kg su])
  show "evt_same s s1" unfolding s1 by (rule evt_same_trans[OF G(1) evt_same_ipc[OF ipc_same_resumed]])
  show "prio s1 = prio s" unfolding s1 by (simp add: G fun_eq_iff)
  show "rt_current_thread s1 = rt_current_thread s" "is_ready s1 t"
    "event_set (thr s1 t) = g" "err (thr s1 u) = err (thr s u)"
    "event_info (thr s1 u) = event_info (thr s u)"
    "u \<noteq> t \<Longrightarrow> tstat s1 u = tstat s u \<and> event_set (thr s1 u) = event_set (thr s u)"
    unfolding s1 by (simp_all add: G thread_resumed_thr is_ready_def)
  show "tq s1 (evt_queue i) = filter (\<lambda>u. u \<noteq> t) (tq s (evt_queue i))"
    unfolding s1 by (simp add: thread_resumed_tq[OF kg su] G removeAll_filter_not_eq)
      (rule filter_cong, auto)
  show "evt_set (evt s1 i) = (if event_info (thr s t) AND RT_EVENT_FLAG_CLEAR \<noteq> 0
       then evt_set (evt s i) AND NOT g else evt_set (evt s i))"
    using ipc_sameD(3)[OF ipc_same_resumed, of t "event_given i t g s"] unfolding s1 by (simp add: G)
qed

lemma event_wake_total:
  assumes "kinv s" "distinct ts" "set ts \<subseteq> set (tq s (evt_queue i))"
  shows "\<exists>s'. event_wake i ts need s
      = Some (need \<or> snd (event_scan (evt_set (evt s i)) (event_waiters s ts)) \<noteq> [], s')
    \<and> event_woke i (fst (event_scan (evt_set (evt s i)) (event_waiters s ts)))
        (snd (event_scan (evt_set (evt s i)) (event_waiters s ts))) s s'"
  using assms
proof (induction ts arbitrary: s need)
  case Nil
  then show ?case by (simp add: event_woke_def evt_same_ipc)
next
  case (Cons t ts)
  show ?case
  proof (cases "event_match (evt_set (evt s i)) (event_set (thr s t)) (event_info (thr s t))")
    case None
    then show ?thesis using Cons.IH[OF Cons.prems(1)] Cons.prems(2,3)
      by (simp add: event_wake_step del: event_wake.simps)
  next
    case (Some g)
    define s1 where "s1 = thread_resumed t (event_given i t g s)"
    have tq: "t \<in> set (tq s (evt_queue i))" "t \<notin> set ts" using Cons.prems by auto
    note F = event_woke_first[OF Cons.prems(1) tq(1) s1_def]
    have "u \<noteq> t" if "u \<in> set ts" for u using that tq(2) by auto
    then have w: "event_waiters s1 ts = event_waiters s ts"
      using F(11,12) by (intro event_waiters_cong) simp
    have "set ts \<subseteq> set (tq s1 (evt_queue i))" using F(7) Cons.prems(3) tq(2) by auto
    from Cons.IH[OF F(2) _ this, of True] Cons.prems(2) obtain s' where
      s': "event_wake i ts True s1 = Some (True, s')"
      "event_woke i (fst (event_scan (evt_set (evt s1 i)) (event_waiters s ts)))
        (snd (event_scan (evt_set (evt s1 i)) (event_waiters s ts))) s1 s'" unfolding w by auto
    obtain e W where eW: "event_scan (evt_set (evt s1 i)) (event_waiters s ts) = (e, W)" by fastforce
    have tW: "t \<notin> fst ` set W"
      using event_scan_sub[of "evt_set (evt s1 i)" "event_waiters s ts"] tq(2) eW
      by (auto simp: event_waiters_def)
    have sc: "event_scan (evt_set (evt s i)) (event_waiters s (t # ts)) = (e, (t, g) # W)"
      using eW Some F(6) by simp
    have wk: "event_woke i e W s1 s'" using s'(2) eW by simp
    have rt: "is_ready s' t" "event_set (thr s' t) = g"
      using wk tW F(8,9) by (simp_all add: event_woke_def is_ready_def)
    have W: "is_ready s' u \<and> event_set (thr s' u) = g'" if "(u, g') \<in> set W" for u g'
      using wk that by (auto simp: event_woke_def)
    have rest: "tstat s' u = tstat s u \<and> event_set (thr s' u) = event_set (thr s u)"
      if "u \<noteq> t" "u \<notin> fst ` set W" for u
      using wk that F(12) by (simp add: event_woke_def)
    have "event_woke i e ((t, g) # W) s s'"
      unfolding event_woke_def
    proof (intro conjI)
      show "kinv s'" "evt_set (evt s' i) = e" using wk by (simp_all add: event_woke_def)
      show "evt_same s s'" using wk evt_same_trans[OF F(3)] by (simp add: event_woke_def)
      show "rt_current_thread s' = rt_current_thread s" "prio s' = prio s"
        using wk F(4,5) by (simp_all add: event_woke_def)
      show "tq s' (evt_queue i) = filter (\<lambda>u. u \<notin> fst ` set ((t, g) # W)) (tq s (evt_queue i))"
        using wk F(7) by (simp add: event_woke_def conj_commute)
      show "\<forall>u. err (thr s' u) = err (thr s u) \<and> event_info (thr s' u) = event_info (thr s u)"
        using wk F(10,11) by (simp add: event_woke_def)
      show "\<forall>(u, g') \<in> set ((t, g) # W). is_ready s' u \<and> event_set (thr s' u) = g'" using rt W by auto
      show "\<forall>u. u \<notin> fst ` set ((t, g) # W) \<longrightarrow>
          tstat s' u = tstat s u \<and> event_set (thr s' u) = event_set (thr s u)" using rest by auto
    qed
    then show ?thesis using s'(1) F(1) Some unfolding sc
      by (simp add: event_wake_step del: event_wake.simps)
  qed
qed

section \<open>Events under the invariant\<close>

text \<open>No waiter's condition holds for the flags of the event.\<close>

definition event_quiet :: "kernel \<Rightarrow> nat \<Rightarrow> bool" where
  "event_quiet s i =
    (\<forall>t \<in> set (tq s (evt_queue i)).
       event_match (evt_set (evt s i)) (event_set (thr s t)) (event_info (thr s t)) = None)"

definition event_ok :: "nat \<Rightarrow> kernel \<Rightarrow> bool" where
  "event_ok i s =
    (kinv s \<and> rt_current_thread s \<noteq> None
     \<and> rt_object_get_type (OEvent i) s = class_code RT_Object_Class_Event \<and> flag_ok s (OEvent i)
     \<and> event_quiet s i)"

interpretation event: waiting_object
  "\<lambda>i s. rt_object_get_type (OEvent i) s = class_code RT_Object_Class_Event \<and> flag_ok s (OEvent i)
     \<and> event_quiet s i"
proof
  fix i s s'
  assume e: "rt_object_get_type (OEvent i) s = class_code RT_Object_Class_Event \<and> flag_ok s (OEvent i)
     \<and> event_quiet s i" and k: "ipc_kept s s'"
  have "is_wait_head (evt_queue i)" by simp
  note K = ipc_keptD[OF k] and Q = ipc_keptD(11)[OF k this]
  have "event_quiet s' i" using e Q K(3,9,10) by (auto simp: event_quiet_def)
  then show "rt_object_get_type (OEvent i) s' = class_code RT_Object_Class_Event \<and> flag_ok s' (OEvent i)
     \<and> event_quiet s' i"
    using e K(7) K(13)[of "OEvent i"] by (simp add: flag_ok_def)
qed

lemma event_woke_quiet:
  assumes w: "event_woke i (fst (event_scan e (event_waiters s ts))) (snd (event_scan e (event_waiters s ts))) s s'"
    and ts: "ts = tq s (evt_queue i)"
  shows "event_quiet s' i"
  unfolding event_quiet_def
proof
  fix t
  let ?W = "snd (event_scan e (event_waiters s ts))"
  assume "t \<in> set (tq s' (evt_queue i))"
  then have t: "t \<in> set ts" "t \<notin> fst ` set ?W" using w ts by (auto simp: event_woke_def)
  then have "event_set (thr s' t) = event_set (thr s t)" "event_info (thr s' t) = event_info (thr s t)"
    "evt_set (evt s' i) = fst (event_scan e (event_waiters s ts))"
    using w by (auto simp: event_woke_def)
  moreover have "(t, event_set (thr s t), event_info (thr s t)) \<in> set (event_waiters s ts)"
    using t(1) by (simp add: event_waiters_def)
  ultimately show "event_match (evt_set (evt s' i)) (event_set (thr s' t)) (event_info (thr s' t)) = None"
    using event_scan_rest[OF _ t(2)] by simp
qed

text \<open>A scheduling step keeps what the waking established.\<close>

lemma event_woke_sched:
  assumes "event_woke i e W s s1" "sched_only s1 s'" "kinv s'" "rt_current_thread s' \<noteq> None"
    and "event_quiet s1 i"
  shows "evt_set (evt s' i) = e" "tq s' (evt_queue i) = filter (\<lambda>t. t \<notin> fst ` set W) (tq s (evt_queue i))"
    "\<forall>(t, g) \<in> set W. is_ready s' t \<and> event_set (thr s' t) = g" "event_quiet s' i" "evt_same s s'"
proof -
  note D = sched_onlyD[OF assms(2)] and S = sched_only_status[OF assms(2)]
  have "is_wait_head (evt_queue i)" by simp
  note Q = sched_only_queue[OF assms(2) this]
  have e: "evt s' = evt s1" using ipc_sameD(3)[OF ipc_same_sched[OF assms(2)]] .
  show "evt_set (evt s' i) = e" "tq s' (evt_queue i) = filter (\<lambda>t. t \<notin> fst ` set W) (tq s (evt_queue i))"
    using assms(1) e Q by (simp_all add: event_woke_def)
  show "\<forall>(t, g) \<in> set W. is_ready s' t \<and> event_set (thr s' t) = g"
    using assms(1) S D by (auto simp: event_woke_def)
  show "event_quiet s' i" using assms(5) Q D e by (simp add: event_quiet_def)
  show "evt_same s s'"
    using assms(1) evt_same_trans[OF _ evt_same_ipc[OF ipc_same_sched[OF assms(2)]]] by (simp add: event_woke_def)
qed

lemma event_send_total:
  assumes ok: "event_ok i s" and v: "v \<noteq> 0"
    and sc: "event_scan (evt_set (evt s i) OR v) (event_waiters s (tq s (evt_queue i))) = (e, W)"
  shows "\<exists>s'. rt_event_send i v s = Some (RT_EOK, s') \<and> event_ok i s' \<and> evt_set (evt s' i) = e
    \<and> tq s' (evt_queue i) = filter (\<lambda>t. t \<notin> fst ` set W) (tq s (evt_queue i))
    \<and> (\<forall>(t, g) \<in> set W. is_ready s' t \<and> event_set (thr s' t) = g)"
proof -
  let ?ts = "tq s (evt_queue i)"
  define s0 where "s0 = upd_evt i (\<lambda>x. x\<lparr>evt_set := evt_set x OR v\<rparr>) s"
  have d: "same_but_data s s0" by (simp add: s0_def)
  note D = same_but_dataD[OF d]
  have k: "kinv s0" using ok kinv_same_but_data[OF d] by (simp add: event_ok_def)
  have e0: "evt_set (evt s0 i) = evt_set (evt s i) OR v" by (simp add: s0_def upd_evt_def)
  have w0: "event_waiters s0 ?ts = event_waiters s ?ts" using D(2) by (simp add: event_waiters_def)
  have ds: "distinct ?ts" using queue_distinct[of s] ok by (simp add: event_ok_def)
  have "set ?ts \<subseteq> set (tq s0 (evt_queue i))" using D(1) by simp
  from event_wake_total[OF k ds this, of False] obtain s1 where
    s1: "event_wake i ?ts False s0 = Some (W \<noteq> [], s1)" "event_woke i e W s0 s1"
    unfolding w0 e0 sc by auto
  have q1: "event_quiet s1 i"
    by (rule event_woke_quiet[of _ "evt_set (evt s i) OR v" s0 ?ts])
      (use s1(2) D(1) sc in \<open>simp_all add: w0\<close>)
  have k1: "kinv s1" and c1: "rt_current_thread s1 \<noteq> None"
    using s1(2) D(7) ok by (simp_all add: event_woke_def event_ok_def)
  have "\<exists>s'. (if W \<noteq> [] then rt_schedule s1 else Some s1) = Some s' \<and> kinv s' \<and> sched_only s1 s'
      \<and> rt_current_thread s' \<noteq> None"
  proof (cases "W \<noteq> []")
    case True
    obtain c where "rt_current_thread s1 = Some c" using c1 by auto
    moreover obtain t g where "(t, g) \<in> set W" using True by (cases W) auto
    then have "is_ready s1 t" using s1(2) by (auto simp: event_woke_def)
    ultimately show ?thesis using rt_schedule_step[OF k1] True by fastforce
  qed (use k1 c1 in auto)
  then obtain s' where s': "(if W \<noteq> [] then rt_schedule s1 else Some s1) = Some s'" "kinv s'"
    "sched_only s1 s'" "rt_current_thread s' \<noteq> None" by auto
  note E = event_woke_sched[OF s1(2) s'(3,2,4) q1]
  have sm: "evt_same s s'" by (rule evt_same_trans[OF _ E(5)]) (simp add: s0_def evt_same_upd)
  have "rt_event_send i v s = Some (RT_EOK, s')"
    using ok v s1(1) s'(1) D(1) by (simp add: rt_event_send_def event_ok_def s0_def[symmetric])
  moreover have "event_ok i s'"
    using ok s'(2,4) E(4) evt_sameD[OF sm] by (simp add: event_ok_def flag_ok_def)
  ultimately show ?thesis using E(1,2,3) D(1) by auto
qed

section \<open>Receiving\<close>

definition event_option_ok :: "rt_uint8 \<Rightarrow> bool" where
  "event_option_ok option = (option AND RT_EVENT_FLAG_AND \<noteq> 0 \<or> option AND RT_EVENT_FLAG_OR \<noteq> 0)"

lemma event_status_match:
  "event_option_ok option \<Longrightarrow> event_status e v option = Some (event_match e v option \<noteq> None)"
  by (auto simp: event_status_def event_match_def event_option_ok_def and.commute)

lemma event_quiet_clear:
  assumes "event_quiet s i" "tq s' = tq s" "flags_within (evt_set (evt s' i)) (evt_set (evt s i))"
    "\<And>t. event_set (thr s' t) = event_set (thr s t) \<and> event_info (thr s' t) = event_info (thr s t)"
  shows "event_quiet s' i"
  using assms event_match_mono[OF _ assms(3)] by (simp add: event_quiet_def)

lemma event_ok_set_err [simp]: "event_ok i (set_err t e s) = event_ok i s"
  by (simp add: event_ok_def flag_ok_def event_quiet_def)

lemma event_recv_given:
  assumes ok: "event_ok i s" and b: "can_block s c" and v: "v \<noteq> 0" and o: "event_option_ok option"
    and g: "event_match (evt_set (evt s i)) v option \<noteq> None"
  shows "\<exists>s'. rt_event_recv i v option time want s
      = Some (Done (RT_EOK, if want then Some (evt_set (evt s i) AND v) else None), s')
    \<and> event_ok i s' \<and> prio s' = prio s
    \<and> evt_set (evt s' i) = (if option AND RT_EVENT_FLAG_CLEAR \<noteq> 0
        then evt_set (evt s i) AND NOT v else evt_set (evt s i))"
proof -
  let ?e = "set_err c RT_EOK s"
  define s' where "s' = (if option AND RT_EVENT_FLAG_CLEAR \<noteq> 0
    then upd_evt i (\<lambda>x. x\<lparr>evt_set := evt_set x AND NOT v\<rparr>) ?e else ?e)"
  have c: "rt_current_thread s = Some c" using b by (simp add: can_block_def)
  have d: "same_but_data ?e s'" unfolding s'_def by (simp add: same_but_data_def upd_evt_def)
  note D = same_but_dataD[OF d]
  have es: "evt_set (evt s' i) = (if option AND RT_EVENT_FLAG_CLEAR \<noteq> 0
        then evt_set (evt s i) AND NOT v else evt_set (evt s i))"
    by (simp add: s'_def upd_evt_def)
  have "event_ok i ?e" using ok by simp
  moreover have "event_quiet s' i"
    by (rule event_quiet_clear[of ?e]) (use calculation D(1,2) es in \<open>simp_all add: event_ok_def\<close>)
  ultimately have "event_ok i s'"
    using kinv_same_but_data[OF d] D(3,7,11) by (simp add: event_ok_def flag_ok_def)
  moreover have "rt_event_recv i v option time want s
      = Some (Done (RT_EOK, if want then Some (evt_set (evt s i) AND v) else None), s')"
    using ok v g c event_status_match[OF o] in_thread_context_ok[OF b]
    by (simp add: rt_event_recv_def event_ok_def rt_thread_self_def s'_def Let_def) (simp add: kernel_defs)
  ultimately show ?thesis using es D(13) by auto
qed

lemma event_recv_nowait:
  assumes ok: "event_ok i s" and b: "can_block s c" and v: "v \<noteq> 0" and o: "event_option_ok option"
    and g: "event_match (evt_set (evt s i)) v option = None"
  shows "rt_event_recv i v option 0 want s
      = Some (Done (- RT_ETIMEOUT, None), set_err c (- RT_ETIMEOUT) s)"
proof -
  have c: "rt_current_thread s = Some c" using b by (simp add: can_block_def)
  have "set_err c (- RT_ETIMEOUT) (set_err c RT_EOK s) = set_err c (- RT_ETIMEOUT) s"
    by (simp add: kernel_defs)
  then show ?thesis
    using ok v g c event_status_match[OF o] in_thread_context_ok[OF b]
    by (simp add: rt_event_recv_def event_ok_def rt_thread_self_def Let_def)
qed

lemma event_recv_waits:
  assumes ok: "event_ok i s" and b: "can_block s c" and v: "v \<noteq> 0" and o: "event_option_ok option"
    and g: "event_match (evt_set (evt s i)) v option = None" and t: "time \<noteq> 0" "time < 0x7fffffff"
  shows "\<exists>s'. rt_event_recv i v option time want s = Some (Blocked, s') \<and> event_ok i s' \<and> evt s' = evt s
    \<and> is_suspended s' c \<and> runs_best s' \<and> event_set (thr s' c) = v \<and> event_info (thr s' c) = option
    \<and> tq s' (evt_queue i) = wait_insert (ipc_flag s (OEvent i)) s c (tq s (evt_queue i))"
proof -
  let ?s = "set_event c v option (set_err c RT_EOK s)"
  have c: "rt_current_thread ?s = Some c" "is_ready ?s c" using b by (simp_all add: can_block_def)
  have c0: "rt_current_thread s = Some c" using b by (simp add: can_block_def)
  have f: "ipc_flag s (OEvent i) = RT_IPC_FLAG_FIFO \<or> ipc_flag s (OEvent i) = RT_IPC_FLAG_PRIO"
    using ok by (simp add: event_ok_def flag_ok_def)
  have h: "is_wait_head (evt_queue i)" by simp
  have "kinv ?s" using ok by (simp add: event_ok_def)
  from ipc_wait_total[OF this c h f t(2)] obtain s1 where
    s1: "ipc_wait (evt_queue i) c (ipc_flag s (OEvent i)) time ?s = Some s1"
    "waits (evt_queue i) c (ipc_flag s (OEvent i)) time ?s s1" by auto
  have "can_block ?s c" using b by simp
  from waits_blocks[OF this s1(2)] obtain s' where
    s': "after_schedule c (rt_event_recv_wake c want) s1 = Some (Blocked, s')"
    "blocked (evt_queue i) c (ipc_flag s (OEvent i)) time ?s s'" by blast
  note B = blockedD[OF s'(2) h]
  have e: "rt_event_recv i v option time want s = Some (Blocked, s')"
    using ok v g c0 t s1(1) s'(1) event_status_match[OF o] in_thread_context_ok[OF b]
    by (simp add: rt_event_recv_def event_ok_def rt_thread_self_def Let_def set_event_def[symmetric])
  have q: "tq s' (evt_queue i) = wait_insert (ipc_flag s (OEvent i)) s c (tq s (evt_queue i))"
    using B(4) by (simp add: wait_insert_def)
  have "event_quiet s' i"
    unfolding event_quiet_def
  proof
    fix u
    assume "u \<in> set (tq s' (evt_queue i))"
    then have "u = c \<or> u \<in> set (tq s (evt_queue i))" unfolding q by simp
    then show "event_match (evt_set (evt s' i)) (event_set (thr s' u)) (event_info (thr s' u)) = None"
      using ok g B(7,16,17) by (auto simp: event_ok_def event_quiet_def)
  qed
  moreover have "ipc_same s s'"
    by (rule ipc_same_trans[OF ipc_same_trans[OF ipc_same_set_err set_event_simps(13)] B(12)])
  ultimately have "event_ok i s'"
    using ok B(1) blocked_current[OF s'(2)] ipc_sameD(10) ipc_same_flag[of s s' "OEvent i"]
    by (simp add: event_ok_def flag_ok_def)
  then show ?thesis using e B(2,3,7,16,17) q by auto
qed

section \<open>Properties\<close>

text \<open>C35. Sending flags to an event never fails. The flags of the event and the flags each woken
  thread gets are those of the abstract scan of the waiters in queue order; the woken threads
  are ready, the other ones keep waiting in their order, and no condition of a thread that
  still waits holds for the remaining flags, so that no wake-up is lost.\<close>

theorem rt_event_send_correct:
  assumes "event_ok i s" "v \<noteq> 0"
    and "event_scan (evt_set (evt s i) OR v) (event_waiters s (tq s (evt_queue i))) = (e, W)"
  shows "\<exists>s'. rt_event_send i v s = Some (RT_EOK, s') \<and> event_ok i s' \<and> evt_set (evt s' i) = e
    \<and> tq s' (evt_queue i) = filter (\<lambda>t. t \<notin> fst ` set W) (tq s (evt_queue i))
    \<and> (\<forall>(t, g) \<in> set W. is_ready s' t \<and> event_set (thr s' t) = g \<and> g AND (evt_set (evt s i) OR v) = g)"
proof -
  have "g AND (evt_set (evt s i) OR v) = g" if "(t, g) \<in> set W" for t g
    using event_scan_woken[of t g "evt_set (evt s i) OR v" "event_waiters s (tq s (evt_queue i))"] that assms(3)
    by (auto simp: flags_within_def)
  with event_send_total[OF assms] show ?thesis by fastforce
qed

text \<open>Thread 0 waits for flags 3 of event 0, for any of them and clearing them; thread 1 sends
  flag 2.\<close>

lemma event_ok_demo: "event_ok i demo"
  by (simp add: event_ok_def flag_ok_def event_quiet_def RT_IPC_FLAG_FIFO_def del: class_code.simps)

lemma evt_demo: "evt_set (evt demo i) = 0"
  by (simp add: demo_def)

lemma event_demo_waits:
  "\<exists>s'. rt_event_recv 0 3 6 5 True demo = Some (Blocked, s') \<and> event_ok 0 s' \<and> evt_set (evt s' 0) = 0
    \<and> event_set (thr s' 0) = 3 \<and> event_info (thr s' 0) = 6 \<and> tq s' (evt_queue 0) = [0]"
proof -
  have "event_option_ok 6" by (simp add: event_option_ok_def flag_simps)
  moreover have "event_match (evt_set (evt demo 0)) 3 6 = None" by (simp add: event_match_def evt_demo flag_simps)
  ultimately have "\<exists>s'. rt_event_recv 0 3 6 5 True demo = Some (Blocked, s') \<and> event_ok 0 s' \<and> evt s' = evt demo
    \<and> is_suspended s' 0 \<and> runs_best s' \<and> event_set (thr s' 0) = 3 \<and> event_info (thr s' 0) = 6
    \<and> tq s' (evt_queue 0) = wait_insert (ipc_flag demo (OEvent 0)) demo 0 (tq demo (evt_queue 0))"
    by (intro event_recv_waits[OF event_ok_demo can_block_demo]) simp_all
  then show ?thesis using evt_demo by (auto simp: wait_insert_def RT_IPC_FLAG_FIFO_def)
qed

lemma rt_event_send_correct_witness:
  "\<exists>s s'. rt_event_send 0 2 s = Some (RT_EOK, s') \<and> evt_set (evt s' 0) = 0 \<and> tq s' (evt_queue 0) = []
     \<and> is_ready s' 0 \<and> event_set (thr s' 0) = 2"
proof -
  obtain s where s: "event_ok 0 s" "evt_set (evt s 0) = 0" "event_set (thr s 0) = 3" "event_info (thr s 0) = 6"
    "tq s (evt_queue 0) = [0]" using event_demo_waits by blast
  have "event_scan (evt_set (evt s 0) OR 2) (event_waiters s (tq s (evt_queue 0))) = (0, [(0, 2)])"
    using s by (simp add: event_match_def flag_simps)
  from rt_event_send_correct[OF s(1) _ this] obtain s' where
    "rt_event_send 0 2 s = Some (RT_EOK, s')" "evt_set (evt s' 0) = 0" "tq s' (evt_queue 0) = []"
    "is_ready s' 0" "event_set (thr s' 0) = 2" using s(5) by auto
  then show ?thesis by blast
qed

text \<open>Receiving from an event. When the condition holds, the call succeeds at once, gives the
  flags that are set among those asked for and clears the asked ones if told to; otherwise it
  fails with a timeout when there is no waiting time, or the thread waits in the queue with
  its flags and options recorded, while the event keeps its flags.\<close>

theorem rt_event_recv_correct:
  assumes "event_ok i s" "can_block s c" "v \<noteq> 0" "event_option_ok option" "time < 0x7fffffff"
  shows "(event_match (evt_set (evt s i)) v option \<noteq> None \<longrightarrow>
      (\<exists>s'. rt_event_recv i v option time want s
        = Some (Done (RT_EOK, if want then Some (evt_set (evt s i) AND v) else None), s') \<and> event_ok i s'
        \<and> evt_set (evt s' i) = (if option AND RT_EVENT_FLAG_CLEAR \<noteq> 0
             then evt_set (evt s i) AND NOT v else evt_set (evt s i))))
    \<and> (event_match (evt_set (evt s i)) v option = None \<and> time = 0 \<longrightarrow>
        rt_event_recv i v option time want s = Some (Done (- RT_ETIMEOUT, None), set_err c (- RT_ETIMEOUT) s))
    \<and> (event_match (evt_set (evt s i)) v option = None \<and> time \<noteq> 0 \<longrightarrow>
      (\<exists>s'. rt_event_recv i v option time want s = Some (Blocked, s') \<and> event_ok i s' \<and> evt s' = evt s
        \<and> is_suspended s' c \<and> runs_best s' \<and> event_set (thr s' c) = v \<and> event_info (thr s' c) = option
        \<and> tq s' (evt_queue i) = wait_insert (ipc_flag s (OEvent i)) s c (tq s (evt_queue i))))"
  using event_recv_given[OF assms(1-4)] event_recv_nowait[OF assms(1-4)]
    event_recv_waits[OF assms(1-4) _ _ assms(5)] by blast

lemma rt_event_recv_correct_witness:
  "rt_event_recv 0 3 6 0 True demo = Some (Done (- RT_ETIMEOUT, None), set_err 0 (- RT_ETIMEOUT) demo)"
proof -
  have "event_option_ok 6" by (simp add: event_option_ok_def flag_simps)
  moreover have "event_match (evt_set (evt demo 0)) 3 6 = None" by (simp add: event_match_def evt_demo flag_simps)
  ultimately show ?thesis
    using rt_event_recv_correct[OF event_ok_demo can_block_demo, of 3 6 0 0 True] by simp
qed

end
