(* ===== verification/RT_Queue.thy ===== *)
theory RT_Queue
  imports RT_Prelude
begin

text \<open>The interface of a bounded first-in first-out queue, and index arithmetic of rings.
  Mailboxes, message queues and ring buffers provide it.\<close>

section \<open>Bounded queues\<close>

datatype 'a qop = Put 'a | Get

locale bounded_fifo =
  fixes inv :: "'q \<Rightarrow> bool" and cap :: "'q \<Rightarrow> nat" and items :: "'q \<Rightarrow> 'a list"
    and fits :: "'q \<Rightarrow> 'a \<Rightarrow> bool" and put :: "'a \<Rightarrow> 'q \<Rightarrow> 'q" and get :: "'q \<Rightarrow> 'a \<times> 'q"
  assumes items_le: "inv q \<Longrightarrow> length (items q) \<le> cap q"
    and put_inv: "inv q \<Longrightarrow> length (items q) < cap q \<Longrightarrow> fits q x \<Longrightarrow> inv (put x q)"
    and put_items: "inv q \<Longrightarrow> length (items q) < cap q \<Longrightarrow> fits q x \<Longrightarrow> items (put x q) = items q @ [x]"
    and put_cap: "inv q \<Longrightarrow> length (items q) < cap q \<Longrightarrow> fits q x \<Longrightarrow> cap (put x q) = cap q"
    and get_inv: "inv q \<Longrightarrow> items q \<noteq> [] \<Longrightarrow> inv (snd (get q))"
    and get_item: "inv q \<Longrightarrow> items q \<noteq> [] \<Longrightarrow> fst (get q) = hd (items q)"
    and get_items: "inv q \<Longrightarrow> items q \<noteq> [] \<Longrightarrow> items (snd (get q)) = tl (items q)"
    and get_cap: "inv q \<Longrightarrow> items q \<noteq> [] \<Longrightarrow> cap (snd (get q)) = cap q"
begin

text \<open>A sequence of operations: what was accepted, what came out and the queue at the end. A put
  on a full queue or of an item that does not fit and a get on an empty one do nothing.\<close>

fun run :: "'a qop list \<Rightarrow> 'q \<Rightarrow> 'a list \<times> 'a list \<times> 'q" where
  "run [] q = ([], [], q)"
| "run (Put x # os) q =
    (if length (items q) < cap q \<and> fits q x
     then (let (ins, outs, q') = run os (put x q) in (x # ins, outs, q')) else run os q)"
| "run (Get # os) q =
    (if items q \<noteq> []
     then (let (ins, outs, q') = run os (snd (get q)) in (ins, fst (get q) # outs, q')) else run os q)"

theorem run_fifo:
  assumes "inv q" "run os q = (ins, outs, q')"
  shows "items q @ ins = outs @ items q' \<and> inv q' \<and> cap q' = cap q"
  using assms
proof (induction os q arbitrary: ins outs q' rule: run.induct)
  case (1 q)
  then show ?case by simp
next
  case (2 x os q)
  show ?case
  proof (cases "length (items q) < cap q \<and> fits q x")
    case True
    then have l: "length (items q) < cap q" "fits q x" by simp_all
    obtain a b q1 where r: "run os (put x q) = (a, b, q1)" by (metis prod_cases3)
    from "2.IH"(1)[OF True put_inv[OF "2.prems"(1) l] r]
    show ?thesis using True r "2.prems" put_items[OF "2.prems"(1) l] put_cap[OF "2.prems"(1) l] by auto
  next
    case False
    then have "run os q = (ins, outs, q')" using "2.prems"(2) by (simp only: run.simps if_False)
    from "2.IH"(2)[OF False "2.prems"(1) this] show ?thesis .
  qed
next
  case (3 os q)
  show ?case
  proof (cases "items q \<noteq> []")
    case True
    obtain a b q1 where r: "run os (snd (get q)) = (a, b, q1)" by (metis prod_cases3)
    from "3.IH"(1)[OF True get_inv[OF "3.prems"(1) True] r]
    show ?thesis using True r "3.prems" get_item get_items get_cap by (cases "items q") auto
  next
    case False
    then have "run os q = (ins, outs, q')" using "3.prems"(2) by simp
    from "3.IH"(2)[OF False "3.prems"(1) this] show ?thesis .
  qed
qed

end

text \<open>A queue that also takes items at its front.\<close>

locale bounded_deque = bounded_fifo inv cap items fits put get
  for inv :: "'q \<Rightarrow> bool" and cap :: "'q \<Rightarrow> nat" and items :: "'q \<Rightarrow> 'a list"
    and fits :: "'q \<Rightarrow> 'a \<Rightarrow> bool" and put :: "'a \<Rightarrow> 'q \<Rightarrow> 'q" and get :: "'q \<Rightarrow> 'a \<times> 'q" +
  fixes push :: "'a \<Rightarrow> 'q \<Rightarrow> 'q"
  assumes push_inv: "inv q \<Longrightarrow> length (items q) < cap q \<Longrightarrow> fits q x \<Longrightarrow> inv (push x q)"
    and push_items: "inv q \<Longrightarrow> length (items q) < cap q \<Longrightarrow> fits q x \<Longrightarrow> items (push x q) = x # items q"
begin

lemma pushed_next:
  assumes "inv q" "length (items q) < cap q" "fits q x"
  shows "fst (get (push x q)) = x \<and> items (snd (get (push x q))) = items q"
  using get_item get_items push_inv[OF assms] push_items[OF assms] by auto

end

section \<open>Rings\<close>

definition ring_items :: "'a list \<Rightarrow> nat \<Rightarrow> nat \<Rightarrow> nat \<Rightarrow> 'a list" where
  "ring_items pool n out k = map (\<lambda>j. pool ! ((out + j) mod n)) [0..<k]"

lemma ring_items_length [simp]: "length (ring_items pool n out k) = k"
  by (simp add: ring_items_def)

lemma ring_items_put:
  assumes "n \<le> length pool" "k < n"
  shows "ring_items (pool[(out + k) mod n := x]) n out (Suc k) = ring_items pool n out k @ [x]"
proof -
  have "(out + k) mod n \<noteq> (out + j) mod n" if "j < k" for j
  proof
    assume "(out + k) mod n = (out + j) mod n"
    then have "n dvd k - j" using mod_eq_dvd_iff_nat[of "out + j" "out + k" n] that by simp
    then show False using that assms(2) by (auto dest: dvd_imp_le)
  qed
  moreover have "(out + k) mod n < length pool"
    using assms by (metis mod_less_divisor less_le_trans not_less_zero neq0_conv)
  ultimately show ?thesis by (auto simp: ring_items_def nth_list_update)
qed

lemma ring_items_get:
  assumes "0 < k" "out < n"
  shows "ring_items pool n out k = pool ! out # ring_items pool n (Suc out mod n) (k - 1)"
proof -
  obtain k' where k': "k = Suc k'" using assms(1) by (cases k) auto
  show ?thesis unfolding ring_items_def k'
    using assms(2) by (simp add: map_upt_Suc mod_simps del: upt_Suc)
qed

text \<open>The step of an index: \<^verbatim>\<open>++ i; if (i >= n) i = 0\<close> on 16-bit numbers.\<close>

definition ring_next :: "16 word \<Rightarrow> 16 word \<Rightarrow> 16 word" where
  "ring_next i n = (if i + 1 \<ge> n then 0 else i + 1)"

lemma ring_next_mod:
  assumes "i < n"
  shows "unat (ring_next i n) = Suc (unat i) mod unat n"
proof -
  have l: "unat i < unat n" "unat n < 2 ^ 16"
    using assms unsigned_less[of n] by (simp_all add: word_less_nat_alt)
  then have s: "unat (i + 1) = Suc (unat i)" by (simp add: unat_word_ariths)
  show ?thesis
  proof (cases "Suc (unat i) = unat n")
    case True
    then have "i + 1 \<ge> n" using s by (simp add: word_le_nat_alt)
    then show ?thesis using True by (simp add: ring_next_def)
  next
    case False
    then have "\<not> i + 1 \<ge> n" using s l by (simp add: word_le_nat_alt)
    then show ?thesis using False l s by (simp add: ring_next_def)
  qed
qed

text \<open>An access outside of its array is undefined behaviour.\<close>

definition in_bounds :: "bool \<Rightarrow> unit option" where
  "in_bounds b = (if b then Some () else None)"

lemma in_bounds_Some [simp]: "(in_bounds b = Some u) = b" "in_bounds True = Some ()"
  by (simp_all add: in_bounds_def)

end
