(* ===== verification/RT_Mailbox.thy ===== *)
theory RT_Mailbox
  imports RT_Sem_Run RT_Queue
begin

text \<open>The mailboxes of src/ipc.c: a ring of words with a queue of waiting receivers and one of
  waiting senders. The ring implements the interface of a bounded queue.\<close>

section \<open>Operations\<close>

abbreviation mb_recvq :: "nat \<Rightarrow> lhead" where
  "mb_recvq i \<equiv> WaitQ (OMailbox i)"

definition mb_empty :: "rt_mailbox \<Rightarrow> rt_mailbox" where
  "mb_empty m = m\<lparr>mb_entry := 0, in_offset := 0, out_offset := 0\<rparr>"

text \<open>The message pool is its address and the words it holds. The size of a mailbox is an
  \<^verbatim>\<open>rt_size_t\<close> argument stored in 16 bits.\<close>

definition rt_mb_init ::
  "nat \<Rightarrow> rt_uint8 list \<Rightarrow> rt_uint32 \<Rightarrow> rt_uint32 list \<Rightarrow> rt_size \<Rightarrow> rt_uint8 \<Rightarrow> kernel \<Rightarrow> (rt_err \<times> kernel) option"
  where
  "rt_mb_init i nm msgpool words sz flag s = do {
     s \<leftarrow> rt_object_init (OMailbox i) RT_Object_Class_MailBox nm s;
     let s = set_obj_flag (OMailbox i) flag s;
     let s = rt_ipc_object_init (mb_recvq i) s;
     let s = upd_mbx i (\<lambda>m. mb_empty (m\<lparr>mb_addr := msgpool, mb_pool := words, mb_size := ucast sz\<rparr>)) s;
     Some (RT_EOK, tlist_init (SendQ i) s)
   }"

definition rt_mb_detach :: "nat \<Rightarrow> kernel \<Rightarrow> (rt_err \<times> kernel) option" where
  "rt_mb_detach i s = do {
     RT_ASSERT (rt_object_get_type (OMailbox i) s = class_code RT_Object_Class_MailBox);
     RT_ASSERT (rt_object_is_systemobject (OMailbox i) s);
     s \<leftarrow> rt_ipc_list_resume_all (mb_recvq i) s;
     s \<leftarrow> rt_ipc_list_resume_all (SendQ i) s;
     Some (RT_EOK, rt_object_detach (OMailbox i) s)
   }"

text \<open>\<^verbatim>\<open>pool\<close> is the answer of \<^verbatim>\<open>RT_KERNEL_MALLOC\<close> for the message pool: its address and what the
  memory holds, or nothing.\<close>

definition rt_mb_create ::
  "objref option \<Rightarrow> (rt_uint32 \<times> rt_uint32 list) option \<Rightarrow> rt_uint8 list \<Rightarrow> rt_size \<Rightarrow> rt_uint8 \<Rightarrow> kernel
    \<Rightarrow> (objref option \<times> kernel) option" where
  "rt_mb_create mem pool nm sz flag s = do {
     not_in_interrupt s;
     (ob, s) \<leftarrow> rt_object_allocate mem RT_Object_Class_MailBox nm s;
     (case ob of
        Some (OMailbox i) \<Rightarrow>
          (let s = set_obj_flag (OMailbox i) flag s;
               s = rt_ipc_object_init (mb_recvq i) s;
               s = upd_mbx i (\<lambda>m. m\<lparr>mb_size := ucast sz\<rparr>) s
           in case pool of
                None \<Rightarrow> do {
                  s \<leftarrow> rt_object_delete (OMailbox i) s;
                  Some (None, s)
                }
              | Some (a, words) \<Rightarrow>
                  Some (ob, tlist_init (SendQ i)
                    (upd_mbx i (\<lambda>m. mb_empty (m\<lparr>mb_addr := a, mb_pool := words\<rparr>)) s)))
      | _ \<Rightarrow> Some (None, s))
   }"

definition kernel_free :: "rt_uint32 \<Rightarrow> kernel \<Rightarrow> kernel" where
  "kernel_free a s = s\<lparr>freed_mem := a # freed_mem s\<rparr>"

definition rt_mb_delete :: "nat \<Rightarrow> kernel \<Rightarrow> (rt_err \<times> kernel) option" where
  "rt_mb_delete i s = do {
     not_in_interrupt s;
     RT_ASSERT (rt_object_get_type (OMailbox i) s = class_code RT_Object_Class_MailBox);
     RT_ASSERT (\<not> rt_object_is_systemobject (OMailbox i) s);
     s \<leftarrow> rt_ipc_list_resume_all (mb_recvq i) s;
     s \<leftarrow> rt_ipc_list_resume_all (SendQ i) s;
     let s = kernel_free (mb_addr (mbx s i)) s;
     s \<leftarrow> rt_object_delete (OMailbox i) s;
     Some (RT_EOK, s)
   }"

text \<open>The ring.\<close>

definition mb_put :: "rt_uint32 \<Rightarrow> rt_mailbox \<Rightarrow> rt_mailbox" where
  "mb_put v m = m\<lparr>mb_pool := (mb_pool m)[unat (in_offset m) := v],
     in_offset := ring_next (in_offset m) (mb_size m), mb_entry := mb_entry m + 1\<rparr>"

definition mb_get :: "rt_mailbox \<Rightarrow> rt_uint32 \<times> rt_mailbox" where
  "mb_get m = (mb_pool m ! unat (out_offset m),
     m\<lparr>out_offset := ring_next (out_offset m) (mb_size m), mb_entry := mb_entry m - 1\<rparr>)"

text \<open>Waking the first thread of a queue, if there is one.\<close>

definition wake_first :: "lhead \<Rightarrow> kernel \<Rightarrow> kernel option" where
  "wake_first h s = (if tq s h \<noteq> [] then do {
       s \<leftarrow> rt_ipc_list_resume h s;
       rt_schedule s
     } else Some s)"

definition mb_deliver :: "nat \<Rightarrow> rt_uint32 \<Rightarrow> kernel \<Rightarrow> (rt_err call \<times> kernel) option" where
  "mb_deliver i v s = do {
     in_bounds (unat (in_offset (mbx s i)) < length (mb_pool (mbx s i)));
     let s = upd_mbx i (mb_put v) s;
     s \<leftarrow> wake_first (mb_recvq i) s;
     Some (Done RT_EOK, s)
   }"

definition mb_collect :: "nat \<Rightarrow> kernel \<Rightarrow> ((rt_err \<times> rt_uint32 option) call \<times> kernel) option" where
  "mb_collect i s = do {
     in_bounds (unat (out_offset (mbx s i)) < length (mb_pool (mbx s i)));
     let v = fst (mb_get (mbx s i));
     let s = upd_mbx i (\<lambda>m. snd (mb_get m)) s;
     s \<leftarrow> wake_first (SendQ i) s;
     Some (Done (RT_EOK, Some v), s)
   }"

text \<open>What is left of a waiting time: \<^verbatim>\<open>timeout -= rt_tick_get () - tick_delta\<close> with 32-bit
  arithmetic, and 0 instead of a negative number.\<close>

definition time_left :: "int \<Rightarrow> rt_tick \<Rightarrow> rt_tick \<Rightarrow> int" where
  "time_left timeout start now =
    (if timeout > 0 then max 0 (sint (word_of_int timeout - (now - start))) else timeout)"

text \<open>The loops of \<^verbatim>\<open>rt_mb_send_wait\<close> and \<^verbatim>\<open>rt_mb_recv\<close>. Nothing bounds the number of rounds of a
  thread that waits for ever.\<close>

partial_function (option) mb_send_loop ::
  "nat \<Rightarrow> rt_uint32 \<Rightarrow> int \<Rightarrow> kernel \<Rightarrow> (rt_err call \<times> kernel) option" where
  "mb_send_loop i v timeout s =
    (if mb_entry (mbx s i) \<noteq> mb_size (mbx s i) then mb_deliver i v s
     else Option.bind (rt_thread_self s) (\<lambda>t. let s = set_err t RT_EOK s in
       if timeout = 0 then Some (Done (- RT_EFULL), s)
       else Option.bind (in_thread_context s) (\<lambda>u.
         Option.bind (ipc_wait (SendQ i) t (ipc_flag s (OMailbox i)) timeout s) (\<lambda>s1.
         Option.bind (rt_schedule s1) (\<lambda>s2.
           if rt_current_thread s2 \<noteq> Some t then Some (Blocked, s2)
           else if err (thr s2 t) \<noteq> RT_EOK then Some (Done (err (thr s2 t)), s2)
           else mb_send_loop i v (time_left timeout (rt_tick s) (rt_tick s2)) s2)))))"

definition rt_mb_send_wake ::
  "nat \<Rightarrow> nat \<Rightarrow> rt_uint32 \<Rightarrow> int \<Rightarrow> rt_tick \<Rightarrow> kernel \<Rightarrow> (rt_err call \<times> kernel) option" where
  "rt_mb_send_wake i t v timeout start s =
    (if err (thr s t) \<noteq> RT_EOK then Some (Done (err (thr s t)), s)
     else mb_send_loop i v (time_left timeout start (rt_tick s)) s)"

definition rt_mb_send_wait :: "nat \<Rightarrow> rt_uint32 \<Rightarrow> int \<Rightarrow> kernel \<Rightarrow> (rt_err call \<times> kernel) option" where
  "rt_mb_send_wait i v timeout s = do {
     RT_ASSERT (rt_object_get_type (OMailbox i) s = class_code RT_Object_Class_MailBox);
     (if mb_entry (mbx s i) = mb_size (mbx s i) \<and> timeout = 0 then Some (Done (- RT_EFULL), s)
      else mb_send_loop i v timeout s)
   }"

definition rt_mb_send :: "nat \<Rightarrow> rt_uint32 \<Rightarrow> kernel \<Rightarrow> (rt_err call \<times> kernel) option" where
  "rt_mb_send i v s = rt_mb_send_wait i v 0 s"

partial_function (option) mb_recv_loop ::
  "nat \<Rightarrow> int \<Rightarrow> kernel \<Rightarrow> ((rt_err \<times> rt_uint32 option) call \<times> kernel) option" where
  "mb_recv_loop i timeout s =
    (if mb_entry (mbx s i) \<noteq> 0 then mb_collect i s
     else Option.bind (rt_thread_self s) (\<lambda>t. let s = set_err t RT_EOK s in
       if timeout = 0 then Some (Done (- RT_ETIMEOUT, None), set_err t (- RT_ETIMEOUT) s)
       else Option.bind (in_thread_context s) (\<lambda>u.
         Option.bind (ipc_wait (mb_recvq i) t (ipc_flag s (OMailbox i)) timeout s) (\<lambda>s1.
         Option.bind (rt_schedule s1) (\<lambda>s2.
           if rt_current_thread s2 \<noteq> Some t then Some (Blocked, s2)
           else if err (thr s2 t) \<noteq> RT_EOK then Some (Done (err (thr s2 t), None), s2)
           else mb_recv_loop i (time_left timeout (rt_tick s) (rt_tick s2)) s2)))))"

definition rt_mb_recv_wake ::
  "nat \<Rightarrow> nat \<Rightarrow> int \<Rightarrow> rt_tick \<Rightarrow> kernel \<Rightarrow> ((rt_err \<times> rt_uint32 option) call \<times> kernel) option" where
  "rt_mb_recv_wake i t timeout start s =
    (if err (thr s t) \<noteq> RT_EOK then Some (Done (err (thr s t), None), s)
     else mb_recv_loop i (time_left timeout start (rt_tick s)) s)"

definition rt_mb_recv ::
  "nat \<Rightarrow> int \<Rightarrow> kernel \<Rightarrow> ((rt_err \<times> rt_uint32 option) call \<times> kernel) option" where
  "rt_mb_recv i timeout s = do {
     RT_ASSERT (rt_object_get_type (OMailbox i) s = class_code RT_Object_Class_MailBox);
     (if mb_entry (mbx s i) = 0 \<and> timeout = 0 then Some (Done (- RT_ETIMEOUT, None), s)
      else mb_recv_loop i timeout s)
   }"

definition rt_mb_control :: "nat \<Rightarrow> int \<Rightarrow> kernel \<Rightarrow> (rt_err \<times> kernel) option" where
  "rt_mb_control i cmd s = do {
     RT_ASSERT (rt_object_get_type (OMailbox i) s = class_code RT_Object_Class_MailBox);
     (if cmd = RT_IPC_CMD_RESET then do {
        s \<leftarrow> rt_ipc_list_resume_all (mb_recvq i) s;
        s \<leftarrow> rt_ipc_list_resume_all (SendQ i) s;
        let s = upd_mbx i mb_empty s;
        s \<leftarrow> rt_schedule s;
        Some (RT_EOK, s)
      } else Some (- RT_ERROR, s))
   }"

section \<open>The ring is a bounded queue\<close>

definition mb_inv :: "rt_mailbox \<Rightarrow> bool" where
  "mb_inv m =
    (unat (mb_size m) \<le> length (mb_pool m) \<and> mb_entry m \<le> mb_size m
     \<and> (mb_size m \<noteq> 0 \<longrightarrow> out_offset m < mb_size m
          \<and> unat (in_offset m) = (unat (out_offset m) + unat (mb_entry m)) mod unat (mb_size m)))"

definition mb_cap :: "rt_mailbox \<Rightarrow> nat" where
  "mb_cap m = unat (mb_size m)"

definition mb_items :: "rt_mailbox \<Rightarrow> rt_uint32 list" where
  "mb_items m = ring_items (mb_pool m) (unat (mb_size m)) (unat (out_offset m)) (unat (mb_entry m))"

lemma mb_items_length [simp]: "length (mb_items m) = unat (mb_entry m)"
  by (simp add: mb_items_def)

lemma mb_items_Nil [simp]: "(mb_items m = []) = (mb_entry m = 0)"
  by (metis mb_items_length length_0_conv unat_eq_0)

lemma unat16_Suc: "(a :: 16 word) < b \<Longrightarrow> unat (a + 1) = Suc (unat a)"
proof -
  assume "a < b"
  moreover have "unat b < 2 ^ LENGTH(16)" by (rule unsigned_less)
  ultimately show ?thesis by (simp add: word_less_nat_alt unat_word_ariths)
qed

interpretation mailbox_ring: bounded_fifo mb_inv mb_cap mb_items "\<lambda>_ _. True" mb_put mb_get
proof
  fix m :: rt_mailbox and x
  assume i: "mb_inv m"
  let ?n = "unat (mb_size m)"
  show "length (mb_items m) \<le> mb_cap m" using i by (simp add: mb_inv_def mb_cap_def word_le_nat_alt)
  show "mb_inv (mb_put x m)" "mb_items (mb_put x m) = mb_items m @ [x]" "mb_cap (mb_put x m) = mb_cap m"
    if l: "length (mb_items m) < mb_cap m"
  proof -
    have e: "mb_entry m < mb_size m" using l by (simp add: mb_cap_def word_less_nat_alt)
    then have nz: "mb_size m \<noteq> 0" by auto
    note s = unat16_Suc[OF e]
    have "unat (in_offset m) = (unat (out_offset m) + unat (mb_entry m)) mod ?n" using i nz by (simp add: mb_inv_def)
    moreover from this have "in_offset m < mb_size m"
      using e by (simp add: word_less_nat_alt)
    note ring_next_mod[OF this]
    moreover have "mb_entry m + 1 \<le> mb_size m" using e s by (simp add: word_le_nat_alt word_less_nat_alt)
    ultimately show "mb_inv (mb_put x m)" using i nz s by (simp add: mb_inv_def mb_put_def mod_simps)
    show "mb_items (mb_put x m) = mb_items m @ [x]"
      using i nz s e \<open>unat (in_offset m) = _\<close> ring_items_put[of ?n "mb_pool m" "unat (mb_entry m)" "unat (out_offset m)" x]
      by (simp add: mb_items_def mb_put_def mb_inv_def word_less_nat_alt)
    show "mb_cap (mb_put x m) = mb_cap m" by (simp add: mb_cap_def mb_put_def)
  qed
  show "mb_inv (snd (mb_get m))" "fst (mb_get m) = hd (mb_items m)"
    "mb_items (snd (mb_get m)) = tl (mb_items m)" "mb_cap (snd (mb_get m)) = mb_cap m" if n: "mb_items m \<noteq> []"
  proof -
    have e: "mb_entry m \<noteq> 0" using n by simp
    then have nz: "mb_size m \<noteq> 0" "0 < unat (mb_entry m)"
      using i by (auto simp: mb_inv_def unat_gt_0)
    then have o: "out_offset m < mb_size m" using i by (simp add: mb_inv_def)
    note r = ring_next_mod[OF o]
    have s: "unat (mb_entry m - 1) = unat (mb_entry m) - 1" using e by (simp add: unat_minus_one)
    have "mb_entry m - 1 \<le> mb_size m" using i s unfolding mb_inv_def word_le_nat_alt by linarith
    moreover have "ring_next (out_offset m) (mb_size m) < mb_size m" using r nz
      by (simp add: word_less_nat_alt unat_gt_0)
    moreover have "(unat (out_offset m) + unat (mb_entry m)) mod ?n
        = (Suc (unat (out_offset m)) mod ?n + (unat (mb_entry m) - 1)) mod ?n"
      using nz by (cases "unat (mb_entry m)") (simp_all add: mod_simps)
    ultimately show "mb_inv (snd (mb_get m))" using i nz s r by (simp add: mb_inv_def mb_get_def)
    have g: "mb_items m = mb_pool m ! unat (out_offset m) # mb_items (snd (mb_get m))"
      using ring_items_get[OF nz(2), of "unat (out_offset m)" ?n "mb_pool m"] o s r
      by (simp add: mb_items_def mb_get_def word_less_nat_alt)
    show "fst (mb_get m) = hd (mb_items m)" "mb_items (snd (mb_get m)) = tl (mb_items m)"
      unfolding g by (simp_all add: mb_get_def)
    show "mb_cap (snd (mb_get m)) = mb_cap m" by (simp add: mb_cap_def mb_get_def)
  qed
qed

section \<open>Waking and waiting\<close>

lemma wake_first_total:
  assumes k: "kinv s" and c: "rt_current_thread s \<noteq> None" and h: "is_wait_head h"
  shows "\<exists>s'. wake_first h s = Some s' \<and> kinv s' \<and> rt_current_thread s' \<noteq> None \<and> ipc_same s s'
    \<and> tq s' h = tl (tq s h) \<and> (tq s h \<noteq> [] \<longrightarrow> is_ready s' (hd (tq s h)))
    \<and> (\<forall>h'. is_wait_head h' \<longrightarrow> h' \<noteq> h \<longrightarrow> tq s' h' = tq s h')
    \<and> (tq s h \<noteq> [] \<and> rt_scheduler_lock_nest s = 0 \<longrightarrow> runs_best s')"
proof (cases "tq s h")
  case Nil
  then show ?thesis using k c by (simp add: wake_first_def)
next
  case (Cons t ts)
  note w = rt_ipc_list_resume_eq[OF k h Cons]
  let ?r = "thread_resumed t s"
  obtain x where x: "rt_current_thread ?r = Some x" using c by auto
  from rt_schedule_step[OF w(2) x] w(4) obtain s' where
    s': "rt_schedule ?r = Some s'" "kinv s'" "sched_only ?r s'" "rt_current_thread s' \<noteq> None"
    "rt_scheduler_lock_nest ?r = 0 \<longrightarrow> runs_best s'" by blast
  have same: "ipc_same s s'" by (rule ipc_same_trans[OF ipc_same_resumed ipc_same_sched[OF s'(3)]])
  have q: "tq s' h' = tq s h'" if "is_wait_head h'" "h' \<noteq> h" for h'
    using sched_only_queue[OF s'(3) that(1)] w(6)[OF that] by simp
  have "rt_scheduler_lock_nest ?r = rt_scheduler_lock_nest s" using ipc_sameD(7)[OF ipc_same_resumed] .
  moreover have "is_ready s' t" using sched_only_status(3)[OF s'(3)] w(4) by simp
  moreover have "tq s' h = ts" using sched_only_queue[OF s'(3) h] w(5) by simp
  ultimately show ?thesis using s' w(1) same q Cons by (simp add: wake_first_def)
qed

text \<open>A thread that has to wait in a loop: what the first round does when it may block.\<close>

lemma wait_round:
  assumes k: "kinv s" and b: "can_block s c" and h: "is_wait_head h" and f: "flag_ok s r"
    and t: "time < 0x7fffffff"
  shows "\<exists>s1 s'. ipc_wait h c (ipc_flag s r) time (set_err c RT_EOK s) = Some s1 \<and> rt_schedule s1 = Some s'
    \<and> rt_current_thread s' \<noteq> Some c \<and> blocked h c (ipc_flag s r) time (set_err c RT_EOK s) s'"
proof -
  let ?s = "set_err c RT_EOK s"
  have c: "rt_current_thread ?s = Some c" "is_ready ?s c" using b by (simp_all add: can_block_def)
  have k': "kinv ?s" using k by simp
  have b': "can_block ?s c" using b by simp
  from ipc_wait_total[OF k' c h _ t, of "ipc_flag s r"] f obtain s1 where
    s1: "ipc_wait h c (ipc_flag s r) time ?s = Some s1" "waits h c (ipc_flag s r) time ?s s1"
    by (auto simp: flag_ok_def)
  from waits_blocks[OF b' s1(2), of "\<lambda>_. None"] obtain s' where
    "after_schedule c (\<lambda>_. None :: (rt_err call \<times> kernel) option) s1 = Some (Blocked, s')"
    "blocked h c (ipc_flag s r) time ?s s'" by blast
  moreover from this have "rt_schedule s1 = Some s'" "rt_current_thread s' \<noteq> Some c"
    by (auto simp: after_schedule_def bind_Some_iff split: if_splits)
  ultimately show ?thesis using s1(1) by blast
qed

section \<open>Mailboxes under the invariant\<close>

definition mailbox_ready :: "nat \<Rightarrow> kernel \<Rightarrow> bool" where
  "mailbox_ready i s =
    (rt_object_get_type (OMailbox i) s = class_code RT_Object_Class_MailBox \<and> flag_ok s (OMailbox i)
     \<and> mb_inv (mbx s i))"

interpretation mailbox: waiting_object mailbox_ready
proof
  fix i s s'
  assume "mailbox_ready i s" "ipc_kept s s'"
  then show "mailbox_ready i s'"
    using ipc_keptD(4,7,13)[of s s'] by (simp add: mailbox_ready_def flag_ok_def)
qed

definition mailbox_ok :: "nat \<Rightarrow> kernel \<Rightarrow> bool" where
  "mailbox_ok i s = (kinv s \<and> rt_current_thread s \<noteq> None \<and> mailbox_ready i s)"

lemma mailbox_ready_same:
  "ipc_same s s' \<Longrightarrow> mailbox_ready i s' = mailbox_ready i s"
  using ipc_sameD(4,10)[of s s'] ipc_same_flag[of s s' "OMailbox i"] by (simp add: mailbox_ready_def flag_ok_def)

lemma mailbox_ok_upd:
  assumes "mailbox_ok i s" "mb_inv (f (mbx s i))"
  shows "mailbox_ok i (upd_mbx i f s)"
proof -
  have d: "same_but_data s (upd_mbx i f s)" by simp
  note D = same_but_dataD[OF d]
  show ?thesis using assms kinv_same_but_data[OF d] D(3,7,11)
    by (simp add: mailbox_ok_def mailbox_ready_def flag_ok_def) (simp add: upd_mbx_def)
qed

lemma mbx_upd [simp]: "mbx (upd_mbx i f s) i = f (mbx s i)"
  by (simp add: upd_mbx_def)

text \<open>Storing a word: the contents grow by it at the end, and the first receiver is woken.\<close>

lemma mb_deliver_total:
  assumes ok: "mailbox_ok i s" and n: "mb_entry (mbx s i) \<noteq> mb_size (mbx s i)"
  shows "\<exists>s'. mb_deliver i v s = Some (Done RT_EOK, s') \<and> mailbox_ok i s'
    \<and> mb_items (mbx s' i) = mb_items (mbx s i) @ [v] \<and> tq s' (mb_recvq i) = tl (tq s (mb_recvq i))
    \<and> (tq s (mb_recvq i) \<noteq> [] \<longrightarrow> is_ready s' (hd (tq s (mb_recvq i))))
    \<and> (tq s (mb_recvq i) \<noteq> [] \<and> rt_scheduler_lock_nest s = 0 \<longrightarrow> runs_best s')"
proof -
  let ?m = "mbx s i"
  let ?s = "upd_mbx i (mb_put v) s"
  have i: "mb_inv ?m" using ok by (simp add: mailbox_ok_def mailbox_ready_def)
  then have e: "mb_entry ?m < mb_size ?m" using n by (auto simp: mb_inv_def intro: le_neq_trans)
  then have l: "length (mb_items ?m) < mb_cap ?m" by (simp add: mb_cap_def word_less_nat_alt)
  have "mb_size ?m \<noteq> 0" using e by auto
  then have "unat (in_offset ?m) < unat (mb_size ?m)"
    using i e by (simp add: mb_inv_def word_less_nat_alt)
  then have bd: "unat (in_offset ?m) < length (mb_pool ?m)" using i by (simp add: mb_inv_def)
  note D = same_but_dataD[OF same_but_data_upd(4)[of s i "mb_put v"]]
  have ok1: "mailbox_ok i ?s" using mailbox_ok_upd[OF ok] mailbox_ring.put_inv[OF i l] by simp
  have h: "is_wait_head (mb_recvq i)" by simp
  have "kinv ?s" "rt_current_thread ?s \<noteq> None" using ok1 by (simp_all add: mailbox_ok_def)
  from wake_first_total[OF this h] obtain s' where
    s': "wake_first (mb_recvq i) ?s = Some s'" "kinv s'" "rt_current_thread s' \<noteq> None" "ipc_same ?s s'"
    "tq s' (mb_recvq i) = tl (tq s (mb_recvq i))"
    "tq s (mb_recvq i) \<noteq> [] \<longrightarrow> is_ready s' (hd (tq s (mb_recvq i)))"
    "tq s (mb_recvq i) \<noteq> [] \<and> rt_scheduler_lock_nest s = 0 \<longrightarrow> runs_best s'" unfolding D(1,9) by blast
  have "mailbox_ok i s'" using ok1 s'(2,3) mailbox_ready_same[OF s'(4)] by (simp add: mailbox_ok_def)
  moreover have "mb_items (mbx s' i) = mb_items ?m @ [v]"
    using ipc_sameD(4)[OF s'(4)] mailbox_ring.put_items[OF i l] by simp
  ultimately show ?thesis using s' bd by (simp add: mb_deliver_def)
qed

lemma mb_collect_total:
  assumes ok: "mailbox_ok i s" and n: "mb_entry (mbx s i) \<noteq> 0"
  shows "\<exists>s'. mb_collect i s = Some (Done (RT_EOK, Some (hd (mb_items (mbx s i)))), s') \<and> mailbox_ok i s'
    \<and> mb_items (mbx s' i) = tl (mb_items (mbx s i)) \<and> tq s' (SendQ i) = tl (tq s (SendQ i))
    \<and> (tq s (SendQ i) \<noteq> [] \<longrightarrow> is_ready s' (hd (tq s (SendQ i))))
    \<and> (tq s (SendQ i) \<noteq> [] \<and> rt_scheduler_lock_nest s = 0 \<longrightarrow> runs_best s')"
proof -
  let ?m = "mbx s i"
  let ?s = "upd_mbx i (\<lambda>m. snd (mb_get m)) s"
  have i: "mb_inv ?m" using ok by (simp add: mailbox_ok_def mailbox_ready_def)
  have l: "mb_items ?m \<noteq> []" using n by simp
  have "mb_size ?m \<noteq> 0" using i n by (auto simp: mb_inv_def)
  then have bd: "unat (out_offset ?m) < length (mb_pool ?m)" using i by (simp add: mb_inv_def word_less_nat_alt)
  note D = same_but_dataD[OF same_but_data_upd(4)[of s i "\<lambda>m. snd (mb_get m)"]]
  have ok1: "mailbox_ok i ?s" using mailbox_ok_upd[OF ok] mailbox_ring.get_inv[OF i l] by simp
  have h: "is_wait_head (SendQ i)" by simp
  have "kinv ?s" "rt_current_thread ?s \<noteq> None" using ok1 by (simp_all add: mailbox_ok_def)
  from wake_first_total[OF this h] obtain s' where
    s': "wake_first (SendQ i) ?s = Some s'" "kinv s'" "rt_current_thread s' \<noteq> None" "ipc_same ?s s'"
    "tq s' (SendQ i) = tl (tq s (SendQ i))"
    "tq s (SendQ i) \<noteq> [] \<longrightarrow> is_ready s' (hd (tq s (SendQ i)))"
    "tq s (SendQ i) \<noteq> [] \<and> rt_scheduler_lock_nest s = 0 \<longrightarrow> runs_best s'" unfolding D(1,9) by blast
  have "mailbox_ok i s'" using ok1 s'(2,3) mailbox_ready_same[OF s'(4)] by (simp add: mailbox_ok_def)
  moreover have "mb_items (mbx s' i) = tl (mb_items ?m)"
    using ipc_sameD(4)[OF s'(4)] mailbox_ring.get_items[OF i l] by simp
  ultimately show ?thesis using s' bd mailbox_ring.get_item[OF i l] by (simp add: mb_collect_def)
qed

section \<open>Sending and receiving with a full or an empty mailbox\<close>

lemma mailbox_blocked:
  assumes ok: "mailbox_ok i s" and bl: "blocked h c flag time (set_err c e s) s'" and h: "is_wait_head h"
  shows "mailbox_ok i s'" "mbx s' = mbx s" "is_suspended s' c" "runs_best s'"
    "tq s' h = wait_insert flag s c (tq s h)"
proof -
  note B = blockedD[OF bl h]
  have same: "ipc_same s s'" by (rule ipc_same_trans[OF ipc_same_set_err B(12)])
  show "mailbox_ok i s'" using ok B(1) blocked_current[OF bl] mailbox_ready_same[OF same]
    by (simp add: mailbox_ok_def)
  show "mbx s' = mbx s" "is_suspended s' c" "runs_best s'" using B(2,3,8) by simp_all
  show "tq s' h = wait_insert flag s c (tq s h)" using B(4) by (simp add: wait_insert_def)
qed

lemma mb_send_loop_waits:
  assumes ok: "mailbox_ok i s" and b: "can_block s c" and f: "mb_entry (mbx s i) = mb_size (mbx s i)"
    and t: "time \<noteq> 0" "time < 0x7fffffff"
  shows "\<exists>s'. mb_send_loop i v time s = Some (Blocked, s') \<and> mailbox_ok i s' \<and> mbx s' = mbx s
    \<and> is_suspended s' c \<and> runs_best s'
    \<and> tq s' (SendQ i) = wait_insert (ipc_flag s (OMailbox i)) s c (tq s (SendQ i))"
proof -
  have k: "kinv s" and fl: "flag_ok s (OMailbox i)" using ok by (simp_all add: mailbox_ok_def mailbox_ready_def)
  have h: "is_wait_head (SendQ i)" by simp
  from wait_round[OF k b h fl t(2)] obtain s1 s' where
    s': "ipc_wait (SendQ i) c (ipc_flag s (OMailbox i)) time (set_err c RT_EOK s) = Some s1"
    "rt_schedule s1 = Some s'" "rt_current_thread s' \<noteq> Some c"
    "blocked (SendQ i) c (ipc_flag s (OMailbox i)) time (set_err c RT_EOK s) s'" by blast
  have "rt_thread_self s = Some c" using b by (simp add: rt_thread_self_def can_block_def)
  moreover have "in_thread_context (set_err c RT_EOK s) = Some ()"
    by (rule in_thread_context_ok[of _ c]) (simp add: b)
  ultimately have "mb_send_loop i v time s = Some (Blocked, s')"
    using f t s'(1-3) by (subst mb_send_loop.simps) simp
  then show ?thesis using mailbox_blocked[OF ok s'(4) h] by blast
qed

lemma mb_recv_loop_waits:
  assumes ok: "mailbox_ok i s" and b: "can_block s c" and f: "mb_entry (mbx s i) = 0"
    and t: "time \<noteq> 0" "time < 0x7fffffff"
  shows "\<exists>s'. mb_recv_loop i time s = Some (Blocked, s') \<and> mailbox_ok i s' \<and> mbx s' = mbx s
    \<and> is_suspended s' c \<and> runs_best s'
    \<and> tq s' (mb_recvq i) = wait_insert (ipc_flag s (OMailbox i)) s c (tq s (mb_recvq i))"
proof -
  have k: "kinv s" and fl: "flag_ok s (OMailbox i)" using ok by (simp_all add: mailbox_ok_def mailbox_ready_def)
  have h: "is_wait_head (mb_recvq i)" by simp
  from wait_round[OF k b h fl t(2)] obtain s1 s' where
    s': "ipc_wait (mb_recvq i) c (ipc_flag s (OMailbox i)) time (set_err c RT_EOK s) = Some s1"
    "rt_schedule s1 = Some s'" "rt_current_thread s' \<noteq> Some c"
    "blocked (mb_recvq i) c (ipc_flag s (OMailbox i)) time (set_err c RT_EOK s) s'" by blast
  have "rt_thread_self s = Some c" using b by (simp add: rt_thread_self_def can_block_def)
  moreover have "in_thread_context (set_err c RT_EOK s) = Some ()"
    by (rule in_thread_context_ok[of _ c]) (simp add: b)
  ultimately have "mb_recv_loop i time s = Some (Blocked, s')"
    using f t s'(1-3) by (subst mb_recv_loop.simps) simp
  then show ?thesis using mailbox_blocked[OF ok s'(4) h] by blast
qed

lemma mailbox_ok_set_err [simp]: "mailbox_ok i (set_err t e s) = mailbox_ok i s"
  by (simp add: mailbox_ok_def mailbox_ready_def flag_ok_def)

text \<open>All results of the loops, for a thread that may block when it has a waiting time.\<close>

lemma mb_send_loop_cases:
  assumes ok: "mailbox_ok i s" and b: "time = 0 \<or> can_block s c" and t: "time < 0x7fffffff"
    and r: "mb_send_loop i v time s = Some (x, s')"
  shows "mailbox_ok i s' \<and>
    (if x = Done RT_EOK then mb_items (mbx s' i) = mb_items (mbx s i) @ [v]
     else mb_items (mbx s' i) = mb_items (mbx s i))"
proof -
  consider (room) "mb_entry (mbx s i) \<noteq> mb_size (mbx s i)"
    | (full) "mb_entry (mbx s i) = mb_size (mbx s i)" "time = 0"
    | (wait) "mb_entry (mbx s i) = mb_size (mbx s i)" "time \<noteq> 0" by blast
  then show ?thesis
  proof cases
    case room
    from mb_deliver_total[OF ok room, of v] obtain s'' where
      "mb_deliver i v s = Some (Done RT_EOK, s'')" "mailbox_ok i s''"
      "mb_items (mbx s'' i) = mb_items (mbx s i) @ [v]" by blast
    then show ?thesis using r room by (simp add: mb_send_loop.simps[of i v time s])
  next
    case full
    obtain t where t: "rt_current_thread s = Some t" using ok by (auto simp: mailbox_ok_def)
    have "mb_send_loop i v time s = Some (Done (- RT_EFULL), set_err t RT_EOK s)"
      using full t by (subst mb_send_loop.simps) (simp add: rt_thread_self_def)
    then have "x = Done (- RT_EFULL)" "s' = set_err t RT_EOK s" using r by simp_all
    then show ?thesis using ok by (simp add: RT_EFULL_def RT_EOK_def)
  next
    case wait
    then have "can_block s c" using b by simp
    from mb_send_loop_waits[OF ok this wait t, of v] r show ?thesis by auto
  qed
qed

lemma mb_recv_loop_cases:
  assumes ok: "mailbox_ok i s" and b: "time = 0 \<or> can_block s c" and t: "time < 0x7fffffff"
    and r: "mb_recv_loop i time s = Some (x, s')"
  shows "mailbox_ok i s' \<and>
    (case x of Done (e, Some v) \<Rightarrow> mb_items (mbx s i) = v # mb_items (mbx s' i)
     | _ \<Rightarrow> mb_items (mbx s' i) = mb_items (mbx s i))"
proof -
  consider (some) "mb_entry (mbx s i) \<noteq> 0" | (none) "mb_entry (mbx s i) = 0" "time = 0"
    | (wait) "mb_entry (mbx s i) = 0" "time \<noteq> 0" by blast
  then show ?thesis
  proof cases
    case some
    from mb_collect_total[OF ok some] obtain s'' where
      s'': "mb_collect i s = Some (Done (RT_EOK, Some (hd (mb_items (mbx s i)))), s'')" "mailbox_ok i s''"
      "mb_items (mbx s'' i) = tl (mb_items (mbx s i))" by blast
    have "mb_items (mbx s i) \<noteq> []" using some by simp
    then show ?thesis using r some s'' by (auto simp: mb_recv_loop.simps[of i time s])
  next
    case none
    obtain t where t: "rt_current_thread s = Some t" using ok by (auto simp: mailbox_ok_def)
    have "mb_recv_loop i time s
        = Some (Done (- RT_ETIMEOUT, None), set_err t (- RT_ETIMEOUT) (set_err t RT_EOK s))"
      using none t by (subst mb_recv_loop.simps) (simp add: rt_thread_self_def)
    then have "x = Done (- RT_ETIMEOUT, None)" "s' = set_err t (- RT_ETIMEOUT) (set_err t RT_EOK s)"
      using r by simp_all
    then show ?thesis using ok by simp
  next
    case wait
    then have "can_block s c" using b by simp
    from mb_recv_loop_waits[OF ok this wait t] r show ?thesis by auto
  qed
qed

end
