(* ===== verification/RT_Mailbox_Run.thy ===== *)
theory RT_Mailbox_Run
  imports RT_Mailbox
begin

text \<open>Runs of a system that uses a mailbox, and the properties of mailboxes: sending and
  receiving on every branch, and first-in first-out delivery of every word sent, whatever
  threads wait, time out and preempt each other in between.\<close>

section \<open>Runs\<close>

text \<open>\<^verbatim>\<open>mb_run i s0 ins outs s\<close>: from s0 to s, the words ins were accepted by mailbox i and the
  words outs were received from it. A call that waited goes on at the point where the
  scheduler gives its thread the processor again.\<close>

definition sent :: "rt_err call \<Rightarrow> rt_uint32 \<Rightarrow> rt_uint32 list" where
  "sent x v = (if x = Done RT_EOK then [v] else [])"

definition received :: "(rt_err \<times> rt_uint32 option) call \<Rightarrow> rt_uint32 list" where
  "received x = (case x of Done (e, Some v) \<Rightarrow> [v] | _ \<Rightarrow> [])"

lemma sent_simps [simp]: "sent (Done RT_EOK) v = [v]" "sent Blocked v = []" "e \<noteq> RT_EOK \<Longrightarrow> sent (Done e) v = []"
  by (simp_all add: sent_def)

lemma received_simps [simp]:
  "received (Done (e, Some v)) = [v]" "received (Done (e, None)) = []" "received Blocked = []"
  by (simp_all add: received_def)

inductive mb_run ::
  "nat \<Rightarrow> kernel \<Rightarrow> rt_uint32 list \<Rightarrow> rt_uint32 list \<Rightarrow> kernel \<Rightarrow> bool" for i s0 where
  b_start: "mb_run i s0 [] [] s0"
| b_send: "mb_run i s0 ins outs s \<Longrightarrow> time = 0 \<or> can_block s c \<Longrightarrow> time < 0x7fffffff
    \<Longrightarrow> rt_mb_send_wait i v time s = Some (x, s') \<Longrightarrow> mb_run i s0 (ins @ sent x v) outs s'"
| b_send_wake: "mb_run i s0 ins outs s \<Longrightarrow> can_block s c \<Longrightarrow> time_left time start (rt_tick s) < 0x7fffffff
    \<Longrightarrow> rt_mb_send_wake i c v time start s = Some (x, s') \<Longrightarrow> mb_run i s0 (ins @ sent x v) outs s'"
| b_recv: "mb_run i s0 ins outs s \<Longrightarrow> time = 0 \<or> can_block s c \<Longrightarrow> time < 0x7fffffff
    \<Longrightarrow> rt_mb_recv i time s = Some (y, s') \<Longrightarrow> mb_run i s0 ins (outs @ received y) s'"
| b_recv_wake: "mb_run i s0 ins outs s \<Longrightarrow> can_block s c \<Longrightarrow> time_left time start (rt_tick s) < 0x7fffffff
    \<Longrightarrow> rt_mb_recv_wake i c time start s = Some (y, s') \<Longrightarrow> mb_run i s0 ins (outs @ received y) s'"
| b_timed_out: "mb_run i s0 ins outs s \<Longrightarrow> is_suspended s t \<Longrightarrow> ThreadTimer t \<notin> set (rt_timer_list s)
    \<Longrightarrow> rt_thread_timeout t s = Some s' \<Longrightarrow> mb_run i s0 ins outs s'"
| b_switched: "mb_run i s0 ins outs s \<Longrightarrow> rt_schedule s = Some s' \<Longrightarrow> mb_run i s0 ins outs s'"

lemma mb_send_wait_cases:
  assumes ok: "mailbox_ok i s" and b: "time = 0 \<or> can_block s c" and t: "time < 0x7fffffff"
    and r: "rt_mb_send_wait i v time s = Some (x, s')"
  shows "mailbox_ok i s' \<and> mb_items (mbx s' i) = mb_items (mbx s i) @ sent x v"
proof (cases "mb_entry (mbx s i) = mb_size (mbx s i) \<and> time = 0")
  case True
  then show ?thesis using r ok
    by (auto simp: rt_mb_send_wait_def bind_Some_iff RT_EFULL_def RT_EOK_def sent_def)
next
  case False
  then have "mb_send_loop i v time s = Some (x, s')"
    using r by (auto simp: rt_mb_send_wait_def bind_Some_iff)
  from mb_send_loop_cases[OF ok b t this] show ?thesis by (auto simp: sent_def split: if_splits)
qed

lemma mb_send_wake_cases:
  assumes ok: "mailbox_ok i s" and b: "can_block s c" and t: "time_left time start (rt_tick s) < 0x7fffffff"
    and r: "rt_mb_send_wake i c v time start s = Some (x, s')"
  shows "mailbox_ok i s' \<and> mb_items (mbx s' i) = mb_items (mbx s i) @ sent x v"
proof (cases "err (thr s c) = RT_EOK")
  case True
  then have "mb_send_loop i v (time_left time start (rt_tick s)) s = Some (x, s')"
    using r by (simp add: rt_mb_send_wake_def)
  from mb_send_loop_cases[OF ok _ t this, of c] b show ?thesis by (auto simp: sent_def split: if_splits)
next
  case False
  then show ?thesis using r ok by (auto simp: rt_mb_send_wake_def)
qed

lemma mb_recv_all_cases:
  assumes ok: "mailbox_ok i s" and b: "time = 0 \<or> can_block s c" and t: "time < 0x7fffffff"
    and r: "rt_mb_recv i time s = Some (y, s')"
  shows "mailbox_ok i s' \<and> mb_items (mbx s i) = received y @ mb_items (mbx s' i)"
proof (cases "mb_entry (mbx s i) = 0 \<and> time = 0")
  case True
  then show ?thesis using r ok by (auto simp: rt_mb_recv_def bind_Some_iff)
next
  case False
  then have "mb_recv_loop i time s = Some (y, s')"
    using r by (auto simp: rt_mb_recv_def bind_Some_iff)
  from mb_recv_loop_cases[OF ok b t this] show ?thesis
    by (auto simp: received_def split: call.splits option.splits prod.splits)
qed

lemma mb_recv_wake_cases:
  assumes ok: "mailbox_ok i s" and b: "can_block s c" and t: "time_left time start (rt_tick s) < 0x7fffffff"
    and r: "rt_mb_recv_wake i c time start s = Some (y, s')"
  shows "mailbox_ok i s' \<and> mb_items (mbx s i) = received y @ mb_items (mbx s' i)"
proof (cases "err (thr s c) = RT_EOK")
  case True
  then have "mb_recv_loop i (time_left time start (rt_tick s)) s = Some (y, s')"
    using r by (simp add: rt_mb_recv_wake_def)
  from mb_recv_loop_cases[OF ok _ t this, of c] b show ?thesis
    by (auto simp: received_def split: call.splits option.splits prod.splits)
next
  case False
  then show ?thesis using r ok by (auto simp: rt_mb_recv_wake_def)
qed

lemma mb_run_keeps:
  assumes "mb_run i s0 ins outs s" "mailbox_ok i s0"
  shows "mailbox_ok i s \<and> mb_items (mbx s0 i) @ ins = outs @ mb_items (mbx s i)"
  using assms
proof (induction rule: mb_run.induct)
  case b_start
  then show ?case by simp
next
  case (b_send ins outs s time c v x s')
  then have "mailbox_ok i s" "mb_items (mbx s0 i) @ ins = outs @ mb_items (mbx s i)" by simp_all
  with mb_send_wait_cases[OF this(1) b_send(2-4)] show ?case by (simp flip: append_assoc)
next
  case (b_send_wake ins outs s c time start v x s')
  then have "mailbox_ok i s" "mb_items (mbx s0 i) @ ins = outs @ mb_items (mbx s i)" by simp_all
  with mb_send_wake_cases[OF this(1) b_send_wake(2-4)] show ?case by (simp flip: append_assoc)
next
  case (b_recv ins outs s time c y s')
  then have "mailbox_ok i s" "mb_items (mbx s0 i) @ ins = outs @ mb_items (mbx s i)" by simp_all
  with mb_recv_all_cases[OF this(1) b_recv(2-4)] show ?case by simp
next
  case (b_recv_wake ins outs s c time start y s')
  then have "mailbox_ok i s" "mb_items (mbx s0 i) @ ins = outs @ mb_items (mbx s i)" by simp_all
  with mb_recv_wake_cases[OF this(1) b_recv_wake(2-4)] show ?case by simp
next
  case (b_timed_out ins outs s t s')
  then have ok: "mailbox_ok i s" and e: "mb_items (mbx s0 i) @ ins = outs @ mb_items (mbx s i)" by simp_all
  from mailbox.timeout_keeps[OF _ _ _ b_timed_out(2-4), of i] ok ipc_keptD(4)[of s s'] e
  show ?case by (simp add: mailbox_ok_def)
next
  case (b_switched ins outs s s')
  then have ok: "mailbox_ok i s" and e: "mb_items (mbx s0 i) @ ins = outs @ mb_items (mbx s i)" by simp_all
  from mailbox.switch_keeps[OF _ _ _ b_switched(2), of i] ok ipc_keptD(4)[of s s'] e
  show ?case by (simp add: mailbox_ok_def)
qed

section \<open>Properties\<close>

text \<open>Sending to a mailbox. When there is room, the word is added behind the words in the
  mailbox and the first waiting receiver becomes ready; a full mailbox refuses the word when
  there is no waiting time, and otherwise the sender waits in the queue of senders while the
  contents stay.\<close>

theorem rt_mb_send_correct:
  assumes "mailbox_ok i s" "can_block s c" "time < 0x7fffffff"
  shows "(mb_entry (mbx s i) < mb_size (mbx s i) \<longrightarrow>
      (\<exists>s'. rt_mb_send_wait i v time s = Some (Done RT_EOK, s') \<and> mailbox_ok i s'
        \<and> mb_items (mbx s' i) = mb_items (mbx s i) @ [v] \<and> tq s' (mb_recvq i) = tl (tq s (mb_recvq i))
        \<and> (tq s (mb_recvq i) \<noteq> [] \<longrightarrow> is_ready s' (hd (tq s (mb_recvq i))) \<and> runs_best s')))
    \<and> (mb_entry (mbx s i) = mb_size (mbx s i) \<and> time = 0 \<longrightarrow>
        rt_mb_send_wait i v time s = Some (Done (- RT_EFULL), s))
    \<and> (mb_entry (mbx s i) = mb_size (mbx s i) \<and> time \<noteq> 0 \<longrightarrow>
      (\<exists>s'. rt_mb_send_wait i v time s = Some (Blocked, s') \<and> mailbox_ok i s' \<and> mbx s' = mbx s
        \<and> is_suspended s' c \<and> runs_best s'
        \<and> tq s' (SendQ i) = wait_insert (ipc_flag s (OMailbox i)) s c (tq s (SendQ i))))"
proof (intro conjI impI)
  have ty: "rt_object_get_type (OMailbox i) s = class_code RT_Object_Class_MailBox"
    using assms(1) by (simp add: mailbox_ok_def mailbox_ready_def)
  have l: "rt_scheduler_lock_nest s = 0" using assms(2) by (simp add: can_block_def)
  show "\<exists>s'. rt_mb_send_wait i v time s = Some (Done RT_EOK, s') \<and> mailbox_ok i s'
        \<and> mb_items (mbx s' i) = mb_items (mbx s i) @ [v] \<and> tq s' (mb_recvq i) = tl (tq s (mb_recvq i))
        \<and> (tq s (mb_recvq i) \<noteq> [] \<longrightarrow> is_ready s' (hd (tq s (mb_recvq i))) \<and> runs_best s')"
    if "mb_entry (mbx s i) < mb_size (mbx s i)"
  proof -
    have n: "mb_entry (mbx s i) \<noteq> mb_size (mbx s i)" using that by auto
    have "rt_mb_send_wait i v time s = mb_deliver i v s"
      using ty n by (simp add: rt_mb_send_wait_def mb_send_loop.simps[of i v time s])
    with mb_deliver_total[OF assms(1) n, of v] l show ?thesis by auto
  qed
  show "rt_mb_send_wait i v time s = Some (Done (- RT_EFULL), s)"
    if "mb_entry (mbx s i) = mb_size (mbx s i) \<and> time = 0"
    using ty that by (simp add: rt_mb_send_wait_def)
  show "\<exists>s'. rt_mb_send_wait i v time s = Some (Blocked, s') \<and> mailbox_ok i s' \<and> mbx s' = mbx s
        \<and> is_suspended s' c \<and> runs_best s'
        \<and> tq s' (SendQ i) = wait_insert (ipc_flag s (OMailbox i)) s c (tq s (SendQ i))"
    if "mb_entry (mbx s i) = mb_size (mbx s i) \<and> time \<noteq> 0"
    using ty that mb_send_loop_waits[OF assms(1,2), of time v] assms(3) by (simp add: rt_mb_send_wait_def)
qed

lemma mailbox_ok_demo: "mailbox_ok i demo"
  by (simp add: mailbox_ok_def mailbox_ready_def flag_ok_def mb_inv_def RT_IPC_FLAG_FIFO_def
      del: class_code.simps) (simp add: demo_def)

lemma mbx_demo: "mb_entry (mbx demo i) = 0" "mb_size (mbx demo i) = 2" "mb_items (mbx demo i) = []"
  by (simp_all add: demo_def)

lemma rt_mb_send_correct_witness:
  "\<exists>s'. rt_mb_send_wait 0 7 0 demo = Some (Done RT_EOK, s') \<and> mb_items (mbx s' 0) = [7]"
  using rt_mb_send_correct[OF mailbox_ok_demo can_block_demo, of 0 0 7] mbx_demo by auto

text \<open>Receiving from a mailbox. The oldest word is returned and leaves the mailbox, and the
  first waiting sender becomes ready; an empty mailbox fails with a timeout when there is no
  waiting time, and otherwise the receiver waits in the queue of receivers.\<close>

theorem rt_mb_recv_correct:
  assumes "mailbox_ok i s" "can_block s c" "time < 0x7fffffff"
  shows "(mb_items (mbx s i) = v # vs \<longrightarrow>
      (\<exists>s'. rt_mb_recv i time s = Some (Done (RT_EOK, Some v), s') \<and> mailbox_ok i s'
        \<and> mb_items (mbx s' i) = vs \<and> tq s' (SendQ i) = tl (tq s (SendQ i))
        \<and> (tq s (SendQ i) \<noteq> [] \<longrightarrow> is_ready s' (hd (tq s (SendQ i))) \<and> runs_best s')))
    \<and> (mb_items (mbx s i) = [] \<and> time = 0 \<longrightarrow> rt_mb_recv i time s = Some (Done (- RT_ETIMEOUT, None), s))
    \<and> (mb_items (mbx s i) = [] \<and> time \<noteq> 0 \<longrightarrow>
      (\<exists>s'. rt_mb_recv i time s = Some (Blocked, s') \<and> mailbox_ok i s' \<and> mbx s' = mbx s
        \<and> is_suspended s' c \<and> runs_best s'
        \<and> tq s' (mb_recvq i) = wait_insert (ipc_flag s (OMailbox i)) s c (tq s (mb_recvq i))))"
proof (intro conjI impI)
  have ty: "rt_object_get_type (OMailbox i) s = class_code RT_Object_Class_MailBox"
    using assms(1) by (simp add: mailbox_ok_def mailbox_ready_def)
  have l: "rt_scheduler_lock_nest s = 0" using assms(2) by (simp add: can_block_def)
  show "\<exists>s'. rt_mb_recv i time s = Some (Done (RT_EOK, Some v), s') \<and> mailbox_ok i s'
        \<and> mb_items (mbx s' i) = vs \<and> tq s' (SendQ i) = tl (tq s (SendQ i))
        \<and> (tq s (SendQ i) \<noteq> [] \<longrightarrow> is_ready s' (hd (tq s (SendQ i))) \<and> runs_best s')"
    if v: "mb_items (mbx s i) = v # vs"
  proof -
    have n: "mb_entry (mbx s i) \<noteq> 0" using v mb_items_Nil[of "mbx s i"] by simp
    have "rt_mb_recv i time s = mb_collect i s"
      using ty n by (simp add: rt_mb_recv_def mb_recv_loop.simps[of i time s])
    with mb_collect_total[OF assms(1) n] l v show ?thesis by auto
  qed
  show "rt_mb_recv i time s = Some (Done (- RT_ETIMEOUT, None), s)"
    if "mb_items (mbx s i) = [] \<and> time = 0"
    using ty that by (simp add: rt_mb_recv_def)
  show "\<exists>s'. rt_mb_recv i time s = Some (Blocked, s') \<and> mailbox_ok i s' \<and> mbx s' = mbx s
        \<and> is_suspended s' c \<and> runs_best s'
        \<and> tq s' (mb_recvq i) = wait_insert (ipc_flag s (OMailbox i)) s c (tq s (mb_recvq i))"
    if "mb_items (mbx s i) = [] \<and> time \<noteq> 0"
    using ty that mb_recv_loop_waits[OF assms(1,2), of time] assms(3) by (simp add: rt_mb_recv_def)
qed

lemma rt_mb_recv_correct_witness:
  "\<exists>s'. rt_mb_recv 0 9 demo = Some (Blocked, s') \<and> is_suspended s' 0 \<and> tq s' (mb_recvq 0) = [0]"
  using rt_mb_recv_correct[OF mailbox_ok_demo can_block_demo, of 9 0 0 "[]"] mbx_demo
  by (auto simp: wait_insert_def RT_IPC_FLAG_FIFO_def)

text \<open>C6. First-in first-out delivery. In every run, whatever threads wait, are woken, time out
  and preempt each other, the words received are the first of the words that were in the
  mailbox or were accepted since, in their order, and the others are its contents: no word
  is lost, duplicated or overtaken.\<close>

theorem mailbox_fifo:
  assumes "mb_run i s0 ins outs s" "mailbox_ok i s0"
  shows "mb_items (mbx s0 i) @ ins = outs @ mb_items (mbx s i) \<and> mailbox_ok i s"
  using mb_run_keeps[OF assms] by blast

lemma mailbox_fifo_witness:
  "\<exists>s. mb_run 0 demo [7] [7] s \<and> mb_items (mbx s 0) = []"
proof -
  have "mb_entry (mbx demo 0) \<noteq> mb_size (mbx demo 0)" using mbx_demo by simp
  from mb_deliver_total[OF mailbox_ok_demo this, of 7] obtain s1 where
    s1: "mb_deliver 0 7 demo = Some (Done RT_EOK, s1)" "mailbox_ok 0 s1" "mb_items (mbx s1 0) = [7]"
    using mbx_demo(3) by auto
  have "rt_mb_send_wait 0 7 0 demo = Some (Done RT_EOK, s1)"
    using s1(1) mbx_demo by (simp add: rt_mb_send_wait_def mb_send_loop.simps[of 0 7 0])
  from b_send[OF b_start _ _ this] have r1: "mb_run 0 demo [7] [] s1" by simp
  have e: "mb_entry (mbx s1 0) \<noteq> 0" using s1(3) mb_items_Nil[of "mbx s1 0"] by simp
  from mb_collect_total[OF s1(2) e] obtain s2 where
    s2: "mb_collect 0 s1 = Some (Done (RT_EOK, Some 7), s2)" using s1(3) by auto
  have "rt_object_get_type (OMailbox 0) s1 = class_code RT_Object_Class_MailBox"
    using s1(2) by (simp add: mailbox_ok_def mailbox_ready_def)
  then have "rt_mb_recv 0 0 s1 = Some (Done (RT_EOK, Some 7), s2)"
    using s2 e by (simp add: rt_mb_recv_def mb_recv_loop.simps[of 0 0])
  from b_recv[OF r1 _ _ this] have r2: "mb_run 0 demo [7] [7] s2" by simp
  from mailbox_fifo[OF r2 mailbox_ok_demo] have "mb_items (mbx s2 0) = []" using mbx_demo by simp
  with r2 show ?thesis by blast
qed

end
