(* ===== verification/RT_Mq.thy ===== *)
theory RT_Mq
  imports RT_Mailbox
begin

text \<open>The message queues of src/ipc.c: fixed-size blocks of a pool, linked into the list of the
  queued messages or into the list of the free blocks. Sending copies a message into a free
  block between two critical sections; while it does, the block is in neither list.\<close>

section \<open>Operations on the lists of blocks\<close>

abbreviation mq_recvq :: "nat \<Rightarrow> lhead" where
  "mq_recvq i \<equiv> WaitQ (OMq i)"

definition mq_take_free :: "rt_messagequeue \<Rightarrow> (nat \<times> rt_messagequeue) option" where
  "mq_take_free m = map_option (\<lambda>b. (b, m\<lparr>msg_queue_free := mq_link m b\<rparr>)) (msg_queue_free m)"

text \<open>\<^verbatim>\<open>rt_memcpy (msg + 1, buffer, size)\<close> on a block with room for the size.\<close>

definition mq_fill :: "nat \<Rightarrow> rt_uint8 list \<Rightarrow> rt_messagequeue \<Rightarrow> rt_messagequeue" where
  "mq_fill b bytes m = m\<lparr>mq_buf := (mq_buf m)(b := bytes @ drop (length bytes) (mq_buf m b))\<rparr>"

definition mq_link_null :: "nat \<Rightarrow> rt_messagequeue \<Rightarrow> rt_messagequeue" where
  "mq_link_null b m = m\<lparr>mq_link := (mq_link m)(b := None)\<rparr>"

definition mq_link_tail :: "nat \<Rightarrow> rt_messagequeue \<Rightarrow> rt_messagequeue" where
  "mq_link_tail b m =
    (let m = (case msg_queue_tail m of
                None \<Rightarrow> m
              | Some t \<Rightarrow> m\<lparr>mq_link := (mq_link m)(t := Some b)\<rparr>);
         m = m\<lparr>msg_queue_tail := Some b\<rparr>;
         m = (if msg_queue_head m = None then m\<lparr>msg_queue_head := Some b\<rparr> else m)
     in m\<lparr>mq_entry := mq_entry m + 1\<rparr>)"

definition mq_link_head :: "nat \<Rightarrow> rt_messagequeue \<Rightarrow> rt_messagequeue" where
  "mq_link_head b m =
    (let m = m\<lparr>mq_link := (mq_link m)(b := msg_queue_head m)\<rparr>;
         m = m\<lparr>msg_queue_head := Some b\<rparr>;
         m = (if msg_queue_tail m = None then m\<lparr>msg_queue_tail := Some b\<rparr> else m)
     in m\<lparr>mq_entry := mq_entry m + 1\<rparr>)"

definition mq_unlink_head :: "nat \<Rightarrow> rt_messagequeue \<Rightarrow> rt_messagequeue" where
  "mq_unlink_head b m =
    (let m = m\<lparr>msg_queue_head := mq_link m b\<rparr>;
         m = (if msg_queue_tail m = Some b then m\<lparr>msg_queue_tail := None\<rparr> else m)
     in m\<lparr>mq_entry := mq_entry m - 1\<rparr>)"

definition mq_give_free :: "nat \<Rightarrow> rt_messagequeue \<Rightarrow> rt_messagequeue" where
  "mq_give_free b m = m\<lparr>mq_link := (mq_link m)(b := msg_queue_free m), msg_queue_free := Some b\<rparr>"

definition mq_init_lists :: "rt_messagequeue \<Rightarrow> rt_messagequeue" where
  "mq_init_lists m =
    fold mq_give_free [0..<unat (mq_max_msgs m)]
      (m\<lparr>msg_queue_head := None, msg_queue_tail := None, msg_queue_free := None\<rparr>)"

text \<open>The loop of the reset: every queued block goes to the free list.\<close>

partial_function (option) mq_drain :: "rt_messagequeue \<Rightarrow> rt_messagequeue option" where
  "mq_drain m =
    (case msg_queue_head m of
       None \<Rightarrow> Some m
     | Some b \<Rightarrow> mq_drain (mq_give_free b (
         let m = m\<lparr>msg_queue_head := mq_link m b\<rparr>
         in if msg_queue_tail m = Some b then m\<lparr>msg_queue_tail := None\<rparr> else m)))"

section \<open>Operations\<close>

text \<open>The contents of a block's buffer before it is first used are those of the pool's memory;
  \<^verbatim>\<open>bufs\<close> gives them. The header of a block has 4 bytes.\<close>

definition rt_mq_init ::
  "nat \<Rightarrow> rt_uint8 list \<Rightarrow> rt_uint32 \<Rightarrow> (nat \<Rightarrow> rt_uint8 list) \<Rightarrow> rt_size \<Rightarrow> rt_size \<Rightarrow> rt_uint8 \<Rightarrow> kernel
    \<Rightarrow> (rt_err \<times> kernel) option" where
  "rt_mq_init i nm msgpool bufs msgsize pool_size flag s = do {
     s \<leftarrow> rt_object_init (OMq i) RT_Object_Class_MessageQueue nm s;
     let s = set_obj_flag (OMq i) flag s;
     let s = rt_ipc_object_init (mq_recvq i) s;
     let s = upd_mqs i (\<lambda>m. m\<lparr>mq_addr := msgpool, mq_buf := bufs, mq_msg_size := ucast (RT_ALIGN msgsize 4)\<rparr>) s;
     let s = upd_mqs i (\<lambda>m. m\<lparr>mq_max_msgs := ucast (pool_size div (ucast (mq_msg_size m) + 4))\<rparr>) s;
     Some (RT_EOK, upd_mqs i (\<lambda>m. (mq_init_lists m)\<lparr>mq_entry := 0\<rparr>) s)
   }"

definition rt_mq_detach :: "nat \<Rightarrow> kernel \<Rightarrow> (rt_err \<times> kernel) option" where
  "rt_mq_detach i s = do {
     RT_ASSERT (rt_object_get_type (OMq i) s = class_code RT_Object_Class_MessageQueue);
     RT_ASSERT (rt_object_is_systemobject (OMq i) s);
     s \<leftarrow> rt_ipc_list_resume_all (mq_recvq i) s;
     Some (RT_EOK, rt_object_detach (OMq i) s)
   }"

text \<open>Freeing the null pointer does nothing.\<close>

definition rt_mq_delete :: "nat \<Rightarrow> kernel \<Rightarrow> (rt_err \<times> kernel) option" where
  "rt_mq_delete i s = do {
     not_in_interrupt s;
     RT_ASSERT (rt_object_get_type (OMq i) s = class_code RT_Object_Class_MessageQueue);
     RT_ASSERT (\<not> rt_object_is_systemobject (OMq i) s);
     s \<leftarrow> rt_ipc_list_resume_all (mq_recvq i) s;
     let s = (if mq_addr (mqs s i) = 0 then s else kernel_free (mq_addr (mqs s i)) s);
     s \<leftarrow> rt_object_delete (OMq i) s;
     Some (RT_EOK, s)
   }"

definition rt_mq_create ::
  "objref option \<Rightarrow> (rt_uint32 \<times> (nat \<Rightarrow> rt_uint8 list)) option \<Rightarrow> rt_uint8 list \<Rightarrow> rt_size \<Rightarrow> rt_size
    \<Rightarrow> rt_uint8 \<Rightarrow> kernel \<Rightarrow> (objref option \<times> kernel) option" where
  "rt_mq_create mem pool nm msgsize max_msgs flag s = do {
     not_in_interrupt s;
     (ob, s) \<leftarrow> rt_object_allocate mem RT_Object_Class_MessageQueue nm s;
     (case ob of
        Some (OMq i) \<Rightarrow>
          (let s = set_obj_flag (OMq i) flag s;
               s = rt_ipc_object_init (mq_recvq i) s;
               s = upd_mqs i (\<lambda>m. m\<lparr>mq_msg_size := ucast (RT_ALIGN msgsize 4), mq_max_msgs := ucast max_msgs,
                     mq_addr := (case pool of None \<Rightarrow> 0 | Some (a, _) \<Rightarrow> a)\<rparr>) s
           in case pool of
                None \<Rightarrow> do {
                  (_, s) \<leftarrow> rt_mq_delete i s;
                  Some (None, s)
                }
              | Some (a, bufs) \<Rightarrow>
                  Some (ob, upd_mqs i (\<lambda>m. (mq_init_lists (m\<lparr>mq_buf := bufs\<rparr>))\<lparr>mq_entry := 0\<rparr>) s))
      | _ \<Rightarrow> Some (None, s))
   }"

text \<open>\<^verbatim>\<open>bytes\<close> are the \<^verbatim>\<open>size\<close> bytes at \<^verbatim>\<open>buffer\<close>. The first part of a send takes a free block and
  copies the message; the second part links the block and wakes a receiver.\<close>

definition mq_send_begin ::
  "bool \<Rightarrow> nat \<Rightarrow> rt_uint8 list \<Rightarrow> kernel \<Rightarrow> ((rt_err + nat) \<times> kernel) option" where
  "mq_send_begin urgent i bytes s = do {
     RT_ASSERT (rt_object_get_type (OMq i) s = class_code RT_Object_Class_MessageQueue);
     RT_ASSERT (bytes \<noteq> []);
     (if length bytes > unat (mq_msg_size (mqs s i)) then Some (Inl (- RT_ERROR), s)
      else case mq_take_free (mqs s i) of
             None \<Rightarrow> Some (Inl (- RT_EFULL), s)
           | Some (b, m) \<Rightarrow>
               Some (Inr b, upd_mqs i (\<lambda>_. mq_fill b bytes (if urgent then m else mq_link_null b m)) s))
   }"

definition mq_send_end :: "bool \<Rightarrow> nat \<Rightarrow> nat \<Rightarrow> kernel \<Rightarrow> (rt_err \<times> kernel) option" where
  "mq_send_end urgent i b s = do {
     let s = upd_mqs i (if urgent then mq_link_head b else mq_link_tail b) s;
     s \<leftarrow> wake_first (mq_recvq i) s;
     Some (RT_EOK, s)
   }"

definition rt_mq_send :: "nat \<Rightarrow> rt_uint8 list \<Rightarrow> kernel \<Rightarrow> (rt_err \<times> kernel) option" where
  "rt_mq_send i bytes s = do {
     (r, s) \<leftarrow> mq_send_begin False i bytes s;
     (case r of Inl e \<Rightarrow> Some (e, s) | Inr b \<Rightarrow> mq_send_end False i b s)
   }"

definition rt_mq_urgent :: "nat \<Rightarrow> rt_uint8 list \<Rightarrow> kernel \<Rightarrow> (rt_err \<times> kernel) option" where
  "rt_mq_urgent i bytes s = do {
     (r, s) \<leftarrow> mq_send_begin True i bytes s;
     (case r of Inl e \<Rightarrow> Some (e, s) | Inr b \<Rightarrow> mq_send_end True i b s)
   }"

text \<open>The loop of \<^verbatim>\<open>rt_mq_recv\<close> up to the end of the critical section that unlinks the first block.\<close>

partial_function (option) mq_recv_loop ::
  "nat \<Rightarrow> int \<Rightarrow> kernel \<Rightarrow> ((rt_err + nat) call \<times> kernel) option" where
  "mq_recv_loop i timeout s =
    (if mq_entry (mqs s i) \<noteq> 0
     then Option.bind (msg_queue_head (mqs s i)) (\<lambda>b. Some (Done (Inr b), upd_mqs i (mq_unlink_head b) s))
     else Option.bind (in_thread_context s) (\<lambda>u. Option.bind (rt_thread_self s) (\<lambda>t. let s = set_err t RT_EOK s in
       if timeout = 0 then Some (Done (Inl (- RT_ETIMEOUT)), set_err t (- RT_ETIMEOUT) s)
       else Option.bind (ipc_wait (mq_recvq i) t (ipc_flag s (OMq i)) timeout s) (\<lambda>s1.
         Option.bind (rt_schedule s1) (\<lambda>s2.
           if rt_current_thread s2 \<noteq> Some t then Some (Blocked, s2)
           else if err (thr s2 t) \<noteq> RT_EOK then Some (Done (Inl (err (thr s2 t))), s2)
           else mq_recv_loop i (time_left timeout (rt_tick s) (rt_tick s2)) s2)))))"

text \<open>The copy to the caller's buffer of \<^verbatim>\<open>size\<close> bytes, and the end of the call.\<close>

definition mq_recv_end :: "nat \<Rightarrow> nat \<Rightarrow> rt_size \<Rightarrow> kernel \<Rightarrow> rt_uint8 list \<times> kernel" where
  "mq_recv_end i b sz s =
    (let n = (if sz > ucast (mq_msg_size (mqs s i)) then unat (mq_msg_size (mqs s i)) else unat sz)
     in (take n (mq_buf (mqs s i) b), upd_mqs i (mq_give_free b) s))"

definition mq_recv_finish ::
  "nat \<Rightarrow> rt_size \<Rightarrow> (rt_err + nat) call \<times> kernel \<Rightarrow> (rt_err \<times> rt_uint8 list option) call \<times> kernel" where
  "mq_recv_finish i sz = (\<lambda>(r, s).
    (case r of
       Blocked \<Rightarrow> (Blocked, s)
     | Done (Inl e) \<Rightarrow> (Done (e, None), s)
     | Done (Inr b) \<Rightarrow> (let (bytes, s) = mq_recv_end i b sz s in (Done (RT_EOK, Some bytes), s))))"

definition rt_mq_recv ::
  "nat \<Rightarrow> rt_size \<Rightarrow> int \<Rightarrow> kernel \<Rightarrow> ((rt_err \<times> rt_uint8 list option) call \<times> kernel) option" where
  "rt_mq_recv i sz timeout s = do {
     RT_ASSERT (rt_object_get_type (OMq i) s = class_code RT_Object_Class_MessageQueue);
     RT_ASSERT (sz \<noteq> 0);
     (if mq_entry (mqs s i) = 0 \<and> timeout = 0 then Some (Done (- RT_ETIMEOUT, None), s)
      else map_option (mq_recv_finish i sz) (mq_recv_loop i timeout s))
   }"

definition rt_mq_recv_wake ::
  "nat \<Rightarrow> nat \<Rightarrow> rt_size \<Rightarrow> int \<Rightarrow> rt_tick \<Rightarrow> kernel \<Rightarrow> ((rt_err \<times> rt_uint8 list option) call \<times> kernel) option" where
  "rt_mq_recv_wake i t sz timeout start s =
    (if err (thr s t) \<noteq> RT_EOK then Some (Done (err (thr s t), None), s)
     else map_option (mq_recv_finish i sz) (mq_recv_loop i (time_left timeout start (rt_tick s)) s))"

definition rt_mq_control :: "nat \<Rightarrow> int \<Rightarrow> kernel \<Rightarrow> (rt_err \<times> kernel) option" where
  "rt_mq_control i cmd s = do {
     RT_ASSERT (rt_object_get_type (OMq i) s = class_code RT_Object_Class_MessageQueue);
     (if cmd = RT_IPC_CMD_RESET then do {
        s \<leftarrow> rt_ipc_list_resume_all (mq_recvq i) s;
        m \<leftarrow> mq_drain (mqs s i);
        let s = upd_mqs i (\<lambda>_. m\<lparr>mq_entry := 0\<rparr>) s;
        s \<leftarrow> rt_schedule s;
        Some (RT_EOK, s)
      } else Some (- RT_ERROR, s))
   }"

end
