(* ===== verification/RT_Mq_Lists.thy ===== *)
theory RT_Mq_Lists
  imports RT_Mq
begin

text \<open>The lists of a message queue: the queued blocks, the free blocks and the blocks that are
  just being written or read are the blocks of the pool, each one once. On a queue without
  blocks in use, sending, sending urgently and receiving are the operations of a bounded
  double-ended queue.\<close>

section \<open>Chains\<close>

fun mchain :: "(nat \<Rightarrow> nat option) \<Rightarrow> nat option \<Rightarrow> nat list \<Rightarrow> bool" where
  "mchain nx p [] = (p = None)"
| "mchain nx p (b # bs) = (p = Some b \<and> mchain nx (nx b) bs)"

lemma mchain_cong: "\<forall>b \<in> set bs. nx' b = nx b \<Longrightarrow> mchain nx' p bs = mchain nx p bs"
  by (induction bs arbitrary: p) auto

lemma mchain_upd [simp]: "b \<notin> set bs \<Longrightarrow> mchain (nx(b := q)) p bs = mchain nx p bs"
  by (rule mchain_cong) auto

lemma mchain_None [simp]: "mchain nx None bs = (bs = [])"
  by (cases bs) auto

lemma mchain_Some: "mchain nx (Some b) bs = (\<exists>bs'. bs = b # bs' \<and> mchain nx (nx b) bs')"
  by (cases bs) auto

lemma mchain_snoc:
  assumes "mchain nx p bs" "bs \<noteq> []" "distinct bs" "b \<notin> set bs" "nx b = None"
  shows "mchain (nx(last bs := Some b)) p (bs @ [b])"
  using assms
proof (induction bs arbitrary: p)
  case (Cons a bs)
  show ?case
  proof (cases "bs = []")
    case False
    then have "last bs \<noteq> a" using Cons.prems(3) last_in_set[OF False] by auto
    then show ?thesis using Cons False by simp
  qed (use Cons in simp)
qed simp

fun mq_follow :: "nat \<Rightarrow> (nat \<Rightarrow> nat option) \<Rightarrow> nat option \<Rightarrow> nat list" where
  "mq_follow 0 nx p = []"
| "mq_follow (Suc n) nx p = (case p of None \<Rightarrow> [] | Some b \<Rightarrow> b # mq_follow n nx (nx b))"

lemma mq_follow_chain: "mchain nx p bs \<Longrightarrow> mq_follow (length bs) nx p = bs"
  by (induction bs arbitrary: p) auto

lemma mchain_unique: "mchain nx p as \<Longrightarrow> mchain nx p bs \<Longrightarrow> as = bs"
proof (induction as arbitrary: p bs)
  case (Cons a as)
  then show ?case by (cases bs) auto
qed simp

section \<open>The invariant of the lists\<close>

definition mq_lists :: "rt_messagequeue \<Rightarrow> nat list \<Rightarrow> nat list \<Rightarrow> nat set \<Rightarrow> bool" where
  "mq_lists m Q F I =
    (mchain (mq_link m) (msg_queue_head m) Q \<and> mchain (mq_link m) (msg_queue_free m) F
     \<and> msg_queue_tail m = (if Q = [] then None else Some (last Q))
     \<and> distinct (Q @ F) \<and> I \<inter> set (Q @ F) = {} \<and> set (Q @ F) \<union> I = {..<unat (mq_max_msgs m)}
     \<and> unat (mq_entry m) = length Q
     \<and> (\<forall>b < unat (mq_max_msgs m). length (mq_buf m b) = unat (mq_msg_size m)))"

lemma mq_listsD:
  assumes "mq_lists m Q F I"
  shows "mchain (mq_link m) (msg_queue_head m) Q" "mchain (mq_link m) (msg_queue_free m) F"
    "msg_queue_tail m = (if Q = [] then None else Some (last Q))" "distinct Q" "distinct F"
    "set Q \<inter> set F = {}" "I \<inter> set Q = {}" "I \<inter> set F = {}"
    "set Q \<union> set F \<union> I = {..<unat (mq_max_msgs m)}" "unat (mq_entry m) = length Q"
    "b < unat (mq_max_msgs m) \<Longrightarrow> length (mq_buf m b) = unat (mq_msg_size m)"
  using assms by (auto simp: mq_lists_def)

lemma mq_lists_count:
  assumes "mq_lists m Q F I"
  shows "length Q + length F + card I = unat (mq_max_msgs m)" "finite I"
proof -
  note L = mq_listsD[OF assms]
  have "I \<subseteq> {..<unat (mq_max_msgs m)}" using L(9) by blast
  then show f: "finite I" using finite_subset by blast
  have "card (set Q \<union> set F \<union> I) = card (set Q) + card (set F) + card I"
    using L(6,7,8) f by (subst card_Un_disjoint, auto)+
  then show "length Q + length F + card I = unat (mq_max_msgs m)"
    using L(4,5,9) by (simp add: distinct_card)
qed

lemma mq_take_free_Nil:
  "mq_lists m Q [] I \<Longrightarrow> mq_take_free m = None"
  by (simp add: mq_lists_def mq_take_free_def)

lemma mq_take_free_Cons:
  assumes "mq_lists m Q (b # F) I"
  shows "mq_take_free m = Some (b, m\<lparr>msg_queue_free := mq_link m b\<rparr>)"
    "mq_lists (m\<lparr>msg_queue_free := mq_link m b\<rparr>) Q F (insert b I)" "b \<notin> I"
  using assms by (auto simp: mq_lists_def mq_take_free_def)

lemma mq_take_free_cases:
  assumes "mq_lists m Q F I" "mq_take_free m = Some (b, m')"
  shows "\<exists>F'. F = b # F' \<and> m' = m\<lparr>msg_queue_free := mq_link m b\<rparr>"
  using assms by (auto simp: mq_lists_def mq_take_free_def mchain_Some)

lemma mq_fill_lists:
  assumes "mq_lists m Q F I" "b \<in> I" "length bytes \<le> unat (mq_msg_size m)"
  shows "mq_lists (mq_fill b bytes m) Q F I"
  using assms by (auto simp: mq_lists_def mq_fill_def)

lemma mq_link_null_lists:
  assumes "mq_lists m Q F I" "b \<in> I"
  shows "mq_lists (mq_link_null b m) Q F I"
proof -
  have "b \<notin> set Q" "b \<notin> set F" using mq_listsD(7,8)[OF assms(1)] assms(2) by auto
  then show ?thesis using assms(1) by (simp add: mq_lists_def mq_link_null_def)
qed

lemma mq_entry_Suc:
  assumes "mq_lists m Q F I" "b \<in> I"
  shows "unat (mq_entry m + 1) = Suc (length Q)"
proof -
  have "0 < card I" using mq_lists_count(2)[OF assms(1)] assms(2) by (auto simp: card_gt_0_iff)
  then have "length Q < unat (mq_max_msgs m)" using mq_lists_count(1)[OF assms(1)] by simp
  then have "mq_entry m < mq_max_msgs m" using mq_listsD(10)[OF assms(1)] by (simp add: word_less_nat_alt)
  from unat16_Suc[OF this] show ?thesis using mq_listsD(10)[OF assms(1)] by simp
qed

lemma mq_link_tail_lists:
  assumes l: "mq_lists m Q F I" and b: "b \<in> I" and n: "mq_link m b = None"
  shows "mq_lists (mq_link_tail b m) (Q @ [b]) F (I - {b})"
proof -
  note L = mq_listsD[OF l]
  have bQ: "b \<notin> set Q" and bF: "b \<notin> set F" using L(7,8) b by auto
  have e: "unat (mq_entry m + 1) = Suc (length Q)" by (rule mq_entry_Suc[OF l b])
  have st: "set (Q @ [b]) \<union> set F \<union> (I - {b}) = {..<unat (mq_max_msgs m)}" using L(9) b by auto
  show ?thesis
  proof (cases "Q = []")
    case True
    then have "msg_queue_head m = None" "msg_queue_tail m = None" using L(1,3) by simp_all
    then show ?thesis using l True n e st bF L(8) b
      by (auto simp: mq_lists_def mq_link_tail_def Let_def)
  next
    case False
    then have h: "msg_queue_head m \<noteq> None" "msg_queue_tail m = Some (last Q)" using L(1,3) by (cases Q; auto)+
    have lQ: "last Q \<in> set Q" using False by simp
    then have "last Q \<notin> set F" using L(6) by blast
    moreover have "mchain ((mq_link m)(last Q := Some b)) (msg_queue_head m) (Q @ [b])"
      by (rule mchain_snoc[OF L(1) False L(4) bQ n])
    ultimately show ?thesis using l h False e st bQ bF L b
      by (auto simp: mq_lists_def mq_link_tail_def Let_def)
  qed
qed

lemma mq_link_head_lists:
  assumes l: "mq_lists m Q F I" and b: "b \<in> I"
  shows "mq_lists (mq_link_head b m) (b # Q) F (I - {b})"
proof -
  note L = mq_listsD[OF l]
  have bQ: "b \<notin> set Q" and bF: "b \<notin> set F" using L(7,8) b by auto
  have e: "unat (mq_entry m + 1) = Suc (length Q)" by (rule mq_entry_Suc[OF l b])
  have st: "set (b # Q) \<union> set F \<union> (I - {b}) = {..<unat (mq_max_msgs m)}" using L(9) b by auto
  show ?thesis using l e st bQ bF L
    by (auto simp: mq_lists_def mq_link_head_def Let_def)
qed

lemma mq_unlink_head_lists:
  assumes l: "mq_lists m (b # Q) F I"
  shows "msg_queue_head m = Some b" "mq_lists (mq_unlink_head b m) Q F (insert b I)" "b \<notin> I"
proof -
  note L = mq_listsD[OF l]
  show "msg_queue_head m = Some b" using L(1) by simp
  show "b \<notin> I" using L(7) by auto
  have e: "unat (mq_entry m) = Suc (length Q)" using L(10) by simp
  then have "mq_entry m \<noteq> 0" by auto
  then have e': "unat (mq_entry m - 1) = length Q" using e by (simp add: unat_minus_one)
  have t: "(msg_queue_tail m = Some b) = (Q = [])" using L(3,4) by (cases "Q = []") auto
  show "mq_lists (mq_unlink_head b m) Q F (insert b I)"
    using l e' t by (auto simp: mq_lists_def mq_unlink_head_def Let_def)
qed

lemma mq_give_free_lists:
  assumes l: "mq_lists m Q F I" and b: "b \<in> I"
  shows "mq_lists (mq_give_free b m) Q (b # F) (I - {b})"
proof -
  note L = mq_listsD[OF l]
  have "b \<notin> set Q" "b \<notin> set F" using L(7,8) b by auto
  then show ?thesis using l b by (auto simp: mq_lists_def mq_give_free_def)
qed

section \<open>The messages of a queue\<close>

definition mq_items :: "rt_messagequeue \<Rightarrow> rt_uint8 list list" where
  "mq_items m = map (mq_buf m) (mq_follow (unat (mq_entry m)) (mq_link m) (msg_queue_head m))"

lemma mq_items_eq: "mq_lists m Q F I \<Longrightarrow> mq_items m = map (mq_buf m) Q"
  using mq_follow_chain[of "mq_link m" "msg_queue_head m" Q] by (simp add: mq_items_def mq_lists_def)

lemma mq_buf_simps [simp]:
  "mq_buf (mq_link_tail b m) = mq_buf m" "mq_buf (mq_link_head b m) = mq_buf m"
  "mq_buf (mq_unlink_head b m) = mq_buf m" "mq_buf (mq_give_free b m) = mq_buf m"
  "mq_buf (mq_link_null b m) = mq_buf m"
  "mq_buf (mq_fill b bytes m) = (mq_buf m)(b := bytes @ drop (length bytes) (mq_buf m b))"
  by (simp_all add: mq_link_tail_def mq_link_head_def mq_unlink_head_def mq_give_free_def mq_link_null_def
      mq_fill_def Let_def split: option.split)

lemma mq_size_simps [simp]:
  "mq_msg_size (mq_link_tail b m) = mq_msg_size m" "mq_msg_size (mq_link_head b m) = mq_msg_size m"
  "mq_msg_size (mq_unlink_head b m) = mq_msg_size m" "mq_msg_size (mq_give_free b m) = mq_msg_size m"
  "mq_msg_size (mq_link_null b m) = mq_msg_size m" "mq_msg_size (mq_fill b bytes m) = mq_msg_size m"
  "mq_max_msgs (mq_link_tail b m) = mq_max_msgs m" "mq_max_msgs (mq_link_head b m) = mq_max_msgs m"
  "mq_max_msgs (mq_unlink_head b m) = mq_max_msgs m" "mq_max_msgs (mq_give_free b m) = mq_max_msgs m"
  "mq_max_msgs (mq_link_null b m) = mq_max_msgs m" "mq_max_msgs (mq_fill b bytes m) = mq_max_msgs m"
  by (simp_all add: mq_link_tail_def mq_link_head_def mq_unlink_head_def mq_give_free_def mq_link_null_def
      mq_fill_def Let_def split: option.split)

lemma mq_link_simps [simp]:
  "mq_link (mq_fill b bytes m) = mq_link m" "mq_link (mq_link_null b m) = (mq_link m)(b := None)"
  "mq_link (mq_unlink_head b m) = mq_link m" "mq_link (mq_give_free b m) = (mq_link m)(b := msg_queue_free m)"
  "mq_link (mq_link_head b m) = (mq_link m)(b := msg_queue_head m)"
  by (simp_all add: mq_fill_def mq_link_null_def mq_unlink_head_def mq_give_free_def mq_link_head_def Let_def)

lemma mq_link_tail_other:
  assumes "mq_lists m Q F I" "c \<in> I"
  shows "mq_link (mq_link_tail b m) c = mq_link m c"
proof -
  have "c \<notin> set Q" using mq_listsD(7)[OF assms(1)] assms(2) by auto
  then have "msg_queue_tail m \<noteq> Some c" using mq_listsD(3)[OF assms(1)] last_in_set[of Q] by (auto split: if_splits)
  then show ?thesis by (auto simp: mq_link_tail_def Let_def split: option.split)
qed

text \<open>A whole send, urgent send and receive on the lists.\<close>

definition mq_put :: "rt_uint8 list \<Rightarrow> rt_messagequeue \<Rightarrow> rt_messagequeue" where
  "mq_put x m = (case mq_take_free m of
     None \<Rightarrow> m | Some (b, m) \<Rightarrow> mq_link_tail b (mq_fill b x (mq_link_null b m)))"

definition mq_push :: "rt_uint8 list \<Rightarrow> rt_messagequeue \<Rightarrow> rt_messagequeue" where
  "mq_push x m = (case mq_take_free m of
     None \<Rightarrow> m | Some (b, m) \<Rightarrow> mq_link_head b (mq_fill b x m))"

definition mq_get :: "rt_messagequeue \<Rightarrow> rt_uint8 list \<times> rt_messagequeue" where
  "mq_get m = (case msg_queue_head m of
     None \<Rightarrow> ([], m) | Some b \<Rightarrow> (mq_buf m b, mq_give_free b (mq_unlink_head b m)))"

definition mq_idle :: "rt_messagequeue \<Rightarrow> bool" where
  "mq_idle m = (\<exists>Q F. mq_lists m Q F {})"

text \<open>A message fits when it is not longer than a message of the queue; the stored message has
  the rest of the block behind it. The items of the interface are whole blocks.\<close>

definition mq_fits :: "rt_messagequeue \<Rightarrow> rt_uint8 list \<Rightarrow> bool" where
  "mq_fits m x = (length x = unat (mq_msg_size m))"

lemma mq_put_lists:
  assumes "mq_lists m Q (b # F) I" "length x \<le> unat (mq_msg_size m)"
  shows "mq_lists (mq_put x m) (Q @ [b]) F I"
    "mq_buf (mq_put x m) = (mq_buf m)(b := x @ drop (length x) (mq_buf m b))"
proof -
  let ?m = "m\<lparr>msg_queue_free := mq_link m b\<rparr>"
  note T = mq_take_free_Cons[OF assms(1)]
  have "mq_lists (mq_fill b x (mq_link_null b ?m)) Q F (insert b I)"
    using mq_fill_lists[OF mq_link_null_lists[OF T(2)], of b b x] assms(2) by simp
  from mq_link_tail_lists[OF this, of b] have "mq_lists (mq_link_tail b (mq_fill b x (mq_link_null b ?m))) (Q @ [b]) F (insert b I - {b})"
    by simp
  moreover have "insert b I - {b} = I" using T(3) by simp
  ultimately show "mq_lists (mq_put x m) (Q @ [b]) F I" using T(1) by (simp add: mq_put_def)
  show "mq_buf (mq_put x m) = (mq_buf m)(b := x @ drop (length x) (mq_buf m b))" using T(1) by (simp add: mq_put_def)
qed

lemma mq_push_lists:
  assumes "mq_lists m Q (b # F) I" "length x \<le> unat (mq_msg_size m)"
  shows "mq_lists (mq_push x m) (b # Q) F I"
    "mq_buf (mq_push x m) = (mq_buf m)(b := x @ drop (length x) (mq_buf m b))"
proof -
  let ?m = "m\<lparr>msg_queue_free := mq_link m b\<rparr>"
  note T = mq_take_free_Cons[OF assms(1)]
  have "mq_lists (mq_fill b x ?m) Q F (insert b I)"
    using mq_fill_lists[OF T(2), of b x] assms(2) by simp
  from mq_link_head_lists[OF this, of b] have "mq_lists (mq_link_head b (mq_fill b x ?m)) (b # Q) F (insert b I - {b})"
    by simp
  moreover have "insert b I - {b} = I" using T(3) by simp
  ultimately show "mq_lists (mq_push x m) (b # Q) F I" using T(1) by (simp add: mq_push_def)
  show "mq_buf (mq_push x m) = (mq_buf m)(b := x @ drop (length x) (mq_buf m b))" using T(1) by (simp add: mq_push_def)
qed

lemma mq_get_lists:
  assumes "mq_lists m (b # Q) F I"
  shows "mq_lists (snd (mq_get m)) Q (b # F) I" "fst (mq_get m) = mq_buf m b" "mq_buf (snd (mq_get m)) = mq_buf m"
proof -
  note U = mq_unlink_head_lists[OF assms]
  have "insert b I - {b} = I" using U(3) by simp
  then show "mq_lists (snd (mq_get m)) Q (b # F) I"
    using mq_give_free_lists[OF U(2), of b] U(1) by (simp add: mq_get_def)
  show "fst (mq_get m) = mq_buf m b" "mq_buf (snd (mq_get m)) = mq_buf m" using U(1) by (simp_all add: mq_get_def)
qed

lemma mq_free_block:
  assumes "mq_lists m Q F {}" "length Q < unat (mq_max_msgs m)"
  obtains b F' where "F = b # F'"
  using mq_lists_count(1)[OF assms(1)] assms(2) by (cases F) auto

lemma mq_sizes_put [simp]:
  "mq_max_msgs (mq_put x m) = mq_max_msgs m" "mq_max_msgs (mq_push x m) = mq_max_msgs m"
  "mq_max_msgs (snd (mq_get m)) = mq_max_msgs m"
  by (auto simp: mq_put_def mq_push_def mq_get_def mq_take_free_def split: option.split)

interpretation mq_deque: bounded_deque mq_idle "\<lambda>m. unat (mq_max_msgs m)" mq_items mq_fits mq_put mq_get mq_push
proof
  fix m :: rt_messagequeue and x
  assume "mq_idle m"
  then obtain Q F where l: "mq_lists m Q F {}" by (auto simp: mq_idle_def)
  note I = mq_items_eq[OF l]
  show "length (mq_items m) \<le> unat (mq_max_msgs m)" using mq_lists_count(1)[OF l] I by simp
  show "mq_idle (mq_put x m)" "mq_items (mq_put x m) = mq_items m @ [x]"
    "unat (mq_max_msgs (mq_put x m)) = unat (mq_max_msgs m)"
    "mq_idle (mq_push x m)" "mq_items (mq_push x m) = x # mq_items m"
    if c: "length (mq_items m) < unat (mq_max_msgs m)" and f: "mq_fits m x"
  proof -
    have "length Q < unat (mq_max_msgs m)" using c I by simp
    then obtain b F' where F: "F = b # F'" by (rule mq_free_block[OF l])
    have sz: "length x = unat (mq_msg_size m)" using f by (simp add: mq_fits_def)
    have bQ: "b \<notin> set Q" and b: "b < unat (mq_max_msgs m)" using mq_listsD(6,9)[OF l] F by auto
    have d: "x @ drop (length x) (mq_buf m b) = x" using mq_listsD(11)[OF l b] sz by simp
    note P = mq_put_lists[OF l[unfolded F], of x] and U = mq_push_lists[OF l[unfolded F], of x]
    show "mq_idle (mq_put x m)" "mq_idle (mq_push x m)" using P(1) U(1) sz by (auto simp: mq_idle_def)
    show "mq_items (mq_put x m) = mq_items m @ [x]"
      using P sz bQ d I mq_items_eq[OF P(1)] by simp
    show "mq_items (mq_push x m) = x # mq_items m"
      using U sz bQ d I mq_items_eq[OF U(1)] by simp
    show "unat (mq_max_msgs (mq_put x m)) = unat (mq_max_msgs m)" by simp
  qed
  show "mq_idle (snd (mq_get m))" "fst (mq_get m) = hd (mq_items m)"
    "mq_items (snd (mq_get m)) = tl (mq_items m)"
    "unat (mq_max_msgs (snd (mq_get m))) = unat (mq_max_msgs m)" if n: "mq_items m \<noteq> []"
  proof -
    obtain b Q' where Q: "Q = b # Q'" using n I by (cases Q) auto
    note G = mq_get_lists[OF l[unfolded Q]]
    show "mq_idle (snd (mq_get m))" using G(1) by (auto simp: mq_idle_def)
    show "fst (mq_get m) = hd (mq_items m)" "mq_items (snd (mq_get m)) = tl (mq_items m)"
      using G I Q mq_items_eq[OF G(1)] by simp_all
    show "unat (mq_max_msgs (snd (mq_get m))) = unat (mq_max_msgs m)" by simp
  qed
qed

section \<open>Initialisation and reset\<close>

lemma mq_init_free:
  assumes "msg_queue_head m = None" "msg_queue_tail m = None" "msg_queue_free m = None"
  shows "mchain (mq_link (fold mq_give_free [0..<n] m)) (msg_queue_free (fold mq_give_free [0..<n] m)) (rev [0..<n])
    \<and> msg_queue_head (fold mq_give_free [0..<n] m) = None \<and> msg_queue_tail (fold mq_give_free [0..<n] m) = None
    \<and> mq_buf (fold mq_give_free [0..<n] m) = mq_buf m
    \<and> mq_max_msgs (fold mq_give_free [0..<n] m) = mq_max_msgs m
    \<and> mq_msg_size (fold mq_give_free [0..<n] m) = mq_msg_size m"
  using assms by (induction n) (auto simp: mq_give_free_def)

lemma mq_init_lists_ok:
  assumes "\<And>b. b < unat (mq_max_msgs m) \<Longrightarrow> length (mq_buf m b) = unat (mq_msg_size m)"
  shows "mq_lists ((mq_init_lists m)\<lparr>mq_entry := 0\<rparr>) [] (rev [0..<unat (mq_max_msgs m)]) {}"
  using mq_init_free[of "m\<lparr>msg_queue_head := None, msg_queue_tail := None, msg_queue_free := None\<rparr>" "unat (mq_max_msgs m)"]
    assms by (auto simp: mq_lists_def mq_init_lists_def)

text \<open>Draining ends because each round takes a block off the queue; every queued block becomes
  free.\<close>

lemma mq_drain_lists:
  assumes "mq_lists (m\<lparr>mq_entry := of_nat (length Q)\<rparr>) Q F I"
  shows "\<exists>m' F'. mq_drain m = Some m' \<and> mq_lists (m'\<lparr>mq_entry := 0\<rparr>) [] F' I
    \<and> mq_max_msgs m' = mq_max_msgs m \<and> mq_msg_size m' = mq_msg_size m"
  using assms
proof (induction Q arbitrary: m F)
  case Nil
  then have "msg_queue_head m = None" by (simp add: mq_lists_def)
  then show ?case using Nil by (subst mq_drain.simps) auto
next
  case (Cons b Q)
  let ?n = "m\<lparr>mq_entry := of_nat (length (b # Q))\<rparr>"
  let ?m = "mq_give_free b (let m = m\<lparr>msg_queue_head := mq_link m b\<rparr>
         in if msg_queue_tail m = Some b then m\<lparr>msg_queue_tail := None\<rparr> else m)"
  note U = mq_unlink_head_lists[OF Cons.prems]
  have "insert b I - {b} = I" using U(3) by simp
  then have "mq_lists (mq_give_free b (mq_unlink_head b ?n)) Q (b # F) I"
    using mq_give_free_lists[OF U(2), of b] by simp
  moreover have "mq_give_free b (mq_unlink_head b ?n) = ?m\<lparr>mq_entry := of_nat (length Q)\<rparr>"
    by (simp add: mq_give_free_def mq_unlink_head_def Let_def)
  ultimately have "mq_lists (?m\<lparr>mq_entry := of_nat (length Q)\<rparr>) Q (b # F) I" by simp
  from Cons.IH[OF this] obtain m' F' where
    m': "mq_drain ?m = Some m'" "mq_lists (m'\<lparr>mq_entry := 0\<rparr>) [] F' I"
    "mq_max_msgs m' = mq_max_msgs ?m" "mq_msg_size m' = mq_msg_size ?m" by blast
  have "msg_queue_head m = Some b" using U(1) by simp
  then have "mq_drain m = Some m'" using m'(1) by (subst mq_drain.simps) simp
  moreover have "mq_max_msgs ?m = mq_max_msgs m" "mq_msg_size ?m = mq_msg_size m" by (simp_all add: Let_def)
  ultimately show ?case using m'(2-4) by metis
qed

lemma mq_drain_ok:
  assumes "mq_lists m Q F I"
  shows "\<exists>m' F'. mq_drain m = Some m' \<and> mq_lists (m'\<lparr>mq_entry := 0\<rparr>) [] F' I
    \<and> mq_max_msgs m' = mq_max_msgs m \<and> mq_msg_size m' = mq_msg_size m"
proof (rule mq_drain_lists)
  have "of_nat (length Q) = mq_entry m" by (simp flip: mq_listsD(10)[OF assms])
  then show "mq_lists (m\<lparr>mq_entry := of_nat (length Q)\<rparr>) Q F I" using assms by simp
qed

end
