(* ===== verification/RT_Mq_Run.thy ===== *)
theory RT_Mq_Run
  imports RT_Mq_Lists
begin

text \<open>The message queue operations under the kernel invariant, whole and at the granularity of
  their critical sections, and runs in which any number of sends and receives overlap.\<close>

section \<open>The invariant\<close>

text \<open>I is the set of blocks that a started send fills or a started receive reads.\<close>

definition mq_ready :: "nat set \<Rightarrow> nat \<Rightarrow> kernel \<Rightarrow> bool" where
  "mq_ready I i s =
    (rt_object_get_type (OMq i) s = class_code RT_Object_Class_MessageQueue \<and> flag_ok s (OMq i)
     \<and> (\<exists>Q F. mq_lists (mqs s i) Q F I))"

definition mq_ok :: "nat set \<Rightarrow> nat \<Rightarrow> kernel \<Rightarrow> bool" where
  "mq_ok I i s = (kinv s \<and> rt_current_thread s \<noteq> None \<and> mq_ready I i s)"

interpretation message_queue: waiting_object "mq_ready I" for I
proof
  fix i s s'
  assume "mq_ready I i s" "ipc_kept s s'"
  then show "mq_ready I i s'"
    using ipc_keptD(5,7,13)[of s s'] by (simp add: mq_ready_def flag_ok_def)
qed

lemma mq_ready_same: "ipc_same s s' \<Longrightarrow> mq_ready I i s' = mq_ready I i s"
  using ipc_sameD(5,10)[of s s'] ipc_same_flag[of s s' "OMq i"] by (simp add: mq_ready_def flag_ok_def)

lemma mqs_upd [simp]: "mqs (upd_mqs i f s) i = f (mqs s i)"
  by (simp add: upd_mqs_def)

lemma mq_ok_upd:
  assumes "mq_ok I i s" "mq_lists (f (mqs s i)) Q F J"
  shows "mq_ok J i (upd_mqs i f s)"
proof -
  have d: "same_but_data s (upd_mqs i f s)" by simp
  note D = same_but_dataD[OF d]
  show ?thesis using assms kinv_same_but_data[OF d] D(3,7,11)
    by (auto simp: mq_ok_def mq_ready_def flag_ok_def)
qed

lemma mq_okE:
  assumes "mq_ok I i s"
  obtains Q F where "mq_lists (mqs s i) Q F I" "mq_items (mqs s i) = map (mq_buf (mqs s i)) Q"
  using assms mq_items_eq by (auto simp: mq_ok_def mq_ready_def)

lemma mq_ok_set_err [simp]: "mq_ok I i (set_err t e s) = mq_ok I i s"
  by (simp add: mq_ok_def mq_ready_def flag_ok_def)

section \<open>Sending\<close>

lemma mq_send_begin_refused:
  assumes ok: "mq_ok I i s" and b: "bytes \<noteq> []"
  shows "length bytes > unat (mq_msg_size (mqs s i)) \<Longrightarrow> mq_send_begin u i bytes s = Some (Inl (- RT_ERROR), s)"
    "length bytes \<le> unat (mq_msg_size (mqs s i)) \<Longrightarrow> mq_lists (mqs s i) Q [] I
      \<Longrightarrow> mq_send_begin u i bytes s = Some (Inl (- RT_EFULL), s)"
proof -
  have ty: "rt_object_get_type (OMq i) s = class_code RT_Object_Class_MessageQueue"
    using ok by (simp add: mq_ok_def mq_ready_def)
  show "length bytes > unat (mq_msg_size (mqs s i)) \<Longrightarrow> mq_send_begin u i bytes s = Some (Inl (- RT_ERROR), s)"
    using ty b by (simp add: mq_send_begin_def)
  show "length bytes \<le> unat (mq_msg_size (mqs s i)) \<Longrightarrow> mq_lists (mqs s i) Q [] I
      \<Longrightarrow> mq_send_begin u i bytes s = Some (Inl (- RT_EFULL), s)"
    using ty b mq_take_free_Nil by (simp add: mq_send_begin_def)
qed

lemma mq_send_begin_ok:
  assumes ok: "mq_ok I i s" and b: "bytes \<noteq> []" "length bytes \<le> unat (mq_msg_size (mqs s i))"
    and l: "mq_lists (mqs s i) Q (b # F) I"
  shows "\<exists>s'. mq_send_begin u i bytes s = Some (Inr b, s') \<and> mq_ok (insert b I) i s' \<and> tq s' = tq s
    \<and> mq_lists (mqs s' i) Q F (insert b I) \<and> b \<notin> I \<and> (\<not> u \<longrightarrow> mq_link (mqs s' i) b = None)
    \<and> mq_buf (mqs s' i) = (mq_buf (mqs s i))(b := bytes @ drop (length bytes) (mq_buf (mqs s i) b))
    \<and> (\<forall>c. c \<noteq> b \<longrightarrow> mq_link (mqs s' i) c = mq_link (mqs s i) c)
    \<and> mq_msg_size (mqs s' i) = mq_msg_size (mqs s i) \<and> mq_max_msgs (mqs s' i) = mq_max_msgs (mqs s i)"
proof -
  have ty: "rt_object_get_type (OMq i) s = class_code RT_Object_Class_MessageQueue"
    using ok by (simp add: mq_ok_def mq_ready_def)
  let ?m = "(mqs s i)\<lparr>msg_queue_free := mq_link (mqs s i) b\<rparr>"
  let ?n = "mq_fill b bytes (if u then ?m else mq_link_null b ?m)"
  let ?s = "upd_mqs i (\<lambda>_. ?n) s"
  note T = mq_take_free_Cons[OF l]
  have "mq_lists (if u then ?m else mq_link_null b ?m) Q F (insert b I)"
    using T(2) mq_link_null_lists[OF T(2), of b] by simp
  from mq_fill_lists[OF this, of b bytes] have n: "mq_lists ?n Q F (insert b I)"
    using b(2) by (simp split: if_splits)
  have "mq_send_begin u i bytes s = Some (Inr b, ?s)"
    using ty b T(1) by (simp add: mq_send_begin_def)
  moreover have "tq ?s = tq s" using same_but_dataD(1)[OF same_but_data_upd(5)] by simp
  ultimately show ?thesis
    using n T(3) mq_ok_upd[where f = "\<lambda>_. ?n", OF ok n] by (intro exI[of _ ?s]) simp
qed

lemma mq_send_end_ok:
  assumes ok: "mq_ok I i s" and b: "b \<in> I" "\<not> u \<Longrightarrow> mq_link (mqs s i) b = None"
    and l: "mq_lists (mqs s i) Q F I"
  shows "\<exists>s'. mq_send_end u i b s = Some (RT_EOK, s') \<and> mq_ok (I - {b}) i s'
    \<and> mqs s' i = (if u then mq_link_head b else mq_link_tail b) (mqs s i)
    \<and> mq_lists (mqs s' i) (if u then b # Q else Q @ [b]) F (I - {b})
    \<and> tq s' (mq_recvq i) = tl (tq s (mq_recvq i))
    \<and> (tq s (mq_recvq i) \<noteq> [] \<longrightarrow> is_ready s' (hd (tq s (mq_recvq i)))
       \<and> (rt_scheduler_lock_nest s = 0 \<longrightarrow> runs_best s'))"
proof -
  let ?f = "if u then mq_link_head b else mq_link_tail b"
  let ?s = "upd_mqs i ?f s"
  have n: "mq_lists (?f (mqs s i)) (if u then b # Q else Q @ [b]) F (I - {b})"
    using mq_link_head_lists[OF l b(1)] mq_link_tail_lists[OF l b] by simp
  have ok1: "mq_ok (I - {b}) i ?s" by (rule mq_ok_upd[where f = ?f, OF ok n])
  note D = same_but_dataD[OF same_but_data_upd(5)[of s i ?f]]
  have h: "is_wait_head (mq_recvq i)" by simp
  have "kinv ?s" "rt_current_thread ?s \<noteq> None" using ok1 by (simp_all add: mq_ok_def)
  from wake_first_total[OF this h] obtain s' where
    s': "wake_first (mq_recvq i) ?s = Some s'" "kinv s'" "rt_current_thread s' \<noteq> None" "ipc_same ?s s'"
    "tq s' (mq_recvq i) = tl (tq s (mq_recvq i))"
    "tq s (mq_recvq i) \<noteq> [] \<longrightarrow> is_ready s' (hd (tq s (mq_recvq i)))"
    "tq s (mq_recvq i) \<noteq> [] \<and> rt_scheduler_lock_nest s = 0 \<longrightarrow> runs_best s'" unfolding D(1,9) by blast
  have "mq_ok (I - {b}) i s'" using ok1 s'(2,3) mq_ready_same[OF s'(4)] by (simp add: mq_ok_def)
  moreover have m: "mqs s' i = ?f (mqs s i)" using ipc_sameD(5)[OF s'(4)] by simp
  ultimately show ?thesis using s' n by (cases u) (auto simp: mq_send_end_def)
qed

section \<open>Receiving\<close>

lemma unat_ucast_16_32: "unat (ucast (x :: 16 word) :: 32 word) = unat x"
proof -
  have "unat x < 2 ^ LENGTH(16)" by (rule unsigned_less)
  then show ?thesis by (simp add: unsigned_ucast_eq take_bit_nat_eq_self)
qed

lemma mq_recv_begin_ok:
  assumes ok: "mq_ok I i s" and l: "mq_lists (mqs s i) (b # Q) F I"
  shows "\<exists>s'. mq_recv_loop i time s = Some (Done (Inr b), s') \<and> mq_ok (insert b I) i s' \<and> b \<notin> I
    \<and> mqs s' i = mq_unlink_head b (mqs s i) \<and> mq_lists (mqs s' i) Q F (insert b I)"
proof -
  let ?s = "upd_mqs i (mq_unlink_head b) s"
  note U = mq_unlink_head_lists[OF l]
  have "unat (mq_entry (mqs s i)) \<noteq> 0" using mq_listsD(10)[OF l] by simp
  then have "mq_entry (mqs s i) \<noteq> 0" by auto
  then have "mq_recv_loop i time s = Some (Done (Inr b), ?s)"
    using U(1) by (simp add: mq_recv_loop.simps[of i time s])
  then show ?thesis using U(2,3) mq_ok_upd[where f = "mq_unlink_head b", OF ok U(2)] by simp
qed

lemma mq_blocked:
  assumes ok: "mq_ok I i s" and bl: "blocked h c flag time (set_err c e s) s'" and h: "is_wait_head h"
  shows "mq_ok I i s'" "mqs s' = mqs s" "is_suspended s' c" "runs_best s'"
    "tq s' h = wait_insert flag s c (tq s h)"
proof -
  note B = blockedD[OF bl h]
  have same: "ipc_same s s'" by (rule ipc_same_trans[OF ipc_same_set_err B(12)])
  show "mq_ok I i s'" using ok B(1) blocked_current[OF bl] mq_ready_same[OF same]
    by (simp add: mq_ok_def)
  show "mqs s' = mqs s" "is_suspended s' c" "runs_best s'" using B(2,3,9) by simp_all
  show "tq s' h = wait_insert flag s c (tq s h)" using B(4) by (simp add: wait_insert_def)
qed

lemma mq_recv_loop_waits:
  assumes ok: "mq_ok I i s" and b: "can_block s c" and f: "mq_entry (mqs s i) = 0"
    and t: "time \<noteq> 0" "time < 0x7fffffff"
  shows "\<exists>s'. mq_recv_loop i time s = Some (Blocked, s') \<and> mq_ok I i s' \<and> mqs s' = mqs s
    \<and> is_suspended s' c \<and> runs_best s'
    \<and> tq s' (mq_recvq i) = wait_insert (ipc_flag s (OMq i)) s c (tq s (mq_recvq i))"
proof -
  have k: "kinv s" and fl: "flag_ok s (OMq i)" using ok by (simp_all add: mq_ok_def mq_ready_def)
  have h: "is_wait_head (mq_recvq i)" by simp
  from wait_round[OF k b h fl t(2)] obtain s1 s' where
    s': "ipc_wait (mq_recvq i) c (ipc_flag s (OMq i)) time (set_err c RT_EOK s) = Some s1"
    "rt_schedule s1 = Some s'" "rt_current_thread s' \<noteq> Some c"
    "blocked (mq_recvq i) c (ipc_flag s (OMq i)) time (set_err c RT_EOK s) s'" by blast
  have "rt_thread_self s = Some c" using b by (simp add: rt_thread_self_def can_block_def)
  then have "mq_recv_loop i time s = Some (Blocked, s')"
    using f t s'(1-3) in_thread_context_ok[OF b] by (subst mq_recv_loop.simps) simp
  then show ?thesis using mq_blocked[OF ok s'(4) h] by blast
qed

lemma mq_recv_loop_cases:
  assumes ok: "mq_ok I i s" and b: "time = 0 \<or> can_block s c" and t: "time < 0x7fffffff"
    and r: "mq_recv_loop i time s = Some (x, s')"
  shows "(\<exists>b Q F. x = Done (Inr b) \<and> mq_lists (mqs s i) (b # Q) F I \<and> mq_ok (insert b I) i s' \<and> b \<notin> I
       \<and> mqs s' i = mq_unlink_head b (mqs s i) \<and> mq_lists (mqs s' i) Q F (insert b I))
    \<or> ((\<forall>b. x \<noteq> Done (Inr b)) \<and> mq_ok I i s' \<and> mqs s' i = mqs s i)"
proof -
  from ok obtain Q F where l: "mq_lists (mqs s i) Q F I" by (rule mq_okE)
  show ?thesis
  proof (cases Q)
    case (Cons b Q')
    note l' = l[unfolded Cons]
    from mq_recv_begin_ok[OF ok l', of time] r have "x = Done (Inr b)" "mq_ok (insert b I) i s'" "b \<notin> I"
      "mqs s' i = mq_unlink_head b (mqs s i)" "mq_lists (mqs s' i) Q' F (insert b I)" by auto
    then show ?thesis using l' by blast
  next
    case Nil
    have "unat (mq_entry (mqs s i)) = 0" using mq_listsD(10)[OF l] Nil by simp
    then have e: "mq_entry (mqs s i) = 0" by (simp add: unat_eq_0)
    show ?thesis
    proof (cases "time = 0")
      case True
      obtain t where t: "rt_current_thread s = Some t" using ok by (auto simp: mq_ok_def)
      have "x = Done (Inl (- RT_ETIMEOUT))" "s' = set_err t (- RT_ETIMEOUT) (set_err t RT_EOK s)"
        using r e True t unfolding mq_recv_loop.simps[of i time s]
        by (auto simp: rt_thread_self_def bind_Some_iff)
      then show ?thesis using ok by simp
    next
      case False
      with b have "can_block s c" by simp
      from mq_recv_loop_waits[OF ok this e False t] r show ?thesis by auto
    qed
  qed
qed

lemma mq_recv_end_eq:
  assumes ok: "mq_ok I i s" and b: "b \<in> I" and l: "mq_lists (mqs s i) Q F I"
  shows "mq_recv_end i b sz s =
      (take (min (unat sz) (unat (mq_msg_size (mqs s i)))) (mq_buf (mqs s i) b), upd_mqs i (mq_give_free b) s)"
    "mq_ok (I - {b}) i (upd_mqs i (mq_give_free b) s)"
    "mq_lists (mqs (upd_mqs i (mq_give_free b) s) i) Q (b # F) (I - {b})"
proof -
  let ?m = "mq_msg_size (mqs s i)"
  have "unat (ucast ?m :: 32 word) = unat ?m" by (rule unat_ucast_16_32)
  then have "(sz > ucast ?m) = (unat sz > unat ?m)" by (simp add: word_less_nat_alt)
  then show "mq_recv_end i b sz s =
      (take (min (unat sz) (unat ?m)) (mq_buf (mqs s i) b), upd_mqs i (mq_give_free b) s)"
    by (simp add: mq_recv_end_def min_def)
  note G = mq_give_free_lists[OF l b]
  show "mq_ok (I - {b}) i (upd_mqs i (mq_give_free b) s)" by (rule mq_ok_upd[where f = "mq_give_free b", OF ok G])
  show "mq_lists (mqs (upd_mqs i (mq_give_free b) s) i) Q (b # F) (I - {b})" using G by simp
qed

section \<open>Whole calls\<close>

text \<open>Sending, urgently or not, when no other call is between its critical sections.\<close>

lemma mq_send_total:
  assumes ok: "mq_ok {} i s" and b: "bytes \<noteq> []" "length bytes \<le> unat (mq_msg_size (mqs s i))"
    and n: "length (mq_items (mqs s i)) < unat (mq_max_msgs (mqs s i))"
  shows "\<exists>s' msg. (mq_send_begin u i bytes s \<bind> (\<lambda>(r, s). case r of Inl e \<Rightarrow> Some (e, s) | Inr b \<Rightarrow> mq_send_end u i b s))
      = Some (RT_EOK, s') \<and> mq_ok {} i s'
    \<and> take (length bytes) msg = bytes \<and> length msg = unat (mq_msg_size (mqs s i))
    \<and> mq_items (mqs s' i) = (if u then msg # mq_items (mqs s i) else mq_items (mqs s i) @ [msg])
    \<and> tq s' (mq_recvq i) = tl (tq s (mq_recvq i))
    \<and> (tq s (mq_recvq i) \<noteq> [] \<longrightarrow> is_ready s' (hd (tq s (mq_recvq i))))"
proof -
  from ok obtain Q F where l: "mq_lists (mqs s i) Q F {}" and I: "mq_items (mqs s i) = map (mq_buf (mqs s i)) Q"
    by (rule mq_okE)
  obtain c F' where F: "F = c # F'" using mq_free_block[OF l] n I by auto
  have cQ: "c \<notin> set Q" and c: "c < unat (mq_max_msgs (mqs s i))" using mq_listsD(6,9)[OF l] F by auto
  let ?msg = "bytes @ drop (length bytes) (mq_buf (mqs s i) c)"
  have len: "length ?msg = unat (mq_msg_size (mqs s i))" using mq_listsD(11)[OF l c] b(2) by simp
  from mq_send_begin_ok[OF ok b l[unfolded F], of u] obtain s1 where
    s1: "mq_send_begin u i bytes s = Some (Inr c, s1)" "mq_ok {c} i s1" "tq s1 = tq s"
    "mq_lists (mqs s1 i) Q F' {c}" "\<not> u \<longrightarrow> mq_link (mqs s1 i) c = None"
    "mq_buf (mqs s1 i) = (mq_buf (mqs s i))(c := ?msg)" by auto
  from mq_send_end_ok[OF s1(2) _ _ s1(4), of c u] s1(5) obtain s' where
    s': "mq_send_end u i c s1 = Some (RT_EOK, s')" "mq_ok {} i s'"
    "mqs s' i = (if u then mq_link_head c else mq_link_tail c) (mqs s1 i)"
    "mq_lists (mqs s' i) (if u then c # Q else Q @ [c]) F' {}" "tq s' (mq_recvq i) = tl (tq s (mq_recvq i))"
    "tq s (mq_recvq i) \<noteq> [] \<longrightarrow> is_ready s' (hd (tq s (mq_recvq i)))" unfolding s1(3) by auto
  have "mq_buf (mqs s' i) = (mq_buf (mqs s i))(c := ?msg)" unfolding s'(3) using s1(6) by simp
  then have it: "mq_items (mqs s' i) = (if u then ?msg # mq_items (mqs s i) else mq_items (mqs s i) @ [?msg])"
    using mq_items_eq[OF s'(4)] I cQ by (cases u) simp_all
  show ?thesis
    by (intro exI[of _ s'] exI[of _ ?msg]) (use s1(1) s'(1,2,5,6) len it in simp)
qed

lemma mq_recv_total:
  assumes ok: "mq_ok {} i s" and n: "mq_items (mqs s i) = msg # msgs"
  shows "\<exists>s'. map_option (mq_recv_finish i sz) (mq_recv_loop i time s)
      = Some (Done (RT_EOK, Some (take (min (unat sz) (unat (mq_msg_size (mqs s i)))) msg)), s')
    \<and> mq_ok {} i s' \<and> mq_items (mqs s' i) = msgs"
proof -
  from ok obtain Q F where l: "mq_lists (mqs s i) Q F {}" and I: "mq_items (mqs s i) = map (mq_buf (mqs s i)) Q"
    by (rule mq_okE)
  then obtain b Q' where Q: "Q = b # Q'" "mq_buf (mqs s i) b = msg" "map (mq_buf (mqs s i)) Q' = msgs"
    using n by (cases Q) auto
  from mq_recv_begin_ok[OF ok l[unfolded Q(1)], of time] obtain s1 where
    s1: "mq_recv_loop i time s = Some (Done (Inr b), s1)" "mq_ok {b} i s1"
    "mqs s1 i = mq_unlink_head b (mqs s i)" "mq_lists (mqs s1 i) Q' F {b}" by auto
  let ?s = "upd_mqs i (mq_give_free b) s1"
  note E = mq_recv_end_eq[OF s1(2) _ s1(4), of b]
  have "mq_items (mqs ?s i) = msgs" using mq_items_eq[OF E(3)] s1(3) Q(3) by simp
  then show ?thesis
    using s1(1,3) E(1,2) Q(2) by (intro exI[of _ ?s]) (simp add: mq_recv_finish_def)
qed

end
