(* ===== verification/RT_Mq_Flow.thy ===== *)
theory RT_Mq_Flow
  imports RT_Mq_Run
begin

text \<open>Runs of a system with a message queue, with sends and receives that overlap: the two
  critical sections of a send, and the two of a receive, are separate steps. The properties
  are what whole calls do and that messages are delivered unchanged and in order.\<close>

section \<open>Runs\<close>

text \<open>\<^verbatim>\<open>mq_run i s0 ins n P R D s\<close>: ins are the messages that were in the queue or were queued since,
  in order, and n of them have been unlinked. P maps the blocks of the started sends to their
  messages: the bytes that the caller sends, and behind them, up to the size of a block, what the block
  held before. R maps the blocks of the started receives to the number of their message in ins.
  D are the receives that have returned: the number of the message, the size that the caller asked
  for, and the bytes that the caller got.\<close>

definition padded :: "rt_uint8 list \<Rightarrow> rt_uint8 list \<Rightarrow> rt_uint8 list" where
  "padded bytes old = bytes @ drop (length bytes) old"

inductive mq_run ::
  "nat \<Rightarrow> kernel \<Rightarrow> rt_uint8 list list \<Rightarrow> nat \<Rightarrow> (nat \<rightharpoonup> rt_uint8 list) \<Rightarrow> (nat \<rightharpoonup> nat)
    \<Rightarrow> (nat \<times> rt_size \<times> rt_uint8 list) list \<Rightarrow> kernel \<Rightarrow> bool" for i s0 where
  q_start: "mq_run i s0 (mq_items (mqs s0 i)) 0 Map.empty Map.empty [] s0"
| q_send_begin: "mq_run i s0 ins n P R D s \<Longrightarrow> mq_send_begin False i bytes s = Some (Inr b, s')
    \<Longrightarrow> mq_run i s0 ins n (P(b \<mapsto> padded bytes (mq_buf (mqs s i) b))) R D s'"
| q_refused: "mq_run i s0 ins n P R D s \<Longrightarrow> mq_send_begin False i bytes s = Some (Inl e, s')
    \<Longrightarrow> mq_run i s0 ins n P R D s'"
| q_send_end: "mq_run i s0 ins n P R D s \<Longrightarrow> P b = Some x \<Longrightarrow> mq_send_end False i b s = Some (e, s')
    \<Longrightarrow> mq_run i s0 (ins @ [x]) n (P(b := None)) R D s'"
| q_recv_begin: "mq_run i s0 ins n P R D s \<Longrightarrow> time = 0 \<or> can_block s c \<Longrightarrow> time < 0x7fffffff
    \<Longrightarrow> mq_recv_loop i time s = Some (Done (Inr b), s') \<Longrightarrow> mq_run i s0 ins (Suc n) P (R(b \<mapsto> n)) D s'"
| q_recv_none: "mq_run i s0 ins n P R D s \<Longrightarrow> time = 0 \<or> can_block s c \<Longrightarrow> time < 0x7fffffff
    \<Longrightarrow> mq_recv_loop i time s = Some (y, s') \<Longrightarrow> (\<And>b. y \<noteq> Done (Inr b))
    \<Longrightarrow> mq_run i s0 ins n P R D s'"
| q_recv_end: "mq_run i s0 ins n P R D s \<Longrightarrow> R b = Some k \<Longrightarrow> mq_recv_end i b sz s = (bytes, s')
    \<Longrightarrow> mq_run i s0 ins n P (R(b := None)) (D @ [(k, sz, bytes)]) s'"
| q_timed_out: "mq_run i s0 ins n P R D s \<Longrightarrow> is_suspended s t \<Longrightarrow> ThreadTimer t \<notin> set (rt_timer_list s)
    \<Longrightarrow> rt_thread_timeout t s = Some s' \<Longrightarrow> mq_run i s0 ins n P R D s'"
| q_switched: "mq_run i s0 ins n P R D s \<Longrightarrow> rt_schedule s = Some s' \<Longrightarrow> mq_run i s0 ins n P R D s'"

text \<open>The blocks in use hold the messages they are recorded with, and a block to be queued has no
  successor.\<close>

definition mq_flow :: "nat \<Rightarrow> (nat \<rightharpoonup> rt_uint8 list) \<Rightarrow> (nat \<rightharpoonup> rt_uint8 list) \<Rightarrow> kernel \<Rightarrow> bool" where
  "mq_flow i P R s =
    (mq_ok (dom P \<union> dom R) i s \<and> dom P \<inter> dom R = {}
     \<and> (\<forall>b x. P b = Some x \<longrightarrow> mq_buf (mqs s i) b = x \<and> mq_link (mqs s i) b = None)
     \<and> (\<forall>b x. R b = Some x \<longrightarrow> mq_buf (mqs s i) b = x))"

lemma mq_flow_same:
  "mq_flow i P R s \<Longrightarrow> mqs s' i = mqs s i \<Longrightarrow> mq_ok (dom P \<union> dom R) i s' \<Longrightarrow> mq_flow i P R s'"
  by (simp add: mq_flow_def)

lemma mq_send_begin_cases:
  assumes ok: "mq_ok I i s" and r: "mq_send_begin u i bytes s = Some (x, s')"
  shows "(\<exists>e. x = Inl e \<and> s' = s)
    \<or> (\<exists>b Q F. x = Inr b \<and> mq_lists (mqs s i) Q (b # F) I \<and> bytes \<noteq> [] \<and> length bytes \<le> unat (mq_msg_size (mqs s i)))"
proof -
  from ok obtain Q F where l: "mq_lists (mqs s i) Q F I" by (rule mq_okE)
  have b: "bytes \<noteq> []" using r by (auto simp: mq_send_begin_def bind_Some_iff)
  consider (long) "length bytes > unat (mq_msg_size (mqs s i))"
    | (full) "length bytes \<le> unat (mq_msg_size (mqs s i))" "F = []"
    | (room) c F' where "length bytes \<le> unat (mq_msg_size (mqs s i))" "F = c # F'" by (cases F) force+
  then show ?thesis
  proof cases
    case long
    from mq_send_begin_refused(1)[OF ok b this] r show ?thesis by auto
  next
    case full
    from mq_send_begin_refused(2)[OF ok b full(1)] l full(2) r show ?thesis by auto
  next
    case room
    from mq_send_begin_ok[OF ok b room(1) l[unfolded room(2)], of u] r have "x = Inr c" by auto
    then show ?thesis using l room b by blast
  qed
qed

lemma mq_flow_send_begin:
  assumes fl: "mq_flow i P R s" and r: "mq_send_begin False i bytes s = Some (Inr b, s')"
  shows "mq_flow i (P(b \<mapsto> padded bytes (mq_buf (mqs s i) b))) R s' \<and> mq_items (mqs s' i) = mq_items (mqs s i)
    \<and> mq_msg_size (mqs s' i) = mq_msg_size (mqs s i)"
proof -
  have ok: "mq_ok (dom P \<union> dom R) i s" using fl by (simp add: mq_flow_def)
  from mq_send_begin_cases[OF ok r] obtain Q F where
    l: "mq_lists (mqs s i) Q (b # F) (dom P \<union> dom R)" and b: "bytes \<noteq> []" "length bytes \<le> unat (mq_msg_size (mqs s i))"
    by auto
  from mq_send_begin_ok[OF ok b l, of False] r have
    s': "mq_ok (insert b (dom P \<union> dom R)) i s'" "mq_lists (mqs s' i) Q F (insert b (dom P \<union> dom R))"
    "b \<notin> dom P \<union> dom R" "mq_link (mqs s' i) b = None"
    "\<forall>c. c \<noteq> b \<longrightarrow> mq_buf (mqs s' i) c = mq_buf (mqs s i) c \<and> mq_link (mqs s' i) c = mq_link (mqs s i) c"
    "mq_buf (mqs s' i) b = padded bytes (mq_buf (mqs s i) b)" "mq_msg_size (mqs s' i) = mq_msg_size (mqs s i)"
    by (auto simp: padded_def)
  have "b \<notin> set Q" using mq_listsD(6)[OF l] by auto
  then have "mq_items (mqs s' i) = mq_items (mqs s i)"
    using mq_items_eq[OF l] mq_items_eq[OF s'(2)] s'(5) by (auto intro!: map_cong)
  moreover have "mq_flow i (P(b \<mapsto> padded bytes (mq_buf (mqs s i) b))) R s'"
    using fl s' by (auto simp: mq_flow_def)
  ultimately show ?thesis using s'(7) by blast
qed

lemma mq_flow_send_end:
  assumes fl: "mq_flow i P R s" and b: "P b = Some x" and r: "mq_send_end False i b s = Some (e, s')"
  shows "mq_flow i (P(b := None)) R s' \<and> mq_items (mqs s' i) = mq_items (mqs s i) @ [x]
    \<and> mq_msg_size (mqs s' i) = mq_msg_size (mqs s i)"
proof -
  let ?I = "dom P \<union> dom R"
  have ok: "mq_ok ?I i s" and nl: "mq_link (mqs s i) b = None" and bx: "mq_buf (mqs s i) b = x" and bI: "b \<in> ?I"
    and bR: "b \<notin> dom R"
    using fl b by (auto simp: mq_flow_def)
  from ok obtain Q F where l: "mq_lists (mqs s i) Q F ?I" by (rule mq_okE)
  from mq_send_end_ok[OF ok bI _ l, of False] nl r have
    s': "mq_ok (?I - {b}) i s'" "mqs s' i = mq_link_tail b (mqs s i)" "mq_lists (mqs s' i) (Q @ [b]) F (?I - {b})"
    by auto
  have "mq_items (mqs s' i) = mq_items (mqs s i) @ [x]"
    using mq_items_eq[OF l] mq_items_eq[OF s'(3)] s'(2) bx by simp
  moreover have "?I - {b} = dom (P(b := None)) \<union> dom R" using bR by auto
  moreover have "mq_link (mqs s' i) c = None" if "P c = Some y" for c y
    using mq_link_tail_other[OF l, of c b] s'(2) that fl by (auto simp: mq_flow_def)
  moreover have "mq_buf (mqs s' i) = mq_buf (mqs s i)" using s'(2) by simp
  ultimately show ?thesis using fl s'(1,2) by (simp add: mq_flow_def) blast
qed

lemma mq_flow_recv_begin:
  assumes fl: "mq_flow i P R s" and t: "time = 0 \<or> can_block s c" "time < 0x7fffffff"
    and r: "mq_recv_loop i time s = Some (Done (Inr b), s')"
  shows "mq_flow i P (R(b \<mapsto> mq_buf (mqs s i) b)) s' \<and> mq_items (mqs s i) = mq_buf (mqs s i) b # mq_items (mqs s' i)
    \<and> mq_msg_size (mqs s' i) = mq_msg_size (mqs s i) \<and> b \<notin> dom R"
proof -
  have ok: "mq_ok (dom P \<union> dom R) i s" using fl by (simp add: mq_flow_def)
  from mq_recv_loop_cases[OF ok t r] obtain Q F where
    l: "mq_lists (mqs s i) (b # Q) F (dom P \<union> dom R)" and s': "mq_ok (insert b (dom P \<union> dom R)) i s'"
    "b \<notin> dom P \<union> dom R" "mqs s' i = mq_unlink_head b (mqs s i)" by auto
  have "mq_items (mqs s i) = mq_buf (mqs s i) b # mq_items (mqs s' i)"
    using mq_items_eq[OF l] mq_items_eq[OF mq_unlink_head_lists(2)[OF l]] s'(3) by simp
  moreover have "insert b (dom P \<union> dom R) = dom P \<union> dom (R(b \<mapsto> mq_buf (mqs s i) b))" by auto
  ultimately show ?thesis using fl s'(1-3) by (auto simp: mq_flow_def)
qed

lemma mq_flow_recv_end:
  assumes fl: "mq_flow i P R s" and b: "R b = Some x" and r: "mq_recv_end i b sz s = (bytes, s')"
  shows "mq_flow i P (R(b := None)) s' \<and> mq_items (mqs s' i) = mq_items (mqs s i)
    \<and> bytes = take (min (unat sz) (unat (mq_msg_size (mqs s i)))) x \<and> mq_msg_size (mqs s' i) = mq_msg_size (mqs s i)"
proof -
  let ?I = "dom P \<union> dom R"
  have ok: "mq_ok ?I i s" and bx: "mq_buf (mqs s i) b = x" and bI: "b \<in> ?I" and bP: "b \<notin> dom P"
    using fl b by (auto simp: mq_flow_def)
  from ok obtain Q F where l: "mq_lists (mqs s i) Q F ?I" by (rule mq_okE)
  note E = mq_recv_end_eq[OF ok bI l]
  have s': "s' = upd_mqs i (mq_give_free b) s" "bytes = take (min (unat sz) (unat (mq_msg_size (mqs s i)))) x"
    using E(1)[of sz] r bx by simp_all
  have "mq_items (mqs s' i) = mq_items (mqs s i)"
    using mq_items_eq[OF l] mq_items_eq[OF E(3)] s'(1) by simp
  moreover have "?I - {b} = dom P \<union> dom (R(b := None))" using bP by auto
  moreover have "mq_link (mqs s' i) c = mq_link (mqs s i) c" if "c \<in> dom P" for c
    using that bP s'(1) by auto
  ultimately show ?thesis using fl E(2) s' by (auto simp: mq_flow_def)
qed

text \<open>The invariant of a run. \<^verbatim>\<open>reading\<close> are the messages that the started receives copy.\<close>

definition reading :: "rt_uint8 list list \<Rightarrow> (nat \<rightharpoonup> nat) \<Rightarrow> nat \<rightharpoonup> rt_uint8 list" where
  "reading ins R = (\<lambda>b. map_option ((!) ins) (R b))"

lemma dom_reading [simp]: "dom (reading ins R) = dom R"
  by (auto simp: reading_def dom_def)

lemma reading_upd: "reading ins (R(b \<mapsto> k)) = (reading ins R)(b \<mapsto> ins ! k)" "reading ins (R(b := None)) = (reading ins R)(b := None)"
  by (auto simp: reading_def)

lemma reading_append: "\<forall>k \<in> ran R. k < length ins \<Longrightarrow> reading (ins @ [x]) R = reading ins R"
proof
  fix b assume "\<forall>k \<in> ran R. k < length ins"
  then show "reading (ins @ [x]) R b = reading ins R b" by (cases "R b") (auto simp: reading_def nth_append ran_def)
qed

definition mq_given :: "rt_uint8 list list \<Rightarrow> nat \<Rightarrow> (nat \<rightharpoonup> nat) \<Rightarrow> (nat \<times> rt_size \<times> rt_uint8 list) list \<Rightarrow> nat \<Rightarrow> bool" where
  "mq_given ins n R D msz =
    (n \<le> length ins \<and> (\<forall>(k, sz, bytes) \<in> set D. bytes = take (min (unat sz) msz) (ins ! k))
     \<and> distinct (map fst D) \<and> inj_on R (dom R) \<and> fst ` set D \<inter> ran R = {} \<and> fst ` set D \<union> ran R = {..<n})"

lemma mq_given_range:
  assumes "mq_given ins n R D msz"
  shows "k \<in> ran R \<Longrightarrow> k < n" "(k, x) \<in> set D \<Longrightarrow> k < n" "n \<le> length ins"
proof -
  have e: "fst ` set D \<union> ran R = {..<n}" using assms by (simp add: mq_given_def)
  show "k \<in> ran R \<Longrightarrow> k < n" using e by blast
  show "(k, x) \<in> set D \<Longrightarrow> k < n" using e by force
  show "n \<le> length ins" using assms by (simp add: mq_given_def)
qed

lemma mq_given_queued:
  assumes "mq_given ins n R D msz"
  shows "mq_given (ins @ [x]) n R D msz"
proof -
  have "bytes = take (min (unat sz) msz) ((ins @ [x]) ! k)" if "(k, sz, bytes) \<in> set D" for k sz bytes
  proof -
    have "k < length ins" using mq_given_range(2,3)[OF assms] that by fastforce
    then show ?thesis using assms that by (auto simp: mq_given_def nth_append)
  qed
  then show ?thesis using assms by (auto simp: mq_given_def)
qed

lemma mq_given_unlinked:
  assumes "mq_given ins n R D msz" "n < length ins" "R b = None"
  shows "mq_given ins (Suc n) (R(b \<mapsto> n)) D msz"
proof -
  have r: "ran (R(b \<mapsto> n)) = insert n (ran R)" using assms(3) by simp
  have "n \<notin> ran R" "n \<notin> fst ` set D" using mq_given_range(1,2)[OF assms(1)] by force+
  moreover from this(1) have "inj_on (R(b \<mapsto> n)) (dom (R(b \<mapsto> n)))"
    using assms(1,3) by (auto simp: mq_given_def inj_on_def ran_def dom_def)
  ultimately show ?thesis using assms(1,2) unfolding mq_given_def r by (auto simp: lessThan_Suc)
qed

lemma mq_given_returned:
  assumes "mq_given ins n R D msz" "R b = Some k" "bytes = take (min (unat sz) msz) (ins ! k)"
  shows "mq_given ins n (R(b := None)) (D @ [(k, sz, bytes)]) msz"
proof -
  have i: "inj_on R (dom R)" using assms(1) by (simp add: mq_given_def)
  have r: "ran (R(b := None)) = ran R - {k}"
  proof -
    have ne: "R c \<noteq> Some k" if "c \<noteq> b" for c using i assms(2) that by (auto simp: inj_on_def dom_def)
    have "x \<in> ran (R(b := None)) \<longleftrightarrow> x \<in> ran R - {k}" for x
    proof
      assume "x \<in> ran (R(b := None))"
      then obtain a where "a \<noteq> b" "R a = Some x" by (auto simp: ran_def split: if_splits)
      then show "x \<in> ran R - {k}" using ne[of a] by (auto simp: ran_def)
    next
      assume "x \<in> ran R - {k}"
      then obtain a where a: "R a = Some x" "x \<noteq> k" by (auto simp: ran_def)
      then have "a \<noteq> b" using assms(2) by auto
      with a show "x \<in> ran (R(b := None))" by (auto simp: ran_def intro!: exI[of _ a])
    qed
    then show ?thesis by blast
  qed
  have k: "k \<in> ran R" using assms(2) by (auto simp: ran_def)
  have "inj_on (R(b := None)) (dom (R(b := None)))" using i by (auto simp: inj_on_def dom_def)
  then show ?thesis using assms(1,3) k unfolding mq_given_def r by auto
qed

definition mq_state :: "nat \<Rightarrow> kernel \<Rightarrow> rt_uint8 list list \<Rightarrow> nat \<Rightarrow> (nat \<rightharpoonup> rt_uint8 list) \<Rightarrow> (nat \<rightharpoonup> nat)
    \<Rightarrow> (nat \<times> rt_size \<times> rt_uint8 list) list \<Rightarrow> kernel \<Rightarrow> bool" where
  "mq_state i s0 ins n P R D s =
    (mq_flow i P (reading ins R) s \<and> mq_items (mqs s i) = drop n ins \<and> mq_msg_size (mqs s i) = mq_msg_size (mqs s0 i)
     \<and> mq_given ins n R D (unat (mq_msg_size (mqs s0 i))))"

lemma mq_stateD:
  assumes "mq_state i s0 ins n P R D s"
  shows "mq_flow i P (reading ins R) s" "mq_items (mqs s i) = drop n ins" "mq_msg_size (mqs s i) = mq_msg_size (mqs s0 i)"
    "mq_given ins n R D (unat (mq_msg_size (mqs s0 i)))" "mq_ok (dom P \<union> dom R) i s"
  using assms by (simp_all add: mq_state_def mq_flow_def)

lemma mq_state_same:
  assumes "mq_state i s0 ins n P R D s" "mqs s' i = mqs s i" "mq_ok (dom P \<union> dom R) i s'"
  shows "mq_state i s0 ins n P R D s'"
  using assms mq_flow_same[of i P "reading ins R" s s'] by (simp add: mq_state_def)

lemma mq_state_send_end:
  assumes st: "mq_state i s0 ins n P R D s" and b: "P b = Some x" and r: "mq_send_end False i b s = Some (e, s')"
  shows "mq_state i s0 (ins @ [x]) n (P(b := None)) R D s'"
proof -
  note S = mq_stateD[OF st]
  have l: "\<forall>k \<in> ran R. k < length ins" using mq_given_range(1,3)[OF S(4)] by fastforce
  from mq_flow_send_end[OF S(1) b r] have
    f: "mq_flow i (P(b := None)) (reading (ins @ [x]) R) s'" "mq_items (mqs s' i) = mq_items (mqs s i) @ [x]"
    "mq_msg_size (mqs s' i) = mq_msg_size (mqs s i)"
    unfolding reading_append[OF l] by auto
  then show ?thesis using S(2,3) mq_given_queued[OF S(4)] mq_given_range(3)[OF S(4)]
    unfolding mq_state_def by simp
qed

lemma mq_state_recv_begin:
  assumes st: "mq_state i s0 ins n P R D s" and t: "time = 0 \<or> can_block s c" "time < 0x7fffffff"
    and r: "mq_recv_loop i time s = Some (Done (Inr b), s')"
  shows "mq_state i s0 ins (Suc n) P (R(b \<mapsto> n)) D s'"
proof -
  note S = mq_stateD[OF st]
  from mq_flow_recv_begin[OF S(1) t r] have
    f: "mq_flow i P ((reading ins R)(b \<mapsto> mq_buf (mqs s i) b)) s'" "mq_items (mqs s i) = mq_buf (mqs s i) b # mq_items (mqs s' i)"
    "mq_msg_size (mqs s' i) = mq_msg_size (mqs s i)" "R b = None"
    by (auto simp: domIff reading_def)
  have n: "n < length ins" "ins ! n = mq_buf (mqs s i) b" "mq_items (mqs s' i) = drop (Suc n) ins"
  proof -
    have d: "drop n ins = mq_buf (mqs s i) b # mq_items (mqs s' i)" using S(2) f(2) by simp
    show "n < length ins" using d by (metis drop_eq_Nil2 list.distinct(1) not_le)
    then show "ins ! n = mq_buf (mqs s i) b" "mq_items (mqs s' i) = drop (Suc n) ins"
      using d Cons_nth_drop_Suc[of n ins] by simp_all
  qed
  then show ?thesis using f S(3) mq_given_unlinked[OF S(4) n(1) f(4)] unfolding mq_state_def reading_upd by simp
qed

lemma mq_state_recv_end:
  assumes st: "mq_state i s0 ins n P R D s" and b: "R b = Some k" and r: "mq_recv_end i b sz s = (bytes, s')"
  shows "mq_state i s0 ins n P (R(b := None)) (D @ [(k, sz, bytes)]) s'"
proof -
  note S = mq_stateD[OF st]
  have "reading ins R b = Some (ins ! k)" using b by (simp add: reading_def)
  from mq_flow_recv_end[OF S(1) this r] have
    f: "mq_flow i P (reading ins (R(b := None))) s'" "mq_items (mqs s' i) = mq_items (mqs s i)"
    "bytes = take (min (unat sz) (unat (mq_msg_size (mqs s i)))) (ins ! k)" "mq_msg_size (mqs s' i) = mq_msg_size (mqs s i)"
    unfolding reading_upd by auto
  show ?thesis using f(1,2,4) S(2,3) mq_given_returned[OF S(4) b f(3)[unfolded S(3)]] unfolding mq_state_def by simp
qed

lemma mq_run_state:
  assumes "mq_run i s0 ins n P R D s" "mq_ok {} i s0"
  shows "mq_state i s0 ins n P R D s"
  using assms
proof (induction rule: mq_run.induct)
  case q_start
  then show ?case by (simp add: mq_state_def mq_flow_def reading_def mq_given_def)
next
  case (q_send_begin ins n P R D s bytes b s')
  note S = mq_stateD[OF q_send_begin(3)[OF q_send_begin.prems]]
  from mq_flow_send_begin[OF S(1) q_send_begin(2)] S show ?case by (simp add: mq_state_def del: fun_upd_apply)
next
  case (q_refused ins n P R D s bytes e s')
  note S = mq_stateD[OF q_refused(3)[OF q_refused.prems]]
  from mq_send_begin_cases[OF S(5) q_refused(2)] have "s' = s" by simp
  then show ?case using q_refused by simp
next
  case (q_send_end ins n P R D s b x e s')
  show ?case by (rule mq_state_send_end[OF q_send_end(4)[OF q_send_end.prems] q_send_end(2,3)])
next
  case (q_recv_begin ins n P R D s time c b s')
  show ?case by (rule mq_state_recv_begin[OF q_recv_begin(5)[OF q_recv_begin.prems] q_recv_begin(2-4)])
next
  case (q_recv_none ins n P R D s time c y s')
  note st = q_recv_none(6)[OF q_recv_none.prems]
  from mq_recv_loop_cases[OF mq_stateD(5)[OF st] q_recv_none(2-4)] q_recv_none(5)
  have "mq_ok (dom P \<union> dom R) i s'" "mqs s' i = mqs s i" by auto
  then show ?case using mq_state_same[OF st] by blast
next
  case (q_recv_end ins n P R D s b k sz bytes s')
  show ?case by (rule mq_state_recv_end[OF q_recv_end(4)[OF q_recv_end.prems] q_recv_end(2,3)])
next
  case (q_timed_out ins n P R D s t s')
  note st = q_timed_out(5)[OF q_timed_out.prems]
  from message_queue.timeout_keeps[OF _ _ _ q_timed_out(2-4), of "dom P \<union> dom R" i] mq_stateD(5)[OF st]
  have "mq_ok (dom P \<union> dom R) i s'" "mqs s' i = mqs s i" by (simp_all add: mq_ok_def ipc_keptD(5)[of s s'])
  then show ?case using mq_state_same[OF st] by blast
next
  case (q_switched ins n P R D s s')
  note st = q_switched(3)[OF q_switched.prems]
  from message_queue.switch_keeps[OF _ _ _ q_switched(2), of "dom P \<union> dom R" i] mq_stateD(5)[OF st]
  have "mq_ok (dom P \<union> dom R) i s'" "mqs s' i = mqs s i" by (simp_all add: mq_ok_def ipc_keptD(5)[of s s'])
  then show ?case using mq_state_same[OF st] by blast
qed

section \<open>Properties\<close>

text \<open>Sending a message, in the usual way at the end of the queue, or urgently at its front. A
  message that is too long is refused with RT\_ERROR, a full queue with RT\_EFULL, and nothing
  changes; otherwise the queue holds a block of the message size that starts with the message,
  and the first waiting receiver becomes ready.\<close>

theorem rt_mq_send_correct:
  assumes "mq_ok {} i s" "bytes \<noteq> []"
  shows "(length bytes > unat (mq_msg_size (mqs s i)) \<longrightarrow>
       rt_mq_send i bytes s = Some (- RT_ERROR, s) \<and> rt_mq_urgent i bytes s = Some (- RT_ERROR, s))
    \<and> (length bytes \<le> unat (mq_msg_size (mqs s i)) \<and> length (mq_items (mqs s i)) = unat (mq_max_msgs (mqs s i)) \<longrightarrow>
       rt_mq_send i bytes s = Some (- RT_EFULL, s) \<and> rt_mq_urgent i bytes s = Some (- RT_EFULL, s))
    \<and> (length bytes \<le> unat (mq_msg_size (mqs s i)) \<and> length (mq_items (mqs s i)) < unat (mq_max_msgs (mqs s i)) \<longrightarrow>
       (\<exists>s' msg. rt_mq_send i bytes s = Some (RT_EOK, s') \<and> mq_ok {} i s'
          \<and> take (length bytes) msg = bytes \<and> length msg = unat (mq_msg_size (mqs s i))
          \<and> mq_items (mqs s' i) = mq_items (mqs s i) @ [msg] \<and> tq s' (mq_recvq i) = tl (tq s (mq_recvq i))
          \<and> (tq s (mq_recvq i) \<noteq> [] \<longrightarrow> is_ready s' (hd (tq s (mq_recvq i)))))
     \<and> (\<exists>s' msg. rt_mq_urgent i bytes s = Some (RT_EOK, s') \<and> mq_ok {} i s'
          \<and> take (length bytes) msg = bytes \<and> length msg = unat (mq_msg_size (mqs s i))
          \<and> mq_items (mqs s' i) = msg # mq_items (mqs s i)))"
proof (intro conjI impI)
  note R = mq_send_begin_refused[OF assms]
  show "rt_mq_send i bytes s = Some (- RT_ERROR, s)" "rt_mq_urgent i bytes s = Some (- RT_ERROR, s)"
    if "length bytes > unat (mq_msg_size (mqs s i))"
    using R(1)[OF that] by (simp_all add: rt_mq_send_def rt_mq_urgent_def)
  show "rt_mq_send i bytes s = Some (- RT_EFULL, s)" "rt_mq_urgent i bytes s = Some (- RT_EFULL, s)"
    if c: "length bytes \<le> unat (mq_msg_size (mqs s i)) \<and> length (mq_items (mqs s i)) = unat (mq_max_msgs (mqs s i))"
  proof -
    from assms(1) obtain Q F where l: "mq_lists (mqs s i) Q F {}" "mq_items (mqs s i) = map (mq_buf (mqs s i)) Q"
      by (rule mq_okE)
    then have "F = []" using mq_lists_count(1)[OF l(1)] c by simp
    with R(2) l c show "rt_mq_send i bytes s = Some (- RT_EFULL, s)" "rt_mq_urgent i bytes s = Some (- RT_EFULL, s)"
      by (simp_all add: rt_mq_send_def rt_mq_urgent_def)
  qed
next
  assume "length bytes \<le> unat (mq_msg_size (mqs s i)) \<and> length (mq_items (mqs s i)) < unat (mq_max_msgs (mqs s i))"
  then have c: "length bytes \<le> unat (mq_msg_size (mqs s i))" "length (mq_items (mqs s i)) < unat (mq_max_msgs (mqs s i))"
    by simp_all
  note T = mq_send_total[OF assms c]
  show "\<exists>s' msg. rt_mq_send i bytes s = Some (RT_EOK, s') \<and> mq_ok {} i s'
          \<and> take (length bytes) msg = bytes \<and> length msg = unat (mq_msg_size (mqs s i))
          \<and> mq_items (mqs s' i) = mq_items (mqs s i) @ [msg] \<and> tq s' (mq_recvq i) = tl (tq s (mq_recvq i))
          \<and> (tq s (mq_recvq i) \<noteq> [] \<longrightarrow> is_ready s' (hd (tq s (mq_recvq i))))"
    using T[of False] unfolding rt_mq_send_def by simp
  show "\<exists>s' msg. rt_mq_urgent i bytes s = Some (RT_EOK, s') \<and> mq_ok {} i s'
          \<and> take (length bytes) msg = bytes \<and> length msg = unat (mq_msg_size (mqs s i))
          \<and> mq_items (mqs s' i) = msg # mq_items (mqs s i)"
    using T[of True] unfolding rt_mq_urgent_def by auto
qed

lemma mq_lists_demo: "mq_lists (mqs demo i) [] [1, 0] {}"
  by (auto simp: mq_lists_def demo_def)

lemma mq_ok_demo: "mq_ok {} i demo"
  using mq_lists_demo
  by (auto simp: mq_ok_def mq_ready_def flag_ok_def RT_IPC_FLAG_FIFO_def simp del: class_code.simps)

lemma mq_demo: "mq_items (mqs demo i) = []" "mq_msg_size (mqs demo i) = 4" "mq_max_msgs (mqs demo i) = 2"
  using mq_items_eq[OF mq_lists_demo] by (simp_all add: demo_def)

lemma rt_mq_send_correct_witness:
  "\<exists>s' msg. rt_mq_send 0 [7] demo = Some (RT_EOK, s') \<and> mq_items (mqs s' 0) = [msg] \<and> take 1 msg = [7]"
  using rt_mq_send_correct[OF mq_ok_demo[of 0], of "[7]"] by (auto simp: mq_demo)

text \<open>Receiving a message. The first message leaves the queue and its first bytes are stored, as
  many as the buffer or a message has; an empty queue fails with a timeout when there is no
  waiting time, and otherwise the receiver waits while the queue stays as it is.\<close>

theorem rt_mq_recv_correct:
  assumes "mq_ok {} i s" "can_block s c" "time < 0x7fffffff" "sz \<noteq> 0"
  shows "(mq_items (mqs s i) = msg # msgs \<longrightarrow>
      (\<exists>s'. rt_mq_recv i sz time s
          = Some (Done (RT_EOK, Some (take (min (unat sz) (unat (mq_msg_size (mqs s i)))) msg)), s')
        \<and> mq_ok {} i s' \<and> mq_items (mqs s' i) = msgs))
    \<and> (mq_items (mqs s i) = [] \<and> time = 0 \<longrightarrow> rt_mq_recv i sz time s = Some (Done (- RT_ETIMEOUT, None), s))
    \<and> (mq_items (mqs s i) = [] \<and> time \<noteq> 0 \<longrightarrow>
      (\<exists>s'. rt_mq_recv i sz time s = Some (Blocked, s') \<and> mq_ok {} i s' \<and> mqs s' = mqs s
        \<and> is_suspended s' c \<and> runs_best s'
        \<and> tq s' (mq_recvq i) = wait_insert (ipc_flag s (OMq i)) s c (tq s (mq_recvq i))))"
proof -
  have ty: "rt_object_get_type (OMq i) s = class_code RT_Object_Class_MessageQueue"
    using assms(1) by (simp add: mq_ok_def mq_ready_def)
  from assms(1) obtain Q F where l: "mq_lists (mqs s i) Q F {}" "mq_items (mqs s i) = map (mq_buf (mqs s i)) Q"
    by (rule mq_okE)
  have e: "(mq_entry (mqs s i) = 0) = (mq_items (mqs s i) = [])"
    using mq_listsD(10)[OF l(1)] l(2) by (metis length_0_conv map_is_Nil_conv unat_eq_0)
  have a: "\<exists>s'. rt_mq_recv i sz time s
          = Some (Done (RT_EOK, Some (take (min (unat sz) (unat (mq_msg_size (mqs s i)))) msg)), s')
        \<and> mq_ok {} i s' \<and> mq_items (mqs s' i) = msgs" if "mq_items (mqs s i) = msg # msgs"
    using mq_recv_total[OF assms(1) that, of sz time] ty e that assms(4) by (simp add: rt_mq_recv_def)
  have b: "\<exists>s'. rt_mq_recv i sz time s = Some (Blocked, s') \<and> mq_ok {} i s' \<and> mqs s' = mqs s
        \<and> is_suspended s' c \<and> runs_best s'
        \<and> tq s' (mq_recvq i) = wait_insert (ipc_flag s (OMq i)) s c (tq s (mq_recvq i))"
    if "mq_items (mqs s i) = []" "time \<noteq> 0"
  proof -
    have "mq_entry (mqs s i) = 0" using e that by simp
    from mq_recv_loop_waits[OF assms(1,2) this that(2) assms(3)] obtain s' where
      s': "mq_recv_loop i time s = Some (Blocked, s')" "mq_ok {} i s'" "mqs s' = mqs s" "is_suspended s' c"
      "runs_best s'" "tq s' (mq_recvq i) = wait_insert (ipc_flag s (OMq i)) s c (tq s (mq_recvq i))" by blast
    then have "rt_mq_recv i sz time s = Some (Blocked, s')"
      using ty that assms(4) by (simp add: rt_mq_recv_def mq_recv_finish_def)
    with s' show ?thesis by blast
  qed
  show ?thesis using a b ty e assms(4) by (auto simp: rt_mq_recv_def)
qed

lemma rt_mq_recv_correct_witness:
  "\<exists>s'. rt_mq_recv 0 4 6 demo = Some (Blocked, s') \<and> is_suspended s' 0 \<and> tq s' (mq_recvq 0) = [0]"
  using rt_mq_recv_correct[OF mq_ok_demo can_block_demo, of 6 4 0 "[]" "[]"] mq_demo
  by (auto simp: wait_insert_def RT_IPC_FLAG_FIFO_def)

text \<open>C7. Overlapping calls. In every run, in which any number of sends and receives are between
  their critical sections while others go on, threads time out and the scheduler switches, the
  messages in the queue are those that were in it at the start or were sent since, in the order in
  which the sends ended, less the first n, which have been unlinked. Every one of these n has been
  delivered exactly once or is just being copied by one receive, and what a receive delivered are the
  first bytes of its message, as many as the caller asked for and a message has. So no block is used
  twice, and no message is lost, doubled or changed.\<close>

theorem mq_overlapping_fifo:
  assumes "mq_run i s0 ins n P R D s" "mq_ok {} i s0"
  shows "n \<le> length ins \<and> mq_items (mqs s i) = drop n ins
    \<and> (\<forall>(k, sz, bytes) \<in> set D. bytes = take (min (unat sz) (unat (mq_msg_size (mqs s0 i)))) (ins ! k))
    \<and> distinct (map fst D) \<and> fst ` set D \<inter> ran R = {} \<and> fst ` set D \<union> ran R = {..<n} \<and> inj_on R (dom R)
    \<and> dom P \<inter> dom R = {}"
  using mq_run_state[OF assms] by (auto simp: mq_state_def mq_given_def mq_flow_def)

lemma mq_overlapping_fifo_witness:
  "\<exists>s. mq_run 0 demo [[7, 0, 0, 0]] 1 Map.empty Map.empty [(0, 1, [7])] s \<and> mq_items (mqs s 0) = []"
proof -
  from mq_send_begin_ok[OF mq_ok_demo _ _ mq_lists_demo, of "[7]" 0 False] obtain s1 where
    s1: "mq_send_begin False 0 [7] demo = Some (Inr 1, s1)" "mq_ok {1} 0 s1" "mq_lists (mqs s1 0) [] [0] {1}"
    "mq_link (mqs s1 0) 1 = None" "mq_buf (mqs s1 0) 1 = [7, 0, 0, 0]" "mq_msg_size (mqs s1 0) = 4"
    by (auto simp: mq_demo) (simp_all add: demo_def)
  have "padded [7] (mq_buf (mqs demo 0) 1) = [7, 0, 0, 0]" by (simp add: demo_def padded_def)
  with q_send_begin[OF q_start s1(1)] have r1: "mq_run 0 demo [] 0 [1 \<mapsto> [7, 0, 0, 0]] Map.empty [] s1" by (simp add: mq_demo)
  from mq_send_end_ok[OF s1(2) _ _ s1(3), of 1 False] s1(4) obtain s2 where
    s2: "mq_send_end False 0 1 s1 = Some (RT_EOK, s2)" "mq_ok {} 0 s2" "mqs s2 0 = mq_link_tail 1 (mqs s1 0)"
    "mq_lists (mqs s2 0) [1] [0] {}" by auto
  from q_send_end[OF r1 _ s2(1)] have r2: "mq_run 0 demo [[7, 0, 0, 0]] 0 Map.empty Map.empty [] s2" by simp
  from mq_recv_begin_ok[OF s2(2,4), of 0] obtain s3 where
    s3: "mq_recv_loop 0 0 s2 = Some (Done (Inr 1), s3)" "mqs s3 0 = mq_unlink_head 1 (mqs s2 0)" by auto
  from q_recv_begin[OF r2 _ _ s3(1)] have r3: "mq_run 0 demo [[7, 0, 0, 0]] 1 Map.empty [1 \<mapsto> 0] [] s3" by simp
  have "mq_buf (mqs s3 0) 1 = [7, 0, 0, 0]" "mq_msg_size (mqs s3 0) = 4"
    using s1(5,6) s2(3) s3(2) by simp_all
  then obtain s4 where s4: "mq_recv_end 0 1 1 s3 = ([7], s4)" by (simp add: mq_recv_end_def)
  from q_recv_end[OF r3 _ s4] have r4: "mq_run 0 demo [[7, 0, 0, 0]] 1 Map.empty Map.empty [(0, 1, [7])] s4" by simp
  from mq_overlapping_fifo[OF r4 mq_ok_demo] have "mq_items (mqs s4 0) = []" by simp
  with r4 show ?thesis by blast
qed

end
