(* ===== verification/RT_Ringbuffer.thy ===== *)
theory RT_Ringbuffer
  imports RT_Queue
begin

text \<open>The ring buffer of components/drivers/src/ringbuffer.c: its state with the 15-bit indices
  and the mirror bits, its operations, and what they do to the sequence of bytes in the
  buffer.\<close>

section \<open>State\<close>

text \<open>The memory behind \<^verbatim>\<open>buffer_ptr\<close> is the list \<^verbatim>\<open>rb_buf\<close>. The bit fields have 1 and 15 bits,
  and \<^verbatim>\<open>buffer_size\<close> is signed.\<close>

record rt_ringbuffer =
  rb_buf :: "rt_uint8 list"
  read_mirror :: "1 word"
  read_index :: "15 word"
  write_mirror :: "1 word"
  write_index :: "15 word"
  buffer_size :: rt_uint16

datatype rt_ringbuffer_state =
    RT_RINGBUFFER_EMPTY
  | RT_RINGBUFFER_FULL
  | RT_RINGBUFFER_HALFFULL

section \<open>Operations\<close>

definition rt_ringbuffer_status :: "rt_ringbuffer \<Rightarrow> rt_ringbuffer_state" where
  "rt_ringbuffer_status rb =
    (if read_index rb = write_index rb
     then (if read_mirror rb = write_mirror rb then RT_RINGBUFFER_EMPTY else RT_RINGBUFFER_FULL)
     else RT_RINGBUFFER_HALFFULL)"

definition rt_ringbuffer_init :: "rt_uint8 list \<Rightarrow> rt_uint16 \<Rightarrow> rt_ringbuffer option" where
  "rt_ringbuffer_init pool sz = do {
     RT_ASSERT (0 < sint sz);
     Some \<lparr>rb_buf = pool, read_mirror = 0, read_index = 0, write_mirror = 0, write_index = 0,
       buffer_size = ucast (RT_ALIGN_DOWN (scast sz) 4)\<rparr> }"

definition rt_ringbuffer_reset :: "rt_ringbuffer \<Rightarrow> rt_ringbuffer" where
  "rt_ringbuffer_reset rb =
    rb\<lparr>read_mirror := 0, read_index := 0, write_mirror := 0, write_index := 0\<rparr>"

definition rt_ringbuffer_get_size :: "rt_ringbuffer \<Rightarrow> rt_uint16" where
  "rt_ringbuffer_get_size rb = buffer_size rb"

definition rt_ringbuffer_data_len :: "rt_ringbuffer \<Rightarrow> rt_size" where
  "rt_ringbuffer_data_len rb =
    (case rt_ringbuffer_status rb of
       RT_RINGBUFFER_EMPTY \<Rightarrow> 0
     | RT_RINGBUFFER_FULL \<Rightarrow> scast (buffer_size rb)
     | RT_RINGBUFFER_HALFFULL \<Rightarrow>
         if write_index rb > read_index rb then ucast (write_index rb) - ucast (read_index rb)
         else scast (buffer_size rb) - (ucast (read_index rb) - ucast (write_index rb)))"

definition rt_ringbuffer_space_len :: "rt_ringbuffer \<Rightarrow> rt_size" where
  "rt_ringbuffer_space_len rb = scast (buffer_size rb) - rt_ringbuffer_data_len rb"

text \<open>A copy of \<^verbatim>\<open>n\<close> bytes into an array; the count is an int, and a negative one is a huge
  \<^verbatim>\<open>size_t\<close>.\<close>

definition copy_in :: "rt_uint8 list \<Rightarrow> nat \<Rightarrow> rt_uint8 list \<Rightarrow> int \<Rightarrow> rt_uint8 list option" where
  "copy_in dst off src n = do {
     in_bounds (0 \<le> n \<and> off + nat n \<le> length dst \<and> nat n \<le> length src);
     Some (take off dst @ take (nat n) src @ drop (off + nat n) dst) }"

definition copy_out :: "rt_uint8 list \<Rightarrow> nat \<Rightarrow> int \<Rightarrow> rt_uint8 list option" where
  "copy_out src off n = do {
     in_bounds (0 \<le> n \<and> off + nat n \<le> length src);
     Some (take (nat n) (drop off src)) }"

text \<open>The room between the write index and the end of the buffer, and the data between the
  read index and its end.\<close>

definition write_room :: "rt_ringbuffer \<Rightarrow> int" where
  "write_room rb = sint (buffer_size rb) - uint (write_index rb)"

definition read_room :: "rt_ringbuffer \<Rightarrow> int" where
  "read_room rb = sint (buffer_size rb) - uint (read_index rb)"

definition rt_ringbuffer_put ::
    "rt_ringbuffer \<Rightarrow> rt_uint8 list \<Rightarrow> rt_uint16 \<Rightarrow> (rt_size \<times> rt_ringbuffer) option" where
  "rt_ringbuffer_put rb ptr len =
    (let size = (ucast (rt_ringbuffer_space_len rb) :: rt_uint16) in
     if size = 0 then Some (0, rb) else
     let len = (if size < len then size else len); w = write_room rb in
     if w > uint len then do {
       buf \<leftarrow> copy_in (rb_buf rb) (unat (write_index rb)) ptr (uint len);
       Some (ucast len, rb\<lparr>rb_buf := buf, write_index := write_index rb + ucast len\<rparr>) }
     else do {
       buf \<leftarrow> copy_in (rb_buf rb) (unat (write_index rb)) ptr w;
       buf \<leftarrow> copy_in buf 0 (drop (nat w) ptr) (uint len - w);
       Some (ucast len, rb\<lparr>rb_buf := buf, write_mirror := NOT (write_mirror rb),
         write_index := word_of_int (uint len - w)\<rparr>) })"

definition rt_ringbuffer_put_force ::
    "rt_ringbuffer \<Rightarrow> rt_uint8 list \<Rightarrow> rt_uint16 \<Rightarrow> (rt_size \<times> rt_ringbuffer) option" where
  "rt_ringbuffer_put_force rb ptr len =
    (let space_length = (ucast (rt_ringbuffer_space_len rb) :: rt_uint16);
         skip = uint len - sint (buffer_size rb);
         ptr = (if uint len > sint (buffer_size rb) then drop (nat skip) ptr else ptr);
         len = (if uint len > sint (buffer_size rb) then buffer_size rb else len);
         w = write_room rb in
     if w > uint len then do {
       buf \<leftarrow> copy_in (rb_buf rb) (unat (write_index rb)) ptr (uint len);
       let rb = rb\<lparr>rb_buf := buf, write_index := write_index rb + ucast len\<rparr>;
       let rb = (if len > space_length then rb\<lparr>read_index := write_index rb\<rparr> else rb);
       Some (ucast len, rb) }
     else do {
       buf \<leftarrow> copy_in (rb_buf rb) (unat (write_index rb)) ptr w;
       buf \<leftarrow> copy_in buf 0 (drop (nat w) ptr) (uint len - w);
       let rb = rb\<lparr>rb_buf := buf, write_mirror := NOT (write_mirror rb),
         write_index := word_of_int (uint len - w)\<rparr>;
       let rb = (if len > space_length
         then rb\<lparr>read_mirror := NOT (read_mirror rb), read_index := write_index rb\<rparr> else rb);
       Some (ucast len, rb) })"

definition rt_ringbuffer_get ::
    "rt_ringbuffer \<Rightarrow> rt_uint16 \<Rightarrow> (rt_size \<times> rt_uint8 list \<times> rt_ringbuffer) option" where
  "rt_ringbuffer_get rb len =
    (let size = rt_ringbuffer_data_len rb in
     if size = 0 then Some (0, [], rb) else
     let len = (if size < ucast len then ucast size else len); r = read_room rb in
     if r > uint len then do {
       out \<leftarrow> copy_out (rb_buf rb) (unat (read_index rb)) (uint len);
       Some (ucast len, out, rb\<lparr>read_index := read_index rb + ucast len\<rparr>) }
     else do {
       out1 \<leftarrow> copy_out (rb_buf rb) (unat (read_index rb)) r;
       out2 \<leftarrow> copy_out (rb_buf rb) 0 (uint len - r);
       Some (ucast len, out1 @ out2, rb\<lparr>read_mirror := NOT (read_mirror rb),
         read_index := word_of_int (uint len - r)\<rparr>) })"

definition rt_ringbuffer_putchar ::
    "rt_ringbuffer \<Rightarrow> rt_uint8 \<Rightarrow> (rt_size \<times> rt_ringbuffer) option" where
  "rt_ringbuffer_putchar rb ch =
    (if rt_ringbuffer_space_len rb = 0 then Some (0, rb) else do {
       in_bounds (unat (write_index rb) < length (rb_buf rb));
       let rb = rb\<lparr>rb_buf := (rb_buf rb)[unat (write_index rb) := ch]\<rparr>;
       Some (1, if uint (write_index rb) = sint (buffer_size rb) - 1
         then rb\<lparr>write_mirror := NOT (write_mirror rb), write_index := 0\<rparr>
         else rb\<lparr>write_index := write_index rb + 1\<rparr>) })"

definition rt_ringbuffer_putchar_force ::
    "rt_ringbuffer \<Rightarrow> rt_uint8 \<Rightarrow> (rt_size \<times> rt_ringbuffer) option" where
  "rt_ringbuffer_putchar_force rb ch = do {
     let old_state = rt_ringbuffer_status rb;
     in_bounds (unat (write_index rb) < length (rb_buf rb));
     let rb = rb\<lparr>rb_buf := (rb_buf rb)[unat (write_index rb) := ch]\<rparr>;
     Some (1, if uint (write_index rb) = sint (buffer_size rb) - 1
       then (let rb = rb\<lparr>write_mirror := NOT (write_mirror rb), write_index := 0\<rparr> in
             if old_state = RT_RINGBUFFER_FULL
             then rb\<lparr>read_mirror := NOT (read_mirror rb), read_index := write_index rb\<rparr> else rb)
       else (let rb = rb\<lparr>write_index := write_index rb + 1\<rparr> in
             if old_state = RT_RINGBUFFER_FULL then rb\<lparr>read_index := write_index rb\<rparr> else rb)) }"

definition rt_ringbuffer_getchar ::
    "rt_ringbuffer \<Rightarrow> (rt_size \<times> rt_uint8 option \<times> rt_ringbuffer) option" where
  "rt_ringbuffer_getchar rb =
    (if rt_ringbuffer_data_len rb = 0 then Some (0, None, rb) else do {
       in_bounds (unat (read_index rb) < length (rb_buf rb));
       let ch = rb_buf rb ! unat (read_index rb);
       Some (1, Some ch, if uint (read_index rb) = sint (buffer_size rb) - 1
         then rb\<lparr>read_mirror := NOT (read_mirror rb), read_index := 0\<rparr>
         else rb\<lparr>read_index := read_index rb + 1\<rparr>) })"

section \<open>Writing and reading blocks of a ring\<close>

text \<open>Writing a block into a ring at index \<open>w\<close>, wrapping at \<open>n\<close>.\<close>

definition ring_write :: "'a list \<Rightarrow> nat \<Rightarrow> nat \<Rightarrow> 'a list \<Rightarrow> 'a list" where
  "ring_write pool n w xs =
    (if w + length xs < n then take w pool @ xs @ drop (w + length xs) pool
     else drop (n - w) xs @ drop (length xs - (n - w)) (take w pool @ take (n - w) xs @ drop n pool))"

lemma ring_write_length [simp]:
  "w < n \<Longrightarrow> n \<le> length pool \<Longrightarrow> length xs \<le> n \<Longrightarrow> length (ring_write pool n w xs) = length pool"
  by (auto simp: ring_write_def)

lemma ring_write_nth:
  assumes "w < n" "n \<le> length pool" "length xs \<le> n" "i < n"
  shows "ring_write pool n w xs ! i =
    (let j = nat ((int i - int w) mod int n) in if j < length xs then xs ! j else pool ! i)"
proof -
  have j: "nat ((int i - int w) mod int n) = (if w \<le> i then i - w else i + n - w)"
  proof (cases "w \<le> i")
    case False
    have "(int i - int w) mod int n = (int i - int w + int n) mod int n" by simp
    also have "\<dots> = int i - int w + int n" using False assms(1,4) by (intro mod_pos_pos_trivial) auto
    finally show ?thesis using False assms(1) by auto
  qed (use assms in auto)
  show ?thesis unfolding j ring_write_def Let_def
    using assms by (auto simp: nth_append min_def add.commute[of n] add.commute[of "length xs"])
qed

lemma ring_write_read:
  assumes "w = (r + k) mod n" "k \<le> n" "n \<le> length pool" "length xs \<le> n" "0 < n"
    and u: "u < k + length xs" "k + length xs \<le> u + n"
  shows "ring_write pool n w xs ! ((r + u) mod n) = (if u < k then pool ! ((r + u) mod n) else xs ! (u - k))"
proof -
  have e: "(int ((r + u) mod n) - int w) mod int n = (int u - int k) mod int n"
    using assms(1) by (simp add: zmod_int mod_diff_eq)
  have f: "nat ((int u - int k) mod int n) = (if u < k then u + n - k else u - k)"
  proof (cases "u < k")
    case True
    have "(int u - int k) mod int n = (int u - int k + int n) mod int n" by simp
    also have "\<dots> = int u - int k + int n" using True assms(2,5) by (intro mod_pos_pos_trivial) auto
    finally show ?thesis using True assms(2) by auto
  qed (use u assms(4) in auto)
  have "w < n" "(r + u) mod n < n" using assms(1,5) by simp_all
  then show ?thesis using ring_write_nth[OF _ assms(3,4), of w "(r + u) mod n"] u assms(2)
    by (auto simp: e f Let_def)
qed

text \<open>What remains readable after the write: the old items and the new ones, less what the
  write overran.\<close>

lemma ring_items_write:
  assumes "w = (r + k) mod n" "k \<le> n" "n \<le> length pool" "length xs \<le> n" "0 < n"
    and d: "d = k + length xs - n"
  shows "ring_items (ring_write pool n w xs) n ((r + d) mod n) (k + length xs - d) =
    drop d (ring_items pool n r k @ xs)"
proof (rule nth_equalityI)
  show "length (ring_items (ring_write pool n w xs) n ((r + d) mod n) (k + length xs - d)) =
    length (drop d (ring_items pool n r k @ xs))" using d by simp
next
  fix t assume t: "t < length (ring_items (ring_write pool n w xs) n ((r + d) mod n) (k + length xs - d))"
  then have u: "d + t < k + length xs" "k + length xs \<le> d + t + n" using d by simp_all
  have "((r + d) mod n + t) mod n = (r + (d + t)) mod n" by (simp add: mod_simps add.assoc)
  then show "ring_items (ring_write pool n w xs) n ((r + d) mod n) (k + length xs - d) ! t =
    drop d (ring_items pool n r k @ xs) ! t"
    using ring_write_read[OF assms(1-5) u] t u(1)
    by (simp add: ring_items_def nth_append del: drop_append)
qed

lemma ring_items_take: "m \<le> k \<Longrightarrow> take m (ring_items pool n r k) = ring_items pool n r m"
  by (simp add: ring_items_def take_map)

lemma ring_items_drop: "m \<le> k \<Longrightarrow> drop m (ring_items pool n r k) = ring_items pool n ((r + m) mod n) (k - m)"
  by (rule nth_equalityI) (auto simp: ring_items_def mod_simps ac_simps)

lemma ring_items_split:
  assumes "r < n" "n \<le> length pool" "m \<le> n"
  shows "ring_items pool n r m =
    (if r + m < n then take m (drop r pool) else take (n - r) (drop r pool) @ take (m - (n - r)) pool)"
  using assms by (intro nth_equalityI)
    (auto simp: ring_items_def nth_append min_def le_mod_geq mod_if intro!: arg_cong[where f = "(!) pool"])

section \<open>The bytes in the buffer\<close>

definition rb_size :: "rt_ringbuffer \<Rightarrow> nat" where
  "rb_size rb = unat (buffer_size rb)"

definition rb_count :: "rt_ringbuffer \<Rightarrow> nat" where
  "rb_count rb =
    (if read_mirror rb = write_mirror rb then unat (write_index rb) - unat (read_index rb)
     else rb_size rb + unat (write_index rb) - unat (read_index rb))"

definition rb_items :: "rt_ringbuffer \<Rightarrow> rt_uint8 list" where
  "rb_items rb = ring_items (rb_buf rb) (rb_size rb) (unat (read_index rb)) (rb_count rb)"

definition rb_ok :: "rt_ringbuffer \<Rightarrow> bool" where
  "rb_ok rb \<longleftrightarrow> 0 < rb_size rb \<and> rb_size rb < 2 ^ 15 \<and> rb_size rb \<le> length (rb_buf rb) \<and>
    unat (read_index rb) < rb_size rb \<and> unat (write_index rb) < rb_size rb \<and>
    (if read_mirror rb = write_mirror rb then read_index rb \<le> write_index rb
     else write_index rb \<le> read_index rb)"

lemma rb_items_length [simp]: "length (rb_items rb) = rb_count rb"
  by (simp add: rb_items_def)

lemma rb_ok_bounds:
  assumes "rb_ok rb"
  shows "0 < rb_size rb" "rb_size rb < 32768" "rb_size rb \<le> length (rb_buf rb)"
    "unat (read_index rb) < rb_size rb" "unat (write_index rb) < rb_size rb"
    "rb_count rb \<le> rb_size rb"
  using assms by (auto simp: rb_ok_def rb_count_def word_le_nat_alt split: if_splits)

lemma rb_write_pos:
  "rb_ok rb \<Longrightarrow> unat (write_index rb) = (unat (read_index rb) + rb_count rb) mod rb_size rb"
  unfolding rb_ok_def rb_count_def word_le_nat_alt
  by (cases "read_mirror rb = write_mirror rb") (auto simp: mod_if)

lemma sint_small16:
  fixes x :: "16 word"
  assumes "unat x < 32768"
  shows "sint x = int (unat x)"
proof -
  have "uint x < 32768" using assms unfolding unat_eq_nat_uint by linarith
  moreover have "0 \<le> uint x" by simp
  ultimately have "- (2 ^ 15) \<le> uint x \<and> uint x < 2 ^ 15" by (simp, linarith)
  then have "signed_take_bit 15 (uint x) = uint x" by (intro signed_take_bit_int_eq_self) blast+
  then show ?thesis by (simp add: sint_uint)
qed

lemma rb_size_sint: "rb_ok rb \<Longrightarrow> sint (buffer_size rb) = int (rb_size rb)"
  unfolding rb_size_def by (rule sint_small16) (simp add: rb_ok_def rb_size_def)

lemma rb_size_scast: "rb_ok rb \<Longrightarrow> (scast (buffer_size rb) :: rt_size) = of_nat (rb_size rb)"
  by (metis of_int_of_nat_eq rb_size_sint of_int_sint)

lemma ucast_of_unat: "(ucast (x :: 15 word) :: rt_size) = of_nat (unat x)"
  by simp

lemma rt_ringbuffer_data_len_count:
  assumes ok: "rb_ok rb"
  shows "rt_ringbuffer_data_len rb = of_nat (rb_count rb)"
proof (cases "read_index rb = write_index rb")
  case True
  then show ?thesis
    by (simp add: rt_ringbuffer_data_len_def rt_ringbuffer_status_def rb_count_def rb_size_scast[OF ok])
next
  case ne: False
  show ?thesis
  proof (cases "write_index rb > read_index rb")
    case True
    then have m: "read_mirror rb = write_mirror rb" using ok by (auto simp: rb_ok_def split: if_splits)
    have l: "unat (read_index rb) \<le> unat (write_index rb)" using True by (simp add: word_less_nat_alt)
    show ?thesis using ne True m
      by (simp only: rt_ringbuffer_data_len_def rt_ringbuffer_status_def rb_count_def if_False if_True
        rt_ringbuffer_state.case ucast_of_unat of_nat_diff[OF l] simp_thms)
  next
    case False
    then have m: "read_mirror rb \<noteq> write_mirror rb" using ok ne by (auto simp: rb_ok_def split: if_splits)
    have l: "unat (write_index rb) \<le> unat (read_index rb)" using False by (simp add: word_less_nat_alt)
    have e: "rb_size rb + unat (write_index rb) - unat (read_index rb) =
        rb_size rb - (unat (read_index rb) - unat (write_index rb))" using l by simp
    have l': "unat (read_index rb) - unat (write_index rb) \<le> rb_size rb" using rb_ok_bounds[OF ok] by simp
    show ?thesis using ne False m
      by (simp only: rt_ringbuffer_data_len_def rt_ringbuffer_status_def rb_count_def if_False if_True
        rt_ringbuffer_state.case ucast_of_unat of_nat_diff[OF l] of_nat_diff[OF l'] e rb_size_scast[OF ok])
  qed
qed

lemma rt_ringbuffer_space_len_count:
  assumes ok: "rb_ok rb"
  shows "rt_ringbuffer_space_len rb = of_nat (rb_size rb - rb_count rb)"
  by (simp only: rt_ringbuffer_space_len_def rt_ringbuffer_data_len_count[OF ok] rb_size_scast[OF ok]
    of_nat_diff[OF rb_ok_bounds(6)[OF ok]])

lemma small_word32: "k \<le> 32768 \<Longrightarrow> unat (of_nat k :: 32 word) = k"
  by (simp add: unat_of_nat)

lemma small_word16: "k \<le> 32768 \<Longrightarrow> unat (of_nat k :: 16 word) = k"
  by (simp add: unat_of_nat)

lemma small_word15: "k < 32768 \<Longrightarrow> unat (of_nat k :: 15 word) = k"
  by (simp add: unat_of_nat)

lemma unat_ucast_16: "unat (ucast (x :: 32 word) :: 16 word) = unat x mod 65536"
  by (simp add: unsigned_ucast_eq take_bit_eq_mod)

lemma rt_ringbuffer_lens:
  assumes "rb_ok rb"
  shows "unat (rt_ringbuffer_data_len rb) = rb_count rb"
    "unat (rt_ringbuffer_space_len rb) = rb_size rb - rb_count rb"
    "unat (ucast (rt_ringbuffer_space_len rb) :: rt_uint16) = rb_size rb - rb_count rb"
    "unat (ucast (rt_ringbuffer_data_len rb) :: rt_uint16) = rb_count rb"
  using rb_ok_bounds[OF assms]
  by (simp_all add: rt_ringbuffer_data_len_count[OF assms] rt_ringbuffer_space_len_count[OF assms]
    small_word32 small_word16 unat_ucast_16 del: of_nat_diff)

lemma mirror_flip: "(NOT (m :: 1 word) = m') = (m \<noteq> m')"
proof -
  have two: "x = 0 \<or> x = 1" for x :: "1 word"
  proof -
    have "unat x < 2 ^ LENGTH(1)" by (rule unsigned_less)
    then have "unat x = 0 \<or> unat x = 1" by auto
    then show ?thesis using word_unat_eq_iff[of x 0] word_unat_eq_iff[of x 1] by auto
  qed
  have "NOT (0 :: 1 word) = 1" "NOT (1 :: 1 word) = 0" by simp_all
  then show ?thesis using two[of m] two[of m'] by auto
qed

text \<open>A state whose buffer is an old one with a block written behind its items, and whose read
  position has moved past the items overrun.\<close>

lemma rb_write_block:
  assumes ok: "rb_ok rb" and m: "length xs \<le> rb_size rb"
    and d: "d = rb_count rb + length xs - rb_size rb"
    and b: "rb_buf rb' = ring_write (rb_buf rb) (rb_size rb) (unat (write_index rb)) xs"
      "buffer_size rb' = buffer_size rb"
      "unat (write_index rb') = (unat (write_index rb) + length xs) mod rb_size rb"
      "unat (read_index rb') = (unat (read_index rb) + d) mod rb_size rb"
      "rb_count rb' = rb_count rb + length xs - d"
    and l: "if read_mirror rb' = write_mirror rb' then read_index rb' \<le> write_index rb'
      else write_index rb' \<le> read_index rb'"
  shows "rb_ok rb' \<and> rb_size rb' = rb_size rb \<and> rb_items rb' = drop d (rb_items rb @ xs)"
proof -
  have n: "rb_size rb' = rb_size rb" using b(2) by (simp add: rb_size_def)
  note bd = rb_ok_bounds[OF ok]
  have "length (rb_buf rb') = length (rb_buf rb)" using bd m by (simp add: b(1))
  then have "rb_ok rb'" using bd b(3,4) l n by (simp add: rb_ok_def)
  moreover have "rb_items rb' = drop d (rb_items rb @ xs)"
    unfolding rb_items_def n b(1,4,5)
    by (rule ring_items_write[OF rb_write_pos[OF ok] bd(6,3) m bd(1) d])
  ultimately show ?thesis using n by simp
qed

lemma copy_in_Some: "0 \<le> n \<Longrightarrow> off + nat n \<le> length dst \<Longrightarrow> nat n \<le> length src \<Longrightarrow>
    copy_in dst off src n = Some (take off dst @ take (nat n) src @ drop (off + nat n) dst)"
  by (simp add: copy_in_def)

lemma copy_out_Some: "0 \<le> n \<Longrightarrow> off + nat n \<le> length src \<Longrightarrow>
    copy_out src off n = Some (take (nat n) (drop off src))"
  by (simp add: copy_out_def)

lemma rooms:
  assumes "rb_ok rb"
  shows "write_room rb = int (rb_size rb - unat (write_index rb))"
    "read_room rb = int (rb_size rb - unat (read_index rb))"
  using rb_ok_bounds[OF assms] by (simp_all add: write_room_def read_room_def rb_size_sint[OF assms])

text \<open>The two copies of a wrapping write.\<close>

lemma two_copies:
  assumes ok: "rb_ok rb" and m: "length xs \<le> rb_size rb" "\<not> write_room rb > int (length xs)"
    and p: "xs = take (length xs) ptr"
  shows "copy_in (rb_buf rb) (unat (write_index rb)) ptr (write_room rb) =
      Some (take (unat (write_index rb)) (rb_buf rb) @ take (nat (write_room rb)) ptr @ drop (rb_size rb) (rb_buf rb))"
    "copy_in (take (unat (write_index rb)) (rb_buf rb) @ take (nat (write_room rb)) ptr @ drop (rb_size rb) (rb_buf rb))
      0 (drop (nat (write_room rb)) ptr) (int (length xs) - write_room rb) =
      Some (ring_write (rb_buf rb) (rb_size rb) (unat (write_index rb)) xs)"
proof -
  note bd = rb_ok_bounds[OF ok]
  define a where "a = rb_size rb - unat (write_index rb)"
  have r: "write_room rb = int a" using rooms(1)[OF ok] by (simp only: a_def)
  have wa: "unat (write_index rb) + a = rb_size rb" using bd by (simp add: a_def)
  have lp: "length xs \<le> length ptr" using p by (metis nat_le_linear take_all)
  have a: "a \<le> length xs" using m(2) r by simp
  have x1: "take a xs = take a ptr" using p a by (metis min.absorb1 take_take)
  have x2: "take (length xs - a) (drop a ptr) = drop a xs" using p by (metis drop_take)
  show "copy_in (rb_buf rb) (unat (write_index rb)) ptr (write_room rb) =
      Some (take (unat (write_index rb)) (rb_buf rb) @ take (nat (write_room rb)) ptr @ drop (rb_size rb) (rb_buf rb))"
    using bd(3) wa a lp by (subst copy_in_Some) (simp_all add: r)
  have nn: "nat (int (length xs) - int a) = length xs - a" by linarith
  show "copy_in (take (unat (write_index rb)) (rb_buf rb) @ take (nat (write_room rb)) ptr @ drop (rb_size rb) (rb_buf rb))
      0 (drop (nat (write_room rb)) ptr) (int (length xs) - write_room rb) =
      Some (ring_write (rb_buf rb) (rb_size rb) (unat (write_index rb)) xs)"
    unfolding r nat_int
    using bd(3,5) wa a lp m(1) by (subst copy_in_Some) (auto simp: nn x1 x2 ring_write_def a_def[symmetric])
qed

lemma add_index:
  fixes i :: "15 word" and len :: "16 word"
  assumes "unat i + unat len < 32768"
  shows "unat (i + ucast len) = unat i + unat len"
proof -
  have "i + ucast len = of_nat (unat i + unat len)" by simp
  then show ?thesis using assms by (simp only: small_word15)
qed

lemma word15_of_int: "0 \<le> i \<Longrightarrow> i < 32768 \<Longrightarrow> unat (word_of_int i :: 15 word) = nat i"
  by (metis nat_less_iff of_nat_numeral small_word15 word_of_int_nat)

text \<open>The write position after a block.\<close>

lemma wrapped_pos: "(w :: nat) < n \<Longrightarrow> m \<le> n \<Longrightarrow> n \<le> w + m \<Longrightarrow> (w + m) mod n = m - (n - w)"
  by (auto simp: mod_if)

text \<open>A write of a block \<^verbatim>\<open>xs\<close> that fits into the free space, without wrap and with it.\<close>

lemma rb_append_straight:
  fixes len :: rt_uint16
  assumes ok: "rb_ok rb" and fit: "rb_count rb + unat len \<le> rb_size rb"
    and xs: "length xs = unat len" and nw: "unat (write_index rb) + unat len < rb_size rb"
  defines "rb' \<equiv> rb\<lparr>rb_buf := ring_write (rb_buf rb) (rb_size rb) (unat (write_index rb)) xs,
    write_index := write_index rb + ucast len\<rparr>"
  shows "rb_ok rb' \<and> rb_size rb' = rb_size rb \<and> rb_items rb' = rb_items rb @ xs"
proof -
  note bd = rb_ok_bounds[OF ok]
  have w: "unat (write_index rb + ucast len) = unat (write_index rb) + unat len"
    by (rule add_index) (use bd nw in simp)
  have "rb_ok rb' \<and> rb_size rb' = rb_size rb \<and> rb_items rb' = drop 0 (rb_items rb @ xs)"
    by (rule rb_write_block[OF ok]; use ok bd fit xs nw w in
      \<open>auto simp: rb'_def rb_count_def rb_ok_def rb_size_def word_le_nat_alt split: if_splits\<close>)
  then show ?thesis by simp
qed

lemma rb_append_wrapped:
  assumes ok: "rb_ok rb" and fit: "rb_count rb + length xs \<le> rb_size rb"
    and wr: "rb_size rb \<le> unat (write_index rb) + length xs"
    and i: "unat i = length xs - (rb_size rb - unat (write_index rb))"
  defines "rb' \<equiv> rb\<lparr>rb_buf := ring_write (rb_buf rb) (rb_size rb) (unat (write_index rb)) xs,
    write_mirror := NOT (write_mirror rb), write_index := i\<rparr>"
  shows "rb_ok rb' \<and> rb_size rb' = rb_size rb \<and> rb_items rb' = rb_items rb @ xs"
proof -
  note bd = rb_ok_bounds[OF ok]
  have m: "length xs \<le> rb_size rb" using fit by simp
  have f: "(read_mirror rb = NOT (write_mirror rb)) = (read_mirror rb \<noteq> write_mirror rb)"
    using mirror_flip by metis
  have "rb_ok rb' \<and> rb_size rb' = rb_size rb \<and> rb_items rb' = drop 0 (rb_items rb @ xs)"
    by (rule rb_write_block[OF ok]; use ok bd fit wr i wrapped_pos[OF bd(5) m wr] in
      \<open>auto simp: rb'_def rb_count_def rb_ok_def rb_size_def word_le_nat_alt f split: if_splits\<close>)
  then show ?thesis by simp
qed

lemma rt_ringbuffer_put_block:
  assumes ok: "rb_ok rb" and len: "unat len \<le> length ptr"
    and m: "m = min (rb_size rb - rb_count rb) (unat len)"
  shows "\<exists>rb'. rt_ringbuffer_put rb ptr len = Some (of_nat m, rb') \<and> rb_ok rb' \<and>
    rb_size rb' = rb_size rb \<and> rb_items rb' = rb_items rb @ take m ptr"
proof (cases "rb_size rb = rb_count rb")
  case True
  then have "(ucast (rt_ringbuffer_space_len rb) :: rt_uint16) = 0"
    using rt_ringbuffer_lens(3)[OF ok] by (metis diff_self_eq_0 unat_eq_zero)
  then show ?thesis using True ok m by (simp add: rt_ringbuffer_put_def)
next
  case False
  note bd = rb_ok_bounds[OF ok] and ln = rt_ringbuffer_lens(3)[OF ok]
  let ?s = "ucast (rt_ringbuffer_space_len rb) :: rt_uint16"
  define l where "l = (if ?s < len then ?s else len)"
  have nz: "?s \<noteq> 0" using False bd ln by auto
  have ul: "unat l = m" unfolding l_def m using ln by (simp add: word_less_nat_alt min_def)
  have uil: "uint l = int m" using ul by (metis uint_nat)
  have lxs: "length (take m ptr) = m" "take m ptr = take (length (take m ptr)) ptr" using len m by auto
  have fit: "rb_count rb + m \<le> rb_size rb" using m bd by simp
  have mn: "m \<le> rb_size rb" using fit by simp
  have ret: "(ucast l :: rt_size) = of_nat m" by (simp add: ul[symmetric])
  show ?thesis
  proof (cases "write_room rb > int m")
    case True
    then have nw: "unat (write_index rb) + m < rb_size rb" unfolding rooms(1)[OF ok] by linarith
    have c: "copy_in (rb_buf rb) (unat (write_index rb)) ptr (uint l) =
        Some (ring_write (rb_buf rb) (rb_size rb) (unat (write_index rb)) (take m ptr))"
      using bd nw m len by (subst copy_in_Some) (simp_all add: uil ring_write_def lxs(1))
    show ?thesis
      using rb_append_straight[OF ok, of l "take m ptr"] nw fit lxs(1) ul c nz True
      by (simp add: rt_ringbuffer_put_def Let_def l_def[symmetric] uil ret)
  next
    case False
    then have wr: "rb_size rb \<le> unat (write_index rb) + m" unfolding rooms(1)[OF ok] by linarith
    have i: "unat (word_of_int (int m - write_room rb) :: 15 word) = m - (rb_size rb - unat (write_index rb))"
      unfolding rooms(1)[OF ok] using bd wr mn by (subst word15_of_int) linarith+
    show ?thesis
      using rb_append_wrapped[OF ok, of "take m ptr"] wr fit lxs(1) i nz False
        two_copies[OF ok, of "take m ptr" ptr] mn lxs
      by (simp add: rt_ringbuffer_put_def Let_def l_def[symmetric] uil ret)
  qed
qed

text \<open>Reading a block moves the read position.\<close>

lemma rb_read_block:
  assumes ok: "rb_ok rb" and m: "m \<le> rb_count rb"
    and b: "rb_buf rb' = rb_buf rb" "buffer_size rb' = buffer_size rb" "write_index rb' = write_index rb"
      "unat (read_index rb') = (unat (read_index rb) + m) mod rb_size rb" "rb_count rb' = rb_count rb - m"
    and l: "if read_mirror rb' = write_mirror rb' then read_index rb' \<le> write_index rb'
      else write_index rb' \<le> read_index rb'"
  shows "rb_ok rb' \<and> rb_size rb' = rb_size rb \<and> rb_items rb' = drop m (rb_items rb)"
proof -
  have n: "rb_size rb' = rb_size rb" using b(2) by (simp add: rb_size_def)
  note bd = rb_ok_bounds[OF ok]
  have "rb_ok rb'" using bd b(1,3,4) l n by (simp add: rb_ok_def)
  moreover have "rb_items rb' = drop m (rb_items rb)"
    unfolding rb_items_def n b(1,4,5) by (rule ring_items_drop[OF m, symmetric])
  ultimately show ?thesis using n by simp
qed

lemma rt_ringbuffer_get_block:
  assumes ok: "rb_ok rb" and m: "m = min (rb_count rb) (unat len)"
  shows "\<exists>rb'. rt_ringbuffer_get rb len = Some (of_nat m, take m (rb_items rb), rb') \<and> rb_ok rb' \<and>
    rb_size rb' = rb_size rb \<and> rb_items rb' = drop m (rb_items rb)"
proof (cases "rb_count rb = 0")
  case True
  then have "rt_ringbuffer_data_len rb = 0" "rb_items rb = []"
    using rt_ringbuffer_lens(1)[OF ok] by (metis unat_eq_zero, simp add: rb_items_def ring_items_def)
  then show ?thesis using True ok m by (simp add: rt_ringbuffer_get_def)
next
  case False
  note bd = rb_ok_bounds[OF ok] and ln = rt_ringbuffer_lens[OF ok]
  let ?s = "rt_ringbuffer_data_len rb"
  define l where "l = (if ?s < ucast len then ucast ?s else len)"
  have nz: "?s \<noteq> 0" using False ln(1) by auto
  have ucl: "unat (ucast len :: rt_size) = unat len"
  proof -
    have "unat len < 2 ^ LENGTH(16)" by (rule unsigned_less)
    then show ?thesis by (simp add: unsigned_ucast_eq take_bit_eq_mod)
  qed
  have ul: "unat l = m" unfolding l_def m using ln(1,4) by (simp add: word_less_nat_alt min_def ucl)
  have uil: "uint l = int m" using ul by (metis uint_nat)
  have ret: "(ucast l :: rt_size) = of_nat m" by (simp add: ul[symmetric])
  have mk: "m \<le> rb_count rb" and mn: "m \<le> rb_size rb" using m bd by simp_all
  have items: "take m (rb_items rb) = ring_items (rb_buf rb) (rb_size rb) (unat (read_index rb)) m"
    unfolding rb_items_def by (rule ring_items_take[OF mk])
  note split = ring_items_split[OF bd(4) bd(3) mn]
  have f: "(NOT (read_mirror rb) = write_mirror rb) = (read_mirror rb \<noteq> write_mirror rb)"
    using mirror_flip by metis
  show ?thesis
  proof (cases "read_room rb > int m")
    case True
    then have nw: "unat (read_index rb) + m < rb_size rb" unfolding rooms(2)[OF ok] by linarith
    have r: "unat (read_index rb + ucast l) = unat (read_index rb) + m"
      unfolding ul[symmetric] by (rule add_index) (use bd nw ul in simp)
    define rb' where "rb' = rb\<lparr>read_index := read_index rb + ucast l\<rparr>"
    have "rb_ok rb' \<and> rb_size rb' = rb_size rb \<and> rb_items rb' = drop m (rb_items rb)"
      by (rule rb_read_block[OF ok mk]; use ok bd mk nw r in
        \<open>auto simp: rb'_def rb_count_def rb_ok_def rb_size_def word_le_nat_alt split: if_splits\<close>)
    moreover have "copy_out (rb_buf rb) (unat (read_index rb)) (uint l) = Some (take m (rb_items rb))"
      using bd nw by (subst copy_out_Some) (simp_all add: uil items split)
    ultimately show ?thesis using nz True
      by (simp add: rt_ringbuffer_get_def Let_def l_def[symmetric] uil ret rb'_def)
  next
    case False
    define a where "a = rb_size rb - unat (read_index rb)"
    have rr: "read_room rb = int a" unfolding a_def by (rule rooms(2)[OF ok])
    have "a \<le> m" using False unfolding rr by simp
    moreover have "unat (read_index rb) + a = rb_size rb" using bd by (simp add: a_def)
    ultimately have a: "a \<le> m" "unat (read_index rb) + a = rb_size rb" by blast+
    have i: "unat (word_of_int (int m - int a) :: 15 word) = m - a"
      using bd a mn by (subst word15_of_int) linarith+
    define rb' where "rb' = rb\<lparr>read_mirror := NOT (read_mirror rb), read_index := word_of_int (int m - int a)\<rparr>"
    have w: "(unat (read_index rb) + m) mod rb_size rb = m - a"
      using wrapped_pos[OF bd(4) mn] a by (simp add: a_def)
    have "rb_ok rb' \<and> rb_size rb' = rb_size rb \<and> rb_items rb' = drop m (rb_items rb)"
      by (rule rb_read_block[OF ok mk]; use ok bd mk a w i f in
        \<open>auto simp: rb'_def rb_count_def rb_ok_def rb_size_def word_le_nat_alt simp del: of_int_diff split: if_splits\<close>)
    moreover have "copy_out (rb_buf rb) (unat (read_index rb)) (int a) = Some (take a (drop (unat (read_index rb)) (rb_buf rb)))"
      using bd a by (subst copy_out_Some) simp_all
    moreover have "copy_out (rb_buf rb) 0 (int m - int a) = Some (take (m - a) (rb_buf rb))"
    proof -
      have "nat (int m - int a) = m - a" by linarith
      then show ?thesis using bd a mn by (subst copy_out_Some) simp_all
    qed
    moreover have "take m (rb_items rb) = take a (drop (unat (read_index rb)) (rb_buf rb)) @ take (m - a) (rb_buf rb)"
      using a by (simp add: items split a_def)
    ultimately show ?thesis using nz False
      by (simp add: rt_ringbuffer_get_def Let_def l_def[symmetric] uil ret rb'_def rr)
  qed
qed

text \<open>A forced write that overruns the oldest items: the read position follows the write
  position, and the buffer is full if the mirror bits differ.\<close>

lemma rb_overrun_full:
  assumes ok: "rb_ok rb" and m: "length xs \<le> rb_size rb" and over: "rb_size rb < rb_count rb + length xs"
    and b: "rb_buf rb' = ring_write (rb_buf rb) (rb_size rb) (unat (write_index rb)) xs"
      "buffer_size rb' = buffer_size rb"
      "unat (write_index rb') = (unat (write_index rb) + length xs) mod rb_size rb"
      "read_index rb' = write_index rb'" "read_mirror rb' \<noteq> write_mirror rb'"
  shows "rb_ok rb' \<and> rb_size rb' = rb_size rb \<and>
    rb_items rb' = drop (rb_count rb + length xs - rb_size rb) (rb_items rb @ xs)"
proof -
  note bd = rb_ok_bounds[OF ok]
  have s: "rb_size rb' = rb_size rb" using b(2) by (simp add: rb_size_def)
  have c: "rb_count rb' = rb_count rb + length xs - (rb_count rb + length xs - rb_size rb)"
    using b(4,5) s over by (simp add: rb_count_def)
  have "unat (read_index rb') =
      (unat (read_index rb) + (rb_count rb + length xs - rb_size rb)) mod rb_size rb"
  proof -
    have "unat (read_index rb) + rb_count rb + length xs =
        unat (read_index rb) + (rb_count rb + length xs - rb_size rb) + rb_size rb" using over by simp
    then show ?thesis unfolding b(4) b(3) rb_write_pos[OF ok] by (metis mod_add_left_eq mod_add_self2)
  qed
  then show ?thesis
    by (rule rb_write_block[OF ok m refl b(1,2,3) _ c]) (use b(4,5) in simp)
qed

lemma rb_overrun_empty:
  assumes ok: "rb_ok rb" and m: "length xs \<le> rb_size rb"
    and b: "rb_buf rb' = ring_write (rb_buf rb) (rb_size rb) (unat (write_index rb)) xs"
      "buffer_size rb' = buffer_size rb"
      "unat (write_index rb') = (unat (write_index rb) + length xs) mod rb_size rb"
      "read_index rb' = write_index rb'" "read_mirror rb' = write_mirror rb'"
  shows "rb_ok rb' \<and> rb_size rb' = rb_size rb \<and> rb_items rb' = []"
proof -
  note bd = rb_ok_bounds[OF ok]
  have s: "rb_size rb' = rb_size rb" using b(2) by (simp add: rb_size_def)
  have "length (rb_buf rb') = length (rb_buf rb)" using bd m by (simp add: b(1))
  then show ?thesis using b bd s by (simp add: rb_ok_def rb_items_def ring_items_def rb_count_def)
qed

lemma rt_ringbuffer_put_force_block:
  assumes ok: "rb_ok rb" and len: "unat len \<le> length ptr"
    and l: "l = min (unat len) (rb_size rb)" and xs: "xs = take l (drop (unat len - l) ptr)"
  shows "\<exists>rb'. rt_ringbuffer_put_force rb ptr len = Some (of_nat l, rb') \<and> rb_ok rb' \<and>
    rb_size rb' = rb_size rb \<and>
    rb_items rb' = (if rb_count rb + l \<le> rb_size rb then rb_items rb @ xs
      else if read_mirror rb = write_mirror rb then []
      else drop (rb_count rb + l - rb_size rb) (rb_items rb @ xs))"
proof -
  note bd = rb_ok_bounds[OF ok] and ln = rt_ringbuffer_lens(3)[OF ok] and n = rb_size_sint[OF ok]
  let ?s = "ucast (rt_ringbuffer_space_len rb) :: rt_uint16"
  let ?c = "uint len > sint (buffer_size rb)"
  define p where "p = (if ?c then drop (nat (uint len - sint (buffer_size rb))) ptr else ptr)"
  define k where "k = (if ?c then buffer_size rb else len)"
  have ul: "uint len = int (unat len)" by simp
  have c: "?c = (unat len > rb_size rb)" unfolding n ul by (rule of_nat_less_iff)
  have uk: "unat k = l" unfolding k_def c l by (simp add: rb_size_def)
  have uik: "uint k = int l" using uk by (metis uint_nat)
  have pd: "p = drop (unat len - l) ptr"
  proof (cases ?c)
    case True
    then have "nat (uint len - sint (buffer_size rb)) = unat len - l"
      unfolding n ul using c l by linarith
    then show ?thesis using True by (simp add: p_def)
  next
    case False
    then show ?thesis using c l by (simp add: p_def)
  qed
  have px: "xs = take (length xs) p" "length xs = l" "l \<le> length p" using len l unfolding pd xs by auto
  have ln': "l \<le> rb_size rb" using l by simp
  have over: "(k > ?s) = (rb_size rb < rb_count rb + l)" using ln uk bd by (auto simp: word_less_nat_alt)
  have ret: "(ucast k :: rt_size) = of_nat l" by (simp add: uk[symmetric])
  have f: "(NOT (read_mirror rb) = NOT (write_mirror rb)) = (read_mirror rb = write_mirror rb)"
    using mirror_flip by metis
  show ?thesis
  proof (cases "write_room rb > int l")
    case True
    then have nw: "unat (write_index rb) + l < rb_size rb" unfolding rooms(1)[OF ok] by linarith
    have cp: "copy_in (rb_buf rb) (unat (write_index rb)) p (uint k) =
        Some (ring_write (rb_buf rb) (rb_size rb) (unat (write_index rb)) xs)"
      using bd nw px by (subst copy_in_Some) (simp_all add: uik ring_write_def)
    have w: "unat (write_index rb + ucast k) = unat (write_index rb) + l"
      unfolding uk[symmetric] by (rule add_index) (use bd nw uk in simp)
    let ?r = "rb\<lparr>rb_buf := ring_write (rb_buf rb) (rb_size rb) (unat (write_index rb)) xs,
      write_index := write_index rb + ucast k\<rparr>"
    show ?thesis
    proof (cases "k > ?s")
      case False
      then show ?thesis
        using rb_append_straight[OF ok, of k xs] over nw px uk cp True
        by (simp add: rt_ringbuffer_put_force_def Let_def p_def[symmetric] k_def[symmetric] uik ret)
    next
      case o: True
      then have ne: "read_mirror rb \<noteq> write_mirror rb"
        using over nw ok by (auto simp: rb_count_def rb_ok_def word_le_nat_alt)
      show ?thesis
        using rb_overrun_full[OF ok, of xs "?r\<lparr>read_index := write_index rb + ucast k\<rparr>"]
          over o nw px(2) ln' cp True w ne
        by (simp add: rt_ringbuffer_put_force_def Let_def p_def[symmetric] k_def[symmetric] uik ret)
    qed
  next
    case False
    then have wr: "rb_size rb \<le> unat (write_index rb) + l" unfolding rooms(1)[OF ok] by linarith
    let ?i = "word_of_int (int l - write_room rb) :: 15 word"
    have i: "unat ?i = l - (rb_size rb - unat (write_index rb))"
      unfolding rooms(1)[OF ok] using bd wr ln' by (subst word15_of_int) linarith+
    have i': "unat ?i = (unat (write_index rb) + l) mod rb_size rb"
      unfolding i by (rule wrapped_pos[OF bd(5) ln' wr, symmetric])
    let ?r = "rb\<lparr>rb_buf := ring_write (rb_buf rb) (rb_size rb) (unat (write_index rb)) xs,
      write_mirror := NOT (write_mirror rb), write_index := ?i\<rparr>"
    let ?q = "?r\<lparr>read_mirror := NOT (read_mirror rb), read_index := ?i\<rparr>"
    have call: "rt_ringbuffer_put_force rb ptr len = Some (of_nat l, if k > ?s then ?q else ?r)"
      using two_copies[OF ok, of xs p] px ln' False
      by (simp add: rt_ringbuffer_put_force_def Let_def p_def[symmetric] k_def[symmetric] uik ret)
    show ?thesis
    proof (cases "k > ?s")
      case o: False
      then show ?thesis using rb_append_wrapped[OF ok, of xs ?i] over wr px(2) i call by simp
    next
      case o: True
      show ?thesis
        using rb_overrun_full[OF ok, of xs ?q] rb_overrun_empty[OF ok, of xs ?q] over o px(2) ln' i' f call
        by simp
    qed
  qed
qed

text \<open>The single-byte operations are the block operations on one byte.\<close>

lemma putchar_is_put:
  assumes ok: "rb_ok rb"
  shows "rt_ringbuffer_putchar rb ch = rt_ringbuffer_put rb [ch] 1"
proof -
  note bd = rb_ok_bounds[OF ok] and ln = rt_ringbuffer_lens[OF ok]
  let ?s = "ucast (rt_ringbuffer_space_len rb) :: rt_uint16"
  have z: "(rt_ringbuffer_space_len rb = 0) = (?s = 0)"
    using ln(2,3) by (metis unat_eq_zero)
  have l: "\<not> ?s < 1 \<or> ?s = 0" by (metis less_one unat_1 unat_eq_zero word_less_nat_alt)
  have wi: "uint (write_index rb) = int (unat (write_index rb))" by simp
  have last: "(uint (write_index rb) = sint (buffer_size rb) - 1) = (\<not> write_room rb > 1)"
    unfolding write_room_def rb_size_sint[OF ok] wi using bd(5) by linarith
  have one: "uint (1 :: rt_uint16) = 1" by simp
  have c1: "copy_in (rb_buf rb) (unat (write_index rb)) [ch] 1 = Some ((rb_buf rb)[unat (write_index rb) := ch])"
    using bd by (subst copy_in_Some) (simp_all add: upd_conv_take_nth_drop)
  have c2: "copy_in b 0 (drop 1 [ch]) 0 = Some b" for b by (simp add: copy_in_def)
  show ?thesis
  proof (cases "?s = 0 \<or> write_room rb > 1")
    case True
    then show ?thesis using z l last c1 bd by (auto simp: rt_ringbuffer_putchar_def rt_ringbuffer_put_def Let_def)
  next
    case False
    then have r: "write_room rb = 1" unfolding rooms(1)[OF ok] using bd(5) by linarith
    then show ?thesis using False z l last c1 c2 bd
      by (auto simp: rt_ringbuffer_putchar_def rt_ringbuffer_put_def Let_def)
  qed
qed

lemma getchar_is_get:
  assumes ok: "rb_ok rb"
  shows "rt_ringbuffer_getchar rb =
    (case rt_ringbuffer_get rb 1 of
       None \<Rightarrow> None
     | Some (n, out, rb') \<Rightarrow> Some (n, if out = [] then None else Some (hd out), rb'))"
proof -
  note bd = rb_ok_bounds[OF ok] and ln = rt_ringbuffer_lens[OF ok]
  let ?s = "rt_ringbuffer_data_len rb"
  have l: "\<not> ?s < 1 \<or> ?s = 0" by (metis less_one unat_1 unat_eq_zero word_less_nat_alt)
  have wi: "uint (read_index rb) = int (unat (read_index rb))" by simp
  have last: "(uint (read_index rb) = sint (buffer_size rb) - 1) = (\<not> read_room rb > 1)"
    unfolding read_room_def rb_size_sint[OF ok] wi using bd(4) by linarith
  have c1: "copy_out (rb_buf rb) (unat (read_index rb)) 1 = Some [rb_buf rb ! unat (read_index rb)]"
    using bd by (subst copy_out_Some) (simp_all add: take_Suc_conv_app_nth Cons_nth_drop_Suc[symmetric] del: drop_append)
  have c2: "copy_out b 0 0 = Some []" for b by (simp add: copy_out_def)
  show ?thesis
  proof (cases "?s = 0 \<or> read_room rb > 1")
    case True
    then show ?thesis using l last c1 bd by (auto simp: rt_ringbuffer_getchar_def rt_ringbuffer_get_def Let_def)
  next
    case False
    then have r: "read_room rb = 1" unfolding rooms(2)[OF ok] using bd(4) by linarith
    then show ?thesis using False l last c1 c2 bd
      by (auto simp: rt_ringbuffer_getchar_def rt_ringbuffer_get_def Let_def)
  qed
qed

lemma rt_ringbuffer_putchar_byte:
  assumes ok: "rb_ok rb"
  shows "\<exists>rb'. rt_ringbuffer_putchar rb ch = Some (if rb_count rb < rb_size rb then 1 else 0, rb') \<and>
    rb_ok rb' \<and> rb_size rb' = rb_size rb \<and>
    rb_items rb' = rb_items rb @ (if rb_count rb < rb_size rb then [ch] else [])"
proof -
  have m: "min (rb_size rb - rb_count rb) (unat (1 :: rt_uint16)) = (if rb_count rb < rb_size rb then 1 else 0)"
    by simp
  show ?thesis
    using rt_ringbuffer_put_block[OF ok _ refl, of 1 "[ch]"]
    unfolding m putchar_is_put[OF ok] by (cases "rb_count rb < rb_size rb") simp_all
qed

lemma rt_ringbuffer_getchar_byte:
  assumes ok: "rb_ok rb"
  shows "\<exists>rb'. rt_ringbuffer_getchar rb =
      Some (if rb_items rb = [] then (0, None, rb') else (1, Some (hd (rb_items rb)), rb')) \<and>
    rb_ok rb' \<and> rb_size rb' = rb_size rb \<and> rb_items rb' = tl (rb_items rb)"
proof -
  have "min (rb_count rb) (unat (1 :: rt_uint16)) = (if rb_items rb = [] then 0 else 1)"
    using rb_items_length[of rb] by (cases "rb_items rb") auto
  then show ?thesis
    using rt_ringbuffer_get_block[OF ok refl, of 1]
    by (cases "rb_items rb") (auto simp: getchar_is_get[OF ok])
qed

lemma putchar_force_byte:
  assumes ok: "rb_ok rb"
  shows "\<exists>rb'. rt_ringbuffer_putchar_force rb ch = Some (1, rb') \<and> rb_ok rb' \<and> rb_size rb' = rb_size rb \<and>
    rb_items rb' = (if rb_count rb < rb_size rb then rb_items rb else tl (rb_items rb)) @ [ch]"
proof (cases "rb_count rb < rb_size rb")
  case True
  have "rt_ringbuffer_space_len rb \<noteq> 0"
    using True rt_ringbuffer_lens(2)[OF ok] by auto
  moreover have "rt_ringbuffer_status rb \<noteq> RT_RINGBUFFER_FULL"
    using True by (auto simp: rt_ringbuffer_status_def rb_count_def)
  ultimately have "rt_ringbuffer_putchar_force rb ch = rt_ringbuffer_putchar rb ch"
    by (simp add: rt_ringbuffer_putchar_force_def rt_ringbuffer_putchar_def Let_def)
  then show ?thesis using rt_ringbuffer_putchar_byte[OF ok, of ch] True by simp
next
  case False
  note bd = rb_ok_bounds[OF ok]
  have k: "rb_count rb = rb_size rb" using False bd by simp
  then have ne: "read_mirror rb \<noteq> write_mirror rb" "unat (read_index rb) = unat (write_index rb)"
    using bd ok by (auto simp: rb_count_def rb_ok_def word_le_nat_alt split: if_splits)
  have full: "rt_ringbuffer_status rb = RT_RINGBUFFER_FULL"
    using ne word_unat_eq_iff[of "read_index rb" "write_index rb"] by (auto simp: rt_ringbuffer_status_def)
  have wi: "uint (write_index rb) = int (unat (write_index rb))" by simp
  have last: "(uint (write_index rb) = sint (buffer_size rb) - 1) = (Suc (unat (write_index rb)) = rb_size rb)"
    unfolding rb_size_sint[OF ok] wi by linarith
  have rw: "ring_write (rb_buf rb) (rb_size rb) (unat (write_index rb)) [ch] = (rb_buf rb)[unat (write_index rb) := ch]"
  proof (cases "Suc (unat (write_index rb)) = rb_size rb")
    case True
    then show ?thesis using bd
      by (simp add: ring_write_def upd_conv_take_nth_drop flip: True)
  next
    case False
    then show ?thesis using bd by (simp add: ring_write_def upd_conv_take_nth_drop)
  qed
  have f: "(NOT (read_mirror rb) = NOT (write_mirror rb)) = (read_mirror rb = write_mirror rb)"
    using mirror_flip by metis
  have inc: "unat (write_index rb + 1) = (unat (write_index rb) + 1) mod rb_size rb"
    if "Suc (unat (write_index rb)) \<noteq> rb_size rb"
    using that bd(2,5) add_index[of "write_index rb" 1] by simp
  define rb' where "rb' = snd (the (rt_ringbuffer_putchar_force rb ch))"
  have call: "rt_ringbuffer_putchar_force rb ch = Some (1, rb')"
    and flds: "rb_buf rb' = ring_write (rb_buf rb) (rb_size rb) (unat (write_index rb)) [ch]"
      "buffer_size rb' = buffer_size rb"
      "unat (write_index rb') = (unat (write_index rb) + length [ch]) mod rb_size rb"
      "read_index rb' = write_index rb'" "read_mirror rb' \<noteq> write_mirror rb'"
    using bd full last ne(1) f inc
    by (simp_all add: rb'_def rt_ringbuffer_putchar_force_def Let_def rw)
  have t: "drop 1 (rb_items rb @ [ch]) = tl (rb_items rb) @ [ch]"
    using rb_items_length[of rb] k bd(1) by (cases "rb_items rb") auto
  show ?thesis
    using rb_overrun_full[OF ok _ _ flds] call bd(1) t by (simp add: k)
qed

interpretation byte_ring: bounded_fifo rb_ok rb_size rb_items "\<lambda>_ _. True"
  "\<lambda>ch rb. snd (the (rt_ringbuffer_putchar rb ch))"
  "\<lambda>rb. (case the (rt_ringbuffer_getchar rb) of (_, ch, rb') \<Rightarrow> (the ch, rb'))"
proof unfold_locales
  fix rb ch
  assume ok: "rb_ok rb"
  show "length (rb_items rb) \<le> rb_size rb" using rb_ok_bounds[OF ok] by simp
  assume l: "length (rb_items rb) < rb_size rb"
  from rt_ringbuffer_putchar_byte[OF ok, of ch] l
  show "rb_ok (snd (the (rt_ringbuffer_putchar rb ch)))"
    "rb_items (snd (the (rt_ringbuffer_putchar rb ch))) = rb_items rb @ [ch]"
    "rb_size (snd (the (rt_ringbuffer_putchar rb ch))) = rb_size rb" by auto
next
  fix rb
  assume ok: "rb_ok rb" and ne: "rb_items rb \<noteq> []"
  let ?g = "case the (rt_ringbuffer_getchar rb) of (_, ch, rb') \<Rightarrow> (the ch, rb')"
  from rt_ringbuffer_getchar_byte[OF ok] ne
  show "rb_ok (snd ?g)" "fst ?g = hd (rb_items rb)" "rb_items (snd ?g) = tl (rb_items rb)"
    "rb_size (snd ?g) = rb_size rb" by auto
qed

end
