(* ===== verification/RT_Ring_Run.thy ===== *)
theory RT_Ring_Run
  imports RT_Ringbuffer
begin

text \<open>Runs of the ring buffer: sequences of reads and writes, of single bytes and of blocks, and
  the forced writes that discard old data.\<close>

lemma rt_ringbuffer_init_ok:
  assumes "4 \<le> sint sz" "sint sz \<le> int (length pool)"
  shows "\<exists>rb. rt_ringbuffer_init pool sz = Some rb \<and> rb_ok rb \<and> rb_items rb = [] \<and>
    rb_size rb = nat (sint sz) div 4 * 4 \<and> read_mirror rb = write_mirror rb"
proof -
  let ?a = "ucast (RT_ALIGN_DOWN (scast sz) 4) :: rt_uint16"
  have le: "sint sz < 2 ^ 15" using sint_less[of sz] by simp
  have w: "(scast sz :: rt_uint32) = of_nat (nat (sint sz))"
    using assms(1) by (simp add: signed_of_int)
  have sc: "unat (scast sz :: rt_uint32) = nat (sint sz)"
    unfolding w by (rule small_word32) (use le in simp)
  have a: "unat ?a = nat (sint sz) div 4 * 4"
    using le by (simp add: unat_ucast_16 unat_RT_ALIGN_DOWN4 sc)
  let ?rb = "\<lparr>rb_buf = pool, read_mirror = 0, read_index = 0, write_mirror = 0, write_index = 0,
       buffer_size = ?a\<rparr>"
  have "rb_size ?rb = nat (sint sz) div 4 * 4" using a by (simp add: rb_size_def)
  moreover have "0 < nat (sint sz) div 4 * 4" using assms(1) by linarith
  moreover have "nat (sint sz) div 4 * 4 \<le> nat (sint sz)" by simp
  then have "nat (sint sz) div 4 * 4 < 32768 \<and> nat (sint sz) div 4 * 4 \<le> length pool"
    using assms le by (auto simp del: div_mult_self_is_m)
  ultimately have "rb_ok ?rb \<and> rb_items ?rb = [] \<and> rb_size ?rb = nat (sint sz) div 4 * 4"
    unfolding rb_ok_def by (auto simp: rb_items_def rb_count_def ring_items_def)
  then show ?thesis using assms(1) by (simp add: rt_ringbuffer_init_def)
qed

section \<open>Sequences of operations\<close>

datatype ring_op = RPut "rt_uint8 list" | RPutchar rt_uint8 | RGet rt_uint16 | RGetchar | RReset

text \<open>A sequence of operations, as the producers and the consumers of the buffer call them:
  the bytes accepted, the bytes handed out and the buffer at the end. A reset starts a new
  account.\<close>

fun ring_run :: "ring_op list \<Rightarrow> rt_ringbuffer \<Rightarrow>
    (rt_uint8 list \<times> rt_uint8 list \<times> rt_ringbuffer) option" where
  "ring_run [] rb = Some ([], [], rb)"
| "ring_run (RPut xs # os) rb = do {
     (n, rb1) \<leftarrow> rt_ringbuffer_put rb xs (of_nat (length xs));
     (ins, outs, rb2) \<leftarrow> ring_run os rb1;
     Some (take (unat n) xs @ ins, outs, rb2) }"
| "ring_run (RPutchar ch # os) rb = do {
     (n, rb1) \<leftarrow> rt_ringbuffer_putchar rb ch;
     (ins, outs, rb2) \<leftarrow> ring_run os rb1;
     Some ((if n = 0 then [] else [ch]) @ ins, outs, rb2) }"
| "ring_run (RGet len # os) rb = do {
     (n, out, rb1) \<leftarrow> rt_ringbuffer_get rb len;
     (ins, outs, rb2) \<leftarrow> ring_run os rb1;
     Some (ins, out @ outs, rb2) }"
| "ring_run (RGetchar # os) rb = do {
     (n, ch, rb1) \<leftarrow> rt_ringbuffer_getchar rb;
     (ins, outs, rb2) \<leftarrow> ring_run os rb1;
     Some (ins, (case ch of None \<Rightarrow> [] | Some c \<Rightarrow> [c]) @ outs, rb2) }"
| "ring_run (RReset # os) rb = do {
     (ins, outs, rb2) \<leftarrow> ring_run os (rt_ringbuffer_reset rb);
     Some (ins, rb_items rb @ outs, rb2) }"

lemma rt_ringbuffer_reset_ok:
  "rb_ok rb \<Longrightarrow> rb_ok (rt_ringbuffer_reset rb) \<and> rb_size (rt_ringbuffer_reset rb) = rb_size rb \<and>
    rb_items (rt_ringbuffer_reset rb) = []"
  by (simp add: rb_ok_def rt_ringbuffer_reset_def rb_items_def rb_count_def ring_items_def rb_size_def)

definition ring_sized :: "ring_op list \<Rightarrow> bool" where
  "ring_sized os = list_all (\<lambda>op. case op of RPut xs \<Rightarrow> length xs < 65536 | _ \<Rightarrow> True) os"

lemma ring_run_account:
  assumes "rb_ok rb" "ring_sized os"
  shows "\<exists>ins outs rb'. ring_run os rb = Some (ins, outs, rb') \<and> rb_items rb @ ins = outs @ rb_items rb' \<and>
    rb_ok rb' \<and> rb_size rb' = rb_size rb"
  using assms
proof (induction os rb rule: ring_run.induct)
  case (2 xs os rb)
  have l: "unat (of_nat (length xs) :: rt_uint16) = length xs"
    using "2.prems"(2) by (simp add: ring_sized_def unat_of_nat)
  define m where "m = min (rb_size rb - rb_count rb) (length xs)"
  have m: "unat (of_nat m :: rt_size) = m" "m \<le> length xs"
    using rb_ok_bounds[OF "2.prems"(1)] by (simp_all add: m_def small_word32)
  obtain rb1 where p: "rt_ringbuffer_put rb xs (of_nat (length xs)) = Some (of_nat m, rb1)" "rb_ok rb1"
      "rb_size rb1 = rb_size rb" "rb_items rb1 = rb_items rb @ take m xs"
    using rt_ringbuffer_put_block[OF "2.prems"(1), of "of_nat (length xs)" xs m] l m_def by auto
  obtain ins outs rb2 where "ring_run os rb1 = Some (ins, outs, rb2)" "rb_items rb1 @ ins = outs @ rb_items rb2"
      "rb_ok rb2" "rb_size rb2 = rb_size rb1"
    using "2.IH"[OF p(1) refl p(2)] "2.prems"(2) by (auto simp: ring_sized_def)
  then show ?case using p m by simp
next
  case (3 ch os rb)
  obtain rb1 where p: "rt_ringbuffer_putchar rb ch = Some (if rb_count rb < rb_size rb then 1 else 0, rb1)" "rb_ok rb1"
      "rb_size rb1 = rb_size rb" "rb_items rb1 = rb_items rb @ (if rb_count rb < rb_size rb then [ch] else [])"
    using rt_ringbuffer_putchar_byte[OF "3.prems"(1), of ch] by auto
  obtain ins outs rb2 where "ring_run os rb1 = Some (ins, outs, rb2)" "rb_items rb1 @ ins = outs @ rb_items rb2"
      "rb_ok rb2" "rb_size rb2 = rb_size rb1"
    using "3.IH"[OF p(1) refl p(2)] "3.prems"(2) by (auto simp: ring_sized_def)
  then show ?case using p by (cases "rb_count rb < rb_size rb") simp_all
next
  case (4 len os rb)
  define m where "m = min (rb_count rb) (unat len)"
  obtain rb1 where p: "rt_ringbuffer_get rb len = Some (of_nat m, take m (rb_items rb), rb1)" "rb_ok rb1"
      "rb_size rb1 = rb_size rb" "rb_items rb1 = drop m (rb_items rb)"
    using rt_ringbuffer_get_block[OF "4.prems"(1), of m len] m_def by auto
  obtain ins outs rb2 where "ring_run os rb1 = Some (ins, outs, rb2)" "rb_items rb1 @ ins = outs @ rb_items rb2"
      "rb_ok rb2" "rb_size rb2 = rb_size rb1"
    using "4.IH"[OF p(1) refl refl p(2)] "4.prems"(2) by (auto simp: ring_sized_def)
  then show ?case using p by (simp, metis append.assoc append_take_drop_id)
next
  case (5 os rb)
  obtain rb1 where p: "rt_ringbuffer_getchar rb =
      Some (if rb_items rb = [] then (0, None, rb1) else (1, Some (hd (rb_items rb)), rb1))" "rb_ok rb1"
      "rb_size rb1 = rb_size rb" "rb_items rb1 = tl (rb_items rb)"
    using rt_ringbuffer_getchar_byte[OF "5.prems"(1)] by auto
  have "ring_sized os" using "5.prems"(2) by (simp add: ring_sized_def)
  then have "\<exists>ins outs rb2. ring_run os rb1 = Some (ins, outs, rb2) \<and>
      rb_items rb1 @ ins = outs @ rb_items rb2 \<and> rb_ok rb2 \<and> rb_size rb2 = rb_size rb1"
    using "5.IH"[of _ _ _ _ rb1] p(1,2) by (cases "rb_items rb = []") auto
  then obtain ins outs rb2 where "ring_run os rb1 = Some (ins, outs, rb2)" "rb_items rb1 @ ins = outs @ rb_items rb2"
      "rb_ok rb2" "rb_size rb2 = rb_size rb1" by blast
  then show ?case using p by (cases "rb_items rb") auto
next
  case (6 os rb)
  then show ?case using rt_ringbuffer_reset_ok[of rb] by (fastforce simp: ring_sized_def)
qed simp

section \<open>Properties\<close>

text \<open>C34. The ring buffer is a byte stream: in every sequence of block and single-byte reads and
  writes (and resets, which discard what is stored) no operation touches memory outside of the
  buffer, the bytes accepted come out complete, in order and once, never more than the buffer's
  size is stored, and the number of bytes reported is the number stored.\<close>

theorem ringbuffer_fifo:
  assumes "rb_ok rb" "ring_sized os"
  shows "\<exists>ins outs rb'. ring_run os rb = Some (ins, outs, rb') \<and> rb_items rb @ ins = outs @ rb_items rb' \<and>
    rb_ok rb' \<and> length (rb_items rb') \<le> rb_size rb \<and>
    unat (rt_ringbuffer_data_len rb') = length (rb_items rb')"
proof -
  obtain ins outs rb' where r: "ring_run os rb = Some (ins, outs, rb')"
      "rb_items rb @ ins = outs @ rb_items rb'" "rb_ok rb'" "rb_size rb' = rb_size rb"
    using ring_run_account[OF assms] by blast
  moreover have "length (rb_items rb') \<le> rb_size rb" using byte_ring.items_le[OF r(3)] r(4) by simp
  ultimately show ?thesis using rt_ringbuffer_lens(1)[OF r(3)] by simp
qed

text \<open>What is written is what is read: on a buffer initialised over a pool, a block not longer
  than the (aligned) size is accepted whole, and a read of its length returns exactly its bytes and
  leaves the buffer empty.\<close>

theorem ringbuffer_roundtrip:
  assumes "4 \<le> sint sz" "sint sz \<le> int (length pool)" "length xs \<le> nat (sint sz) div 4 * 4"
  shows "\<exists>rb rb1 rb2. rt_ringbuffer_init pool sz = Some rb \<and>
    rt_ringbuffer_put rb xs (of_nat (length xs)) = Some (of_nat (length xs), rb1) \<and>
    rt_ringbuffer_get rb1 (of_nat (length xs)) = Some (of_nat (length xs), xs, rb2) \<and>
    rb_items rb2 = []"
proof -
  obtain rb where i: "rt_ringbuffer_init pool sz = Some rb" "rb_ok rb" "rb_items rb = []"
      "rb_size rb = nat (sint sz) div 4 * 4"
    using rt_ringbuffer_init_ok[OF assms(1,2)] by blast
  have c: "rb_count rb = 0" using rb_items_length[of rb] i(3) by simp
  have l: "unat (of_nat (length xs) :: rt_uint16) = length xs"
    using assms(3) i(4) rb_ok_bounds(2)[OF i(2)] by (simp add: small_word16)
  obtain rb1 where p: "rt_ringbuffer_put rb xs (of_nat (length xs)) = Some (of_nat (length xs), rb1)"
      "rb_ok rb1" "rb_items rb1 = xs"
    using rt_ringbuffer_put_block[OF i(2), of "of_nat (length xs)" xs "length xs"] assms(3) i(3,4) c l by auto
  have c1: "rb_count rb1 = length xs" using rb_items_length[of rb1] p(3) by simp
  obtain rb2 where "rt_ringbuffer_get rb1 (of_nat (length xs)) = Some (of_nat (length xs), xs, rb2)"
      "rb_items rb2 = []"
    using rt_ringbuffer_get_block[OF p(2), of "length xs" "of_nat (length xs)"] l c1 p(3) by auto
  with i(1) p(1) show ?thesis by blast
qed

text \<open>A forced write stores the block, or its last bytes when it is longer than the buffer. When
  it overruns unread data the oldest bytes go and the buffer is full afterwards, provided the read
  and the write index were on different mirrors; when they were on the same one the whole buffer,
  the new block included, is lost. The forced write of one byte always drops at most the oldest.\<close>

theorem rt_ringbuffer_put_force_correct:
  assumes "rb_ok rb" "unat len \<le> length ptr" "l = min (unat len) (rb_size rb)"
    "block = take l (drop (unat len - l) ptr)"
  shows "(\<exists>rb'. rt_ringbuffer_put_force rb ptr len = Some (of_nat l, rb') \<and> rb_ok rb' \<and>
      rb_items rb' = (if rb_count rb + l \<le> rb_size rb then rb_items rb @ block
        else if read_mirror rb = write_mirror rb then []
        else drop (rb_count rb + l - rb_size rb) (rb_items rb @ block))) \<and>
    (\<exists>rb'. rt_ringbuffer_putchar_force rb ch = Some (1, rb') \<and> rb_ok rb' \<and>
      rb_items rb' = (if rb_count rb < rb_size rb then rb_items rb else tl (rb_items rb)) @ [ch])"
  using rt_ringbuffer_put_force_block[OF assms] putchar_force_byte[OF assms(1), of ch] by blast

text \<open>The single-byte operations are the block operations on one byte: the two implementations
  of each give the same result and the same buffer.\<close>

theorem ringbuffer_char_equiv:
  assumes "rb_ok rb"
  shows "rt_ringbuffer_putchar rb ch = rt_ringbuffer_put rb [ch] 1 \<and>
    rt_ringbuffer_getchar rb =
      (case rt_ringbuffer_get rb 1 of
         None \<Rightarrow> None
       | Some (n, out, rb') \<Rightarrow> Some (n, if out = [] then None else Some (hd out), rb'))"
  using putchar_is_put[OF assms] getchar_is_get[OF assms] by blast

section \<open>Witnesses\<close>

text \<open>A buffer of four bytes whose write index is about to wrap.\<close>

definition ring_demo :: rt_ringbuffer where
  "ring_demo = \<lparr>rb_buf = [1, 2, 3, 4], read_mirror = 0, read_index = 2, write_mirror = 0,
    write_index = 3, buffer_size = 4\<rparr>"

lemma ring_demo_ok: "rb_ok ring_demo"
  by (simp add: rb_ok_def ring_demo_def rb_size_def)

lemma ringbuffer_fifo_witness:
  "\<exists>ins outs rb'. ring_run [RPut [7, 8], RGetchar] ring_demo = Some (ins, outs, rb') \<and>
    rb_items ring_demo @ ins = outs @ rb_items rb' \<and> rb_ok rb' \<and>
    length (rb_items rb') \<le> rb_size ring_demo \<and>
    unat (rt_ringbuffer_data_len rb') = length (rb_items rb')"
  by (rule ringbuffer_fifo[OF ring_demo_ok]) (simp add: ring_sized_def)

lemma ringbuffer_roundtrip_witness:
  "\<exists>rb rb1 rb2. rt_ringbuffer_init [0, 0, 0, 0, 0] 5 = Some rb \<and>
    rt_ringbuffer_put rb [9, 8, 7] (of_nat (length [9, 8, 7 :: rt_uint8])) =
      Some (of_nat (length [9, 8, 7 :: rt_uint8]), rb1) \<and>
    rt_ringbuffer_get rb1 (of_nat (length [9, 8, 7 :: rt_uint8])) =
      Some (of_nat (length [9, 8, 7 :: rt_uint8]), [9, 8, 7], rb2) \<and>
    rb_items rb2 = []"
  by (rule ringbuffer_roundtrip) simp_all

text \<open>The forced write of four bytes to the demonstration buffer loses everything.\<close>

lemma ring_demo_items: "rb_size ring_demo = 4" "rb_count ring_demo = 1" "rb_items ring_demo = [3]"
  by (simp_all add: ring_demo_def rb_size_def rb_count_def rb_items_def ring_items_def)

lemma rt_ringbuffer_put_force_witness:
  "(\<exists>rb'. rt_ringbuffer_put_force ring_demo [5, 6, 7, 8] 4 = Some (4, rb') \<and> rb_items rb' = []) \<and>
   (\<exists>rb'. rt_ringbuffer_putchar_force ring_demo 9 = Some (1, rb') \<and> rb_items rb' = [3, 9])"
proof -
  have m: "read_mirror ring_demo = write_mirror ring_demo" by (simp add: ring_demo_def)
  have a: "unat (4 :: rt_uint16) \<le> length [5, 6, 7, 8 :: rt_uint8]"
    "4 = min (unat (4 :: rt_uint16)) (rb_size ring_demo)"
    "[5, 6, 7, 8 :: rt_uint8] = take 4 (drop (unat (4 :: rt_uint16) - 4) [5, 6, 7, 8])"
    by (simp_all add: ring_demo_items)
  show ?thesis
    using rt_ringbuffer_put_force_correct[OF ring_demo_ok a, of 9] m
    by (auto simp: ring_demo_items)
qed

lemma ringbuffer_char_equiv_witness:
  "rt_ringbuffer_putchar ring_demo 5 = rt_ringbuffer_put ring_demo [5] 1"
  using ringbuffer_char_equiv[OF ring_demo_ok] by blast

end
