(* ===== verification/RT_Memory.thy ===== *)
theory RT_Memory
  imports RT_Prelude
begin

text \<open>Memory as bytes by address, and the block operations of src/kservice.c on it: rt\_memset,
  rt\_memcpy, rt\_memmove and rt\_memcmp, with the loops over machine words that the first two
  have on aligned addresses.\<close>

section \<open>Memory\<close>

text \<open>A byte for every address. A long is four bytes, the lowest first.\<close>

type_synonym memory = "rt_uint32 \<Rightarrow> rt_uint8"

definition load32 :: "memory \<Rightarrow> rt_uint32 \<Rightarrow> rt_uint32" where
  "load32 m a = ucast (m a) OR push_bit 8 (ucast (m (a + 1))) OR push_bit 16 (ucast (m (a + 2)))
     OR push_bit 24 (ucast (m (a + 3)))"

definition store32 :: "rt_uint32 \<Rightarrow> rt_uint32 \<Rightarrow> memory \<Rightarrow> memory" where
  "store32 a w m = m(a := ucast w, a + 1 := ucast (drop_bit 8 w), a + 2 := ucast (drop_bit 16 w),
     a + 3 := ucast (drop_bit 24 w))"

section \<open>Operations\<close>

text \<open>A byte loop \<^verbatim>\<open>while (n--)\<close> runs \<^verbatim>\<open>n\<close> times.\<close>

fun fill_bytes :: "nat \<Rightarrow> rt_uint32 \<Rightarrow> rt_uint8 \<Rightarrow> memory \<Rightarrow> memory" where
  "fill_bytes 0 p c m = m"
| "fill_bytes (Suc n) p c m = fill_bytes n (p + 1) c (m(p := c))"

fun copy_bytes :: "nat \<Rightarrow> rt_uint32 \<Rightarrow> rt_uint32 \<Rightarrow> memory \<Rightarrow> memory" where
  "copy_bytes 0 d s m = m"
| "copy_bytes (Suc n) d s m = copy_bytes n (d + 1) (s + 1) (m(d := m s))"

fun copy_bytes_down :: "nat \<Rightarrow> rt_uint32 \<Rightarrow> rt_uint32 \<Rightarrow> memory \<Rightarrow> memory" where
  "copy_bytes_down 0 d s m = m"
| "copy_bytes_down (Suc n) d s m = copy_bytes_down n (d - 1) (s - 1) (m(d - 1 := m (s - 1)))"

text \<open>The loops over words, by 16 and by 4 bytes; each returns the address it has come to and the
  count that is left.\<close>

fun fill_words16 :: "nat \<Rightarrow> rt_uint32 \<Rightarrow> rt_uint32 \<Rightarrow> memory \<Rightarrow> nat \<times> rt_uint32 \<times> memory" where
  "fill_words16 n p w m =
    (if n \<ge> 16
     then fill_words16 (n - 16) (p + 16) w
       (store32 (p + 12) w (store32 (p + 8) w (store32 (p + 4) w (store32 p w m))))
     else (n, p, m))"

fun fill_words4 :: "nat \<Rightarrow> rt_uint32 \<Rightarrow> rt_uint32 \<Rightarrow> memory \<Rightarrow> nat \<times> rt_uint32 \<times> memory" where
  "fill_words4 n p w m = (if n \<ge> 4 then fill_words4 (n - 4) (p + 4) w (store32 p w m) else (n, p, m))"

definition copy_word :: "rt_uint32 \<Rightarrow> rt_uint32 \<Rightarrow> memory \<Rightarrow> memory" where
  "copy_word d s m = store32 d (load32 m s) m"

fun copy_words16 :: "nat \<Rightarrow> rt_uint32 \<Rightarrow> rt_uint32 \<Rightarrow> memory \<Rightarrow> nat \<times> rt_uint32 \<times> rt_uint32 \<times> memory" where
  "copy_words16 n d s m =
    (if n \<ge> 16
     then copy_words16 (n - 16) (d + 16) (s + 16)
       (copy_word (d + 12) (s + 12) (copy_word (d + 8) (s + 8) (copy_word (d + 4) (s + 4) (copy_word d s m))))
     else (n, d, s, m))"

fun copy_words4 :: "nat \<Rightarrow> rt_uint32 \<Rightarrow> rt_uint32 \<Rightarrow> memory \<Rightarrow> nat \<times> rt_uint32 \<times> rt_uint32 \<times> memory" where
  "copy_words4 n d s m =
    (if n \<ge> 4 then copy_words4 (n - 4) (d + 4) (s + 4) (copy_word d s m) else (n, d, s, m))"

declare fill_words16.simps [simp del] fill_words4.simps [simp del]
  copy_words16.simps [simp del] copy_words4.simps [simp del]

definition rt_memset :: "rt_uint32 \<Rightarrow> int \<Rightarrow> rt_uint32 \<Rightarrow> memory \<Rightarrow> memory" where
  "rt_memset s c count m =
    (let n = unat count; d = (word_of_int c AND 0xff :: rt_uint32) in
     if n \<ge> 4 \<and> s AND 3 = 0 then
       (let buffer = push_bit 8 d OR d;
            buffer = buffer OR push_bit 16 buffer;
            (n, p, m) = fill_words16 n s buffer m;
            (n, p, m) = fill_words4 n p buffer m
        in fill_bytes n p (ucast d) m)
     else fill_bytes n s (ucast d) m)"

text \<open>The count of rt\_memcpy is copied to an \<^verbatim>\<open>int\<close>, which the comparisons with \<^verbatim>\<open>sizeof\<close>
  turn into an unsigned number again; the loop over bytes runs on the \<^verbatim>\<open>int\<close> itself, and a
  count of 2 to the 31 or more is undefined there.\<close>

definition rt_memcpy :: "rt_uint32 \<Rightarrow> rt_uint32 \<Rightarrow> rt_uint32 \<Rightarrow> memory \<Rightarrow> memory option" where
  "rt_memcpy dst src count m =
    (let n = unat count in
     if n \<ge> 16 \<and> (src AND 3) OR (dst AND 3) = 0 then
       (let (n, d, s, m) = copy_words16 n dst src m;
            (n, d, s, m) = copy_words4 n d s m
        in Some (copy_bytes n d s m))
     else if n < 2 ^ 31 then Some (copy_bytes n dst src m) else None)"

definition rt_memmove :: "rt_uint32 \<Rightarrow> rt_uint32 \<Rightarrow> rt_uint32 \<Rightarrow> memory \<Rightarrow> memory" where
  "rt_memmove dest src n m =
    (if src < dest \<and> dest < src + n then copy_bytes_down (unat n) (dest + n) (src + n) m
     else copy_bytes (unat n) dest src m)"

fun memcmp_bytes :: "nat \<Rightarrow> rt_uint32 \<Rightarrow> rt_uint32 \<Rightarrow> memory \<Rightarrow> int" where
  "memcmp_bytes 0 cs ct m = 0"
| "memcmp_bytes (Suc n) cs ct m =
    (if uint (m cs) - uint (m ct) \<noteq> 0 then uint (m cs) - uint (m ct) else memcmp_bytes n (cs + 1) (ct + 1) m)"

definition rt_memcmp :: "rt_uint32 \<Rightarrow> rt_uint32 \<Rightarrow> rt_uint32 \<Rightarrow> memory \<Rightarrow> int" where
  "rt_memcmp cs ct count m = memcmp_bytes (unat count) cs ct m"

section \<open>What they do\<close>

text \<open>The copy and the fill of a whole block at once. Address arithmetic wraps.\<close>

definition block_copied :: "rt_uint32 \<Rightarrow> rt_uint32 \<Rightarrow> nat \<Rightarrow> memory \<Rightarrow> memory" where
  "block_copied d s n m = (\<lambda>a. if unat (a - d) < n then m (s + (a - d)) else m a)"

definition block_filled :: "rt_uint32 \<Rightarrow> rt_uint8 \<Rightarrow> nat \<Rightarrow> memory \<Rightarrow> memory" where
  "block_filled p c n m = (\<lambda>a. if unat (a - p) < n then c else m a)"

lemma bytes_of_load32:
  "ucast (load32 m a) = m a" "ucast (drop_bit 8 (load32 m a)) = m (a + 1)"
  "ucast (drop_bit 16 (load32 m a)) = m (a + 2)" "ucast (drop_bit 24 (load32 m a)) = m (a + 3)"
  unfolding load32_def by (rule bit_word_eqI; auto simp: bit_simps dest: bit_imp_le_length)+

lemma unat_sub32:
  "unat (x - y :: rt_uint32) = (if unat y \<le> unat x then unat x - unat y else 2 ^ 32 + unat x - unat y)"
proof -
  have "LENGTH(32) = 32" by simp
  then show ?thesis unfolding unat_sub_if'[of x y] by (simp only: add.commute)
qed

text \<open>An upward copy is safe unless the destination lies behind the source within the block.\<close>

definition up_safe :: "rt_uint32 \<Rightarrow> rt_uint32 \<Rightarrow> nat \<Rightarrow> bool" where
  "up_safe d s n \<longleftrightarrow> d = s \<or> n \<le> unat (d - s)"

lemma block_copied_0 [simp]: "block_copied d s 0 m = m"
  by (simp add: block_copied_def)

lemma block_copied_compose:
  assumes safe: "up_safe d s (k + n)" and n: "k + n \<le> 2 ^ 32" "k < 2 ^ 32"
  shows "block_copied (d + of_nat k) (s + of_nat k) n (block_copied d s k m) = block_copied d s (k + n) m"
proof
  fix a
  let ?x = "a - d"
  have k: "unat (of_nat k :: rt_uint32) = k" using n by (simp add: unat_of_nat)
  have e: "a - (d + of_nat k) = ?x - of_nat k" "s + of_nat k + (?x - of_nat k) = s + ?x" by simp_all
  have lt: "(unat (?x - of_nat k) < n) = (k \<le> unat ?x \<and> unat ?x < k + n)"
    using n by (auto simp: unat_sub32 k)
  have "\<not> unat (s + ?x - d) < k" if u: "k \<le> unat ?x" "unat ?x < k + n"
  proof (cases "d = s")
    case True
    then show ?thesis using u by simp
  next
    case False
    have e: "s + ?x - d = ?x - (d - s)" by simp
    have "unat (d - s) < 2 ^ LENGTH(32)" by (rule unsigned_less)
    then show ?thesis unfolding e unat_sub32[of ?x] using safe False u by (auto simp: up_safe_def)
  qed
  then show "block_copied (d + of_nat k) (s + of_nat k) n (block_copied d s k m) a = block_copied d s (k + n) m a"
    unfolding block_copied_def e lt by auto
qed

lemma up_safe_mono: "up_safe d s n \<Longrightarrow> k \<le> n \<Longrightarrow> up_safe d s k"
  by (auto simp: up_safe_def)

lemma up_safe_shift: "up_safe (d + x) (s + x) n = up_safe d s n"
  by (simp add: up_safe_def)

lemma block_copied_1: "block_copied d s 1 m = m(d := m s)"
  by (auto simp: block_copied_def fun_eq_iff unat_eq_zero)

lemma copy_bytes_block:
  assumes "up_safe d s n" "n \<le> 2 ^ 32"
  shows "copy_bytes n d s m = block_copied d s n m"
  using assms
proof (induction n arbitrary: d s m)
  case (Suc n)
  have "up_safe (d + 1) (s + 1) n" using Suc.prems(1) by (simp add: up_safe_shift up_safe_mono)
  then have "copy_bytes (Suc n) d s m = block_copied (d + 1) (s + 1) n (block_copied d s 1 m)"
    using Suc.IH Suc.prems(2) block_copied_1 by simp
  also have "\<dots> = block_copied d s (1 + n) m"
    using block_copied_compose[of d s 1 n m] Suc.prems by simp
  finally show ?case by simp
qed simp

lemma copy_word_block: "copy_word d s m = block_copied d s 4 m"
proof
  fix a
  have "unat (a - d) < 4 \<longleftrightarrow> a - d = 0 \<or> a - d = 1 \<or> a - d = 2 \<or> a - d = 3"
  proof -
    have "unat (a - d) < 4 \<longleftrightarrow> unat (a - d) \<in> {0, 1, 2, 3}" by auto
    then show ?thesis using word_unat_eq_iff[of "a - d" 0] word_unat_eq_iff[of "a - d" 1]
      word_unat_eq_iff[of "a - d" 2] word_unat_eq_iff[of "a - d" 3] by simp
  qed
  moreover have "a - d = k \<longleftrightarrow> a = d + k" for k by (auto simp: algebra_simps)
  ultimately show "copy_word d s m a = block_copied d s 4 m a"
    by (auto simp: copy_word_def store32_def bytes_of_load32 block_copied_def)
qed

lemma copy_bytes_down_block:
  assumes "s = d \<or> n \<le> unat (s - d)" "n \<le> 2 ^ 32"
  shows "copy_bytes_down n (d + of_nat n) (s + of_nat n) m = block_copied d s n m"
  using assms
proof (induction n arbitrary: m)
  case (Suc n)
  let ?n = "of_nat n :: rt_uint32"
  have un: "unat ?n = n" using Suc.prems(2) by (simp add: unat_of_nat)
  have "copy_bytes_down (Suc n) (d + of_nat (Suc n)) (s + of_nat (Suc n)) m =
      copy_bytes_down n (d + ?n) (s + ?n) (m(d + ?n := m (s + ?n)))"
    by (simp add: algebra_simps)
  also have "\<dots> = block_copied d s n (m(d + ?n := m (s + ?n)))"
    using Suc by auto
  also have "\<dots> = block_copied d s (Suc n) m"
  proof
    fix a
    let ?x = "a - d"
    have w: "(unat ?x = n) = (a = d + ?n)"
      using word_unat_eq_iff[of ?x ?n] un by (auto simp: algebra_simps)
    have "s + ?x \<noteq> d + ?n" if "unat ?x < n"
    proof
      assume "s + ?x = d + ?n"
      then have e: "s - d = ?n - ?x" by (simp add: algebra_simps)
      have u: "unat (s - d) = n - unat ?x" unfolding e unat_sub32[of ?n] un using that by simp
      then have "s \<noteq> d" using that by auto
      then show False using Suc.prems(1) u by simp
    qed
    then show "block_copied d s n (m(d + ?n := m (s + ?n))) a = block_copied d s (Suc n) m a"
      using w by (auto simp: block_copied_def less_Suc_eq)
  qed
  finally show ?case .
qed simp

lemma copy_words16_block:
  assumes "up_safe d s n" "n < 2 ^ 32"
  shows "copy_words16 n d s m = (n mod 16, d + of_nat (n div 16 * 16), s + of_nat (n div 16 * 16),
    block_copied d s (n div 16 * 16) m)"
  using assms
proof (induction n d s m rule: copy_words16.induct)
  case (1 n d s m)
  show ?case
  proof (cases "n \<ge> 16")
    case True
    let ?m = "copy_word (d + 12) (s + 12) (copy_word (d + 8) (s + 8) (copy_word (d + 4) (s + 4) (copy_word d s m)))"
    have safe: "up_safe d s k" if "k \<le> n" for k using "1.prems"(1) that by (rule up_safe_mono)
    have "block_copied (d + of_nat 4) (s + of_nat 4) 4 (block_copied d s 4 m) = block_copied d s (4 + 4) m"
      "block_copied (d + of_nat 8) (s + of_nat 8) 4 (block_copied d s 8 m) = block_copied d s (8 + 4) m"
      "block_copied (d + of_nat 12) (s + of_nat 12) 4 (block_copied d s 12 m) = block_copied d s (12 + 4) m"
      using True by (intro block_copied_compose safe; simp)+
    then have m: "?m = block_copied d s 16 m" by (simp add: copy_word_block)
    have nx: "up_safe (d + 16) (s + 16) (n - 16)" "n - 16 < 2 ^ 32"
      using "1.prems" by (auto simp: up_safe_shift up_safe_mono)
    define k where "k = (n - 16) div 16 * 16"
    have k: "n div 16 * 16 = 16 + k" using True by (simp add: k_def le_div_geq)
    have kn: "16 + k \<le> n" unfolding k[symmetric] by simp
    have "block_copied (d + of_nat 16) (s + of_nat 16) k (block_copied d s 16 m) = block_copied d s (16 + k) m"
      using "1.prems"(2) kn by (intro block_copied_compose safe) simp_all
    moreover have "(n - 16) mod 16 = n mod 16" using True by (simp add: le_mod_geq)
    moreover have "copy_words16 n d s m = ((n - 16) mod 16, d + 16 + of_nat k, s + 16 + of_nat k,
        block_copied (d + 16) (s + 16) k ?m)"
      using "1.IH"[OF True nx] True by (subst copy_words16.simps) (simp add: k_def)
    ultimately show ?thesis by (simp add: k m add.assoc)
  next
    case False
    then show ?thesis by (subst copy_words16.simps) simp
  qed
qed

lemma copy_words4_block:
  assumes "up_safe d s n" "n < 2 ^ 32"
  shows "copy_words4 n d s m = (n mod 4, d + of_nat (n div 4 * 4), s + of_nat (n div 4 * 4),
    block_copied d s (n div 4 * 4) m)"
  using assms
proof (induction n d s m rule: copy_words4.induct)
  case (1 n d s m)
  show ?case
  proof (cases "n \<ge> 4")
    case True
    have nx: "up_safe (d + 4) (s + 4) (n - 4)" "n - 4 < 2 ^ 32"
      using "1.prems" by (auto simp: up_safe_shift up_safe_mono)
    define k where "k = (n - 4) div 4 * 4"
    have k: "n div 4 * 4 = 4 + k" using True by (simp add: k_def le_div_geq)
    have kn: "4 + k \<le> n" unfolding k[symmetric] by simp
    have "block_copied (d + of_nat 4) (s + of_nat 4) k (block_copied d s 4 m) = block_copied d s (4 + k) m"
      using "1.prems"(2) kn by (intro block_copied_compose up_safe_mono[OF "1.prems"(1)]) simp_all
    moreover have "(n - 4) mod 4 = n mod 4" using True by (simp add: le_mod_geq)
    moreover have "copy_words4 n d s m = ((n - 4) mod 4, d + 4 + of_nat k, s + 4 + of_nat k,
        block_copied (d + 4) (s + 4) k (copy_word d s m))"
      using "1.IH"[OF True nx] True by (subst copy_words4.simps) (simp add: k_def)
    ultimately show ?thesis by (simp add: k copy_word_block add.assoc)
  next
    case False
    then show ?thesis by (subst copy_words4.simps) simp
  qed
qed

lemma rt_memcpy_block:
  assumes safe: "up_safe dst src (unat count)"
    and al: "unat count < 2 ^ 31 \<or> (src AND 3) OR (dst AND 3) = 0"
  shows "rt_memcpy dst src count m = Some (block_copied dst src (unat count) m)"
proof -
  let ?n = "unat count"
  have n: "?n < 2 ^ 32" using unsigned_less[of count] by simp
  define a where "a = ?n div 16 * 16"
  define b where "b = ?n mod 16 div 4 * 4"
  define c where "c = ?n mod 16 mod 4"
  have sum: "a + b + c = ?n" unfolding a_def b_def c_def by presburger
  have 1: "copy_words16 ?n dst src m = (?n mod 16, dst + of_nat a, src + of_nat a, block_copied dst src a m)"
    unfolding a_def using n by (intro copy_words16_block safe) simp
  have 2: "copy_words4 (?n mod 16) (dst + of_nat a) (src + of_nat a) (block_copied dst src a m) =
      (c, dst + of_nat a + of_nat b, src + of_nat a + of_nat b,
       block_copied (dst + of_nat a) (src + of_nat a) b (block_copied dst src a m))"
    unfolding b_def c_def
    by (rule copy_words4_block) (use safe in \<open>auto simp: up_safe_shift intro: up_safe_mono\<close>)
  have 3: "block_copied (dst + of_nat a) (src + of_nat a) b (block_copied dst src a m) =
      block_copied dst src (a + b) m"
    using sum n by (intro block_copied_compose up_safe_mono[OF safe]) simp_all
  have 4: "copy_bytes c (dst + of_nat a + of_nat b) (src + of_nat a + of_nat b) (block_copied dst src (a + b) m) =
      block_copied dst src ?n m"
  proof -
    have "copy_bytes c (dst + of_nat (a + b)) (src + of_nat (a + b)) (block_copied dst src (a + b) m) =
        block_copied (dst + of_nat (a + b)) (src + of_nat (a + b)) c (block_copied dst src (a + b) m)"
      using sum n by (intro copy_bytes_block) (auto simp: up_safe_shift intro: up_safe_mono[OF safe])
    also have "\<dots> = block_copied dst src (a + b + c) m"
      using sum n by (intro block_copied_compose up_safe_mono[OF safe]) simp_all
    finally show ?thesis using sum by (simp add: add.assoc)
  qed
  show ?thesis
    using 1 2 3 4 n al copy_bytes_block[OF safe, of m]
    by (cases "?n \<ge> 16 \<and> (src AND 3) OR (dst AND 3) = 0") (auto simp: rt_memcpy_def Let_def)
qed

section \<open>Filling\<close>

lemma block_filled_compose:
  assumes "k + n \<le> 2 ^ 32" "k < 2 ^ 32"
  shows "block_filled (p + of_nat k) c n (block_filled p c k m) = block_filled p c (k + n) m"
proof
  fix a
  let ?x = "a - p"
  have k: "unat (of_nat k :: rt_uint32) = k" using assms by (simp add: unat_of_nat)
  have e: "a - (p + of_nat k) = ?x - of_nat k" by simp
  have lt: "(unat (?x - of_nat k) < n) = (k \<le> unat ?x \<and> unat ?x < k + n)"
    unfolding unat_sub32[of ?x "of_nat k"] k using assms by auto
  show "block_filled (p + of_nat k) c n (block_filled p c k m) a = block_filled p c (k + n) m a"
    unfolding block_filled_def e lt by auto
qed

lemma block_filled_0 [simp]: "block_filled p c 0 m = m"
  by (simp add: block_filled_def)

lemma block_filled_1: "block_filled p c 1 m = m(p := c)"
  by (auto simp: block_filled_def fun_eq_iff unat_eq_zero)

lemma fill_bytes_block: "n \<le> 2 ^ 32 \<Longrightarrow> fill_bytes n p c m = block_filled p c n m"
proof (induction n arbitrary: p m)
  case (Suc n)
  then have "fill_bytes (Suc n) p c m = block_filled (p + 1) c n (block_filled p c 1 m)"
    using block_filled_1 by simp
  then show ?case using block_filled_compose[of 1 n p c m] Suc.prems by simp
qed simp

text \<open>The word that rt\_memset builds has the byte four times.\<close>

lemma fill_buffer:
  fixes d :: rt_uint32
  assumes "d = w AND 0xff" "b = push_bit 8 d OR d" "b' = b OR push_bit 16 b"
  shows "ucast b' = (ucast d :: rt_uint8)" "ucast (drop_bit 8 b') = (ucast d :: rt_uint8)"
    "ucast (drop_bit 16 b') = (ucast d :: rt_uint8)" "ucast (drop_bit 24 b') = (ucast d :: rt_uint8)"
proof -
  have m: "(0xff :: rt_uint32) = mask 8" by (simp add: mask_eq_exp_minus_1)
  show "ucast b' = (ucast d :: rt_uint8)" "ucast (drop_bit 8 b') = (ucast d :: rt_uint8)"
    "ucast (drop_bit 16 b') = (ucast d :: rt_uint8)" "ucast (drop_bit 24 b') = (ucast d :: rt_uint8)"
    unfolding assms m by (rule bit_word_eqI; auto simp: bit_simps)+
qed

lemma store_fill:
  assumes "ucast b = c" "ucast (drop_bit 8 b) = c" "ucast (drop_bit 16 b) = c" "ucast (drop_bit 24 b) = c"
  shows "store32 p b m = block_filled p c 4 m"
proof
  fix a
  have "unat (a - p) < 4 \<longleftrightarrow> unat (a - p) \<in> {0, 1, 2, 3}" by auto
  then have "unat (a - p) < 4 \<longleftrightarrow> a - p = 0 \<or> a - p = 1 \<or> a - p = 2 \<or> a - p = 3"
    using word_unat_eq_iff[of "a - p" 0] word_unat_eq_iff[of "a - p" 1]
      word_unat_eq_iff[of "a - p" 2] word_unat_eq_iff[of "a - p" 3] by simp
  moreover have "a - p = k \<longleftrightarrow> a = p + k" for k by (auto simp: algebra_simps)
  ultimately show "store32 p b m a = block_filled p c 4 m a"
    using assms by (auto simp: store32_def block_filled_def)
qed

lemma fill_words16_block:
  assumes b: "\<And>p m. store32 p b m = block_filled p c 4 m" and n: "n < 2 ^ 32"
  shows "fill_words16 n p b m = (n mod 16, p + of_nat (n div 16 * 16), block_filled p c (n div 16 * 16) m)"
  using n
proof (induction n arbitrary: p m rule: less_induct)
  case (less n)
  show ?case
  proof (cases "n \<ge> 16")
    case True
    let ?m = "store32 (p + 12) b (store32 (p + 8) b (store32 (p + 4) b (store32 p b m)))"
    have "block_filled (p + of_nat 4) c 4 (block_filled p c 4 m) = block_filled p c (4 + 4) m"
      "block_filled (p + of_nat 8) c 4 (block_filled p c 8 m) = block_filled p c (8 + 4) m"
      "block_filled (p + of_nat 12) c 4 (block_filled p c 12 m) = block_filled p c (12 + 4) m"
      by (rule block_filled_compose; simp)+
    then have m: "?m = block_filled p c 16 m" by (simp add: b)
    define k where "k = (n - 16) div 16 * 16"
    have k: "n div 16 * 16 = 16 + k" using True by (simp add: k_def le_div_geq)
    have kn: "16 + k \<le> n" unfolding k[symmetric] by simp
    have "block_filled (p + of_nat 16) c k (block_filled p c 16 m) = block_filled p c (16 + k) m"
      using less.prems kn by (intro block_filled_compose) simp_all
    moreover have "(n - 16) mod 16 = n mod 16" using True by (simp add: le_mod_geq)
    moreover have "fill_words16 n p b m = ((n - 16) mod 16, p + 16 + of_nat k, block_filled (p + 16) c k ?m)"
      using less.IH[of "n - 16"] less.prems True by (subst fill_words16.simps) (simp add: k_def)
    ultimately show ?thesis by (simp add: k m add.assoc)
  next
    case False
    then show ?thesis by (subst fill_words16.simps) simp
  qed
qed

lemma fill_words4_block:
  assumes b: "\<And>p m. store32 p b m = block_filled p c 4 m" and n: "n < 2 ^ 32"
  shows "fill_words4 n p b m = (n mod 4, p + of_nat (n div 4 * 4), block_filled p c (n div 4 * 4) m)"
  using n
proof (induction n arbitrary: p m rule: less_induct)
  case (less n)
  show ?case
  proof (cases "n \<ge> 4")
    case True
    define k where "k = (n - 4) div 4 * 4"
    have k: "n div 4 * 4 = 4 + k" using True by (simp add: k_def le_div_geq)
    have kn: "4 + k \<le> n" unfolding k[symmetric] by simp
    have "block_filled (p + of_nat 4) c k (block_filled p c 4 m) = block_filled p c (4 + k) m"
      using less.prems kn by (intro block_filled_compose) simp_all
    moreover have "(n - 4) mod 4 = n mod 4" using True by (simp add: le_mod_geq)
    moreover have "fill_words4 n p b m = ((n - 4) mod 4, p + 4 + of_nat k, block_filled (p + 4) c k (store32 p b m))"
      using less.IH[of "n - 4"] less.prems True by (subst fill_words4.simps) (simp add: k_def)
    ultimately show ?thesis by (simp add: k b add.assoc)
  next
    case False
    then show ?thesis by (subst fill_words4.simps) simp
  qed
qed

lemma rt_memset_block: "rt_memset s c count m = block_filled s (word_of_int c) (unat count) m"
proof -
  let ?n = "unat count" and ?d = "word_of_int c AND 0xff :: rt_uint32"
  have n: "?n < 2 ^ 32" using unsigned_less[of count] by simp
  have d: "ucast ?d = (word_of_int c :: rt_uint8)"
  proof -
    have e: "(0xff :: rt_uint32) = mask 8" by (simp add: mask_eq_exp_minus_1)
    show ?thesis unfolding e by (rule bit_word_eqI) (auto simp: bit_simps)
  qed
  define b where "b = push_bit 8 ?d OR ?d"
  define b' where "b' = b OR push_bit 16 b"
  have st: "store32 p b' m = block_filled p (word_of_int c) 4 m" for p m
    using store_fill[OF fill_buffer[OF refl b_def b'_def]] d by simp
  define x where "x = ?n div 16 * 16"
  define y where "y = ?n mod 16 div 4 * 4"
  define z where "z = ?n mod 16 mod 4"
  have sum: "x + y + z = ?n" unfolding x_def y_def z_def by presburger
  have 1: "fill_words16 ?n s b' m = (?n mod 16, s + of_nat x, block_filled s (word_of_int c) x m)"
    unfolding x_def by (rule fill_words16_block[OF st n])
  have 2: "fill_words4 (?n mod 16) (s + of_nat x) b' (block_filled s (word_of_int c) x m) =
      (z, s + of_nat x + of_nat y, block_filled (s + of_nat x) (word_of_int c) y (block_filled s (word_of_int c) x m))"
    unfolding y_def z_def by (rule fill_words4_block[OF st]) simp
  have 3: "block_filled (s + of_nat x) (word_of_int c) y (block_filled s (word_of_int c) x m) =
      block_filled s (word_of_int c) (x + y) m"
    using sum n by (intro block_filled_compose) simp_all
  have 4: "fill_bytes z (s + of_nat x + of_nat y) (word_of_int c) (block_filled s (word_of_int c) (x + y) m) =
      block_filled s (word_of_int c) ?n m"
    using fill_bytes_block[of z "s + of_nat (x + y)"] block_filled_compose[of "x + y" z s] sum n
    by (simp add: add.assoc)
  have "rt_memset s c count m = (if ?n \<ge> 4 \<and> s AND 3 = 0
      then (case fill_words16 ?n s b' m of (n, p, m) \<Rightarrow>
        case fill_words4 n p b' m of (n, p, m) \<Rightarrow> fill_bytes n p (word_of_int c) m)
      else fill_bytes ?n s (word_of_int c) m)"
    unfolding rt_memset_def Let_def b'_def b_def d ..
  then show ?thesis using fill_bytes_block[of ?n s] n by (simp add: 1 2 3 4)
qed

section \<open>Moving and comparing\<close>

lemma rt_memmove_block:
  assumes "unat dest + unat n < 2 ^ 32" "unat src + unat n < 2 ^ 32"
  shows "rt_memmove dest src n m = block_copied dest src (unat n) m"
proof -
  have nb: "unat n < 2 ^ 32" using unsigned_less[of n] by simp
  have sn: "unat (src + n) = unat src + unat n"
    using assms(2) by (simp add: unat_word_ariths)
  have db: "unat dest < 2 ^ 32" "unat src < 2 ^ 32" using unsigned_less[of dest] unsigned_less[of src] by simp_all
  show ?thesis
  proof (cases "src < dest \<and> dest < src + n")
    case True
    then have lt: "unat src < unat dest" by (simp add: word_less_nat_alt)
    have u: "unat (src - dest) = 2 ^ 32 + unat src - unat dest"
      unfolding unat_sub32[of src dest] using lt by simp
    have "unat n \<le> unat (src - dest)" unfolding u using assms(1) by simp
    then show ?thesis
      using True copy_bytes_down_block[of src dest "unat n" m] nb by (simp add: rt_memmove_def)
  next
    case False
    then have c: "unat dest \<le> unat src \<or> unat src + unat n \<le> unat dest"
      using sn by (auto simp: word_less_nat_alt)
    have "dest = src \<or> unat n \<le> unat (dest - src)"
    proof (cases "unat src \<le> unat dest")
      case True
      then show ?thesis unfolding unat_sub32[of dest src] using c word_unat_eq_iff[of dest src] by auto
    next
      case False
      then show ?thesis unfolding unat_sub32[of dest src] using assms(2) by auto
    qed
    then show ?thesis
      using copy_bytes_block[of dest src "unat n" m] nb
      by (simp only: rt_memmove_def if_not_P[OF False]) (simp add: up_safe_def)
  qed
qed

lemma memcmp_bytes_zero: "(memcmp_bytes n a b m = 0) = (\<forall>i<n. m (a + of_nat i) = m (b + of_nat i))"
proof (induction n arbitrary: a b)
  case (Suc n)
  have "(\<forall>i<Suc n. m (a + of_nat i) = m (b + of_nat i)) =
      (m a = m b \<and> (\<forall>i<n. m (a + 1 + of_nat i) = m (b + 1 + of_nat i)))"
    by (auto simp: less_Suc_eq_0_disj add.assoc)
  moreover have "(uint (m a) - uint (m b) = 0) = (m a = m b)"
    unfolding word_uint_eq_iff by simp
  ultimately show ?case using Suc.IH[of "a + 1" "b + 1"] by (metis memcmp_bytes.simps(2))
qed simp

text \<open>C36. The memory routines on their word loops do what the byte loops they replace do: rt\_memcpy
  copies the block at any alignment whenever an upward byte copy is safe and then agrees with
  rt\_memmove and with the plain byte loop; rt\_memset fills exactly the bytes of the block with the
  lowest byte of its argument.\<close>

theorem rt_memcpy_equiv:
  assumes "up_safe dst src (unat count)" "unat count < 2 ^ 31"
    and "unat dst + unat count < 2 ^ 32" "unat src + unat count < 2 ^ 32"
  shows "rt_memcpy dst src count m = Some (copy_bytes (unat count) dst src m) \<and>
    rt_memcpy dst src count m = Some (rt_memmove dst src count m) \<and>
    rt_memset dst c count m = fill_bytes (unat count) dst (word_of_int c) m"
  using rt_memcpy_block[OF assms(1) disjI1[OF assms(2)]] copy_bytes_block[OF assms(1), of m] rt_memmove_block[OF assms(3,4)]
    rt_memset_block[of dst c count m] fill_bytes_block[of "unat count" dst "word_of_int c" m] assms(2)
  by simp

text \<open>rt\_memmove copies a block whose source and destination overlap in any way: every byte of
  the destination gets the byte its source had before the call and no other byte changes; and
  rt\_memcmp then finds the destination equal to a copy of the source taken before.\<close>

theorem rt_memmove_correct:
  assumes "unat dest + unat n < 2 ^ 32" "unat src + unat n < 2 ^ 32"
  shows "rt_memmove dest src n m (dest + k) = (if unat k < unat n then m (src + k) else m (dest + k)) \<and>
    (rt_memcmp a b n m = 0 \<longleftrightarrow> (\<forall>i<unat n. m (a + of_nat i) = m (b + of_nat i)))"
  by (simp add: rt_memmove_block[OF assms] block_copied_def rt_memcmp_def memcmp_bytes_zero)

lemma rt_memcpy_equiv_witness:
  "rt_memcpy 32 64 19 (\<lambda>a. ucast a) = Some (copy_bytes 19 32 64 (\<lambda>a. ucast a)) \<and>
   rt_memset 32 7 19 (\<lambda>a. ucast a) = fill_bytes 19 32 7 (\<lambda>a. ucast a)"
proof -
  have "up_safe 32 64 (unat (19 :: rt_uint32))" by (simp add: up_safe_def)
  from rt_memcpy_equiv[OF this, of "\<lambda>a. ucast a" 7] show ?thesis by simp
qed

lemma rt_memmove_correct_witness:
  "rt_memmove 34 32 8 (\<lambda>a. ucast a) (34 + 3) = 35 \<and> rt_memmove 34 32 8 (\<lambda>a. ucast a) (34 + 8) = 42"
  using rt_memmove_correct[of 34 8 32 "\<lambda>a. ucast a" 3 0 0] rt_memmove_correct[of 34 8 32 "\<lambda>a. ucast a" 8 0 0]
  by simp

end
