(* ===== verification/RT_Mem.thy ===== *)
theory RT_Mem
  imports RT_Sem RT_Memory
begin

text \<open>The small memory allocator of src/mem.c: the state of the heap, the operations between the
  take and the release of its semaphore, and the calls of rt\_malloc, rt\_free, rt\_realloc and
  rt\_calloc with the semaphore.

  A pointer to a header is its offset from \<^verbatim>\<open>heap_ptr\<close>, as the links of the headers are. The
  headers are kept apart from the other bytes of the heap; RT\_Mem\_Inv shows that they lie outside
  of every block that is in use.\<close>

section \<open>State\<close>

record heap_mem =
  hm_magic :: rt_uint16
  hm_used :: rt_uint16
  hm_next :: rt_size
  hm_prev :: rt_size

record heap =
  heap_ptr :: rt_uint32
  heap_end :: rt_size
  lfree :: rt_size
  mem_size_aligned :: rt_size
  used_mem :: rt_size
  max_mem :: rt_size
  hdr :: "rt_size \<Rightarrow> heap_mem"
  mem_bytes :: memory

definition HEAP_MAGIC :: rt_uint16 where "HEAP_MAGIC = 0x1ea0"

text \<open>\<^verbatim>\<open>MIN_SIZE_ALIGNED\<close> and \<^verbatim>\<open>SIZEOF_STRUCT_MEM\<close> are both 12.\<close>

definition MIN_SIZE_ALIGNED :: rt_size where "MIN_SIZE_ALIGNED = 12"
definition SIZEOF_STRUCT_MEM :: rt_size where "SIZEOF_STRUCT_MEM = 12"

definition upd_hdr :: "rt_size \<Rightarrow> (heap_mem \<Rightarrow> heap_mem) \<Rightarrow> heap \<Rightarrow> heap" where
  "upd_hdr o' f h = h\<lparr>hdr := (hdr h)(o' := f (hdr h o'))\<rparr>"

definition hused :: "heap \<Rightarrow> rt_size \<Rightarrow> bool" where
  "hused h m = (hm_used (hdr h m) \<noteq> 0)"

section \<open>Initialisation\<close>

definition rt_system_heap_init :: "rt_uint32 \<Rightarrow> rt_uint32 \<Rightarrow> nat \<Rightarrow> heap \<Rightarrow> kernel \<Rightarrow> (heap \<times> kernel) option" where
  "rt_system_heap_init begin_addr end_addr i h s =
    (let begin_align = RT_ALIGN begin_addr 4; end_align = RT_ALIGN_DOWN end_addr 4 in do {
     not_in_interrupt s;
     (if end_align > 2 * SIZEOF_STRUCT_MEM \<and> end_align - 2 * SIZEOF_STRUCT_MEM \<ge> begin_align then do {
        let h = h\<lparr>mem_size_aligned := end_align - begin_align - 2 * SIZEOF_STRUCT_MEM\<rparr>;
        let h = h\<lparr>heap_ptr := begin_align\<rparr>;
        let e = mem_size_aligned h + SIZEOF_STRUCT_MEM;
        let h = upd_hdr 0 (\<lambda>m. m\<lparr>hm_magic := HEAP_MAGIC, hm_next := e, hm_prev := 0, hm_used := 0\<rparr>) h;
        let h = h\<lparr>heap_end := e\<rparr>;
        let h = upd_hdr e (\<lambda>m. m\<lparr>hm_magic := HEAP_MAGIC, hm_used := 1, hm_next := e, hm_prev := e\<rparr>) h;
        (_, s) \<leftarrow> rt_sem_init i (map (\<lambda>c. of_nat (of_char c)) ''heap'') 1 RT_IPC_FLAG_FIFO s;
        Some (h\<lparr>lfree := 0\<rparr>, s) }
      else Some (h, s)) })"

section \<open>Holes\<close>

text \<open>Merging a free block with a free successor and a free predecessor.\<close>

definition plug_forward :: "rt_size \<Rightarrow> heap \<Rightarrow> heap" where
  "plug_forward m h =
    (let n = hm_next (hdr h m) in
     if m \<noteq> n \<and> \<not> hused h n \<and> n \<noteq> heap_end h then
       (let h = (if lfree h = n then h\<lparr>lfree := m\<rparr> else h);
            h = upd_hdr m (\<lambda>x. x\<lparr>hm_next := hm_next (hdr h n)\<rparr>) h
        in upd_hdr (hm_next (hdr h n)) (\<lambda>x. x\<lparr>hm_prev := m\<rparr>) h)
     else h)"

definition plug_backward :: "rt_size \<Rightarrow> heap \<Rightarrow> heap" where
  "plug_backward m h =
    (let p = hm_prev (hdr h m) in
     if p \<noteq> m \<and> \<not> hused h p then
       (let h = (if lfree h = m then h\<lparr>lfree := p\<rparr> else h);
            h = upd_hdr p (\<lambda>x. x\<lparr>hm_next := hm_next (hdr h m)\<rparr>) h
        in upd_hdr (hm_next (hdr h m)) (\<lambda>x. x\<lparr>hm_prev := p\<rparr>) h)
     else h)"

definition plug_holes :: "rt_size \<Rightarrow> heap \<Rightarrow> heap option" where
  "plug_holes m h = do {
     RT_ASSERT (heap_ptr h + m \<ge> heap_ptr h);
     RT_ASSERT (heap_ptr h + m < heap_ptr h + heap_end h);
     RT_ASSERT (\<not> hused h m);
     Some (plug_backward m (plug_forward m h)) }"

section \<open>Allocation\<close>

text \<open>The search from \<^verbatim>\<open>lfree\<close> for a free block that is large enough.\<close>

partial_function (option) mem_find :: "rt_size \<Rightarrow> rt_size \<Rightarrow> heap \<Rightarrow> rt_size option option" where
  "mem_find sz ptr h =
    (if ptr < mem_size_aligned h - sz
     then if \<not> hused h ptr \<and> hm_next (hdr h ptr) - (ptr + SIZEOF_STRUCT_MEM) \<ge> sz
       then Some (Some ptr) else mem_find sz (hm_next (hdr h ptr)) h
     else Some None)"

text \<open>The step to the next free block after the lowest one was taken.\<close>

partial_function (option) mem_skip :: "rt_size \<Rightarrow> heap \<Rightarrow> rt_size option" where
  "mem_skip p h =
    (if hused h p \<and> p \<noteq> heap_end h then mem_skip (hm_next (hdr h p)) h else Some p)"

definition note_max :: "heap \<Rightarrow> heap" where
  "note_max h = (if max_mem h < used_mem h then h\<lparr>max_mem := used_mem h\<rparr> else h)"

text \<open>Marking the chosen block used, split when the rest can hold a block.\<close>

definition mem_split :: "rt_size \<Rightarrow> rt_size \<Rightarrow> heap \<Rightarrow> heap" where
  "mem_split ptr ptr2 h =
    (let h = upd_hdr ptr2 (\<lambda>x. x\<lparr>hm_magic := HEAP_MAGIC, hm_used := 0,
           hm_next := hm_next (hdr h ptr), hm_prev := ptr\<rparr>) h
     in upd_hdr ptr (\<lambda>x. x\<lparr>hm_next := ptr2\<rparr>) h)"

definition mem_link_after :: "rt_size \<Rightarrow> heap \<Rightarrow> heap" where
  "mem_link_after ptr2 h =
    (if hm_next (hdr h ptr2) \<noteq> mem_size_aligned h + SIZEOF_STRUCT_MEM
     then upd_hdr (hm_next (hdr h ptr2)) (\<lambda>x. x\<lparr>hm_prev := ptr2\<rparr>) h else h)"

definition mem_use :: "rt_size \<Rightarrow> rt_size \<Rightarrow> heap \<Rightarrow> heap" where
  "mem_use sz ptr h =
    (let h = (if hm_next (hdr h ptr) - (ptr + SIZEOF_STRUCT_MEM) \<ge> sz + SIZEOF_STRUCT_MEM + MIN_SIZE_ALIGNED
        then (let ptr2 = ptr + SIZEOF_STRUCT_MEM + sz;
                  h = mem_split ptr ptr2 h;
                  h = upd_hdr ptr (\<lambda>x. x\<lparr>hm_used := 1\<rparr>) h;
                  h = mem_link_after ptr2 h
              in note_max (h\<lparr>used_mem := used_mem h + (sz + SIZEOF_STRUCT_MEM)\<rparr>))
        else (let h = upd_hdr ptr (\<lambda>x. x\<lparr>hm_used := 1\<rparr>) h
              in note_max (h\<lparr>used_mem := used_mem h + (hm_next (hdr h ptr) - ptr)\<rparr>)))
     in upd_hdr ptr (\<lambda>x. x\<lparr>hm_magic := HEAP_MAGIC\<rparr>) h)"

definition mem_lowest :: "rt_size \<Rightarrow> heap \<Rightarrow> heap option" where
  "mem_lowest ptr h =
    (if ptr = lfree h then do {
       l \<leftarrow> mem_skip (lfree h) h;
       RT_ASSERT (l = heap_end h \<or> \<not> hused h l);
       Some (h\<lparr>lfree := l\<rparr>) }
     else Some h)"

text \<open>The part of rt\_malloc under the semaphore: the offset of the block, if there is one.\<close>

definition mem_alloc :: "rt_size \<Rightarrow> heap \<Rightarrow> (rt_size option \<times> heap) option" where
  "mem_alloc sz h = do {
     r \<leftarrow> mem_find sz (lfree h) h;
     (case r of
        None \<Rightarrow> Some (None, h)
      | Some ptr \<Rightarrow> do {
          h \<leftarrow> mem_lowest ptr (mem_use sz ptr h);
          Some (Some ptr, h) }) }"

definition WAITING_FOREVER :: int where "WAITING_FOREVER = -1"

text \<open>What follows the take of the semaphore \<^verbatim>\<open>i\<close>, whose result the code does not look at.\<close>

definition rt_malloc_locked ::
    "nat \<Rightarrow> rt_size \<Rightarrow> heap \<Rightarrow> kernel \<Rightarrow> (rt_uint32 call \<times> heap \<times> kernel) option" where
  "rt_malloc_locked i sz h s = do {
     (r, h) \<leftarrow> mem_alloc sz h;
     (_, s) \<leftarrow> rt_sem_release i s;
     (case r of
        None \<Rightarrow> Some (Done 0, h, s)
      | Some ptr \<Rightarrow> do {
          let mem = heap_ptr h + ptr;
          RT_ASSERT (mem + SIZEOF_STRUCT_MEM + sz \<le> heap_ptr h + heap_end h);
          RT_ASSERT ((mem + SIZEOF_STRUCT_MEM) mod 4 = 0);
          RT_ASSERT (mem AND (4 - 1) = 0);
          Some (Done (mem + SIZEOF_STRUCT_MEM), h, s) }) }"

definition malloc_size :: "rt_size \<Rightarrow> rt_size" where
  "malloc_size sz =
    (let sz = RT_ALIGN sz 4 in if sz < MIN_SIZE_ALIGNED then MIN_SIZE_ALIGNED else sz)"

definition rt_malloc ::
    "nat \<Rightarrow> rt_size \<Rightarrow> heap \<Rightarrow> kernel \<Rightarrow> (rt_uint32 call \<times> heap \<times> kernel) option" where
  "rt_malloc i sz h s =
    (if sz = 0 then Some (Done 0, h, s) else do {
       not_in_interrupt s;
       (if RT_ALIGN sz 4 > mem_size_aligned h then Some (Done 0, h, s) else do {
          (r, s) \<leftarrow> rt_sem_take i WAITING_FOREVER s;
          (case r of
             Blocked \<Rightarrow> Some (Blocked, h, s)
           | Done _ \<Rightarrow> rt_malloc_locked i (malloc_size sz) h s) }) })"

section \<open>Release\<close>

definition mem_release :: "rt_size \<Rightarrow> heap \<Rightarrow> heap option" where
  "mem_release m h = do {
     RT_ASSERT (hused h m);
     RT_ASSERT (hm_magic (hdr h m) = HEAP_MAGIC);
     let h = upd_hdr m (\<lambda>x. x\<lparr>hm_used := 0, hm_magic := HEAP_MAGIC\<rparr>) h;
     let h = (if heap_ptr h + m < heap_ptr h + lfree h then h\<lparr>lfree := m\<rparr> else h);
     let h = h\<lparr>used_mem := used_mem h - (hm_next (hdr h m) - m)\<rparr>;
     plug_holes m h }"

definition rt_free_locked :: "nat \<Rightarrow> rt_size \<Rightarrow> heap \<Rightarrow> kernel \<Rightarrow> (unit call \<times> heap \<times> kernel) option" where
  "rt_free_locked i m h s = do {
     h \<leftarrow> mem_release m h;
     (_, s) \<leftarrow> rt_sem_release i s;
     Some (Done (), h, s) }"

definition rt_free :: "nat \<Rightarrow> rt_uint32 \<Rightarrow> heap \<Rightarrow> kernel \<Rightarrow> (unit call \<times> heap \<times> kernel) option" where
  "rt_free i rmem h s =
    (if rmem = 0 then Some (Done (), h, s) else do {
       not_in_interrupt s;
       RT_ASSERT (rmem AND (4 - 1) = 0);
       RT_ASSERT (rmem \<ge> heap_ptr h \<and> rmem < heap_ptr h + heap_end h);
       (if rmem < heap_ptr h \<or> rmem \<ge> heap_ptr h + heap_end h then Some (Done (), h, s) else do {
          (r, s) \<leftarrow> rt_sem_take i WAITING_FOREVER s;
          (case r of
             Blocked \<Rightarrow> Some (Blocked, h, s)
           | Done _ \<Rightarrow> rt_free_locked i (rmem - SIZEOF_STRUCT_MEM - heap_ptr h) h s) }) })"

section \<open>Changing the sz of a block\<close>

text \<open>Cutting a block down under the semaphore.\<close>

definition mem_shrink :: "rt_size \<Rightarrow> rt_size \<Rightarrow> heap \<Rightarrow> heap option" where
  "mem_shrink ptr newsize h =
    (let sz = hm_next (hdr h ptr) - ptr - SIZEOF_STRUCT_MEM;
         h = h\<lparr>used_mem := used_mem h - (sz - newsize)\<rparr>;
         ptr2 = ptr + SIZEOF_STRUCT_MEM + newsize
     in plug_holes ptr2 (mem_link_after ptr2 (mem_split ptr ptr2 h)))"

text \<open>After the new block was allocated: the copy and the release of the old one.\<close>

definition rt_realloc_moved ::
    "nat \<Rightarrow> rt_uint32 \<Rightarrow> rt_size \<Rightarrow> rt_size \<Rightarrow> rt_uint32 \<Rightarrow> heap \<Rightarrow> kernel \<Rightarrow> (rt_uint32 call \<times> heap \<times> kernel) option" where
  "rt_realloc_moved i rmem sz newsize nmem h s =
    (if nmem \<noteq> 0 then do {
       b \<leftarrow> rt_memcpy nmem rmem (if sz < newsize then sz else newsize) (mem_bytes h);
       (r, h, s) \<leftarrow> rt_free i rmem (h\<lparr>mem_bytes := b\<rparr>) s;
       Some (case r of Blocked \<Rightarrow> Blocked | Done _ \<Rightarrow> Done nmem, h, s) }
     else Some (Done nmem, h, s))"

definition rt_realloc_locked ::
    "nat \<Rightarrow> rt_uint32 \<Rightarrow> rt_size \<Rightarrow> heap \<Rightarrow> kernel \<Rightarrow> (rt_uint32 call \<times> heap \<times> kernel) option" where
  "rt_realloc_locked i rmem newsize h s =
    (if rmem < heap_ptr h \<or> rmem \<ge> heap_ptr h + heap_end h then do {
       (_, s) \<leftarrow> rt_sem_release i s;
       Some (Done rmem, h, s) }
     else
       (let ptr = rmem - SIZEOF_STRUCT_MEM - heap_ptr h;
            sz = hm_next (hdr h ptr) - ptr - SIZEOF_STRUCT_MEM in
        if sz = newsize then do {
          (_, s) \<leftarrow> rt_sem_release i s;
          Some (Done rmem, h, s) }
        else if newsize + SIZEOF_STRUCT_MEM + 12 < sz then do {
          h \<leftarrow> mem_shrink ptr newsize h;
          (_, s) \<leftarrow> rt_sem_release i s;
          Some (Done rmem, h, s) }
        else do {
          (_, s) \<leftarrow> rt_sem_release i s;
          (r, h, s) \<leftarrow> rt_malloc i newsize h s;
          (case r of
             Blocked \<Rightarrow> Some (Blocked, h, s)
           | Done nmem \<Rightarrow> rt_realloc_moved i rmem sz newsize nmem h s) }))"

definition rt_realloc ::
    "nat \<Rightarrow> rt_uint32 \<Rightarrow> rt_size \<Rightarrow> heap \<Rightarrow> kernel \<Rightarrow> (rt_uint32 call \<times> heap \<times> kernel) option" where
  "rt_realloc i rmem newsize h s =
    (let newsize = RT_ALIGN newsize 4 in do {
     not_in_interrupt s;
     (if newsize > mem_size_aligned h then Some (Done 0, h, s)
      else if newsize = 0 then do {
        (r, h, s) \<leftarrow> rt_free i rmem h s;
        Some (case r of Blocked \<Rightarrow> Blocked | Done _ \<Rightarrow> Done 0, h, s) }
      else if rmem = 0 then rt_malloc i newsize h s
      else do {
        (r, s) \<leftarrow> rt_sem_take i WAITING_FOREVER s;
        (case r of
           Blocked \<Rightarrow> Some (Blocked, h, s)
         | Done _ \<Rightarrow> rt_realloc_locked i rmem newsize h s) }) })"

definition rt_calloc_filled :: "rt_uint32 \<Rightarrow> rt_size \<Rightarrow> heap \<Rightarrow> heap" where
  "rt_calloc_filled p n h = (if p \<noteq> 0 then h\<lparr>mem_bytes := rt_memset p 0 n (mem_bytes h)\<rparr> else h)"

definition rt_calloc ::
    "nat \<Rightarrow> rt_size \<Rightarrow> rt_size \<Rightarrow> heap \<Rightarrow> kernel \<Rightarrow> (rt_uint32 call \<times> heap \<times> kernel) option" where
  "rt_calloc i count sz h s = do {
     (r, h, s) \<leftarrow> rt_malloc i (count * sz) h s;
     (case r of
        Blocked \<Rightarrow> Some (Blocked, h, s)
      | Done p \<Rightarrow> Some (Done p, rt_calloc_filled p (count * sz) h, s)) }"

definition rt_memory_info :: "heap \<Rightarrow> rt_uint32 \<times> rt_uint32 \<times> rt_uint32" where
  "rt_memory_info h = (mem_size_aligned h, used_mem h, max_mem h)"

end
