(* ===== verification/RT_Mem_Inv.thy ===== *)
theory RT_Mem_Inv
  imports RT_Mem
begin

text \<open>The heap of src/mem.c as a list of pieces in the order of their addresses, each used or free
  and with its size (header included), the relation between the list and the linked headers, the
  invariant of the allocator and what its critical sections do to the list.\<close>

section \<open>Pieces\<close>

type_synonym piece = "bool \<times> nat"

definition psize :: "piece list \<Rightarrow> nat" where
  "psize bs = sum_list (map snd bs)"

lemma psize_simps [simp]:
  "psize [] = 0" "psize ((u, n) # bs) = n + psize bs" "psize (xs @ ys) = psize xs + psize ys"
  by (simp_all add: psize_def)

fun lastoff :: "nat \<Rightarrow> nat \<Rightarrow> piece list \<Rightarrow> nat" where
  "lastoff p a [] = p"
| "lastoff p a ((u, n) # bs) = lastoff a (a + n) bs"

text \<open>The headers from offset \<^verbatim>\<open>a\<close> on describe the pieces; \<^verbatim>\<open>p\<close> is the offset of the piece before.\<close>

fun hseg :: "(rt_size \<Rightarrow> heap_mem) \<Rightarrow> nat \<Rightarrow> nat \<Rightarrow> piece list \<Rightarrow> bool" where
  "hseg H p a [] = True"
| "hseg H p a ((u, n) # bs) =
    (12 < n \<and> 4 dvd n \<and>
     H (of_nat a) = \<lparr>hm_magic = HEAP_MAGIC, hm_used = (if u then 1 else 0), hm_next = of_nat (a + n),
       hm_prev = of_nat p\<rparr> \<and>
     hseg H a (a + n) bs)"

lemma lastoff_append: "lastoff p a (xs @ ys) = lastoff (lastoff p a xs) (a + psize xs) ys"
  by (induction p a xs rule: lastoff.induct) (simp_all add: add.assoc)

lemma lastoff_snoc [simp]: "lastoff p a (xs @ [(u, n)]) = a + psize xs"
  by (simp add: lastoff_append)

lemma hseg_append:
  "hseg H p a (xs @ ys) = (hseg H p a xs \<and> hseg H (lastoff p a xs) (a + psize xs) ys)"
  by (induction H p a xs rule: hseg.induct) (simp_all add: add.assoc)

lemma hseg_total: "hseg H p a bs \<Longrightarrow> 12 * length bs \<le> psize bs"
  by (induction H p a bs rule: hseg.induct) simp_all

lemma hseg_dvd: "hseg H p a bs \<Longrightarrow> 4 dvd psize bs"
  by (induction H p a bs rule: hseg.induct) simp_all

text \<open>A write to a header outside of the segment, and a new predecessor for it.\<close>

lemma hseg_upd:
  assumes "hseg H p a bs" "a + psize bs < 2 ^ 32" "y < 2 ^ 32" "y < a \<or> a + psize bs \<le> y"
  shows "hseg (H(of_nat y := v)) p a bs"
  using assms
proof (induction H p a bs rule: hseg.induct)
  case (2 H p a u n bs)
  then have "(of_nat a :: 32 word) \<noteq> of_nat y" using of_nat32_inj[of a y] by auto
  moreover have "y < a + n \<or> a + n + psize bs \<le> y" "a + n + psize bs < 2 ^ 32" using 2 by auto
  ultimately show ?case using 2 by simp
qed simp

lemma hseg_relink:
  assumes "hseg H p a bs" "a + psize bs < 2 ^ 32"
  shows "hseg (H(of_nat a := (H (of_nat a))\<lparr>hm_prev := of_nat p'\<rparr>)) p' a bs"
proof (cases bs)
  case (Cons b bs')
  then obtain u n where b: "bs = (u, n) # bs'" by (cases b) auto
  then have "hseg H a (a + n) bs'" "0 < n" using assms(1) by auto
  then have "hseg (H(of_nat a := (H (of_nat a))\<lparr>hm_prev := of_nat p'\<rparr>)) a (a + n) bs'"
    using assms(2) b by (intro hseg_upd) auto
  then show ?thesis using assms(1) b by simp
qed simp

section \<open>Free pieces\<close>

fun frees :: "nat \<Rightarrow> piece list \<Rightarrow> nat set" where
  "frees a [] = {}"
| "frees a ((u, n) # bs) = (if u then frees (a + n) bs else insert a (frees (a + n) bs))"

lemma frees_append: "frees a (xs @ ys) = frees a xs \<union> frees (a + psize xs) ys"
  by (induction a xs rule: frees.induct) (simp_all add: add.assoc)

lemma frees_bounds: "x \<in> frees a bs \<Longrightarrow> a \<le> x"
  by (induction a bs rule: frees.induct) (auto split: if_splits)

lemma frees_less: "hseg H p a bs \<Longrightarrow> x \<in> frees a bs \<Longrightarrow> x + 12 \<le> a + psize bs"
  by (induction H p a bs rule: hseg.induct) (auto split: if_splits)

lemma frees_split:
  "x \<in> insert (a + psize bs) (frees a bs) \<Longrightarrow> \<exists>pre post. bs = pre @ post \<and> x = a + psize pre"
proof (induction a bs rule: frees.induct)
  case (2 a u n bs)
  show ?case
  proof (cases "x = a")
    case True
    then have "(u, n) # bs = [] @ (u, n) # bs \<and> x = a + psize []" by simp
    then show ?thesis by blast
  next
    case False
    then have "x \<in> insert (a + n + psize bs) (frees (a + n) bs)"
      using "2.prems" by (auto split: if_splits)
    then obtain pre post where "bs = pre @ post" "x = a + n + psize pre" using 2 by (cases u) blast+
    then have "(u, n) # bs = ((u, n) # pre) @ post \<and> x = a + psize ((u, n) # pre)" by simp
    then show ?thesis by blast
  qed
qed simp

lemma takeWhile_frees:
  "a + psize (takeWhile fst bs) \<in> insert (a + psize bs) (frees a bs)"
  "x \<in> frees a bs \<Longrightarrow> a + psize (takeWhile fst bs) \<le> x"
proof -
  show "a + psize (takeWhile fst bs) \<in> insert (a + psize bs) (frees a bs)"
    by (induction a bs rule: frees.induct) (auto simp: add.assoc)
  show "x \<in> frees a bs \<Longrightarrow> a + psize (takeWhile fst bs) \<le> x"
    using frees_bounds by (induction a bs rule: frees.induct) (fastforce split: if_splits)+
qed

section \<open>The invariant\<close>

definition used_size :: "piece list \<Rightarrow> nat" where
  "used_size bs = sum_list (map (\<lambda>(u, n). if u then n else 0) bs)"

definition no_holes :: "piece list \<Rightarrow> bool" where
  "no_holes bs = successively (\<lambda>x y. fst x \<or> fst y) bs"

text \<open>The shape of the heap: the headers describe the pieces, which fill the heap up to the end
  header. Two pieces next to each other may both be free here.\<close>

definition heap_shape :: "heap \<Rightarrow> piece list \<Rightarrow> bool" where
  "heap_shape h bs \<longleftrightarrow>
    hseg (hdr h) 0 0 bs \<and> psize bs = unat (mem_size_aligned h) + 12 \<and> 12 \<le> unat (mem_size_aligned h) \<and>
    heap_end h = of_nat (psize bs) \<and>
    hm_used (hdr h (heap_end h)) = 1 \<and> hm_next (hdr h (heap_end h)) = heap_end h \<and>
    0 < unat (heap_ptr h) \<and> 4 dvd unat (heap_ptr h) \<and> unat (heap_ptr h) + psize bs + 12 \<le> 2 ^ 32 \<and>
    unat (lfree h) \<in> insert (psize bs) (frees 0 bs) \<and>
    used_mem h = of_nat (used_size bs) \<and> used_mem h \<le> max_mem h"

definition heap_inv :: "heap \<Rightarrow> piece list \<Rightarrow> bool" where
  "heap_inv h bs \<longleftrightarrow> heap_shape h bs \<and> no_holes bs"

text \<open>\<^verbatim>\<open>lfree\<close> is the lowest free block.\<close>

definition lfree_lowest :: "heap \<Rightarrow> piece list \<Rightarrow> bool" where
  "lfree_lowest h bs \<longleftrightarrow> (\<forall>x \<in> frees 0 bs. unat (lfree h) \<le> x)"

lemma used_size_simps [simp]:
  "used_size [] = 0" "used_size ((u, n) # bs) = (if u then n else 0) + used_size bs"
  "used_size (xs @ ys) = used_size xs + used_size ys"
  by (simp_all add: used_size_def)

lemma used_size_total: "used_size bs \<le> psize bs"
  by (induction bs) auto

lemma heap_shapeD:
  assumes "heap_shape h bs"
  shows "hseg (hdr h) 0 0 bs" "psize bs = unat (mem_size_aligned h) + 12" "12 \<le> unat (mem_size_aligned h)"
    "heap_end h = of_nat (psize bs)" "psize bs + 12 < 2 ^ 32" "unat (heap_end h) = psize bs"
    "unat (lfree h) \<in> insert (psize bs) (frees 0 bs)" "hused h (heap_end h)"
    "unat (heap_ptr h) + psize bs + 12 \<le> 2 ^ 32"
proof -
  show "hseg (hdr h) 0 0 bs" "psize bs = unat (mem_size_aligned h) + 12" "12 \<le> unat (mem_size_aligned h)"
    "heap_end h = of_nat (psize bs)" "unat (lfree h) \<in> insert (psize bs) (frees 0 bs)"
    "unat (heap_ptr h) + psize bs + 12 \<le> 2 ^ 32"
    using assms unfolding heap_shape_def by blast+
  have "hm_used (hdr h (heap_end h)) = 1" using assms unfolding heap_shape_def by blast
  then show "hused h (heap_end h)" unfolding hused_def by (simp only:) simp
  show l: "psize bs + 12 < 2 ^ 32" using assms by (simp add: heap_shape_def)
  show "unat (heap_end h) = psize bs" using l \<open>heap_end h = of_nat (psize bs)\<close> by (simp add: unat_of_nat)
qed

section \<open>The search\<close>

text \<open>First fit on the list of pieces.\<close>

fun ffit :: "nat \<Rightarrow> nat \<Rightarrow> nat \<Rightarrow> piece list \<Rightarrow> nat option" where
  "ffit lim k a [] = None"
| "ffit lim k a ((u, n) # bs) =
    (if a < lim then (if \<not> u \<and> k + 12 \<le> n then Some a else ffit lim k (a + n) bs) else None)"

lemma ffit_Some:
  "ffit lim k a bs = Some c \<Longrightarrow>
    \<exists>xs n ys. bs = xs @ (False, n) # ys \<and> c = a + psize xs \<and> k + 12 \<le> n \<and> c < lim \<and>
      (\<forall>(u, m) \<in> set xs. u \<or> m < k + 12)"
proof (induction lim k a bs rule: ffit.induct)
  case (2 lim k a u n bs)
  show ?case
  proof (cases "\<not> u \<and> k + 12 \<le> n")
    case True
    then have "(u, n) # bs = [] @ (False, n) # bs \<and> c = a + psize [] \<and> k + 12 \<le> n \<and> c < lim"
      using "2.prems" by (auto split: if_splits)
    then show ?thesis by (metis empty_iff empty_set)
  next
    case False
    then have l: "a < lim" and r: "ffit lim k (a + n) bs = Some c"
      using "2.prems" by (auto split: if_splits)
    from "2.IH"[OF l False r] obtain xs m ys where
      x: "bs = xs @ (False, m) # ys" "c = a + n + psize xs" "k + 12 \<le> m" "c < lim"
        "\<forall>(u, m) \<in> set xs. u \<or> m < k + 12" by blast
    then have "(u, n) # bs = ((u, n) # xs) @ (False, m) # ys \<and> c = a + psize ((u, n) # xs) \<and> k + 12 \<le> m \<and>
        c < lim \<and> (\<forall>(u, m) \<in> set ((u, n) # xs). u \<or> m < k + 12)"
      using False by auto
    then show ?thesis by blast
  qed
qed simp

lemma ffit_None:
  "ffit lim k a bs = None \<Longrightarrow> bs = xs @ (False, n) # ys \<Longrightarrow> a + psize xs < lim \<Longrightarrow> n < k + 12"
proof (induction lim k a bs arbitrary: xs rule: ffit.induct)
  case (2 lim k a u n' bs)
  show ?case
  proof (cases xs)
    case Nil
    then show ?thesis using 2 by (auto split: if_splits)
  next
    case (Cons x xs')
    then have "x = (u, n')" "bs = xs' @ (False, n) # ys" using "2.prems"(2) by simp_all
    moreover have "a < lim" using "2.prems"(3) by simp
    ultimately show ?thesis using 2 Cons by (auto split: if_splits)
  qed
qed simp

lemma word_add12: "x + 12 < 2 ^ 32 \<Longrightarrow> (of_nat x :: rt_size) + SIZEOF_STRUCT_MEM = of_nat (x + 12)"
  by (simp add: SIZEOF_STRUCT_MEM_def)

lemma word_sub_nat: "y \<le> x \<Longrightarrow> (of_nat x :: rt_size) - of_nat y = of_nat (x - y)"
  by simp

lemma word_le_nat: "x < 2 ^ 32 \<Longrightarrow> (of_nat x \<ge> (w :: rt_size)) = (unat w \<le> x)"
  by (simp add: word_le_nat_alt unat_small32)

lemma mem_find_ffit:
  assumes "hseg (hdr h) p a bs" "a + psize bs = unat (mem_size_aligned h) + 12" "a + psize bs < 2 ^ 32"
    and "unat sz \<le> unat (mem_size_aligned h)"
  shows "mem_find sz (of_nat a) h =
    Some (map_option of_nat (ffit (unat (mem_size_aligned h) - unat sz) (unat sz) a bs))"
  using assms
proof (induction bs arbitrary: p a)
  case Nil
  have l: "unat (mem_size_aligned h - sz) = unat (mem_size_aligned h) - unat sz"
    using assms(4) by (simp add: unat_sub word_le_nat_alt)
  have "\<not> of_nat a < mem_size_aligned h - sz"
    unfolding word_less_nat_alt l unat_small32[OF Nil.prems(3)[simplified psize_simps add_0_right]]
    using Nil.prems(2) by simp
  then show ?case by (subst mem_find.simps) simp
next
  case (Cons b bs)
  obtain u n where b: "b = (u, n)" by (cases b)
  have l: "unat (mem_size_aligned h - sz) = unat (mem_size_aligned h) - unat sz"
    using assms(4) by (simp add: unat_sub word_le_nat_alt)
  have n: "12 \<le> n" and hd: "hdr h (of_nat a) = \<lparr>hm_magic = HEAP_MAGIC, hm_used = (if u then 1 else 0),
      hm_next = of_nat (a + n), hm_prev = of_nat p\<rparr>" and rest: "hseg (hdr h) a (a + n) bs"
    using Cons.prems(1) b by auto
  have lt: "a + n < 2 ^ 32" using Cons.prems(3) b by simp
  have c1: "(of_nat a < mem_size_aligned h - sz) = (a < unat (mem_size_aligned h) - unat sz)"
    unfolding word_less_nat_alt l using lt by (simp add: unat_small32)
  have c2: "hused h (of_nat a) = u" by (simp add: hused_def hd)
  have e: "(of_nat (a + n) :: rt_size) - (of_nat a + SIZEOF_STRUCT_MEM) = of_nat (n - 12)"
    using n lt by (subst word_add12) (auto simp del: of_nat_add simp: word_sub_nat)
  have c3: "(of_nat (a + n) - (of_nat a + SIZEOF_STRUCT_MEM) \<ge> sz) = (unat sz + 12 \<le> n)"
    unfolding e using n lt by (subst word_le_nat) auto
  have nx: "hm_next (hdr h (of_nat a)) = of_nat (a + n)" using hd by simp
  have ih: "mem_find sz (of_nat (a + n)) h =
      Some (map_option of_nat (ffit (unat (mem_size_aligned h) - unat sz) (unat sz) (a + n) bs))"
    by (rule Cons.IH[OF rest]) (use Cons.prems b in auto)
  show ?case
    unfolding b by (subst mem_find.simps) (simp only: c1 c2 c3 nx ih ffit.simps, simp)
qed

lemma mem_skip_used:
  assumes "hseg (hdr h) p a bs" "heap_end h = of_nat (a + psize bs)" "a + psize bs < 2 ^ 32"
  shows "mem_skip (of_nat a) h = Some (of_nat (a + psize (takeWhile fst bs)))"
  using assms
proof (induction bs arbitrary: p a)
  case Nil
  then show ?case by (subst mem_skip.simps) simp
next
  case (Cons b bs)
  obtain u n where b: "b = (u, n)" by (cases b)
  have n: "12 \<le> n" and hd: "hdr h (of_nat a) = \<lparr>hm_magic = HEAP_MAGIC, hm_used = (if u then 1 else 0),
      hm_next = of_nat (a + n), hm_prev = of_nat p\<rparr>" and rest: "hseg (hdr h) a (a + n) bs"
    using Cons.prems(1) b by auto
  have ne: "of_nat a \<noteq> heap_end h"
    unfolding Cons.prems(2) using Cons.prems(3) n b by (subst of_nat32_inj) auto
  have c2: "hused h (of_nat a) = u" by (simp add: hused_def hd)
  have nx: "hm_next (hdr h (of_nat a)) = of_nat (a + n)" using hd by simp
  have ih: "mem_skip (of_nat (a + n)) h = Some (of_nat (a + n + psize (takeWhile fst bs)))"
    by (rule Cons.IH[OF rest]) (use Cons.prems b in \<open>auto simp: add.assoc\<close>)
  show ?case
    unfolding b by (subst mem_skip.simps) (use ne in \<open>simp add: c2 nx ih add.assoc del: of_nat_add\<close>)
qed

section \<open>Marking and splitting\<close>

lemma hseg_at:
  "hseg H p a (pre @ (u, n) # post) =
    (hseg H p a pre \<and> 12 < n \<and> 4 dvd n \<and>
     H (of_nat (a + psize pre)) = \<lparr>hm_magic = HEAP_MAGIC, hm_used = (if u then 1 else 0),
       hm_next = of_nat (a + psize pre + n), hm_prev = of_nat (lastoff p a pre)\<rparr> \<and>
     hseg H (a + psize pre) (a + psize pre + n) post)"
  by (simp add: hseg_append)

lemma hseg_mark:
  assumes "hseg H 0 0 (pre @ (u, n) # post)" "psize (pre @ (u, n) # post) < 2 ^ 32"
    and Y: "Y = \<lparr>hm_magic = HEAP_MAGIC, hm_used = (if v then 1 else 0),
      hm_next = of_nat (psize pre + n), hm_prev = of_nat (lastoff 0 0 pre)\<rparr>"
  shows "hseg (H(of_nat (psize pre) := Y)) 0 0 (pre @ (v, n) # post)"
proof -
  have a: "hseg H 0 0 pre" "12 < n" "4 dvd n" "hseg H (psize pre) (psize pre + n) post"
    using assms(1) by (simp_all add: hseg_append)
  have "hseg (H(of_nat (psize pre) := Y)) 0 0 pre"
    using assms(2) by (intro hseg_upd[OF a(1)]) auto
  moreover have "hseg (H(of_nat (psize pre) := Y)) (psize pre) (psize pre + n) post"
    using assms(2) a(2) by (intro hseg_upd[OF a(4)]) auto
  ultimately show ?thesis using a(2,3) Y by (simp add: hseg_at del: fun_upd_apply) simp
qed

lemma hseg_split:
  assumes "hseg H 0 0 (pre @ (u, n) # post)" "psize (pre @ (u, n) # post) < 2 ^ 32"
    and k: "12 < k" "4 dvd k" "k + 12 < n"
    and X: "X = \<lparr>hm_magic = HEAP_MAGIC, hm_used = 0, hm_next = of_nat (psize pre + n), hm_prev = of_nat (psize pre)\<rparr>"
    and Y: "Y = \<lparr>hm_magic = HEAP_MAGIC, hm_used = (if v then 1 else 0),
      hm_next = of_nat (psize pre + k), hm_prev = of_nat (lastoff 0 0 pre)\<rparr>"
    and H2: "H2 = H(of_nat (psize pre + k) := X, of_nat (psize pre) := Y)"
    and H3: "H3 = (if post = [] then H2 else
      H2(of_nat (psize pre + n) := (H2 (of_nat (psize pre + n)))\<lparr>hm_prev := of_nat (psize pre + k)\<rparr>))"
  shows "hseg H3 0 0 (pre @ (v, k) # (False, n - k) # post)"
proof -
  let ?c = "psize pre"
  have a: "hseg H 0 0 pre" "12 \<le> n" "4 dvd n" "hseg H ?c (?c + n) post"
    using assms(1) by (simp_all add: hseg_append)
  have lt: "?c + n + psize post < 2 ^ 32" using assms(2) by simp
  have d: "(of_nat (?c + k) :: 32 word) \<noteq> of_nat ?c" "(of_nat (?c + n) :: 32 word) \<noteq> of_nat ?c"
    "(of_nat (?c + k) :: 32 word) \<noteq> of_nat (?c + n)"
    using lt k by (subst of_nat32_inj; simp)+
  have pre2: "hseg H2 0 0 pre" unfolding H2 using lt k by (intro hseg_upd a(1)) auto
  have post2: "hseg H2 ?c (?c + n) post" unfolding H2 using lt k by (intro hseg_upd a(4)) auto
  have pre3: "hseg H3 0 0 pre" unfolding H3 using lt k pre2 by (auto intro!: hseg_upd simp del: of_nat_add)
  have post3: "hseg H3 (?c + k) (?c + n) post"
    unfolding H3 using hseg_relink[OF post2 lt, of "?c + k"] by (cases post) (auto simp del: of_nat_add)
  have "H3 (of_nat ?c) = Y" "H3 (of_nat (?c + k)) = X"
    unfolding H3 H2 using d by (simp_all del: of_nat_add)
  moreover have "4 dvd n - k" using a(3) k(2) by simp
  moreover have "?c + k + (n - k) = ?c + n" using k by simp
  ultimately show ?thesis
    unfolding hseg_at hseg.simps X Y using k pre3 post3 by (simp del: of_nat_add)
qed

text \<open>The pieces of a block of \<^verbatim>\<open>n\<close> bytes that is taken for \<^verbatim>\<open>k\<close> bytes of data.\<close>

definition use_piece :: "nat \<Rightarrow> nat \<Rightarrow> piece list" where
  "use_piece k n = (if k + 36 \<le> n then [(True, k + 12), (False, n - (k + 12))] else [(True, n)])"

lemma note_max_simps [simp]:
  "hdr (note_max h) = hdr h" "heap_ptr (note_max h) = heap_ptr h" "heap_end (note_max h) = heap_end h"
  "lfree (note_max h) = lfree h" "mem_size_aligned (note_max h) = mem_size_aligned h"
  "used_mem (note_max h) = used_mem h" "mem_bytes (note_max h) = mem_bytes h"
  "used_mem (note_max h) \<le> max_mem (note_max h)"
  by (auto simp: note_max_def)

lemma upd_hdr_simps [simp]:
  "hdr (upd_hdr m f h) = (hdr h)(m := f (hdr h m))" "heap_ptr (upd_hdr m f h) = heap_ptr h"
  "heap_end (upd_hdr m f h) = heap_end h" "lfree (upd_hdr m f h) = lfree h"
  "mem_size_aligned (upd_hdr m f h) = mem_size_aligned h" "used_mem (upd_hdr m f h) = used_mem h"
  "max_mem (upd_hdr m f h) = max_mem h" "mem_bytes (upd_hdr m f h) = mem_bytes h"
  by (simp_all add: upd_hdr_def)

lemma mem_link_after_simps [simp]:
  "heap_ptr (mem_link_after m h) = heap_ptr h"
  "heap_end (mem_link_after m h) = heap_end h" "lfree (mem_link_after m h) = lfree h"
  "mem_size_aligned (mem_link_after m h) = mem_size_aligned h" "used_mem (mem_link_after m h) = used_mem h"
  "max_mem (mem_link_after m h) = max_mem h" "mem_bytes (mem_link_after m h) = mem_bytes h"
  by (simp_all add: mem_link_after_def)

lemma mem_split_simps [simp]:
  "heap_ptr (mem_split m q h) = heap_ptr h"
  "heap_end (mem_split m q h) = heap_end h" "lfree (mem_split m q h) = lfree h"
  "mem_size_aligned (mem_split m q h) = mem_size_aligned h" "used_mem (mem_split m q h) = used_mem h"
  "max_mem (mem_split m q h) = max_mem h" "mem_bytes (mem_split m q h) = mem_bytes h"
  by (simp_all add: mem_split_def)

lemma mem_use_frame [simp]:
  "heap_ptr (mem_use k p h) = heap_ptr h" "heap_end (mem_use k p h) = heap_end h"
  "lfree (mem_use k p h) = lfree h" "mem_size_aligned (mem_use k p h) = mem_size_aligned h"
  "mem_bytes (mem_use k p h) = mem_bytes h"
  by (simp_all add: mem_use_def Let_def)

lemma mem_use_max: "used_mem (mem_use k p h) \<le> max_mem (mem_use k p h)"
  by (auto simp: mem_use_def Let_def note_max_def)

lemma mem_use_pieces:
  assumes seg: "hseg (hdr h) 0 0 (pre @ (False, n) # post)"
    and tot: "psize (pre @ (False, n) # post) = unat (mem_size_aligned h) + 12"
    and lt: "psize (pre @ (False, n) # post) + 12 < 2 ^ 32"
    and k: "12 \<le> unat sz" "4 dvd unat sz" "unat sz + 12 \<le> n" and c: "c = psize pre"
    and he: "heap_end h = of_nat (psize (pre @ (False, n) # post))"
  shows "hseg (hdr (mem_use sz (of_nat c) h)) 0 0 (pre @ use_piece (unat sz) n @ post)"
    "used_mem (mem_use sz (of_nat c) h) = used_mem h + of_nat (used_size (use_piece (unat sz) n))"
    "hdr (mem_use sz (of_nat c) h) (heap_end h) = hdr h (heap_end h)"
proof -
  let ?k = "unat sz"
  have sz: "sz = of_nat ?k" by simp
  have hc: "hdr h (of_nat c) = \<lparr>hm_magic = HEAP_MAGIC, hm_used = 0, hm_next = of_nat (c + n),
      hm_prev = of_nat (lastoff 0 0 pre)\<rparr>"
    using seg by (simp add: hseg_append c)
  have b: "c + n + psize post + 12 < 2 ^ 32" using lt c by simp
  have e1: "hm_next (hdr h (of_nat c)) - (of_nat c + SIZEOF_STRUCT_MEM) = of_nat (n - 12)"
  proof -
    have "of_nat (c + n) - (of_nat (c + 12) :: rt_size) = of_nat (c + n - (c + 12))"
      using k by (intro word_sub_nat) simp
    then show ?thesis using b hc by (subst word_add12) (simp_all del: of_nat_add)
  qed
  have e2: "sz + SIZEOF_STRUCT_MEM + MIN_SIZE_ALIGNED = of_nat (?k + 24)"
    by (simp add: SIZEOF_STRUCT_MEM_def MIN_SIZE_ALIGNED_def)
  have e3: "of_nat c + SIZEOF_STRUCT_MEM + sz = of_nat (c + (?k + 12))"
    by (simp add: SIZEOF_STRUCT_MEM_def)
  have big: "(hm_next (hdr h (of_nat c)) - (of_nat c + SIZEOF_STRUCT_MEM) \<ge> sz + SIZEOF_STRUCT_MEM + MIN_SIZE_ALIGNED)
      = (?k + 36 \<le> n)"
    unfolding e1 e2 using b k by (subst word_le_nat) (auto simp: unat_small32 simp del: of_nat_add)
  have en: "heap_end h = of_nat (c + n + psize post)" using he c by (simp add: add.assoc)
  have ne: "(of_nat c :: rt_size) \<noteq> heap_end h"
    unfolding en using b k by (subst of_nat32_inj) auto
  show "hseg (hdr (mem_use sz (of_nat c) h)) 0 0 (pre @ use_piece ?k n @ post)"
    "used_mem (mem_use sz (of_nat c) h) = used_mem h + of_nat (used_size (use_piece ?k n))"
    "hdr (mem_use sz (of_nat c) h) (heap_end h) = hdr h (heap_end h)"
  proof -
    show "hseg (hdr (mem_use sz (of_nat c) h)) 0 0 (pre @ use_piece ?k n @ post)"
    proof (cases "?k + 36 \<le> n")
      case True
      let ?c2 = "of_nat (c + (?k + 12)) :: rt_size" and ?e = "of_nat (c + n) :: rt_size"
      have d: "?c2 \<noteq> of_nat c" "?c2 \<noteq> ?e" "of_nat c \<noteq> ?e"
        using b True k by (subst of_nat32_inj; simp)+
      have last: "(?e = mem_size_aligned h + SIZEOF_STRUCT_MEM) = (post = [])"
      proof -
        have "mem_size_aligned h + SIZEOF_STRUCT_MEM = of_nat (unat (mem_size_aligned h) + 12)"
          by (simp add: SIZEOF_STRUCT_MEM_def)
        then have "(?e = mem_size_aligned h + SIZEOF_STRUCT_MEM) = (c + n = c + n + psize post)"
          using tot c b by (simp only:, subst of_nat32_inj) auto
        moreover have "(psize post = 0) = (post = [])"
          using seg hseg_total[of "hdr h" c "c + n" post] by (auto simp: hseg_append c)
        ultimately show ?thesis by simp
      qed
      let ?X = "\<lparr>hm_magic = HEAP_MAGIC, hm_used = 0, hm_next = of_nat (c + n), hm_prev = of_nat c\<rparr>"
      let ?Y = "\<lparr>hm_magic = HEAP_MAGIC, hm_used = 1, hm_next = ?c2, hm_prev = of_nat (lastoff 0 0 pre)\<rparr>"
      let ?H2 = "(hdr h)(?c2 := ?X, of_nat c := ?Y)"
      let ?H3 = "if post = [] then ?H2 else ?H2(?e := (?H2 ?e)\<lparr>hm_prev := ?c2\<rparr>)"
      have hd: "hdr (mem_use sz (of_nat c) h) = ?H3"
        unfolding mem_use_def big e3 Let_def if_P[OF True]
        using d last
        by (auto simp: mem_split_def mem_link_after_def hc fun_eq_iff simp del: of_nat_add)
      have "hseg ?H3 0 0 (pre @ (True, ?k + 12) # (False, n - (?k + 12)) # post)"
        by (rule hseg_split[OF seg, of "?k + 12" ?X ?Y True ?H2])
          (use True k lt c in \<open>simp_all del: of_nat_add fun_upd_apply\<close>)
      then show ?thesis unfolding hd use_piece_def if_P[OF True] by simp
    next
      case False
      let ?Y = "\<lparr>hm_magic = HEAP_MAGIC, hm_used = 1, hm_next = of_nat (c + n), hm_prev = of_nat (lastoff 0 0 pre)\<rparr>"
      have hd: "hdr (mem_use sz (of_nat c) h) = (hdr h)(of_nat c := ?Y)"
        unfolding mem_use_def big Let_def if_not_P[OF False]
        by (simp add: hc del: of_nat_add)
      have "hseg ((hdr h)(of_nat (psize pre) := ?Y)) 0 0 (pre @ (True, n) # post)"
        by (rule hseg_mark[OF seg]) (use lt c in \<open>simp_all del: of_nat_add\<close>)
      then show ?thesis unfolding use_piece_def if_not_P[OF False] using hd c by (simp del: of_nat_add)
    qed
    show "used_mem (mem_use sz (of_nat c) h) = used_mem h + of_nat (used_size (use_piece ?k n))"
    proof (cases "?k + 36 \<le> n")
      case True
      then show ?thesis
        unfolding mem_use_def big Let_def if_P[OF True]
        by (simp add: use_piece_def SIZEOF_STRUCT_MEM_def)
    next
      case False
      then show ?thesis unfolding mem_use_def big Let_def if_not_P[OF False] by (simp add: use_piece_def hc)
    qed
    show "hdr (mem_use sz (of_nat c) h) (heap_end h) = hdr h (heap_end h)"
    proof (cases "?k + 36 \<le> n")
      case True
      have d: "(of_nat (c + (?k + 12)) :: rt_size) \<noteq> heap_end h" "(of_nat (c + (?k + 12)) :: rt_size) \<noteq> of_nat c"
        unfolding en using b k True by (subst of_nat32_inj; simp)+
      have m: "mem_size_aligned h + SIZEOF_STRUCT_MEM = heap_end h"
        using tot he by (simp add: SIZEOF_STRUCT_MEM_def)
      show ?thesis unfolding mem_use_def big e3 Let_def if_P[OF True] using d ne
        by (auto simp: mem_split_def mem_link_after_def hc m simp del: of_nat_add)
    next
      case False
      then show ?thesis unfolding mem_use_def big Let_def if_not_P[OF False] using ne by simp
    qed
  qed
qed

end
