(* ===== verification/RT_Mem_Ops.thy ===== *)
theory RT_Mem_Ops
  imports RT_Mem_Inv
begin

text \<open>The critical sections of the allocator on the list of pieces: allocation, release with the
  merging of holes, cutting a block down, and the fresh heap.\<close>

section \<open>Allocation on the pieces\<close>

lemma no_holes_use:
  "no_holes (pre @ (False, n) # post) \<Longrightarrow> no_holes (pre @ use_piece k n @ post)"
  by (auto simp: no_holes_def use_piece_def successively_append_iff successively_Cons)

lemma used_size_use: "used_size (use_piece k n) \<le> n" "psize (use_piece k n) = n"
  by (auto simp: use_piece_def)

lemma frees_use:
  "frees a (pre @ use_piece k n @ post) =
    frees a pre \<union> frees (a + psize pre) (use_piece k n) \<union> frees (a + psize pre + n) post"
  by (simp add: frees_append used_size_use add.assoc Un_assoc)

lemma frees_piece:
  "frees a (pre @ (False, n) # post) = frees a pre \<union> {a + psize pre} \<union> frees (a + psize pre + n) post"
  by (auto simp: frees_append)

lemma frees_le:
  assumes "hseg H 0 0 bs" "x \<in> insert (psize bs) (frees 0 bs)"
  shows "x \<le> psize bs"
  using frees_less[OF assms(1), of x] assms(2) by auto

lemma mem_use_inv:
  assumes inv: "heap_inv h (pre @ (False, n) # post)"
    and k: "12 \<le> unat sz" "4 dvd unat sz" "unat sz + 12 \<le> n"
    and l: "l \<in> insert (psize (pre @ (False, n) # post)) (frees 0 (pre @ use_piece (unat sz) n @ post))"
  defines "h' \<equiv> mem_use sz (of_nat (psize pre)) h\<lparr>lfree := of_nat l\<rparr>"
  shows "heap_inv h' (pre @ use_piece (unat sz) n @ post)" "unat (lfree h') = l"
    "hseg (hdr h') 0 0 (pre @ use_piece (unat sz) n @ post)"
proof -
  have sh: "heap_shape h (pre @ (False, n) # post)" and nh: "no_holes (pre @ (False, n) # post)"
    using inv by (simp_all add: heap_inv_def)
  note D = heap_shapeD[OF sh]
  note U = mem_use_pieces[OF D(1,2,5) k refl D(4)]
  have size: "psize (pre @ use_piece (unat sz) n @ post) = psize (pre @ (False, n) # post)"
    by (simp add: used_size_use)
  have "l \<le> psize (pre @ (False, n) # post)" using frees_le[OF U(1)] l size by metis
  then have l32: "l < 2 ^ 32" using D(5) by simp
  then show ul: "unat (lfree h') = l" by (simp add: h'_def unat_small32)
  have "used_mem h = of_nat (used_size (pre @ (False, n) # post))" using sh by (simp add: heap_shape_def)
  then have used: "used_mem h' = of_nat (used_size (pre @ use_piece (unat sz) n @ post))"
    unfolding h'_def by (simp add: U(2))
  have fields: "heap_ptr h' = heap_ptr h" "heap_end h' = heap_end h" "mem_size_aligned h' = mem_size_aligned h"
    "hdr h' = hdr (mem_use sz (of_nat (psize pre)) h)" "used_mem h' \<le> max_mem h'"
    by (simp_all add: h'_def mem_use_max)
  obtain bs where bs: "bs = pre @ (False, n) # post" by simp
  note S = sh[folded bs, unfolded heap_shape_def] and U3 = U(3) and l' = l[folded bs] and sz' = size[folded bs]
  have ends: "hm_used (hdr (mem_use sz (of_nat (psize pre)) h) (heap_end h)) = 1"
    "hm_next (hdr (mem_use sz (of_nat (psize pre)) h) (heap_end h)) = heap_end h"
    unfolding U3 using S by blast+
  have "heap_shape h' (pre @ use_piece (unat sz) n @ post)"
    unfolding heap_shape_def sz' used[symmetric] ul fields(1-4) using S U(1) ends l' fields(5) by blast
  then show "heap_inv h' (pre @ use_piece (unat sz) n @ post)"
    using no_holes_use[OF nh] by (simp add: heap_inv_def)
  show "hseg (hdr h') 0 0 (pre @ use_piece (unat sz) n @ post)" unfolding fields by (rule U(1))
qed

text \<open>Two ways to cut the pieces.\<close>

lemma cut_order:
  assumes "hseg H 0 0 bs" "bs = p0 @ q0" "bs = pre @ (u, n) # post" "psize p0 \<le> psize pre"
  shows "\<exists>xs. pre = p0 @ xs \<and> q0 = xs @ (u, n) # post"
proof -
  obtain us where "p0 = pre @ us \<and> us @ q0 = (u, n) # post \<or> p0 @ us = pre \<and> q0 = us @ (u, n) # post"
    using assms(2,3) append_eq_append_conv2[of p0 q0 pre "(u, n) # post"] by auto
  then show ?thesis
  proof (elim disjE conjE)
    assume u: "p0 = pre @ us" "us @ q0 = (u, n) # post"
    have "us = []"
    proof (cases us)
      case (Cons a us')
      then have "a = (u, n)" using u by simp
      then have "n = 0" using assms(4) u Cons by simp
      moreover have "12 \<le> n" using assms(1,3) by (simp add: hseg_append)
      ultimately show ?thesis by simp
    qed
    with u show ?thesis by simp
  qed blast
qed

lemma lfree_cut:
  assumes "heap_shape h bs"
  shows "\<exists>p0 q0. bs = p0 @ q0 \<and> unat (lfree h) = psize p0 \<and> lfree h = of_nat (psize p0)"
proof -
  obtain p0 q0 where "bs = p0 @ q0" "unat (lfree h) = psize p0"
    using frees_split[of "unat (lfree h)" 0 bs] heap_shapeD(7)[OF assms] by auto
  moreover from this have "lfree h = of_nat (psize p0)" unfolding \<open>unat (lfree h) = psize p0\<close>[symmetric] by simp
  ultimately show ?thesis by blast
qed

text \<open>Nothing is free below \<^verbatim>\<open>lfree\<close> when it is the lowest free block.\<close>

lemma lowest_prefix:
  assumes "hseg H 0 0 (p0 @ q0)" "\<forall>y \<in> frees 0 (p0 @ q0). psize p0 \<le> y"
  shows "frees 0 p0 = {}"
proof -
  have p: "hseg H 0 0 p0" using assms(1) by (simp add: hseg_append)
  have "x \<notin> frees 0 p0" for x
  proof
    assume x: "x \<in> frees 0 p0"
    then have "psize p0 \<le> x" using assms(2) by (simp add: frees_append)
    then show False using frees_less[OF p x] by simp
  qed
  then show ?thesis by blast
qed

lemma mem_take_first:
  assumes inv: "heap_inv h (p0 @ (False, n) # ys)" and L: "unat (lfree h) = psize p0"
    and k: "12 \<le> unat sz" "4 dvd unat sz" "unat sz + 12 \<le> n"
  defines "l \<equiv> psize p0 + psize (takeWhile fst (use_piece (unat sz) n @ ys))"
  shows "mem_lowest (of_nat (psize p0)) (mem_use sz (of_nat (psize p0)) h) =
      Some (mem_use sz (of_nat (psize p0)) h\<lparr>lfree := of_nat l\<rparr>)"
    "l \<in> insert (psize (p0 @ (False, n) # ys)) (frees 0 (p0 @ use_piece (unat sz) n @ ys))"
    "lfree_lowest h (p0 @ (False, n) # ys) \<Longrightarrow> \<forall>y \<in> frees 0 (p0 @ use_piece (unat sz) n @ ys). l \<le> y"
proof -
  let ?b = "use_piece (unat sz) n @ ys" and ?u = "mem_use sz (of_nat (psize p0)) h"
  have sh: "heap_shape h (p0 @ (False, n) # ys)" using inv by (simp add: heap_inv_def)
  note D = heap_shapeD[OF sh]
  note U = mem_use_pieces[OF D(1,2,5) k refl D(4)]
  have Lw: "lfree ?u = of_nat (psize p0)" unfolding L[symmetric] by simp
  have seg: "hseg (hdr ?u) (lastoff 0 0 p0) (psize p0) ?b" using U(1) by (simp add: hseg_append)
  have size: "psize p0 + psize ?b = psize (p0 @ (False, n) # ys)" by (simp add: used_size_use)
  have he: "heap_end ?u = of_nat (psize p0 + psize ?b)" unfolding size by (simp only: D(4) mem_use_frame)
  have sk: "mem_skip (lfree ?u) ?u = Some (of_nat l)"
    unfolding Lw l_def by (rule mem_skip_used[OF seg he]) (use D(5) size in linarith)
  have "of_nat l = heap_end ?u \<or> \<not> hused ?u (of_nat l)"
  proof (cases "dropWhile fst ?b")
    case Nil
    then have tw: "takeWhile fst ?b = ?b" by (metis append_Nil2 takeWhile_dropWhile_id)
    show ?thesis unfolding he l_def tw by simp
  next
    case (Cons z zs')
    then have "\<not> fst z" using hd_dropWhile[of fst ?b] by simp
    then obtain m where m: "z = (False, m)" by (cases z) auto
    have "?b = takeWhile fst ?b @ (False, m) # zs'" using Cons m by (metis takeWhile_dropWhile_id)
    with seg have "hseg (hdr ?u) (lastoff 0 0 p0) (psize p0) (takeWhile fst ?b @ (False, m) # zs')" by simp
    then show ?thesis unfolding hseg_at by (simp add: hused_def l_def)
  qed
  then show "mem_lowest (of_nat (psize p0)) ?u = Some (?u\<lparr>lfree := of_nat l\<rparr>)"
    using sk Lw by (simp add: mem_lowest_def)
  show "l \<in> insert (psize (p0 @ (False, n) # ys)) (frees 0 (p0 @ ?b))"
    using takeWhile_frees(1)[of "psize p0" ?b] unfolding l_def size[symmetric] frees_append[of 0 p0] by auto
  assume "lfree_lowest h (p0 @ (False, n) # ys)"
  then have "frees 0 p0 = {}"
    using lowest_prefix[OF D(1)] L by (simp add: lfree_lowest_def)
  then show "\<forall>y \<in> frees 0 (p0 @ ?b). l \<le> y"
    unfolding l_def using takeWhile_frees(2) by (simp add: frees_append[of 0 p0])
qed

lemma mem_take_later:
  assumes inv: "heap_inv h (p0 @ xs @ (False, n) # ys)" and L: "unat (lfree h) = psize p0" and x: "xs \<noteq> []"
    and k: "12 \<le> unat sz" "4 dvd unat sz" "unat sz + 12 \<le> n"
  defines "c \<equiv> of_nat (psize (p0 @ xs))"
  shows "mem_lowest c (mem_use sz c h) = Some (mem_use sz c h\<lparr>lfree := of_nat (psize p0)\<rparr>)"
    "psize p0 \<in> frees 0 (p0 @ xs @ use_piece (unat sz) n @ ys)"
    "lfree_lowest h (p0 @ xs @ (False, n) # ys) \<Longrightarrow>
      \<forall>y \<in> frees 0 (p0 @ xs @ use_piece (unat sz) n @ ys). psize p0 \<le> y"
proof -
  have sh: "heap_shape h (p0 @ xs @ (False, n) # ys)" using inv by (simp add: heap_inv_def)
  note D = heap_shapeD[OF sh]
  have seg: "hseg (hdr h) 0 0 p0" "hseg (hdr h) (lastoff 0 0 p0) (psize p0) xs" using D(1) by (simp_all add: hseg_append)
  have pos: "psize p0 < psize (p0 @ xs)" using hseg_total[OF seg(2)] x by (cases xs) auto
  have Lw: "lfree h = of_nat (psize p0)" unfolding L[symmetric] by simp
  have "c \<noteq> lfree (mem_use sz c h)"
    unfolding c_def mem_use_frame Lw using pos D(5) by (subst of_nat32_inj) auto
  then show "mem_lowest c (mem_use sz c h) = Some (mem_use sz c h\<lparr>lfree := of_nat (psize p0)\<rparr>)"
    unfolding mem_lowest_def by (simp add: Lw)
  have "psize p0 \<noteq> psize (p0 @ xs @ (False, n) # ys)" using pos by simp
  then have "psize p0 \<in> frees 0 (p0 @ xs @ (False, n) # ys)" using D(7) unfolding L by blast
  then have "psize p0 \<in> frees 0 (p0 @ xs)"
    using pos frees_bounds[of "psize p0" "psize (p0 @ xs) + n" ys]
    using frees_piece[of 0 "p0 @ xs" n ys] by auto
  then show "psize p0 \<in> frees 0 (p0 @ xs @ use_piece (unat sz) n @ ys)"
    using frees_use[of 0 "p0 @ xs" "unat sz" n ys] by simp
  assume "lfree_lowest h (p0 @ xs @ (False, n) # ys)"
  then have "frees 0 p0 = {}" using lowest_prefix[OF D(1)] L by (simp add: lfree_lowest_def)
  then show "\<forall>y \<in> frees 0 (p0 @ xs @ use_piece (unat sz) n @ ys). psize p0 \<le> y"
    using frees_bounds by (simp add: frees_append[of 0 p0])
qed

text \<open>Allocation either fails, with no block from \<^verbatim>\<open>lfree\<close> on that is large enough and begins
  below the limit of the search, or takes the first such block.\<close>

definition alloc_fails :: "heap \<Rightarrow> nat \<Rightarrow> piece list \<Rightarrow> bool" where
  "alloc_fails h k bs \<longleftrightarrow>
    (\<forall>pre n post. bs = pre @ (False, n) # post \<longrightarrow> unat (lfree h) \<le> psize pre \<longrightarrow>
      psize pre < unat (mem_size_aligned h) - k \<longrightarrow> n < k + 12)"

definition first_fit :: "heap \<Rightarrow> nat \<Rightarrow> piece list \<Rightarrow> bool" where
  "first_fit h k pre \<longleftrightarrow> unat (lfree h) \<le> psize pre \<and>
    (\<forall>ps m qs. (pre :: piece list) = ps @ (False, m) # qs \<longrightarrow> unat (lfree h) \<le> psize ps \<longrightarrow> m < k + 12)"

definition same_heap :: "heap \<Rightarrow> heap \<Rightarrow> bool" where
  "same_heap h h' \<longleftrightarrow> heap_ptr h' = heap_ptr h \<and> heap_end h' = heap_end h \<and>
    mem_size_aligned h' = mem_size_aligned h \<and> mem_bytes h' = mem_bytes h"

lemma same_heap_trans: "same_heap a b \<Longrightarrow> same_heap b c \<Longrightarrow> same_heap a c"
  by (simp add: same_heap_def)

lemma mem_alloc_pieces:
  assumes inv: "heap_inv h bs" and k: "12 \<le> unat sz" "4 dvd unat sz" "unat sz \<le> unat (mem_size_aligned h)"
  shows "(mem_alloc sz h = Some (None, h) \<and> alloc_fails h (unat sz) bs) \<or>
    (\<exists>pre n post h'. bs = pre @ (False, n) # post \<and> unat sz + 12 \<le> n \<and> first_fit h (unat sz) pre \<and>
       mem_alloc sz h = Some (Some (of_nat (psize pre)), h') \<and>
       heap_inv h' (pre @ use_piece (unat sz) n @ post) \<and> same_heap h h' \<and>
       (lfree_lowest h bs \<longrightarrow> lfree_lowest h' (pre @ use_piece (unat sz) n @ post)))"
proof -
  let ?k = "unat sz" and ?lim = "unat (mem_size_aligned h) - unat sz"
  have sh: "heap_shape h bs" using inv by (simp add: heap_inv_def)
  note D = heap_shapeD[OF sh]
  obtain p0 q0 where pq: "bs = p0 @ q0" and L: "unat (lfree h) = psize p0" "lfree h = of_nat (psize p0)"
    using lfree_cut[OF sh] by blast
  have seg: "hseg (hdr h) (lastoff 0 0 p0) (psize p0) q0" using D(1) pq by (simp add: hseg_append)
  have f: "mem_find sz (lfree h) h = Some (map_option of_nat (ffit ?lim ?k (psize p0) q0))"
    unfolding L(2) using D(2,5) pq k(3) by (intro mem_find_ffit[OF seg]) auto
  show ?thesis
  proof (cases "ffit ?lim ?k (psize p0) q0")
    case None
    have "alloc_fails h ?k bs"
      unfolding alloc_fails_def L(1)
    proof (intro allI impI)
      fix pre n post
      assume b: "bs = pre @ (False, n) # post" "psize p0 \<le> psize pre" "psize pre < ?lim"
      obtain xs where "pre = p0 @ xs" "q0 = xs @ (False, n) # post" using cut_order[OF D(1) pq b(1,2)] by blast
      then show "n < ?k + 12" using ffit_None[OF None, of xs n post] b(3) by simp
    qed
    then show ?thesis using f None by (simp add: mem_alloc_def)
  next
    case (Some c)
    from ffit_Some[OF Some] obtain xs n ys where
      x: "q0 = xs @ (False, n) # ys" "c = psize p0 + psize xs" "?k + 12 \<le> n"
        "\<forall>(u, m) \<in> set xs. u \<or> m < ?k + 12" by blast
    let ?bs = "(p0 @ xs) @ use_piece ?k n @ ys" and ?u = "mem_use sz (of_nat (psize (p0 @ xs))) h"
    have b: "bs = (p0 @ xs) @ (False, n) # ys" and c: "c = psize (p0 @ xs)" using pq x by simp_all
    have "\<exists>l. mem_lowest (of_nat (psize (p0 @ xs))) ?u = Some (?u\<lparr>lfree := of_nat l\<rparr>) \<and>
        l \<in> insert (psize bs) (frees 0 ?bs) \<and> (lfree_lowest h bs \<longrightarrow> (\<forall>y \<in> frees 0 ?bs. l \<le> y))"
    proof (cases "xs = []")
      case True
      have i: "heap_inv h (p0 @ (False, n) # ys)" using inv b True by simp
      show ?thesis
        using mem_take_first[OF i L(1) k(1,2) x(3)] unfolding b True append_Nil2 by blast
    next
      case False
      have "heap_inv h (p0 @ xs @ (False, n) # ys)" using inv b by simp
      from mem_take_later[OF this L(1) False k(1,2) x(3)] show ?thesis
        unfolding b by (metis append.assoc insertI2)
    qed
    then obtain l where l: "mem_lowest (of_nat (psize (p0 @ xs))) ?u = Some (?u\<lparr>lfree := of_nat l\<rparr>)"
        "l \<in> insert (psize bs) (frees 0 ?bs)" "lfree_lowest h bs \<longrightarrow> (\<forall>y \<in> frees 0 ?bs. l \<le> y)" by blast
    let ?h = "?u\<lparr>lfree := of_nat l\<rparr>"
    have i: "heap_inv ?h ?bs" "unat (lfree ?h) = l"
      using mem_use_inv[of h "p0 @ xs" n ys sz l] inv b k(1,2) x(3) l(2) by auto
    have "mem_alloc sz h = Some (Some (of_nat (psize (p0 @ xs))), ?h)"
      unfolding mem_alloc_def f Some c using l(1) by simp
    moreover have "first_fit h ?k (p0 @ xs)"
      unfolding first_fit_def L(1)
    proof (intro conjI allI impI)
      fix ps m qs assume e: "p0 @ xs = ps @ (False, m) # qs" "psize p0 \<le> psize ps"
      have "bs = ps @ (False, m) # qs @ (False, n) # ys" using b e by simp
      from cut_order[OF D(1) pq this e(2)] obtain zs where "ps = p0 @ zs" by blast
      then have "(False, m) \<in> set xs" using e(1) by simp
      then show "m < ?k + 12" using x(4) by auto
    qed simp
    moreover have "same_heap h ?h" by (simp add: same_heap_def)
    moreover have "lfree_lowest h bs \<longrightarrow> lfree_lowest ?h ?bs" using l(3) unfolding lfree_lowest_def i(2) by blast
    ultimately show ?thesis using i(1) b x(3) by blast
  qed
qed

section \<open>Merging holes\<close>

lemma hseg_merge:
  assumes seg: "hseg H 0 0 (pre @ (False, n) # (False, k) # post)"
    and lt: "psize (pre @ (False, n) # (False, k) # post) < 2 ^ 32"
    and c: "c = psize pre"
    and H2: "H2 = H(of_nat c := (H (of_nat c))\<lparr>hm_next := of_nat (c + n + k)\<rparr>)"
    and H3: "H3 = H2(of_nat (c + n + k) := (H2 (of_nat (c + n + k)))\<lparr>hm_prev := of_nat c\<rparr>)"
  shows "hseg H3 0 0 (pre @ (False, n + k) # post)"
proof -
  have b: "c + n + k + psize post < 2 ^ 32" using lt c by simp
  have a: "hseg H 0 0 pre" "12 \<le> n" "4 dvd n" "12 \<le> k" "4 dvd k" "hseg H (c + n) (c + n + k) post"
    and hc: "H (of_nat c) = \<lparr>hm_magic = HEAP_MAGIC, hm_used = 0, hm_next = of_nat (c + n),
      hm_prev = of_nat (lastoff 0 0 pre)\<rparr>"
    using seg by (simp_all add: hseg_append c add.assoc)
  have d: "(of_nat c :: 32 word) \<noteq> of_nat (c + n + k)"
    using b a by (subst of_nat32_inj) auto
  have pre3: "hseg H3 0 0 pre"
    unfolding H3 H2 using b a(2) c by (intro hseg_upd a(1)) auto
  have post2: "hseg H2 (c + n) (c + n + k) post"
    unfolding H2 using b a(2) by (intro hseg_upd a(6)) auto
  have post3: "hseg H3 c (c + n + k) post"
    unfolding H3 by (rule hseg_relink[OF post2 b])
  have "H3 (of_nat c) = (H (of_nat c))\<lparr>hm_next := of_nat (c + n + k)\<rparr>"
    unfolding H3 H2 using d by (simp del: of_nat_add)
  then show ?thesis
    unfolding hseg_at using a pre3 post3 hc by (simp add: c add.assoc del: of_nat_add)
qed

lemma frees_merge:
  "frees a (pre @ (False, n) # (False, k) # post) = insert (a + psize pre + n) (frees a (pre @ (False, n + k) # post))"
  by (auto simp: frees_append add.assoc)

lemma merge_shape:
  assumes sh: "heap_shape h (pre @ (False, n) # (False, k) # post)" and c: "c = psize pre"
    and H2: "H2 = (hdr h)(of_nat c := (hdr h (of_nat c))\<lparr>hm_next := of_nat (c + n + k)\<rparr>)"
    and hd: "hdr h' = H2(of_nat (c + n + k) := (H2 (of_nat (c + n + k)))\<lparr>hm_prev := of_nat c\<rparr>)"
    and lf: "lfree h' = (if lfree h = of_nat (c + n) then of_nat c else lfree h)"
    and same: "same_heap h h'" "used_mem h' = used_mem h" "max_mem h' = max_mem h"
  shows "heap_shape h' (pre @ (False, n + k) # post)"
    "lfree_lowest h (pre @ (False, n) # (False, k) # post) \<Longrightarrow> lfree_lowest h' (pre @ (False, n + k) # post)"
proof -
  note D = heap_shapeD[OF sh]
  obtain bs where bs: "bs = pre @ (False, n) # (False, k) # post" by simp
  obtain cs where cs: "cs = pre @ (False, n + k) # post" by simp
  have seg: "hseg (hdr h') 0 0 cs" unfolding hd cs by (rule hseg_merge[OF D(1) _ c H2 refl]) (use D(5) in simp)
  have size: "psize cs = psize bs" "used_size cs = used_size bs" by (simp_all add: bs cs)
  have cn: "c + n < 2 ^ 32" "c < 2 ^ 32" "c + n + k < 2 ^ 32" "c < psize bs" "0 < n" "0 < k"
    using D(1,5) c bs by (auto simp: hseg_append)
  have fr: "frees 0 bs = insert (c + n) (frees 0 cs)" "c \<in> frees 0 cs"
    using frees_merge[of 0 pre n k post] by (simp_all add: bs cs c frees_append)
  have L: "unat (lfree h') = (if unat (lfree h) = c + n then c else unat (lfree h))"
  proof -
    have "(lfree h = of_nat (c + n)) = (unat (lfree h) = c + n)"
      using word_unat_eq_iff[of "lfree h" "of_nat (c + n)"] unat_small32[OF cn(1)] by simp
    then show ?thesis unfolding lf using unat_small32[OF cn(2)] by simp
  qed
  have lin: "unat (lfree h') \<in> insert (psize cs) (frees 0 cs)"
    using D(7) fr unfolding L bs[symmetric] size by auto
  have e: "heap_end h \<noteq> of_nat c"
    unfolding D(4) bs[symmetric] using cn D(5) bs by (subst of_nat32_inj) auto
  have "hm_used (hdr h' (heap_end h)) = hm_used (hdr h (heap_end h))"
    "hm_next (hdr h' (heap_end h)) = hm_next (hdr h (heap_end h))"
    unfolding hd H2 using e by (simp_all del: of_nat_add)
  moreover note S = sh[folded bs, unfolded heap_shape_def]
  then have "hm_used (hdr h (heap_end h)) = 1" "hm_next (hdr h (heap_end h)) = heap_end h" by blast+
  ultimately have ends: "hm_used (hdr h' (heap_end h)) = 1" "hm_next (hdr h' (heap_end h)) = heap_end h" by simp_all
  have f: "heap_ptr h' = heap_ptr h" "heap_end h' = heap_end h" "mem_size_aligned h' = mem_size_aligned h"
    using same(1) by (simp_all add: same_heap_def)
  have "heap_shape h' cs"
    unfolding heap_shape_def size f same(2,3) using S seg ends lin[unfolded size] by blast
  then show "heap_shape h' (pre @ (False, n + k) # post)" by (simp add: cs)
  assume "lfree_lowest h (pre @ (False, n) # (False, k) # post)"
  then have low: "\<forall>x \<in> frees 0 bs. unat (lfree h) \<le> x" by (simp add: bs lfree_lowest_def)
  have "\<forall>x \<in> frees 0 cs. unat (lfree h') \<le> x"
    using low fr cn(5) unfolding L by auto
  then show "lfree_lowest h' (pre @ (False, n + k) # post)" by (simp add: cs lfree_lowest_def)
qed

fun merge_next :: "nat \<Rightarrow> piece list \<Rightarrow> piece list" where
  "merge_next n ((False, k) # post) = (False, n + k) # post"
| "merge_next n post = (False, n) # post"

lemma plug_forward_pieces:
  assumes sh: "heap_shape h (pre @ (False, n) # post)" and c: "c = of_nat (psize pre)"
  shows "heap_shape (plug_forward c h) (pre @ merge_next n post) \<and> same_heap h (plug_forward c h) \<and>
    (lfree_lowest h (pre @ (False, n) # post) \<longrightarrow> lfree_lowest (plug_forward c h) (pre @ merge_next n post))"
proof -
  note D = heap_shapeD[OF sh]
  have hc: "hm_next (hdr h c) = of_nat (psize pre + n)" and n: "0 < n"
    using D(1) by (auto simp: hseg_append c)
  have lt: "psize pre + n + psize post < 2 ^ 32" using D(5) by simp
  have ne: "c \<noteq> of_nat (psize pre + n)" unfolding c using lt n by (subst of_nat32_inj) auto
  have used: "post = [] \<Longrightarrow> hused h (of_nat (psize pre + n))"
    using D(8) unfolding D(4) by simp
  show ?thesis
  proof (cases post)
    case Nil
    then show ?thesis using sh used by (simp add: plug_forward_def hc same_heap_def del: of_nat_add)
  next
    case (Cons b post')
    obtain u k where b: "b = (u, k)" by (cases b)
    have hn: "hdr h (of_nat (psize pre + n)) = \<lparr>hm_magic = HEAP_MAGIC, hm_used = (if u then 1 else 0),
        hm_next = of_nat (psize pre + n + k), hm_prev = of_nat (psize pre)\<rparr>" and k: "0 < k"
      using D(1) Cons b by (auto simp: hseg_append)
    have hu: "hused h (of_nat (psize pre + n)) = u" by (simp add: hused_def hn del: of_nat_add)
    show ?thesis
    proof (cases u)
      case True
      then show ?thesis using sh Cons b hu by (simp add: plug_forward_def hc same_heap_def del: of_nat_add)
    next
      case False
      have e: "of_nat (psize pre + n) \<noteq> heap_end h"
        unfolding D(4) using lt D(5) Cons b k by (subst of_nat32_inj) auto
      have sh': "heap_shape h (pre @ (False, n) # (False, k) # post')" using sh Cons b False by simp
      let ?h = "plug_forward c h"
      let ?H2 = "(hdr h)(c := (hdr h c)\<lparr>hm_next := of_nat (psize pre + n + k)\<rparr>)"
      have *: "hdr ?h = ?H2(of_nat (psize pre + n + k) := (?H2 (of_nat (psize pre + n + k)))\<lparr>hm_prev := c\<rparr>)"
        "lfree ?h = (if lfree h = of_nat (psize pre + n) then c else lfree h)" "same_heap h ?h"
        "used_mem ?h = used_mem h" "max_mem ?h = max_mem h"
        using ne e hu False hn
        by (simp_all add: plug_forward_def Let_def hc same_heap_def del: of_nat_add)
      from merge_shape[OF sh' refl refl *[unfolded c]] show ?thesis
        using *(3) Cons b False by (simp add: c)
    qed
  qed
qed

text \<open>The pieces before a free block, read backwards.\<close>

fun merge_prev :: "piece list \<Rightarrow> nat \<Rightarrow> piece list" where
  "merge_prev ((False, k) # rest) n = rev rest @ [(False, k + n)]"
| "merge_prev rpre n = rev rpre @ [(False, n)]"

lemma plug_backward_pieces:
  assumes sh: "heap_shape h (pre @ (False, n) # post)" and c: "c = of_nat (psize pre)"
  shows "heap_shape (plug_backward c h) (merge_prev (rev pre) n @ post) \<and> same_heap h (plug_backward c h) \<and>
    (lfree_lowest h (pre @ (False, n) # post) \<longrightarrow> lfree_lowest (plug_backward c h) (merge_prev (rev pre) n @ post))"
proof -
  note D = heap_shapeD[OF sh]
  have hc: "hm_prev (hdr h c) = of_nat (lastoff 0 0 pre)" "hm_next (hdr h c) = of_nat (psize pre + n)" and n: "0 < n"
    using D(1) by (auto simp: hseg_append c)
  have lt: "psize pre + n + psize post < 2 ^ 32" using D(5) by simp
  show ?thesis
  proof (cases "rev pre")
    case Nil
    then have "hm_prev (hdr h c) = c" using hc c by simp
    then have "plug_backward c h = h" by (simp add: plug_backward_def)
    then show ?thesis using sh Nil by (simp add: same_heap_def)
  next
    case (Cons b rest)
    obtain u k where b: "b = (u, k)" by (cases b)
    define p where "p = rev rest"
    have pre: "pre = p @ [(u, k)]" using Cons b p_def by (metis rev.simps(2) rev_rev_ident)
    have hp: "hdr h (of_nat (psize p)) = \<lparr>hm_magic = HEAP_MAGIC, hm_used = (if u then 1 else 0),
        hm_next = of_nat (psize p + k), hm_prev = of_nat (lastoff 0 0 p)\<rparr>" and k: "0 < k"
      using D(1) pre by (auto simp: hseg_append)
    have hu: "hused h (of_nat (psize p)) = u" by (simp add: hused_def hp)
    have lo: "lastoff 0 0 pre = psize p" by (simp add: pre)
    have cp: "c = of_nat (psize p + k)" by (simp add: c pre)
    have ne: "of_nat (psize p) \<noteq> c" unfolding cp using lt pre k by (subst of_nat32_inj) auto
    show ?thesis
    proof (cases u)
      case True
      then show ?thesis using sh Cons b hu lo pre p_def by (simp add: plug_backward_def hc same_heap_def)
    next
      case False
      have sh': "heap_shape h (p @ (False, k) # (False, n) # post)" using sh pre False by simp
      let ?h = "plug_backward c h"
      let ?H2 = "(hdr h)(of_nat (psize p) := (hdr h (of_nat (psize p)))\<lparr>hm_next := of_nat (psize p + k + n)\<rparr>)"
      have e: "psize pre + n = psize p + k + n" by (simp add: pre)
      have *: "hdr ?h = ?H2(of_nat (psize p + k + n) := (?H2 (of_nat (psize p + k + n)))\<lparr>hm_prev := of_nat (psize p)\<rparr>)"
        "lfree ?h = (if lfree h = of_nat (psize p + k) then of_nat (psize p) else lfree h)" "same_heap h ?h"
        "used_mem ?h = used_mem h" "max_mem ?h = max_mem h"
        using ne hu False
        by (simp_all add: plug_backward_def Let_def hc lo e same_heap_def cp[symmetric] del: of_nat_add)
      from merge_shape[OF sh' refl refl *] show ?thesis
        using *(3) Cons b False p_def pre by simp
    qed
  qed
qed

text \<open>The pieces after \<^verbatim>\<open>plug_holes\<close> on a free block.\<close>

definition coalesce :: "piece list \<Rightarrow> nat \<Rightarrow> piece list \<Rightarrow> piece list" where
  "coalesce pre n post = merge_prev (rev pre) (snd (hd (merge_next n post))) @ tl (merge_next n post)"

lemma merge_next_Cons: "merge_next n post = (False, snd (hd (merge_next n post))) # tl (merge_next n post)"
  by (cases "(n, post)" rule: merge_next.cases) simp_all

lemma coalesce_size: "psize (coalesce pre n post) = psize pre + n + psize post"
proof -
  have "psize (merge_next n post) = n + psize post" by (cases "(n, post)" rule: merge_next.cases) simp_all
  moreover have "psize (merge_prev (rev pre) m) = psize pre + m" for m
  proof (cases "rev pre")
    case (Cons b rest)
    then have "pre = rev rest @ [b]" by (metis rev.simps(2) rev_rev_ident)
    then show ?thesis using Cons by (cases b; cases "fst b") auto
  qed simp
  ultimately show ?thesis unfolding coalesce_def using merge_next_Cons[of n post] by (metis add.assoc psize_simps(2,3))
qed

lemma no_holes_coalesce:
  assumes "no_holes pre" "no_holes post"
  shows "no_holes (coalesce pre n post)"
proof -
  have post: "no_holes (merge_next n post)"
    using assms(2) by (cases "(n, post)" rule: merge_next.cases) (auto simp: no_holes_def successively_Cons)
  then obtain m ys where m: "merge_next n post = (False, m) # ys" "no_holes ((False, m) # ys)"
    using merge_next_Cons by metis
  have "no_holes (merge_prev (rev pre) m @ ys)"
  proof (cases "rev pre")
    case Nil
    then show ?thesis using m by simp
  next
    case (Cons b rest)
    then have pre: "pre = rev rest @ [b]" by (metis rev.simps(2) rev_rev_ident)
    show ?thesis using m(2) assms(1) Cons unfolding pre
      by (cases b; cases "fst b") (auto simp: no_holes_def successively_append_iff successively_Cons)
  qed
  then show ?thesis using m by (simp add: coalesce_def)
qed

lemma plug_holes_pieces:
  assumes sh: "heap_shape h (pre @ (False, n) # post)" and c: "c = of_nat (psize pre)"
  shows "\<exists>h'. plug_holes c h = Some h' \<and> heap_shape h' (coalesce pre n post) \<and> same_heap h h' \<and>
    (lfree_lowest h (pre @ (False, n) # post) \<longrightarrow> lfree_lowest h' (coalesce pre n post))"
proof -
  note D = heap_shapeD[OF sh]
  have n: "0 < n" and hc: "\<not> hused h c" using D(1) by (auto simp: hseg_append hused_def c)
  have lt: "psize pre < 2 ^ 32" "psize pre < unat (heap_end h)" using D(5,6) n by auto
  have uc: "unat c = psize pre" unfolding c by (rule unat_small32[OF lt(1)])
  have u1: "unat (heap_ptr h + c) = unat (heap_ptr h) + psize pre"
    using D(6,9) lt uc by (simp add: unat_word_ariths)
  have u2: "unat (heap_ptr h + heap_end h) = unat (heap_ptr h) + unat (heap_end h)"
    using D(6,9) by (simp add: unat_word_ariths)
  have a: "heap_ptr h + c \<ge> heap_ptr h" "heap_ptr h + c < heap_ptr h + heap_end h"
    using lt(2) by (simp_all add: word_le_nat_alt word_less_nat_alt u1 u2)
  define m ys where "m = snd (hd (merge_next n post))" and "ys = tl (merge_next n post)"
  have mn: "merge_next n post = (False, m) # ys" unfolding m_def ys_def by (rule merge_next_Cons)
  note F = plug_forward_pieces[OF sh c, unfolded mn]
  note B = plug_backward_pieces[OF conjunct1[OF F] c]
  have "plug_holes c h = Some (plug_backward c (plug_forward c h))"
    using a hc by (simp add: plug_holes_def)
  moreover have "merge_prev (rev pre) m @ ys = coalesce pre n post" by (simp add: coalesce_def m_def ys_def)
  ultimately show ?thesis using F B same_heap_trans by (metis (no_types, lifting))
qed

section \<open>Release on the pieces\<close>

lemma mem_release_pieces:
  assumes inv: "heap_inv h (pre @ (True, n) # post)" and c: "c = of_nat (psize pre)"
  shows "\<exists>h'. mem_release c h = Some h' \<and> heap_inv h' (coalesce pre n post) \<and> same_heap h h' \<and>
    (lfree_lowest h (pre @ (True, n) # post) \<longrightarrow> lfree_lowest h' (coalesce pre n post))"
proof -
  have sh: "heap_shape h (pre @ (True, n) # post)" and nh: "no_holes (pre @ (True, n) # post)"
    using inv by (simp_all add: heap_inv_def)
  note D = heap_shapeD[OF sh]
  obtain bs where bs: "bs = pre @ (True, n) # post" by simp
  obtain cs where cs: "cs = pre @ (False, n) # post" by simp
  note S = sh[folded bs, unfolded heap_shape_def]
  have hc: "hdr h c = \<lparr>hm_magic = HEAP_MAGIC, hm_used = 1, hm_next = of_nat (psize pre + n),
      hm_prev = of_nat (lastoff 0 0 pre)\<rparr>" and n: "12 \<le> n"
    using D(1) by (simp_all add: hseg_append c)
  have lt: "psize pre + n + psize post + 12 < 2 ^ 32" using D(5) by simp
  have uc: "unat c = psize pre" unfolding c by (rule unat_small32) (use lt in simp)
  let ?h1 = "upd_hdr c (\<lambda>x. x\<lparr>hm_used := 0, hm_magic := HEAP_MAGIC\<rparr>) h"
  let ?h2 = "if heap_ptr ?h1 + c < heap_ptr ?h1 + lfree ?h1 then ?h1\<lparr>lfree := c\<rparr> else ?h1"
  let ?h3 = "?h2\<lparr>used_mem := used_mem ?h2 - (hm_next (hdr ?h2 c) - c)\<rparr>"
  have rel: "mem_release c h = plug_holes c ?h3"
    by (simp add: mem_release_def Let_def hused_def hc)
  have Lle: "unat (lfree h) \<le> psize bs" using frees_le[OF D(1,7)] bs by simp
  have less: "(heap_ptr h + c < heap_ptr h + lfree h) = (psize pre < unat (lfree h))"
  proof -
    have "unat (heap_ptr h + c) = unat (heap_ptr h) + psize pre"
      using D(9) uc by (simp add: unat_word_ariths)
    moreover have "unat (heap_ptr h + lfree h) = unat (heap_ptr h) + unat (lfree h)"
      using D(9) Lle bs by (simp add: unat_word_ariths)
    ultimately show ?thesis by (simp add: word_less_nat_alt)
  qed
  have seg: "hseg (hdr ?h3) 0 0 cs"
  proof -
    have "hdr ?h3 = (hdr h)(of_nat (psize pre) := \<lparr>hm_magic = HEAP_MAGIC, hm_used = 0,
        hm_next = of_nat (psize pre + n), hm_prev = of_nat (lastoff 0 0 pre)\<rparr>)"
      using hc by (simp add: c del: of_nat_add)
    then show ?thesis unfolding cs
      using hseg_mark[OF D(1) _ refl, of False] D(5) by (simp del: of_nat_add fun_upd_apply)
  qed
  have size: "psize cs = psize bs" and us: "used_size bs = n + used_size cs" by (simp_all add: bs cs)
  have fr: "frees 0 cs = insert (psize pre) (frees 0 bs)"
    by (auto simp: bs cs frees_append)
  have L: "unat (lfree ?h3) = min (psize pre) (unat (lfree h))"
    using less uc by (auto simp: min_def)
  have lin: "unat (lfree ?h3) \<in> insert (psize bs) (frees 0 cs)"
    unfolding L fr using D(7) bs by (auto simp: min_def)
  have ub: "used_size bs < 2 ^ 32" using used_size_total[of bs] D(5) bs by simp
  have um: "used_mem ?h3 = of_nat (used_size cs)"
  proof -
    have "(of_nat (psize pre + n) :: rt_size) - of_nat (psize pre) = of_nat n" by simp
    then have "used_mem ?h3 = used_mem h - of_nat n" using hc by (simp add: c del: of_nat_add)
    also have "\<dots> = of_nat (used_size cs)" using S us by simp
    finally show ?thesis .
  qed
  have mx: "used_mem ?h3 \<le> max_mem h"
  proof -
    have "used_mem ?h3 \<le> used_mem h" unfolding um using S ub us
      by (simp add: word_le_nat_alt unat_small32 del: of_nat_add)
    then show ?thesis using S by (meson order_trans)
  qed
  have e: "heap_end h \<noteq> c" unfolding D(4) c using n lt by (subst of_nat32_inj) auto
  have f: "heap_ptr ?h3 = heap_ptr h" "heap_end ?h3 = heap_end h" "mem_size_aligned ?h3 = mem_size_aligned h"
    "max_mem ?h3 = max_mem h" "mem_bytes ?h3 = mem_bytes h" by simp_all
  have ends: "hm_used (hdr ?h3 (heap_end h)) = 1" "hm_next (hdr ?h3 (heap_end h)) = heap_end h"
  proof -
    have "hdr ?h3 (heap_end h) = hdr h (heap_end h)" using e by simp
    then show "hm_used (hdr ?h3 (heap_end h)) = 1" "hm_next (hdr ?h3 (heap_end h)) = heap_end h"
      using S by metis+
  qed
  have "heap_shape ?h3 cs"
    unfolding heap_shape_def size f using S seg ends lin um mx by blast
  from plug_holes_pieces[OF this[unfolded cs] c] obtain h' where
    h': "plug_holes c ?h3 = Some h'" "heap_shape h' (coalesce pre n post)" "same_heap ?h3 h'"
      "lfree_lowest ?h3 cs \<longrightarrow> lfree_lowest h' (coalesce pre n post)"
    unfolding cs by blast
  have "no_holes pre" "no_holes post" using nh by (auto simp: no_holes_def successively_append_iff successively_Cons)
  then have "heap_inv h' (coalesce pre n post)" using h'(2) no_holes_coalesce by (simp add: heap_inv_def)
  moreover have "same_heap h h'" using h'(3) f by (simp add: same_heap_def)
  moreover have "lfree_lowest h bs \<longrightarrow> lfree_lowest ?h3 cs"
    unfolding lfree_lowest_def L fr by auto
  ultimately show ?thesis using h'(1,4) rel bs by (metis (no_types, lifting))
qed

lemma mem_shrink_pieces:
  assumes inv: "heap_inv h (pre @ (True, n) # post)" and c: "c = of_nat (psize pre)"
    and k: "4 dvd unat sz" "unat sz + 36 < n" "0 < unat sz"
  shows "\<exists>h'. mem_shrink c sz h = Some h' \<and>
    heap_inv h' (coalesce (pre @ [(True, unat sz + 12)]) (n - (unat sz + 12)) post) \<and> same_heap h h'"
proof -
  have sh: "heap_shape h (pre @ (True, n) # post)" and nh: "no_holes (pre @ (True, n) # post)"
    using inv by (simp_all add: heap_inv_def)
  note D = heap_shapeD[OF sh]
  let ?k = "unat sz + 12" and ?p = "psize pre"
  obtain bs where bs: "bs = pre @ (True, n) # post" by simp
  obtain cs where cs: "cs = (pre @ [(True, ?k)]) @ (False, n - ?k) # post" by simp
  note S = sh[folded bs, unfolded heap_shape_def]
  have hc: "hdr h c = \<lparr>hm_magic = HEAP_MAGIC, hm_used = 1, hm_next = of_nat (?p + n),
      hm_prev = of_nat (lastoff 0 0 pre)\<rparr>"
    using D(1) by (simp add: hseg_append c)
  have lt: "?p + n + psize post + 12 < 2 ^ 32" using D(5) by simp
  let ?c2 = "of_nat (?p + ?k) :: rt_size" and ?e = "of_nat (?p + n) :: rt_size"
  have p2: "c + SIZEOF_STRUCT_MEM + sz = ?c2" by (simp add: c SIZEOF_STRUCT_MEM_def)
  have d: "?c2 \<noteq> c" "?c2 \<noteq> ?e" "c \<noteq> ?e" unfolding c using lt k by (subst of_nat32_inj; simp)+
  let ?X = "\<lparr>hm_magic = HEAP_MAGIC, hm_used = 0, hm_next = ?e, hm_prev = c\<rparr>"
  let ?Y = "\<lparr>hm_magic = HEAP_MAGIC, hm_used = 1, hm_next = ?c2, hm_prev = of_nat (lastoff 0 0 pre)\<rparr>"
  let ?H2 = "(hdr h)(?c2 := ?X, c := ?Y)"
  let ?H3 = "if post = [] then ?H2 else ?H2(?e := (?H2 ?e)\<lparr>hm_prev := ?c2\<rparr>)"
  let ?u = "h\<lparr>used_mem := used_mem h - (hm_next (hdr h c) - c - SIZEOF_STRUCT_MEM - sz)\<rparr>"
  let ?h3 = "mem_link_after ?c2 (mem_split c ?c2 ?u)"
  have m: "mem_size_aligned h + SIZEOF_STRUCT_MEM = of_nat (psize bs)"
    using D(2) bs by (simp add: SIZEOF_STRUCT_MEM_def)
  have last: "(?e = mem_size_aligned h + SIZEOF_STRUCT_MEM) = (post = [])"
  proof -
    have "(?e = mem_size_aligned h + SIZEOF_STRUCT_MEM) = (?p + n = psize bs)"
      unfolding m using lt bs by (subst of_nat32_inj) auto
    moreover have "(psize post = 0) = (post = [])"
      using D(1) hseg_total[of "hdr h" ?p "?p + n" post] by (auto simp: hseg_append)
    ultimately show ?thesis by (simp add: bs)
  qed
  have hd: "hdr ?h3 = ?H3"
    using d last by (auto simp: mem_split_def mem_link_after_def Let_def hc fun_eq_iff simp del: of_nat_add)
  have "hseg ?H3 0 0 (pre @ (True, ?k) # (False, n - ?k) # post)"
    by (rule hseg_split[OF D(1), of ?k ?X ?Y True ?H2])
      (use k lt in \<open>simp_all add: c del: of_nat_add fun_upd_apply\<close>)
  then have seg: "hseg (hdr ?h3) 0 0 cs" unfolding hd cs by simp
  have size: "psize cs = psize bs" using k by (simp add: bs cs)
  have us: "used_size bs = (n - ?k) + used_size cs" using k by (simp add: bs cs)
  have fr: "frees 0 bs \<subseteq> frees 0 cs" using k by (auto simp: bs cs frees_append)
  have lin: "unat (lfree ?h3) \<in> insert (psize bs) (frees 0 cs)" using D(7) fr bs by auto
  have um: "used_mem ?h3 = of_nat (used_size cs)"
  proof -
    have "?e - c - SIZEOF_STRUCT_MEM - sz = of_nat (n - ?k)"
      using k by (simp add: c SIZEOF_STRUCT_MEM_def)
    then have "used_mem ?h3 = used_mem h - of_nat (n - ?k)" using hc by (simp del: of_nat_add of_nat_diff)
    also have "\<dots> = of_nat (used_size cs)" using S us by (simp del: of_nat_diff)
    finally show ?thesis .
  qed
  have ub: "used_size bs < 2 ^ 32" using used_size_total[of bs] D(5) bs by simp
  have mx: "used_mem ?h3 \<le> max_mem h"
  proof -
    have "used_mem ?h3 \<le> used_mem h" unfolding um using S ub us
      by (simp add: word_le_nat_alt unat_small32 del: of_nat_add)
    then show ?thesis using S by (meson order_trans)
  qed
  have e: "heap_end h \<noteq> c" "heap_end h \<noteq> ?c2" unfolding D(4) c using k lt by (subst of_nat32_inj; auto)+
  have e3: "post \<noteq> [] \<Longrightarrow> heap_end h \<noteq> ?e" using last m unfolding D(4) bs by metis
  have ends: "hm_used (hdr ?h3 (heap_end h)) = 1" "hm_next (hdr ?h3 (heap_end h)) = heap_end h"
  proof -
    have "hdr ?h3 (heap_end h) = hdr h (heap_end h)"
      unfolding hd using e e3 by (simp del: of_nat_add)
    then show "hm_used (hdr ?h3 (heap_end h)) = 1" "hm_next (hdr ?h3 (heap_end h)) = heap_end h"
      using S by metis+
  qed
  have f: "heap_ptr ?h3 = heap_ptr h" "heap_end ?h3 = heap_end h" "mem_size_aligned ?h3 = mem_size_aligned h"
    "max_mem ?h3 = max_mem h" "mem_bytes ?h3 = mem_bytes h" by simp_all
  have "heap_shape ?h3 cs"
    unfolding heap_shape_def size f using S seg ends lin um mx by blast
  moreover have "?c2 = of_nat (psize (pre @ [(True, ?k)]))" by simp
  ultimately obtain h' where h': "plug_holes ?c2 ?h3 = Some h'"
      "heap_shape h' (coalesce (pre @ [(True, ?k)]) (n - ?k) post)" "same_heap ?h3 h'"
    using plug_holes_pieces unfolding cs by blast
  have "no_holes (pre @ [(True, ?k)])" "no_holes post"
    using nh by (auto simp: no_holes_def successively_append_iff successively_Cons)
  then have "heap_inv h' (coalesce (pre @ [(True, ?k)]) (n - ?k) post)"
    using h'(2) no_holes_coalesce by (simp add: heap_inv_def)
  moreover have "same_heap h h'" using h'(3) f by (simp add: same_heap_def)
  moreover have "mem_shrink c sz h = Some h'" using h'(1) by (simp add: mem_shrink_def Let_def p2)
  ultimately show ?thesis by blast
qed

text \<open>The fresh heap.\<close>

lemma heap_mem_whole:
  "r\<lparr>hm_magic := a, hm_next := c, hm_prev := d, hm_used := b\<rparr> = \<lparr>hm_magic = a, hm_used = b, hm_next = c, hm_prev = d\<rparr>"
  "r\<lparr>hm_magic := a, hm_used := b, hm_next := c, hm_prev := d\<rparr> = \<lparr>hm_magic = a, hm_used = b, hm_next = c, hm_prev = d\<rparr>"
  by (cases r; simp)+

lemma heap_init_pieces:
  assumes "unat begin_addr + 3 < 2 ^ 32" "0 < unat begin_addr"
    and room: "(unat begin_addr + 3) div 4 * 4 + 36 \<le> unat end_addr div 4 * 4"
    and i: "rt_interrupt_nest s = 0" and u: "used_mem h = 0"
  shows "\<exists>h' s'. rt_system_heap_init begin_addr end_addr j h s = Some (h', s') \<and>
    heap_inv h' [(False, unat end_addr div 4 * 4 - (unat begin_addr + 3) div 4 * 4 - 12)] \<and>
    lfree_lowest h' [(False, unat end_addr div 4 * 4 - (unat begin_addr + 3) div 4 * 4 - 12)] \<and>
    heap_ptr h' = RT_ALIGN begin_addr 4 \<and> used_mem h' = 0"
proof -
  let ?b = "RT_ALIGN begin_addr 4" and ?e = "RT_ALIGN_DOWN end_addr 4"
  define B where "B = (unat begin_addr + 3) div 4 * 4"
  define E where "E = unat end_addr div 4 * 4"
  have ub: "unat ?b = B" unfolding B_def by (rule unat_RT_ALIGN4[OF assms(1)])
  have ue: "unat ?e = E" unfolding E_def by (rule unat_RT_ALIGN_DOWN4)
  have El: "E < 2 ^ 32"
  proof -
    have "unat ?e < 2 ^ LENGTH(32)" by (rule unsigned_less)
    then show ?thesis using ue by simp
  qed
  have le: "B + 36 \<le> E" using room by (simp add: B_def E_def)
  have dv: "4 dvd B" "4 dvd E" by (simp_all add: B_def E_def)
  have Bp: "0 < B" using assms(2) unfolding B_def by presburger
  have eb: "?b = of_nat B" "?e = of_nat E" by (simp_all flip: ub ue)
  have s24: "2 * SIZEOF_STRUCT_MEM = (24 :: rt_size)" by (simp add: SIZEOF_STRUCT_MEM_def)
  have e24: "unat (?e - 24) = E - 24"
  proof -
    have "unat (24 :: rt_size) \<le> unat ?e" using le ue by simp
    then show ?thesis unfolding unat_sub32[of ?e 24] ue by simp
  qed
  have c: "?e > 24 \<and> ?e - 24 \<ge> ?b"
    unfolding word_less_nat_alt word_le_nat_alt e24 ub ue using le by simp
  define M where "M = E - B - 24"
  define N where "N = E - B - 12"
  have NM: "N = M + 12" "12 \<le> M" "B + N + 12 = E" "4 dvd N"
    using le dv by (auto simp: M_def N_def)
  have msa: "?e - ?b - 24 = of_nat M"
  proof -
    have "(of_nat E :: rt_size) = of_nat (B + M + 24)" using le by (simp add: M_def)
    then show ?thesis unfolding eb by simp
  qed
  have n12: "(of_nat M :: rt_size) + SIZEOF_STRUCT_MEM = of_nat N"
    unfolding NM(1) using NM(3) El by (intro word_add12) (simp add: NM(1))
  have um: "unat (of_nat M :: rt_size) = M" using El NM by (intro unat_small32) simp
  have ne: "(of_nat N :: rt_size) \<noteq> 0" using NM El of_nat32_inj[of N 0] by auto
  let ?H = "(hdr h)(0 := \<lparr>hm_magic = HEAP_MAGIC, hm_used = 0, hm_next = of_nat N, hm_prev = 0\<rparr>,
    of_nat N := \<lparr>hm_magic = HEAP_MAGIC, hm_used = 1, hm_next = of_nat N, hm_prev = of_nat N\<rparr>)"
  let ?h = "h\<lparr>mem_size_aligned := of_nat M, heap_ptr := ?b, hdr := ?H, heap_end := of_nat N, lfree := 0\<rparr>"
  obtain s' where s': "rt_sem_init j (map (\<lambda>c. of_nat (of_char c)) ''heap'') 1 RT_IPC_FLAG_FIFO s = Some (RT_EOK, s')"
    unfolding rt_sem_init_def by (simp add: rt_object_init_Some rt_object_container_def)
  have call: "rt_system_heap_init begin_addr end_addr j h s = Some (?h, s')"
    using c i s' ne
    by (simp add: rt_system_heap_init_def Let_def not_in_interrupt_def s24 msa n12 upd_hdr_def heap_mem_whole)
  have "hseg ?H 0 0 [(False, N)]"
    using NM ne by simp
  moreover have "psize [(False, N)] = unat (mem_size_aligned ?h) + 12" using um NM by simp
  moreover have "12 \<le> unat (mem_size_aligned ?h)" using um NM by simp
  moreover have "unat (heap_ptr ?h) + N + 12 \<le> 2 ^ 32" using ub NM El by simp
  ultimately have "heap_shape ?h [(False, N)]"
    unfolding heap_shape_def using ub Bp dv u ne[unfolded NM(1)] by simp
  then have "heap_inv ?h [(False, N)]" by (simp add: heap_inv_def no_holes_def)
  then show ?thesis using call u unfolding B_def[symmetric] E_def[symmetric] N_def[symmetric]
    by (auto simp: lfree_lowest_def)
qed

end
