(* ===== verification/RT_Alloc.thy ===== *)
theory RT_Alloc
  imports RT_Prelude
begin

text \<open>The interface of a memory allocator: what its clients rely on. The blocks that are handed
  out and not yet given back are the live ones. The small memory heap, the memory heaps and the
  memory pools provide it.\<close>

locale allocator =
  fixes inv :: "'h \<Rightarrow> bool" and live :: "'h \<Rightarrow> (nat \<times> nat) set"
    and alloc :: "nat \<Rightarrow> 'h \<Rightarrow> nat option \<times> 'h" and release :: "nat \<Rightarrow> 'h \<Rightarrow> 'h"
    and fits :: "'h \<Rightarrow> nat \<Rightarrow> bool"
  assumes live_disjoint: "inv h \<Longrightarrow> (a, n) \<in> live h \<Longrightarrow> (b, m) \<in> live h \<Longrightarrow>
      (a, n) = (b, m) \<or> a + n \<le> b \<or> b + m \<le> a"
    and live_pos: "inv h \<Longrightarrow> (a, n) \<in> live h \<Longrightarrow> 0 < n"
    and alloc_inv: "inv h \<Longrightarrow> fits h k \<Longrightarrow> inv (snd (alloc k h))"
    and alloc_none: "inv h \<Longrightarrow> fits h k \<Longrightarrow> fst (alloc k h) = None \<Longrightarrow> live (snd (alloc k h)) = live h"
    and alloc_some: "inv h \<Longrightarrow> fits h k \<Longrightarrow> fst (alloc k h) = Some a \<Longrightarrow>
      \<exists>n. k \<le> n \<and> (a, n) \<notin> live h \<and> live (snd (alloc k h)) = insert (a, n) (live h)"
    and release_inv: "inv h \<Longrightarrow> (a, n) \<in> live h \<Longrightarrow> inv (release a h)"
    and release_live: "inv h \<Longrightarrow> (a, n) \<in> live h \<Longrightarrow> live (release a h) = live h - {(a, n)}"
    and fits_kept: "inv h \<Longrightarrow> (a, n) \<in> live h \<Longrightarrow> fits (release a h) k = fits h k"
      "inv h \<Longrightarrow> fits h j \<Longrightarrow> fits (snd (alloc j h)) k = fits h k"
begin

lemma live_unique:
  assumes "inv h" "(a, n) \<in> live h" "(a, m) \<in> live h"
  shows "n = m"
  using live_disjoint[OF assms] live_pos[OF assms(1,2)] live_pos[OF assms(1,3)] by auto

text \<open>The block returned is new: it overlaps no live one.\<close>

lemma alloc_fresh:
  assumes "inv h" "fits h k" "fst (alloc k h) = Some a"
  shows "\<exists>n. k \<le> n \<and> live (snd (alloc k h)) = insert (a, n) (live h) \<and>
    (\<forall>(b, m) \<in> live h. a + n \<le> b \<or> b + m \<le> a)"
proof -
  obtain n where n: "k \<le> n" "(a, n) \<notin> live h" "live (snd (alloc k h)) = insert (a, n) (live h)"
    using alloc_some[OF assms] by blast
  have "a + n \<le> b \<or> b + m \<le> a" if "(b, m) \<in> live h" for b m
    using live_disjoint[OF alloc_inv[OF assms(1,2)], of a n b m] n that by auto
  with n show ?thesis by blast
qed

text \<open>A run of a client that releases only live blocks; each step is a request with its answer, or
  the release of a block.\<close>

inductive run :: "'h \<Rightarrow> (nat \<times> nat) list \<Rightarrow> (nat \<times> nat) list \<Rightarrow> 'h \<Rightarrow> bool" where
  start: "run h [] [] h"
| failed: "run h as fs h1 \<Longrightarrow> fits h1 k \<Longrightarrow> fst (alloc k h1) = None \<Longrightarrow> run h as fs (snd (alloc k h1))"
| given: "run h as fs h1 \<Longrightarrow> fits h1 k \<Longrightarrow> fst (alloc k h1) = Some a \<Longrightarrow>
    (a, n) \<in> live (snd (alloc k h1)) \<Longrightarrow> run h ((a, n) # as) fs (snd (alloc k h1))"
| freed: "run h as fs h1 \<Longrightarrow> (a, n) \<in> live h1 \<Longrightarrow> run h as ((a, n) # fs) (release a h1)"

theorem run_inv:
  assumes "run h as fs h'" "inv h"
  shows "inv h'"
  using assms by induction (auto intro: alloc_inv release_inv)

text \<open>Every block is released at most as often as it was given, and what is live is the balance.\<close>

theorem run_balance:
  assumes "run h as fs h'" "inv h" "live h = {}"
  shows "count_list as b = count_list fs b + (if b \<in> live h' then 1 else 0)"
  using assms
proof induction
  case (given h as fs h1 k a n)
  have i: "inv h1" using run_inv given by blast
  obtain m where m: "(a, m) \<notin> live h1" "live (snd (alloc k h1)) = insert (a, m) (live h1)"
    using alloc_some[OF i given(2,3)] by blast
  then have "n = m" using live_unique[OF alloc_inv[OF i given(2)], of a n m] given(4) by auto
  then show ?case using given m by auto
next
  case (failed h as fs h1 k)
  then have "inv h1" using run_inv by blast
  then show ?case using failed alloc_none by auto
next
  case (freed h as fs h1 a n)
  then have "inv h1" using run_inv by blast
  then show ?case using freed release_live[of h1 a n] by auto
qed simp

end

end
