(* ===== verification/RT_Mem_Run.thy ===== *)
theory RT_Mem_Run
  imports RT_Mem_Ops RT_Sem_Run RT_Alloc
begin

text \<open>The live blocks of the small memory allocator, its interpretation as an allocator, and
  rt\_malloc with the semaphore of the heap.\<close>

section \<open>Live blocks\<close>

text \<open>The data of the used pieces: address and length.\<close>

fun plive :: "nat \<Rightarrow> piece list \<Rightarrow> (nat \<times> nat) set" where
  "plive a [] = {}"
| "plive a ((u, n) # bs) = (if u then insert (a + 12, n - 12) (plive (a + n) bs) else plive (a + n) bs)"

lemma plive_append: "plive a (xs @ ys) = plive a xs \<union> plive (a + psize xs) ys"
  by (induction a xs rule: plive.induct) (simp_all add: add.assoc)

lemma plive_bounds: "hseg H p c bs \<Longrightarrow> (x, m) \<in> plive a bs \<Longrightarrow> 0 < m \<and> a + 12 \<le> x \<and> x + m \<le> a + psize bs"
proof (induction bs arbitrary: p c a)
  case (Cons b bs)
  obtain u n where b: "b = (u, n)" by (cases b)
  then have s: "12 < n" "hseg H c (c + n) bs" using Cons.prems(1) by auto
  show ?case
  proof (cases "(x, m) \<in> plive (a + n) bs")
    case True
    then show ?thesis using Cons.IH[OF s(2) True] b by simp
  next
    case False
    then show ?thesis using Cons.prems(2) b s by (auto split: if_splits)
  qed
qed simp

lemma plive_disjoint:
  "hseg H p c bs \<Longrightarrow> (x, m) \<in> plive a bs \<Longrightarrow> (y, k) \<in> plive a bs \<Longrightarrow>
    (x, m) = (y, k) \<or> x + m \<le> y \<or> y + k \<le> x"
proof (induction bs arbitrary: p c a)
  case (Cons b bs)
  obtain u n where b: "b = (u, n)" by (cases b)
  then have s: "12 < n" "hseg H c (c + n) bs" using Cons.prems(1) by auto
  show ?case
  proof (cases "(x, m) \<in> plive (a + n) bs \<and> (y, k) \<in> plive (a + n) bs")
    case True
    then show ?thesis using Cons.IH[OF s(2)] by blast
  next
    case False
    then show ?thesis
      using Cons.prems(2,3) b s plive_bounds[OF s(2), of x m "a + n"] plive_bounds[OF s(2), of y k "a + n"]
      by (auto split: if_splits)
  qed
qed simp

lemma plive_piece:
  "hseg H p c bs \<Longrightarrow> (x, m) \<in> plive a bs \<Longrightarrow>
    \<exists>pre post. bs = pre @ (True, m + 12) # post \<and> x = a + psize pre + 12"
proof (induction bs arbitrary: p c a)
  case (Cons b bs)
  obtain u n where b: "b = (u, n)" by (cases b)
  then have s: "12 < n" "hseg H c (c + n) bs" using Cons.prems(1) by auto
  show ?case
  proof (cases "(x, m) \<in> plive (a + n) bs")
    case True
    then obtain pre post where "bs = pre @ (True, m + 12) # post" "x = a + n + psize pre + 12"
      using Cons.IH[OF s(2) True] by blast
    then have "b # bs = ((u, n) # pre) @ (True, m + 12) # post \<and> x = a + psize ((u, n) # pre) + 12"
      using b by simp
    then show ?thesis by blast
  next
    case False
    then have "u" "x = a + 12" "m = n - 12" using Cons.prems(2) b by (auto split: if_splits)
    then have "b # bs = [] @ (True, m + 12) # bs \<and> x = a + psize [] + 12" using b s by simp
    then show ?thesis by blast
  qed
qed simp

lemma plive_use:
  fixes k n :: nat
  assumes "k + 12 \<le> n"
  shows "\<exists>m. k \<le> m \<and> plive a (pre @ use_piece k n @ post) =
    insert (a + psize pre + 12, m) (plive a (pre @ (False, n) # post))"
proof -
  have "plive b (use_piece k n) = {(b + 12, if k + 36 \<le> n then k else n - 12)}" for b
    by (simp add: use_piece_def)
  then have "plive a (pre @ use_piece k n @ post) =
      insert (a + psize pre + 12, if k + 36 \<le> n then k else n - 12) (plive a (pre @ (False, n) # post))"
    by (simp add: plive_append used_size_use add.assoc)
  moreover have "k \<le> (if k + 36 \<le> n then k else n - 12)" using assms by (cases "k + 36 \<le> n") auto
  ultimately show ?thesis by blast
qed

lemma plive_coalesce: "plive a (coalesce pre n post) = plive a (pre @ (False, n) # post)"
proof -
  have n: "plive b (merge_next n post) = plive b ((False, n) # post)" for b
    by (cases "(n, post)" rule: merge_next.cases) (simp_all add: add.assoc)
  have p: "plive b (merge_prev (rev pre) m) = plive b pre \<and> psize (merge_prev (rev pre) m) = psize pre + m" for b m
  proof (cases "rev pre")
    case (Cons c rest)
    then have "pre = rev rest @ [c]" by (metis rev.simps(2) rev_rev_ident)
    then show ?thesis using Cons by (cases c; cases "fst c") (auto simp: plive_append)
  qed simp
  define m ys where "m = snd (hd (merge_next n post))" and "ys = tl (merge_next n post)"
  have "merge_next n post = (False, m) # ys" unfolding m_def ys_def by (rule merge_next_Cons)
  then show ?thesis using n[of "a + psize pre"]
    by (simp add: coalesce_def plive_append p m_def[symmetric] ys_def[symmetric] add.assoc)
qed

lemma hseg_unique:
  "hseg H p a bs \<Longrightarrow> hseg H p a cs \<Longrightarrow> psize bs = psize cs \<Longrightarrow> a + psize bs < 2 ^ 32 \<Longrightarrow> bs = cs"
proof (induction bs arbitrary: p a cs)
  case Nil
  then show ?case using hseg_total[of H p a cs] by (cases cs) auto
next
  case (Cons b bs)
  obtain u n where b: "b = (u, n)" by (cases b)
  obtain c cs' where c: "cs = c # cs'" using Cons.prems(1,3) b by (cases cs) auto
  obtain v m where v: "c = (v, m)" by (cases c)
  have lt: "a + n < 2 ^ 32" "a + m < 2 ^ 32" using Cons.prems(3,4) b c v by auto
  have "(if u then 1 else 0) = (if v then 1 else (0 :: 16 word))" "(of_nat (a + n) :: 32 word) = of_nat (a + m)"
    using Cons.prems(1,2) b c v by (auto simp del: of_nat_add)
  then have "u = v" "n = m" using of_nat32_inj[OF lt] by (auto split: if_splits)
  moreover have "bs = cs'"
    using Cons.IH[of a "a + n" cs'] Cons.prems b c v \<open>n = m\<close> by auto
  ultimately show ?case using b c v by simp
qed

lemma heap_inv_unique: "heap_inv h bs \<Longrightarrow> heap_inv h cs \<Longrightarrow> bs = cs"
  using hseg_unique[of "hdr h" 0 0 bs cs] heap_shapeD(1,2,5)[of h bs] heap_shapeD(1,2)[of h cs]
  by (simp add: heap_inv_def)

definition heap_ok :: "heap \<Rightarrow> bool" where
  "heap_ok h = (\<exists>bs. heap_inv h bs)"

definition heap_live :: "heap \<Rightarrow> (nat \<times> nat) set" where
  "heap_live h = {x. \<exists>bs. heap_inv h bs \<and> x \<in> plive (unat (heap_ptr h)) bs}"

lemma heap_live_eq: "heap_inv h bs \<Longrightarrow> heap_live h = plive (unat (heap_ptr h)) bs"
  using heap_inv_unique by (auto simp: heap_live_def)

lemma heap_invD:
  assumes "heap_inv h bs"
  shows "hseg (hdr h) 0 0 bs" "psize bs = unat (mem_size_aligned h) + 12" "12 \<le> unat (mem_size_aligned h)"
    "psize bs + 12 < 2 ^ 32" "unat (heap_end h) = psize bs" "unat (heap_ptr h) + psize bs + 12 \<le> 2 ^ 32"
    "0 < unat (heap_ptr h)" "4 dvd unat (heap_ptr h)"
proof -
  have sh: "heap_shape h bs" using assms by (simp add: heap_inv_def)
  note D = heap_shapeD[OF sh]
  show "hseg (hdr h) 0 0 bs" "psize bs = unat (mem_size_aligned h) + 12" "12 \<le> unat (mem_size_aligned h)"
    "psize bs + 12 < 2 ^ 32" "unat (heap_end h) = psize bs" "unat (heap_ptr h) + psize bs + 12 \<le> 2 ^ 32"
    by (rule D)+
  show "0 < unat (heap_ptr h)" "4 dvd unat (heap_ptr h)" using sh unfolding heap_shape_def by blast+
qed

section \<open>The allocator interface\<close>

lemma malloc_size_nat:
  "12 \<le> unat (malloc_size x)" "4 dvd unat (malloc_size x)"
  "12 \<le> unat m \<Longrightarrow> RT_ALIGN x 4 \<le> m \<Longrightarrow> unat (malloc_size x) \<le> unat m"
  "unat x \<le> 2 ^ 32 - 4 \<Longrightarrow> unat x \<le> unat (malloc_size x)"
proof -
  have c: "(RT_ALIGN x 4 < MIN_SIZE_ALIGNED) = (unat (RT_ALIGN x 4) < 12)"
    by (simp add: word_less_nat_alt MIN_SIZE_ALIGNED_def)
  have u: "unat (malloc_size x) = (if unat (RT_ALIGN x 4) < 12 then 12 else unat (RT_ALIGN x 4))"
    unfolding malloc_size_def Let_def c by (simp add: MIN_SIZE_ALIGNED_def)
  have d: "4 dvd unat (RT_ALIGN x 4)"
    unfolding RT_ALIGN_def align4_mask unat_and_not_mask by simp
  show "12 \<le> unat (malloc_size x)" "4 dvd unat (malloc_size x)" unfolding u using d by auto
  show "12 \<le> unat m \<Longrightarrow> RT_ALIGN x 4 \<le> m \<Longrightarrow> unat (malloc_size x) \<le> unat m"
    unfolding u by (simp add: word_le_nat_alt)
  assume "unat x \<le> 2 ^ 32 - 4"
  then have "unat (RT_ALIGN x 4) = (unat x + 3) div 4 * 4" by (intro unat_RT_ALIGN4) simp
  moreover have "unat x \<le> (unat x + 3) div 4 * 4" by presburger
  ultimately show "unat x \<le> unat (malloc_size x)" unfolding u by auto
qed

definition heap_fits :: "heap \<Rightarrow> nat \<Rightarrow> bool" where
  "heap_fits h k \<longleftrightarrow> k \<le> 2 ^ 32 - 4 \<and> RT_ALIGN (of_nat k) 4 \<le> mem_size_aligned h"

definition heap_alloc :: "nat \<Rightarrow> heap \<Rightarrow> nat option \<times> heap" where
  "heap_alloc k h =
    (case mem_alloc (malloc_size (of_nat k)) h of
       Some (Some p, h') \<Rightarrow> (Some (unat (heap_ptr h' + p + SIZEOF_STRUCT_MEM)), h')
     | Some (None, h') \<Rightarrow> (None, h')
     | None \<Rightarrow> (None, h))"

definition heap_release :: "nat \<Rightarrow> heap \<Rightarrow> heap" where
  "heap_release a h = the (mem_release (of_nat a - SIZEOF_STRUCT_MEM - heap_ptr h) h)"

lemma data_address:
  assumes "heap_inv h (pre @ (u, n) # post)" "a = unat (heap_ptr h) + psize pre + 12"
  shows "(of_nat a :: rt_uint32) - SIZEOF_STRUCT_MEM - heap_ptr h = of_nat (psize pre)"
    "unat (heap_ptr h + of_nat (psize pre) + SIZEOF_STRUCT_MEM) = a"
    "heap_ptr h + of_nat (psize pre) + SIZEOF_STRUCT_MEM = of_nat a" "a < 2 ^ 32"
proof -
  note D = heap_invD[OF assms(1)]
  have n: "12 < n" using D(1) by (simp add: hseg_append)
  show lt: "a < 2 ^ 32" using D(6) n assms(2) by simp
  show e: "heap_ptr h + of_nat (psize pre) + SIZEOF_STRUCT_MEM = of_nat a"
    by (simp add: assms(2) SIZEOF_STRUCT_MEM_def)
  show "(of_nat a :: rt_uint32) - SIZEOF_STRUCT_MEM - heap_ptr h = of_nat (psize pre)"
    by (simp add: assms(2) SIZEOF_STRUCT_MEM_def)
  show "unat (heap_ptr h + of_nat (psize pre) + SIZEOF_STRUCT_MEM) = a"
    unfolding e by (rule unat_small32[OF lt])
qed

lemma heap_alloc_cases:
  assumes inv: "heap_inv h bs" and f: "heap_fits h k"
  shows "heap_alloc k h = (None, h) \<or>
    (\<exists>a m h' cs. heap_alloc k h = (Some a, h') \<and> heap_inv h' cs \<and> same_heap h h' \<and> k \<le> m \<and>
      (a, m) \<notin> heap_live h \<and> heap_live h' = insert (a, m) (heap_live h))"
proof -
  let ?sz = "malloc_size (of_nat k)"
  note D = heap_invD[OF inv]
  have uk: "unat (of_nat k :: rt_size) = k" using f by (intro unat_small32) (simp add: heap_fits_def)
  note M = malloc_size_nat[of "of_nat k"]
  have k: "12 \<le> unat ?sz" "4 dvd unat ?sz" "unat ?sz \<le> unat (mem_size_aligned h)"
    using M(1,2) malloc_size_nat(3)[OF D(3)] f by (simp_all add: heap_fits_def)
  have kk: "k \<le> unat ?sz" using M(4) uk f by (simp add: heap_fits_def)
  from mem_alloc_pieces[OF inv k] show ?thesis
  proof (elim disjE exE conjE)
    assume "mem_alloc ?sz h = Some (None, h)"
    then show ?thesis by (simp add: heap_alloc_def)
  next
    fix pre n post h'
    assume b: "bs = pre @ (False, n) # post" "unat ?sz + 12 \<le> n"
      and c: "mem_alloc ?sz h = Some (Some (of_nat (psize pre)), h')"
      and h': "heap_inv h' (pre @ use_piece (unat ?sz) n @ post)" "same_heap h h'"
    let ?a = "unat (heap_ptr h) + psize pre + 12"
    obtain m where m: "unat ?sz \<le> m" "plive (unat (heap_ptr h)) (pre @ use_piece (unat ?sz) n @ post) =
        insert (?a, m) (plive (unat (heap_ptr h)) bs)"
      using plive_use[OF b(2)] b(1) by blast
    have "heap_alloc k h = (Some ?a, h')"
      using c h'(2) data_address(2)[OF inv[unfolded b(1)] refl] by (simp add: heap_alloc_def same_heap_def)
    moreover have "heap_live h' = insert (?a, m) (heap_live h)"
      using heap_live_eq[OF h'(1)] heap_live_eq[OF inv] m(2) h'(2) by (simp add: same_heap_def)
    moreover have "(?a, m) \<notin> heap_live h"
    proof
      assume "(?a, m) \<in> heap_live h"
      then have "(?a, m) \<in> plive (unat (heap_ptr h)) (pre @ (False, n) # post)"
        using heap_live_eq[OF inv] b(1) by simp
      moreover have s: "hseg (hdr h) 0 0 pre" "hseg (hdr h) (psize pre) (psize pre + n) post"
        using D(1) b(1) by (simp_all add: hseg_append)
      ultimately show False
        using plive_bounds[OF s(1), of ?a m "unat (heap_ptr h)"]
          plive_bounds[OF s(2), of ?a m "unat (heap_ptr h) + psize pre + n"] b(2)
        by (auto simp: plive_append)
    qed
    ultimately show ?thesis using h' m(1) kk by (metis le_trans)
  qed
qed

lemma heap_release_cases:
  assumes inv: "heap_inv h bs" and l: "(a, m) \<in> heap_live h"
  shows "\<exists>pre post h'. bs = pre @ (True, m + 12) # post \<and> a = unat (heap_ptr h) + psize pre + 12 \<and>
    mem_release (of_nat (psize pre)) h = Some h' \<and> heap_release a h = h' \<and>
    heap_inv h' (coalesce pre (m + 12) post) \<and> same_heap h h' \<and> heap_live h' = heap_live h - {(a, m)} \<and>
    (lfree_lowest h bs \<longrightarrow> lfree_lowest h' (coalesce pre (m + 12) post))"
proof -
  note D = heap_invD[OF inv]
  have "(a, m) \<in> plive (unat (heap_ptr h)) bs" using l heap_live_eq[OF inv] by simp
  from plive_piece[OF D(1) this] obtain pre post where
    b: "bs = pre @ (True, m + 12) # post" "a = unat (heap_ptr h) + psize pre + 12" by blast
  from mem_release_pieces[OF inv[unfolded b(1)] refl] obtain h' where
    h': "mem_release (of_nat (psize pre)) h = Some h'" "heap_inv h' (coalesce pre (m + 12) post)" "same_heap h h'"
      "lfree_lowest h (pre @ (True, m + 12) # post) \<longrightarrow> lfree_lowest h' (coalesce pre (m + 12) post)" by blast
  have rel: "heap_release a h = h'"
    using data_address(1)[OF inv[unfolded b(1)] b(2)] h'(1) by (simp add: heap_release_def)
  have s: "hseg (hdr h) 0 0 pre" "hseg (hdr h) (psize pre) (psize pre + (m + 12)) post"
    using D(1) b(1) by (simp_all add: hseg_append)
  have "plive (unat (heap_ptr h)) bs = insert (a, m) (plive (unat (heap_ptr h)) (pre @ (False, m + 12) # post))"
    by (simp add: b plive_append)
  moreover have "(a, m) \<notin> plive (unat (heap_ptr h)) (pre @ (False, m + 12) # post)"
    using plive_bounds[OF s(1), of a m "unat (heap_ptr h)"]
      plive_bounds[OF s(2), of a m "unat (heap_ptr h) + psize pre + (m + 12)"]
    by (auto simp: plive_append b(2))
  ultimately have "heap_live h' = heap_live h - {(a, m)}"
    using heap_live_eq[OF h'(2)] heap_live_eq[OF inv] h'(3) by (simp add: same_heap_def plive_coalesce)
  then show ?thesis using b h' rel by blast
qed

interpretation small_heap: allocator heap_ok heap_live heap_alloc heap_release heap_fits
proof unfold_locales
  fix h a n b m
  assume "heap_ok h" and l: "(a, n) \<in> heap_live h"
  then obtain bs where i: "heap_inv h bs" by (auto simp: heap_ok_def)
  note D = heap_invD[OF i]
  show "0 < n" using l plive_bounds[OF D(1)] heap_live_eq[OF i] by blast
  assume "(b, m) \<in> heap_live h"
  then show "(a, n) = (b, m) \<or> a + n \<le> b \<or> b + m \<le> a"
    using l plive_disjoint[OF D(1)] heap_live_eq[OF i] by blast
next
  fix h k a
  assume "heap_ok h" and f: "heap_fits h k"
  then obtain bs where i: "heap_inv h bs" by (auto simp: heap_ok_def)
  note C = heap_alloc_cases[OF i f]
  show "heap_ok (snd (heap_alloc k h))" using C i by (auto simp: heap_ok_def)
  show "heap_live (snd (heap_alloc k h)) = heap_live h" if "fst (heap_alloc k h) = None"
    using C that by auto
  show "\<exists>n. k \<le> n \<and> (a, n) \<notin> heap_live h \<and> heap_live (snd (heap_alloc k h)) = insert (a, n) (heap_live h)"
    if "fst (heap_alloc k h) = Some a"
    using C that by auto
next
  fix h a n
  assume "heap_ok h" and l: "(a, n) \<in> heap_live h"
  then obtain bs where i: "heap_inv h bs" by (auto simp: heap_ok_def)
  from heap_release_cases[OF i l] obtain cs where
    "heap_inv (heap_release a h) cs" "same_heap h (heap_release a h)"
    "heap_live (heap_release a h) = heap_live h - {(a, n)}" by metis
  then show "heap_ok (heap_release a h)" "heap_live (heap_release a h) = heap_live h - {(a, n)}"
    "\<And>k. heap_fits (heap_release a h) k = heap_fits h k"
    unfolding heap_ok_def heap_fits_def same_heap_def by auto
next
  fix h j k
  assume "heap_ok h" and f: "heap_fits h j"
  then obtain bs where i: "heap_inv h bs" by (auto simp: heap_ok_def)
  show "heap_fits (snd (heap_alloc j h)) k = heap_fits h k"
    using heap_alloc_cases[OF i f] by (auto simp: heap_fits_def same_heap_def)
qed

section \<open>Calls with the semaphore of the heap\<close>

text \<open>The semaphore is free and the caller is not an interrupt handler.\<close>

definition heap_unlocked :: "nat \<Rightarrow> kernel \<Rightarrow> bool" where
  "heap_unlocked i s \<longleftrightarrow> sem_ready s i \<and> sem_value (sem s i) > 0 \<and> rt_interrupt_nest s = 0"

lemma heap_lock_cycle:
  assumes "heap_unlocked i s"
  shows "\<exists>s1. rt_sem_take i WAITING_FOREVER s = Some (Done RT_EOK, s1) \<and> rt_sem_release i s1 = Some (RT_EOK, s) \<and>
    rt_interrupt_nest s1 = 0"
proof -
  let ?s1 = "upd_sem i (\<lambda>x. x\<lparr>sem_value := sem_value x - 1\<rparr>) s"
  have ty: "rt_object_get_type (OSem i) s = class_code RT_Object_Class_Semaphore"
    and q: "tq s (sem_queue i) = []"
    using assms by (simp_all add: heap_unlocked_def sem_ready_def sem_inv_def)
  have "rt_sem_take i WAITING_FOREVER s = Some (Done RT_EOK, ?s1)"
    using rt_sem_take_available[OF ty] assms by (simp add: heap_unlocked_def)
  moreover have "rt_sem_release i ?s1 = Some (RT_EOK, upd_sem i (\<lambda>x. x\<lparr>sem_value := sem_value x + 1\<rparr>) ?s1)"
    by (rule rt_sem_release_empty) (use ty q in \<open>simp_all add: upd_sem_def rt_object_get_type_def\<close>)
  moreover have "upd_sem i (\<lambda>x. x\<lparr>sem_value := sem_value x + 1\<rparr>) ?s1 = s"
    by (simp add: upd_sem_def)
  ultimately show ?thesis using assms by (simp add: heap_unlocked_def upd_sem_def)
qed

lemma and_mod4:
  fixes x :: rt_uint32
  assumes "4 dvd unat x"
  shows "x AND (4 - 1) = 0" "x mod 4 = 0"
proof -
  have "unat (x mod 4) = 0" using assms by (simp add: unat_mod)
  then show m: "x mod 4 = 0" using word_unat_eq_iff[of "x mod 4" 0] by simp
  have "x AND mask 2 = x mod 4" by (simp add: take_bit_eq_mod flip: take_bit_eq_mask)
  then show "x AND (4 - 1) = 0" using m by (simp only: align4_mask)
qed

lemma data_address_props:
  assumes inv: "heap_inv h (pre @ (u, n) # post)" and a: "unat r = unat (heap_ptr h) + psize pre + 12"
  shows "r \<noteq> 0" "r AND (4 - 1) = 0" "r \<ge> heap_ptr h" "r < heap_ptr h + heap_end h"
    "r - SIZEOF_STRUCT_MEM - heap_ptr h = of_nat (psize pre)"
    "(heap_ptr h + of_nat (psize pre) + SIZEOF_STRUCT_MEM) = r"
    "(heap_ptr h + of_nat (psize pre)) AND (4 - 1) = 0" "r mod 4 = 0"
proof -
  note D = heap_invD[OF inv] and A = data_address[OF inv refl]
  have r: "r = of_nat (unat (heap_ptr h) + psize pre + 12)" unfolding a[symmetric] by simp
  have n: "12 < n" "4 dvd psize pre" using D(1) hseg_dvd[of "hdr h" 0 0 pre] by (simp_all add: hseg_append)
  show "r \<noteq> 0" using a by auto
  have "4 dvd unat r" unfolding a using D(8) n(2) by simp
  from and_mod4[OF this] show "r AND (4 - 1) = 0" "r mod 4 = 0" by auto
  show "r \<ge> heap_ptr h" unfolding word_le_nat_alt a by simp
  have "unat (heap_ptr h + heap_end h) = unat (heap_ptr h) + unat (heap_end h)"
    using D(5,6) by (simp add: unat_word_ariths)
  then show "r < heap_ptr h + heap_end h" unfolding word_less_nat_alt a using D(5) n(1) by simp
  show "r - SIZEOF_STRUCT_MEM - heap_ptr h = of_nat (psize pre)" unfolding r by (rule A(1))
  show "heap_ptr h + of_nat (psize pre) + SIZEOF_STRUCT_MEM = r" unfolding r by (rule A(3))
  have "unat (heap_ptr h + of_nat (psize pre)) = unat (heap_ptr h) + psize pre"
    using D(6) n(1) by (simp add: unat_word_ariths unat_of_nat)
  then have "4 dvd unat (heap_ptr h + of_nat (psize pre))" using D(8) n(2) by simp
  from and_mod4(1)[OF this] show "(heap_ptr h + of_nat (psize pre)) AND (4 - 1) = 0" .
qed

text \<open>The condition under which rt\_malloc searches.\<close>

definition malloc_searches :: "rt_size \<Rightarrow> heap \<Rightarrow> bool" where
  "malloc_searches sz h \<longleftrightarrow> sz \<noteq> 0 \<and> \<not> RT_ALIGN sz 4 > mem_size_aligned h"

lemma rt_malloc_result:
  assumes inv: "heap_inv h bs" and lk: "heap_unlocked i s"
  shows "(rt_malloc i sz h s = Some (Done 0, h, s) \<and>
       (malloc_searches sz h \<longrightarrow>
         alloc_fails h (unat (malloc_size sz)) bs \<and> heap_alloc (unat sz) h = (None, h))) \<or>
    (\<exists>pre n post p h'. malloc_searches sz h \<and> bs = pre @ (False, n) # post \<and> unat (malloc_size sz) + 12 \<le> n \<and>
       first_fit h (unat (malloc_size sz)) pre \<and> rt_malloc i sz h s = Some (Done p, h', s) \<and>
       unat p = unat (heap_ptr h) + psize pre + 12 \<and> p \<noteq> 0 \<and> p AND 3 = 0 \<and>
       heap_alloc (unat sz) h = (Some (unat p), h') \<and>
       heap_inv h' (pre @ use_piece (unat (malloc_size sz)) n @ post) \<and> same_heap h h' \<and>
       (lfree_lowest h bs \<longrightarrow> lfree_lowest h' (pre @ use_piece (unat (malloc_size sz)) n @ post)))"
proof (cases "malloc_searches sz h")
  case False
  then have "rt_malloc i sz h s = Some (Done 0, h, s)"
    using lk by (auto simp: rt_malloc_def malloc_searches_def not_in_interrupt_def heap_unlocked_def)
  then show ?thesis using False by simp
next
  case True
  let ?z = "malloc_size sz"
  note D = heap_invD[OF inv]
  have z: "12 \<le> unat ?z" "4 dvd unat ?z" "unat ?z \<le> unat (mem_size_aligned h)"
    using malloc_size_nat(1,2) malloc_size_nat(3)[OF D(3)] True by (auto simp: malloc_searches_def not_less)
  obtain s1 where s1: "rt_sem_take i WAITING_FOREVER s = Some (Done RT_EOK, s1)" "rt_sem_release i s1 = Some (RT_EOK, s)"
    using heap_lock_cycle[OF lk] by blast
  have call: "rt_malloc i sz h s = rt_malloc_locked i ?z h s1"
    using True s1(1) lk by (simp add: rt_malloc_def malloc_searches_def not_in_interrupt_def heap_unlocked_def)
  from mem_alloc_pieces[OF inv z] show ?thesis
  proof (elim disjE exE conjE)
    assume "mem_alloc ?z h = Some (None, h)" "alloc_fails h (unat ?z) bs"
    then show ?thesis using s1(2) call by (simp add: rt_malloc_locked_def heap_alloc_def)
  next
    fix pre n post h'
    assume b: "bs = pre @ (False, n) # post" "unat ?z + 12 \<le> n" "first_fit h (unat ?z) pre"
      and c: "mem_alloc ?z h = Some (Some (of_nat (psize pre)), h')"
      and h': "heap_inv h' (pre @ use_piece (unat ?z) n @ post)" "same_heap h h'"
        "lfree_lowest h bs \<longrightarrow> lfree_lowest h' (pre @ use_piece (unat ?z) n @ post)"
    let ?p = "heap_ptr h + of_nat (psize pre) + SIZEOF_STRUCT_MEM"
    have inv': "heap_inv h (pre @ (False, n) # post)" using inv b by simp
    have up: "unat ?p = unat (heap_ptr h) + psize pre + 12" by (rule data_address(2)[OF inv' refl])
    note P = data_address_props[OF inv' up]
    have u1: "unat (?p + ?z) = unat (heap_ptr h) + psize pre + 12 + unat ?z"
    proof -
      have "unat ?p + unat ?z < 2 ^ 32" unfolding up using D(6) b by simp
      then show ?thesis unfolding up[symmetric] by (simp add: unat_plus_simple[THEN iffD1] unat_word_ariths)
    qed
    have u2: "unat (heap_ptr h + heap_end h) = unat (heap_ptr h) + unat (heap_end h)"
      using D(5,6) by (simp add: unat_word_ariths)
    have "?p + ?z \<le> heap_ptr h + heap_end h"
      unfolding word_le_nat_alt u1 u2 D(5) using b by simp
    then have "rt_malloc i sz h s = Some (Done ?p, h', s)"
      using call c s1(2) P(7,8) h'(2) by (simp add: rt_malloc_locked_def same_heap_def Let_def)
    moreover have "heap_alloc (unat sz) h = (Some (unat ?p), h')"
      using c h'(2) by (simp add: heap_alloc_def same_heap_def)
    ultimately show ?thesis using True b up P(1,2) h' by auto
  qed
qed

end
