(* ===== verification/RT_Mem_Calls.thy ===== *)
theory RT_Mem_Calls
  imports RT_Mem_Run RT_Demo
begin

text \<open>rt\_free, rt\_realloc and rt\_calloc with the semaphore of the heap, the contents of blocks,
  and the properties of the small memory allocator.\<close>

lemma rt_free_result:
  assumes inv: "heap_inv h bs" and lk: "heap_unlocked i s" and l: "(unat r, m) \<in> heap_live h"
  shows "rt_free i r h s = Some (Done (), heap_release (unat r) h, s)"
proof -
  from heap_release_cases[OF inv l] obtain pre post h' where
    b: "bs = pre @ (True, m + 12) # post" "unat r = unat (heap_ptr h) + psize pre + 12"
    and c: "mem_release (of_nat (psize pre)) h = Some h'" "heap_release (unat r) h = h'" by blast
  note P = data_address_props[OF inv[unfolded b(1)] b(2)]
  obtain s1 where s1: "rt_sem_take i WAITING_FOREVER s = Some (Done RT_EOK, s1)" "rt_sem_release i s1 = Some (RT_EOK, s)"
    using heap_lock_cycle[OF lk] by blast
  show ?thesis
    using P(1-5) s1 c lk
    by (simp add: rt_free_def rt_free_locked_def not_in_interrupt_def heap_unlocked_def not_less not_le)
qed

text \<open>The contents of a block.\<close>

definition bytes_at :: "heap \<Rightarrow> nat \<Rightarrow> nat \<Rightarrow> rt_uint8 list" where
  "bytes_at h a n = map (\<lambda>j. mem_bytes h (of_nat (a + j))) [0..<n]"

lemma bytes_at_same: "mem_bytes h' = mem_bytes h \<Longrightarrow> bytes_at h' a n = bytes_at h a n"
  by (simp add: bytes_at_def)

lemma bytes_at_take: "k \<le> n \<Longrightarrow> bytes_at h' b n = bytes_at h a n \<Longrightarrow> bytes_at h' b k = bytes_at h a k"
  by (auto simp: bytes_at_def list_eq_iff_nth_eq)

lemma block_copied_bytes:
  assumes m: "mem_bytes h' = block_copied (of_nat p) (of_nat a) c (mem_bytes h)" and p: "p + c \<le> 2 ^ 32"
  shows "bytes_at h' p c = bytes_at h a c"
    "x + n \<le> p \<or> p + c \<le> x \<Longrightarrow> x + n \<le> 2 ^ 32 \<Longrightarrow> bytes_at h' x n = bytes_at h x n"
proof -
  have "mem_bytes h' (of_nat (p + j)) = mem_bytes h (of_nat (a + j))" if "j < c" for j
  proof -
    have "unat (of_nat j :: 32 word) = j" using that p by (intro unat_small32) simp
    then show ?thesis using that unfolding m block_copied_def by simp
  qed
  then show "bytes_at h' p c = bytes_at h a c" by (simp add: bytes_at_def)
  assume x: "x + n \<le> p \<or> p + c \<le> x" "x + n \<le> 2 ^ 32"
  have "mem_bytes h' (of_nat (x + j)) = mem_bytes h (of_nat (x + j))" if j: "j < n" for j
  proof -
    have ux: "unat (of_nat (x + j) :: 32 word) = x + j" using x j by (intro unat_small32) simp
    have "\<not> unat ((of_nat (x + j) :: 32 word) - of_nat p) < c"
    proof (cases "c = 0")
      case False
      then have up: "unat (of_nat p :: 32 word) = p" using p by (intro unat_small32) simp
      show ?thesis unfolding unat_sub32[of "of_nat (x + j)"] ux up using x j p by auto
    qed simp
    then show ?thesis unfolding m block_copied_def by simp
  qed
  then show "bytes_at h' x n = bytes_at h x n" by (simp add: bytes_at_def)
qed

text \<open>The other live blocks of the heap are there, with their contents.\<close>

definition others_kept :: "heap \<Rightarrow> heap \<Rightarrow> nat \<times> nat \<Rightarrow> bool" where
  "others_kept h h' b \<longleftrightarrow>
    (\<forall>(x, k) \<in> heap_live h - {b}. (x, k) \<in> heap_live h' \<and> bytes_at h' x k = bytes_at h x k)"

lemma mem_bytes_frame:
  "hdr (h\<lparr>mem_bytes := b\<rparr>) = hdr h" "heap_inv (h\<lparr>mem_bytes := b\<rparr>) bs = heap_inv h bs"
  "heap_live (h\<lparr>mem_bytes := b\<rparr>) = heap_live h"
  by (simp_all add: heap_inv_def heap_shape_def heap_live_def)

lemma live_bound:
  assumes "heap_inv h bs" "(x, k) \<in> heap_live h"
  shows "x + k \<le> 2 ^ 32" "unat (heap_ptr h) + 12 \<le> x" "0 < k"
  using heap_invD(1,6)[OF assms(1)] plive_bounds[of "hdr h" 0 0 bs x k "unat (heap_ptr h)"] assms(2)
    heap_live_eq[OF assms(1)] by auto

lemma heap_release_same:
  assumes "heap_inv h bs" "(a, m) \<in> heap_live h"
  shows "heap_ok (heap_release a h)" "mem_bytes (heap_release a h) = mem_bytes h"
    "heap_live (heap_release a h) = heap_live h - {(a, m)}"
  using heap_release_cases[OF assms] by (auto simp: heap_ok_def same_heap_def)

lemma malloc_live:
  assumes inv: "heap_inv h (pre @ (False, n) # post)" and k: "k + 12 \<le> n"
    and h': "heap_inv h' (pre @ use_piece k n @ post)" "same_heap h h'"
    and p: "p = unat (heap_ptr h) + psize pre + 12"
  shows "\<exists>m. k \<le> m \<and> heap_live h' = insert (p, m) (heap_live h) \<and>
    (\<forall>(x, j) \<in> heap_live h. p + m \<le> x \<or> x + j \<le> p)"
proof -
  obtain m where m: "k \<le> m" "heap_live h' = insert (p, m) (heap_live h)"
    using plive_use[OF k, of "unat (heap_ptr h)" pre post] heap_live_eq[OF inv] heap_live_eq[OF h'(1)] h'(2) p
    by (auto simp: same_heap_def)
  have "p + m \<le> x \<or> x + j \<le> p" if x: "(x, j) \<in> heap_live h" for x j
  proof -
    have "(x, j) \<noteq> (p, m)"
    proof
      assume e: "(x, j) = (p, m)"
      have s: "hseg (hdr h) 0 0 pre" "hseg (hdr h) (psize pre) (psize pre + n) post"
        using heap_invD(1)[OF inv] by (simp_all add: hseg_append)
      have "(p, m) \<in> plive (unat (heap_ptr h)) (pre @ (False, n) # post)" using x e heap_live_eq[OF inv] by simp
      then show False
        using plive_bounds[OF s(1), of p m "unat (heap_ptr h)"] k
          plive_bounds[OF s(2), of p m "unat (heap_ptr h) + psize pre + n"] heap_invD(1)[OF inv]
        by (auto simp: plive_append p hseg_append)
    qed
    moreover have "(x, j) \<in> plive (unat (heap_ptr h')) (pre @ use_piece k n @ post)"
        "(p, m) \<in> plive (unat (heap_ptr h')) (pre @ use_piece k n @ post)"
      using x m(2) heap_live_eq[OF h'(1)] by auto
    ultimately show ?thesis using plive_disjoint[OF heap_invD(1)[OF h'(1)]] by blast
  qed
  with m show ?thesis by blast
qed

lemma plive_shrink:
  assumes "w + 36 < n"
  shows "plive a (coalesce (pre @ [(True, w + 12)]) (n - (w + 12)) post) =
    insert (a + psize pre + 12, w) (plive a (pre @ (False, n) # post))"
  using assms by (simp add: plive_coalesce plive_append add.assoc)

lemma RT_ALIGN_idem: "RT_ALIGN x 4 AND NOT (mask 2) = RT_ALIGN x 4"
  unfolding RT_ALIGN_def align4_mask by (simp add: and.assoc)

lemma align_fixed:
  assumes "4 dvd unat w" "unat w \<le> 2 ^ 32 - 4"
  shows "RT_ALIGN w 4 = w"
proof -
  have "unat (RT_ALIGN w 4) = (unat w + 3) div 4 * 4" by (rule unat_RT_ALIGN4) (use assms(2) in simp)
  also have "\<dots> = unat w" using assms(1) by auto
  finally show ?thesis using word_unat_eq_iff by blast
qed

lemma align_bounds:
  assumes "0 < unat x" "unat x \<le> 2 ^ 32 - 4"
  shows "4 dvd unat (RT_ALIGN x 4)" "unat x \<le> unat (RT_ALIGN x 4)" "RT_ALIGN x 4 \<noteq> 0"
proof -
  have e: "unat (RT_ALIGN x 4) = (unat x + 3) div 4 * 4" by (rule unat_RT_ALIGN4) (use assms in simp)
  show "4 dvd unat (RT_ALIGN x 4)" unfolding e by simp
  show l: "unat x \<le> unat (RT_ALIGN x 4)" unfolding e by presburger
  show "RT_ALIGN x 4 \<noteq> 0" using l assms(1) by auto
qed

lemma realloc_in_place:
  assumes inv: "heap_inv h bs" and l: "(unat r, m) \<in> heap_live h"
    and h': "heap_ok h'" "mem_bytes h' = mem_bytes h" "heap_live h' = insert (unat r, w) (heap_live h - {(unat r, m)})"
    and n: "n \<le> w"
  shows "heap_ok h' \<and> (\<exists>j \<ge> n. (unat r, j) \<in> heap_live h' \<and>
      bytes_at h' (unat r) (min m n) = bytes_at h (unat r) (min m n)) \<and> others_kept h h' (unat r, m)"
  using h' n bytes_at_same[OF h'(2)] by (auto simp: others_kept_def)

lemma realloc_moved:
  assumes inv: "heap_inv h bs" and l: "(unat r, m) \<in> heap_live h"
    and h1: "heap_inv h1 cs" "same_heap h h1" "heap_live h1 = insert (unat p, j) (heap_live h)"
      "\<forall>(x, q) \<in> heap_live h. unat p + j \<le> x \<or> x + q \<le> unat p"
    and c: "unat cnt \<le> m" "unat cnt \<le> j" and al: "p AND 3 = 0" "r AND 3 = 0"
  shows "\<exists>b. rt_memcpy p r cnt (mem_bytes h1) = Some b \<and>
    (let h' = heap_release (unat r) (h1\<lparr>mem_bytes := b\<rparr>) in
     heap_inv (h1\<lparr>mem_bytes := b\<rparr>) cs \<and> (unat r, m) \<in> heap_live (h1\<lparr>mem_bytes := b\<rparr>) \<and>
     heap_ok h' \<and> (unat p, j) \<in> heap_live h' \<and>
     bytes_at h' (unat p) (unat cnt) = bytes_at h (unat r) (unat cnt) \<and> others_kept h h' (unat r, m))"
proof -
  have bd: "unat p + j \<le> 2 ^ 32" "unat r + m \<le> 2 ^ 32"
    using live_bound(1)[OF h1(1), of "unat p" j] live_bound(1)[OF inv l] h1(3) by auto
  have dj: "unat p + j \<le> unat r \<or> unat r + m \<le> unat p" using h1(4) l by blast
  have "up_safe p r (unat cnt)"
    unfolding up_safe_def unat_sub32[of p r] using dj bd c by auto
  then have cp: "rt_memcpy p r cnt (mem_bytes h1) = Some (block_copied p r (unat cnt) (mem_bytes h1))"
    using al by (intro rt_memcpy_block) auto
  let ?b = "block_copied p r (unat cnt) (mem_bytes h1)"
  let ?h2 = "h1\<lparr>mem_bytes := ?b\<rparr>"
  let ?h' = "heap_release (unat r) ?h2"
  have i2: "heap_inv ?h2 cs" using h1(1) by (simp add: mem_bytes_frame)
  have l2: "(unat r, m) \<in> heap_live ?h2" using l h1(3) by (simp add: mem_bytes_frame)
  note R = heap_release_same[OF i2 l2]
  have mb: "mem_bytes h1 = mem_bytes h" using h1(2) by (simp add: same_heap_def)
  have hm: "mem_bytes ?h' = block_copied (of_nat (unat p)) (of_nat (unat r)) (unat cnt) (mem_bytes h)"
    using R(2) mb by simp
  have pc: "unat p + unat cnt \<le> 2 ^ 32" using bd(1) c by simp
  have lv: "heap_live ?h' = insert (unat p, j) (heap_live h) - {(unat r, m)}"
    using R(3) h1(3) by (simp add: mem_bytes_frame)
  have pr: "(unat p, j) \<noteq> (unat r, m)" using h1(4) l live_bound(3)[OF inv l] by fastforce
  have "others_kept h ?h' (unat r, m)" unfolding others_kept_def
  proof
    fix y assume y: "y \<in> heap_live h - {(unat r, m)}"
    obtain x k where xk: "y = (x, k)" by (cases y)
    then have x: "(x, k) \<in> heap_live h" "(x, k) \<noteq> (unat r, m)" using y by auto
    have "x + k \<le> unat p \<or> unat p + unat cnt \<le> x" using h1(4) x(1) c(2) by fastforce
    from block_copied_bytes(2)[OF hm pc this live_bound(1)[OF inv x(1)]]
    show "case y of (x, k) \<Rightarrow> (x, k) \<in> heap_live ?h' \<and> bytes_at ?h' x k = bytes_at h x k"
      using lv x xk by auto
  qed
  then show ?thesis using cp i2 l2 R(1) lv pr block_copied_bytes(1)[OF hm pc] by (auto simp: Let_def)
qed

lemma rt_realloc_result:
  assumes inv: "heap_inv h bs" and lk: "heap_unlocked i s" and l: "(unat r, m) \<in> heap_live h"
    and n: "0 < unat newsize" "unat newsize \<le> 2 ^ 32 - 4"
  shows "rt_realloc i r newsize h s = Some (Done 0, h, s) \<or>
    (\<exists>p h'. rt_realloc i r newsize h s = Some (Done p, h', s) \<and> p \<noteq> 0 \<and> heap_ok h' \<and>
       (\<exists>j \<ge> unat newsize. (unat p, j) \<in> heap_live h' \<and>
          bytes_at h' (unat p) (min m (unat newsize)) = bytes_at h (unat r) (min m (unat newsize))) \<and>
       others_kept h h' (unat r, m))"
proof -
  let ?w = "RT_ALIGN newsize 4"
  note A = align_bounds[OF n]
  note D = heap_invD[OF inv]
  have lp: "(unat r, m) \<in> plive (unat (heap_ptr h)) bs" using l heap_live_eq[OF inv] by simp
  from plive_piece[OF D(1) lp] obtain pre post where
    b: "bs = pre @ (True, m + 12) # post" "unat r = unat (heap_ptr h) + psize pre + 12" by blast
  note P = data_address_props[OF inv[unfolded b(1)] b(2)]
  have ni: "not_in_interrupt s = Some ()" using lk by (simp add: not_in_interrupt_def heap_unlocked_def)
  show ?thesis
  proof (cases "?w > mem_size_aligned h")
    case True
    then show ?thesis using ni by (simp add: rt_realloc_def Let_def)
  next
    case False
    obtain s1 where s1: "rt_sem_take i WAITING_FOREVER s = Some (Done RT_EOK, s1)" "rt_sem_release i s1 = Some (RT_EOK, s)"
      using heap_lock_cycle[OF lk] by blast
    have call: "rt_realloc i r newsize h s = rt_realloc_locked i r ?w h s1"
      using False ni A(3) P(1) s1(1) by (simp add: rt_realloc_def Let_def)
    have hn: "hm_next (hdr h (of_nat (psize pre))) = of_nat (psize pre + (m + 12))" and m: "0 < m" "4 dvd m + 12"
      using D(1) b(1) by (auto simp: hseg_append)
    have ml: "m + 12 + psize pre < 2 ^ 32" using D(4) b(1) by simp
    have sz: "hm_next (hdr h (of_nat (psize pre))) - of_nat (psize pre) - SIZEOF_STRUCT_MEM = of_nat m"
      unfolding hn by (simp add: SIZEOF_STRUCT_MEM_def)
    have um: "unat (of_nat m :: rt_size) = m" using ml by (intro unat_small32) simp
    have wl: "unat ?w \<le> unat (mem_size_aligned h)" using False by (simp add: word_le_nat_alt not_less)
    have w24: "unat (?w + SIZEOF_STRUCT_MEM + 12) = unat ?w + 24"
    proof -
      have "unat ?w + 24 < 2 ^ 32" using wl D(2,4,6,7) by simp
      then show ?thesis by (simp add: SIZEOF_STRUCT_MEM_def unat_word_ariths)
    qed
    have split: "(?w + SIZEOF_STRUCT_MEM + 12 < of_nat m) = (unat ?w + 24 < m)"
      unfolding word_less_nat_alt w24 um ..
    have body: "rt_realloc_locked i r ?w h s1 =
        (if of_nat m = ?w then Some (Done r, h, s)
         else if unat ?w + 24 < m then do { h \<leftarrow> mem_shrink (of_nat (psize pre)) ?w h; Some (Done r, h, s) }
         else do {
           (x, h, s) \<leftarrow> rt_malloc i ?w h s;
           (case x of Blocked \<Rightarrow> Some (Blocked, h, s)
            | Done nmem \<Rightarrow> rt_realloc_moved i r (of_nat m) ?w nmem h s) })"
    proof -
      have nr: "\<not> (r < heap_ptr h \<or> r \<ge> heap_ptr h + heap_end h)" using P(3,4) by (simp add: not_less not_le)
      show ?thesis unfolding rt_realloc_locked_def Let_def P(5) sz split if_not_P[OF nr] using s1(2) by simp
    qed
    show ?thesis
    proof (cases "of_nat m = ?w")
      case True
      then have "unat ?w = m" using um by simp
      then have "unat newsize \<le> m" using A(2) by simp
      moreover have "rt_realloc i r newsize h s = Some (Done r, h, s)" using call body True by simp
      ultimately show ?thesis using l inv P(1) by (auto simp: others_kept_def heap_ok_def)
    next
      case ne: False
      show ?thesis
      proof (cases "unat ?w + 24 < m")
        case True
        have w0: "0 < unat ?w" using A(2) n(1) by simp
        from mem_shrink_pieces[OF inv[unfolded b(1)] refl A(1) _ w0] True obtain h' where
          h': "mem_shrink (of_nat (psize pre)) ?w h = Some h'" "same_heap h h'"
            "heap_inv h' (coalesce (pre @ [(True, unat ?w + 12)]) (m + 12 - (unat ?w + 12)) post)" by auto
        have s: "hseg (hdr h) 0 0 pre" "hseg (hdr h) (psize pre) (psize pre + (m + 12)) post"
          using D(1) b(1) by (simp_all add: hseg_append)
        have old: "heap_live h = insert (unat r, m) (plive (unat (heap_ptr h)) (pre @ (False, m + 12) # post))"
            "(unat r, m) \<notin> plive (unat (heap_ptr h)) (pre @ (False, m + 12) # post)"
          using plive_bounds[OF s(1), of "unat r" m "unat (heap_ptr h)"]
            plive_bounds[OF s(2), of "unat r" m "unat (heap_ptr h) + psize pre + (m + 12)"]
          by (auto simp: heap_live_eq[OF inv] b plive_append)
        have "heap_live h' = insert (unat r, unat ?w) (plive (unat (heap_ptr h)) (pre @ (False, m + 12) # post))"
          using plive_shrink[of "unat ?w" "m + 12" "unat (heap_ptr h)" pre post] True h'(2) b(2)
          by (simp add: heap_live_eq[OF h'(3)] same_heap_def)
        then have live: "heap_live h' = insert (unat r, unat ?w) (heap_live h - {(unat r, m)})"
          unfolding old(1) using old(2) by auto
        have "rt_realloc i r newsize h s = Some (Done r, h', s)" using call body ne True h'(1) by simp
        then show ?thesis
          using realloc_in_place[OF inv l _ _ live A(2)] h'(2,3) P(1) by (auto simp: heap_ok_def same_heap_def)
      next
        case False
        have w: "RT_ALIGN ?w 4 = ?w" "unat ?w \<le> unat (malloc_size ?w)"
        proof -
          have "unat ?w \<le> 2 ^ 32 - 4" using wl D(2,4) by simp
          then show "RT_ALIGN ?w 4 = ?w" "unat ?w \<le> unat (malloc_size ?w)"
            using align_fixed[OF A(1)] malloc_size_nat(4)[of ?w] by simp_all
        qed
        from rt_malloc_result[OF inv lk, of ?w] show ?thesis
        proof (elim disjE exE conjE)
          assume "rt_malloc i ?w h s = Some (Done 0, h, s)"
          then show ?thesis using call body ne False by (simp add: rt_realloc_moved_def)
        next
          fix q n' t p h1
          assume q: "bs = q @ (False, n') # t" "unat (malloc_size ?w) + 12 \<le> n'"
            and c: "rt_malloc i ?w h s = Some (Done p, h1, s)" "unat p = unat (heap_ptr h) + psize q + 12" "p \<noteq> 0"
              "p AND 3 = 0"
            and h1: "heap_inv h1 (q @ use_piece (unat (malloc_size ?w)) n' @ t)" "same_heap h h1"
          from malloc_live[OF inv[unfolded q(1)] q(2) h1 refl] obtain j where
            j: "unat (malloc_size ?w) \<le> j" "heap_live h1 = insert (unat p, j) (heap_live h)"
              "\<forall>(x, k) \<in> heap_live h. unat p + j \<le> x \<or> x + k \<le> unat p"
            unfolding c(2) by blast
          let ?cnt = "if of_nat m < ?w then of_nat m else ?w"
          have cnt: "unat ?cnt = min m (unat ?w)" using um by (auto simp: word_less_nat_alt min_def)
          have c': "unat ?cnt \<le> m" "unat ?cnt \<le> j" unfolding cnt using j(1) w(2) by auto
          have r4: "r AND 3 = 0" using P(2) by simp
          from realloc_moved[OF inv l h1 j(2,3) c' c(4) r4] obtain b where
            mv: "rt_memcpy p r ?cnt (mem_bytes h1) = Some b"
              "heap_inv (h1\<lparr>mem_bytes := b\<rparr>) (q @ use_piece (unat (malloc_size ?w)) n' @ t)"
              "(unat r, m) \<in> heap_live (h1\<lparr>mem_bytes := b\<rparr>)"
            and res: "heap_ok (heap_release (unat r) (h1\<lparr>mem_bytes := b\<rparr>))"
              "(unat p, j) \<in> heap_live (heap_release (unat r) (h1\<lparr>mem_bytes := b\<rparr>))"
              "bytes_at (heap_release (unat r) (h1\<lparr>mem_bytes := b\<rparr>)) (unat p) (unat ?cnt) =
                bytes_at h (unat r) (unat ?cnt)"
              "others_kept h (heap_release (unat r) (h1\<lparr>mem_bytes := b\<rparr>)) (unat r, m)"
            unfolding Let_def by blast
          let ?h' = "heap_release (unat r) (h1\<lparr>mem_bytes := b\<rparr>)"
          have "rt_realloc i r newsize h s = Some (Done p, ?h', s)"
            using call body ne False c(1,3) mv(1) rt_free_result[OF mv(2) lk mv(3)]
            by (simp add: rt_realloc_moved_def)
          moreover have "min m (unat newsize) \<le> unat ?cnt" unfolding cnt using A(2) by auto
          from bytes_at_take[OF this res(3)]
          have "bytes_at ?h' (unat p) (min m (unat newsize)) = bytes_at h (unat r) (min m (unat newsize))" .
          moreover have "unat newsize \<le> j" using A(2) w(2) j(1) by simp
          ultimately show ?thesis using res c(3) by blast
        qed
      qed
    qed
  qed
qed

lemma rt_calloc_result:
  assumes inv: "heap_inv h bs" and lk: "heap_unlocked i s"
    and k: "unat count * unat sz < 2 ^ 32"
    and r: "rt_malloc i (count * sz) h s = Some (Done p, h1, s)" "p \<noteq> 0"
  shows "\<exists>h'. rt_calloc i count sz h s = Some (Done p, h', s) \<and> hdr h' = hdr h1 \<and>
    bytes_at h' (unat p) (unat count * unat sz) = replicate (unat count * unat sz) 0"
proof -
  let ?n = "unat count * unat sz"
  have un: "unat (count * sz) = ?n" using k by (simp add: unat_word_ariths)
  let ?h' = "rt_calloc_filled p (count * sz) h1"
  have mb: "mem_bytes ?h' = block_filled p 0 ?n (mem_bytes h1)"
    using r(2) by (simp add: rt_calloc_filled_def rt_memset_block un)
  have "mem_bytes ?h' (of_nat (unat p + j)) = 0" if "j < ?n" for j
  proof -
    have "unat (of_nat j :: 32 word) = j" using that k by (intro unat_small32) simp
    then show ?thesis using that unfolding mb block_filled_def by simp
  qed
  then have "bytes_at ?h' (unat p) ?n = replicate ?n 0"
    unfolding bytes_at_def by (simp add: list_eq_iff_nth_eq)
  moreover have "hdr ?h' = hdr h1" by (simp add: rt_calloc_filled_def)
  ultimately show ?thesis using r(1) by (simp add: rt_calloc_def)
qed

section \<open>Properties\<close>

text \<open>C27. rt\_malloc, called while the heap is not locked, always returns, and either returns a null
  pointer and leaves the heap as it was, because the size is zero or too large or no free block from
  the lowest one on is large enough below the limit of the search; or takes the first such block:
  the address is aligned, the block is new, as long as asked for and disjoint from every live
  block, which all stay live, and the list of blocks stays well formed and without adjacent holes.\<close>

theorem rt_malloc_correct:
  assumes "heap_inv h bs" "heap_unlocked i s"
  shows "(rt_malloc i sz h s = Some (Done 0, h, s) \<and>
      (sz = 0 \<or> RT_ALIGN sz 4 > mem_size_aligned h \<or> alloc_fails h (unat (malloc_size sz)) bs)) \<or>
    (\<exists>pre n post p m h'. rt_malloc i sz h s = Some (Done p, h', s) \<and>
      bs = pre @ (False, n) # post \<and> first_fit h (unat (malloc_size sz)) pre \<and>
      unat p = unat (heap_ptr h) + psize pre + 12 \<and> p AND 3 = 0 \<and>
      heap_inv h' (pre @ use_piece (unat (malloc_size sz)) n @ post) \<and>
      (sz \<le> 0xfffffffc \<longrightarrow> unat sz \<le> m) \<and> heap_live h' = insert (unat p, m) (heap_live h) \<and>
      (\<forall>(x, j) \<in> heap_live h. unat p + m \<le> x \<or> x + j \<le> unat p) \<and>
      (lfree_lowest h bs \<longrightarrow> lfree_lowest h' (pre @ use_piece (unat (malloc_size sz)) n @ post)))"
proof -
  have big: "sz \<le> 0xfffffffc \<Longrightarrow> unat sz \<le> unat (malloc_size sz)"
    using malloc_size_nat(4)[of sz] by (simp add: word_le_nat_alt)
  from rt_malloc_result[OF assms, of sz] show ?thesis
  proof (elim disjE exE conjE)
    assume "rt_malloc i sz h s = Some (Done 0, h, s)"
      "malloc_searches sz h \<longrightarrow> alloc_fails h (unat (malloc_size sz)) bs \<and> heap_alloc (unat sz) h = (None, h)"
    then show ?thesis by (auto simp: malloc_searches_def)
  next
    fix pre n post p h'
    assume b: "bs = pre @ (False, n) # post" "unat (malloc_size sz) + 12 \<le> n"
      and h': "heap_inv h' (pre @ use_piece (unat (malloc_size sz)) n @ post)" "same_heap h h'"
      and p: "unat p = unat (heap_ptr h) + psize pre + 12"
      and rest: "first_fit h (unat (malloc_size sz)) pre" "rt_malloc i sz h s = Some (Done p, h', s)" "p AND 3 = 0"
        "lfree_lowest h bs \<longrightarrow> lfree_lowest h' (pre @ use_piece (unat (malloc_size sz)) n @ post)"
    from malloc_live[OF assms(1)[unfolded b(1)] b(2) h' refl] obtain m where
      "unat (malloc_size sz) \<le> m" "heap_live h' = insert (unat p, m) (heap_live h)"
      "\<forall>(x, j) \<in> heap_live h. unat p + m \<le> x \<or> x + j \<le> unat p"
      unfolding p by blast
    then show ?thesis using b(1) h'(1) p rest big by (blast intro: le_trans)
  qed
qed

text \<open>C28. rt\_free of a live block always returns; the block alone stops being live, its piece is
  merged with a free piece before and after it, no other byte changes and the lowest-free pointer
  still points to the lowest free block when it did before. Freeing the null pointer does nothing.\<close>

theorem rt_free_correct:
  assumes "heap_inv h bs" "heap_unlocked i s" "(unat r, m) \<in> heap_live h"
  shows "rt_free i 0 h s = Some (Done (), h, s) \<and>
    (\<exists>pre post h'. rt_free i r h s = Some (Done (), h', s) \<and> bs = pre @ (True, m + 12) # post \<and>
      heap_inv h' (coalesce pre (m + 12) post) \<and> heap_live h' = heap_live h - {(unat r, m)} \<and>
      mem_bytes h' = mem_bytes h \<and>
      (lfree_lowest h bs \<longrightarrow> lfree_lowest h' (coalesce pre (m + 12) post)))"
proof -
  have z: "rt_free i 0 h s = Some (Done (), h, s)" by (simp add: rt_free_def)
  from heap_release_cases[OF assms(1,3)] rt_free_result[OF assms] show ?thesis
    using z by (auto simp: same_heap_def)
qed

text \<open>C29. rt\_realloc of a live block to a new size between 1 and 2 to the 32 minus 4 returns the null
  pointer and changes nothing, or returns a live block of at least the new size that begins with the
  old contents; every other live block is kept with its contents. A zeroed allocation of count
  times size bytes is filled with zeros when the product does not overflow.\<close>

theorem rt_realloc_correct:
  assumes "heap_inv h bs" "heap_unlocked i s" "(unat r, m) \<in> heap_live h"
    and "0 < unat newsize" "unat newsize \<le> 2 ^ 32 - 4"
  shows "(rt_realloc i r newsize h s = Some (Done 0, h, s) \<or>
    (\<exists>p h'. rt_realloc i r newsize h s = Some (Done p, h', s) \<and> p \<noteq> 0 \<and> heap_ok h' \<and>
       (\<exists>j \<ge> unat newsize. (unat p, j) \<in> heap_live h' \<and>
          bytes_at h' (unat p) (min m (unat newsize)) = bytes_at h (unat r) (min m (unat newsize))) \<and>
       others_kept h h' (unat r, m))) \<and>
    (unat count * unat sz < 2 ^ 32 \<longrightarrow> rt_malloc i (count * sz) h s = Some (Done p', h1, s) \<longrightarrow> p' \<noteq> 0 \<longrightarrow>
      (\<exists>h'. rt_calloc i count sz h s = Some (Done p', h', s) \<and> hdr h' = hdr h1 \<and>
        bytes_at h' (unat p') (unat count * unat sz) = replicate (unat count * unat sz) 0))"
  using rt_realloc_result[OF assms] rt_calloc_result[OF assms(1,2), of count sz p' h1] by blast

text \<open>C9. In every run of a program on a freshly initialised heap, whatever it allocates and in
  whatever order it frees, a block is never handed out twice: what is live is exactly what was given
  and not yet freed, any two live blocks are disjoint, and the links of the heap stay well formed.\<close>

theorem heap_run_safe:
  assumes "unat begin_addr + 3 < 2 ^ 32" "0 < unat begin_addr"
    and "(unat begin_addr + 3) div 4 * 4 + 36 \<le> unat end_addr div 4 * 4"
    and "rt_interrupt_nest s = 0" "used_mem h = 0"
    and "rt_system_heap_init begin_addr end_addr i h s = Some (h0, s0)"
    and "small_heap.run h0 as fs h'"
  shows "heap_ok h' \<and> count_list as b = count_list fs b + (if b \<in> heap_live h' then 1 else 0) \<and>
    (\<forall>(x, m) \<in> heap_live h'. \<forall>(y, k) \<in> heap_live h'. (x, m) = (y, k) \<or> x + m \<le> y \<or> y + k \<le> x)"
proof -
  let ?n = "unat end_addr div 4 * 4 - (unat begin_addr + 3) div 4 * 4 - 12"
  have i0: "heap_inv h0 [(False, ?n)]"
    using heap_init_pieces[OF assms(1-5), of i] assms(6) by auto
  then have ok: "heap_ok h0" "heap_live h0 = {}"
    using heap_live_eq[OF i0] by (auto simp: heap_ok_def)
  have ok': "heap_ok h'" by (rule small_heap.run_inv[OF assms(7) ok(1)])
  show ?thesis
    using ok' small_heap.run_balance[OF assms(7) ok, of b] small_heap.live_disjoint[OF ok'] by blast
qed

section \<open>Witnesses\<close>

text \<open>A heap of 64 bytes with a used block of 12 bytes and a free block of 28.\<close>

definition mem_demo :: heap where
  "mem_demo = \<lparr>heap_ptr = 0x1000, heap_end = 64, lfree = 24, mem_size_aligned = 52, used_mem = 24,
     max_mem = 24,
     hdr = (\<lambda>o'. if o' = 0 then \<lparr>hm_magic = HEAP_MAGIC, hm_used = 1, hm_next = 24, hm_prev = 0\<rparr>
       else if o' = 24 then \<lparr>hm_magic = HEAP_MAGIC, hm_used = 0, hm_next = 64, hm_prev = 0\<rparr>
       else \<lparr>hm_magic = HEAP_MAGIC, hm_used = 1, hm_next = 64, hm_prev = 64\<rparr>),
     mem_bytes = (\<lambda>a. ucast a)\<rparr>"

lemma mem_demo_inv: "heap_inv mem_demo [(True, 24), (False, 40)]"
  by (simp add: heap_inv_def heap_shape_def mem_demo_def no_holes_def used_size_def psize_def)

lemma mem_demo_live: "heap_live mem_demo = {(0x100c, 12)}"
  using heap_live_eq[OF mem_demo_inv] by (simp add: mem_demo_def)

definition heap_kernel :: kernel where
  "heap_kernel = upd_sem 1 (\<lambda>x. x\<lparr>sem_value := 1\<rparr>) demo"

lemma heap_kernel_unlocked: "heap_unlocked 1 heap_kernel"
  using sem_ready_demo[of 1]
  by (simp add: heap_unlocked_def heap_kernel_def upd_sem_def sem_ready_def flag_ok_def sem_inv_def
    rt_object_get_type_def demo_def)

lemma rt_malloc_correct_witness:
  "\<exists>p h'. rt_malloc 1 5 mem_demo heap_kernel = Some (Done p, h', heap_kernel)"
  using rt_malloc_correct[OF mem_demo_inv heap_kernel_unlocked, of 5] by blast

lemma rt_free_correct_witness:
  "\<exists>h'. rt_free 1 0x100c mem_demo heap_kernel = Some (Done (), h', heap_kernel) \<and> heap_live h' = {}"
  using rt_free_correct[OF mem_demo_inv heap_kernel_unlocked, of "0x100c" 12]
  by (auto simp: mem_demo_live)

lemma rt_realloc_correct_witness:
  "rt_realloc 1 0x100c 20 mem_demo heap_kernel = Some (Done 0, mem_demo, heap_kernel) \<or>
   (\<exists>p h'. rt_realloc 1 0x100c 20 mem_demo heap_kernel = Some (Done p, h', heap_kernel) \<and> p \<noteq> 0 \<and>
     bytes_at h' (unat p) 12 = bytes_at mem_demo 0x100c 12)"
proof -
  have l: "(unat (0x100c :: rt_uint32), 12) \<in> heap_live mem_demo" by (simp add: mem_demo_live)
  have n: "0 < unat (20 :: rt_size)" "unat (20 :: rt_size) \<le> 2 ^ 32 - 4" by simp_all
  from rt_realloc_correct[OF mem_demo_inv heap_kernel_unlocked l n, of 0 0 0 mem_demo]
  show ?thesis by (auto simp: min_def)
qed

lemma heap_run_safe_witness:
  "\<exists>h0 s0. rt_system_heap_init 0x1000 0x1100 1 (mem_demo\<lparr>used_mem := 0\<rparr>) demo = Some (h0, s0) \<and> heap_ok h0"
proof -
  have a: "unat (0x1000 :: rt_uint32) + 3 < 2 ^ 32" "0 < unat (0x1000 :: rt_uint32)"
    "(unat (0x1000 :: rt_uint32) + 3) div 4 * 4 + 36 \<le> unat (0x1100 :: rt_uint32) div 4 * 4"
    "rt_interrupt_nest demo = 0" "used_mem (mem_demo\<lparr>used_mem := 0\<rparr>) = 0"
    by (simp_all add: demo_def)
  obtain h0 s0 where i: "rt_system_heap_init 0x1000 0x1100 1 (mem_demo\<lparr>used_mem := 0\<rparr>) demo = Some (h0, s0)"
    using heap_init_pieces[OF a, of 1] by blast
  from heap_run_safe[OF a i small_heap.run.start, of "(0, 0)"] i show ?thesis by blast
qed

end
