(* ===== verification/RT_Object_Run.thy ===== *)
theory RT_Object_Run
  imports RT_Demo RT_Ipc
begin

text \<open>The typing of the object container: over every sequence of operations on objects, with any
  activity of the scheduler and the wait queues in between, the list of each class holds objects of
  this class only, each once and with a name of the full field; a search by class and name is
  sound and complete for it.\<close>

section \<open>Names\<close>

lemma word8_diff_zero: "(a - b = (0 :: 8 word)) = (a = b)"
  by simp

lemma sint8_zero: "(sint (a :: 8 word) = 0) = (a = 0)"
  by (metis signed_0 signed_word_eqI)

lemma strncmp_zero:
  "(strncmp_bytes cs ct i n = 0) = (strncpy_bytes cs i n = strncpy_bytes ct i n)"
proof (induction cs ct i n rule: strncmp_bytes.induct)
  case (2 cs ct i n)
  show ?case
  proof (cases "char_at cs i = char_at ct i")
    case True
    then show ?thesis using 2 by (simp add: Let_def)
  next
    case False
    then show ?thesis by (auto simp: Let_def sint8_zero)
  qed
qed simp

lemma strncpy_idem: "strncpy_bytes (strncpy_bytes nm 0 n) 0 n = strncpy_bytes nm 0 n"
proof -
  have "strncpy_bytes (pre @ strncpy_bytes nm i m) (length pre) m = strncpy_bytes nm i m" for pre i m
  proof (induction nm i m arbitrary: pre rule: strncpy_bytes.induct)
    case (2 src i n)
    show ?case
    proof (cases "char_at src i = 0")
      case True
      then show ?thesis by (simp add: char_at_def nth_append)
    next
      case False
      have "strncpy_bytes ((pre @ [char_at src i]) @ strncpy_bytes src (Suc i) n) (length (pre @ [char_at src i])) n
          = strncpy_bytes src (Suc i) n" using 2(1)[OF False] .
      then show ?thesis using False by (simp add: char_at_def[of "pre @ _"] nth_append)
    qed
  qed simp
  from this[of "[]" 0 n] show ?thesis by simp
qed

section \<open>The typing of the container\<close>

definition objs_typed :: "kernel \<Rightarrow> bool" where
  "objs_typed s =
    (\<forall>c. distinct (obj_list s c)
      \<and> (\<forall>r \<in> set (obj_list s c). is_class s r c \<and> length (obj_name (objs s r)) = RT_NAME_MAX))"

definition in_container :: "kernel \<Rightarrow> objref \<Rightarrow> bool" where
  "in_container s r = (\<exists>c. r \<in> set (obj_list s c))"

text \<open>The operations on objects; \<^verbatim>\<open>ipc_same\<close> is what scheduling, waiting and waking leave of the
  state. Objects are initialised when they are in no list, and removed when they are in one.\<close>

inductive obj_run :: "kernel \<Rightarrow> kernel \<Rightarrow> bool" for s0 where
  o_start: "obj_run s0 s0"
| o_init: "obj_run s0 s \<Longrightarrow> \<not> in_container s r \<Longrightarrow> rt_object_init r cls nm s = Some s' \<Longrightarrow> obj_run s0 s'"
| o_alloc: "obj_run s0 s \<Longrightarrow> (\<And>r. mem = Some r \<Longrightarrow> \<not> in_container s r)
    \<Longrightarrow> rt_object_allocate mem cls nm s = Some (ob, s') \<Longrightarrow> obj_run s0 s'"
| o_detach: "obj_run s0 s \<Longrightarrow> in_container s r \<Longrightarrow> obj_run s0 (rt_object_detach r s)"
| o_delete: "obj_run s0 s \<Longrightarrow> in_container s r \<Longrightarrow> rt_object_delete r s = Some s' \<Longrightarrow> obj_run s0 s'"
| o_other: "obj_run s0 s \<Longrightarrow> ipc_same s s' \<Longrightarrow> obj_run s0 s'"

lemma objs_typed_attach:
  assumes t: "objs_typed s" and r: "\<not> in_container s r"
    and o: "objs s' = (objs s)(r := ob)" "obj_type ob AND NOT RT_Object_Class_Static = class_code c"
      "length (obj_name ob) = RT_NAME_MAX"
    and l: "obj_list s' = (obj_list s)(c := r # obj_list s c)"
  shows "objs_typed s'"
proof -
  have "r \<notin> set (obj_list s d)" for d using r by (auto simp: in_container_def)
  then show ?thesis using t o l
    by (auto simp: objs_typed_def is_class_def rt_object_get_type_def)
qed

lemma objs_typed_unlink:
  assumes t: "objs_typed s" and o: "objs s' = (objs s)(r := ob)" and l: "obj_list s' = (\<lambda>c. removeAll r (obj_list s c))"
  shows "objs_typed s'"
  using t by (auto simp: objs_typed_def is_class_def rt_object_get_type_def o l distinct_removeAll)

lemma objs_typed_same: "ipc_same s s' \<Longrightarrow> objs_typed s' = objs_typed s"
  using ipc_sameD(10)[of s s']
  by (auto simp: objs_typed_def is_class_def ipc_same_def obj_same_but_active_def)

lemma obj_run_typed:
  assumes "obj_run s0 s" "objs_typed s0"
  shows "objs_typed s"
  using assms
proof induction
  case (o_init s r cls nm s')
  then obtain c where c: "rt_object_get_information (class_code cls) = Some c"
    by (auto simp: rt_object_init_def bind_Some_iff)
  then have e: "class_code c = class_code cls"
    using find_class_SomeD by (auto simp: rt_object_get_information_def)
  show ?case
    by (rule objs_typed_attach[where c = c and r = r and s = s and
          ob = "(objs s r)\<lparr>obj_type := class_code cls OR RT_Object_Class_Static, obj_name := strncpy_bytes nm 0 RT_NAME_MAX\<rparr>"])
      (use o_init c e class_code_static(1)[of cls] in
        \<open>auto simp: rt_object_init_def kernel_defs RT_Object_Class_Static_def simp del: class_code.simps\<close>)
next
  case (o_alloc s mem cls nm ob s')
  then obtain c where c: "rt_object_get_information (class_code cls) = Some c"
    by (auto simp: rt_object_allocate_def bind_Some_iff)
  then have e: "class_code c = class_code cls"
    using find_class_SomeD by (auto simp: rt_object_get_information_def)
  show ?case
  proof (cases mem)
    case None
    then show ?thesis using o_alloc by (auto simp: rt_object_allocate_def bind_Some_iff)
  next
    case (Some r)
    let ?ob = "\<lparr>obj_name = strncpy_bytes nm 0 RT_NAME_MAX, obj_type = class_code cls, obj_flag = 0\<rparr>"
    have "s' = s\<lparr>objs := (objs s)(r := ?ob), obj_list := (obj_list s)(c := r # obj_list s c)\<rparr>"
      using o_alloc(3) unfolding rt_object_allocate_def Some c
      by (simp add: bind_Some_iff kernel_defs del: class_code.simps)
    then show ?thesis
      using objs_typed_attach[OF o_alloc(4)[OF o_alloc(5)] o_alloc(2)[OF Some], of s' ?ob c] e
        class_code_static(4)[of cls]
      by (simp add: RT_Object_Class_Static_def del: class_code.simps)
  qed
next
  case (o_detach s r)
  have "rt_object_detach r s = s\<lparr>objs := (objs s)(r := (objs s r)\<lparr>obj_type := 0\<rparr>),
      obj_list := (\<lambda>c. removeAll r (obj_list s c))\<rparr>"
    by (simp add: rt_object_detach_def kernel_defs)
  then show ?case
    using objs_typed_unlink[OF o_detach(3)[OF o_detach(4)], of "rt_object_detach r s" r "(objs s r)\<lparr>obj_type := 0\<rparr>"]
    by simp
next
  case (o_delete s r s')
  have "s' = s\<lparr>objs := (objs s)(r := (objs s r)\<lparr>obj_type := 0\<rparr>),
      obj_list := (\<lambda>c. removeAll r (obj_list s c)), freed_objs := r # freed_objs s\<rparr>"
    using o_delete(3) by (simp add: rt_object_delete_def kernel_defs)
  then show ?case
    using objs_typed_unlink[OF o_delete(4)[OF o_delete(5)], of s' r "(objs s r)\<lparr>obj_type := 0\<rparr>"] by simp
next
  case (o_other s s')
  then show ?case using objs_typed_same by blast
qed

section \<open>Searching\<close>

text \<open>Names are compared in the 8 bytes of the name field.\<close>

definition has_name :: "kernel \<Rightarrow> rt_uint8 list \<Rightarrow> objref \<Rightarrow> bool" where
  "has_name s nm r = (strncpy_bytes (obj_name (objs s r)) 0 RT_NAME_MAX = strncpy_bytes nm 0 RT_NAME_MAX)"

lemma find_name_find: "find_name s nm rs = find (has_name s nm) rs"
  by (induction rs) (auto simp: has_name_def strncmp_zero)

lemma critical_section_total:
  assumes k: "kinv s" and c: "rt_current_thread s \<noteq> None" and l: "0 \<le> sint (rt_scheduler_lock_nest s)"
  shows "\<exists>s'. rt_exit_critical (rt_enter_critical s) = Some s' \<and> kinv s' \<and> sched_only s s'
    \<and> rt_current_thread s' \<noteq> None"
proof (cases "rt_scheduler_lock_nest s = 0")
  case True
  obtain t where "rt_current_thread s = Some t" using c by auto
  from rt_schedule_step[OF k this] rt_critical_outermost(2)[OF True] show ?thesis by auto
next
  case False
  then have "0 < sint (rt_scheduler_lock_nest s)"
    using l by (metis order_le_less signed_0 signed_word_eqI)
  from rt_critical_nested[OF this] k c show ?thesis by auto
qed

lemma rt_object_find_total:
  assumes "kinv s" "rt_current_thread s \<noteq> None" "rt_interrupt_nest s = 0" "0 \<le> sint (rt_scheduler_lock_nest s)"
    and c: "c \<in> set rt_object_container"
  shows "\<exists>s'. rt_object_find nm (class_code c) s = Some (find (has_name s nm) (obj_list s c), s')
    \<and> kinv s' \<and> sched_only s s'"
proof -
  have "\<not> class_code RT_Object_Class_Unknown < class_code c" by (cases c) simp_all
  moreover have "has_name (rt_enter_critical s) nm = has_name s nm"
    by (simp add: has_name_def[abs_def] rt_enter_critical_def)
  moreover have "obj_list (rt_enter_critical s) = obj_list s" by (simp add: rt_enter_critical_def)
  ultimately show ?thesis
    using critical_section_total[OF assms(1,2,4)] assms(3) c
    by (auto simp: rt_object_find_def not_in_interrupt_def find_name_find simp del: class_code.simps)
qed

text \<open>The kernel invariant looks at no other objects than threads and timers.\<close>

lemma kinv_objs:
  assumes "kinv s" "\<And>t. os (OThread t) = objs s (OThread t)" "\<And>r. os (OTimer r) = objs s (OTimer r)"
  shows "kinv (s\<lparr>objs := os, obj_list := ol\<rparr>)" (is "kinv ?s")
proof -
  have st: "tstat ?s = tstat s" "prio ?s = prio s" using status_cong[of ?s s] by simp_all
  moreover have "thread_ok ?s = thread_ok s"
    using st assms(2,3) by (simp add: thread_ok_def[abs_def] rt_object_get_type_def)
  moreover have "ttimer_inv ?s = ttimer_inv s"
    using st assms(3) by (simp add: ttimer_inv_def is_suspended_def timer_active_def timer_typed_def rt_object_get_type_def)
  ultimately show ?thesis
    using assms(1) queues_inv_cong[of ?s s] ready_inv_cong[of ?s s] wait_inv_cong[of ?s s]
      threads_inv_cong[of ?s s] timer_inv_cong[of ?s s] by (simp add: kinv_def)
qed

text \<open>C13. The typing of the kernel objects. Whatever objects are initialised, allocated, detached and
  deleted and whatever the scheduler and the wait queues do in between, the list of each class
  holds objects of this class only, each once; and the search for a name in a class always returns, an
  object of this class with this name if there is one, and nothing otherwise.\<close>

theorem object_typing:
  assumes "obj_run s0 s" "objs_typed s0" "kinv s" "rt_current_thread s \<noteq> None"
    and "rt_interrupt_nest s = 0" "0 \<le> sint (rt_scheduler_lock_nest s)" "c \<in> set rt_object_container"
  shows "objs_typed s
    \<and> (\<exists>found s'. rt_object_find nm (class_code c) s = Some (found, s') \<and> kinv s'
        \<and> (case found of
             Some r \<Rightarrow> r \<in> set (obj_list s c) \<and> rt_object_get_type r s' = class_code c \<and> has_name s nm r
           | None \<Rightarrow> \<forall>r \<in> set (obj_list s c). \<not> has_name s nm r))"
proof -
  have ty: "objs_typed s" by (rule obj_run_typed[OF assms(1,2)])
  from rt_object_find_total[OF assms(3-7), of nm] obtain s' where
    s': "rt_object_find nm (class_code c) s = Some (find (has_name s nm) (obj_list s c), s')" "kinv s'" "sched_only s s'"
    by blast
  have "rt_object_get_type r s' = class_code c" if "r \<in> set (obj_list s c)" for r
    using ty that ipc_sameD(10)[OF ipc_same_sched[OF s'(3)]] by (simp add: objs_typed_def is_class_def)
  then show ?thesis using s'(1,2) ty
    by (auto simp: find_Some_iff find_None_iff split: option.split)
qed

text \<open>On the demonstration state: semaphore 7 is initialised with the name "ab" and found.\<close>

lemma object_typing_witness:
  "\<exists>s s'. rt_object_init (OSem 7) RT_Object_Class_Semaphore [97, 98] demo = Some s \<and> objs_typed s
    \<and> rt_object_find [97, 98] 1 s = Some (Some (OSem 7), s')"
proof -
  let ?c = RT_Object_Class_Semaphore
  define s where "s = demo\<lparr>objs := (objs demo)(OSem 7 := (objs demo (OSem 7))\<lparr>
      obj_type := class_code ?c OR RT_Object_Class_Static, obj_name := strncpy_bytes [97, 98] 0 RT_NAME_MAX\<rparr>),
    obj_list := (obj_list demo)(?c := [OSem 7])\<rparr>"
  have mem: "?c \<in> set rt_object_container" by (simp add: rt_object_container_def)
  have i: "rt_object_init (OSem 7) ?c [97, 98] demo = Some s"
    using rt_object_init_Some[OF mem] by (simp add: s_def)
  have "\<not> in_container demo (OSem 7)" by (simp add: in_container_def)
  from o_init[OF o_start this i] have r: "obj_run demo s" .
  have t0: "objs_typed demo" by (simp add: objs_typed_def)
  have k: "kinv s" unfolding s_def by (rule kinv_objs) simp_all
  have "rt_current_thread s \<noteq> None" "rt_interrupt_nest s = 0" "0 \<le> sint (rt_scheduler_lock_nest s)"
    by (simp_all add: s_def)
  from object_typing[OF r t0 k this mem, of "[97, 98]"] obtain found s' where
    f: "rt_object_find [97, 98] (class_code ?c) s = Some (found, s')"
    "case found of Some r \<Rightarrow> r \<in> set (obj_list s ?c) \<and> rt_object_get_type r s' = class_code ?c \<and> has_name s [97, 98] r
      | None \<Rightarrow> \<forall>r \<in> set (obj_list s ?c). \<not> has_name s [97, 98] r" and ty: "objs_typed s" by blast
  have "has_name s [97, 98] (OSem 7)" by (simp add: has_name_def s_def strncpy_idem)
  then have "found = Some (OSem 7)" using f(2) by (cases found) (auto simp: s_def)
  then show ?thesis using i ty f(1) by auto
qed

end
