(* ===== verification/RT_Errno.thy ===== *)
theory RT_Errno
  imports RT_Sem
begin

text \<open>The error number of src/kservice.c: the error field of the running thread, and one static
  variable for interrupt handlers and for the time before the first thread.\<close>

definition rt_get_errno :: "kernel \<Rightarrow> rt_err" where
  "rt_get_errno s =
    (if rt_interrupt_nest s \<noteq> 0 then global_errno s
     else case rt_thread_self s of
            None \<Rightarrow> global_errno s
          | Some t \<Rightarrow> err (thr s t))"

definition rt_set_errno :: "rt_err \<Rightarrow> kernel \<Rightarrow> kernel" where
  "rt_set_errno e s =
    (if rt_interrupt_nest s \<noteq> 0 then s\<lparr>global_errno := e\<rparr>
     else case rt_thread_self s of
            None \<Rightarrow> s\<lparr>global_errno := e\<rparr>
          | Some t \<Rightarrow> set_err t e s)"

text \<open>The pointer to the error number: to a thread's field or to the static variable.\<close>

datatype errno_ref = ErrnoGlobal | ErrnoThread nat

definition rt_errno_ref :: "kernel \<Rightarrow> errno_ref" where
  "rt_errno_ref s =
    (if rt_interrupt_nest s \<noteq> 0 then ErrnoGlobal
     else case rt_thread_self s of
            Some t \<Rightarrow> ErrnoThread t
          | None \<Rightarrow> ErrnoGlobal)"

fun errno_at :: "errno_ref \<Rightarrow> kernel \<Rightarrow> rt_err" where
  "errno_at ErrnoGlobal s = global_errno s"
| "errno_at (ErrnoThread t) s = err (thr s t)"

text \<open>The three accessors agree, and an interrupt handler never disturbs the error number of the
  thread it interrupted.\<close>

lemma errno_agree:
  "rt_get_errno s = errno_at (rt_errno_ref s) s"
  "rt_get_errno (rt_set_errno e s) = e"
  "rt_errno_ref (rt_set_errno e s) = rt_errno_ref s"
  by (simp_all add: rt_get_errno_def rt_set_errno_def rt_errno_ref_def rt_thread_self_def split: option.split)

lemma errno_interrupt:
  "rt_interrupt_nest s \<noteq> 0 \<Longrightarrow> err (thr (rt_set_errno e s) t) = err (thr s t)"
  by (simp add: rt_set_errno_def)

lemma kinv_set_errno [simp]: "kinv (rt_set_errno e s) = kinv s"
proof -
  have "kinv (s\<lparr>global_errno := e\<rparr>) = kinv s"
    by (rule kinv_same_but_data) (simp add: same_but_data_def)
  then show ?thesis by (simp add: rt_set_errno_def split: option.split)
qed

lemma rt_set_errno_simps [simp]:
  "tq (rt_set_errno e s) = tq s" "rt_current_thread (rt_set_errno e s) = rt_current_thread s"
  "mps (rt_set_errno e s) = mps s" "rt_object_get_type r (rt_set_errno e s) = rt_object_get_type r s"
  by (simp_all add: rt_set_errno_def rt_object_get_type_def split: option.split)

end
