(* ===== verification/RT_Mempool.thy ===== *)
theory RT_Mempool
  imports RT_Errno RT_Mq_Lists RT_Alloc
begin

text \<open>The memory pools of src/mempool.c: blocks of one size, each behind a header word that holds
  the next free block while the block is free and its pool while it is allocated. A thread that
  needs a block of an empty pool waits in the queue of the pool, the last to come first.\<close>

section \<open>The blocks\<close>

abbreviation mp_queue :: "nat \<Rightarrow> lhead" where
  "mp_queue i \<equiv> WaitQ (OMempool i)"

text \<open>The loop that links the blocks in order, and the null pointer written over the last link. A
  pool without blocks has no last link: the write hits the word before the pool.\<close>

definition mp_init_list :: "rt_mempool \<Rightarrow> rt_mempool option" where
  "mp_init_list m = do {
     let n = unat (mp_total m);
     let m = fold (\<lambda>k m. m\<lparr>mp_head := (mp_head m)(k := NextFree (Some (k + 1)))\<rparr>) [0..<n] m;
     in_bounds (n \<noteq> 0);
     Some (m\<lparr>mp_head := (mp_head m)(n - 1 := NextFree None), mp_block_list := Some 0\<rparr>)
   }"

text \<open>Taking the first free block, with the assertion that there is one. The header of a free
  block is a link.\<close>

definition mp_take :: "nat \<Rightarrow> rt_mempool \<Rightarrow> (nat \<times> rt_mempool) option" where
  "mp_take i m = (let m = m\<lparr>mp_free_count := mp_free_count m - 1\<rparr> in
     case mp_block_list m of
       None \<Rightarrow> None
     | Some b \<Rightarrow>
         (case mp_head m b of
            OwnedBy j \<Rightarrow> None
          | NextFree p \<Rightarrow> Some (b, m\<lparr>mp_block_list := p, mp_head := (mp_head m)(b := OwnedBy i)\<rparr>)))"

definition mp_give :: "nat \<Rightarrow> rt_mempool \<Rightarrow> rt_mempool" where
  "mp_give b m = (let m = m\<lparr>mp_free_count := mp_free_count m + 1\<rparr> in
     m\<lparr>mp_head := (mp_head m)(b := NextFree (mp_block_list m)), mp_block_list := Some b\<rparr>)"

section \<open>Operations\<close>

text \<open>The division of \<^verbatim>\<open>rt_mp_init\<close> is by the size of a block with its header.\<close>

definition rt_mp_init ::
  "nat \<Rightarrow> rt_uint8 list \<Rightarrow> rt_uint32 \<Rightarrow> rt_size \<Rightarrow> rt_size \<Rightarrow> kernel \<Rightarrow> (rt_err \<times> kernel) option" where
  "rt_mp_init i nm start sz block_size s = do {
     s \<leftarrow> rt_object_init (OMempool i) RT_Object_Class_MemPool nm s;
     let s = upd_mps i (\<lambda>m. m\<lparr>mp_addr := start, mp_size := RT_ALIGN_DOWN sz 4,
           mp_block_size := RT_ALIGN block_size 4\<rparr>) s;
     in_bounds (mp_block_size (mps s i) + 4 \<noteq> 0);
     let s = upd_mps i (\<lambda>m. m\<lparr>mp_total := mp_size m div (mp_block_size m + 4)\<rparr>) s;
     let s = upd_mps i (\<lambda>m. m\<lparr>mp_free_count := mp_total m\<rparr>) s;
     let s = tlist_init (mp_queue i) s;
     m \<leftarrow> mp_init_list ((mps s i)\<lparr>mp_suspend_count := 0\<rparr>);
     Some (RT_EOK, upd_mps i (\<lambda>_. m) s)
   }"

text \<open>The loop of \<^verbatim>\<open>rt_mp_detach\<close> and \<^verbatim>\<open>rt_mp_delete\<close>.\<close>

partial_function (option) mp_resume_all :: "nat \<Rightarrow> kernel \<Rightarrow> kernel option" where
  "mp_resume_all i s =
    (case tq s (mp_queue i) of
       [] \<Rightarrow> Some s
     | t # _ \<Rightarrow> Option.bind (rt_thread_resume t (set_err t (- RT_ERROR) s)) (\<lambda>(e, s).
         mp_resume_all i (upd_mps i (\<lambda>m. m\<lparr>mp_suspend_count := mp_suspend_count m - 1\<rparr>) s)))"

definition rt_mp_detach :: "nat \<Rightarrow> kernel \<Rightarrow> (rt_err \<times> kernel) option" where
  "rt_mp_detach i s = do {
     RT_ASSERT (rt_object_get_type (OMempool i) s = class_code RT_Object_Class_MemPool);
     RT_ASSERT (rt_object_is_systemobject (OMempool i) s);
     s \<leftarrow> mp_resume_all i s;
     Some (RT_EOK, rt_object_detach (OMempool i) s)
   }"

text \<open>\<^verbatim>\<open>pool\<close> is the address \<^verbatim>\<open>rt_malloc\<close> answers for the size of all blocks, or nothing. The size
  is computed with 32 bits, so that a pool of more bytes gets too little memory, which the
  linking of its blocks runs over.\<close>

definition rt_mp_create ::
  "objref option \<Rightarrow> rt_uint32 option \<Rightarrow> rt_uint8 list \<Rightarrow> rt_size \<Rightarrow> rt_size \<Rightarrow> kernel
    \<Rightarrow> (objref option \<times> kernel) option" where
  "rt_mp_create mem pool nm block_count block_size s = do {
     not_in_interrupt s;
     (ob, s) \<leftarrow> rt_object_allocate mem RT_Object_Class_MemPool nm s;
     (case ob of
        Some (OMempool i) \<Rightarrow>
          (let bs = RT_ALIGN block_size 4;
               s = upd_mps i (\<lambda>m. m\<lparr>mp_block_size := bs, mp_size := (bs + 4) * block_count\<rparr>) s
           in case pool of
                None \<Rightarrow> do {
                  s \<leftarrow> rt_object_delete (OMempool i) s;
                  Some (None, s)
                }
              | Some a \<Rightarrow> do {
                  in_bounds (unat (bs + 4) * unat block_count < 2 ^ 32);
                  let s = upd_mps i (\<lambda>m. m\<lparr>mp_addr := a, mp_total := block_count, mp_free_count := block_count\<rparr>) s;
                  let s = tlist_init (mp_queue i) s;
                  m \<leftarrow> mp_init_list ((mps s i)\<lparr>mp_suspend_count := 0\<rparr>);
                  Some (ob, upd_mps i (\<lambda>_. m) s)
                })
      | _ \<Rightarrow> Some (None, s))
   }"

definition rt_mp_delete :: "nat \<Rightarrow> kernel \<Rightarrow> (rt_err \<times> kernel) option" where
  "rt_mp_delete i s = do {
     not_in_interrupt s;
     RT_ASSERT (rt_object_get_type (OMempool i) s = class_code RT_Object_Class_MemPool);
     RT_ASSERT (\<not> rt_object_is_systemobject (OMempool i) s);
     s \<leftarrow> mp_resume_all i s;
     let s = kernel_free (mp_addr (mps s i)) s;
     s \<leftarrow> rt_object_delete (OMempool i) s;
     Some (RT_EOK, s)
   }"

text \<open>The waiting of \<^verbatim>\<open>rt_mp_alloc\<close>: the thread goes to the front of the queue.\<close>

definition mp_wait :: "nat \<Rightarrow> nat \<Rightarrow> int \<Rightarrow> kernel \<Rightarrow> kernel option" where
  "mp_wait i t time s = do {
     (_, s) \<leftarrow> rt_thread_suspend t s;
     let s = tlist_push_front (mp_queue i) t s;
     let s = upd_mps i (\<lambda>m. m\<lparr>mp_suspend_count := mp_suspend_count m + 1\<rparr>) s;
     start_wait_timer t time s
   }"

text \<open>The result is the block, whose memory begins behind its header, or the null pointer.\<close>

partial_function (option) mp_alloc_loop :: "nat \<Rightarrow> int \<Rightarrow> kernel \<Rightarrow> (nat option call \<times> kernel) option" where
  "mp_alloc_loop i time s =
    (if mp_free_count (mps s i) \<noteq> 0
     then Option.bind (mp_take i (mps s i)) (\<lambda>(b, m). Some (Done (Some b), upd_mps i (\<lambda>_. m) s))
     else if time = 0 then Some (Done None, rt_set_errno (- RT_ETIMEOUT) s)
     else Option.bind (not_in_interrupt s) (\<lambda>u. Option.bind (rt_thread_self s) (\<lambda>t.
       Option.bind (mp_wait i t time (set_err t RT_EOK s)) (\<lambda>s1.
       Option.bind (rt_schedule s1) (\<lambda>s2.
         if rt_current_thread s2 \<noteq> Some t then Some (Blocked, s2)
         else if err (thr s2 t) \<noteq> RT_EOK then Some (Done None, s2)
         else mp_alloc_loop i (time_left time (rt_tick s) (rt_tick s2)) s2)))))"

definition rt_mp_alloc :: "nat \<Rightarrow> int \<Rightarrow> kernel \<Rightarrow> (nat option call \<times> kernel) option" where
  "rt_mp_alloc i time s = mp_alloc_loop i time s"

definition rt_mp_alloc_wake ::
  "nat \<Rightarrow> nat \<Rightarrow> int \<Rightarrow> rt_tick \<Rightarrow> kernel \<Rightarrow> (nat option call \<times> kernel) option" where
  "rt_mp_alloc_wake i t time start s =
    (if err (thr s t) \<noteq> RT_EOK then Some (Done None, s)
     else mp_alloc_loop i (time_left time start (rt_tick s)) s)"

text \<open>Releasing block \<^verbatim>\<open>b\<close> of pool \<^verbatim>\<open>i\<close>. The pool is read from the header, which names it as long
  as the block is allocated; any other word there is no pool. The waiter is looked for when the
  counter says that there is one, whether the queue has one or not.\<close>

definition mp_wake :: "nat \<Rightarrow> kernel \<Rightarrow> kernel option" where
  "mp_wake i s =
    (if mp_suspend_count (mps s i) > 0
     then case tq s (mp_queue i) of
            [] \<Rightarrow> None
          | t # _ \<Rightarrow> do {
              (_, s) \<leftarrow> rt_thread_resume t (set_err t RT_EOK s);
              let s = upd_mps i (\<lambda>m. m\<lparr>mp_suspend_count := mp_suspend_count m - 1\<rparr>) s;
              rt_schedule s
            }
     else Some s)"

definition rt_mp_free :: "nat \<Rightarrow> nat \<Rightarrow> kernel \<Rightarrow> kernel option" where
  "rt_mp_free i b s =
    (if mp_head (mps s i) b = OwnedBy i then mp_wake i (upd_mps i (mp_give b) s) else None)"

end
