(* ===== verification/RT_Mempool_Inv.thy ===== *)
theory RT_Mempool_Inv
  imports RT_Mempool
begin

text \<open>The invariant of a memory pool: the free list holds every block that is not allocated, once,
  and the counter is its length. A pool with it implements the interface of an allocator.\<close>

section \<open>The invariant\<close>

definition mp_next :: "rt_mempool \<Rightarrow> nat \<Rightarrow> nat option" where
  "mp_next m b = (case mp_head m b of NextFree p \<Rightarrow> p | OwnedBy j \<Rightarrow> None)"

definition mp_stride :: "rt_mempool \<Rightarrow> nat" where
  "mp_stride m = unat (mp_block_size m) + 4"

text \<open>The block list is \<^verbatim>\<open>F\<close>, the pool has blocks of at least one byte and does not run over the end
  of the address space.\<close>

definition mp_lists :: "nat \<Rightarrow> rt_mempool \<Rightarrow> nat list \<Rightarrow> bool" where
  "mp_lists i m F =
    (mchain (mp_next m) (mp_block_list m) F \<and> distinct F \<and> set F \<subseteq> {..<unat (mp_total m)}
     \<and> unat (mp_free_count m) = length F
     \<and> (\<forall>b < unat (mp_total m). if b \<in> set F then mp_head m b = NextFree (mp_next m b) else mp_head m b = OwnedBy i)
     \<and> 0 < mp_block_size m \<and> unat (mp_addr m) + unat (mp_total m) * mp_stride m \<le> 2 ^ 32)"

definition mp_inv :: "nat \<Rightarrow> rt_mempool \<Rightarrow> bool" where
  "mp_inv i m = (\<exists>F. mp_lists i m F)"

lemma mp_inv_suspend_count [simp]: "mp_inv i (m\<lparr>mp_suspend_count := n\<rparr>) = mp_inv i m"
proof -
  have "mp_next (m\<lparr>mp_suspend_count := n\<rparr>) = mp_next m" by (rule ext) (simp add: mp_next_def)
  then show ?thesis by (simp add: mp_inv_def mp_lists_def mp_stride_def)
qed

text \<open>The memory of block \<^verbatim>\<open>b\<close>, and the memory of the allocated blocks.\<close>

definition mp_cell :: "rt_mempool \<Rightarrow> nat \<Rightarrow> nat \<times> nat" where
  "mp_cell m b = (unat (mp_addr m) + b * mp_stride m + 4, unat (mp_block_size m))"

definition mp_live :: "nat \<Rightarrow> rt_mempool \<Rightarrow> (nat \<times> nat) set" where
  "mp_live i m = mp_cell m ` {b. b < unat (mp_total m) \<and> mp_head m b = OwnedBy i}"

definition mp_shape :: "rt_mempool \<Rightarrow> rt_uint32 \<times> rt_size \<times> rt_size" where
  "mp_shape m = (mp_addr m, mp_block_size m, mp_total m)"

lemma mp_shape_cell: "mp_shape m = mp_shape m' \<Longrightarrow> mp_cell m = mp_cell m'"
  by (simp add: mp_shape_def mp_cell_def[abs_def] mp_stride_def)

lemma mp_cell_inj: "inj (mp_cell m)"
  by (rule injI) (simp add: mp_cell_def mp_stride_def)

lemma mp_cell_apart:
  assumes "b < c"
  shows "fst (mp_cell m b) + snd (mp_cell m b) \<le> fst (mp_cell m c)"
proof -
  have "Suc b * mp_stride m \<le> c * mp_stride m" using assms by (intro mult_le_mono1) simp
  then show ?thesis by (simp add: mp_cell_def mp_stride_def)
qed

lemma mp_inv_count: "mp_inv i m \<Longrightarrow> unat (mp_free_count m) \<le> unat (mp_total m)"
proof -
  assume "mp_inv i m"
  then obtain F where F: "distinct F" "set F \<subseteq> {..<unat (mp_total m)}" "unat (mp_free_count m) = length F"
    by (auto simp: mp_inv_def mp_lists_def)
  have "card (set F) \<le> card {..<unat (mp_total m)}" using F(2) by (intro card_mono) simp_all
  then show ?thesis using F by (simp add: distinct_card)
qed

section \<open>Taking and giving back\<close>

lemma mp_take_inv:
  assumes i: "mp_inv i m" and n: "mp_free_count m \<noteq> 0"
  shows "\<exists>b m'. mp_take i m = Some (b, m') \<and> mp_inv i m' \<and> b < unat (mp_total m) \<and> mp_head m b \<noteq> OwnedBy i
    \<and> mp_head m' = (mp_head m)(b := OwnedBy i) \<and> mp_shape m' = mp_shape m
    \<and> mp_free_count m' = mp_free_count m - 1 \<and> mp_suspend_count m' = mp_suspend_count m"
proof -
  obtain F where F: "mp_lists i m F" using i by (auto simp: mp_inv_def)
  have "F \<noteq> []" using F n by (auto simp: mp_lists_def unat_eq_0)
  then obtain b G where G: "F = b # G" by (cases F) auto
  have b: "mp_block_list m = Some b" "mchain (mp_next m) (mp_next m b) G" "b \<notin> set G" "b < unat (mp_total m)"
    "mp_head m b = NextFree (mp_next m b)"
    using F G by (auto simp: mp_lists_def)
  let ?m = "m\<lparr>mp_free_count := mp_free_count m - 1, mp_block_list := mp_next m b,
    mp_head := (mp_head m)(b := OwnedBy i)\<rparr>"
  have t: "mp_take i m = Some (b, ?m)" using b(1,5) by (simp add: mp_take_def)
  have nx: "mp_next ?m c = mp_next m c" if "c \<noteq> b" for c using that by (simp add: mp_next_def)
  have "mchain (mp_next ?m) (mp_block_list ?m) G"
    using b(2) mchain_cong[of G "mp_next ?m" "mp_next m"] nx b(3) by fastforce
  moreover have "unat (mp_free_count ?m) = length G"
    using F G n by (simp add: mp_lists_def unat_minus_one)
  ultimately have "mp_lists i ?m G"
    using F G b(3) nx by (auto simp: mp_lists_def mp_stride_def)
  then show ?thesis using t b(4,5) by (auto simp: mp_inv_def mp_shape_def)
qed

lemma mp_give_inv:
  assumes i: "mp_inv i m" and b: "b < unat (mp_total m)" "mp_head m b = OwnedBy i"
  shows "mp_inv i (mp_give b m)" "mp_shape (mp_give b m) = mp_shape m"
    "mp_suspend_count (mp_give b m) = mp_suspend_count m" "mp_free_count (mp_give b m) = mp_free_count m + 1"
    "c < unat (mp_total m) \<Longrightarrow> (mp_head (mp_give b m) c = OwnedBy i) = (c \<noteq> b \<and> mp_head m c = OwnedBy i)"
proof -
  obtain F where F: "mp_lists i m F" using i by (auto simp: mp_inv_def)
  have nb: "b \<notin> set F" using F b by (auto simp: mp_lists_def)
  let ?m = "mp_give b m"
  have nx: "mp_next ?m c = (if c = b then mp_block_list m else mp_next m c)" for c
    by (simp add: mp_next_def mp_give_def)
  have "mchain (mp_next ?m) (mp_block_list m) F"
    using F mchain_cong[of F "mp_next ?m" "mp_next m"] nx nb by (auto simp: mp_lists_def)
  then have ch: "mchain (mp_next ?m) (mp_block_list ?m) (b # F)" using nx by (simp add: mp_give_def)
  have "card (set (b # F)) \<le> card {..<unat (mp_total m)}"
    using F b by (intro card_mono) (auto simp: mp_lists_def)
  then have l: "Suc (length F) \<le> unat (mp_total m)"
    using F nb by (simp add: mp_lists_def distinct_card)
  have "unat (mp_total m) < 2 ^ LENGTH(32)" by (rule unsigned_less)
  then have u: "unat (mp_free_count m + 1) = Suc (length F)"
    using F l by (simp add: mp_lists_def unat_word_ariths)
  have "mp_lists i ?m (b # F)"
    using F nb b ch u nx by (auto simp: mp_lists_def mp_give_def mp_stride_def)
  then show "mp_inv i ?m" by (auto simp: mp_inv_def)
  show "mp_shape ?m = mp_shape m" "mp_suspend_count ?m = mp_suspend_count m"
    "mp_free_count ?m = mp_free_count m + 1"
    "c < unat (mp_total m) \<Longrightarrow> (mp_head ?m c = OwnedBy i) = (c \<noteq> b \<and> mp_head m c = OwnedBy i)"
    by (auto simp: mp_give_def mp_shape_def)
qed

section \<open>The pool is an allocator\<close>

text \<open>Requests of the interface carry a size, which a pool serves up to its block size.\<close>

definition mp_alloc_block :: "nat \<Rightarrow> nat \<Rightarrow> rt_mempool \<Rightarrow> nat option \<times> rt_mempool" where
  "mp_alloc_block i k m =
    (if mp_free_count m = 0 then (None, m)
     else case mp_take i m of
            None \<Rightarrow> (None, m)
          | Some (b, m') \<Rightarrow> (Some (fst (mp_cell m b)), m'))"

definition mp_index :: "rt_mempool \<Rightarrow> nat \<Rightarrow> nat" where
  "mp_index m a = (a - unat (mp_addr m) - 4) div mp_stride m"

lemma mp_index_cell [simp]: "mp_index m (fst (mp_cell m b)) = b"
  by (simp add: mp_index_def mp_cell_def mp_stride_def)

definition mp_release_block :: "nat \<Rightarrow> rt_mempool \<Rightarrow> rt_mempool" where
  "mp_release_block a m = mp_give (mp_index m a) m"

lemma mp_live_iff: "(mp_cell m b \<in> mp_live i m) = (b < unat (mp_total m) \<and> mp_head m b = OwnedBy i)"
  using inj_image_mem_iff[OF mp_cell_inj] by (auto simp: mp_live_def)

lemma mp_live_take:
  assumes "mp_head m' = (mp_head m)(b := OwnedBy i)" "mp_shape m' = mp_shape m" "b < unat (mp_total m)"
  shows "mp_live i m' = insert (mp_cell m b) (mp_live i m)"
proof -
  have "mp_cell m' = mp_cell m" "mp_total m' = mp_total m"
    using mp_shape_cell[OF assms(2)] assms(2) by (simp_all add: mp_shape_def)
  then show ?thesis using assms by (auto simp: mp_live_def)
qed

lemma mp_live_give:
  assumes "mp_inv i m" "b < unat (mp_total m)" "mp_head m b = OwnedBy i"
  shows "mp_live i (mp_give b m) = mp_live i m - {mp_cell m b}"
proof -
  note g = mp_give_inv[OF assms]
  have e: "mp_cell (mp_give b m) = mp_cell m" "mp_total (mp_give b m) = mp_total m"
    using mp_shape_cell[OF g(2)] g(2) by (simp_all add: mp_shape_def)
  have "{c. c < unat (mp_total m) \<and> mp_head (mp_give b m) c = OwnedBy i}
      = {c. c < unat (mp_total m) \<and> mp_head m c = OwnedBy i} - {b}"
    using g(5) by auto
  then show ?thesis unfolding mp_live_def e by (simp add: image_set_diff[OF mp_cell_inj])
qed

interpretation pool: allocator "mp_inv i" "mp_live i" "mp_alloc_block i" mp_release_block
  "\<lambda>m k. k \<le> unat (mp_block_size m)" for i
proof
  fix m :: rt_mempool and a n b k j l
  assume i: "mp_inv i m"
  have bs: "0 < unat (mp_block_size m)" using i by (auto simp: mp_inv_def mp_lists_def unat_gt_0)
  show "(a, n) = (b, l) \<or> a + n \<le> b \<or> b + l \<le> a" if L: "(a, n) \<in> mp_live i m" "(b, l) \<in> mp_live i m"
  proof -
    obtain x y where "(a, n) = mp_cell m x" "(b, l) = mp_cell m y" using L by (auto simp: mp_live_def)
    then show ?thesis using mp_cell_apart[of x y m] mp_cell_apart[of y x m]
      by (metis fst_conv linorder_neqE_nat snd_conv)
  qed
  show "0 < n" if "(a, n) \<in> mp_live i m" using that bs by (auto simp: mp_live_def mp_cell_def)
  have none: "mp_alloc_block i k m = (None, m)" if "mp_free_count m = 0" for k
    using that by (simp add: mp_alloc_block_def)
  have some: "\<exists>b m'. mp_alloc_block i k m = (Some (fst (mp_cell m b)), m') \<and> mp_inv i m'
      \<and> mp_cell m b \<notin> mp_live i m \<and> mp_live i m' = insert (mp_cell m b) (mp_live i m) \<and> mp_shape m' = mp_shape m"
    if n: "mp_free_count m \<noteq> 0" for k
  proof -
    from mp_take_inv[OF i n] obtain b m' where
      t: "mp_take i m = Some (b, m')" "mp_inv i m'" "b < unat (mp_total m)" "mp_head m b \<noteq> OwnedBy i"
      "mp_head m' = (mp_head m)(b := OwnedBy i)" "mp_shape m' = mp_shape m" by blast
    have "mp_alloc_block i k m = (Some (fst (mp_cell m b)), m')"
      using t(1) n by (simp add: mp_alloc_block_def)
    then show ?thesis using t mp_live_iff[of m b i] mp_live_take[OF t(5,6,3)] by blast
  qed
  show "mp_inv i (snd (mp_alloc_block i k m))"
    by (cases "mp_free_count m = 0") (use none some[of k] i in auto)
  show "mp_live i (snd (mp_alloc_block i k m)) = mp_live i m" if "fst (mp_alloc_block i k m) = None"
    by (cases "mp_free_count m = 0") (use that none some[of k] in auto)
  show "\<exists>n. k \<le> n \<and> (a, n) \<notin> mp_live i m \<and> mp_live i (snd (mp_alloc_block i k m)) = insert (a, n) (mp_live i m)"
    if k: "k \<le> unat (mp_block_size m)" and a: "fst (mp_alloc_block i k m) = Some a"
  proof -
    have "mp_free_count m \<noteq> 0" using a none by fastforce
    from some[OF this, of k] obtain b m' where
      b: "mp_alloc_block i k m = (Some (fst (mp_cell m b)), m')" "mp_cell m b \<notin> mp_live i m"
      "mp_live i m' = insert (mp_cell m b) (mp_live i m)" by blast
    have "mp_cell m b = (a, unat (mp_block_size m))" using a b(1) by (simp add: mp_cell_def)
    then show ?thesis using b k by auto
  qed
  show "unat (mp_block_size (snd (mp_alloc_block i j m))) \<ge> k \<longleftrightarrow> k \<le> unat (mp_block_size m)"
    by (cases "mp_free_count m = 0") (use none some[of j] in \<open>auto simp: mp_shape_def\<close>)
  assume "(a, n) \<in> mp_live i m"
  then obtain x where x: "x < unat (mp_total m)" "mp_head m x = OwnedBy i" "mp_cell m x = (a, n)"
    by (auto simp: mp_live_def)
  then have r: "mp_release_block a m = mp_give x m"
    using mp_index_cell[of m x] by (simp add: mp_release_block_def)
  show "mp_inv i (mp_release_block a m)" using mp_give_inv(1)[OF i x(1,2)] by (simp add: r)
  show "mp_live i (mp_release_block a m) = mp_live i m - {(a, n)}" using mp_live_give[OF i x(1,2)] x(3) by (simp add: r)
  show "(k \<le> unat (mp_block_size (mp_release_block a m))) = (k \<le> unat (mp_block_size m))"
    using mp_give_inv(2)[OF i x(1,2)] by (simp add: r mp_shape_def)
qed

end
