(* ===== verification/RT_Mempool_Run.thy ===== *)
theory RT_Mempool_Run
  imports RT_Mempool_Inv
begin

text \<open>Memory pools under the kernel invariant: allocating on every branch, releasing, and runs of a
  system whose threads share a pool. A run of the system is a run of the client of an
  allocator, so that the balance of the blocks comes from the interface. The last part shows
  what a timed-out allocation leaves behind.\<close>

section \<open>Allocating\<close>

definition pool_ready :: "nat \<Rightarrow> kernel \<Rightarrow> bool" where
  "pool_ready i s =
    (rt_object_get_type (OMempool i) s = class_code RT_Object_Class_MemPool \<and> mp_inv i (mps s i))"

text \<open>The counter of the waiters is the length of the queue.\<close>

definition pool_ok :: "nat \<Rightarrow> kernel \<Rightarrow> bool" where
  "pool_ok i s =
    (kinv s \<and> rt_current_thread s \<noteq> None \<and> pool_ready i s
     \<and> unat (mp_suspend_count (mps s i)) = length (tq s (mp_queue i)))"

interpretation mempool: waiting_object pool_ready
proof
  fix i s s'
  assume "pool_ready i s" "ipc_kept s s'"
  then show "pool_ready i s'" using ipc_keptD(6,7)[of s s'] by (simp add: pool_ready_def)
qed

lemma mps_upd [simp]: "mps (upd_mps i f s) i = f (mps s i)"
  by (simp add: upd_mps_def)

lemma pool_ok_upd:
  assumes "pool_ok i s" "mp_inv i (f (mps s i))" "mp_suspend_count (f (mps s i)) = mp_suspend_count (mps s i)"
  shows "pool_ok i (upd_mps i f s)"
proof -
  have d: "same_but_data s (upd_mps i f s)" by simp
  note D = same_but_dataD[OF d]
  show ?thesis using assms kinv_same_but_data[OF d] D(1,7,11) by (simp add: pool_ok_def pool_ready_def)
qed

lemma mp_alloc_takes:
  assumes ok: "pool_ok i s" and n: "mp_free_count (mps s i) \<noteq> 0"
  shows "\<exists>b m s'. rt_mp_alloc i time s = Some (Done (Some b), s') \<and> pool_ok i s' \<and> s' = upd_mps i (\<lambda>_. m) s
    \<and> mp_take i (mps s i) = Some (b, m) \<and> b < unat (mp_total (mps s i)) \<and> mp_head (mps s i) b \<noteq> OwnedBy i
    \<and> mp_head m = (mp_head (mps s i))(b := OwnedBy i) \<and> mp_shape m = mp_shape (mps s i)
    \<and> mp_free_count m = mp_free_count (mps s i) - 1"
proof -
  have i: "mp_inv i (mps s i)" using ok by (simp add: pool_ok_def pool_ready_def)
  from mp_take_inv[OF i n] obtain b m where
    m: "mp_take i (mps s i) = Some (b, m)" "mp_inv i m" "b < unat (mp_total (mps s i))"
    "mp_head (mps s i) b \<noteq> OwnedBy i" "mp_head m = (mp_head (mps s i))(b := OwnedBy i)"
    "mp_shape m = mp_shape (mps s i)" "mp_free_count m = mp_free_count (mps s i) - 1"
    "mp_suspend_count m = mp_suspend_count (mps s i)" by blast
  have "rt_mp_alloc i time s = Some (Done (Some b), upd_mps i (\<lambda>_. m) s)"
    using n m(1) by (simp add: rt_mp_alloc_def mp_alloc_loop.simps[of i time s])
  moreover have "pool_ok i (upd_mps i (\<lambda>_. m) s)" using pool_ok_upd[OF ok, of "\<lambda>_. m"] m(2,8) by simp
  ultimately show ?thesis using m by blast
qed

definition mp_waiting :: "nat \<Rightarrow> kernel \<Rightarrow> kernel" where
  "mp_waiting i s = upd_mps i (\<lambda>m. m\<lparr>mp_suspend_count := mp_suspend_count m + 1\<rparr>) s"

lemma mp_waiting_simps [simp]:
  "tq (mp_waiting i s) = tq s" "thr (mp_waiting i s) = thr s" "rt_current_thread (mp_waiting i s) = rt_current_thread s"
  "is_ready (mp_waiting i s) = is_ready s" "kinv (mp_waiting i s) = kinv s" "rt_tick (mp_waiting i s) = rt_tick s"
  "rt_object_get_type r (mp_waiting i s) = rt_object_get_type r s" "can_block (mp_waiting i s) c = can_block s c"
  "mps (mp_waiting i s) i = (mps s i)\<lparr>mp_suspend_count := mp_suspend_count (mps s i) + 1\<rparr>"
proof -
  have d: "same_but_data s (mp_waiting i s)" by (simp add: mp_waiting_def)
  note D = same_but_dataD[OF d]
  show "tq (mp_waiting i s) = tq s" "thr (mp_waiting i s) = thr s" "is_ready (mp_waiting i s) = is_ready s"
    "rt_current_thread (mp_waiting i s) = rt_current_thread s" "rt_tick (mp_waiting i s) = rt_tick s"
    "rt_object_get_type r (mp_waiting i s) = rt_object_get_type r s" "kinv (mp_waiting i s) = kinv s"
    "can_block (mp_waiting i s) c = can_block s c"
    using D kinv_same_but_data[OF d] by (simp_all add: can_block_def other_ready_def)
  show "mps (mp_waiting i s) i = (mps s i)\<lparr>mp_suspend_count := mp_suspend_count (mps s i) + 1\<rparr>"
    by (simp add: mp_waiting_def)
qed

lemma mp_wait_eq:
  assumes "kinv s" "rt_current_thread s = Some c" "is_ready s c"
  shows "mp_wait i c time s = start_wait_timer c time
    (queued_in (mp_queue i) (c # tq s (mp_queue i)) (thread_suspended c (mp_waiting i s)))"
proof -
  have "thread_suspended c (mp_waiting i s) = mp_waiting i (thread_suspended c s)"
    by (simp add: thread_suspended_def mp_waiting_def timer_stopped_def timer_active_def mark_suspended_def
        kernel_defs)
  moreover have "tq (thread_suspended c s) = tq s" by (simp add: thread_suspended_def)
  moreover have "mp_waiting i (queued_in h q u) = queued_in h q (mp_waiting i u)" for h q u
    by (cases u) (simp add: mp_waiting_def upd_mps_def queued_in_def)
  moreover have "tlist_push_front h c u = queued_in h (c # tq u h) u" for h u
    by (simp add: tlist_push_front_def queued_in_def)
  ultimately show ?thesis
    by (simp add: mp_wait_def rt_thread_suspend_eq[OF assms] flip: mp_waiting_def)
qed

lemma mp_alloc_waits:
  assumes ok: "pool_ok i s" and n: "mp_free_count (mps s i) = 0" and b: "can_block s c"
    and t: "time \<noteq> 0" "time < 0x7fffffff" and l: "length (tq s (mp_queue i)) < 2 ^ 32 - 1"
  shows "\<exists>s'. mp_alloc_loop i time s = Some (Blocked, s') \<and> pool_ok i s' \<and> is_suspended s' c \<and> runs_best s'
    \<and> tq s' (mp_queue i) = c # tq s (mp_queue i)
    \<and> mps s' i = (mps s i)\<lparr>mp_suspend_count := mp_suspend_count (mps s i) + 1\<rparr>"
proof -
  let ?s = "set_err c RT_EOK s"
  let ?w = "mp_waiting i ?s"
  let ?q = "c # tq s (mp_queue i)"
  have k: "kinv ?w" using ok by (simp add: pool_ok_def)
  have c: "rt_current_thread ?s = Some c" "is_ready ?s c" using b by (simp_all add: can_block_def)
  have c': "rt_current_thread ?w = Some c" "is_ready ?w c" using c by simp_all
  have h: "is_wait_head (mp_queue i)" by simp
  have q: "set ?q = insert c (set (tq ?w (mp_queue i)))" "distinct ?q"
    using running_unlinked(1)[OF k c', of "mp_queue i"] queue_distinct[OF k, of "mp_queue i"] by simp_all
  from start_wait_total[OF k c' h q t(2)] obtain s1 where
    s1: "mp_wait i c time ?s = Some s1" "waits_in (mp_queue i) ?q c time ?w s1"
    using mp_wait_eq[of ?s c i time] k c by auto
  have "can_block ?w c" using b by simp
  from waits_blocks[OF this s1(2), of "\<lambda>_. None"] obtain s' where
    "after_schedule c (\<lambda>_. None :: (rt_err call \<times> kernel) option) s1 = Some (Blocked, s')"
    and bl: "blocked_in (mp_queue i) ?q c time ?w s'" by blast
  then have s': "rt_schedule s1 = Some s'" "rt_current_thread s' \<noteq> Some c"
    by (auto simp: after_schedule_def bind_Some_iff split: if_splits)
  note B = blockedD[OF bl h]
  have "mp_alloc_loop i time s = Some (Blocked, s')"
    using n t b s1(1) s'
    by (subst mp_alloc_loop.simps) (simp add: can_block_def not_in_interrupt_def rt_thread_self_def)
  moreover have m: "mps s' i = (mps s i)\<lparr>mp_suspend_count := mp_suspend_count (mps s i) + 1\<rparr>"
    using B(10) by simp
  moreover have "pool_ok i s'"
  proof -
    have "mp_inv i (mps s' i)" using ok m by (simp add: pool_ok_def pool_ready_def)
    moreover have "rt_object_get_type (OMempool i) s' = class_code RT_Object_Class_MemPool"
      using ipc_sameD(10)[OF B(12)] ok by (simp add: pool_ok_def pool_ready_def)
    moreover have "unat (mp_suspend_count (mps s' i)) = length ?q"
      using ok l m by (simp add: pool_ok_def unat_word_ariths)
    ultimately show ?thesis
      using B(1,4) blocked_current[OF bl] by (simp add: pool_ok_def pool_ready_def)
  qed
  ultimately show ?thesis using B(2,3,4) by auto
qed

lemma pool_ok_set_errno: "pool_ok i s \<Longrightarrow> pool_ok i (rt_set_errno e s)"
  by (simp add: pool_ok_def pool_ready_def)

section \<open>Releasing\<close>

lemma mp_wake_total:
  assumes ok: "pool_ok i s"
  shows "\<exists>s'. mp_wake i s = Some s' \<and> pool_ok i s' \<and> tq s' (mp_queue i) = tl (tq s (mp_queue i))
    \<and> (tq s (mp_queue i) = [] \<longrightarrow> s' = s)
    \<and> (tq s (mp_queue i) \<noteq> [] \<longrightarrow> is_ready s' (hd (tq s (mp_queue i)))
         \<and> err (thr s' (hd (tq s (mp_queue i)))) = RT_EOK \<and> (rt_scheduler_lock_nest s = 0 \<longrightarrow> runs_best s'))
    \<and> (\<exists>n. mps s' i = (mps s i)\<lparr>mp_suspend_count := n\<rparr>)"
proof (cases "tq s (mp_queue i)")
  case Nil
  then have "mp_suspend_count (mps s i) = 0" using ok by (simp add: pool_ok_def unat_eq_0)
  then show ?thesis using Nil ok by (auto simp: mp_wake_def intro: exI[of _ "mp_suspend_count (mps s i)"])
next
  case (Cons t ts)
  let ?e = "set_err t RT_EOK s"
  let ?dec = "\<lambda>m. m\<lparr>mp_suspend_count := mp_suspend_count m - 1\<rparr>"
  let ?r = "upd_mps i ?dec (thread_resumed t ?e)"
  have k: "kinv ?e" and h: "is_wait_head (mp_queue i)" and q: "tq ?e (mp_queue i) = t # ts"
    using ok Cons by (simp_all add: pool_ok_def)
  note w = rt_ipc_list_resume_eq[OF k h q]
  have d: "same_but_data (thread_resumed t ?e) ?r" by simp
  note D = same_but_dataD[OF d]
  have k': "kinv ?r" using w(2) kinv_same_but_data[OF d] by simp
  have c': "rt_current_thread ?r \<noteq> None" using ok D(7) by (simp add: pool_ok_def)
  have "is_ready ?r t" using w(4) D(14) by simp
  from schedule_after[OF k' c' this] obtain s' where
    s': "rt_schedule ?r = Some s'" "kinv s'" "sched_only ?r s'" "rt_scheduler_lock_nest ?r = 0 \<longrightarrow> runs_best s'"
    by blast
  note sk = ipc_same_sched[OF s'(3)]
  have lk: "rt_scheduler_lock_nest ?r = rt_scheduler_lock_nest s"
    using D(9) ipc_sameD(7)[OF ipc_same_resumed, of t ?e] by simp
  have u: "mp_suspend_count (mps s i) > 0" "unat (mp_suspend_count (mps s i) - 1) = length ts"
  proof -
    have l: "unat (mp_suspend_count (mps s i)) = Suc (length ts)" using ok Cons by (simp add: pool_ok_def)
    then have nz: "mp_suspend_count (mps s i) \<noteq> 0" by auto
    then show "mp_suspend_count (mps s i) > 0" by (simp add: word_gt_0)
    show "unat (mp_suspend_count (mps s i) - 1) = length ts" using l nz by (simp add: unat_minus_one)
  qed
  have e: "mp_wake i s = Some s'"
    using u(1) Cons s'(1) rt_thread_resume_eq[OF k w(3)] by (simp add: mp_wake_def)
  have m: "mps s' i = ?dec (mps s i)"
    using ipc_sameD(6)[OF sk] ipc_sameD(6)[OF ipc_same_resumed, of t ?e] by simp
  have ts: "tq s' (mp_queue i) = ts" using sched_only_queue[OF s'(3) h] D(1) w(5) by simp
  have "mp_inv i (mps s' i)" using ok m by (simp add: pool_ok_def pool_ready_def)
  moreover have "rt_object_get_type (OMempool i) s' = class_code RT_Object_Class_MemPool"
    using ipc_sameD(10)[OF sk] D(11) ipc_sameD(10)[OF ipc_same_resumed, of "OMempool i" t ?e] ok
    by (simp add: pool_ok_def pool_ready_def)
  moreover have "rt_current_thread s' \<noteq> None"
  proof -
    obtain x where "rt_current_thread ?r = Some x" using c' by auto
    from rt_schedule_step[OF k' this] s'(1) show ?thesis by auto
  qed
  ultimately have ok': "pool_ok i s'" using s'(2) ts m u(2) by (simp add: pool_ok_def pool_ready_def)
  have "is_ready s' t" using sched_only_status(3)[OF s'(3)] D(14) w(4) by simp
  moreover have "err (thr s' t) = RT_EOK"
    using sched_onlyD(3)[OF s'(3)] D(2) by (simp add: thread_resumed_thr)
  ultimately show ?thesis using e ok' ts Cons m s'(4) lk by auto
qed

lemma mp_free_total:
  assumes ok: "pool_ok i s" and b: "b < unat (mp_total (mps s i))" "mp_head (mps s i) b = OwnedBy i"
  shows "\<exists>s'. rt_mp_free i b s = Some s' \<and> pool_ok i s' \<and> tq s' (mp_queue i) = tl (tq s (mp_queue i))
    \<and> (tq s (mp_queue i) \<noteq> [] \<longrightarrow> is_ready s' (hd (tq s (mp_queue i)))
         \<and> err (thr s' (hd (tq s (mp_queue i)))) = RT_EOK \<and> (rt_scheduler_lock_nest s = 0 \<longrightarrow> runs_best s'))
    \<and> (\<exists>n. mps s' i = (mp_give b (mps s i))\<lparr>mp_suspend_count := n\<rparr>)"
proof -
  let ?s = "upd_mps i (mp_give b) s"
  have i: "mp_inv i (mps s i)" using ok by (simp add: pool_ok_def pool_ready_def)
  note g = mp_give_inv[OF i b]
  have d: "same_but_data s ?s" by simp
  note D = same_but_dataD[OF d]
  have "pool_ok i ?s" by (rule pool_ok_upd[where f = "mp_give b", OF ok g(1,3)])
  from mp_wake_total[OF this] show ?thesis using b(2) D(1,9) by (auto simp: rt_mp_free_def)
qed

section \<open>Runs\<close>

text \<open>\<^verbatim>\<open>mp_run i s0 as fs s\<close>: from s0 to s, the memory \<^verbatim>\<open>as\<close> was allocated from pool i and the memory
  \<^verbatim>\<open>fs\<close> was released. A waiting call goes on where the scheduler gives its thread the processor
  again. Threads time out while they wait for anything but this pool.\<close>

definition allocated :: "rt_mempool \<Rightarrow> nat option call \<Rightarrow> (nat \<times> nat) list" where
  "allocated m x = (case x of Done (Some b) \<Rightarrow> [mp_cell m b] | _ \<Rightarrow> [])"

inductive mp_run ::
  "nat \<Rightarrow> kernel \<Rightarrow> (nat \<times> nat) list \<Rightarrow> (nat \<times> nat) list \<Rightarrow> kernel \<Rightarrow> bool" for i s0 where
  p_start: "mp_run i s0 [] [] s0"
| p_alloc: "mp_run i s0 as fs s \<Longrightarrow> time = 0 \<or> can_block s c \<Longrightarrow> time < 0x7fffffff
    \<Longrightarrow> length (tq s (mp_queue i)) < 2 ^ 32 - 1 \<Longrightarrow> rt_mp_alloc i time s = Some (x, s')
    \<Longrightarrow> mp_run i s0 (allocated (mps s i) x @ as) fs s'"
| p_alloc_wake: "mp_run i s0 as fs s \<Longrightarrow> can_block s c \<Longrightarrow> time_left time start (rt_tick s) < 0x7fffffff
    \<Longrightarrow> length (tq s (mp_queue i)) < 2 ^ 32 - 1 \<Longrightarrow> rt_mp_alloc_wake i c time start s = Some (x, s')
    \<Longrightarrow> mp_run i s0 (allocated (mps s i) x @ as) fs s'"
| p_free: "mp_run i s0 as fs s \<Longrightarrow> b < unat (mp_total (mps s i)) \<Longrightarrow> mp_head (mps s i) b = OwnedBy i
    \<Longrightarrow> rt_mp_free i b s = Some s' \<Longrightarrow> mp_run i s0 as (mp_cell (mps s i) b # fs) s'"
| p_timed_out: "mp_run i s0 as fs s \<Longrightarrow> is_suspended s t \<Longrightarrow> ThreadTimer t \<notin> set (rt_timer_list s)
    \<Longrightarrow> t \<notin> set (tq s (mp_queue i)) \<Longrightarrow> rt_thread_timeout t s = Some s' \<Longrightarrow> mp_run i s0 as fs s'"
| p_switched: "mp_run i s0 as fs s \<Longrightarrow> rt_schedule s = Some s' \<Longrightarrow> mp_run i s0 as fs s'"

inductive_cases mp_run_freeE: "mp_run i s0 as (b # fs) s"

text \<open>The step of the allocator that a call is: none, or the one of the interface. The counter of the
  waiters is not part of it.\<close>

definition pool_view :: "rt_mempool \<Rightarrow> rt_mempool" where
  "pool_view m = m\<lparr>mp_suspend_count := 0\<rparr>"

lemma pool_view_simps [simp]:
  "mp_inv i (pool_view m) = mp_inv i m" "mp_cell (pool_view m) = mp_cell m" "mp_live i (pool_view m) = mp_live i m"
  "pool_view (m\<lparr>mp_suspend_count := n\<rparr>) = pool_view m" "mp_free_count (pool_view m) = mp_free_count m"
  "mp_give b (pool_view m) = pool_view (mp_give b m)"
  "mp_take i (pool_view m) = map_option (\<lambda>(b, m). (b, pool_view m)) (mp_take i m)"
  by (auto simp: pool_view_def mp_cell_def[abs_def] mp_stride_def mp_live_def mp_give_def mp_take_def Let_def
      split: option.split mp_header.split)

lemma mp_loop_cases:
  assumes ok: "pool_ok i s" and b: "time = 0 \<or> can_block s c" and t: "time < 0x7fffffff"
    and l: "length (tq s (mp_queue i)) < 2 ^ 32 - 1" and r: "mp_alloc_loop i time s = Some (x, s')"
    and run: "pool.run i m0 as fs (pool_view (mps s i))"
  shows "pool_ok i s' \<and> pool.run i m0 (allocated (mps s i) x @ as) fs (pool_view (mps s' i))"
proof -
  consider (some) "mp_free_count (mps s i) \<noteq> 0" | (none) "mp_free_count (mps s i) = 0" "time = 0"
    | (wait) "mp_free_count (mps s i) = 0" "time \<noteq> 0" by blast
  then show ?thesis
  proof cases
    case some
    let ?v = "pool_view (mps s i)"
    from mp_alloc_takes[OF ok some, of time] r obtain b m where
      b: "x = Done (Some b)" "s' = upd_mps i (\<lambda>_. m) s" "pool_ok i s'" "mp_take i (mps s i) = Some (b, m)"
      "b < unat (mp_total (mps s i))" "mp_head m = (mp_head (mps s i))(b := OwnedBy i)"
      "mp_shape m = mp_shape (mps s i)"
      by (auto simp: rt_mp_alloc_def)
    have a: "mp_alloc_block i 0 ?v = (Some (fst (mp_cell (mps s i) b)), pool_view m)"
      using some b(4) by (simp add: mp_alloc_block_def)
    have "mp_cell (mps s i) b \<in> mp_live i m" using mp_live_take[OF b(6,7,5)] by simp
    then have "pool.run i m0 (mp_cell (mps s i) b # as) fs (pool_view m)"
      using pool.given[OF run, of 0 "fst (mp_cell (mps s i) b)" "snd (mp_cell (mps s i) b)"] a by simp
    then show ?thesis using b(1-3) by (simp add: allocated_def)
  next
    case none
    then have "x = Done None" "s' = rt_set_errno (- RT_ETIMEOUT) s"
      using r by (simp_all add: mp_alloc_loop.simps[of i 0 s])
    then show ?thesis using pool_ok_set_errno[OF ok] run by (simp add: allocated_def)
  next
    case wait
    then have "can_block s c" using b by simp
    from mp_alloc_waits[OF ok wait(1) this wait(2) t l] r run show ?thesis by (auto simp: allocated_def)
  qed
qed

lemma mp_run_keeps:
  assumes "mp_run i s0 as fs s" "pool_ok i s0"
  shows "pool_ok i s \<and> pool.run i (pool_view (mps s0 i)) as fs (pool_view (mps s i))"
  using assms
proof (induction rule: mp_run.induct)
  case p_start
  then show ?case using pool.start by simp
next
  case (p_alloc as fs s time c x s')
  then have "pool_ok i s" "pool.run i (pool_view (mps s0 i)) as fs (pool_view (mps s i))" by simp_all
  with mp_loop_cases[OF this(1) p_alloc(2-4) _ this(2)] p_alloc(5) show ?case by (simp add: rt_mp_alloc_def)
next
  case (p_alloc_wake as fs s c time start x s')
  then have ih: "pool_ok i s" "pool.run i (pool_view (mps s0 i)) as fs (pool_view (mps s i))" by simp_all
  show ?case
  proof (cases "err (thr s c) = RT_EOK")
    case True
    then have "mp_alloc_loop i (time_left time start (rt_tick s)) s = Some (x, s')"
      using p_alloc_wake(5) by (simp add: rt_mp_alloc_wake_def)
    from mp_loop_cases[OF ih(1) _ p_alloc_wake(3,4) this ih(2), of c] p_alloc_wake(2) show ?thesis by simp
  next
    case False
    then show ?thesis using p_alloc_wake(5) ih by (auto simp: rt_mp_alloc_wake_def allocated_def)
  qed
next
  case (p_free as fs s b s')
  then have ih: "pool_ok i s" "pool.run i (pool_view (mps s0 i)) as fs (pool_view (mps s i))" by simp_all
  from mp_free_total[OF ih(1) p_free(2,3)] p_free(4) obtain n where
    s': "pool_ok i s'" "mps s' i = (mp_give b (mps s i))\<lparr>mp_suspend_count := n\<rparr>" by auto
  have lv: "mp_cell (mps s i) b \<in> mp_live i (pool_view (mps s i))"
    using p_free(2,3) mp_live_iff[of "mps s i" b i] by simp
  have "pool_view (mps s' i) = mp_release_block (fst (mp_cell (mps s i) b)) (pool_view (mps s i))"
    using mp_index_cell[of "pool_view (mps s i)" b] s'(2) by (simp add: mp_release_block_def)
  with pool.freed[OF ih(2), of "fst (mp_cell (mps s i) b)" "snd (mp_cell (mps s i) b)"] lv s'(1)
  show ?case by simp
next
  case (p_timed_out as fs s t s')
  then have ok: "pool_ok i s" and run: "pool.run i (pool_view (mps s0 i)) as fs (pool_view (mps s i))" by simp_all
  have k: "kinv s" "rt_current_thread s \<noteq> None" "pool_ready i s" using ok by (simp_all add: pool_ok_def)
  note T = mempool.timeout_keeps[OF k p_timed_out(2,3,5)]
  let ?s = "thread_timed_out t s"
  have k': "kinv ?s" by (rule thread_timed_out_kinv[OF k(1) p_timed_out(2,3)])
  have "rt_current_thread ?s \<noteq> None" using k(2) by (simp add: thread_timed_out_def)
  then obtain x where "rt_current_thread ?s = Some x" by auto
  from rt_schedule_step[OF k' this] p_timed_out(5) have "sched_only ?s s'"
    using rt_thread_timeout_eq[OF k(1) p_timed_out(2)] by auto
  then have "tq s' (mp_queue i) = tq s (mp_queue i)"
    using sched_only_queue[of ?s s' "mp_queue i"] timed_out_frame(2)[of "mp_queue i" t s] p_timed_out(4) by simp
  then show ?case using T ok run ipc_keptD(6)[of s s'] by (simp add: pool_ok_def)
next
  case (p_switched as fs s s')
  then have ok: "pool_ok i s" and run: "pool.run i (pool_view (mps s0 i)) as fs (pool_view (mps s i))" by simp_all
  have k: "kinv s" "rt_current_thread s \<noteq> None" "pool_ready i s" using ok by (simp_all add: pool_ok_def)
  note T = mempool.switch_keeps[OF k p_switched(2)]
  obtain x where "rt_current_thread s = Some x" using k(2) by auto
  from rt_schedule_step[OF k(1) this] p_switched(2) have "sched_only s s'" by auto
  from sched_only_queue[OF this, of "mp_queue i"] show ?case
    using T ok run ipc_keptD(6)[of s s'] by (simp add: pool_ok_def)
qed

end
