(* ===== verification/RT_Mempool_Spec.thy ===== *)
theory RT_Mempool_Spec
  imports RT_Mempool_Run RT_Mailbox_Run
begin

text \<open>The properties of memory pools: the initialisation, allocating and releasing on every branch,
  the balance of the blocks over every run without timed-out allocations, and the defect that a
  timed-out allocation leaves behind; and the waking of all waiters when a pool is removed.\<close>

section \<open>The initial pool\<close>

lemma mp_init_links:
  "mp_head (fold (\<lambda>k m. m\<lparr>mp_head := (mp_head m)(k := NextFree (Some (k + 1)))\<rparr>) [0..<n] m) b
    = (if b < n then NextFree (Some (b + 1)) else mp_head m b)"
  "mp_shape (fold (\<lambda>k m. m\<lparr>mp_head := (mp_head m)(k := NextFree (Some (k + 1)))\<rparr>) [0..<n] m) = mp_shape m"
  "mp_free_count (fold (\<lambda>k m. m\<lparr>mp_head := (mp_head m)(k := NextFree (Some (k + 1)))\<rparr>) [0..<n] m) = mp_free_count m"
  "mp_suspend_count (fold (\<lambda>k m. m\<lparr>mp_head := (mp_head m)(k := NextFree (Some (k + 1)))\<rparr>) [0..<n] m)
    = mp_suspend_count m"
  by (induction n) (auto simp: mp_shape_def)

lemma mchain_upt:
  assumes "\<forall>b. a \<le> b \<and> b < n \<longrightarrow> nx b = (if Suc b < n then Some (Suc b) else None)" "a < n"
  shows "mchain nx (Some a) [a..<n]"
  using assms
proof (induction "n - a" arbitrary: a)
  case (Suc k)
  show ?case
  proof (cases "Suc a < n")
    case True
    have "mchain nx (Some (Suc a)) [Suc a..<n]" using Suc.hyps(2) Suc.prems True by (intro Suc.hyps(1)) auto
    then show ?thesis using Suc.prems True by (simp add: upt_conv_Cons)
  next
    case False
    then have "[a..<n] = [a]" using Suc.prems(2) by (simp add: upt_conv_Cons)
    then show ?thesis using Suc.prems False by simp
  qed
qed simp

lemma mp_init_list_inv:
  assumes n: "0 < mp_total m" "mp_free_count m = mp_total m" and bs: "0 < mp_block_size m"
    and a: "unat (mp_addr m) + unat (mp_total m) * mp_stride m \<le> 2 ^ 32"
  shows "\<exists>m'. mp_init_list m = Some m' \<and> mp_inv i m' \<and> mp_shape m' = mp_shape m \<and> mp_live i m' = {}
    \<and> mp_free_count m' = mp_total m \<and> mp_suspend_count m' = mp_suspend_count m"
proof -
  let ?n = "unat (mp_total m)"
  let ?f = "fold (\<lambda>k m. m\<lparr>mp_head := (mp_head m)(k := NextFree (Some (k + 1)))\<rparr>) [0..<?n] m"
  let ?m = "?f\<lparr>mp_head := (mp_head ?f)(?n - 1 := NextFree None), mp_block_list := Some 0\<rparr>"
  have pos: "0 < ?n" using n(1) by (simp add: unat_gt_0)
  note L = mp_init_links[of ?n m]
  have e: "mp_init_list m = Some ?m" using pos by (simp add: mp_init_list_def Let_def)
  have sh: "mp_shape ?m = mp_shape m" using L(2) by (simp add: mp_shape_def)
  then have sh': "mp_addr ?m = mp_addr m" "mp_block_size ?m = mp_block_size m" "mp_total ?m = mp_total m"
    by (simp_all add: mp_shape_def)
  have hd: "mp_head ?m b = NextFree (if Suc b < ?n then Some (Suc b) else None)" if "b < ?n" for b
    using that L(1)[of b] by auto
  have nx: "mp_next ?m b = (if Suc b < ?n then Some (Suc b) else None)" if "b < ?n" for b
    unfolding mp_next_def hd[OF that] by simp
  have "mchain (mp_next ?m) (mp_block_list ?m) [0..<?n]" using mchain_upt[of 0 ?n "mp_next ?m"] nx pos by simp
  then have "mp_lists i ?m [0..<?n]"
    unfolding mp_lists_def using hd nx n bs a L(3) sh' by (auto simp: mp_stride_def)
  then have "mp_inv i ?m" by (auto simp: mp_inv_def)
  moreover have "mp_live i ?m = {}" using hd sh'(3) by (auto simp: mp_live_def)
  ultimately show ?thesis using e sh L(3,4) n(2) by auto
qed

text \<open>Initialising a pool. It gets as many blocks as fit with their headers into the aligned
  memory, at least the requested size each, all free; each lies within the given memory, and no
  thread waits.\<close>

theorem rt_mp_init_correct:
  assumes "unat start + unat sz \<le> 2 ^ 32" "0 < block_size" "unat block_size + 3 < 2 ^ 32 - 4"
    and "(unat block_size + 3) div 4 * 4 + 4 \<le> unat sz div 4 * 4"
  shows "\<exists>s' m. rt_mp_init i nm start sz block_size s = Some (RT_EOK, s') \<and> mps s' i = m \<and> mp_inv i m
    \<and> mp_live i m = {} \<and> tq s' (mp_queue i) = [] \<and> mp_suspend_count m = 0
    \<and> rt_object_get_type (OMempool i) s' = class_code RT_Object_Class_MemPool
    \<and> unat (mp_free_count m) = unat sz div 4 * 4 div ((unat block_size + 3) div 4 * 4 + 4)
    \<and> (\<forall>b < unat (mp_total m). unat start \<le> fst (mp_cell m b) \<and> block_size \<le> mp_block_size m
          \<and> fst (mp_cell m b) + snd (mp_cell m b) \<le> unat start + unat sz)"
proof -
  define bs where "bs = RT_ALIGN block_size 4"
  define sz4 where "sz4 = RT_ALIGN_DOWN sz 4"
  define n where "n = sz4 div (bs + 4)"
  have bs: "unat bs = (unat block_size + 3) div 4 * 4" using assms(3) by (simp add: bs_def unat_RT_ALIGN4)
  have sz4: "unat sz4 = unat sz div 4 * 4" by (simp add: sz4_def unat_RT_ALIGN_DOWN4)
  have "(unat block_size + 3) div 4 * 4 \<le> unat block_size + 3" by simp
  then have bs4: "unat (bs + 4) = unat bs + 4" using assms(3) bs by (simp add: unat_word_ariths)
  have bb: "unat block_size \<le> unat bs" "0 < unat block_size" using assms(2) bs by (simp_all add: unat_gt_0)
  have nn: "unat n = unat sz4 div (unat bs + 4)" by (simp add: n_def unat_div bs4)
  have pos: "0 < n"
  proof -
    have "1 \<le> unat sz4 div (unat bs + 4)" using assms(4) bs sz4 by (simp add: div_greater_zero_iff Suc_le_eq)
    then show ?thesis unfolding word_less_nat_alt nn by simp
  qed
  have fit: "unat n * (unat bs + 4) \<le> unat sz4" using nn by simp
  have sz4le: "unat sz4 \<le> unat sz" using sz4 by simp
  let ?s = "s\<lparr>objs := (objs s)(OMempool i := (objs s (OMempool i))\<lparr>
        obj_type := class_code RT_Object_Class_MemPool OR RT_Object_Class_Static,
        obj_name := strncpy_bytes nm 0 RT_NAME_MAX\<rparr>),
      obj_list := (obj_list s)(RT_Object_Class_MemPool := OMempool i # obj_list s RT_Object_Class_MemPool)\<rparr>"
  define m0 where "m0 = (mps s i)\<lparr>mp_addr := start, mp_size := sz4, mp_block_size := bs, mp_total := n,
    mp_free_count := n, mp_suspend_count := 0\<rparr>"
  have m0: "mp_addr m0 = start" "mp_block_size m0 = bs" "mp_total m0 = n" "mp_free_count m0 = n"
    "mp_suspend_count m0 = 0" by (simp_all add: m0_def)
  have "unat (mp_addr m0) + unat (mp_total m0) * mp_stride m0 \<le> 2 ^ 32"
    unfolding mp_stride_def m0 using fit sz4le assms(1) by linarith
  moreover have "0 < mp_block_size m0" using bb by (simp add: m0 word_less_nat_alt)
  ultimately obtain m where m: "mp_init_list m0 = Some m" "mp_inv i m" "mp_shape m = mp_shape m0" "mp_live i m = {}"
    "mp_free_count m = n" "mp_suspend_count m = 0"
    using mp_init_list_inv[of m0 i] pos unfolding m0(3,4,5) by blast
  have sh: "mp_addr m = start" "mp_block_size m = bs" "mp_total m = n" using m(3) m0 by (simp_all add: mp_shape_def)
  let ?r = "upd_mps i (\<lambda>_. m) (tlist_init (mp_queue i) (upd_mps i (\<lambda>m. m\<lparr>mp_free_count := n\<rparr>)
    (upd_mps i (\<lambda>m. m\<lparr>mp_total := n\<rparr>) (upd_mps i (\<lambda>m. m\<lparr>mp_addr := start, mp_size := sz4, mp_block_size := bs\<rparr>) ?s))))"
  have nz: "bs + 4 \<noteq> 0" using bs4 by (metis add_is_0 unat_0 zero_neq_numeral)
  have "rt_mp_init i nm start sz block_size s = Some (RT_EOK, ?r)"
    using m(1) nz unfolding rt_mp_init_def bs_def[symmetric] sz4_def[symmetric]
    by (simp add: m0_def rt_object_init_Some rt_object_container_def n_def upd_mps_def tlist_init_def)
  moreover have "mps ?r i = m" by simp
  moreover have "tq ?r (mp_queue i) = []" by (simp add: kernel_defs)
  moreover have "rt_object_get_type (OMempool i) ?r = class_code RT_Object_Class_MemPool"
    by (simp add: kernel_defs rt_object_get_type_def RT_Object_Class_Static_def)
  moreover have "unat start \<le> fst (mp_cell m b) \<and> block_size \<le> mp_block_size m
          \<and> fst (mp_cell m b) + snd (mp_cell m b) \<le> unat start + unat sz" if "b < unat (mp_total m)" for b
  proof -
    have "Suc b * (unat bs + 4) \<le> unat n * (unat bs + 4)" using that sh(3) by (intro mult_le_mono1) simp
    then show ?thesis using fit sz4le sh bb by (simp add: mp_cell_def mp_stride_def word_le_nat_alt)
  qed
  ultimately show ?thesis using m(2,4,5,6) nn bs sz4 by metis
qed

lemma rt_mp_init_correct_witness:
  "\<exists>s'. rt_mp_init 0 [] 0x20003000 50 6 demo = Some (RT_EOK, s') \<and> unat (mp_free_count (mps s' 0)) = 4"
  using rt_mp_init_correct[of "0x20003000" 50 6 0 "[]" demo] by auto

section \<open>Allocating and releasing\<close>

lemma pool_ok_demo: "pool_ok i demo"
proof -
  let ?m = "mps demo i"
  have "mp_lists i ?m [0, 1]"
    by (simp add: mp_lists_def demo_def mp_next_def mp_stride_def less_2_cases_iff)
  then have "mp_inv i ?m" by (auto simp: mp_inv_def)
  moreover have "mp_suspend_count ?m = 0" by (simp add: demo_def)
  ultimately show ?thesis by (simp add: pool_ok_def pool_ready_def del: class_code.simps)
qed

lemma mps_demo: "mp_free_count (mps demo i) = 2" "mp_live i (mps demo i) = {}" "mp_total (mps demo i) = 2"
  by (auto simp: demo_def mp_live_def)

text \<open>Allocating a block. A pool with a free block gives one that was not allocated and
  changes nothing else; from an exhausted pool the call returns the null pointer and the error
  number of a timeout when there is no waiting time, and otherwise the thread waits at the
  front of the queue of the pool and another thread runs.\<close>

theorem rt_mp_alloc_correct:
  assumes "pool_ok i s" "can_block s c" "time < 0x7fffffff" "length (tq s (mp_queue i)) < 2 ^ 32 - 1"
  shows "(mp_free_count (mps s i) \<noteq> 0 \<longrightarrow>
      (\<exists>b m. rt_mp_alloc i time s = Some (Done (Some b), upd_mps i (\<lambda>_. m) s) \<and> pool_ok i (upd_mps i (\<lambda>_. m) s)
        \<and> mp_cell (mps s i) b \<notin> mp_live i (mps s i)
        \<and> mp_live i m = insert (mp_cell (mps s i) b) (mp_live i (mps s i))
        \<and> mp_free_count m = mp_free_count (mps s i) - 1))
    \<and> (mp_free_count (mps s i) = 0 \<and> time = 0 \<longrightarrow>
        (\<exists>s'. rt_mp_alloc i time s = Some (Done None, s') \<and> pool_ok i s' \<and> mps s' = mps s
          \<and> rt_get_errno s' = - RT_ETIMEOUT))
    \<and> (mp_free_count (mps s i) = 0 \<and> time \<noteq> 0 \<longrightarrow>
        (\<exists>s'. rt_mp_alloc i time s = Some (Blocked, s') \<and> pool_ok i s' \<and> is_suspended s' c \<and> runs_best s'
          \<and> tq s' (mp_queue i) = c # tq s (mp_queue i) \<and> mp_live i (mps s' i) = mp_live i (mps s i)))"
proof (intro conjI impI)
  show "\<exists>b m. rt_mp_alloc i time s = Some (Done (Some b), upd_mps i (\<lambda>_. m) s) \<and> pool_ok i (upd_mps i (\<lambda>_. m) s)
        \<and> mp_cell (mps s i) b \<notin> mp_live i (mps s i)
        \<and> mp_live i m = insert (mp_cell (mps s i) b) (mp_live i (mps s i))
        \<and> mp_free_count m = mp_free_count (mps s i) - 1" if n: "mp_free_count (mps s i) \<noteq> 0"
  proof -
    from mp_alloc_takes[OF assms(1) n, of time] obtain b m where
      b: "rt_mp_alloc i time s = Some (Done (Some b), upd_mps i (\<lambda>_. m) s)" "pool_ok i (upd_mps i (\<lambda>_. m) s)"
      "b < unat (mp_total (mps s i))" "mp_head (mps s i) b \<noteq> OwnedBy i"
      "mp_head m = (mp_head (mps s i))(b := OwnedBy i)" "mp_shape m = mp_shape (mps s i)"
      "mp_free_count m = mp_free_count (mps s i) - 1" by blast
    then show ?thesis using mp_live_iff[of "mps s i" b i] mp_live_take[OF b(5,6,3)] by blast
  qed
  show "\<exists>s'. rt_mp_alloc i time s = Some (Done None, s') \<and> pool_ok i s' \<and> mps s' = mps s
          \<and> rt_get_errno s' = - RT_ETIMEOUT" if n: "mp_free_count (mps s i) = 0 \<and> time = 0"
    using n pool_ok_set_errno[OF assms(1)] errno_agree(2)
    by (simp add: rt_mp_alloc_def mp_alloc_loop.simps[of i 0 s])
  show "\<exists>s'. rt_mp_alloc i time s = Some (Blocked, s') \<and> pool_ok i s' \<and> is_suspended s' c \<and> runs_best s'
          \<and> tq s' (mp_queue i) = c # tq s (mp_queue i) \<and> mp_live i (mps s' i) = mp_live i (mps s i)"
    if n: "mp_free_count (mps s i) = 0 \<and> time \<noteq> 0"
  proof -
    from mp_alloc_waits[OF assms(1) _ assms(2) _ assms(3,4)] n obtain s' where
      s': "mp_alloc_loop i time s = Some (Blocked, s')" "pool_ok i s'" "is_suspended s' c" "runs_best s'"
      "tq s' (mp_queue i) = c # tq s (mp_queue i)"
      "mps s' i = (mps s i)\<lparr>mp_suspend_count := mp_suspend_count (mps s i) + 1\<rparr>" by blast
    have "mp_live i (mps s' i) = mp_live i (mps s i)"
      using s'(6) by (simp add: mp_live_def mp_cell_def[abs_def] mp_stride_def)
    then show ?thesis using s' by (simp add: rt_mp_alloc_def)
  qed
qed

lemma rt_mp_alloc_correct_witness:
  "\<exists>b m. rt_mp_alloc 0 0 demo = Some (Done (Some b), upd_mps 0 (\<lambda>_. m) demo) \<and> mp_free_count m = 1"
  using rt_mp_alloc_correct[OF pool_ok_demo can_block_demo, of 0 0] mps_demo by auto

text \<open>Releasing a block. The block of a pool whose counter of waiters is right goes back to
  the pool, which changes in nothing else, and when threads wait the last to come becomes ready
  with no error set and the most urgent thread runs; the release never fails.\<close>

theorem rt_mp_free_correct:
  assumes "pool_ok i s" "b < unat (mp_total (mps s i))" "mp_head (mps s i) b = OwnedBy i"
  shows "\<exists>s'. rt_mp_free i b s = Some s' \<and> pool_ok i s'
    \<and> mp_live i (mps s' i) = mp_live i (mps s i) - {mp_cell (mps s i) b}
    \<and> mp_free_count (mps s' i) = mp_free_count (mps s i) + 1
    \<and> tq s' (mp_queue i) = tl (tq s (mp_queue i))
    \<and> (tq s (mp_queue i) \<noteq> [] \<longrightarrow> is_ready s' (hd (tq s (mp_queue i)))
         \<and> err (thr s' (hd (tq s (mp_queue i)))) = RT_EOK \<and> (rt_scheduler_lock_nest s = 0 \<longrightarrow> runs_best s'))"
proof -
  have i: "mp_inv i (mps s i)" using assms(1) by (simp add: pool_ok_def pool_ready_def)
  have "mp_live i (m\<lparr>mp_suspend_count := n\<rparr>) = mp_live i m" for m n
    by (simp add: mp_live_def mp_cell_def[abs_def] mp_stride_def)
  then show ?thesis
    using mp_free_total[OF assms] mp_live_give[OF i assms(2,3)] mp_give_inv(4)[OF i assms(2,3)] by fastforce
qed

text \<open>A state in which thread 0 runs and holds both blocks of pool 0.\<close>

definition full_demo :: kernel where
  "full_demo = upd_mps 0 (\<lambda>m. m\<lparr>mp_head := (\<lambda>_. OwnedBy 0), mp_block_list := None, mp_free_count := 0\<rparr>) demo"

lemma full_demo_simps [simp]:
  "mp_free_count (mps full_demo 0) = 0" "mp_head (mps full_demo 0) b = OwnedBy 0" "mp_total (mps full_demo 0) = 2"
  "tq full_demo = tq demo" "can_block full_demo 0"
proof -
  have d: "same_but_data demo full_demo" by (simp add: full_demo_def)
  note D = same_but_dataD[OF d]
  show "tq full_demo = tq demo" "can_block full_demo 0"
    using D can_block_demo unfolding can_block_def other_ready_def by simp_all
  show "mp_free_count (mps full_demo 0) = 0" "mp_head (mps full_demo 0) b = OwnedBy 0"
    "mp_total (mps full_demo 0) = 2"
    by (simp_all add: full_demo_def) (simp add: demo_def)
qed

lemma pool_ok_full_demo: "pool_ok 0 full_demo"
proof -
  have "mp_lists 0 (mps full_demo 0) []"
    by (simp add: mp_lists_def full_demo_def mp_stride_def) (simp add: demo_def)
  then have "mp_inv 0 (mps full_demo 0)" by (auto simp: mp_inv_def)
  then show ?thesis unfolding full_demo_def by (intro pool_ok_upd[OF pool_ok_demo]) simp_all
qed

lemma rt_mp_free_correct_witness:
  "\<exists>s'. rt_mp_free 0 1 full_demo = Some s' \<and> mp_free_count (mps s' 0) = 1"
  using rt_mp_free_correct[OF pool_ok_full_demo, of 1] by auto

section \<open>Runs\<close>

text \<open>C37. The blocks of a pool over any run in which no allocation from it times out, starting with
  no block allocated: every piece of memory was released as often as it was allocated, once
  less while it is allocated, so that no block is given twice or lost, and the pool still keeps
  its invariant, under which allocated blocks do not overlap and every release succeeds.\<close>

theorem mempool_run_balance:
  assumes "mp_run i s0 as fs s" "pool_ok i s0" "mp_live i (mps s0 i) = {}"
  shows "pool_ok i s
    \<and> count_list as blk = count_list fs blk + (if blk \<in> mp_live i (mps s i) then 1 else 0)
    \<and> (\<forall>(a, n) \<in> mp_live i (mps s i). \<forall>(b, m) \<in> mp_live i (mps s i). (a, n) = (b, m) \<or> a + n \<le> b \<or> b + m \<le> a)"
proof -
  have i0: "mp_inv i (pool_view (mps s0 i))" using assms(2) by (simp add: pool_ok_def pool_ready_def)
  from mp_run_keeps[OF assms(1,2)] have
    ok: "pool_ok i s" and run: "pool.run i (pool_view (mps s0 i)) as fs (pool_view (mps s i))" by simp_all
  have i: "mp_inv i (mps s i)" using ok by (simp add: pool_ok_def pool_ready_def)
  have "count_list as blk = count_list fs blk + (if blk \<in> mp_live i (pool_view (mps s i)) then 1 else 0)"
    by (rule pool.run_balance[OF run i0]) (simp add: assms(3))
  then show ?thesis using ok pool.live_disjoint[OF i] by auto
qed

lemma mempool_run_balance_witness:
  "\<exists>s blk. mp_run 0 demo [blk] [] s \<and> pool_ok 0 s \<and> mp_live 0 (mps s 0) \<noteq> {}"
proof -
  have "mp_free_count (mps demo 0) \<noteq> 0" by (simp add: mps_demo)
  from mp_alloc_takes[OF pool_ok_demo this, of 0] obtain b s' where
    s': "rt_mp_alloc 0 0 demo = Some (Done (Some b), s')" by blast
  from p_alloc[OF p_start _ _ _ this] have r: "mp_run 0 demo [mp_cell (mps demo 0) b] [] s'"
    by (simp add: allocated_def)
  from mempool_run_balance[OF r pool_ok_demo mps_demo(2), of "mp_cell (mps demo 0) b"]
  have "pool_ok 0 s'" "mp_cell (mps demo 0) b \<in> mp_live 0 (mps s' 0)" by (auto split: if_splits)
  with r show ?thesis by blast
qed

section \<open>The defect of timed-out allocations\<close>

lemma mp_free_stale:
  assumes "mp_suspend_count (mps s i) > 0" "tq s (mp_queue i) = []"
  shows "rt_mp_free i b s = None"
proof -
  note D = same_but_dataD[OF same_but_data_upd(6)[of s i "mp_give b"]]
  show ?thesis using assms D(1) by (simp add: rt_mp_free_def mp_wake_def mp_give_def Let_def)
qed

text \<open>C38. A timed-out allocation. The thread leaves the queue when its waiting time is over and the
  call returns the null pointer, but the counter of the waiters keeps the thread: with nobody in the
  queue, the next release of any block takes the pool itself for a waiting thread and has no
  result in the model. \<^verbatim>\<open>s2\<close> is the state in which the timer of the thread expires.\<close>

theorem rt_mp_alloc_timeout_stale:
  assumes "pool_ok i s" "mp_free_count (mps s i) = 0" "tq s (mp_queue i) = []" "can_block s c"
    and "0 < time" "time < 0x7fffffff"
  shows "\<exists>s1. rt_mp_alloc i time s = Some (Blocked, s1) \<and> is_suspended s1 c \<and> tq s1 (mp_queue i) = [c]
    \<and> (\<forall>s2 s3. kinv s2 \<longrightarrow> rt_current_thread s2 \<noteq> None \<longrightarrow> mps s2 i = mps s1 i \<longrightarrow> tq s2 (mp_queue i) = [c]
        \<longrightarrow> is_suspended s2 c \<longrightarrow> ThreadTimer c \<notin> set (rt_timer_list s2) \<longrightarrow> rt_thread_timeout c s2 = Some s3
        \<longrightarrow> rt_mp_alloc_wake i c time start s3 = Some (Done None, s3) \<and> rt_mp_free i b s3 = None)"
proof -
  have "length (tq s (mp_queue i)) < 2 ^ 32 - 1" "time \<noteq> 0" using assms(3,5) by simp_all
  from mp_alloc_waits[OF assms(1,2,4) this(2) assms(6) this(1)] obtain s1 where
    s1: "rt_mp_alloc i time s = Some (Blocked, s1)" "is_suspended s1 c" "tq s1 (mp_queue i) = [c]"
    "mps s1 i = (mps s i)\<lparr>mp_suspend_count := mp_suspend_count (mps s i) + 1\<rparr>"
    unfolding assms(3) rt_mp_alloc_def by blast
  have "mp_suspend_count (mps s i) = 0" using assms(1,3) by (simp add: pool_ok_def unat_eq_0)
  then have one: "mp_suspend_count (mps s1 i) = 1" using s1(4) by simp
  have "rt_mp_alloc_wake i c time start s3 = Some (Done None, s3) \<and> rt_mp_free i b s3 = None"
    if s2: "kinv s2" "rt_current_thread s2 \<noteq> None" "mps s2 i = mps s1 i" "tq s2 (mp_queue i) = [c]"
      "is_suspended s2 c" "ThreadTimer c \<notin> set (rt_timer_list s2)" "rt_thread_timeout c s2 = Some s3" for s2 s3
  proof -
    let ?s = "thread_timed_out c s2"
    have k: "kinv ?s" by (rule thread_timed_out_kinv[OF s2(1,5,6)])
    have "rt_current_thread ?s \<noteq> None" using s2(2) by (simp add: thread_timed_out_def)
    then obtain x where "rt_current_thread ?s = Some x" by auto
    from rt_schedule_step[OF k this] have so: "sched_only ?s s3"
      using s2(7) rt_thread_timeout_eq[OF s2(1,5)] by auto
    have "err (thr s3 c) = - RT_ETIMEOUT"
      using sched_onlyD(3)[OF so] by (simp add: thread_timed_out_def insert_thread_thr)
    moreover have "tq s3 (mp_queue i) = []"
      using sched_only_queue[OF so, of "mp_queue i"] timed_out_frame(2)[of "mp_queue i" c s2] s2(4) by simp
    moreover have "mp_suspend_count (mps s3 i) = 1"
      using ipc_sameD(6)[OF ipc_same_sched[OF so]] ipc_sameD(6)[OF timed_out_frame(1), of c s2] s2(3) one by simp
    ultimately show ?thesis using mp_free_stale[of s3 i b] by (simp add: rt_mp_alloc_wake_def err_simps)
  qed
  then show ?thesis using s1(1-3) by blast
qed

lemma rt_mp_alloc_timeout_stale_witness:
  "\<exists>s1 s2 s3. rt_mp_alloc 0 5 full_demo = Some (Blocked, s1) \<and> rt_thread_timeout 0 s2 = Some s3
    \<and> mps s2 = mps s1 \<and> rt_mp_alloc_wake 0 0 5 0 s3 = Some (Done None, s3)
    \<and> mp_head (mps s3 0) 1 = OwnedBy 0 \<and> rt_mp_free 0 1 s3 = None"
proof -
  have q: "tq full_demo (mp_queue 0) = []" by simp
  have ww: "(0::int) < 5" "(5::int) < 0x7fffffff" by simp_all
  have "length (tq full_demo (mp_queue 0)) < 2 ^ 32 - 1" "(5::int) \<noteq> 0" by simp_all
  from mp_alloc_waits[OF pool_ok_full_demo full_demo_simps(1,5) this(2) ww(2) this(1)] obtain s1 where
    s1: "mp_alloc_loop 0 5 full_demo = Some (Blocked, s1)" "pool_ok 0 s1" "is_suspended s1 0"
    "tq s1 (mp_queue 0) = [0]"
    "mps s1 0 = (mps full_demo 0)\<lparr>mp_suspend_count := mp_suspend_count (mps full_demo 0) + 1\<rparr>"
    unfolding q by blast
  have k1: "kinv s1" "rt_current_thread s1 \<noteq> None" using s1(2) by (simp_all add: pool_ok_def)
  let ?s2 = "timer_stopped (ThreadTimer 0) s1"
  have k2: "kinv ?s2" by (rule kinv_timer_stopped[OF k1(1)])
  have c2: "rt_current_thread ?s2 \<noteq> None" "mps ?s2 = mps s1" "tq ?s2 (mp_queue 0) = [0]" "is_suspended ?s2 0"
    using k1(2) s1(3,4) by (simp_all add: timer_stopped_def kernel_defs is_suspended_def tstat_def)
  have nt: "ThreadTimer 0 \<notin> set (rt_timer_list ?s2)"
    by (rule thread_timer_stopped[OF k1(1)])
  let ?t = "thread_timed_out 0 ?s2"
  have "kinv ?t" by (rule thread_timed_out_kinv[OF k2 c2(4) nt])
  moreover have "rt_current_thread ?t \<noteq> None" using c2(1) by (simp add: thread_timed_out_def)
  moreover have "is_ready ?t 0" by (simp add: is_ready_def thread_timed_out_def)
  ultimately obtain s3 where s3: "rt_schedule ?t = Some s3" "sched_only ?t s3" using schedule_after by blast
  have t3: "rt_thread_timeout 0 ?s2 = Some s3" using s3(1) rt_thread_timeout_eq[OF k2 c2(4)] by simp
  have m3: "mps s3 = mps s1"
    using ipc_sameD(6)[OF ipc_same_sched[OF s3(2)]] ipc_sameD(6)[OF timed_out_frame(1), of 0 ?s2] c2(2) by simp
  from rt_mp_alloc_timeout_stale[OF pool_ok_full_demo full_demo_simps(1) q full_demo_simps(5) ww, of 0 1]
  have "rt_mp_alloc_wake 0 0 5 0 s3 = Some (Done None, s3) \<and> rt_mp_free 0 1 s3 = None"
    using s1(1) k2 c2 nt t3 unfolding rt_mp_alloc_def by auto
  moreover have "mp_head (mps s3 0) 1 = OwnedBy 0" using s1(5) m3 by simp
  ultimately show ?thesis using s1(1) t3 c2(2) unfolding rt_mp_alloc_def by blast
qed

section \<open>Removing a pool\<close>

text \<open>All waiters become ready with the error -RT\_ERROR, and the counter goes down by their number.\<close>

lemma mp_resume_all_total:
  assumes "kinv s"
  shows "\<exists>s'. mp_resume_all i s = Some s' \<and> kinv s' \<and> tq s' (mp_queue i) = []
    \<and> rt_current_thread s' = rt_current_thread s \<and> obj_same_but_active s s'
    \<and> mps s' i = (mps s i)\<lparr>mp_suspend_count := mp_suspend_count (mps s i) - of_nat (length (tq s (mp_queue i)))\<rparr>
    \<and> (\<forall>t \<in> set (tq s (mp_queue i)). is_ready s' t \<and> err (thr s' t) = - RT_ERROR)
    \<and> (\<forall>t. t \<notin> set (tq s (mp_queue i)) \<longrightarrow> tstat s' t = tstat s t \<and> err (thr s' t) = err (thr s t))"
  using assms
proof (induction "tq s (mp_queue i)" arbitrary: s)
  case Nil
  then show ?case by (subst mp_resume_all.simps) (auto simp: obj_same_but_active_def)
next
  case (Cons t ts)
  let ?e = "set_err t (- RT_ERROR) s"
  let ?u = "thread_resumed t ?e"
  let ?dec = "\<lambda>m. m\<lparr>mp_suspend_count := mp_suspend_count m - 1\<rparr>"
  let ?r = "upd_mps i ?dec ?u"
  have ke: "kinv ?e" and h: "is_wait_head (mp_queue i)" and q: "tq ?e (mp_queue i) = t # ts"
    using Cons.prems Cons.hyps(2) by simp_all
  note w = rt_ipc_list_resume_eq[OF ke h q]
  have d: "same_but_data ?u ?r" by simp
  note D = same_but_dataD[OF d]
  have kr: "kinv ?r" using w(2) kinv_same_but_data[OF d] by simp
  have qr: "tq ?r (mp_queue i) = ts" using w(5) D(1) by simp
  have t: "t \<notin> set ts" using queue_distinct[OF Cons.prems, of "mp_queue i"] Cons.hyps(2)[symmetric] by simp
  have mr: "mps ?r i = ?dec (mps s i)" using ipc_sameD(6)[OF ipc_same_resumed, of t ?e] by simp
  from Cons.hyps(1)[OF qr[symmetric] kr] obtain s' where
    s': "mp_resume_all i ?r = Some s'" "kinv s'" "tq s' (mp_queue i) = []"
    "rt_current_thread s' = rt_current_thread ?r" "obj_same_but_active ?r s'"
    "mps s' i = (mps ?r i)\<lparr>mp_suspend_count := mp_suspend_count (mps ?r i) - of_nat (length ts)\<rparr>"
    "\<forall>x \<in> set ts. is_ready s' x \<and> err (thr s' x) = - RT_ERROR"
    "\<forall>x. x \<notin> set ts \<longrightarrow> tstat s' x = tstat ?r x \<and> err (thr s' x) = err (thr ?r x)"
    unfolding qr by blast
  have "mp_resume_all i s = Some s'"
    using s'(1) Cons.hyps(2)[symmetric] rt_thread_resume_eq[OF ke w(3)]
    by (subst mp_resume_all.simps) simp
  moreover have "mps s' i
      = (mps s i)\<lparr>mp_suspend_count := mp_suspend_count (mps s i) - of_nat (length (t # ts))\<rparr>"
    unfolding s'(6) mr by (simp add: algebra_simps)
  moreover have "is_ready s' t \<and> err (thr s' t) = - RT_ERROR"
    using s'(8) t D(2,12) by (simp add: is_ready_def thread_resumed_thr)
  moreover have "tstat s' x = tstat s x \<and> err (thr s' x) = err (thr s x)" if "x \<noteq> t" "x \<notin> set ts" for x
    using s'(8) that D(2,12) by (simp add: thread_resumed_thr)
  moreover have "obj_same_but_active s s'"
    using s'(5) D(3) thread_resumed_objs[of ?e t] by (simp add: obj_same_but_active_def)
  moreover have "rt_current_thread s' = rt_current_thread s" using s'(4) D(7) by simp
  ultimately show ?case
    using s'(2,3,7) Cons.hyps(2)[symmetric] by auto
qed

lemma rt_mp_detach_total:
  assumes "pool_ok i s" "rt_object_is_systemobject (OMempool i) s"
  shows "\<exists>s'. rt_mp_detach i s = Some (RT_EOK, s') \<and> tq s' (mp_queue i) = [] \<and> mp_suspend_count (mps s' i) = 0
    \<and> (\<forall>t \<in> set (tq s (mp_queue i)). is_ready s' t \<and> err (thr s' t) = - RT_ERROR)"
proof -
  have k: "kinv s" and ty: "rt_object_get_type (OMempool i) s = class_code RT_Object_Class_MemPool"
    and n: "unat (mp_suspend_count (mps s i)) = length (tq s (mp_queue i))"
    using assms(1) by (simp_all add: pool_ok_def pool_ready_def)
  from mp_resume_all_total[OF k, of i] obtain s' where
    s': "mp_resume_all i s = Some s'" "tq s' (mp_queue i) = []"
    "mps s' i = (mps s i)\<lparr>mp_suspend_count := mp_suspend_count (mps s i) - of_nat (length (tq s (mp_queue i)))\<rparr>"
    "\<forall>t \<in> set (tq s (mp_queue i)). is_ready s' t \<and> err (thr s' t) = - RT_ERROR" by blast
  have "mp_suspend_count (mps s' i) = 0" using s'(3) by (simp flip: n)
  then show ?thesis using s' ty assms(2)
    by (simp add: rt_mp_detach_def rt_object_detach_def kernel_defs is_ready_def tstat_def)
qed

end
