(* ===== verification/RT_Dataqueue.thy ===== *)
theory RT_Dataqueue
  imports RT_Mempool_Spec
begin

text \<open>The data queues of components/drivers/src/dataqueue.c: a ring of items, each an address and a
  size, between drivers and applications. The indices are 16-bit numbers that count the items
  put and got and are reduced only when a slot is addressed. Threads wait first-in first-out
  for room or for an item; the waiting time is not reduced between the rounds of a wait.\<close>

section \<open>Operations\<close>

type_synonym data_item = "rt_uint32 \<times> rt_size"

text \<open>The notification function of a queue is code of its user: an argument \<^verbatim>\<open>nf\<close>, applied to the name
  of the function, the queue and the event.\<close>

type_synonym notify_fn = "nat \<Rightarrow> nat \<Rightarrow> rt_uint32 \<Rightarrow> kernel \<Rightarrow> kernel option"

abbreviation dq_of :: "kernel \<Rightarrow> nat \<Rightarrow> rt_data_queue" where
  "dq_of s i \<equiv> dqs (drv s) i"

definition RT_DATAQUEUE_EVENT_POP :: rt_uint32 where "RT_DATAQUEUE_EVENT_POP = 0x01"
definition RT_DATAQUEUE_EVENT_PUSH :: rt_uint32 where "RT_DATAQUEUE_EVENT_PUSH = 0x02"
definition RT_DATAQUEUE_EVENT_LWM :: rt_uint32 where "RT_DATAQUEUE_EVENT_LWM = 0x03"

text \<open>The difference of the indices, which C computes in \<^verbatim>\<open>int\<close>.\<close>

definition RT_DATAQUEUE_SIZE :: "rt_data_queue \<Rightarrow> int" where
  "RT_DATAQUEUE_SIZE q = uint (put_index q) - uint (get_index q)"

definition RT_DATAQUEUE_EMPTY :: "rt_data_queue \<Rightarrow> int" where
  "RT_DATAQUEUE_EMPTY q = uint (dq_size q) - RT_DATAQUEUE_SIZE q"

text \<open>\<^verbatim>\<open>mem\<close> is the answer of \<^verbatim>\<open>rt_malloc\<close>: what the array of items holds, or nothing.\<close>

definition rt_data_queue_init ::
  "data_item list option \<Rightarrow> nat \<Rightarrow> rt_uint16 \<Rightarrow> rt_uint16 \<Rightarrow> nat option \<Rightarrow> kernel \<Rightarrow> rt_err \<times> kernel" where
  "rt_data_queue_init mem i sz lwm notify s =
    (let s = upd_dq i (\<lambda>q. q\<lparr>evt_notify := notify, dq_size := sz, dq_lwm := lwm, get_index := 0, put_index := 0\<rparr>) s;
         s = tlist_init (DrvQ (PushQ i)) s;
         s = tlist_init (DrvQ (PopQ i)) s
     in case mem of
          None \<Rightarrow> (- RT_ENOMEM, upd_dq i (\<lambda>q. q\<lparr>dq_queue := []\<rparr>) s)
        | Some items \<Rightarrow> (RT_EOK, upd_dq i (\<lambda>q. q\<lparr>dq_queue := items\<rparr>) s))"

text \<open>Writing and reading a slot; the remainder by a size of 0 is undefined behaviour.\<close>

definition dq_slot :: "rt_data_queue \<Rightarrow> rt_uint16 \<Rightarrow> nat" where
  "dq_slot q k = unat k mod unat (dq_size q)"

definition dq_access :: "rt_data_queue \<Rightarrow> rt_uint16 \<Rightarrow> unit option" where
  "dq_access q k = in_bounds (dq_size q \<noteq> 0 \<and> dq_slot q k < length (dq_queue q))"

definition dq_put :: "data_item \<Rightarrow> rt_data_queue \<Rightarrow> rt_data_queue" where
  "dq_put x q = q\<lparr>dq_queue := (dq_queue q)[dq_slot q (put_index q) := x], put_index := put_index q + 1\<rparr>"

definition dq_peek :: "rt_data_queue \<Rightarrow> data_item" where
  "dq_peek q = dq_queue q ! dq_slot q (get_index q)"

definition dq_get :: "rt_data_queue \<Rightarrow> data_item \<times> rt_data_queue" where
  "dq_get q = (dq_peek q, q\<lparr>get_index := get_index q + 1\<rparr>)"

definition dq_notify :: "notify_fn \<Rightarrow> nat \<Rightarrow> rt_uint32 \<Rightarrow> kernel \<Rightarrow> kernel option" where
  "dq_notify nf i ev s = (case evt_notify (dq_of s i) of None \<Rightarrow> Some s | Some f \<Rightarrow> nf f i ev s)"

text \<open>The thread goes to the end of the queue of its kind, whatever its priority.\<close>

definition dq_wait :: "drvq \<Rightarrow> nat \<Rightarrow> int \<Rightarrow> kernel \<Rightarrow> kernel option" where
  "dq_wait h t timeout s = do {
     (_, s) \<leftarrow> rt_thread_suspend t s;
     start_wait_timer t timeout (tlist_push_back (DrvQ h) t s)
   }"

text \<open>Storing an item. When a thread waits for one it is woken, and the notification is skipped.\<close>

definition dq_deliver :: "notify_fn \<Rightarrow> nat \<Rightarrow> data_item \<Rightarrow> kernel \<Rightarrow> (rt_err call \<times> kernel) option" where
  "dq_deliver nf i x s = do {
     dq_access (dq_of s i) (put_index (dq_of s i));
     let s = upd_dq i (dq_put x) s;
     s \<leftarrow> (if tq s (DrvQ (PopQ i)) \<noteq> [] then wake_first (DrvQ (PopQ i)) s
          else dq_notify nf i RT_DATAQUEUE_EVENT_PUSH s);
     Some (Done RT_EOK, s)
   }"

definition dq_collect ::
  "notify_fn \<Rightarrow> nat \<Rightarrow> kernel \<Rightarrow> ((rt_err \<times> data_item option) call \<times> kernel) option" where
  "dq_collect nf i s = do {
     dq_access (dq_of s i) (get_index (dq_of s i));
     let x = fst (dq_get (dq_of s i));
     let s = upd_dq i (\<lambda>q. snd (dq_get q)) s;
     s \<leftarrow> (if RT_DATAQUEUE_SIZE (dq_of s i) \<le> uint (dq_lwm (dq_of s i))
          then do {
            s \<leftarrow> wake_first (DrvQ (PushQ i)) s;
            dq_notify nf i RT_DATAQUEUE_EVENT_LWM s
          }
          else dq_notify nf i RT_DATAQUEUE_EVENT_POP s);
     Some (Done (RT_EOK, Some x), s)
   }"

partial_function (option) rt_data_queue_push ::
  "notify_fn \<Rightarrow> nat \<Rightarrow> data_item \<Rightarrow> int \<Rightarrow> kernel \<Rightarrow> (rt_err call \<times> kernel) option" where
  "rt_data_queue_push nf i x timeout s =
    (if RT_DATAQUEUE_SIZE (dq_of s i) \<noteq> uint (dq_size (dq_of s i)) then dq_deliver nf i x s
     else if timeout = 0 then Some (Done (- RT_ETIMEOUT), s)
     else Option.bind (not_in_interrupt s) (\<lambda>u. Option.bind (rt_thread_self s) (\<lambda>t.
       Option.bind (dq_wait (PushQ i) t timeout (set_err t RT_EOK s)) (\<lambda>s1.
       Option.bind (rt_schedule s1) (\<lambda>s2.
         if rt_current_thread s2 \<noteq> Some t then Some (Blocked, s2)
         else if err (thr s2 t) \<noteq> RT_EOK then Some (Done (err (thr s2 t)), s2)
         else rt_data_queue_push nf i x timeout s2)))))"

definition rt_data_queue_push_wake ::
  "notify_fn \<Rightarrow> nat \<Rightarrow> nat \<Rightarrow> data_item \<Rightarrow> int \<Rightarrow> kernel \<Rightarrow> (rt_err call \<times> kernel) option" where
  "rt_data_queue_push_wake nf i t x timeout s =
    (if err (thr s t) \<noteq> RT_EOK then Some (Done (err (thr s t)), s) else rt_data_queue_push nf i x timeout s)"

partial_function (option) rt_data_queue_pop ::
  "notify_fn \<Rightarrow> nat \<Rightarrow> int \<Rightarrow> kernel \<Rightarrow> ((rt_err \<times> data_item option) call \<times> kernel) option" where
  "rt_data_queue_pop nf i timeout s =
    (if get_index (dq_of s i) \<noteq> put_index (dq_of s i) then dq_collect nf i s
     else if timeout = 0 then Some (Done (- RT_ETIMEOUT, None), s)
     else Option.bind (not_in_interrupt s) (\<lambda>u. Option.bind (rt_thread_self s) (\<lambda>t.
       Option.bind (dq_wait (PopQ i) t timeout (set_err t RT_EOK s)) (\<lambda>s1.
       Option.bind (rt_schedule s1) (\<lambda>s2.
         if rt_current_thread s2 \<noteq> Some t then Some (Blocked, s2)
         else if err (thr s2 t) \<noteq> RT_EOK then Some (Done (err (thr s2 t), None), s2)
         else rt_data_queue_pop nf i timeout s2)))))"

definition rt_data_queue_pop_wake ::
  "notify_fn \<Rightarrow> nat \<Rightarrow> nat \<Rightarrow> int \<Rightarrow> kernel \<Rightarrow> ((rt_err \<times> data_item option) call \<times> kernel) option" where
  "rt_data_queue_pop_wake nf i t timeout s =
    (if err (thr s t) \<noteq> RT_EOK then Some (Done (err (thr s t), None), s) else rt_data_queue_pop nf i timeout s)"

definition rt_data_queue_peak :: "nat \<Rightarrow> kernel \<Rightarrow> (rt_err \<times> data_item option) option" where
  "rt_data_queue_peak i s =
    (if get_index (dq_of s i) = put_index (dq_of s i) then Some (- RT_EEMPTY, None)
     else do {
       dq_access (dq_of s i) (get_index (dq_of s i));
       Some (RT_EOK, Some (dq_peek (dq_of s i)))
     })"

text \<open>The loops that wake all threads are those of the communication objects: the error of the first
  thread is set and the thread is resumed, until the queue is empty. The items stay.\<close>

definition rt_data_queue_reset :: "nat \<Rightarrow> kernel \<Rightarrow> kernel option" where
  "rt_data_queue_reset i s = do {
     let s = rt_enter_critical s;
     s \<leftarrow> rt_ipc_list_resume_all (DrvQ (PopQ i)) s;
     s \<leftarrow> rt_ipc_list_resume_all (DrvQ (PushQ i)) s;
     s \<leftarrow> rt_exit_critical s;
     rt_schedule s
   }"

section \<open>The ring is a bounded queue\<close>

text \<open>As long as the count of the items put stays below 65536.\<close>

definition dq_inv :: "rt_data_queue \<Rightarrow> bool" where
  "dq_inv q = (unat (dq_size q) \<le> length (dq_queue q) \<and> unat (get_index q) \<le> unat (put_index q)
     \<and> unat (put_index q) - unat (get_index q) \<le> unat (dq_size q))"

definition dq_cap :: "rt_data_queue \<Rightarrow> nat" where
  "dq_cap q = unat (dq_size q)"

definition dq_items :: "rt_data_queue \<Rightarrow> data_item list" where
  "dq_items q = ring_items (dq_queue q) (dq_cap q) (unat (get_index q)) (unat (put_index q) - unat (get_index q))"

definition dq_fits :: "rt_data_queue \<Rightarrow> data_item \<Rightarrow> bool" where
  "dq_fits q x = (Suc (unat (put_index q)) < 2 ^ 16)"

lemma dq_items_length [simp]: "length (dq_items q) = unat (put_index q) - unat (get_index q)"
  by (simp add: dq_items_def)

lemma ring_items_first:
  assumes "0 < k"
  shows "ring_items pool n out k = pool ! (out mod n) # ring_items pool n (Suc out) (k - 1)"
proof -
  obtain k' where "k = Suc k'" using assms by (cases k) auto
  then show ?thesis unfolding ring_items_def by (simp add: map_upt_Suc del: upt_Suc)
qed

lemma unat_index_Suc:
  assumes "Suc (unat k) < 2 ^ 16"
  shows "unat (k + 1 :: 16 word) = Suc (unat k)"
  using assms by (simp add: unat_word_ariths)

lemma dq_put_simps [simp]:
  "dq_size (dq_put x q) = dq_size q" "get_index (dq_put x q) = get_index q"
  "put_index (dq_put x q) = put_index q + 1" "dq_lwm (dq_put x q) = dq_lwm q"
  "evt_notify (dq_put x q) = evt_notify q" "length (dq_queue (dq_put x q)) = length (dq_queue q)"
  by (simp_all add: dq_put_def)

lemma dq_get_simps [simp]:
  "dq_size (snd (dq_get q)) = dq_size q" "get_index (snd (dq_get q)) = get_index q + 1"
  "put_index (snd (dq_get q)) = put_index q" "dq_lwm (snd (dq_get q)) = dq_lwm q"
  "evt_notify (snd (dq_get q)) = evt_notify q" "dq_queue (snd (dq_get q)) = dq_queue q"
  by (simp_all add: dq_get_def)

lemma dq_index_room:
  assumes "dq_inv q" "get_index q \<noteq> put_index q"
  shows "unat (get_index q) < unat (put_index q)" "unat (get_index q + 1) = Suc (unat (get_index q))"
proof -
  show l: "unat (get_index q) < unat (put_index q)"
    using assms by (simp add: dq_inv_def word_unat_eq_iff)
  have "unat (put_index q) < 2 ^ LENGTH(16)" by (rule unsigned_less)
  then show "unat (get_index q + 1) = Suc (unat (get_index q))"
    using l by (intro unat_index_Suc) simp
qed

interpretation data_ring: bounded_fifo dq_inv dq_cap dq_items dq_fits dq_put dq_get
proof
  fix q :: rt_data_queue and x :: data_item
  assume i: "dq_inv q"
  show "length (dq_items q) \<le> dq_cap q" using i by (simp add: dq_inv_def dq_cap_def)
  {
    assume r: "length (dq_items q) < dq_cap q" and f: "dq_fits q x"
    have p: "unat (put_index q + 1) = Suc (unat (put_index q))"
      using f by (intro unat_index_Suc) (simp add: dq_fits_def)
    have k: "Suc (unat (put_index q)) - unat (get_index q) = Suc (unat (put_index q) - unat (get_index q))"
      "unat (get_index q) + (unat (put_index q) - unat (get_index q)) = unat (put_index q)"
      using i unfolding dq_inv_def by linarith+
    show "dq_inv (dq_put x q)" using i r p k by (simp add: dq_inv_def dq_cap_def)
    show "dq_items (dq_put x q) = dq_items q @ [x]"
      using ring_items_put[of "dq_cap q" "dq_queue q" "unat (put_index q) - unat (get_index q)" "unat (get_index q)" x]
        i r p k by (simp add: dq_items_def dq_put_def dq_slot_def dq_cap_def dq_inv_def)
    show "dq_cap (dq_put x q) = dq_cap q" by (simp add: dq_cap_def)
  }
  assume "dq_items q \<noteq> []"
  then have n: "get_index q \<noteq> put_index q" by (metis dq_items_length diff_self_eq_0 length_0_conv)
  note g = dq_index_room[OF i n]
  have f: "dq_items q = dq_peek q # dq_items (snd (dq_get q))"
    using ring_items_first[of "unat (put_index q) - unat (get_index q)" "dq_queue q" "dq_cap q" "unat (get_index q)"] g
    by (simp add: dq_items_def dq_cap_def dq_peek_def dq_slot_def)
  show "dq_inv (snd (dq_get q))" using i g unfolding dq_inv_def dq_get_simps by linarith
  show "fst (dq_get q) = hd (dq_items q)" using f by (simp add: dq_get_def)
  show "dq_items (snd (dq_get q)) = tl (dq_items q)" using f by simp
  show "dq_cap (snd (dq_get q)) = dq_cap q" by (simp add: dq_cap_def)
qed

text \<open>The tests of the code.\<close>

lemma dq_full_iff:
  assumes "dq_inv q"
  shows "RT_DATAQUEUE_SIZE q = uint (dq_size q) \<longleftrightarrow> length (dq_items q) = dq_cap q"
    "RT_DATAQUEUE_SIZE q \<le> uint (dq_lwm q) \<longleftrightarrow> length (dq_items q) \<le> unat (dq_lwm q)"
proof -
  have "unat (get_index q) \<le> unat (put_index q)" using assms by (simp add: dq_inv_def)
  then show "RT_DATAQUEUE_SIZE q = uint (dq_size q) \<longleftrightarrow> length (dq_items q) = dq_cap q"
    "RT_DATAQUEUE_SIZE q \<le> uint (dq_lwm q) \<longleftrightarrow> length (dq_items q) \<le> unat (dq_lwm q)"
    unfolding RT_DATAQUEUE_SIZE_def dq_cap_def dq_items_length uint_nat by linarith+
qed

lemma dq_empty_iff:
  assumes "dq_inv q"
  shows "get_index q = put_index q \<longleftrightarrow> dq_items q = []"
  using assms by (auto simp: dq_inv_def word_unat_eq_iff simp flip: length_0_conv)

lemma dq_access_put:
  assumes "dq_inv q" "length (dq_items q) < dq_cap q"
  shows "dq_access q k = Some ()"
proof -
  have p: "0 < unat (dq_size q)" using assms(2) unfolding dq_cap_def by linarith
  then have "dq_slot q k < unat (dq_size q)" by (simp only: dq_slot_def mod_less_divisor)
  moreover have "dq_size q \<noteq> 0" using p by (metis less_irrefl unsigned_0)
  ultimately show ?thesis using assms(1) by (simp add: dq_access_def dq_inv_def)
qed

lemma dq_access_get:
  assumes "dq_inv q" "dq_items q \<noteq> []"
  shows "dq_access q k = Some ()"
proof -
  have "length (dq_items q) \<le> dq_cap q" by (rule data_ring.items_le[OF assms(1)])
  moreover have "0 < length (dq_items q)" using assms(2) by blast
  ultimately have p: "0 < unat (dq_size q)" unfolding dq_cap_def by linarith
  then have "dq_slot q k < unat (dq_size q)" by (simp only: dq_slot_def mod_less_divisor)
  moreover have "dq_size q \<noteq> 0" using p by (metis less_irrefl unsigned_0)
  ultimately show ?thesis using assms(1) by (simp add: dq_access_def dq_inv_def)
qed

end
