(* ===== verification/RT_Dataqueue_Run.thy ===== *)
theory RT_Dataqueue_Run
  imports RT_Dataqueue
begin

text \<open>Runs of a system that uses a data queue, and the properties of data queues: pushing and popping
  on every branch, first-in first-out delivery while fewer than 65536 items were put, and what
  happens after.\<close>

section \<open>Data queues under the invariant\<close>

definition dq_ready :: "nat \<Rightarrow> kernel \<Rightarrow> bool" where
  "dq_ready i s = dq_inv (dq_of s i)"

interpretation dataqueue: waiting_object dq_ready
proof
  fix i s s'
  assume "dq_ready i s" "ipc_kept s s'"
  then show "dq_ready i s'" using ipc_keptD(14)[of s s'] by (simp add: dq_ready_def)
qed

definition dq_ok :: "nat \<Rightarrow> kernel \<Rightarrow> bool" where
  "dq_ok i s = (kinv s \<and> rt_current_thread s \<noteq> None \<and> dq_ready i s)"

text \<open>What the model asks of the user's notification function: it returns, keeps the kernel invariant,
  and does not put items into this queue or take items out of it.\<close>

definition notify_ok :: "notify_fn \<Rightarrow> nat \<Rightarrow> bool" where
  "notify_ok nf i = (\<forall>f ev s. dq_ok i s \<longrightarrow> (\<exists>s'. nf f i ev s = Some s' \<and> dq_ok i s' \<and> dq_of s' i = dq_of s i))"

lemma dq_notify_total:
  assumes "notify_ok nf i" "dq_ok i s"
  shows "\<exists>s'. dq_notify nf i ev s = Some s' \<and> dq_ok i s' \<and> dq_of s' i = dq_of s i
    \<and> (evt_notify (dq_of s i) = None \<longrightarrow> s' = s)"
  using assms by (cases "evt_notify (dq_of s i)") (auto simp: dq_notify_def notify_ok_def)

lemma dq_upd [simp]: "dq_of (upd_dq i f s) i = f (dq_of s i)"
  by (simp add: upd_dq_def)

lemma dq_ok_upd:
  assumes "dq_ok i s" "dq_inv (f (dq_of s i))"
  shows "dq_ok i (upd_dq i f s)"
proof -
  have d: "same_but_data s (upd_dq i f s)" by simp
  show ?thesis using assms kinv_same_but_data[OF d] same_but_dataD(7)[OF d] by (simp add: dq_ok_def dq_ready_def)
qed

lemma dq_ok_same:
  assumes "dq_ok i s" "kinv s'" "rt_current_thread s' \<noteq> None" "ipc_same s s'"
  shows "dq_ok i s'"
  using assms ipc_sameD(12)[OF assms(4)] by (simp add: dq_ok_def dq_ready_def)

lemma dq_ok_set_err [simp]: "dq_ok i (set_err t e s) = dq_ok i s"
  by (simp add: dq_ok_def dq_ready_def)

lemma dq_wake_total:
  assumes "dq_ok i s"
  shows "\<exists>s'. wake_first (DrvQ h) s = Some s' \<and> dq_ok i s' \<and> dq_of s' i = dq_of s i
    \<and> tq s' (DrvQ h) = tl (tq s (DrvQ h)) \<and> (tq s (DrvQ h) \<noteq> [] \<longrightarrow> is_ready s' (hd (tq s (DrvQ h))))
    \<and> (tq s (DrvQ h) \<noteq> [] \<and> rt_scheduler_lock_nest s = 0 \<longrightarrow> runs_best s')"
proof -
  have k: "kinv s" "rt_current_thread s \<noteq> None" using assms by (simp_all add: dq_ok_def)
  have h: "is_wait_head (DrvQ h)" by simp
  from wake_first_total[OF k h] obtain s' where
    s': "wake_first (DrvQ h) s = Some s'" "kinv s'" "rt_current_thread s' \<noteq> None" "ipc_same s s'"
    "tq s' (DrvQ h) = tl (tq s (DrvQ h))" "tq s (DrvQ h) \<noteq> [] \<longrightarrow> is_ready s' (hd (tq s (DrvQ h)))"
    "tq s (DrvQ h) \<noteq> [] \<and> rt_scheduler_lock_nest s = 0 \<longrightarrow> runs_best s'" by blast
  then show ?thesis using dq_ok_same[OF assms s'(2-4)] ipc_sameD(12)[OF s'(4)] by auto
qed

section \<open>Storing and fetching\<close>

lemma dq_deliver_total:
  assumes n: "notify_ok nf i" and ok: "dq_ok i s"
    and r: "length (dq_items (dq_of s i)) < dq_cap (dq_of s i)" and f: "dq_fits (dq_of s i) x"
  shows "\<exists>s'. dq_deliver nf i x s = Some (Done RT_EOK, s') \<and> dq_ok i s'
    \<and> dq_items (dq_of s' i) = dq_items (dq_of s i) @ [x] \<and> dq_cap (dq_of s' i) = dq_cap (dq_of s i)
    \<and> (tq s (DrvQ (PopQ i)) \<noteq> [] \<longrightarrow> tq s' (DrvQ (PopQ i)) = tl (tq s (DrvQ (PopQ i)))
         \<and> is_ready s' (hd (tq s (DrvQ (PopQ i)))) \<and> (rt_scheduler_lock_nest s = 0 \<longrightarrow> runs_best s'))"
proof -
  let ?s = "upd_dq i (dq_put x) s"
  have i: "dq_inv (dq_of s i)" using ok by (simp add: dq_ok_def dq_ready_def)
  note P = data_ring.put_inv[OF i r f] data_ring.put_items[OF i r f] data_ring.put_cap[OF i r f]
  have ok1: "dq_ok i ?s" by (rule dq_ok_upd[where f = "dq_put x", OF ok P(1)])
  note D = same_but_dataD[OF same_but_data_upd(7)[of s i "dq_put x"]]
  have a: "dq_access (dq_of s i) (put_index (dq_of s i)) = Some ()" by (rule dq_access_put[OF i r])
  show ?thesis
  proof (cases "tq s (DrvQ (PopQ i))")
    case Nil
    with dq_notify_total[OF n ok1, of RT_DATAQUEUE_EVENT_PUSH] a P D(1) show ?thesis
      by (auto simp: dq_deliver_def)
  next
    case (Cons t ts)
    with dq_wake_total[OF ok1, of "PopQ i"] a P D(1,9) show ?thesis by (auto simp: dq_deliver_def)
  qed
qed

lemma dq_collect_total:
  assumes n: "notify_ok nf i" and ok: "dq_ok i s" and ne: "dq_items (dq_of s i) = x # xs"
  shows "\<exists>s'. dq_collect nf i s = Some (Done (RT_EOK, Some x), s') \<and> dq_ok i s'
    \<and> dq_items (dq_of s' i) = xs \<and> dq_cap (dq_of s' i) = dq_cap (dq_of s i)
    \<and> (evt_notify (dq_of s i) = None \<longrightarrow>
        tq s' (DrvQ (PushQ i)) = (if length xs \<le> unat (dq_lwm (dq_of s i)) then tl (tq s (DrvQ (PushQ i)))
          else tq s (DrvQ (PushQ i)))
        \<and> (length xs \<le> unat (dq_lwm (dq_of s i)) \<and> tq s (DrvQ (PushQ i)) \<noteq> [] \<longrightarrow>
            is_ready s' (hd (tq s (DrvQ (PushQ i)))) \<and> (rt_scheduler_lock_nest s = 0 \<longrightarrow> runs_best s')))"
proof -
  let ?q = "snd (dq_get (dq_of s i))"
  let ?s = "upd_dq i (\<lambda>q. snd (dq_get q)) s"
  have i: "dq_inv (dq_of s i)" using ok by (simp add: dq_ok_def dq_ready_def)
  have ne': "dq_items (dq_of s i) \<noteq> []" using ne by simp
  note G = data_ring.get_inv[OF i ne'] data_ring.get_item[OF i ne'] data_ring.get_items[OF i ne']
    data_ring.get_cap[OF i ne']
  have ok1: "dq_ok i ?s" by (rule dq_ok_upd[where f = "\<lambda>q. snd (dq_get q)", OF ok G(1)])
  note D = same_but_dataD[OF same_but_data_upd(7)[of s i "\<lambda>q. snd (dq_get q)"]]
  have a: "dq_access (dq_of s i) (get_index (dq_of s i)) = Some ()" by (rule dq_access_get[OF i ne'])
  have l: "RT_DATAQUEUE_SIZE ?q \<le> uint (dq_lwm (dq_of s i)) \<longleftrightarrow> length xs \<le> unat (dq_lwm (dq_of s i))"
    using dq_full_iff(2)[OF G(1)] G(3) ne by (simp del: dq_items_length)
  have it: "dq_items ?q = xs" "fst (dq_get (dq_of s i)) = x" using G(2,3) ne by simp_all
  show ?thesis
  proof (cases "length xs \<le> unat (dq_lwm (dq_of s i))")
    case True
    from dq_wake_total[OF ok1, of "PushQ i"] obtain s1 where
      s1: "wake_first (DrvQ (PushQ i)) ?s = Some s1" "dq_ok i s1" "dq_of s1 i = ?q"
      "tq s1 (DrvQ (PushQ i)) = tl (tq s (DrvQ (PushQ i)))"
      "tq s (DrvQ (PushQ i)) \<noteq> [] \<longrightarrow> is_ready s1 (hd (tq s (DrvQ (PushQ i))))"
      "tq s (DrvQ (PushQ i)) \<noteq> [] \<and> rt_scheduler_lock_nest s = 0 \<longrightarrow> runs_best s1"
      unfolding D(1,9) by auto
    from dq_notify_total[OF n s1(2), of RT_DATAQUEUE_EVENT_LWM] obtain s2 where
      s2: "dq_notify nf i RT_DATAQUEUE_EVENT_LWM s1 = Some s2" "dq_ok i s2" "dq_of s2 i = ?q"
      "evt_notify (dq_of s i) = None \<longrightarrow> s2 = s1" using s1(3) by auto
    have "dq_collect nf i s = Some (Done (RT_EOK, Some x), s2)"
      using a l True s1(1) s2(1) it(2) by (simp add: dq_collect_def)
    then show ?thesis using s2 s1(4-6) it(1) G(4) True by auto
  next
    case False
    from dq_notify_total[OF n ok1, of RT_DATAQUEUE_EVENT_POP] obtain s2 where
      s2: "dq_notify nf i RT_DATAQUEUE_EVENT_POP ?s = Some s2" "dq_ok i s2" "dq_of s2 i = ?q"
      "evt_notify (dq_of s i) = None \<longrightarrow> s2 = ?s" by auto
    have "dq_collect nf i s = Some (Done (RT_EOK, Some x), s2)"
      using a l False s2(1) it(2) by (simp add: dq_collect_def)
    then show ?thesis using s2 it(1) G(4) False D(1) by auto
  qed
qed

section \<open>Waiting\<close>

lemma dq_wait_eq:
  assumes "kinv s" "rt_current_thread s = Some c" "is_ready s c"
  shows "dq_wait h c time s
    = start_wait_timer c time (queued_in (DrvQ h) (tq s (DrvQ h) @ [c]) (thread_suspended c s))"
  using rt_thread_suspend_eq[OF assms]
  by (simp add: dq_wait_def tlist_push_back_def queued_in_def thread_suspended_def)

lemma dq_wait_round:
  assumes ok: "dq_ok i s" and b: "can_block s c" and t: "time < 0x7fffffff"
  shows "\<exists>s1 s'. dq_wait h c time (set_err c RT_EOK s) = Some s1 \<and> rt_schedule s1 = Some s'
    \<and> rt_current_thread s' \<noteq> Some c \<and> dq_ok i s' \<and> dq_of s' i = dq_of s i
    \<and> is_suspended s' c \<and> runs_best s' \<and> tq s' (DrvQ h) = tq s (DrvQ h) @ [c]"
proof -
  let ?s = "set_err c RT_EOK s" and ?q = "tq s (DrvQ h) @ [c]"
  have k: "kinv ?s" using ok by (simp add: dq_ok_def)
  have c: "rt_current_thread ?s = Some c" "is_ready ?s c" and b': "can_block ?s c"
    using b by (simp_all add: can_block_def other_ready_def)
  have h: "is_wait_head (DrvQ h)" by simp
  have q: "set ?q = insert c (set (tq ?s (DrvQ h)))" "distinct ?q"
    using running_unlinked(1)[OF k c, of "DrvQ h"] queue_distinct[OF k, of "DrvQ h"] by simp_all
  from start_wait_total[OF k c h q t] obtain s1 where
    s1: "dq_wait h c time ?s = Some s1" "waits_in (DrvQ h) ?q c time ?s s1"
    using dq_wait_eq[OF k c, of h time] by auto
  from waits_blocks[OF b' s1(2), of "\<lambda>_. None"] obtain s' where
    "after_schedule c (\<lambda>_. None :: (rt_err call \<times> kernel) option) s1 = Some (Blocked, s')"
    and bl: "blocked_in (DrvQ h) ?q c time ?s s'" by blast
  then have s': "rt_schedule s1 = Some s'" "rt_current_thread s' \<noteq> Some c"
    by (auto simp: after_schedule_def bind_Some_iff split: if_splits)
  note B = blockedD[OF bl h]
  have same: "ipc_same s s'" by (rule ipc_same_trans[OF ipc_same_set_err B(12)])
  show ?thesis
    using s1(1) s' dq_ok_same[OF ok B(1) blocked_current[OF bl] same] ipc_sameD(12)[OF same] B(2,3,4) by auto
qed

lemma dq_push_waits:
  assumes ok: "dq_ok i s" and b: "can_block s c" and t: "time \<noteq> 0" "time < 0x7fffffff"
    and f: "length (dq_items (dq_of s i)) = dq_cap (dq_of s i)"
  shows "\<exists>s'. rt_data_queue_push nf i x time s = Some (Blocked, s') \<and> dq_ok i s' \<and> dq_of s' i = dq_of s i
    \<and> is_suspended s' c \<and> runs_best s' \<and> tq s' (DrvQ (PushQ i)) = tq s (DrvQ (PushQ i)) @ [c]"
proof -
  from dq_wait_round[OF ok b t(2), of "PushQ i"] obtain s1 s' where
    s': "dq_wait (PushQ i) c time (set_err c RT_EOK s) = Some s1" "rt_schedule s1 = Some s'"
    "rt_current_thread s' \<noteq> Some c" "dq_ok i s'" "dq_of s' i = dq_of s i" "is_suspended s' c" "runs_best s'"
    "tq s' (DrvQ (PushQ i)) = tq s (DrvQ (PushQ i)) @ [c]" by blast
  have "RT_DATAQUEUE_SIZE (dq_of s i) = uint (dq_size (dq_of s i))"
    using f ok dq_full_iff(1) by (simp add: dq_ok_def dq_ready_def)
  then have "rt_data_queue_push nf i x time s = Some (Blocked, s')"
    using s'(1-3) t(1) b
    by (subst rt_data_queue_push.simps) (simp add: can_block_def not_in_interrupt_def rt_thread_self_def)
  then show ?thesis using s' by blast
qed

lemma dq_pop_waits:
  assumes ok: "dq_ok i s" and b: "can_block s c" and t: "time \<noteq> 0" "time < 0x7fffffff"
    and f: "dq_items (dq_of s i) = []"
  shows "\<exists>s'. rt_data_queue_pop nf i time s = Some (Blocked, s') \<and> dq_ok i s' \<and> dq_of s' i = dq_of s i
    \<and> is_suspended s' c \<and> runs_best s' \<and> tq s' (DrvQ (PopQ i)) = tq s (DrvQ (PopQ i)) @ [c]"
proof -
  from dq_wait_round[OF ok b t(2), of "PopQ i"] obtain s1 s' where
    s': "dq_wait (PopQ i) c time (set_err c RT_EOK s) = Some s1" "rt_schedule s1 = Some s'"
    "rt_current_thread s' \<noteq> Some c" "dq_ok i s'" "dq_of s' i = dq_of s i" "is_suspended s' c" "runs_best s'"
    "tq s' (DrvQ (PopQ i)) = tq s (DrvQ (PopQ i)) @ [c]" by blast
  have "get_index (dq_of s i) = put_index (dq_of s i)"
    using f ok dq_empty_iff by (simp add: dq_ok_def dq_ready_def)
  then have "rt_data_queue_pop nf i time s = Some (Blocked, s')"
    using s'(1-3) t(1) b
    by (subst rt_data_queue_pop.simps) (simp add: can_block_def not_in_interrupt_def rt_thread_self_def)
  then show ?thesis using s' by blast
qed

section \<open>All results of the calls\<close>

definition pushed :: "rt_err call \<Rightarrow> data_item \<Rightarrow> data_item list" where
  "pushed r x = (if r = Done RT_EOK then [x] else [])"

definition popped :: "(rt_err \<times> data_item option) call \<Rightarrow> data_item list" where
  "popped r = (case r of Done (e, Some x) \<Rightarrow> [x] | _ \<Rightarrow> [])"

lemma dq_push_cases:
  assumes n: "notify_ok nf i" and ok: "dq_ok i s" and b: "time = 0 \<or> can_block s c" and t: "time < 0x7fffffff"
    and f: "dq_fits (dq_of s i) x" and r: "rt_data_queue_push nf i x time s = Some (y, s')"
  shows "dq_ok i s' \<and> dq_items (dq_of s' i) = dq_items (dq_of s i) @ pushed y x"
proof -
  have i: "dq_inv (dq_of s i)" using ok by (simp add: dq_ok_def dq_ready_def)
  note fu = dq_full_iff(1)[OF i]
  consider (room) "length (dq_items (dq_of s i)) < dq_cap (dq_of s i)"
    | (full) "length (dq_items (dq_of s i)) = dq_cap (dq_of s i)" "time = 0"
    | (wait) "length (dq_items (dq_of s i)) = dq_cap (dq_of s i)" "time \<noteq> 0"
    using data_ring.items_le[OF i] by fastforce
  then show ?thesis
  proof cases
    case room
    from dq_deliver_total[OF n ok room f] r show ?thesis
      using room fu by (auto simp: rt_data_queue_push.simps[of nf i x time s] pushed_def)
  next
    case full
    then have "y = Done (- RT_ETIMEOUT)" "s' = s"
      using r fu by (simp_all add: rt_data_queue_push.simps[of nf i x 0 s])
    then show ?thesis using ok by (simp add: pushed_def RT_ETIMEOUT_def RT_EOK_def)
  next
    case wait
    then have "can_block s c" using b by simp
    from dq_push_waits[OF ok this wait(2) t wait(1), of nf x] r show ?thesis by (auto simp: pushed_def)
  qed
qed

lemma dq_pop_cases:
  assumes n: "notify_ok nf i" and ok: "dq_ok i s" and b: "time = 0 \<or> can_block s c" and t: "time < 0x7fffffff"
    and r: "rt_data_queue_pop nf i time s = Some (y, s')"
  shows "dq_ok i s' \<and> dq_items (dq_of s i) = popped y @ dq_items (dq_of s' i)"
proof -
  have i: "dq_inv (dq_of s i)" using ok by (simp add: dq_ok_def dq_ready_def)
  note em = dq_empty_iff[OF i]
  consider (some) z zs where "dq_items (dq_of s i) = z # zs"
    | (none) "dq_items (dq_of s i) = []" "time = 0" | (wait) "dq_items (dq_of s i) = []" "time \<noteq> 0"
    by (cases "dq_items (dq_of s i)") auto
  then show ?thesis
  proof cases
    case some
    from dq_collect_total[OF n ok some] r show ?thesis
      using some em by (auto simp: rt_data_queue_pop.simps[of nf i time s] popped_def)
  next
    case none
    then have "y = Done (- RT_ETIMEOUT, None)" "s' = s"
      using r em by (simp_all add: rt_data_queue_pop.simps[of nf i 0 s])
    then show ?thesis using ok by (simp add: popped_def)
  next
    case wait
    then have "can_block s c" using b by simp
    from dq_pop_waits[OF ok this wait(2) t wait(1), of nf] r show ?thesis by (auto simp: popped_def)
  qed
qed

lemma dq_push_wake_cases:
  assumes "notify_ok nf i" "dq_ok i s" "can_block s c" "time < 0x7fffffff" "dq_fits (dq_of s i) x"
    and r: "rt_data_queue_push_wake nf i c x time s = Some (y, s')"
  shows "dq_ok i s' \<and> dq_items (dq_of s' i) = dq_items (dq_of s i) @ pushed y x"
  using dq_push_cases[OF assms(1,2) disjI2[OF assms(3)] assms(4,5), of y s'] r assms(2)
  by (auto simp: rt_data_queue_push_wake_def pushed_def split: if_splits)

lemma dq_pop_wake_cases:
  assumes "notify_ok nf i" "dq_ok i s" "can_block s c" "time < 0x7fffffff"
    and r: "rt_data_queue_pop_wake nf i c time s = Some (y, s')"
  shows "dq_ok i s' \<and> dq_items (dq_of s i) = popped y @ dq_items (dq_of s' i)"
  using dq_pop_cases[OF assms(1,2) disjI2[OF assms(3)] assms(4), of y s'] r assms(2)
  by (auto simp: rt_data_queue_pop_wake_def popped_def split: if_splits)

section \<open>Resetting\<close>

text \<open>All waiters are woken with an error; the items stay.\<close>

lemma exit_critical_sched:
  assumes "kinv s" "rt_current_thread s \<noteq> None"
  shows "\<exists>l s'. rt_exit_critical s = Some s' \<and> kinv s' \<and> rt_current_thread s' \<noteq> None
    \<and> sched_only (s\<lparr>rt_scheduler_lock_nest := l\<rparr>) s'"
proof -
  obtain c where c: "rt_current_thread s = Some c" using assms(2) by auto
  show ?thesis
  proof (cases "sint (rt_scheduler_lock_nest s - 1) \<le> 0")
    case True
    let ?s = "s\<lparr>rt_scheduler_lock_nest := 0\<rparr>"
    have "kinv ?s" "rt_current_thread ?s = Some c" using assms(1) c by simp_all
    from rt_schedule_step[OF this] True show ?thesis
      by (auto simp: rt_exit_critical_def Let_def intro: exI[of _ "0 :: 16 word"])
  next
    case False
    let ?s = "s\<lparr>rt_scheduler_lock_nest := rt_scheduler_lock_nest s - 1\<rparr>"
    have "rt_exit_critical s = Some ?s" using False by (simp add: rt_exit_critical_def Let_def)
    moreover have "kinv ?s" "rt_current_thread ?s \<noteq> None" using assms by simp_all
    moreover have "sched_only ?s ?s" by simp
    ultimately show ?thesis by blast
  qed
qed

lemma lock_nest_status [simp]:
  "is_ready (s\<lparr>rt_scheduler_lock_nest := l\<rparr>) = is_ready s" "tstat (s\<lparr>rt_scheduler_lock_nest := l\<rparr>) = tstat s"
  by (simp_all add: is_ready_def[abs_def] tstat_def[abs_def])

lemma dq_reset_total:
  assumes ok: "dq_ok i s"
  shows "\<exists>s'. rt_data_queue_reset i s = Some s' \<and> dq_ok i s' \<and> dq_of s' i = dq_of s i
    \<and> tq s' (DrvQ (PopQ i)) = [] \<and> tq s' (DrvQ (PushQ i)) = []
    \<and> (\<forall>t \<in> set (tq s (DrvQ (PopQ i))) \<union> set (tq s (DrvQ (PushQ i))). is_ready s' t \<and> err (thr s' t) = - RT_ERROR)"
proof -
  let ?e = "rt_enter_critical s" and ?p = "DrvQ (PopQ i)" and ?u = "DrvQ (PushQ i)"
  have k: "kinv ?e" using ok by (simp add: dq_ok_def rt_enter_critical_def)
  have e: "tq ?e = tq s" "drv ?e = drv s" "rt_current_thread ?e = rt_current_thread s"
    by (simp_all add: rt_enter_critical_def)
  have h: "is_wait_head ?p" "is_wait_head ?u" by simp_all
  from resume_all_total[OF k h(1)] obtain s1 where
    s1: "rt_ipc_list_resume_all ?p ?e = Some s1" "kinv s1" "ipc_same ?e s1"
    "rt_current_thread s1 = rt_current_thread s" "tq s1 ?p = []"
    "\<forall>t \<in> set (tq s ?p). is_ready s1 t \<and> err (thr s1 t) = - RT_ERROR" "tq s1 ?u = tq s ?u"
    unfolding e by auto
  from resume_all_total[OF s1(2) h(2)] obtain s2 where
    s2: "rt_ipc_list_resume_all ?u s1 = Some s2" "kinv s2" "ipc_same s1 s2"
    "rt_current_thread s2 = rt_current_thread s" "tq s2 ?u = []"
    "\<forall>t \<in> set (tq s ?u). is_ready s2 t \<and> err (thr s2 t) = - RT_ERROR"
    "\<forall>t. t \<notin> set (tq s ?u) \<longrightarrow> tstat s2 t = tstat s1 t \<and> err (thr s2 t) = err (thr s1 t)" "tq s2 ?p = []"
    unfolding s1(4,7) using s1(5) h(1) by (metis lhead.inject(4) drvq.distinct(1))
  have cu: "rt_current_thread s2 \<noteq> None" using ok s2(4) by (simp add: dq_ok_def)
  from exit_critical_sched[OF s2(2) this] obtain l s3 where
    s3: "rt_exit_critical s2 = Some s3" "kinv s3" "rt_current_thread s3 \<noteq> None"
    "sched_only (s2\<lparr>rt_scheduler_lock_nest := l\<rparr>) s3" by blast
  from s3(3) obtain c where "rt_current_thread s3 = Some c" by auto
  from rt_schedule_step[OF s3(2) this] obtain s4 where
    s4: "rt_schedule s3 = Some s4" "kinv s4" "rt_current_thread s4 \<noteq> None" "sched_only s3 s4" by blast
  note D3 = sched_onlyD[OF s3(4)] and D4 = sched_onlyD[OF s4(4)]
  have tq4: "tq s4 (DrvQ q) = tq s2 (DrvQ q)" for q using D3(21) D4(21) by simp
  have st: "is_ready s4 t = is_ready s2 t" "err (thr s4 t) = err (thr s2 t)" for t
    using sched_only_status(3)[OF s3(4)] sched_only_status(3)[OF s4(4)] D3(3) D4(3) by simp_all
  have d: "drv s4 = drv s" using D3(22) D4(22) ipc_sameD(12)[OF s1(3)] ipc_sameD(12)[OF s2(3)] e(2) by simp
  have "is_ready s4 t \<and> err (thr s4 t) = - RT_ERROR" if "t \<in> set (tq s ?p) \<union> set (tq s ?u)" for t
    using that s1(6) s2(6,7) st by (cases "t \<in> set (tq s ?u)") (auto simp: is_ready_def)
  moreover have "rt_data_queue_reset i s = Some s4"
    using s1(1) s2(1) s3(1) s4(1) by (simp add: rt_data_queue_reset_def)
  ultimately show ?thesis using s4(2,3) ok d tq4 s2(5,8) by (simp add: dq_ok_def dq_ready_def)
qed

end
