(* ===== verification/RT_Dataqueue_Spec.thy ===== *)
theory RT_Dataqueue_Spec
  imports RT_Dataqueue_Run
begin

text \<open>The properties of data queues.\<close>

section \<open>Runs\<close>

text \<open>\<^verbatim>\<open>dq_run nf i s0 ins outs s\<close>: from s0 to s, the items ins were accepted by data queue i and the
  items outs were taken from it; all pushes are among the first 65535 of the queue.\<close>

inductive dq_run ::
  "notify_fn \<Rightarrow> nat \<Rightarrow> kernel \<Rightarrow> data_item list \<Rightarrow> data_item list \<Rightarrow> kernel \<Rightarrow> bool" for nf i s0 where
  q_start: "dq_run nf i s0 [] [] s0"
| q_push: "dq_run nf i s0 ins outs s \<Longrightarrow> time = 0 \<or> can_block s c \<Longrightarrow> time < 0x7fffffff
    \<Longrightarrow> dq_fits (dq_of s i) x \<Longrightarrow> rt_data_queue_push nf i x time s = Some (y, s')
    \<Longrightarrow> dq_run nf i s0 (ins @ pushed y x) outs s'"
| q_push_wake: "dq_run nf i s0 ins outs s \<Longrightarrow> can_block s c \<Longrightarrow> time < 0x7fffffff
    \<Longrightarrow> dq_fits (dq_of s i) x \<Longrightarrow> rt_data_queue_push_wake nf i c x time s = Some (y, s')
    \<Longrightarrow> dq_run nf i s0 (ins @ pushed y x) outs s'"
| q_pop: "dq_run nf i s0 ins outs s \<Longrightarrow> time = 0 \<or> can_block s c \<Longrightarrow> time < 0x7fffffff
    \<Longrightarrow> rt_data_queue_pop nf i time s = Some (z, s') \<Longrightarrow> dq_run nf i s0 ins (outs @ popped z) s'"
| q_pop_wake: "dq_run nf i s0 ins outs s \<Longrightarrow> can_block s c \<Longrightarrow> time < 0x7fffffff
    \<Longrightarrow> rt_data_queue_pop_wake nf i c time s = Some (z, s') \<Longrightarrow> dq_run nf i s0 ins (outs @ popped z) s'"
| q_reset: "dq_run nf i s0 ins outs s \<Longrightarrow> rt_data_queue_reset i s = Some s' \<Longrightarrow> dq_run nf i s0 ins outs s'"
| q_timed_out: "dq_run nf i s0 ins outs s \<Longrightarrow> is_suspended s t \<Longrightarrow> ThreadTimer t \<notin> set (rt_timer_list s)
    \<Longrightarrow> rt_thread_timeout t s = Some s' \<Longrightarrow> dq_run nf i s0 ins outs s'"
| q_switched: "dq_run nf i s0 ins outs s \<Longrightarrow> rt_schedule s = Some s' \<Longrightarrow> dq_run nf i s0 ins outs s'"

lemma dq_run_keeps:
  assumes "dq_run nf i s0 ins outs s" "notify_ok nf i" "dq_ok i s0"
  shows "dq_ok i s \<and> dq_items (dq_of s0 i) @ ins = outs @ dq_items (dq_of s i)"
  using assms
proof (induction rule: dq_run.induct)
  case q_start
  then show ?case by simp
next
  case (q_push ins outs s time c x y s')
  then have "dq_ok i s" "dq_items (dq_of s0 i) @ ins = outs @ dq_items (dq_of s i)" by simp_all
  with dq_push_cases[OF q_push.prems(1) this(1) q_push(2-5)] show ?case by (simp flip: append_assoc)
next
  case (q_push_wake ins outs s c time x y s')
  then have "dq_ok i s" "dq_items (dq_of s0 i) @ ins = outs @ dq_items (dq_of s i)" by simp_all
  with dq_push_wake_cases[OF q_push_wake.prems(1) this(1) q_push_wake(2-5)] show ?case
    by (simp flip: append_assoc)
next
  case (q_pop ins outs s time c z s')
  then have "dq_ok i s" "dq_items (dq_of s0 i) @ ins = outs @ dq_items (dq_of s i)" by simp_all
  with dq_pop_cases[OF q_pop.prems(1) this(1) q_pop(2-4)] show ?case by simp
next
  case (q_pop_wake ins outs s c time z s')
  then have "dq_ok i s" "dq_items (dq_of s0 i) @ ins = outs @ dq_items (dq_of s i)" by simp_all
  with dq_pop_wake_cases[OF q_pop_wake.prems(1) this(1) q_pop_wake(2-4)] show ?case by simp
next
  case (q_reset ins outs s s')
  then have "dq_ok i s" "dq_items (dq_of s0 i) @ ins = outs @ dq_items (dq_of s i)" by simp_all
  with dq_reset_total[OF this(1)] q_reset(2) show ?case by auto
next
  case (q_timed_out ins outs s t s')
  then have ok: "dq_ok i s" and e: "dq_items (dq_of s0 i) @ ins = outs @ dq_items (dq_of s i)" by simp_all
  from dataqueue.timeout_keeps[OF _ _ _ q_timed_out(2-4), of i] ok ipc_keptD(14)[of s s'] e
  show ?case by (simp add: dq_ok_def)
next
  case (q_switched ins outs s s')
  then have ok: "dq_ok i s" and e: "dq_items (dq_of s0 i) @ ins = outs @ dq_items (dq_of s i)" by simp_all
  from dataqueue.switch_keeps[OF _ _ _ q_switched(2), of i] ok ipc_keptD(14)[of s s'] e
  show ?case by (simp add: dq_ok_def)
qed

text \<open>A concrete queue and a concrete notification function, which completes completion 0.\<close>

definition dq_demo_notify :: notify_fn where
  "dq_demo_notify f i ev s = Some (upd_cmp 0 (\<lambda>c. c\<lparr>compl_flag := ev\<rparr>) s)"

lemma dq_demo_notify_ok: "notify_ok dq_demo_notify i"
proof -
  have "dq_ok i (upd_cmp 0 f s) \<and> dq_of (upd_cmp 0 f s) i = dq_of s i" if ok: "dq_ok i s" for f s
  proof -
    have d: "same_but_data s (upd_cmp 0 f s)" by simp
    have e: "dq_of (upd_cmp 0 f s) i = dq_of s i" by (simp add: upd_cmp_def)
    show ?thesis
      using ok kinv_same_but_data[OF d] same_but_dataD(7)[OF d] e by (simp add: dq_ok_def dq_ready_def)
  qed
  then show ?thesis by (simp add: notify_ok_def dq_demo_notify_def)
qed

lemma dq_demo:
  "dq_size (dq_of demo i) = 2" "dq_lwm (dq_of demo i) = 1" "put_index (dq_of demo i) = 0"
  "get_index (dq_of demo i) = 0" "length (dq_queue (dq_of demo i)) = 2" "evt_notify (dq_of demo i) = None"
  "dq_items (dq_of demo i) = []"
  by (simp_all add: demo_def dq_items_def ring_items_def)

lemma dq_ok_demo: "dq_ok i demo"
  using dq_demo[of i] by (simp add: dq_ok_def dq_ready_def dq_inv_def)

section \<open>Properties\<close>

text \<open>C14. First-in first-out transfer through a data queue. In every run of pushes, pops, wake-ups,
  resets, time-outs and preemptions that makes fewer than 65536 pushes, the items taken are the
  first of the items that were in the queue or were accepted since, in their order, and the
  others are its contents, whatever the notification function does with other objects.\<close>

theorem dataqueue_fifo:
  assumes "dq_run nf i s0 ins outs s" "notify_ok nf i" "dq_ok i s0"
  shows "dq_items (dq_of s0 i) @ ins = outs @ dq_items (dq_of s i) \<and> dq_ok i s"
  using dq_run_keeps[OF assms] by blast

lemma dataqueue_fifo_witness:
  "\<exists>s. dq_run dq_demo_notify 0 demo [(7, 4)] [(7, 4)] s \<and> dq_items (dq_of s 0) = []"
proof -
  note n = dq_demo_notify_ok[of 0]
  have r: "length (dq_items (dq_of demo 0)) < dq_cap (dq_of demo 0)" "dq_fits (dq_of demo 0) (7, 4)"
    using dq_demo[of 0] by (simp_all add: dq_cap_def dq_fits_def)
  from dq_deliver_total[OF n dq_ok_demo r] obtain s1 where
    s1: "dq_deliver dq_demo_notify 0 (7, 4) demo = Some (Done RT_EOK, s1)" "dq_ok 0 s1"
    "dq_items (dq_of s1 0) = [(7, 4)]" using dq_demo(7)[of 0] by auto
  have "rt_data_queue_push dq_demo_notify 0 (7, 4) 0 demo = Some (Done RT_EOK, s1)"
    using s1(1) dq_demo[of 0] by (simp add: rt_data_queue_push.simps[of _ 0 _ 0] RT_DATAQUEUE_SIZE_def)
  from q_push[OF q_start _ _ r(2) this] have r1: "dq_run dq_demo_notify 0 demo [(7, 4)] [] s1"
    by (simp add: pushed_def)
  from dq_collect_total[OF n s1(2,3)] obtain s2 where
    s2: "dq_collect dq_demo_notify 0 s1 = Some (Done (RT_EOK, Some (7, 4)), s2)" by blast
  have "get_index (dq_of s1 0) \<noteq> put_index (dq_of s1 0)"
    using s1(2,3) dq_empty_iff[of "dq_of s1 0"] by (simp add: dq_ok_def dq_ready_def)
  then have "rt_data_queue_pop dq_demo_notify 0 0 s1 = Some (Done (RT_EOK, Some (7, 4)), s2)"
    using s2 by (simp add: rt_data_queue_pop.simps[of _ 0 0 s1])
  from q_pop[OF r1 _ _ this] have "dq_run dq_demo_notify 0 demo [(7, 4)] [(7, 4)] s2"
    by (simp add: popped_def)
  with dataqueue_fifo[OF this n dq_ok_demo] dq_demo(7)[of 0] show ?thesis by auto
qed

text \<open>Pushing and popping. An item is stored behind the others when there is room, and the first
  thread that waits for one becomes ready; a full queue refuses it without a waiting time, and
  otherwise the thread goes to the end of the pushing threads. Popping takes the oldest item
  and wakes the first pushing thread only when what remains is at the low-water mark; an empty
  queue fails or makes the thread wait.\<close>

theorem rt_data_queue_correct:
  assumes "notify_ok nf i" "dq_ok i s" "can_block s c" "time < 0x7fffffff" "dq_fits (dq_of s i) x"
  shows "(length (dq_items (dq_of s i)) < dq_cap (dq_of s i) \<longrightarrow>
      (\<exists>s'. rt_data_queue_push nf i x time s = Some (Done RT_EOK, s')
        \<and> dq_items (dq_of s' i) = dq_items (dq_of s i) @ [x]
        \<and> (tq s (DrvQ (PopQ i)) \<noteq> [] \<longrightarrow> tq s' (DrvQ (PopQ i)) = tl (tq s (DrvQ (PopQ i)))
             \<and> is_ready s' (hd (tq s (DrvQ (PopQ i)))) \<and> runs_best s')))
    \<and> (length (dq_items (dq_of s i)) = dq_cap (dq_of s i) \<longrightarrow>
      (if time = 0 then rt_data_queue_push nf i x time s = Some (Done (- RT_ETIMEOUT), s)
       else \<exists>s'. rt_data_queue_push nf i x time s = Some (Blocked, s') \<and> dq_of s' i = dq_of s i
         \<and> is_suspended s' c \<and> runs_best s' \<and> tq s' (DrvQ (PushQ i)) = tq s (DrvQ (PushQ i)) @ [c]))
    \<and> (dq_items (dq_of s i) = y # ys \<longrightarrow>
      (\<exists>s'. rt_data_queue_pop nf i time s = Some (Done (RT_EOK, Some y), s') \<and> dq_items (dq_of s' i) = ys
        \<and> (evt_notify (dq_of s i) = None \<longrightarrow> tq s' (DrvQ (PushQ i))
             = (if length ys \<le> unat (dq_lwm (dq_of s i)) then tl (tq s (DrvQ (PushQ i)))
                else tq s (DrvQ (PushQ i))))))
    \<and> (dq_items (dq_of s i) = [] \<longrightarrow>
      (if time = 0 then rt_data_queue_pop nf i time s = Some (Done (- RT_ETIMEOUT, None), s)
       else \<exists>s'. rt_data_queue_pop nf i time s = Some (Blocked, s') \<and> dq_of s' i = dq_of s i
         \<and> is_suspended s' c \<and> runs_best s' \<and> tq s' (DrvQ (PopQ i)) = tq s (DrvQ (PopQ i)) @ [c]))"
proof (intro conjI)
  have i: "dq_inv (dq_of s i)" using assms(2) by (simp add: dq_ok_def dq_ready_def)
  note fu = dq_full_iff(1)[OF i] and em = dq_empty_iff[OF i]
  have l: "rt_scheduler_lock_nest s = 0" using assms(3) by (simp add: can_block_def)
  show "length (dq_items (dq_of s i)) < dq_cap (dq_of s i) \<longrightarrow>
      (\<exists>s'. rt_data_queue_push nf i x time s = Some (Done RT_EOK, s')
        \<and> dq_items (dq_of s' i) = dq_items (dq_of s i) @ [x]
        \<and> (tq s (DrvQ (PopQ i)) \<noteq> [] \<longrightarrow> tq s' (DrvQ (PopQ i)) = tl (tq s (DrvQ (PopQ i)))
             \<and> is_ready s' (hd (tq s (DrvQ (PopQ i)))) \<and> runs_best s'))"
    using dq_deliver_total[OF assms(1,2) _ assms(5)] fu l
    by (auto simp: rt_data_queue_push.simps[of nf i x time s])
  show "length (dq_items (dq_of s i)) = dq_cap (dq_of s i) \<longrightarrow>
      (if time = 0 then rt_data_queue_push nf i x time s = Some (Done (- RT_ETIMEOUT), s)
       else \<exists>s'. rt_data_queue_push nf i x time s = Some (Blocked, s') \<and> dq_of s' i = dq_of s i
         \<and> is_suspended s' c \<and> runs_best s' \<and> tq s' (DrvQ (PushQ i)) = tq s (DrvQ (PushQ i)) @ [c])"
    using dq_push_waits[OF assms(2,3) _ assms(4), of nf x] fu
    by (auto simp: rt_data_queue_push.simps[of nf i x 0 s])
  show "dq_items (dq_of s i) = y # ys \<longrightarrow>
      (\<exists>s'. rt_data_queue_pop nf i time s = Some (Done (RT_EOK, Some y), s') \<and> dq_items (dq_of s' i) = ys
        \<and> (evt_notify (dq_of s i) = None \<longrightarrow> tq s' (DrvQ (PushQ i))
             = (if length ys \<le> unat (dq_lwm (dq_of s i)) then tl (tq s (DrvQ (PushQ i)))
                else tq s (DrvQ (PushQ i)))))"
    using dq_collect_total[OF assms(1,2)] em
    by (fastforce simp: rt_data_queue_pop.simps[of nf i time s])
  show "dq_items (dq_of s i) = [] \<longrightarrow>
      (if time = 0 then rt_data_queue_pop nf i time s = Some (Done (- RT_ETIMEOUT, None), s)
       else \<exists>s'. rt_data_queue_pop nf i time s = Some (Blocked, s') \<and> dq_of s' i = dq_of s i
         \<and> is_suspended s' c \<and> runs_best s' \<and> tq s' (DrvQ (PopQ i)) = tq s (DrvQ (PopQ i)) @ [c])"
    using dq_pop_waits[OF assms(2,3) _ assms(4), of nf] em
    by (auto simp: rt_data_queue_pop.simps[of nf i 0 s])
qed

lemma rt_data_queue_correct_witness:
  "(\<exists>s'. rt_data_queue_push dq_demo_notify 0 (7, 4) 0 demo = Some (Done RT_EOK, s') \<and> dq_items (dq_of s' 0) = [(7, 4)])
   \<and> (\<exists>s'. rt_data_queue_pop dq_demo_notify 0 5 demo = Some (Blocked, s') \<and> tq s' (DrvQ (PopQ 0)) = [0])"
proof -
  have f: "dq_fits (dq_of demo 0) (7, 4)" using dq_demo[of 0] by (simp add: dq_fits_def)
  note P = rt_data_queue_correct[OF dq_demo_notify_ok dq_ok_demo can_block_demo _ f]
  show ?thesis using P[of 0] P[of 5] dq_demo[of 0] by (auto simp: dq_cap_def)
qed

text \<open>C15. After 65536 pushes the count of the items put wraps to 0 while that of the items taken has
  not. The difference of the counts, computed in int, is then negative and is not found equal to
  the size: a push on a full queue does not wait but overwrites the oldest item that was not
  taken. (The sizes that divide 65536; with another size the slots shift as well.)\<close>

theorem data_queue_wrap_overwrites:
  assumes "put_index (dq_of s i) = get_index (dq_of s i) + dq_size (dq_of s i)"
    and "put_index (dq_of s i) < get_index (dq_of s i)"
    and "unat (dq_size (dq_of s i)) dvd 2 ^ 16" "unat (dq_size (dq_of s i)) = length (dq_queue (dq_of s i))"
    and "evt_notify (dq_of s i) = None" "tq s (DrvQ (PopQ i)) = []"
  shows "\<exists>s'. rt_data_queue_push nf i x time s = Some (Done RT_EOK, s') \<and> dq_peek (dq_of s' i) = x"
proof -
  let ?q = "dq_of s i"
  let ?n = "unat (dq_size ?q)" and ?g = "unat (get_index ?q)"
  have "uint (put_index ?q) < uint (get_index ?q)" using assms(2) by (simp add: word_less_def)
  moreover have "0 \<le> uint (dq_size ?q)" by simp
  ultimately have nf: "RT_DATAQUEUE_SIZE ?q \<noteq> uint (dq_size ?q)" unfolding RT_DATAQUEUE_SIZE_def by linarith
  have nz: "dq_size ?q \<noteq> 0" using assms(1,2) by auto
  then have pos: "0 < ?n" by (simp add: unat_gt_0)
  have "unat (put_index ?q) = (?g + ?n) mod 2 ^ 16" by (simp add: assms(1) unat_word_ariths)
  then have sl: "dq_slot ?q (put_index ?q) = dq_slot ?q (get_index ?q)"
    using assms(3) by (simp add: dq_slot_def mod_mod_cancel)
  have "dq_slot ?q (get_index ?q) < ?n" using pos by (simp only: dq_slot_def mod_less_divisor)
  then have b: "dq_slot ?q (get_index ?q) < length (dq_queue ?q)" using assms(4) by simp
  let ?s = "upd_dq i (dq_put x) s"
  have "dq_peek (dq_put x ?q) = x"
    using b sl by (simp add: dq_peek_def dq_put_def dq_slot_def)
  moreover have "tq ?s (DrvQ (PopQ i)) = []" "evt_notify (dq_of ?s i) = None"
    using assms(5,6) same_but_dataD(1)[OF same_but_data_upd(7)] by simp_all
  moreover have "dq_access ?q (put_index ?q) = Some ()" using nz b sl by (simp add: dq_access_def)
  ultimately have "rt_data_queue_push nf i x time s = Some (Done RT_EOK, ?s)" "dq_peek (dq_of ?s i) = x"
    using nf by (simp_all add: rt_data_queue_push.simps[of nf i x time s] dq_deliver_def dq_notify_def)
  then show ?thesis by blast
qed

lemma data_queue_wrap_witness:
  "\<exists>s s'. dq_queue (dq_of s 0) = [(2, 4), (1, 4)] \<and> dq_peek (dq_of s 0) = (1, 4)
    \<and> rt_data_queue_push dq_demo_notify 0 (3, 4) 0 s = Some (Done RT_EOK, s') \<and> dq_peek (dq_of s' 0) = (3, 4)"
proof -
  let ?s = "upd_dq 0 (\<lambda>q. q\<lparr>put_index := 1, get_index := 0xffff, dq_queue := [(2, 4), (1, 4)]\<rparr>) demo"
  have t: "tq ?s (DrvQ (PopQ 0)) = []" using same_but_dataD(1)[OF same_but_data_upd(7)] by simp
  have "\<exists>s'. rt_data_queue_push dq_demo_notify 0 (3, 4) 0 ?s = Some (Done RT_EOK, s') \<and> dq_peek (dq_of s' 0) = (3, 4)"
    by (rule data_queue_wrap_overwrites[where s = ?s, OF _ _ _ _ _ t]) (simp_all add: dq_demo)
  moreover have "dq_queue (dq_of ?s 0) = [(2, 4), (1, 4)]" "dq_peek (dq_of ?s 0) = (1, 4)"
    by (simp_all add: dq_demo dq_peek_def dq_slot_def)
  ultimately show ?thesis by blast
qed

end
