(* ===== verification/RT_Completion.thy ===== *)
theory RT_Completion
  imports RT_Dataqueue_Spec
begin

text \<open>The completions of components/drivers/src/completion.c: a flag that one thread waits for and an
  interrupt handler or another thread sets.\<close>

section \<open>Operations\<close>

definition RT_COMPLETED :: rt_uint32 where "RT_COMPLETED = 1"
definition RT_UNCOMPLETED :: rt_uint32 where "RT_UNCOMPLETED = 0"

abbreviation cmp_flag :: "kernel \<Rightarrow> nat \<Rightarrow> rt_uint32" where
  "cmp_flag s i \<equiv> compl_flag (cmps (drv s) i)"

abbreviation cmp_queue :: "nat \<Rightarrow> lhead" where
  "cmp_queue i \<equiv> DrvQ (ComplQ i)"

definition set_cmp_flag :: "nat \<Rightarrow> rt_uint32 \<Rightarrow> kernel \<Rightarrow> kernel" where
  "set_cmp_flag i v = upd_cmp i (\<lambda>c. c\<lparr>compl_flag := v\<rparr>)"

definition rt_completion_init :: "nat \<Rightarrow> kernel \<Rightarrow> kernel" where
  "rt_completion_init i s = tlist_init (cmp_queue i) (set_cmp_flag i RT_UNCOMPLETED s)"

text \<open>What \<^verbatim>\<open>rt_completion_wait\<close> does when the waiting thread runs again: the flag is cleared whatever
  woke the thread.\<close>

definition rt_completion_wake :: "nat \<Rightarrow> nat \<Rightarrow> kernel \<Rightarrow> (rt_err call \<times> kernel) option" where
  "rt_completion_wake i t s = Some (Done (err (thr s t)), set_cmp_flag i RT_UNCOMPLETED s)"

definition rt_completion_wait :: "nat \<Rightarrow> int \<Rightarrow> kernel \<Rightarrow> (rt_err call \<times> kernel) option" where
  "rt_completion_wait i timeout s =
    (if cmp_flag s i \<noteq> RT_COMPLETED then do {
       RT_ASSERT (tq s (cmp_queue i) = []);
       (if timeout = 0 then Some (Done (- RT_ETIMEOUT), s)
        else do {
          t \<leftarrow> rt_thread_self s;
          (_, s) \<leftarrow> rt_thread_suspend t (set_err t RT_EOK s);
          let s = tlist_push_back (cmp_queue i) t s;
          not_in_interrupt s;
          s \<leftarrow> start_wait_timer t timeout s;
          after_schedule t (rt_completion_wake i t) s
        })
     }
     else Some (Done RT_EOK, set_cmp_flag i RT_UNCOMPLETED s))"

definition rt_completion_done :: "nat \<Rightarrow> kernel \<Rightarrow> kernel option" where
  "rt_completion_done i s =
    (if cmp_flag s i = RT_COMPLETED then Some s
     else wake_first (cmp_queue i) (set_cmp_flag i RT_COMPLETED s))"

section \<open>Completions under the invariant\<close>

text \<open>At most one thread waits, and none when the flag is set.\<close>

definition cmp_inv :: "nat \<Rightarrow> kernel \<Rightarrow> bool" where
  "cmp_inv i s = (length (tq s (cmp_queue i)) \<le> 1 \<and> (cmp_flag s i = RT_COMPLETED \<longrightarrow> tq s (cmp_queue i) = []))"

interpretation completion: waiting_object cmp_inv
proof
  fix i s s'
  assume i: "cmp_inv i s" and k: "ipc_kept s s'"
  have h: "is_wait_head (cmp_queue i)" by simp
  have "\<exists>P. tq s' (cmp_queue i) = filter P (tq s (cmp_queue i))"
    using k h unfolding ipc_kept_def by blast
  then obtain P where "tq s' (cmp_queue i) = filter P (tq s (cmp_queue i))" ..
  moreover have "length (filter P (tq s (cmp_queue i))) \<le> length (tq s (cmp_queue i))" by (rule length_filter_le)
  ultimately show "cmp_inv i s'"
    using i ipc_keptD(14)[OF k] unfolding cmp_inv_def by (metis filter.simps(1) le_trans)
qed

definition cmp_ok :: "nat \<Rightarrow> kernel \<Rightarrow> bool" where
  "cmp_ok i s = (kinv s \<and> rt_current_thread s \<noteq> None \<and> cmp_inv i s)"

lemma set_cmp_flag_frame [simp]:
  "same_but_data s (set_cmp_flag i v s)" "cmp_flag (set_cmp_flag i v s) i = v"
  "tq (set_cmp_flag i v s) = tq s" "kinv (set_cmp_flag i v s) = kinv s"
  "rt_current_thread (set_cmp_flag i v s) = rt_current_thread s" "thr (set_cmp_flag i v s) = thr s"
  "is_ready (set_cmp_flag i v s) = is_ready s" "is_suspended (set_cmp_flag i v s) = is_suspended s"
  "rt_scheduler_lock_nest (set_cmp_flag i v s) = rt_scheduler_lock_nest s"
proof -
  show d: "same_but_data s (set_cmp_flag i v s)" by (simp add: set_cmp_flag_def)
  note D = same_but_dataD[OF d]
  show "cmp_flag (set_cmp_flag i v s) i = v" by (simp add: set_cmp_flag_def upd_cmp_def)
  show "tq (set_cmp_flag i v s) = tq s" "rt_current_thread (set_cmp_flag i v s) = rt_current_thread s"
    "thr (set_cmp_flag i v s) = thr s" "is_ready (set_cmp_flag i v s) = is_ready s"
    "rt_scheduler_lock_nest (set_cmp_flag i v s) = rt_scheduler_lock_nest s" using D by simp_all
  show "is_suspended (set_cmp_flag i v s) = is_suspended s" using D(12) by (simp add: is_suspended_def[abs_def])
  show "kinv (set_cmp_flag i v s) = kinv s" by (rule kinv_same_but_data[OF d])
qed

lemma cmp_ok_set_err [simp]: "cmp_ok i (set_err t e s) = cmp_ok i s"
  by (simp add: cmp_ok_def cmp_inv_def)

lemma cmp_wake_ok: "cmp_ok i s \<Longrightarrow> cmp_ok i (set_cmp_flag i RT_UNCOMPLETED s)"
  by (simp add: cmp_ok_def cmp_inv_def RT_UNCOMPLETED_def RT_COMPLETED_def)

lemma cmp_blocks:
  assumes ks: "kinv s" and b: "can_block s c" and t: "time \<noteq> 0" "time < 0x7fffffff"
    and f: "cmp_flag s i \<noteq> RT_COMPLETED" "tq s (cmp_queue i) = []"
  shows "\<exists>s'. rt_completion_wait i time s = Some (Blocked, s') \<and> cmp_ok i s' \<and> cmp_flag s' i = cmp_flag s i
    \<and> is_suspended s' c \<and> runs_best s' \<and> tq s' (cmp_queue i) = [c] \<and> err (thr s' c) = RT_EOK
    \<and> rt_scheduler_lock_nest s' = 0
    \<and> (drv s' = drv s \<and> (\<forall>h. is_wait_head h \<longrightarrow> h \<noteq> cmp_queue i \<longrightarrow> tq s' h = tq s h)
        \<and> (\<forall>u. u \<noteq> c \<longrightarrow> err (thr s' u) = err (thr s u)))"
proof -
  let ?s = "set_err c RT_EOK s"
  have k: "kinv ?s" using ks by simp
  have c: "rt_current_thread ?s = Some c" "is_ready ?s c" and b': "can_block ?s c"
    using b by (simp_all add: can_block_def other_ready_def)
  have h: "is_wait_head (cmp_queue i)" by simp
  have q: "set [c] = insert c (set (tq ?s (cmp_queue i)))" "distinct [c]" using f(2) by simp_all
  from start_wait_total[OF k c h q t(2)] obtain s1 where
    s1: "start_wait_timer c time (queued_in (cmp_queue i) [c] (thread_suspended c ?s)) = Some s1"
    "waits_in (cmp_queue i) [c] c time ?s s1" by blast
  from waits_blocks[OF b' s1(2), of "rt_completion_wake i c"] obtain s' where
    s': "after_schedule c (rt_completion_wake i c) s1 = Some (Blocked, s')"
    and bl: "blocked_in (cmp_queue i) [c] c time ?s s'" by blast
  note B = blockedD[OF bl h]
  have same: "ipc_same s s'" by (rule ipc_same_trans[OF ipc_same_set_err B(12)])
  note S = ipc_sameD[OF same]
  have e: "tlist_push_back (cmp_queue i) c (thread_suspended c ?s)
      = queued_in (cmp_queue i) [c] (thread_suspended c ?s)"
    using f(2) by (simp add: tlist_push_back_def queued_in_def thread_suspended_def)
  have "rt_interrupt_nest (thread_suspended c ?s) = 0"
    using ipc_sameD(8)[OF ipc_same_suspended, of c ?s] b by (simp add: can_block_def)
  then have "rt_interrupt_nest (queued_in (cmp_queue i) [c] (thread_suspended c ?s)) = 0"
    by (simp add: queued_in_def)
  then have "rt_completion_wait i time s = Some (Blocked, s')"
    using f t(1) b s1(1) s' rt_thread_suspend_eq[OF k c] e
    by (simp add: rt_completion_wait_def rt_thread_self_def can_block_def not_in_interrupt_def)
  moreover have "cmp_ok i s'"
    using B(1,4) blocked_current[OF bl] S(12) f(1) by (simp add: cmp_ok_def cmp_inv_def)
  moreover have "drv s' = drv s \<and> (\<forall>h. is_wait_head h \<longrightarrow> h \<noteq> cmp_queue i \<longrightarrow> tq s' h = tq s h)
      \<and> (\<forall>u. u \<noteq> c \<longrightarrow> err (thr s' u) = err (thr s u))"
    using B(11,15) S(12) by simp
  ultimately show ?thesis using B(2,3,4,15) S(7,12) b by (auto simp: can_block_def)
qed

lemma cmp_waits:
  assumes ok: "cmp_ok i s" and b: "can_block s c" and t: "time \<noteq> 0" "time < 0x7fffffff"
    and f: "cmp_flag s i \<noteq> RT_COMPLETED" "tq s (cmp_queue i) = []"
  shows "\<exists>s'. rt_completion_wait i time s = Some (Blocked, s') \<and> cmp_ok i s' \<and> cmp_flag s' i = cmp_flag s i
    \<and> is_suspended s' c \<and> runs_best s' \<and> tq s' (cmp_queue i) = [c] \<and> err (thr s' c) = RT_EOK
    \<and> rt_scheduler_lock_nest s' = 0"
  using cmp_blocks[OF _ b t f] ok by (auto simp: cmp_ok_def)

lemma cmp_done_total:
  assumes ok: "cmp_ok i s"
  shows "\<exists>s'. rt_completion_done i s = Some s' \<and> cmp_ok i s' \<and> cmp_flag s' i = RT_COMPLETED
    \<and> tq s' (cmp_queue i) = [] \<and> (\<forall>t \<in> set (tq s (cmp_queue i)). is_ready s' t)
    \<and> (tq s (cmp_queue i) \<noteq> [] \<and> rt_scheduler_lock_nest s = 0 \<longrightarrow> runs_best s')"
proof (cases "cmp_flag s i = RT_COMPLETED")
  case True
  then show ?thesis using ok by (auto simp: rt_completion_done_def cmp_ok_def cmp_inv_def)
next
  case False
  let ?s = "set_cmp_flag i RT_COMPLETED s"
  have k: "kinv ?s" "rt_current_thread ?s \<noteq> None" and l: "length (tq s (cmp_queue i)) \<le> 1"
    using ok by (simp_all add: cmp_ok_def cmp_inv_def)
  have h: "is_wait_head (cmp_queue i)" by simp
  from wake_first_total[OF k h] obtain s' where
    s': "wake_first (cmp_queue i) ?s = Some s'" "kinv s'" "rt_current_thread s' \<noteq> None" "ipc_same ?s s'"
    "tq s' (cmp_queue i) = tl (tq s (cmp_queue i))"
    "tq s (cmp_queue i) \<noteq> [] \<longrightarrow> is_ready s' (hd (tq s (cmp_queue i)))"
    "tq s (cmp_queue i) \<noteq> [] \<and> rt_scheduler_lock_nest s = 0 \<longrightarrow> runs_best s'" by auto
  have "tq s' (cmp_queue i) = []" "\<forall>t \<in> set (tq s (cmp_queue i)). is_ready s' t"
    using l s'(5,6) by (cases "tq s (cmp_queue i)"; simp)+
  moreover have "cmp_flag s' i = RT_COMPLETED" using ipc_sameD(12)[OF s'(4)] by simp
  ultimately show ?thesis using False s' by (auto simp: rt_completion_done_def cmp_ok_def cmp_inv_def)
qed

section \<open>Other threads in between\<close>

text \<open>Steps that other threads than c, interrupt handlers and the clock take between two calls on the
  completion i: the scheduler runs (also when a thread yields), a waiting thread times out, a thread
  resumes another one, sleeps, takes or releases a semaphore, or waits for, sets and leaves another
  completion. None of them resumes c or uses the completion i; a second thread that waits for i fails
  the assertion of \<^verbatim>\<open>rt_completion_wait\<close>.\<close>

inductive others :: "nat \<Rightarrow> nat \<Rightarrow> kernel \<Rightarrow> kernel \<Rightarrow> bool" for i c where
  scheduled: "rt_schedule s = Some s' \<Longrightarrow> others i c s s'"
| timed_out: "t \<noteq> c \<Longrightarrow> is_suspended s t \<Longrightarrow> ThreadTimer t \<notin> set (rt_timer_list s)
    \<Longrightarrow> rt_thread_timeout t s = Some s' \<Longrightarrow> others i c s s'"
| resumed: "t \<noteq> c \<Longrightarrow> rt_thread_resume t s = Some (e, s') \<Longrightarrow> others i c s s'"
| sleeping: "rt_current_thread s = Some x \<Longrightarrow> x \<noteq> c \<Longrightarrow> is_ready s x \<Longrightarrow> tick < RT_TICK_MAX div 2
    \<Longrightarrow> rt_thread_sleep tick s = Some (r, s') \<Longrightarrow> others i c s s'"
| sem_taking: "sem_ready s k \<Longrightarrow> time = 0 \<or> can_block s x \<and> x \<noteq> c \<Longrightarrow> time < 0x7fffffff
    \<Longrightarrow> rt_sem_take k time s = Some (r, s') \<Longrightarrow> others i c s s'"
| sem_giving: "rt_sem_release k s = Some (e, s') \<Longrightarrow> others i c s s'"
| waiting_elsewhere: "j \<noteq> i \<Longrightarrow> time = 0 \<or> can_block s x \<and> x \<noteq> c \<Longrightarrow> time < 0x7fffffff
    \<Longrightarrow> rt_completion_wait j time s = Some (r, s') \<Longrightarrow> others i c s s'"
| done_elsewhere: "j \<noteq> i \<Longrightarrow> rt_completion_done j s = Some s' \<Longrightarrow> others i c s s'"
| woken_elsewhere: "j \<noteq> i \<Longrightarrow> rt_completion_wake j x s = Some (r, s') \<Longrightarrow> others i c s s'"

definition cmp_view :: "nat \<Rightarrow> nat \<Rightarrow> kernel \<Rightarrow> bool \<times> rt_err \<times> rt_uint32" where
  "cmp_view i c s = (c \<in> set (tq s (cmp_queue i)), err (thr s c), cmp_flag s i)"

text \<open>What all of them keep.\<close>

definition spares :: "nat \<Rightarrow> nat \<Rightarrow> kernel \<Rightarrow> kernel \<Rightarrow> bool" where
  "spares i c s s' =
    (kinv s' \<and> rt_current_thread s' \<noteq> None \<and> cmp_flag s' i = cmp_flag s i \<and> err (thr s' c) = err (thr s c)
     \<and> (\<exists>P. P c \<and> tq s' (cmp_queue i) = filter P (tq s (cmp_queue i))))"

lemma sparesI:
  assumes "kinv s'" "rt_current_thread s' \<noteq> None" "cmp_flag s' i = cmp_flag s i" "err (thr s' c) = err (thr s c)"
    and "tq s' (cmp_queue i) = tq s (cmp_queue i)"
  shows "spares i c s s'"
  using assms by (auto simp: spares_def intro: exI[of _ "\<lambda>_. True"])

lemma spares_without:
  assumes "kinv s'" "rt_current_thread s' \<noteq> None" "cmp_flag s' i = cmp_flag s i" "err (thr s' c) = err (thr s c)"
    and "tq s' (cmp_queue i) = removeAll t (tq s (cmp_queue i))" "t \<noteq> c"
  shows "spares i c s s'"
  unfolding spares_def assms(5) removeAll_filter_not_eq using assms(1-4,6) by (intro conjI exI[of _ "\<lambda>x. t \<noteq> x"]) simp_all

lemma spares_trans: "spares i c s s' \<Longrightarrow> spares i c s' s'' \<Longrightarrow> spares i c s s''"
  unfolding spares_def by (metis (no_types, lifting) filter_filter)

lemma spares_ok:
  assumes ok: "cmp_ok i s" and f: "spares i c s s'"
  shows "cmp_ok i s' \<and> cmp_view i c s' = cmp_view i c s"
proof -
  obtain P where P: "P c" "tq s' (cmp_queue i) = filter P (tq s (cmp_queue i))"
    using f by (auto simp: spares_def)
  have "length (tq s' (cmp_queue i)) \<le> length (tq s (cmp_queue i))" unfolding P(2) by (rule length_filter_le)
  moreover have "c \<in> set (tq s' (cmp_queue i)) \<longleftrightarrow> c \<in> set (tq s (cmp_queue i))" using P by simp
  moreover have "tq s (cmp_queue i) = [] \<longrightarrow> tq s' (cmp_queue i) = []" using P(2) by simp
  ultimately show ?thesis using ok f by (simp add: cmp_ok_def cmp_inv_def cmp_view_def spares_def)
qed

lemma other_cmp_flag: "j \<noteq> i \<Longrightarrow> cmp_flag (set_cmp_flag j v s) i = cmp_flag s i"
  by (simp add: set_cmp_flag_def upd_cmp_def)

lemma upd_sem_drv: "drv (upd_sem j f s) = drv s"
  by (simp add: upd_sem_def)

lemma spares_sched:
  assumes k: "kinv s" "rt_current_thread s \<noteq> None" and r: "rt_schedule s = Some s'"
  shows "spares i c s s'"
proof -
  obtain x where "rt_current_thread s = Some x" using k(2) by auto
  from rt_schedule_step[OF k(1) this] r have so: "sched_only s s'" "kinv s'" "rt_current_thread s' \<noteq> None" by auto
  have h: "is_wait_head (cmp_queue i)" by simp
  show ?thesis using sched_only_queue[OF so(1) h] sched_onlyD(3,22)[OF so(1)] so(2,3) by (intro sparesI) simp_all
qed

lemma spares_resumed:
  assumes k: "kinv s" "rt_current_thread s \<noteq> None" and t: "is_suspended s t" "t \<noteq> c"
  shows "spares i c s (thread_resumed t s)"
proof -
  have h: "is_wait_head (cmp_queue i)" by simp
  have "tq (thread_resumed t s) (cmp_queue i) = removeAll t (tq s (cmp_queue i))"
    by (simp add: thread_resumed_tq[OF k(1) t(1)])
  then show ?thesis using thread_resumed_kinv[OF k(1) t(1)] k(2) t(2)
    by (intro spares_without[where t = t]) (simp_all add: thread_resumed_thr)
qed

text \<open>Waking the first waiter of another queue.\<close>

lemma spares_wake:
  assumes k: "kinv s" "rt_current_thread s \<noteq> None" and h: "is_wait_head h" "h \<noteq> cmp_queue i"
    and q: "tq s h = t # ts" and r: "rt_schedule (thread_resumed t s) = Some s'"
  shows "spares i c s s'"
proof -
  note w = rt_ipc_list_resume_eq[OF k(1) h(1) q]
  have hi: "is_wait_head (cmp_queue i)" by simp
  have "spares i c s (thread_resumed t s)"
    using w(2) w(6)[OF hi] h(2) k(2) by (intro sparesI) (auto simp: thread_resumed_thr)
  moreover have "spares i c (thread_resumed t s) s'" using k(2) by (intro spares_sched[OF w(2) _ r]) simp
  ultimately show ?thesis by (rule spares_trans)
qed

lemma spares_data:
  assumes "kinv s" "rt_current_thread s \<noteq> None" "same_but_data s s'" "cmp_flag s' i = cmp_flag s i"
  shows "spares i c s s'"
  using assms same_but_dataD(1,2,7)[OF assms(3)] kinv_same_but_data[OF assms(3)] by (intro sparesI) simp_all

lemma spares_blocked:
  assumes "blocked_in h q x time (set_err x RT_EOK s) s'" "is_wait_head h" "h \<noteq> cmp_queue i" "x \<noteq> c"
  shows "spares i c s s'"
proof -
  note B = blockedD[OF assms(1,2)]
  have hi: "is_wait_head (cmp_queue i)" by simp
  show ?thesis using B(1) B(11)[OF hi] B(15) assms(3,4) ipc_sameD(12)[OF B(12)] blocked_current[OF assms(1)]
    by (intro sparesI) auto
qed

lemma spares_sem_take:
  assumes k: "kinv s" "rt_current_thread s \<noteq> None" and r: "sem_ready s j"
    and b: "time = 0 \<or> can_block s x \<and> x \<noteq> c" "time < 0x7fffffff" and e: "rt_sem_take j time s = Some (y, s')"
  shows "spares i c s s'"
proof -
  have ty: "rt_object_get_type (OSem j) s = class_code RT_Object_Class_Semaphore" using r by (simp add: sem_ready_def)
  consider "sem_value (sem s j) > 0" | "sem_value (sem s j) = 0" "time = 0"
    | "sem_value (sem s j) = 0" "time \<noteq> 0" by (auto simp: word_gt_0)
  then show ?thesis
  proof cases
    case 1
    have d: "same_but_data s s'" "drv s' = drv s" using e rt_sem_take_available[OF ty 1] by (auto simp: upd_sem_drv)
    show ?thesis using d(2) by (intro spares_data[OF k d(1)]) simp
  next
    case 2
    then show ?thesis using e rt_sem_take_nowait[OF ty 2(1)] k by (intro sparesI) simp_all
  next
    case 3
    then have c: "can_block s x" "x \<noteq> c" using b by auto
    from rt_sem_take_waits[OF k(1) r 3(1) c(1) 3(2) b(2)] e have
      "blocked (sem_queue j) x (ipc_flag s (OSem j)) time (set_err x RT_EOK s) s'" by auto
    from spares_blocked[OF this _ _ c(2)] show ?thesis by simp
  qed
qed

lemma spares_sem_release:
  assumes k: "kinv s" "rt_current_thread s \<noteq> None" and e: "rt_sem_release j s = Some (y, s')"
  shows "spares i c s s'"
proof -
  have ty: "rt_object_get_type (OSem j) s = class_code RT_Object_Class_Semaphore"
    using e by (auto simp: rt_sem_release_def split: if_splits)
  show ?thesis
  proof (cases "tq s (sem_queue j)")
    case Nil
    have d: "same_but_data s s'" "drv s' = drv s" using e rt_sem_release_empty[OF ty Nil] by (auto simp: upd_sem_drv)
    show ?thesis using d(2) by (intro spares_data[OF k d(1)]) simp
  next
    case (Cons t ts)
    have h: "is_wait_head (sem_queue j)" "sem_queue j \<noteq> cmp_queue i" by simp_all
    have "rt_schedule (thread_resumed t s) = Some s'"
      using e Cons ty rt_ipc_list_resume_eq(1)[OF k(1) h(1) Cons]
      by (auto simp: rt_sem_release_def bind_Some_iff)
    from spares_wake[OF k h Cons this] show ?thesis .
  qed
qed

lemma spares_cmp_wait:
  assumes k: "kinv s" "rt_current_thread s \<noteq> None" and j: "j \<noteq> i"
    and b: "time = 0 \<or> can_block s x \<and> x \<noteq> c" "time < 0x7fffffff" and e: "rt_completion_wait j time s = Some (y, s')"
  shows "spares i c s s'"
proof -
  consider "cmp_flag s j = RT_COMPLETED" | "cmp_flag s j \<noteq> RT_COMPLETED" "time = 0"
    | "cmp_flag s j \<noteq> RT_COMPLETED" "time \<noteq> 0" by blast
  then show ?thesis
  proof cases
    case 1
    then have "s' = set_cmp_flag j RT_UNCOMPLETED s" using e by (simp add: rt_completion_wait_def)
    then show ?thesis using j by (intro spares_data[OF k]) (simp_all add: other_cmp_flag)
  next
    case 2
    then show ?thesis using e k by (intro sparesI) (auto simp: rt_completion_wait_def split: if_splits)
  next
    case 3
    then have c: "can_block s x" "x \<noteq> c" using b by auto
    have q: "tq s (cmp_queue j) = []" using e 3 by (auto simp: rt_completion_wait_def split: if_splits)
    have h: "is_wait_head (cmp_queue i)" "cmp_queue i \<noteq> cmp_queue j" using j by simp_all
    from cmp_blocks[OF k(1) c(1) 3(2) b(2) 3(1) q] e h c(2) show ?thesis
      by (intro sparesI) (auto simp: cmp_ok_def)
  qed
qed

lemma spares_cmp_done:
  assumes k: "kinv s" "rt_current_thread s \<noteq> None" and j: "j \<noteq> i" and e: "rt_completion_done j s = Some s'"
  shows "spares i c s s'"
proof -
  let ?s = "set_cmp_flag j RT_COMPLETED s"
  have k': "kinv ?s" "rt_current_thread ?s \<noteq> None" using k by simp_all
  have f: "spares i c s ?s" using j by (intro spares_data[OF k]) (simp_all add: other_cmp_flag)
  have w: "cmp_flag s j = RT_COMPLETED \<and> s' = s \<or> wake_first (cmp_queue j) ?s = Some s'"
    using e by (simp add: rt_completion_done_def split: if_splits)
  consider "s' = s" | "s' = ?s" | t ts where "tq ?s (cmp_queue j) = t # ts" "wake_first (cmp_queue j) ?s = Some s'"
    using w by (cases "tq ?s (cmp_queue j)") (auto simp: wake_first_def)
  then show ?thesis
  proof cases
    case 1
    then show ?thesis using k by (intro sparesI) simp_all
  next
    case 2
    then show ?thesis using f by simp
  next
    case (3 t ts)
    have h: "is_wait_head (cmp_queue j)" "cmp_queue j \<noteq> cmp_queue i" using j by simp_all
    have "rt_schedule (thread_resumed t ?s) = Some s'"
      using 3 rt_ipc_list_resume_eq(1)[OF k'(1) h(1) 3(1)] by (auto simp: wake_first_def)
    from spares_wake[OF k' h 3(1) this] show ?thesis by (rule spares_trans[OF f])
  qed
qed

lemma others_step:
  assumes ok: "cmp_ok i s" and o: "others i c s s'"
  shows "cmp_ok i s' \<and> cmp_view i c s' = cmp_view i c s"
proof -
  have k: "kinv s" "rt_current_thread s \<noteq> None" using ok by (simp_all add: cmp_ok_def)
  from o have "spares i c s s'"
  proof cases
    case scheduled
    then show ?thesis by (rule spares_sched[OF k])
  next
    case (timed_out t)
    let ?s = "thread_timed_out t s"
    have h: "is_wait_head (cmp_queue i)" by simp
    have k': "kinv ?s" "rt_current_thread ?s \<noteq> None"
      using thread_timed_out_kinv[OF k(1) timed_out(2,3)] k(2) by (simp_all add: thread_timed_out_def)
    have e: "err (thr ?s c) = err (thr s c)"
      using timed_out(1) by (simp add: thread_timed_out_def insert_thread_thr)
    have "spares i c s ?s"
      by (rule spares_without[OF k' _ e timed_out_frame(2)[OF h] timed_out(1)])
        (simp add: ipc_keptD(14)[OF ipc_kept_timed_out])
    moreover have "rt_schedule ?s = Some s'" using timed_out rt_thread_timeout_eq[OF k(1) timed_out(2)] by simp
    ultimately show ?thesis using spares_sched[OF k'] spares_trans by blast
  next
    case (resumed t e)
    show ?thesis
    proof (cases "is_suspended s t")
      case True
      then show ?thesis
        using resumed spares_resumed[OF k True] rt_thread_resume_eq[OF k(1) True] by simp
    next
      case False
      then have "s' = s" using resumed(2)
        by (auto simp: rt_thread_resume_def is_suspended_def tstat_def split: if_splits)
      then show ?thesis using k by (intro sparesI) simp_all
    qed
  next
    case (sleeping x tick r)
    from rt_thread_sleep_full[OF k(1) sleeping(1,3,4)] sleeping(5)
    have f: "kinv s'" "rt_current_thread s' \<noteq> None" "drv s' = drv s"
      "\<forall>h. (\<forall>p. h \<noteq> ReadyQ p) \<longrightarrow> tq s' h = tq s h" "\<forall>u. u \<noteq> x \<longrightarrow> err (thr s' u) = err (thr s u)" by auto
    show ?thesis using f sleeping(2) by (intro sparesI) simp_all
  next
    case (sem_taking k' time x r)
    then show ?thesis using spares_sem_take[OF k] by blast
  next
    case (sem_giving k' e)
    then show ?thesis using spares_sem_release[OF k] by blast
  next
    case (waiting_elsewhere j time x r)
    then show ?thesis using spares_cmp_wait[OF k] by blast
  next
    case (done_elsewhere j)
    then show ?thesis using spares_cmp_done[OF k] by blast
  next
    case (woken_elsewhere j x r)
    then have "s' = set_cmp_flag j RT_UNCOMPLETED s" by (simp add: rt_completion_wake_def)
    then show ?thesis using woken_elsewhere(1) by (intro spares_data[OF k]) (simp_all add: other_cmp_flag)
  qed
  then show ?thesis by (rule spares_ok[OF ok])
qed

lemma others_steps:
  assumes "(others i c)\<^sup>*\<^sup>* s s'" "cmp_ok i s"
  shows "cmp_ok i s' \<and> cmp_view i c s' = cmp_view i c s"
  using assms by (induction rule: rtranclp_induct) (auto dest: others_step)

lemma cmp_done_err:
  assumes "cmp_ok i s" "rt_completion_done i s = Some s'"
  shows "err (thr s' c) = err (thr s c)"
proof (cases "cmp_flag s i = RT_COMPLETED \<or> tq s (cmp_queue i) = []")
  case True
  then show ?thesis using assms(2) by (auto simp: rt_completion_done_def wake_first_def split: if_splits)
next
  case False
  let ?s = "set_cmp_flag i RT_COMPLETED s"
  obtain t ts where q: "tq ?s (cmp_queue i) = t # ts" using False by (cases "tq s (cmp_queue i)") auto
  have k: "kinv ?s" and h: "is_wait_head (cmp_queue i)" using assms(1) by (simp_all add: cmp_ok_def)
  note w = rt_ipc_list_resume_eq[OF k h q]
  obtain x where "rt_current_thread (thread_resumed t ?s) = Some x" using assms(1) by (auto simp: cmp_ok_def)
  from rt_schedule_step[OF w(2) this] obtain s1 where
    s1: "rt_schedule (thread_resumed t ?s) = Some s1" "sched_only (thread_resumed t ?s) s1" by blast
  then have "s' = s1" using assms(2) False w(1) q by (simp add: rt_completion_done_def wake_first_def)
  then show ?thesis using sched_onlyD(3)[OF s1(2)] by (simp add: thread_resumed_thr)
qed

section \<open>Properties\<close>

text \<open>C16. Handing over a completion. A thread that waits for a completion that is not set is suspended,
  alone in the queue. After any number of steps that the scheduler, the clock and other threads take
  on other objects (time-outs, resuming, sleeping, semaphores, other completions), setting the
  completion makes the thread ready, and when it runs again, after any number of such steps, the call
  succeeds and the completion is clear again.\<close>

theorem completion_handover:
  assumes "cmp_ok i s" "can_block s c" "time \<noteq> 0" "time < 0x7fffffff"
    and "cmp_flag s i \<noteq> RT_COMPLETED" "tq s (cmp_queue i) = []"
  shows "\<exists>s1. rt_completion_wait i time s = Some (Blocked, s1) \<and> is_suspended s1 c \<and> tq s1 (cmp_queue i) = [c]
    \<and> (\<forall>s2. (others i c)\<^sup>*\<^sup>* s1 s2 \<longrightarrow>
        (\<exists>s3. rt_completion_done i s2 = Some s3 \<and> is_ready s3 c \<and> cmp_flag s3 i = RT_COMPLETED
          \<and> (\<forall>s4. (others i c)\<^sup>*\<^sup>* s3 s4 \<longrightarrow>
              (\<exists>s5. rt_completion_wake i c s4 = Some (Done RT_EOK, s5) \<and> cmp_flag s5 i = RT_UNCOMPLETED
                 \<and> cmp_ok i s5))))"
proof -
  from cmp_waits[OF assms] obtain s1 where
    s1: "rt_completion_wait i time s = Some (Blocked, s1)" "cmp_ok i s1" "is_suspended s1 c"
    "tq s1 (cmp_queue i) = [c]" "err (thr s1 c) = RT_EOK" by blast
  have "\<exists>s3. rt_completion_done i s2 = Some s3 \<and> is_ready s3 c \<and> cmp_flag s3 i = RT_COMPLETED
          \<and> (\<forall>s4. (others i c)\<^sup>*\<^sup>* s3 s4 \<longrightarrow>
              (\<exists>s5. rt_completion_wake i c s4 = Some (Done RT_EOK, s5) \<and> cmp_flag s5 i = RT_UNCOMPLETED
                 \<and> cmp_ok i s5))" if o: "(others i c)\<^sup>*\<^sup>* s1 s2" for s2
  proof -
    from others_steps[OF o s1(2)] s1(4,5) have
      s2: "cmp_ok i s2" "c \<in> set (tq s2 (cmp_queue i))" "err (thr s2 c) = RT_EOK" by (auto simp: cmp_view_def)
    from cmp_done_total[OF s2(1)] obtain s3 where
      s3: "rt_completion_done i s2 = Some s3" "cmp_ok i s3" "cmp_flag s3 i = RT_COMPLETED" "is_ready s3 c"
      using s2(2) by blast
    have e3: "err (thr s3 c) = RT_EOK" using cmp_done_err[OF s2(1) s3(1)] s2(3) by simp
    have "\<exists>s5. rt_completion_wake i c s4 = Some (Done RT_EOK, s5) \<and> cmp_flag s5 i = RT_UNCOMPLETED
        \<and> cmp_ok i s5" if o': "(others i c)\<^sup>*\<^sup>* s3 s4" for s4
      using others_steps[OF o' s3(2)] e3 cmp_wake_ok[of i s4]
      by (simp add: rt_completion_wake_def cmp_view_def)
    then show ?thesis using s3 by blast
  qed
  then show ?thesis using s1 by blast
qed

lemma cmp_ok_demo: "cmp_ok i demo"
  by (simp add: cmp_ok_def cmp_inv_def)

lemma cmp_flag_demo: "cmp_flag demo i = 0"
  by (simp add: demo_def)

lemma completion_handover_witness:
  "\<exists>s1 s2. rt_completion_wait 0 20 demo = Some (Blocked, s1) \<and> is_suspended s1 0
    \<and> rt_completion_done 0 s1 = Some s2 \<and> is_ready s2 0"
  using completion_handover[OF cmp_ok_demo can_block_demo, of 20 0] cmp_flag_demo[of 0]
  by (auto simp: RT_COMPLETED_def)

text \<open>C17. A completion that is set after the waiting time of a thread is over, but before this thread
  runs again, is lost: the call fails with a timeout and clears the flag, so that the next call
  waits for an event that has already happened.\<close>

theorem completion_lost_after_timeout:
  assumes "cmp_ok i s" "c \<in> set (tq s (cmp_queue i))" "ThreadTimer c \<notin> set (rt_timer_list s)"
  shows "\<exists>s1 s2 s3. rt_thread_timeout c s = Some s1 \<and> rt_completion_done i s1 = Some s2
    \<and> cmp_flag s2 i = RT_COMPLETED \<and> rt_completion_wake i c s2 = Some (Done (- RT_ETIMEOUT), s3)
    \<and> cmp_flag s3 i = RT_UNCOMPLETED \<and> tq s3 (cmp_queue i) = []"
proof -
  have k: "kinv s" "rt_current_thread s \<noteq> None" "cmp_inv i s" using assms(1) by (simp_all add: cmp_ok_def)
  have h: "is_wait_head (cmp_queue i)" by simp
  have su: "is_suspended s c" using waiting_suspended(4)[OF k(1)] assms(2) by blast
  let ?s = "thread_timed_out c s"
  have k': "kinv ?s" by (rule thread_timed_out_kinv[OF k(1) su assms(3)])
  have "rt_current_thread ?s \<noteq> None" using k(2) by (simp add: thread_timed_out_def)
  then obtain x where "rt_current_thread ?s = Some x" by auto
  from rt_schedule_step[OF k' this] obtain s1 where
    s1: "rt_schedule ?s = Some s1" "sched_only ?s s1" by blast
  have t: "rt_thread_timeout c s = Some s1" using s1(1) rt_thread_timeout_eq[OF k(1) su] by simp
  have ok1: "cmp_ok i s1" using completion.timeout_keeps[OF k su assms(3) t] by (simp add: cmp_ok_def)
  have "err (thr s1 c) = - RT_ETIMEOUT"
    using sched_onlyD(3)[OF s1(2)] by (simp add: thread_timed_out_def insert_thread_thr)
  moreover from cmp_done_total[OF ok1] obtain s2 where
    s2: "rt_completion_done i s1 = Some s2" "cmp_flag s2 i = RT_COMPLETED" "tq s2 (cmp_queue i) = []" by blast
  ultimately have "rt_completion_wake i c s2 = Some (Done (- RT_ETIMEOUT), set_cmp_flag i RT_UNCOMPLETED s2)"
    using cmp_done_err[OF ok1 s2(1), of c] by (simp add: rt_completion_wake_def)
  then show ?thesis using t s2 by auto
qed

lemma completion_lost_witness:
  "\<exists>s s0 s1 s2 s3. rt_completion_wait 0 20 demo = Some (Blocked, s) \<and> s0 = rt_timer_remove (ThreadTimer 0) s
    \<and> rt_thread_timeout 0 s0 = Some s1 \<and> rt_completion_done 0 s1 = Some s2
    \<and> rt_completion_wake 0 0 s2 = Some (Done (- RT_ETIMEOUT), s3) \<and> cmp_flag s3 0 = RT_UNCOMPLETED"
proof -
  have f: "cmp_flag demo 0 \<noteq> RT_COMPLETED" "tq demo (cmp_queue 0) = []"
    using cmp_flag_demo[of 0] by (simp_all add: RT_COMPLETED_def)
  from cmp_waits[OF cmp_ok_demo can_block_demo _ _ f, of 20] obtain s where
    s: "rt_completion_wait 0 20 demo = Some (Blocked, s)" "cmp_ok 0 s" "tq s (cmp_queue 0) = [0]" by auto
  let ?s = "rt_timer_remove (ThreadTimer 0) s"
  have "cmp_ok 0 ?s"
    using s(2) kinv_timer_remove[of s "ThreadTimer 0"] by (simp add: cmp_ok_def cmp_inv_def rt_timer_remove_def)
  moreover have "0 \<in> set (tq ?s (cmp_queue 0))" "ThreadTimer 0 \<notin> set (rt_timer_list ?s)"
    using s(3) by (simp_all add: rt_timer_remove_def)
  ultimately show ?thesis using completion_lost_after_timeout[of 0 ?s 0] s(1) by blast
qed

end
