(* ===== verification/RT_Device.thy ===== *)
theory RT_Device
  imports RT_Object_Run RT_Completion
begin

text \<open>The device manager of src/device.c: devices are kernel objects with functions of their drivers,
  found by name, initialised when they are first opened and counted while they are open.\<close>

section \<open>Operations\<close>

definition RT_DEVICE_FLAG_STANDALONE :: rt_uint16 where "RT_DEVICE_FLAG_STANDALONE = 0x008"
definition RT_DEVICE_FLAG_ACTIVATED :: rt_uint16 where "RT_DEVICE_FLAG_ACTIVATED = 0x010"
definition RT_DEVICE_OFLAG_CLOSE :: rt_uint16 where "RT_DEVICE_OFLAG_CLOSE = 0x000"
definition RT_DEVICE_OFLAG_OPEN :: rt_uint16 where "RT_DEVICE_OFLAG_OPEN = 0x008"
definition RT_DEVICE_OFLAG_MASK :: rt_uint16 where "RT_DEVICE_OFLAG_MASK = 0xf0f"

lemmas rt_device_flags [flag_simps] =
  RT_DEVICE_FLAG_STANDALONE_def RT_DEVICE_FLAG_ACTIVATED_def RT_DEVICE_OFLAG_CLOSE_def
  RT_DEVICE_OFLAG_OPEN_def RT_DEVICE_OFLAG_MASK_def

text \<open>The functions of the drivers are code outside of the device manager: an argument of the
  operations that call them. Each takes the number that names the function and the device.\<close>

record device_ops =
  op_init :: "nat \<Rightarrow> nat \<Rightarrow> kernel \<Rightarrow> (rt_err \<times> kernel) option"
  op_open :: "nat \<Rightarrow> nat \<Rightarrow> rt_uint16 \<Rightarrow> kernel \<Rightarrow> (rt_err \<times> kernel) option"
  op_close :: "nat \<Rightarrow> nat \<Rightarrow> kernel \<Rightarrow> (rt_err \<times> kernel) option"
  op_read :: "nat \<Rightarrow> nat \<Rightarrow> int \<Rightarrow> rt_uint32 \<Rightarrow> rt_size \<Rightarrow> kernel \<Rightarrow> (rt_size \<times> kernel) option"
  op_write :: "nat \<Rightarrow> nat \<Rightarrow> int \<Rightarrow> rt_uint32 \<Rightarrow> rt_size \<Rightarrow> kernel \<Rightarrow> (rt_size \<times> kernel) option"
  op_control :: "nat \<Rightarrow> nat \<Rightarrow> int \<Rightarrow> rt_uint32 \<Rightarrow> kernel \<Rightarrow> (rt_err \<times> kernel) option"

abbreviation dev_of :: "kernel \<Rightarrow> nat \<Rightarrow> rt_device" where
  "dev_of s i \<equiv> devs (drv s) i"

definition is_device :: "nat \<Rightarrow> kernel \<Rightarrow> bool" where
  "is_device i s = (rt_object_get_type (ODevice i) s = class_code RT_Object_Class_Device)"

definition rt_device_find :: "rt_uint8 list \<Rightarrow> kernel \<Rightarrow> (objref option \<times> kernel) option" where
  "rt_device_find nm s = do {
     let s = (if rt_thread_self s \<noteq> None then rt_enter_critical s else s);
     info \<leftarrow> rt_object_get_information (class_code RT_Object_Class_Device);
     let found = find_name s nm (obj_list s info);
     s \<leftarrow> (if rt_thread_self s \<noteq> None then rt_exit_critical s else Some s);
     Some (found, s)
   }"

definition rt_device_register ::
  "nat option \<Rightarrow> rt_uint8 list \<Rightarrow> rt_uint16 \<Rightarrow> kernel \<Rightarrow> (rt_err \<times> kernel) option" where
  "rt_device_register dev nm flags s =
    (case dev of
       None \<Rightarrow> Some (- RT_ERROR, s)
     | Some i \<Rightarrow> do {
         (found, s) \<leftarrow> rt_device_find nm s;
         (if found \<noteq> None then Some (- RT_ERROR, s)
          else do {
            s \<leftarrow> rt_object_init (ODevice i) RT_Object_Class_Device nm s;
            Some (RT_EOK, upd_dev i (\<lambda>d. d\<lparr>dev_flag := flags, ref_count := 0, open_flag := 0\<rparr>) s)
          })
       })"

definition rt_device_unregister :: "nat \<Rightarrow> kernel \<Rightarrow> (rt_err \<times> kernel) option" where
  "rt_device_unregister i s = do {
     RT_ASSERT (is_device i s);
     RT_ASSERT (rt_object_is_systemobject (ODevice i) s);
     Some (RT_EOK, rt_object_detach (ODevice i) s)
   }"

definition rt_device_init_all :: rt_err where
  "rt_device_init_all = RT_EOK"

text \<open>\<^verbatim>\<open>malloc\<close> answers \<^verbatim>\<open>rt_malloc\<close>: the device in the memory of the size asked for, or nothing.
  \<^verbatim>\<open>sizeof_device\<close> is the size of the structure on the target.\<close>

definition zero_device :: rt_device where
  "zero_device = \<lparr>dev_class = 0, dev_flag = 0, open_flag = 0, ref_count = 0, device_id = 0, rx_indicate = None,
     tx_complete = None, dev_init = None, dev_open = None, dev_close = None, dev_read = None, dev_write = None,
     dev_control = None\<rparr>"

definition rt_device_create ::
  "(rt_size \<Rightarrow> nat option) \<Rightarrow> rt_size \<Rightarrow> nat \<Rightarrow> rt_uint32 \<Rightarrow> kernel \<Rightarrow> nat option \<times> kernel" where
  "rt_device_create malloc sizeof_device type attach_size s =
    (case malloc (RT_ALIGN sizeof_device 4 + RT_ALIGN attach_size 4) of
       None \<Rightarrow> (None, s)
     | Some i \<Rightarrow>
         (let s = upd_obj (ODevice i) (\<lambda>_. \<lparr>obj_name = replicate RT_NAME_MAX 0, obj_type = 0, obj_flag = 0\<rparr>) s;
              s = upd_dev i (\<lambda>_. zero_device) s
          in (Some i, upd_dev i (\<lambda>d. d\<lparr>dev_class := type\<rparr>) s)))"

definition rt_device_destroy :: "nat \<Rightarrow> kernel \<Rightarrow> kernel option" where
  "rt_device_destroy i s = do {
     RT_ASSERT (is_device i s);
     RT_ASSERT (\<not> rt_object_is_systemobject (ODevice i) s);
     let s = rt_object_detach (ODevice i) s;
     Some (s\<lparr>freed_objs := ODevice i # freed_objs s\<rparr>)
   }"

text \<open>Setting a flag is \<^verbatim>\<open>|=\<close> on the word after the driver's function returned.\<close>

definition dev_activate :: "nat \<Rightarrow> kernel \<Rightarrow> kernel" where
  "dev_activate i = upd_dev i (\<lambda>d. d\<lparr>dev_flag := dev_flag d OR RT_DEVICE_FLAG_ACTIVATED\<rparr>)"

definition dev_activated :: "nat \<Rightarrow> kernel \<Rightarrow> bool" where
  "dev_activated i s = (dev_flag (dev_of s i) AND RT_DEVICE_FLAG_ACTIVATED \<noteq> 0)"

definition rt_device_init :: "device_ops \<Rightarrow> nat \<Rightarrow> kernel \<Rightarrow> (rt_err \<times> kernel) option" where
  "rt_device_init ops i s =
    (case dev_init (dev_of s i) of
       None \<Rightarrow> Some (RT_EOK, s)
     | Some f \<Rightarrow>
         if \<not> dev_activated i s then do {
           (result, s) \<leftarrow> op_init ops f i s;
           Some (result, if result \<noteq> RT_EOK then s else dev_activate i s)
         }
         else Some (RT_EOK, s))"

text \<open>The part of \<^verbatim>\<open>rt_device_open\<close> that initialises the device, and the part that opens it.\<close>

definition dev_open_init :: "device_ops \<Rightarrow> nat \<Rightarrow> kernel \<Rightarrow> (rt_err \<times> kernel) option" where
  "dev_open_init ops i s =
    (if \<not> dev_activated i s then
       (case dev_init (dev_of s i) of
          None \<Rightarrow> Some (RT_EOK, dev_activate i s)
        | Some f \<Rightarrow> do {
            (result, s) \<leftarrow> op_init ops f i s;
            Some (result, if result \<noteq> RT_EOK then s else dev_activate i s)
          })
     else Some (RT_EOK, s))"

definition dev_open_call :: "device_ops \<Rightarrow> nat \<Rightarrow> rt_uint16 \<Rightarrow> kernel \<Rightarrow> (rt_err \<times> kernel) option" where
  "dev_open_call ops i oflag s = do {
     (result, s) \<leftarrow> (case dev_open (dev_of s i) of
         Some f \<Rightarrow> op_open ops f i oflag s
       | None \<Rightarrow> Some (RT_EOK, upd_dev i (\<lambda>d. d\<lparr>open_flag := oflag AND RT_DEVICE_OFLAG_MASK\<rparr>) s));
     (if result = RT_EOK \<or> result = - RT_ENOSYS then do {
        let s = upd_dev i (\<lambda>d. d\<lparr>open_flag := open_flag d OR RT_DEVICE_OFLAG_OPEN,
                                ref_count := ref_count d + 1\<rparr>) s;
        RT_ASSERT (ref_count (dev_of s i) \<noteq> 0);
        Some (result, s)
      } else Some (result, s))
   }"

definition rt_device_open :: "device_ops \<Rightarrow> nat \<Rightarrow> rt_uint16 \<Rightarrow> kernel \<Rightarrow> (rt_err \<times> kernel) option" where
  "rt_device_open ops i oflag s = do {
     RT_ASSERT (is_device i s);
     (result, s) \<leftarrow> dev_open_init ops i s;
     (if result \<noteq> RT_EOK then Some (result, s)
      else if dev_flag (dev_of s i) AND RT_DEVICE_FLAG_STANDALONE \<noteq> 0
              \<and> open_flag (dev_of s i) AND RT_DEVICE_OFLAG_OPEN \<noteq> 0
      then Some (- RT_EBUSY, s)
      else dev_open_call ops i oflag s)
   }"

definition rt_device_close :: "device_ops \<Rightarrow> nat \<Rightarrow> kernel \<Rightarrow> (rt_err \<times> kernel) option" where
  "rt_device_close ops i s = do {
     RT_ASSERT (is_device i s);
     (if ref_count (dev_of s i) = 0 then Some (- RT_ERROR, s)
      else do {
        let s = upd_dev i (\<lambda>d. d\<lparr>ref_count := ref_count d - 1\<rparr>) s;
        (if ref_count (dev_of s i) \<noteq> 0 then Some (RT_EOK, s)
         else do {
           (result, s) \<leftarrow> (case dev_close (dev_of s i) of
               Some f \<Rightarrow> op_close ops f i s | None \<Rightarrow> Some (RT_EOK, s));
           Some (result, if result = RT_EOK \<or> result = - RT_ENOSYS
             then upd_dev i (\<lambda>d. d\<lparr>open_flag := RT_DEVICE_OFLAG_CLOSE\<rparr>) s else s)
         })
      })
   }"

definition rt_device_read ::
  "device_ops \<Rightarrow> nat \<Rightarrow> int \<Rightarrow> rt_uint32 \<Rightarrow> rt_size \<Rightarrow> kernel \<Rightarrow> (rt_size \<times> kernel) option" where
  "rt_device_read ops i pos buffer sz s = do {
     RT_ASSERT (is_device i s);
     (if ref_count (dev_of s i) = 0 then Some (0, rt_set_errno (- RT_ERROR) s)
      else case dev_read (dev_of s i) of
             Some f \<Rightarrow> op_read ops f i pos buffer sz s
           | None \<Rightarrow> Some (0, rt_set_errno (- RT_ENOSYS) s))
   }"

definition rt_device_write ::
  "device_ops \<Rightarrow> nat \<Rightarrow> int \<Rightarrow> rt_uint32 \<Rightarrow> rt_size \<Rightarrow> kernel \<Rightarrow> (rt_size \<times> kernel) option" where
  "rt_device_write ops i pos buffer sz s = do {
     RT_ASSERT (is_device i s);
     (if ref_count (dev_of s i) = 0 then Some (0, rt_set_errno (- RT_ERROR) s)
      else case dev_write (dev_of s i) of
             Some f \<Rightarrow> op_write ops f i pos buffer sz s
           | None \<Rightarrow> Some (0, rt_set_errno (- RT_ENOSYS) s))
   }"

definition rt_device_control ::
  "device_ops \<Rightarrow> nat \<Rightarrow> int \<Rightarrow> rt_uint32 \<Rightarrow> kernel \<Rightarrow> (rt_err \<times> kernel) option" where
  "rt_device_control ops i cmd arg s = do {
     RT_ASSERT (is_device i s);
     (case dev_control (dev_of s i) of
        Some f \<Rightarrow> op_control ops f i cmd arg s
      | None \<Rightarrow> Some (- RT_ENOSYS, s))
   }"

definition rt_device_set_rx_indicate :: "nat \<Rightarrow> nat option \<Rightarrow> kernel \<Rightarrow> (rt_err \<times> kernel) option" where
  "rt_device_set_rx_indicate i rx_ind s = do {
     RT_ASSERT (is_device i s);
     Some (RT_EOK, upd_dev i (\<lambda>d. d\<lparr>rx_indicate := rx_ind\<rparr>) s)
   }"

definition rt_device_set_tx_complete :: "nat \<Rightarrow> nat option \<Rightarrow> kernel \<Rightarrow> (rt_err \<times> kernel) option" where
  "rt_device_set_tx_complete i tx_done s = do {
     RT_ASSERT (is_device i s);
     Some (RT_EOK, upd_dev i (\<lambda>d. d\<lparr>tx_complete := tx_done\<rparr>) s)
   }"

end
