(* ===== verification/RT_Device_Run.thy ===== *)
theory RT_Device_Run
  imports RT_Device
begin

text \<open>The properties of the device manager: registering and finding devices, the counting of opens
  over runs, and what drivers and callers can do to it.\<close>

section \<open>What the manager sees of a device\<close>

definition dev_view :: "nat \<Rightarrow> kernel \<Rightarrow> bool \<times> rt_uint8 \<times> bool \<times> bool" where
  "dev_view i s = (is_device i s, ref_count (dev_of s i),
     open_flag (dev_of s i) AND RT_DEVICE_OFLAG_OPEN \<noteq> 0, dev_flag (dev_of s i) AND RT_DEVICE_FLAG_STANDALONE \<noteq> 0)"

abbreviation dev_standalone :: "nat \<Rightarrow> kernel \<Rightarrow> bool" where
  "dev_standalone i s \<equiv> dev_flag (dev_of s i) AND RT_DEVICE_FLAG_STANDALONE \<noteq> 0"

abbreviation dev_open_bit :: "nat \<Rightarrow> kernel \<Rightarrow> bool" where
  "dev_open_bit i s \<equiv> open_flag (dev_of s i) AND RT_DEVICE_OFLAG_OPEN \<noteq> 0"

text \<open>What the functions of a driver do to their device. None of them writes the count, the object
  type or the standalone bit. The functions for opening and closing may write \<^verbatim>\<open>open_flag\<close> as they
  like, as those of components/drivers/serial/serial.c, components/drivers/can/can.c and
  components/drivers/audio/audio.c do; the others do not clear its open bit. Every function may
  fail, with any error.\<close>

definition dev_kept :: "nat \<Rightarrow> kernel \<Rightarrow> kernel \<Rightarrow> bool" where
  "dev_kept i s s' =
    (is_device i s' = is_device i s \<and> ref_count (dev_of s' i) = ref_count (dev_of s i)
     \<and> dev_standalone i s' = dev_standalone i s)"

definition dev_bit_kept :: "nat \<Rightarrow> kernel \<Rightarrow> kernel \<Rightarrow> bool" where
  "dev_bit_kept i s s' = (dev_kept i s s' \<and> (dev_open_bit i s \<longrightarrow> dev_open_bit i s'))"

definition driver_ok :: "device_ops \<Rightarrow> nat \<Rightarrow> bool" where
  "driver_ok ops i =
    (\<forall>f s s'. is_device i s \<longrightarrow>
       (\<forall>r. op_init ops f i s = Some (r, s') \<longrightarrow> dev_bit_kept i s s')
     \<and> (\<forall>r oflag. op_open ops f i oflag s = Some (r, s') \<longrightarrow> dev_kept i s s')
     \<and> (\<forall>r. op_close ops f i s = Some (r, s') \<longrightarrow> dev_kept i s s')
     \<and> (\<forall>r pos b n. op_read ops f i pos b n s = Some (r, s') \<longrightarrow> dev_bit_kept i s s')
     \<and> (\<forall>r pos b n. op_write ops f i pos b n s = Some (r, s') \<longrightarrow> dev_bit_kept i s s')
     \<and> (\<forall>r cmd a. op_control ops f i cmd a s = Some (r, s') \<longrightarrow> dev_bit_kept i s s'))"

lemma driver_okD:
  assumes "driver_ok ops i" "is_device i s"
  shows "op_init ops f i s = Some (r, s') \<Longrightarrow> dev_bit_kept i s s'"
    "op_open ops f i oflag s = Some (r, s') \<Longrightarrow> dev_kept i s s'"
    "op_close ops f i s = Some (r, s') \<Longrightarrow> dev_kept i s s'"
    "op_read ops f i pos b n s = Some (x, s') \<Longrightarrow> dev_bit_kept i s s'"
    "op_write ops f i pos b n s = Some (x, s') \<Longrightarrow> dev_bit_kept i s s'"
    "op_control ops f i cmd a s = Some (r, s') \<Longrightarrow> dev_bit_kept i s s'"
  using assms unfolding driver_ok_def by blast+

text \<open>A standalone device is open at most once, and has its open bit while it is open. (A device that
  is not standalone can lose the bit when a second open fails in the driver.)\<close>

definition view_ok :: "bool \<times> rt_uint8 \<times> bool \<times> bool \<Rightarrow> bool" where
  "view_ok v = (case v of (d, n, op, alone) \<Rightarrow> d \<and> (alone \<longrightarrow> n \<le> 1 \<and> (n \<noteq> 0 \<longrightarrow> op)))"

abbreviation dev_ok :: "nat \<Rightarrow> kernel \<Rightarrow> bool" where
  "dev_ok i s \<equiv> view_ok (dev_view i s)"

lemma dev_ok_bit_kept:
  assumes "dev_bit_kept i s s'" "dev_ok i s"
  shows "dev_ok i s'" "ref_count (dev_of s' i) = ref_count (dev_of s i)"
  using assms by (auto simp: dev_bit_kept_def dev_kept_def view_ok_def dev_view_def)

lemma dev_kept_refl [simp]: "dev_kept i s s" "dev_bit_kept i s s"
  by (simp_all add: dev_kept_def dev_bit_kept_def)

lemma dev_bit_kept_trans: "dev_bit_kept i s s' \<Longrightarrow> dev_bit_kept i s' s'' \<Longrightarrow> dev_bit_kept i s s''"
  by (auto simp: dev_bit_kept_def dev_kept_def)

lemma dev_view_bit_kept: "dev_view i s' = dev_view i s \<Longrightarrow> dev_bit_kept i s s'"
  by (simp add: dev_view_def dev_bit_kept_def dev_kept_def)

lemma dev_upd [simp]: "dev_of (upd_dev i f s) i = f (dev_of s i)" "is_device i (upd_dev i f s) = is_device i s"
  by (simp_all add: upd_dev_def is_device_def rt_object_get_type_def)

lemma dev_view_upd [simp]:
  "dev_view i (upd_dev i f s) = (is_device i s, ref_count (f (dev_of s i)),
     open_flag (f (dev_of s i)) AND RT_DEVICE_OFLAG_OPEN \<noteq> 0,
     dev_flag (f (dev_of s i)) AND RT_DEVICE_FLAG_STANDALONE \<noteq> 0)"
  by (simp add: dev_view_def)

lemma dev_activate_view [simp]: "dev_view i (dev_activate i s) = dev_view i s"
  unfolding dev_activate_def dev_view_upd
  by (simp add: dev_view_def flag_simps bit.conj_disj_distrib2)

lemma dev_activate_frame [simp]: "is_device i (dev_activate i s) = is_device i s"
  by (simp add: dev_activate_def)

lemma is_device_view: "dev_ok i s \<Longrightarrow> is_device i s"
  by (simp add: view_ok_def dev_view_def)

lemma dev_view_kept: "ipc_kept s s' \<Longrightarrow> dev_view i s' = dev_view i s"
  using ipc_keptD(7,14)[of s s'] by (simp add: dev_view_def is_device_def)

lemma dev_view_same: "ipc_same s s' \<Longrightarrow> dev_view i s' = dev_view i s"
  using ipc_sameD(10,12)[of s s'] by (simp add: dev_view_def is_device_def)

section \<open>The operations\<close>

lemma open_init_cases:
  assumes dr: "driver_ok ops i" and d: "is_device i s" and r: "dev_open_init ops i s = Some (e, s')"
  shows "dev_bit_kept i s s'"
proof (cases "dev_activated i s")
  case True
  then show ?thesis using r by (simp add: dev_open_init_def)
next
  case False
  note a = dev_view_bit_kept[OF dev_activate_view]
  show ?thesis
  proof (cases "dev_init (dev_of s i)")
    case None
    then show ?thesis using r False a by (auto simp: dev_open_init_def)
  next
    case (Some f)
    then obtain s1 where "op_init ops f i s = Some (e, s1)" "s' = s1 \<or> s' = dev_activate i s1"
      using r False by (auto simp: dev_open_init_def bind_Some_iff split: if_splits)
    then show ?thesis using driver_okD(1)[OF dr d] a dev_bit_kept_trans by blast
  qed
qed

lemma word8_Suc:
  fixes n :: "8 word"
  assumes "n + 1 \<noteq> 0"
  shows "unat (n + 1) = Suc (unat n)"
  using assms unatSuc[of n] by (simp add: add.commute)

lemma open_call_cases:
  assumes dr: "driver_ok ops i" and ok: "dev_ok i s" and r: "dev_open_call ops i oflag s = Some (e, s')"
    and st: "dev_standalone i s \<longrightarrow> \<not> dev_open_bit i s"
  shows "dev_ok i s' \<and> unat (ref_count (dev_of s' i))
      = unat (ref_count (dev_of s i)) + (if e = RT_EOK \<or> e = - RT_ENOSYS then 1 else 0)
    \<and> (e = RT_EOK \<or> e = - RT_ENOSYS \<longrightarrow> dev_open_bit i s')"
proof -
  have d: "is_device i s" using is_device_view[OF ok] .
  from r obtain s1 where
    s1: "(case dev_open (dev_of s i) of Some f \<Rightarrow> op_open ops f i oflag s
        | None \<Rightarrow> Some (RT_EOK, upd_dev i (\<lambda>d. d\<lparr>open_flag := oflag AND RT_DEVICE_OFLAG_MASK\<rparr>) s)) = Some (e, s1)"
    and r1: "(if e = RT_EOK \<or> e = - RT_ENOSYS then
        (let s = upd_dev i (\<lambda>d. d\<lparr>open_flag := open_flag d OR RT_DEVICE_OFLAG_OPEN, ref_count := ref_count d + 1\<rparr>) s1
         in RT_ASSERT (ref_count (dev_of s i) \<noteq> 0) \<bind> (\<lambda>_. Some (e, s))) else Some (e, s1)) = Some (e, s')"
    by (fastforce simp: dev_open_call_def bind_Some_iff split: if_splits)
  have "dev_kept i s s1"
  proof (cases "dev_open (dev_of s i)")
    case None
    then have "s1 = upd_dev i (\<lambda>d. d\<lparr>open_flag := oflag AND RT_DEVICE_OFLAG_MASK\<rparr>) s" using s1 by simp
    then show ?thesis by (simp add: dev_kept_def)
  next
    case (Some f)
    then show ?thesis using s1 driver_okD(2)[OF dr d] by simp
  qed
  then have v1: "is_device i s1" "ref_count (dev_of s1 i) = ref_count (dev_of s i)"
    "dev_standalone i s1 = dev_standalone i s" using d by (simp_all add: dev_kept_def)
  have n0: "ref_count (dev_of s i) = 0" if "dev_standalone i s"
    using that st ok by (auto simp: view_ok_def dev_view_def)
  show ?thesis
  proof (cases "e = RT_EOK \<or> e = - RT_ENOSYS")
    case False
    then have "s' = s1" using r1 by simp
    then show ?thesis using False v1 n0 by (auto simp: view_ok_def dev_view_def)
  next
    case True
    let ?s = "upd_dev i (\<lambda>d. d\<lparr>open_flag := open_flag d OR RT_DEVICE_OFLAG_OPEN, ref_count := ref_count d + 1\<rparr>) s1"
    have s': "s' = ?s" "ref_count (dev_of s i) + 1 \<noteq> 0" using r1 True v1(2) by (auto simp: Let_def)
    have op: "(x OR RT_DEVICE_OFLAG_OPEN) AND RT_DEVICE_OFLAG_OPEN \<noteq> 0" for x
      by (simp add: RT_DEVICE_OFLAG_OPEN_def bit.conj_disj_distrib2)
    have "dev_ok i s'" using s' v1 op n0 by (auto simp: view_ok_def)
    moreover have "unat (ref_count (dev_of s' i)) = Suc (unat (ref_count (dev_of s i)))"
      using s' v1(2) word8_Suc by simp
    ultimately show ?thesis using True s'(1) op by simp
  qed
qed

text \<open>When a call of \<^verbatim>\<open>rt_device_open\<close> in the state s with the result e opened the device: the result
  \<^verbatim>\<open>-RT_ENOSYS\<close> can also be the error of the initialisation.\<close>

definition dev_opened :: "device_ops \<Rightarrow> nat \<Rightarrow> kernel \<Rightarrow> rt_err \<Rightarrow> bool" where
  "dev_opened ops i s e =
    ((e = RT_EOK \<or> e = - RT_ENOSYS)
     \<and> (case dev_open_init ops i s of Some (r, s1) \<Rightarrow> r = RT_EOK | None \<Rightarrow> False))"

lemma device_open_cases:
  assumes dr: "driver_ok ops i" and ok: "dev_ok i s" and r: "rt_device_open ops i oflag s = Some (e, s')"
  shows "dev_ok i s' \<and> unat (ref_count (dev_of s' i))
      = unat (ref_count (dev_of s i)) + (if dev_opened ops i s e then 1 else 0)
    \<and> (dev_opened ops i s e \<longrightarrow> dev_open_bit i s')"
proof -
  from r obtain e1 s1 where
    s1: "dev_open_init ops i s = Some (e1, s1)"
    and r1: "(if e1 \<noteq> RT_EOK then Some (e1, s1)
      else if dev_standalone i s1 \<and> dev_open_bit i s1
      then Some (- RT_EBUSY, s1) else dev_open_call ops i oflag s1) = Some (e, s')"
    by (auto simp: rt_device_open_def bind_Some_iff)
  note ok1 = dev_ok_bit_kept[OF open_init_cases[OF dr is_device_view[OF ok] s1] ok]
  have op: "dev_opened ops i s e = ((e = RT_EOK \<or> e = - RT_ENOSYS) \<and> e1 = RT_EOK)"
    by (simp add: dev_opened_def s1)
  have ne: "- RT_EBUSY \<noteq> RT_EOK" "- RT_EBUSY \<noteq> - RT_ENOSYS" by (simp_all add: RT_EBUSY_def RT_EOK_def RT_ENOSYS_def)
  show ?thesis
    using r1 open_call_cases[OF dr ok1(1), of oflag e s'] ok1 ne unfolding op by (auto split: if_splits)
qed

lemma device_close_cases:
  assumes dr: "driver_ok ops i" and ok: "dev_ok i s" and r: "rt_device_close ops i s = Some (e, s')"
  shows "dev_ok i s' \<and> unat (ref_count (dev_of s i))
      = unat (ref_count (dev_of s' i)) + (if ref_count (dev_of s i) = 0 then 0 else 1)
    \<and> (ref_count (dev_of s i) = 1 \<and> (e = RT_EOK \<or> e = - RT_ENOSYS)
         \<longrightarrow> open_flag (dev_of s' i) = RT_DEVICE_OFLAG_CLOSE)"
proof (cases "ref_count (dev_of s i) = 0")
  case True
  then show ?thesis using r ok by (auto simp: rt_device_close_def bind_Some_iff)
next
  case False
  have d: "is_device i s" using is_device_view[OF ok] .
  let ?s = "upd_dev i (\<lambda>d. d\<lparr>ref_count := ref_count d - 1\<rparr>) s"
  have u: "unat (ref_count (dev_of s i)) = Suc (unat (ref_count (dev_of s i) - 1))"
    using False by (simp add: unat_minus_one unat_gt_0)
  have ds: "is_device i ?s" using d by simp
  note dc = driver_okD(3)[OF dr ds]
  show ?thesis
  proof (cases "ref_count (dev_of s i) = 1")
    case False
    have n: "ref_count (dev_of s i) - 1 \<noteq> 0" using False by simp
    then have s': "s' = ?s" using r d \<open>ref_count (dev_of s i) \<noteq> 0\<close> by (auto simp: rt_device_close_def)
    have "\<not> ref_count (dev_of s i) \<le> 1"
      using False u by (auto simp: word_le_nat_alt word_unat_eq_iff)
    then have "dev_ok i ?s" using ok n \<open>ref_count (dev_of s i) \<noteq> 0\<close> by (simp add: view_ok_def dev_view_def)
    then show ?thesis using s' u False \<open>ref_count (dev_of s i) \<noteq> 0\<close> by simp
  next
    case True
    then obtain s1 where
      s1: "(case dev_close (dev_of ?s i) of Some f \<Rightarrow> op_close ops f i ?s | None \<Rightarrow> Some (RT_EOK, ?s)) = Some (e, s1)"
      and s': "s' = (if e = RT_EOK \<or> e = - RT_ENOSYS
        then upd_dev i (\<lambda>d. d\<lparr>open_flag := RT_DEVICE_OFLAG_CLOSE\<rparr>) s1 else s1)"
      using r d by (auto simp: rt_device_close_def bind_Some_iff Let_def)
    have "dev_kept i ?s s1" using s1 dc by (auto split: option.splits)
    then have "is_device i s1" "ref_count (dev_of s1 i) = 0" using d True by (simp_all add: dev_kept_def)
    then show ?thesis using s' u True by (auto simp: view_ok_def dev_view_def)
  qed
qed

section \<open>Runs\<close>

text \<open>\<^verbatim>\<open>dev_run ops i s0 n m s\<close>: from s0 to s, n calls opened device i and m calls of
  \<^verbatim>\<open>rt_device_close\<close> found it open.\<close>

inductive dev_run :: "device_ops \<Rightarrow> nat \<Rightarrow> kernel \<Rightarrow> nat \<Rightarrow> nat \<Rightarrow> kernel \<Rightarrow> bool" for ops i s0 where
  d_start: "dev_run ops i s0 0 0 s0"
| d_open: "dev_run ops i s0 n m s \<Longrightarrow> rt_device_open ops i oflag s = Some (e, s')
    \<Longrightarrow> dev_run ops i s0 (n + (if dev_opened ops i s e then 1 else 0)) m s'"
| d_close: "dev_run ops i s0 n m s \<Longrightarrow> rt_device_close ops i s = Some (e, s')
    \<Longrightarrow> dev_run ops i s0 n (m + (if ref_count (dev_of s i) = 0 then 0 else 1)) s'"
| d_init: "dev_run ops i s0 n m s \<Longrightarrow> rt_device_init ops i s = Some (e, s') \<Longrightarrow> dev_run ops i s0 n m s'"
| d_read: "dev_run ops i s0 n m s \<Longrightarrow> rt_device_read ops i pos b k s = Some (x, s') \<Longrightarrow> dev_run ops i s0 n m s'"
| d_write: "dev_run ops i s0 n m s \<Longrightarrow> rt_device_write ops i pos b k s = Some (x, s') \<Longrightarrow> dev_run ops i s0 n m s'"
| d_control: "dev_run ops i s0 n m s \<Longrightarrow> rt_device_control ops i cmd a s = Some (e, s') \<Longrightarrow> dev_run ops i s0 n m s'"
| d_rx: "dev_run ops i s0 n m s \<Longrightarrow> rt_device_set_rx_indicate i f s = Some (e, s') \<Longrightarrow> dev_run ops i s0 n m s'"
| d_tx: "dev_run ops i s0 n m s \<Longrightarrow> rt_device_set_tx_complete i f s = Some (e, s') \<Longrightarrow> dev_run ops i s0 n m s'"
| d_other: "dev_run ops i s0 n m s \<Longrightarrow> ipc_kept s s' \<or> ipc_same s s' \<Longrightarrow> dev_run ops i s0 n m s'"

lemma dev_view_errno [simp]: "dev_view i (rt_set_errno e s) = dev_view i s"
proof -
  have "drv (rt_set_errno e s) = drv s" by (simp add: rt_set_errno_def split: option.split)
  then show ?thesis by (simp add: dev_view_def is_device_def)
qed

lemma dev_init_kept:
  assumes "driver_ok ops i" "is_device i s" and r: "rt_device_init ops i s = Some (e, s')"
  shows "dev_bit_kept i s s'"
proof (cases "dev_init (dev_of s i)")
  case None
  then show ?thesis using r by (simp add: rt_device_init_def)
next
  case (Some f)
  show ?thesis
  proof (cases "dev_activated i s")
    case True
    then show ?thesis using r Some by (simp add: rt_device_init_def)
  next
    case False
    then obtain s1 where "op_init ops f i s = Some (e, s1)" "s' = s1 \<or> s' = dev_activate i s1"
      using r Some by (auto simp: rt_device_init_def bind_Some_iff split: if_splits)
    then show ?thesis
      using driver_okD(1)[OF assms(1,2)] dev_view_bit_kept[OF dev_activate_view] dev_bit_kept_trans by blast
  qed
qed

lemma dev_io_kept:
  assumes "driver_ok ops i" "is_device i s"
  shows "rt_device_read ops i pos b k s = Some (x, s') \<Longrightarrow> dev_bit_kept i s s'"
    "rt_device_write ops i pos b k s = Some (x, s') \<Longrightarrow> dev_bit_kept i s s'"
    "rt_device_control ops i cmd a s = Some (e, s') \<Longrightarrow> dev_bit_kept i s s'"
proof -
  note D = driver_okD(4-6)[OF assms] and E = dev_view_bit_kept[OF dev_view_errno]
  show "rt_device_read ops i pos b k s = Some (x, s') \<Longrightarrow> dev_bit_kept i s s'"
    using D(1) E by (auto simp: rt_device_read_def split: if_splits option.splits)
  show "rt_device_write ops i pos b k s = Some (x, s') \<Longrightarrow> dev_bit_kept i s s'"
    using D(2) E by (auto simp: rt_device_write_def split: if_splits option.splits)
  show "rt_device_control ops i cmd a s = Some (e, s') \<Longrightarrow> dev_bit_kept i s s'"
    using D(3) by (auto simp: rt_device_control_def split: if_splits option.splits)
qed

lemma dev_view_callbacks:
  "rt_device_set_rx_indicate i f s = Some (e, s') \<Longrightarrow> dev_view i s' = dev_view i s"
  "rt_device_set_tx_complete i f s = Some (e, s') \<Longrightarrow> dev_view i s' = dev_view i s"
  by (auto simp: rt_device_set_rx_indicate_def rt_device_set_tx_complete_def dev_view_def)

lemma dev_balance_kept:
  assumes "dev_ok i s \<and> k + n = unat (ref_count (dev_of s i)) + m" "dev_bit_kept i s s'"
  shows "dev_ok i s' \<and> k + n = unat (ref_count (dev_of s' i)) + m"
  using assms(1) dev_ok_bit_kept[OF assms(2)] by simp

lemma dev_run_keeps:
  assumes "dev_run ops i s0 n m s" "driver_ok ops i" "dev_ok i s0"
  shows "dev_ok i s \<and> unat (ref_count (dev_of s0 i)) + n = unat (ref_count (dev_of s i)) + m"
  using assms
proof (induction rule: dev_run.induct)
  case d_start
  then show ?case by simp
next
  case (d_open n m s oflag e s')
  note ih = d_open(3)[OF d_open.prems]
  show ?case using device_open_cases[OF d_open.prems(1) conjunct1[OF ih] d_open(2)] ih by auto
next
  case (d_close n m s e s')
  note ih = d_close(3)[OF d_close.prems]
  show ?case using device_close_cases[OF d_close.prems(1) conjunct1[OF ih] d_close(2)] ih by auto
next
  case (d_init n m s e s')
  note ih = d_init(3)[OF d_init.prems]
  show ?case
    by (rule dev_balance_kept[OF ih dev_init_kept[OF d_init.prems(1) is_device_view[OF conjunct1[OF ih]] d_init(2)]])
next
  case (d_read n m s pos b k x s')
  note ih = d_read(3)[OF d_read.prems]
  show ?case
    by (rule dev_balance_kept[OF ih dev_io_kept(1)[OF d_read.prems(1) is_device_view[OF conjunct1[OF ih]] d_read(2)]])
next
  case (d_write n m s pos b k x s')
  note ih = d_write(3)[OF d_write.prems]
  show ?case
    by (rule dev_balance_kept[OF ih dev_io_kept(2)[OF d_write.prems(1) is_device_view[OF conjunct1[OF ih]] d_write(2)]])
next
  case (d_control n m s cmd a e s')
  note ih = d_control(3)[OF d_control.prems]
  show ?case
    by (rule dev_balance_kept[OF ih dev_io_kept(3)[OF d_control.prems(1) is_device_view[OF conjunct1[OF ih]] d_control(2)]])
next
  case (d_rx n m s f e s')
  show ?case
    by (rule dev_balance_kept[OF d_rx(3)[OF d_rx.prems] dev_view_bit_kept[OF dev_view_callbacks(1)[OF d_rx(2)]]])
next
  case (d_tx n m s f e s')
  show ?case
    by (rule dev_balance_kept[OF d_tx(3)[OF d_tx.prems] dev_view_bit_kept[OF dev_view_callbacks(2)[OF d_tx(2)]]])
next
  case (d_other n m s s')
  have "dev_view i s' = dev_view i s" using d_other(2) dev_view_kept dev_view_same by blast
  then show ?case by (rule dev_balance_kept[OF d_other(3)[OF d_other.prems] dev_view_bit_kept])
qed

section \<open>Registering and finding\<close>

text \<open>The device list of a state, and the search in it.\<close>

abbreviation dev_list :: "kernel \<Rightarrow> objref list" where
  "dev_list s \<equiv> obj_list s RT_Object_Class_Device"

lemma rt_device_find_total:
  assumes "kinv s" "rt_current_thread s \<noteq> None" "0 \<le> sint (rt_scheduler_lock_nest s)"
  shows "\<exists>s'. rt_device_find nm s = Some (find (has_name s nm) (dev_list s), s') \<and> kinv s' \<and> sched_only s s'
    \<and> rt_current_thread s' \<noteq> None"
proof -
  have "RT_Object_Class_Device \<in> set rt_object_container" by (simp add: rt_object_container_def)
  then have "rt_object_get_information (class_code RT_Object_Class_Device) = Some RT_Object_Class_Device"
    by (rule rt_object_get_information_registered)
  moreover have "has_name (rt_enter_critical s) nm = has_name s nm"
    by (simp add: has_name_def[abs_def] rt_enter_critical_def)
  moreover have "dev_list (rt_enter_critical s) = dev_list s"
    "rt_current_thread (rt_enter_critical s) = rt_current_thread s" by (simp_all add: rt_enter_critical_def)
  ultimately show ?thesis
    using critical_section_total[OF assms] assms(2)
    by (auto simp: rt_device_find_def rt_thread_self_def find_name_find simp del: class_code.simps)
qed

end
