(* ===== verification/RT_Device_Spec.thy ===== *)
theory RT_Device_Spec
  imports RT_Device_Run
begin

text \<open>The properties of the device manager.\<close>

section \<open>A concrete driver\<close>

text \<open>Its functions succeed; opening writes \<^verbatim>\<open>open_flag\<close>, as in components/drivers/serial/serial.c.\<close>

definition demo_driver :: device_ops where
  "demo_driver = \<lparr>op_init = (\<lambda>f i s. Some (RT_EOK, s)),
     op_open = (\<lambda>f i oflag s. Some (RT_EOK, upd_dev i (\<lambda>d. d\<lparr>open_flag := oflag AND 0xff\<rparr>) s)),
     op_close = (\<lambda>f i s. Some (RT_EOK, s)), op_read = (\<lambda>f i pos b n s. Some (n, s)),
     op_write = (\<lambda>f i pos b n s. Some (n, s)), op_control = (\<lambda>f i cmd a s. Some (RT_EOK, s))\<rparr>"

lemma demo_driver_ok: "driver_ok demo_driver i"
  by (auto simp: driver_ok_def demo_driver_def dev_kept_def)

lemma dev_demo:
  "is_device i demo" "ref_count (dev_of demo i) = 0" "dev_flag (dev_of demo i) = 3"
  "open_flag (dev_of demo i) = 0" "dev_init (dev_of demo i) = Some 0" "dev_open (dev_of demo i) = Some 1"
  "dev_close (dev_of demo i) = Some 2" "dev_read (dev_of demo i) = Some 3"
proof -
  show "is_device i demo"
    by (simp add: is_device_def rt_object_get_type_def demo_type_def RT_Object_Class_Static_def)
qed (simp_all add: demo_def)

lemma dev_ok_demo: "dev_ok i demo"
  using dev_demo[of i] by (simp add: view_ok_def dev_view_def flag_simps)

section \<open>Properties\<close>

text \<open>C18. Counting the opens of a device. Over every run of the operations on a device, calls that
  fail in the driver included, the reference count is the number of opens that succeeded minus the
  number of closes that found the device open; a standalone device is open at most once, and has
  its open bit while it is open. An open that succeeds leaves the open bit set, whatever the driver
  wrote to \<^verbatim>\<open>open_flag\<close>, and the last close clears \<^verbatim>\<open>open_flag\<close> when it succeeds. The driver must not
  write the count, the object type and the standalone bit, and only its functions for opening and
  closing may clear the open bit (\<^verbatim>\<open>driver_ok\<close>).\<close>

theorem device_refcount:
  assumes "dev_run ops i s0 n m s" "driver_ok ops i" "dev_ok i s0"
  shows "unat (ref_count (dev_of s0 i)) + n = unat (ref_count (dev_of s i)) + m
    \<and> (dev_flag (dev_of s i) AND RT_DEVICE_FLAG_STANDALONE \<noteq> 0 \<longrightarrow> unat (ref_count (dev_of s i)) \<le> 1
        \<and> (ref_count (dev_of s i) \<noteq> 0 \<longrightarrow> open_flag (dev_of s i) AND RT_DEVICE_OFLAG_OPEN \<noteq> 0))
    \<and> is_device i s
    \<and> (\<forall>oflag e s'. rt_device_open ops i oflag s = Some (e, s') \<longrightarrow> dev_opened ops i s e
        \<longrightarrow> open_flag (dev_of s' i) AND RT_DEVICE_OFLAG_OPEN \<noteq> 0)
    \<and> (\<forall>e s'. rt_device_close ops i s = Some (e, s') \<longrightarrow> ref_count (dev_of s i) = 1
        \<longrightarrow> e = RT_EOK \<or> e = - RT_ENOSYS \<longrightarrow> open_flag (dev_of s' i) = RT_DEVICE_OFLAG_CLOSE)"
proof -
  note K = dev_run_keeps[OF assms]
  then show ?thesis
    using device_open_cases[OF assms(2) conjunct1[OF K]] device_close_cases[OF assms(2) conjunct1[OF K]]
    by (auto simp: view_ok_def dev_view_def word_le_nat_alt)
qed

lemma device_refcount_witness:
  "\<exists>s s'. dev_run demo_driver 0 demo 1 0 s \<and> unat (ref_count (dev_of s 0)) = 1
    \<and> dev_run demo_driver 0 demo 1 1 s' \<and> unat (ref_count (dev_of s' 0)) = 0"
proof -
  have o: "\<exists>s. rt_device_open demo_driver 0 3 demo = Some (RT_EOK, s) \<and> dev_close (dev_of s 0) = Some 2
      \<and> ref_count (dev_of s 0) = 1"
    using dev_demo[of 0]
    by (simp add: rt_device_open_def dev_open_init_def dev_open_call_def dev_activated_def dev_activate_def
        demo_driver_def flag_simps RT_EOK_def upd_cmp_def upd_dev_def is_device_def rt_object_get_type_def)
  then obtain s where s: "rt_device_open demo_driver 0 3 demo = Some (RT_EOK, s)" "dev_close (dev_of s 0) = Some 2"
    "ref_count (dev_of s 0) = 1" by blast
  have "dev_opened demo_driver 0 demo RT_EOK"
    using dev_demo[of 0] by (simp add: dev_opened_def dev_open_init_def demo_driver_def)
  with d_open[OF d_start s(1)] have r: "dev_run demo_driver 0 demo 1 0 s" by simp
  have d: "is_device 0 s" using device_refcount[OF r demo_driver_ok dev_ok_demo] by blast
  obtain s' where "rt_device_close demo_driver 0 s = Some (RT_EOK, s')"
    using s(2,3) d by (simp add: rt_device_close_def demo_driver_def)
  from d_close[OF r this] s(3) have r': "dev_run demo_driver 0 demo 1 1 s'" by simp
  show ?thesis
    using r r' device_refcount[OF r demo_driver_ok dev_ok_demo] device_refcount[OF r' demo_driver_ok dev_ok_demo]
      dev_demo(2)[of 0] by auto
qed

lemma dev_found_attach:
  assumes l: "dev_list s' = ODevice i # dev_list s" and n: "obj_name (objs s' (ODevice i)) = strncpy_bytes nm 0 RT_NAME_MAX"
  shows "find (has_name s' nm) (dev_list s') = Some (ODevice i)"
  using n by (simp add: l has_name_def strncpy_idem)

lemma dev_gone_unlink:
  assumes l: "dev_list s' = removeAll (ODevice i) (ODevice i # dev_list s)"
    and n: "\<And>r. r \<noteq> ODevice i \<Longrightarrow> objs s' r = (objs s r :: rt_object) \<or> obj_name (objs s' r) = obj_name (objs s r)"
    and f: "find (has_name s nm) (dev_list s) = None"
  shows "find (has_name s' nm) (dev_list s') = None"
proof -
  have "\<not> has_name s' nm r" if r: "r \<in> set (dev_list s')" for r
  proof -
    have "r \<noteq> ODevice i" "r \<in> set (dev_list s)" using r by (auto simp: l)
    moreover from this(2) have "\<not> has_name s nm r" using f by (auto simp: find_None_iff)
    ultimately show ?thesis using n[of r] by (auto simp: has_name_def)
  qed
  then show ?thesis by (simp add: find_None_iff)
qed

lemma device_register_new:
  assumes k: "kinv s" "rt_current_thread s \<noteq> None" "0 \<le> sint (rt_scheduler_lock_nest s)"
    and f: "find (has_name s nm) (dev_list s) = None"
  shows "\<exists>s'. rt_device_register (Some i) nm flags s = Some (RT_EOK, s') \<and> kinv s' \<and> rt_current_thread s' \<noteq> None
    \<and> rt_scheduler_lock_nest s' = rt_scheduler_lock_nest s \<and> is_device i s' \<and> rt_object_is_systemobject (ODevice i) s'
    \<and> dev_list s' = ODevice i # dev_list s \<and> (\<forall>r. r \<noteq> ODevice i \<longrightarrow> objs s' r = objs s r)
    \<and> obj_name (objs s' (ODevice i)) = strncpy_bytes nm 0 RT_NAME_MAX
    \<and> dev_of s' i = (dev_of s i)\<lparr>dev_flag := flags, ref_count := 0, open_flag := 0\<rparr>"
proof -
  from rt_device_find_total[OF k, of nm] f obtain s1 where
    s1: "rt_device_find nm s = Some (None, s1)" "kinv s1" "sched_only s s1" "rt_current_thread s1 \<noteq> None" by auto
  note D = sched_onlyD[OF s1(3)]
  let ?c = RT_Object_Class_Device
  have mem: "?c \<in> set rt_object_container" by (simp add: rt_object_container_def)
  let ?os = "(objs s1)(ODevice i := (objs s1 (ODevice i))\<lparr>obj_type := class_code ?c OR RT_Object_Class_Static,
      obj_name := strncpy_bytes nm 0 RT_NAME_MAX\<rparr>)"
  define s2 where "s2 = s1\<lparr>objs := ?os, obj_list := (obj_list s1)(?c := ODevice i # obj_list s1 ?c)\<rparr>"
  let ?f = "\<lambda>d. d\<lparr>dev_flag := flags, ref_count := 0, open_flag := 0\<rparr>"
  let ?s = "upd_dev i ?f s2"
  have k2: "kinv s2" unfolding s2_def by (rule kinv_objs[OF s1(2)]) simp_all
  note S = same_but_dataD[OF same_but_data_upd(9)[of s2 i ?f]] same_but_data_frame(1)[OF same_but_data_upd(9)[of s2 i ?f]]
  have "rt_device_register (Some i) nm flags s = Some (RT_EOK, ?s)"
    using s1(1) rt_object_init_Some[OF mem] by (simp add: rt_device_register_def s2_def)
  moreover have "kinv ?s" using k2 kinv_same_but_data[OF same_but_data_upd(9)] by blast
  moreover have "rt_current_thread ?s \<noteq> None" "rt_scheduler_lock_nest ?s = rt_scheduler_lock_nest s"
    "dev_list ?s = ODevice i # dev_list s" "objs ?s = ?os"
    using S s1(4) D(2,4) by (simp_all add: s2_def)
  moreover have "dev_of s2 i = dev_of s i" using D(22) by (simp add: s2_def)
  ultimately show ?thesis
    using D(1) class_code_static(1,2)[of ?c]
    by (simp add: is_device_def rt_object_get_type_def rt_object_is_systemobject_def RT_Object_Class_Static_def
        del: class_code.simps)
qed

text \<open>C19. Registering. A device that is in no list and is registered under a name that no device has is found by this name, a
  second device is refused under it, and after it is unregistered the name is free again.\<close>

theorem device_register_find:
  assumes k: "kinv s" "rt_current_thread s \<noteq> None" "0 \<le> sint (rt_scheduler_lock_nest s)"
    and f: "find (has_name s nm) (dev_list s) = None" and u: "\<forall>c. ODevice i \<notin> set (obj_list s c)"
  shows "\<exists>s1. rt_device_register (Some i) nm flags s = Some (RT_EOK, s1) \<and> is_device i s1
    \<and> (\<exists>s2. rt_device_find nm s1 = Some (Some (ODevice i), s2))
    \<and> (\<exists>s2. rt_device_register (Some j) nm flags' s1 = Some (- RT_ERROR, s2) \<and> dev_list s2 = dev_list s1)
    \<and> (\<exists>s2 s3. rt_device_unregister i s1 = Some (RT_EOK, s2) \<and> \<not> is_device i s2
         \<and> rt_device_find nm s2 = Some (None, s3))"
proof -
  from device_register_new[OF k f, of i flags] obtain s1 where
    s1: "rt_device_register (Some i) nm flags s = Some (RT_EOK, s1)" "kinv s1" "rt_current_thread s1 \<noteq> None"
    "rt_scheduler_lock_nest s1 = rt_scheduler_lock_nest s" "is_device i s1"
    "rt_object_is_systemobject (ODevice i) s1" "dev_list s1 = ODevice i # dev_list s"
    "\<forall>r. r \<noteq> ODevice i \<longrightarrow> objs s1 r = objs s r" "obj_name (objs s1 (ODevice i)) = strncpy_bytes nm 0 RT_NAME_MAX"
    by blast
  have l1: "0 \<le> sint (rt_scheduler_lock_nest s1)" using k(3) s1(4) by simp
  have "find (has_name s1 nm) (dev_list s1) = Some (ODevice i)" by (rule dev_found_attach[OF s1(7,9)])
  with rt_device_find_total[OF s1(2,3) l1, of nm] obtain s2 where
    s2: "rt_device_find nm s1 = Some (Some (ODevice i), s2)" "sched_only s1 s2" by auto
  have r2: "rt_device_register (Some j) nm flags' s1 = Some (- RT_ERROR, s2)"
    using s2(1) by (simp add: rt_device_register_def)
  let ?d = "rt_object_detach (ODevice i) s1"
  have d: "?d = s1\<lparr>objs := (objs s1)(ODevice i := (objs s1 (ODevice i))\<lparr>obj_type := 0\<rparr>),
      obj_list := (\<lambda>c. removeAll (ODevice i) (obj_list s1 c))\<rparr>"
    by (simp add: rt_object_detach_def kernel_defs)
  have kd: "kinv ?d" unfolding d by (rule kinv_objs[OF s1(2)]) simp_all
  have "rt_current_thread ?d \<noteq> None" "0 \<le> sint (rt_scheduler_lock_nest ?d)"
    using s1(3) l1 by (simp_all add: d)
  from rt_device_find_total[OF kd this, of nm] obtain s3 where
    s3: "rt_device_find nm ?d = Some (find (has_name ?d nm) (dev_list ?d), s3)" by blast
  have "find (has_name ?d nm) (dev_list ?d) = None"
    by (rule dev_gone_unlink[OF _ _ f, where i = i]) (use s1(7,8) in \<open>simp_all add: d\<close>)
  moreover have "rt_device_unregister i s1 = Some (RT_EOK, ?d)"
    using s1(5,6) by (simp add: rt_device_unregister_def)
  moreover have "\<not> is_device i ?d" by (simp add: is_device_def)
  ultimately show ?thesis using s1(1,5) s2 r2 s3 sched_onlyD(2)[OF s2(2)] by auto
qed

lemma device_register_find_witness:
  "\<exists>s1 s2. rt_device_register (Some 3) [117, 97, 114, 116] 0x103 demo = Some (RT_EOK, s1)
    \<and> rt_device_find [117, 97, 114, 116] s1 = Some (Some (ODevice 3), s2)"
proof -
  have "find (has_name demo [117, 97, 114, 116]) (dev_list demo) = None" by simp
  from device_register_find[OF kinv_demo _ _ this, of 3 "0x103" 0 0] show ?thesis by auto
qed

text \<open>The operations that write the type of a device object; \<^verbatim>\<open>l_other\<close> is everything else, the other
  operations of the manager, the drivers and the rest of the kernel, which leaves it alone.\<close>

inductive dev_life :: "nat \<Rightarrow> kernel \<Rightarrow> kernel \<Rightarrow> bool" for i s0 where
  l_start: "dev_life i s0 s0"
| l_create: "dev_life i s0 s \<Longrightarrow> rt_device_create malloc sz ty att s = (d, s') \<Longrightarrow> dev_life i s0 s'"
| l_register: "dev_life i s0 s \<Longrightarrow> rt_device_register d nm fl s = Some (e, s') \<Longrightarrow> dev_life i s0 s'"
| l_unregister: "dev_life i s0 s \<Longrightarrow> rt_device_unregister j s = Some (e, s') \<Longrightarrow> dev_life i s0 s'"
| l_destroy: "dev_life i s0 s \<Longrightarrow> rt_device_destroy j s = Some s' \<Longrightarrow> dev_life i s0 s'"
| l_other: "dev_life i s0 s \<Longrightarrow> obj_type (objs s' (ODevice i)) = obj_type (objs s (ODevice i)) \<Longrightarrow> dev_life i s0 s'"

lemma upd_dev_objs [simp]: "objs (upd_dev j f s) = objs s"
  by (simp add: upd_dev_def)

lemma class_device_static: "class_code RT_Object_Class_Device OR RT_Object_Class_Static = 0x88"
  by (simp add: RT_Object_Class_Static_def)

lemma schedule_objs: "rt_schedule s = Some s' \<Longrightarrow> objs s' = objs s"
  by (auto simp: rt_schedule_def bind_Some_iff Let_def split: if_splits option.splits prod.splits)

lemma exit_critical_objs: "rt_exit_critical s = Some s' \<Longrightarrow> objs s' = objs s"
  by (auto simp: rt_exit_critical_def Let_def split: if_splits dest: schedule_objs)

lemma dev_find_objs: "rt_device_find nm s = Some (r, s') \<Longrightarrow> objs s' = objs s"
  by (auto simp: rt_device_find_def bind_Some_iff Let_def rt_enter_critical_def split: if_splits dest!: exit_critical_objs)

lemma dev_life_type:
  assumes "dev_life i s0 s" "obj_type (objs s0 (ODevice i)) \<in> {0, 0x88}"
  shows "obj_type (objs s (ODevice i)) \<in> {0, 0x88}"
  using assms
proof (induction rule: dev_life.induct)
  case (l_register s d nm fl e s')
  show ?case
  proof (cases d)
    case None
    then show ?thesis using l_register by (simp add: rt_device_register_def)
  next
    case (Some j)
    then obtain r s1 where f: "rt_device_find nm s = Some (r, s1)"
      and r: "(if r \<noteq> None then Some (- RT_ERROR, s1) else do {
            s \<leftarrow> rt_object_init (ODevice j) RT_Object_Class_Device nm s1;
            Some (RT_EOK, upd_dev j (\<lambda>d. d\<lparr>dev_flag := fl, ref_count := 0, open_flag := 0\<rparr>) s)
          }) = Some (e, s')"
      using l_register(2) by (auto simp: rt_device_register_def bind_Some_iff)
    have "RT_Object_Class_Device \<in> set rt_object_container" by (simp add: rt_object_container_def)
    note init = rt_object_init_Some[OF this]
    show ?thesis using r dev_find_objs[OF f] l_register(3)[OF l_register.prems] class_device_static
      by (cases "r = None"; cases "i = j") (auto simp: init simp del: class_code.simps)
  qed
qed (auto simp: rt_device_create_def rt_device_unregister_def rt_device_destroy_def rt_object_detach_def
    kernel_defs Let_def split: option.splits if_splits)

text \<open>C20. No device is ever destroyed. A device that \<^verbatim>\<open>rt_device_create\<close> allocated has no type until it
  is registered, registering makes it a static object, and unregistering takes the type away:
  over every sequence of operations that begins without a dynamic device object, one of the two
  assertions of \<^verbatim>\<open>rt_device_destroy\<close> fails, and the memory of the device is never given back.\<close>

theorem device_never_destroyed:
  assumes "dev_life i s0 s" "obj_type (objs s0 (ODevice i)) \<in> {0, 0x88}"
  shows "rt_device_destroy i s = None"
proof -
  from dev_life_type[OF assms] consider "obj_type (objs s (ODevice i)) = 0" | "obj_type (objs s (ODevice i)) = 0x88"
    by blast
  then show ?thesis
  proof cases
    case 1
    then have "\<not> is_device i s" by (simp add: is_device_def rt_object_get_type_def)
    then show ?thesis by (simp add: rt_device_destroy_def)
  next
    case 2
    then have "rt_object_is_systemobject (ODevice i) s"
      by (simp add: rt_object_is_systemobject_def RT_Object_Class_Static_def)
    then show ?thesis by (simp add: rt_device_destroy_def)
  qed
qed

lemma device_never_destroyed_witness:
  "\<exists>s1 s2. rt_device_create (\<lambda>n. Some 5) 80 0 0 demo = (Some 5, s1)
    \<and> rt_device_register (Some 5) [117] 3 s1 = Some (RT_EOK, s2) \<and> rt_device_destroy 5 s2 = None"
proof -
  obtain s1 where s1: "rt_device_create (\<lambda>n. Some 5) 80 0 0 demo = (Some 5, s1)"
    by (simp add: rt_device_create_def Let_def)
  let ?z = "\<lparr>obj_name = replicate RT_NAME_MAX 0, obj_type = 0, obj_flag = 0\<rparr>"
  let ?s = "demo\<lparr>objs := (objs demo)(ODevice 5 := ?z), obj_list := obj_list demo\<rparr>"
  let ?u = "upd_dev 5 (\<lambda>_. zero_device) ?s"
  let ?v = "upd_dev 5 (\<lambda>d. d\<lparr>dev_class := 0\<rparr>) ?u"
  have "?s = upd_obj (ODevice 5) (\<lambda>_. ?z) demo" by (simp add: upd_obj_def)
  then have v: "s1 = ?v" using s1 by (simp add: rt_device_create_def Let_def)
  have sd: "same_but_data ?s ?v" by (rule same_but_data_trans[of _ ?u]) simp_all
  note S = same_but_dataD[OF sd] same_but_data_frame(1)[OF sd]
  have "kinv ?s" by (rule kinv_objs) simp_all
  then have k: "kinv s1" using kinv_same_but_data[OF sd] v by simp
  have "rt_current_thread s1 \<noteq> None" "0 \<le> sint (rt_scheduler_lock_nest s1)"
    "find (has_name s1 [117]) (dev_list s1) = None" using S v by simp_all
  from device_register_new[OF k this, of 5 3] obtain s2 where
    s2: "rt_device_register (Some 5) [117] 3 s1 = Some (RT_EOK, s2)" by blast
  have "dev_life 5 demo s2" using l_register[OF l_create[OF l_start s1] s2] .
  from device_never_destroyed[OF this] s1 s2 show ?thesis by (simp add: demo_type_def)
qed

text \<open>A failing close shuts a standalone device for ever. When the last close of a standalone device
  fails in the driver, the count is 0 but the open bit stays: closing again fails because the
  device is not open, and opening fails because it is.\<close>

theorem device_close_failure_locks:
  assumes "dev_ok i s" "ref_count (dev_of s i) = 1" "dev_close (dev_of s i) = Some f"
    and "dev_flag (dev_of s i) AND RT_DEVICE_FLAG_STANDALONE \<noteq> 0" "dev_activated i s"
    and fail: "\<And>s. op_close ops f i s = Some (e, s)" "e \<noteq> RT_EOK" "e \<noteq> - RT_ENOSYS"
  shows "\<exists>s'. rt_device_close ops i s = Some (e, s') \<and> rt_device_close ops i s' = Some (- RT_ERROR, s')
    \<and> rt_device_open ops i oflag s' = Some (- RT_EBUSY, s')"
proof -
  let ?s = "upd_dev i (\<lambda>d. d\<lparr>ref_count := ref_count d - 1\<rparr>) s"
  have d: "is_device i s" by (rule is_device_view[OF assms(1)])
  have "rt_device_close ops i s = Some (e, ?s)"
    using d assms(2,3) fail by (simp add: rt_device_close_def Let_def)
  moreover have "rt_device_close ops i ?s = Some (- RT_ERROR, ?s)"
    using d assms(2) by (simp add: rt_device_close_def)
  moreover have "dev_open_init ops i ?s = Some (RT_EOK, ?s)"
    using assms(5) by (simp add: dev_open_init_def dev_activated_def)
  then have "rt_device_open ops i oflag ?s = Some (- RT_EBUSY, ?s)"
    using d assms(1,2,4) by (simp add: rt_device_open_def view_ok_def dev_view_def)
  ultimately show ?thesis by blast
qed

lemma device_close_failure_witness:
  "\<exists>s ops s'. ref_count (dev_of s 0) = 1 \<and> rt_device_close ops 0 s = Some (- RT_EIO, s')
    \<and> rt_device_open ops 0 3 s' = Some (- RT_EBUSY, s')"
proof -
  let ?s = "upd_dev 0 (\<lambda>d. d\<lparr>dev_flag := 0x1b, open_flag := 0xb, ref_count := 1\<rparr>) demo"
  let ?ops = "demo_driver\<lparr>op_close := (\<lambda>f i s. Some (- RT_EIO, s))\<rparr>"
  have "\<exists>s'. rt_device_close ?ops 0 ?s = Some (- RT_EIO, s') \<and> rt_device_close ?ops 0 s' = Some (- RT_ERROR, s')
      \<and> rt_device_open ?ops 0 3 s' = Some (- RT_EBUSY, s')"
    by (rule device_close_failure_locks[where s = ?s and f = 2])
      (simp_all add: dev_demo view_ok_def flag_simps dev_activated_def RT_EIO_def RT_EOK_def RT_ENOSYS_def)
  moreover have "ref_count (dev_of ?s 0) = 1" by simp
  ultimately show ?thesis by blast
qed

end
