(* ===== verification/RT_Idle.thy ===== *)
theory RT_Idle
  imports RT_Object_Run RT_Mem_Calls
begin

text \<open>The idle thread of src/idle.c: its hooks, and the cleaning up of the threads that have ended,
  which gives their stacks back to the heap of src/mem.c, whose semaphore is \<^verbatim>\<open>hi\<close>, and their objects
  to the object container. The functions of the application (hooks and cleanup functions) are the
  parameters \<^verbatim>\<open>hk\<close> and \<^verbatim>\<open>cl\<close>.\<close>

section \<open>Hooks\<close>

definition RT_IDEL_HOOK_LIST_SIZE :: nat where "RT_IDEL_HOOK_LIST_SIZE = 4"

text \<open>The loops over \<^verbatim>\<open>idle_hook_list\<close>: the first entry that is \<^verbatim>\<open>x\<close> becomes \<^verbatim>\<open>y\<close>.\<close>

fun replace_first :: "nat option \<Rightarrow> nat option \<Rightarrow> nat option list \<Rightarrow> nat option list option" where
  "replace_first x y [] = None"
| "replace_first x y (z # zs) = (if z = x then Some (y # zs) else map_option ((#) z) (replace_first x y zs))"

definition rt_thread_idle_sethook :: "nat option \<Rightarrow> nat option list \<Rightarrow> rt_err \<times> nat option list" where
  "rt_thread_idle_sethook hook hs =
    (case replace_first None hook hs of None \<Rightarrow> (- RT_EFULL, hs) | Some hs' \<Rightarrow> (RT_EOK, hs'))"

definition rt_thread_idle_delhook :: "nat option \<Rightarrow> nat option list \<Rightarrow> rt_err \<times> nat option list" where
  "rt_thread_idle_delhook hook hs =
    (case replace_first hook None hs of None \<Rightarrow> (- RT_ENOSYS, hs) | Some hs' \<Rightarrow> (RT_EOK, hs'))"

fun idle_call_hooks :: "(nat \<Rightarrow> kernel \<Rightarrow> kernel option) \<Rightarrow> nat option list \<Rightarrow> kernel \<Rightarrow> kernel option" where
  "idle_call_hooks hk [] s = Some s"
| "idle_call_hooks hk (h # hs) s =
    (case h of
       None \<Rightarrow> idle_call_hooks hk hs s
     | Some f \<Rightarrow> do { s \<leftarrow> hk f s; idle_call_hooks hk hs s })"

section \<open>Cleaning up\<close>

definition has_defunct_thread :: "kernel \<Rightarrow> bool" where
  "has_defunct_thread s = (tq s DefunctQ \<noteq> [])"

text \<open>Up to the end of the critical section: the thread is unlinked and its cleanup function runs
  with the scheduler locked. The result tells whether the thread is a static object.\<close>

type_synonym cleanup_fn = "nat \<Rightarrow> nat \<Rightarrow> heap \<Rightarrow> kernel \<Rightarrow> (heap \<times> kernel) option"

definition idle_take :: "cleanup_fn \<Rightarrow> nat \<Rightarrow> heap \<Rightarrow> kernel \<Rightarrow> (bool \<times> heap \<times> kernel) option" where
  "idle_take cl t h s = do {
     let s = rt_enter_critical (tlist_remove t s);
     (h, s) \<leftarrow> (case cleanup (thr s t) of None \<Rightarrow> Some (h, s) | Some f \<Rightarrow> cl f t h s);
     let sys = rt_object_is_systemobject (OThread t) s;
     s \<leftarrow> rt_exit_critical s;
     Some (sys, h, s)
   }"

text \<open>\<^verbatim>\<open>RT_KERNEL_FREE\<close> is \<^verbatim>\<open>rt_free\<close>; it waits when another thread has the heap.\<close>

definition idle_release :: "nat \<Rightarrow> nat \<Rightarrow> heap \<Rightarrow> kernel \<Rightarrow> (unit call \<times> heap \<times> kernel) option" where
  "idle_release hi t h s = do {
     (r, h, s) \<leftarrow> rt_free hi (stack_addr (thr s t)) h s;
     (case r of
        Blocked \<Rightarrow> Some (Blocked, h, s)
      | Done _ \<Rightarrow> do { s \<leftarrow> rt_object_delete (OThread t) s; Some (Done (), h, s) })
   }"

text \<open>The end of the critical section can give up the processor; the rest of the round runs when the
  idle thread runs again.\<close>

partial_function (option) rt_thread_idle_excute ::
  "nat \<Rightarrow> cleanup_fn \<Rightarrow> heap \<Rightarrow> kernel \<Rightarrow> (unit call \<times> heap \<times> kernel) option" where
  "rt_thread_idle_excute hi cl h s =
    (if \<not> has_defunct_thread s then Some (Done (), h, s)
     else Option.bind (not_in_interrupt s) (\<lambda>u. Option.bind (rt_thread_self s) (\<lambda>self.
       let t = hd (tq s DefunctQ) in
       Option.bind (idle_take cl t h s) (\<lambda>(sys, h, s).
         if rt_current_thread s \<noteq> Some self then Some (Blocked, h, s)
         else if sys then Some (Done (), h, s)
         else Option.bind (idle_release hi t h s) (\<lambda>(r, h, s).
           if r = Blocked then Some (Blocked, h, s) else rt_thread_idle_excute hi cl h s)))))"

definition rt_thread_idle_excute_wake ::
  "nat \<Rightarrow> cleanup_fn \<Rightarrow> nat \<Rightarrow> bool \<Rightarrow> heap \<Rightarrow> kernel \<Rightarrow> (unit call \<times> heap \<times> kernel) option" where
  "rt_thread_idle_excute_wake hi cl t sys h s =
    (if sys then Some (Done (), h, s)
     else do {
       (r, h, s) \<leftarrow> idle_release hi t h s;
       if r = Blocked then Some (Blocked, h, s) else rt_thread_idle_excute hi cl h s
     })"

text \<open>One round of the loop of the idle thread.\<close>

definition idle_round ::
  "(nat \<Rightarrow> kernel \<Rightarrow> kernel option) \<Rightarrow> nat \<Rightarrow> cleanup_fn \<Rightarrow> nat option list \<Rightarrow> heap \<Rightarrow> kernel
    \<Rightarrow> (unit call \<times> heap \<times> kernel) option" where
  "idle_round hk hi cl hs h s = do { s \<leftarrow> idle_call_hooks hk hs s; rt_thread_idle_excute hi cl h s }"

text \<open>The idle thread is the static thread \<^verbatim>\<open>i\<close> with the stack at \<^verbatim>\<open>stk\<close>; its name is "tidle0".\<close>

definition rt_thread_idle_init :: "nat \<Rightarrow> nat \<Rightarrow> rt_uint32 \<Rightarrow> kernel \<Rightarrow> (rt_err \<times> kernel) option" where
  "rt_thread_idle_init i en stk s = do {
     (_, s) \<leftarrow> rt_thread_init i [116, 105, 100, 108, 101, 48] en 0 stk 512
                 (of_nat (RT_THREAD_PRIORITY_MAX - 1)) 32 s;
     rt_thread_startup i s
   }"

section \<open>Hooks: the list\<close>

lemma replace_first_None: "replace_first x y zs = None \<longleftrightarrow> x \<notin> set zs"
  by (induction zs) auto

lemma replace_first_Some:
  "x \<in> set zs \<Longrightarrow> \<exists>pre post. zs = pre @ x # post \<and> x \<notin> set pre \<and> replace_first x y zs = Some (pre @ y # post)"
proof (induction zs)
  case (Cons z zs)
  show ?case
  proof (cases "z = x")
    case True
    then show ?thesis by (intro exI[of _ "[]"] exI[of _ zs]) simp
  next
    case False
    with Cons obtain pre post where
      "zs = pre @ x # post" "x \<notin> set pre" "replace_first x y zs = Some (pre @ y # post)" by auto
    then show ?thesis using False by (intro exI[of _ "z # pre"] exI[of _ post]) auto
  qed
qed simp

text \<open>A hook that was set is called once more a round, and removing it again restores the list.\<close>

lemma idle_hooks_roundtrip:
  assumes "rt_thread_idle_sethook (Some f) hs = (RT_EOK, hs')"
  shows "length hs' = length hs" "count_list hs' (Some f) = Suc (count_list hs (Some f))"
    "Some f \<notin> set hs \<Longrightarrow> rt_thread_idle_delhook (Some f) hs' = (RT_EOK, hs)"
proof -
  have "None \<in> set hs"
    using assms replace_first_None[of None "Some f" hs]
    by (auto simp: rt_thread_idle_sethook_def err_simps split: option.splits)
  from replace_first_Some[OF this, of "Some f"] obtain pre post where
    p: "hs = pre @ None # post" "None \<notin> set pre" "replace_first None (Some f) hs = Some (pre @ Some f # post)"
    by blast
  then have h: "hs' = pre @ Some f # post" using assms by (simp add: rt_thread_idle_sethook_def)
  show "length hs' = length hs" "count_list hs' (Some f) = Suc (count_list hs (Some f))"
    by (simp_all add: h p(1))
  assume n: "Some f \<notin> set hs"
  have "replace_first x y (pre @ x # post) = Some (pre @ y # post)" if "x \<notin> set pre" for x y
    using that by (induction pre) auto
  then show "rt_thread_idle_delhook (Some f) hs' = (RT_EOK, hs)"
    using n by (simp add: rt_thread_idle_delhook_def h p(1))
qed

section \<open>Cleaning up under the kernel invariant\<close>












section \<open>The end of a thread\<close>





definition idle_demo :: kernel where
  "idle_demo = heap_kernel\<lparr>
     thr := (\<lambda>t. if t = 1 \<or> t = 2 then demo_thread 0 5
       else if t = 3 then (demo_thread 2 3)\<lparr>stack_addr := 0x100c, sp := 0x1100\<rparr> else demo_threads t),
     tq := (\<lambda>h. if h = WaitQ (OSem 0) then [3] else []), rt_thread_ready_priority_group := 0,
     objs := (objs demo)(OThread 3 := \<lparr>obj_name = [], obj_type = 0, obj_flag = 0\<rparr>)\<rparr>"

lemma idle_demo_status [simp]:
  "is_ready idle_demo t = (t = 0)" "is_suspended idle_demo t = (t = 3)" "is_closed idle_demo t = False"
  by (auto simp: idle_demo_def stat_defs flag_simps demo_thread_def)




end
