(* ===== verification/RT_String.thy ===== *)
theory RT_String
  imports RT_Memory RT_Queue
begin

text \<open>The strings of src/kservice.c: loops over bytes in memory up to a byte 0. The string at an
  address is the list of the bytes before the first 0.\<close>

section \<open>Operations\<close>

text \<open>A loop over a string that has no end never returns.\<close>

partial_function (option) strlen_from :: "rt_uint32 \<Rightarrow> rt_uint32 \<Rightarrow> memory \<Rightarrow> rt_size option" where
  "strlen_from sc s m = (if m sc \<noteq> 0 then strlen_from (sc + 1) s m else Some (sc - s))"

definition rt_strlen :: "rt_uint32 \<Rightarrow> memory \<Rightarrow> rt_size option" where
  "rt_strlen s m = strlen_from s s m"

partial_function (option) strnlen_from :: "rt_uint32 \<Rightarrow> rt_uint32 \<Rightarrow> rt_uint32 \<Rightarrow> memory \<Rightarrow> rt_size option" where
  "strnlen_from sc s maxlen m =
    (if m sc \<noteq> 0 \<and> sc - s < maxlen then strnlen_from (sc + 1) s maxlen m else Some (sc - s))"

definition rt_strnlen :: "rt_uint32 \<Rightarrow> rt_uint32 \<Rightarrow> memory \<Rightarrow> rt_size option" where
  "rt_strnlen s maxlen m = strnlen_from s s maxlen m"

text \<open>Plain characters are unsigned on the target.\<close>

partial_function (option) rt_strcmp :: "rt_uint32 \<Rightarrow> rt_uint32 \<Rightarrow> memory \<Rightarrow> int option" where
  "rt_strcmp cs ct m =
    (if m cs \<noteq> 0 \<and> m cs = m ct then rt_strcmp (cs + 1) (ct + 1) m else Some (uint (m cs) - uint (m ct)))"

definition lower :: "rt_uint8 \<Rightarrow> int" where
  "lower c = (if 65 \<le> c \<and> c \<le> 90 then uint c + (97 - 65) else uint c)"

partial_function (option) rt_strcasecmp :: "rt_uint32 \<Rightarrow> rt_uint32 \<Rightarrow> memory \<Rightarrow> rt_uint32 option" where
  "rt_strcasecmp a b m =
    (let ca = lower (m a); cb = lower (m b)
     in if ca = cb \<and> ca \<noteq> 0 then rt_strcasecmp (a + 1) (b + 1) m else Some (word_of_int (ca - cb)))"

text \<open>The loop of \<^verbatim>\<open>rt_strstr\<close> runs while \<^verbatim>\<open>l1 >= l2\<close>; \<^verbatim>\<open>k\<close> is \<^verbatim>\<open>l1 - l2 + 1\<close>.\<close>

fun strstr_loop :: "nat \<Rightarrow> rt_uint32 \<Rightarrow> rt_uint32 \<Rightarrow> rt_uint32 \<Rightarrow> memory \<Rightarrow> rt_uint32 option" where
  "strstr_loop 0 s1 s2 l2 m = None"
| "strstr_loop (Suc k) s1 s2 l2 m =
    (if rt_memcmp s1 s2 l2 m = 0 then Some s1 else strstr_loop k (s1 + 1) s2 l2 m)"

text \<open>The lengths are copied to \<^verbatim>\<open>int\<close>.\<close>

definition rt_strstr :: "rt_uint32 \<Rightarrow> rt_uint32 \<Rightarrow> memory \<Rightarrow> rt_uint32 option option" where
  "rt_strstr s1 s2 m = do {
     l2 \<leftarrow> rt_strlen s2 m;
     (if l2 = 0 then Some (Some s1)
      else do {
        l1 \<leftarrow> rt_strlen s1 m;
        Some (strstr_loop (nat (sint l1 - sint l2 + 1)) s1 s2 l2 m)
      })
   }"

text \<open>\<^verbatim>\<open>malloc\<close> answers \<^verbatim>\<open>rt_malloc\<close>: an address, or 0.\<close>

definition rt_strdup :: "(rt_size \<Rightarrow> rt_uint32) \<Rightarrow> rt_uint32 \<Rightarrow> memory \<Rightarrow> (rt_uint32 \<times> memory) option" where
  "rt_strdup malloc s m = do {
     l \<leftarrow> rt_strlen s m;
     let len = l + 1;
     let tmp = malloc len;
     (if tmp = 0 then Some (0, m)
      else do {
        m \<leftarrow> rt_memcpy tmp s len m;
        Some (tmp, m)
      })
   }"

section \<open>Strings in memory\<close>

definition string_at :: "memory \<Rightarrow> rt_uint32 \<Rightarrow> rt_uint8 list \<Rightarrow> bool" where
  "string_at m p cs =
    (length cs < 2 ^ 32 \<and> (\<forall>i < length cs. m (p + of_nat i) = cs ! i \<and> cs ! i \<noteq> 0) \<and> m (p + of_nat (length cs)) = 0)"

lemma string_at_Nil: "string_at m p [] = (m p = 0)"
  by (simp add: string_at_def)

lemma string_at_Cons: "string_at m p (c # cs) = (m p = c \<and> c \<noteq> 0 \<and> string_at m (p + 1) cs \<and> length cs < 2 ^ 32 - 1)"
proof
  assume s: "string_at m p (c # cs)"
  have h: "m (p + of_nat i) = (c # cs) ! i \<and> (c # cs) ! i \<noteq> 0" if "i < Suc (length cs)" for i
    using s that by (simp add: string_at_def)
  have "m (p + 1 + of_nat i) = cs ! i \<and> cs ! i \<noteq> 0" if "i < length cs" for i
    using h[of "Suc i"] that by (simp add: add.assoc)
  moreover have "m (p + 1 + of_nat (length cs)) = 0" using s by (simp add: string_at_def add.assoc)
  ultimately show "m p = c \<and> c \<noteq> 0 \<and> string_at m (p + 1) cs \<and> length cs < 2 ^ 32 - 1"
    using h[of 0] s by (simp add: string_at_def)
next
  assume a: "m p = c \<and> c \<noteq> 0 \<and> string_at m (p + 1) cs \<and> length cs < 2 ^ 32 - 1"
  have "m (p + of_nat i) = (c # cs) ! i \<and> (c # cs) ! i \<noteq> 0" if "i < Suc (length cs)" for i
    using a that by (cases i) (simp_all add: string_at_def add.assoc)
  then show "string_at m p (c # cs)" using a by (simp add: string_at_def add.assoc)
qed

lemma strlen_from_string:
  "string_at m sc cs \<Longrightarrow> strlen_from sc s m = Some (sc - s + of_nat (length cs))"
  by (induction cs arbitrary: sc) (subst strlen_from.simps, simp add: string_at_Nil string_at_Cons)+

lemma rt_strlen_string: "string_at m s cs \<Longrightarrow> rt_strlen s m = Some (of_nat (length cs))"
  by (simp add: rt_strlen_def strlen_from_string)

lemma rt_strnlen_string:
  assumes "string_at m s cs"
  shows "rt_strnlen s maxlen m = Some (of_nat (min (length cs) (unat maxlen)))"
proof -
  have "strnlen_from (s + of_nat k) s maxlen m = Some (of_nat (min (length cs) (unat maxlen)))"
    if "k \<le> length cs" "k \<le> unat maxlen" for k
    using that
  proof (induction "length cs - k" arbitrary: k)
    case 0
    then have "k = length cs" by simp
    then show ?case using assms 0 by (subst strnlen_from.simps) (simp add: string_at_def)
  next
    case (Suc n)
    then have k: "k < length cs" by simp
    have u: "unat (of_nat k :: rt_uint32) = k"
      using k assms by (simp add: string_at_def unat_of_nat)
    have nz: "m (s + of_nat k) \<noteq> 0" using k assms by (simp add: string_at_def)
    show ?case
    proof (cases "k < unat maxlen")
      case True
      have e: "s + of_nat (Suc k) = s + of_nat k + 1" by simp
      have "strnlen_from (s + of_nat k + 1) s maxlen m = Some (of_nat (min (length cs) (unat maxlen)))"
        using Suc(1)[of "Suc k"] Suc(2) True k unfolding e by simp
      then show ?thesis using nz True u by (subst strnlen_from.simps) (simp add: word_less_nat_alt)
    next
      case False
      then show ?thesis using nz Suc.prems u k by (subst strnlen_from.simps) (simp add: word_less_nat_alt)
    qed
  qed
  from this[of 0] show ?thesis by (simp add: rt_strnlen_def)
qed

lemma rt_strcmp_string:
  "string_at m a as \<Longrightarrow> string_at m b bs \<Longrightarrow> \<exists>d. rt_strcmp a b m = Some d \<and> (d = 0 \<longleftrightarrow> as = bs)"
proof (induction as arbitrary: a b bs)
  case Nil
  then show ?case by (subst rt_strcmp.simps, cases bs) (auto simp: string_at_Nil string_at_Cons word_uint_eq_iff)
next
  case (Cons x as)
  show ?case
  proof (cases bs)
    case Nil
    then show ?thesis using Cons by (subst rt_strcmp.simps) (auto simp: string_at_Nil string_at_Cons word_uint_eq_iff)
  next
    case (Cons y bs')
    then show ?thesis using Cons.prems Cons.IH[of "a + 1" "b + 1" bs']
      by (subst rt_strcmp.simps) (auto simp: string_at_Cons word_uint_eq_iff)
  qed
qed

lemma memcmp_prefix:
  assumes a: "string_at m p as" and b: "string_at m q bs" and i: "i + length bs \<le> length as"
  shows "(rt_memcmp (p + of_nat i) q (of_nat (length bs)) m = 0) = (take (length bs) (drop i as) = bs)"
proof -
  have u: "unat (of_nat (length bs) :: rt_uint32) = length bs"
    using b by (simp add: string_at_def unat_of_nat)
  have "m (p + of_nat i + of_nat j) = as ! (i + j)" "m (q + of_nat j) = bs ! j" if "j < length bs" for j
    using a b i that by (simp_all add: string_at_def add.assoc flip: of_nat_add)
  then have "(rt_memcmp (p + of_nat i) q (of_nat (length bs)) m = 0) = (\<forall>j < length bs. as ! (i + j) = bs ! j)"
    by (simp add: rt_memcmp_def memcmp_bytes_zero u)
  also have "\<dots> = (take (length bs) (drop i as) = bs)"
    using i by (auto simp: list_eq_iff_nth_eq)
  finally show ?thesis .
qed

text \<open>The first place where a string occurs in another.\<close>

definition first_occurrence :: "rt_uint8 list \<Rightarrow> rt_uint8 list \<Rightarrow> nat option" where
  "first_occurrence as bs =
    find (\<lambda>i. take (length bs) (drop i as) = bs) [0..<Suc (length as) - length bs]"

lemma strstr_loop_find:
  assumes a: "string_at m p as" and b: "string_at m q bs" and k: "i + k + length bs = Suc (length as)" "bs \<noteq> []"
  shows "strstr_loop k (p + of_nat i) q (of_nat (length bs)) m
    = map_option (\<lambda>j. p + of_nat j) (find (\<lambda>i. take (length bs) (drop i as) = bs) [i..<i + k])"
  using k(1)
proof (induction k arbitrary: i)
  case (Suc k)
  have "i + length bs \<le> length as" using Suc.prems by simp
  note mp = memcmp_prefix[OF a b this]
  have e: "p + of_nat i + 1 = p + of_nat (Suc i)" by simp
  have l: "[i..<i + Suc k] = i # [Suc i..<Suc i + k]" by (simp add: upt_conv_Cons)
  show ?case using Suc.IH[of "Suc i"] Suc.prems mp unfolding l strstr_loop.simps e by simp
qed simp

text \<open>\<^verbatim>\<open>rt_strstr\<close> returns the address of the first occurrence of a string in another one, and 0
  when there is none; an empty string occurs at the start. Its loop over \<^verbatim>\<open>rt_memcmp\<close> reads the
  bytes of the two strings.\<close>

theorem rt_strstr_correct:
  assumes a: "string_at m p as" and b: "string_at m q bs" and l: "length as < 2 ^ 31" "length bs < 2 ^ 31"
  shows "rt_strstr p q m = Some (map_option (\<lambda>i. p + of_nat i) (first_occurrence as bs))"
proof (cases "bs = []")
  case True
  have "first_occurrence as [] = Some 0" by (simp add: first_occurrence_def upt_conv_Cons del: upt_Suc)
  then show ?thesis using True rt_strlen_string[OF b] by (simp add: rt_strstr_def)
next
  case False
  have s: "sint (of_nat (length as) :: rt_uint32) = int (length as)" "sint (of_nat (length bs) :: rt_uint32) = int (length bs)"
    using l by (simp_all add: signed_of_nat signed_take_bit_int_eq_self)
  have "(of_nat (length bs) :: rt_uint32) \<noteq> 0"
  proof
    assume z: "(of_nat (length bs) :: rt_uint32) = 0"
    have "unat (of_nat (length bs) :: rt_uint32) = length bs" using l(2) by (simp add: unat_of_nat)
    then show False using z False by simp
  qed
  moreover have "nat (int (length as) - int (length bs) + 1) = Suc (length as) - length bs" by linarith
  moreover have "strstr_loop (Suc (length as) - length bs) p q (of_nat (length bs)) m
      = map_option (\<lambda>i. p + of_nat i) (first_occurrence as bs)"
  proof (cases "length bs \<le> Suc (length as)")
    case True
    then show ?thesis using strstr_loop_find[OF a b _ False, of 0 "Suc (length as) - length bs"]
      by (simp add: first_occurrence_def)
  qed (simp add: first_occurrence_def)
  ultimately show ?thesis
    using rt_strlen_string[OF a] rt_strlen_string[OF b] s by (simp add: rt_strstr_def)
qed

lemma rt_strstr_witness:
  "rt_strstr 10 11 (\<lambda>a. if a = 10 then 97 else if a = 11 then 98 else 0)
    = Some (map_option (\<lambda>i. 10 + of_nat i) (first_occurrence [97, 98] [98]))"
  by (rule rt_strstr_correct) (auto simp: string_at_def nth_Cons' less_Suc_eq)

end
