(* ===== verification/RT_Printf.thy ===== *)
theory RT_Printf
  imports RT_String
begin

text \<open>The formatted output of src/kservice.c, with the precision that the file switches on, and without
  long long and the special forms. Characters are written to memory one by one; what lies behind the end of
  the buffer is counted and not written.\<close>

section \<open>Characters and flags\<close>

abbreviation ch :: "char \<Rightarrow> rt_uint8" where
  "ch c \<equiv> of_char c"

definition ZEROPAD :: rt_uint8 where "ZEROPAD = 1"
definition SIGN :: rt_uint8 where "SIGN = 2"
definition PLUS :: rt_uint8 where "PLUS = 4"
definition SPACE :: rt_uint8 where "SPACE = 8"
definition LEFT :: rt_uint8 where "LEFT = 16"
definition SPECIAL :: rt_uint8 where "SPECIAL = 32"
definition LARGE :: rt_uint8 where "LARGE = 64"

text \<open>\<^verbatim>\<open>isdigit\<close>, on the promoted character as an unsigned number.\<close>

definition is_digit :: "rt_uint8 \<Rightarrow> bool" where
  "is_digit c = ((ucast c - 48 :: rt_uint32) < 10)"

section \<open>Writing\<close>

text \<open>The place and the memory. The pointer moves on also behind the end.\<close>

type_synonym out = "rt_uint32 \<times> memory"

definition emit :: "rt_uint32 \<Rightarrow> rt_uint8 \<Rightarrow> out \<Rightarrow> out" where
  "emit end c st = (case st of (str, m) \<Rightarrow> (str + 1, if str \<le> end then m(str := c) else m))"

definition emits :: "rt_uint32 \<Rightarrow> rt_uint8 list \<Rightarrow> out \<Rightarrow> out" where
  "emits end cs st = fold (emit end) cs st"

text \<open>\<^verbatim>\<open>while (size-- > 0)\<close>: the count is decremented once more when the loop ends.\<close>

function pad :: "rt_uint32 \<Rightarrow> rt_uint8 \<Rightarrow> int \<Rightarrow> out \<Rightarrow> int \<times> out" where
  "pad end c sz st = (if sz > 0 then pad end c (sz - 1) (emit end c st) else (sz - 1, st))"
  by pat_completeness auto
termination by (relation "measure (\<lambda>(_, _, sz, _). nat sz)") auto

text \<open>\<^verbatim>\<open>while (--width > 0)\<close>.\<close>

function pad_pre :: "rt_uint32 \<Rightarrow> int \<Rightarrow> out \<Rightarrow> int \<times> out" where
  "pad_pre end w st = (if w - 1 > 0 then pad_pre end (w - 1) (emit end (ch CHR '' '') st) else (w - 1, st))"
  by pat_completeness auto
termination by (relation "measure (\<lambda>(_, w, _). nat w)") auto

text \<open>\<^verbatim>\<open>while (len < width--)\<close>.\<close>

function pad_len :: "rt_uint32 \<Rightarrow> rt_uint8 \<Rightarrow> int \<Rightarrow> int \<Rightarrow> out \<Rightarrow> int \<times> out" where
  "pad_len end c len w st = (if len < w then pad_len end c len (w - 1) (emit end c st) else (w - 1, st))"
  by pat_completeness auto
termination by (relation "measure (\<lambda>(_, _, len, w, _). nat (w - len))") auto

declare pad.simps [simp del] pad_pre.simps [simp del] pad_len.simps [simp del]

section \<open>Numbers\<close>

text \<open>Any base but 10 is taken for 16.\<close>

definition divide :: "rt_uint32 \<Rightarrow> rt_uint8 \<Rightarrow> rt_uint32 \<times> rt_uint32" where
  "divide n base = (if base = 10 then (n mod 10, n div 10) else (n mod 16, n div 16))"

definition digit_char :: "bool \<Rightarrow> nat \<Rightarrow> rt_uint8" where
  "digit_char large d = (if d < 10 then ch CHR ''0'' + of_nat d
     else (if large then ch CHR ''A'' else ch CHR ''a'') + of_nat (d - 10))"

text \<open>\<^verbatim>\<open>while (num != 0) tmp[i++] = digits[divide (&num, base)]\<close>: the characters of tmp.\<close>

function number_digits :: "bool \<Rightarrow> rt_uint32 \<Rightarrow> rt_uint8 \<Rightarrow> rt_uint8 list" where
  "number_digits large num base =
    (if num \<noteq> 0
     then digit_char large (unat (fst (divide num base))) # number_digits large (snd (divide num base)) base
     else [])"
  by pat_completeness auto
termination
proof (relation "measure (\<lambda>(_, num, _). unat num)")
  fix large :: bool and num :: rt_uint32 and base :: rt_uint8
  assume "num \<noteq> 0"
  then have "0 < unat num" by (simp add: unat_gt_0)
  then show "((large, snd (divide num base), base), (large, num, base)) \<in> measure (\<lambda>(_, num, _). unat num)"
    by (simp add: divide_def unat_div)
qed simp

declare number_digits.simps [simp del]

text \<open>The sign and the absolute value; \<^verbatim>\<open>-num\<close> of the least number is this number again.\<close>

definition number_sign :: "rt_uint8 \<Rightarrow> rt_uint32 \<Rightarrow> rt_uint8 \<times> rt_uint32" where
  "number_sign type num =
    (if type AND SIGN \<noteq> 0 then
       (if sint num < 0 then (ch CHR ''-'', - num)
        else if type AND PLUS \<noteq> 0 then (ch CHR ''+'', num)
        else if type AND SPACE \<noteq> 0 then (ch CHR '' '', num)
        else (0, num))
     else (0, num))"

text \<open>The temporary buffer has 16 bytes. With a precision close to the greatest \<^verbatim>\<open>int\<close> the count of the
  padding would overflow, which is undefined.\<close>

definition print_number ::
  "rt_uint32 \<Rightarrow> rt_uint32 \<Rightarrow> rt_uint8 \<Rightarrow> int \<Rightarrow> int \<Rightarrow> rt_uint8 \<Rightarrow> out \<Rightarrow> out option" where
  "print_number end num base s precision type st =
    (let large = (type AND LARGE \<noteq> 0);
         type = (if type AND LEFT \<noteq> 0 then type AND NOT ZEROPAD else type);
         c = (if type AND ZEROPAD \<noteq> 0 then ch CHR ''0'' else ch CHR '' '');
         (sign, num) = number_sign type num;
         tmp = (if num = 0 then [ch CHR ''0''] else number_digits large num base);
         i = int (length tmp);
         precision = (if i > precision then i else precision);
         sz = s - precision;
         (sz, st) = (if type AND (ZEROPAD OR LEFT) = 0
           then pad end (ch CHR '' '') (if sign \<noteq> 0 \<and> sz > 0 then sz - 1 else sz) st else (sz, st));
         (sz, st) = (if sign \<noteq> 0 then (if fst st \<le> end then sz - 1 else sz, emit end sign st) else (sz, st));
         (sz, st) = (if type AND LEFT = 0 then pad end c sz st else (sz, st));
         st = snd (pad_len end (ch CHR ''0'') i precision st);
         st = emits end (rev tmp) st;
         (sz, st) = pad end (ch CHR '' '') sz st
     in if length tmp \<le> 16 \<and> precision < 2 ^ 31 - 8 then Some st else None)"

section \<open>The format\<close>

text \<open>The format string is the list of its characters; the arguments are words, of type int or
  pointers. Reading an argument that is not there or of the other kind is undefined.\<close>

datatype varg = VInt rt_uint32 | VPtr rt_uint32

fun scan_flags :: "rt_uint8 \<Rightarrow> rt_uint8 list \<Rightarrow> rt_uint8 \<times> rt_uint8 list" where
  "scan_flags flags [] = (flags, [])"
| "scan_flags flags (c # cs) =
    (if c = ch CHR ''-'' then scan_flags (flags OR LEFT) cs
     else if c = ch CHR ''+'' then scan_flags (flags OR PLUS) cs
     else if c = ch CHR '' '' then scan_flags (flags OR SPACE) cs
     else if c = ch CHR ''#'' then scan_flags (flags OR SPECIAL) cs
     else if c = ch CHR ''0'' then scan_flags (flags OR ZEROPAD) cs
     else (flags, c # cs))"

text \<open>A width of more than \<^verbatim>\<open>int\<close> can hold overflows.\<close>

fun skip_atoi :: "int \<Rightarrow> rt_uint8 list \<Rightarrow> (int \<times> rt_uint8 list) option" where
  "skip_atoi i [] = Some (i, [])"
| "skip_atoi i (c # cs) =
    (if is_digit c then
       (if i * 10 + uint c < 2 ^ 31 then skip_atoi (i * 10 + uint c - 48) cs else None)
     else Some (i, c # cs))"

fun scan_width ::
  "rt_uint8 \<Rightarrow> rt_uint8 list \<Rightarrow> varg list \<Rightarrow> (int \<times> rt_uint8 \<times> rt_uint8 list \<times> varg list) option" where
  "scan_width flags [] args = Some (- 1, flags, [], args)"
| "scan_width flags (c # cs) args =
    (if is_digit c then map_option (\<lambda>(w, cs). (w, flags, cs, args)) (skip_atoi 0 (c # cs))
     else if c = ch CHR ''*'' then
       (case args of
          VInt w # args \<Rightarrow>
            (if sint w < 0 then (if sint w = - (2 ^ 31) then None else Some (- sint w, flags OR LEFT, cs, args))
             else Some (sint w, flags, cs, args))
        | _ \<Rightarrow> None)
     else Some (- 1, flags, c # cs, args))"

text \<open>A point without a number is the precision 0; without a point it is minus one.\<close>

fun scan_precision :: "rt_uint8 list \<Rightarrow> varg list \<Rightarrow> (int \<times> rt_uint8 list \<times> varg list) option" where
  "scan_precision [] args = Some (- 1, [], args)"
| "scan_precision (c # cs) args =
    (if c = ch CHR ''.'' then
       map_option (\<lambda>(p, r). (if p < 0 then 0 else p, r))
        (case cs of
           [] \<Rightarrow> Some (- 1, [], args)
         | d # ds \<Rightarrow>
             (if is_digit d then map_option (\<lambda>(p, cs). (p, cs, args)) (skip_atoi 0 cs)
              else if d = ch CHR ''*'' then
                (case args of VInt p # args \<Rightarrow> Some (sint p, ds, args) | _ \<Rightarrow> None)
              else Some (- 1, cs, args)))
     else Some (- 1, c # cs, args))"

fun scan_qualifier :: "rt_uint8 list \<Rightarrow> rt_uint8 \<times> rt_uint8 list" where
  "scan_qualifier [] = (0, [])"
| "scan_qualifier (c # cs) = (if c = ch CHR ''h'' \<or> c = ch CHR ''l'' then (c, cs) else (0, c # cs))"

text \<open>The value of an integer argument: a short for the qualifier \<^verbatim>\<open>h\<close>.\<close>

definition int_arg :: "rt_uint8 \<Rightarrow> rt_uint8 \<Rightarrow> rt_uint32 \<Rightarrow> rt_uint32" where
  "int_arg qualifier flags w =
    (if qualifier = ch CHR ''h''
     then (if flags AND SIGN \<noteq> 0 then scast (ucast w :: rt_uint16) else ucast (ucast w :: rt_uint16))
     else w)"

definition null_text :: "rt_uint8 list" where
  "null_text = map of_char ''(NULL)''"

text \<open>The characters of a string argument are read when they are written.\<close>

fun emit_string :: "rt_uint32 \<Rightarrow> nat \<Rightarrow> rt_uint32 \<Rightarrow> out \<Rightarrow> out" where
  "emit_string end 0 s st = st"
| "emit_string end (Suc n) s st = emit_string end n (s + 1) (emit end (snd st s) st)"

definition format_char :: "rt_uint32 \<Rightarrow> rt_uint8 \<Rightarrow> int \<Rightarrow> rt_uint8 \<Rightarrow> out \<Rightarrow> out" where
  "format_char end flags w c st =
    (let (w, st) = (if flags AND LEFT = 0 then pad_pre end w st else (w, st));
         st = emit end c st
     in snd (pad_pre end w st))"

definition format_string ::
  "rt_uint32 \<Rightarrow> rt_uint8 \<Rightarrow> int \<Rightarrow> int \<Rightarrow> rt_uint32 \<Rightarrow> out \<Rightarrow> out option" where
  "format_string end flags w precision s st = do {
     len \<leftarrow> (if s = 0 then Some (length null_text) else map_option unat (rt_strlen s (snd st)));
     (if len < 2 ^ 31 then
        (let len = (if precision > 0 \<and> int len > precision then nat precision else len);
             (w, st) = (if flags AND LEFT = 0 then pad_len end (ch CHR '' '') (int len) w st else (w, st));
             st = (if s = 0 then emits end (take len null_text) st else emit_string end len s st)
         in Some (snd (pad_len end (ch CHR '' '') (int len) w st)))
      else None)
   }"

definition format_int ::
  "rt_uint32 \<Rightarrow> rt_uint8 \<Rightarrow> int \<Rightarrow> int \<Rightarrow> rt_uint8 \<Rightarrow> rt_uint8 \<Rightarrow> varg list \<Rightarrow> out \<Rightarrow> (varg list \<times> out) option" where
  "format_int end flags w precision qualifier base args st =
    (case args of
       VInt v # args \<Rightarrow>
         map_option (Pair args) (print_number end (int_arg qualifier flags v) base w precision flags st)
     | _ \<Rightarrow> None)"

text \<open>The switch over the conversion character; at the end of the format a single \<^verbatim>\<open>%\<close> is written.\<close>

fun format_directive ::
  "rt_uint32 \<Rightarrow> rt_uint8 \<Rightarrow> int \<Rightarrow> int \<Rightarrow> rt_uint8 \<Rightarrow> rt_uint8 list \<Rightarrow> varg list \<Rightarrow> out
    \<Rightarrow> (rt_uint8 list \<times> varg list \<times> out) option" where
  "format_directive end flags w pr q [] args st = Some ([], args, emit end (ch CHR ''%'') st)"
| "format_directive end flags w pr q (c # cs) args st =
    map_option (Pair cs)
     (if c = ch CHR ''c'' then
        (case args of VInt v # args \<Rightarrow> Some (args, format_char end flags w (ucast v) st) | _ \<Rightarrow> None)
      else if c = ch CHR ''s'' then
        (case args of VPtr s # args \<Rightarrow> map_option (Pair args) (format_string end flags w pr s st) | _ \<Rightarrow> None)
      else if c = ch CHR ''p'' then
        (case args of VPtr p # args \<Rightarrow>
             map_option (Pair args) (if w = - 1 then print_number end p 16 8 pr (flags OR ZEROPAD) st
               else print_number end p 16 w pr flags st)
         | _ \<Rightarrow> None)
      else if c = ch CHR ''%'' then Some (args, emit end (ch CHR ''%'') st)
      else if c = ch CHR ''o'' then format_int end flags w pr q 8 args st
      else if c = ch CHR ''X'' then format_int end (flags OR LARGE) w pr q 16 args st
      else if c = ch CHR ''x'' then format_int end flags w pr q 16 args st
      else if c = ch CHR ''d'' \<or> c = ch CHR ''i'' then format_int end (flags OR SIGN) w pr q 10 args st
      else if c = ch CHR ''u'' then format_int end flags w pr q 10 args st
      else Some (args, emit end c (emit end (ch CHR ''%'') st)))"

lemma scan_lengths:
  "length (snd (scan_flags f cs)) \<le> length cs"
  "skip_atoi i cs = Some (w, cs') \<Longrightarrow> length cs' \<le> length cs"
  "scan_width f cs args = Some (w, f', cs', args') \<Longrightarrow> length cs' \<le> length cs"
  "scan_precision cs args = Some (pr, cs', args') \<Longrightarrow> length cs' \<le> length cs"
  "length (snd (scan_qualifier cs)) \<le> length cs"
  "format_directive end f w pr q cs args st = Some (cs', r) \<Longrightarrow> length cs' \<le> length cs"
proof -
  show "length (snd (scan_flags f cs)) \<le> length cs" by (induction f cs rule: scan_flags.induct) auto
  show s: "skip_atoi i cs = Some (w, cs') \<Longrightarrow> length cs' \<le> length cs" for i cs w cs'
    by (induction i cs rule: skip_atoi.induct) (auto split: if_splits)
  show "scan_width f cs args = Some (w, f', cs', args') \<Longrightarrow> length cs' \<le> length cs"
    by (cases cs) (auto split: if_splits list.splits varg.splits simp del: skip_atoi.simps dest!: s)
  show "scan_precision cs args = Some (pr, cs', args') \<Longrightarrow> length cs' \<le> length cs"
    by (cases cs) (auto split: if_splits list.splits varg.splits simp del: skip_atoi.simps dest!: s)
  show "length (snd (scan_qualifier cs)) \<le> length cs" by (cases cs) auto
  show "format_directive end f w pr q cs args st = Some (cs', r) \<Longrightarrow> length cs' \<le> length cs"
    by (cases cs) auto
qed

function format_loop ::
  "rt_uint32 \<Rightarrow> rt_uint8 list \<Rightarrow> varg list \<Rightarrow> out \<Rightarrow> out option" where
  "format_loop end [] args st = Some st"
| "format_loop end (c # cs) args st =
    (if c \<noteq> ch CHR ''%'' then format_loop end cs args (emit end c st)
     else case scan_flags 0 cs of (flags, cs1) \<Rightarrow>
       (case scan_width flags cs1 args of
          None \<Rightarrow> None
        | Some (w, flags, cs2, args) \<Rightarrow>
            (case scan_precision cs2 args of
               None \<Rightarrow> None
             | Some (pr, cs3, args) \<Rightarrow>
                 (case scan_qualifier cs3 of (q, cs4) \<Rightarrow>
                    (case format_directive end flags w pr q cs4 args st of
                       None \<Rightarrow> None
                     | Some (cs5, args, st) \<Rightarrow> format_loop end cs5 args st)))))"
  by pat_completeness auto
termination
proof (relation "measure (\<lambda>(_, cs, _). length cs)")
  fix flags cs1 cs args x2 w y flags' z cs2 args' xp pr yp cs3 argsp q cs4 x2a cs5 ya args'' st'
    and c :: rt_uint8 and st :: out and "end" :: rt_uint32
  assume a: "(flags, cs1) = scan_flags 0 cs" "scan_width flags cs1 args = Some x2"
    "(w, y) = x2" "(flags', z) = y" "(cs2, args') = z" "scan_precision cs2 args' = Some xp"
    "(pr, yp) = xp" "(cs3, argsp) = yp" "(q, cs4) = scan_qualifier cs3"
    "format_directive end flags' w pr q cs4 argsp st = Some x2a" "(cs5, ya) = x2a" "(args'', st') = ya"
  have "length cs1 \<le> length cs" using scan_lengths(1)[of 0 cs] by (simp flip: a(1))
  moreover have "length cs2 \<le> length cs1" using scan_lengths(3) a(2-5) by metis
  moreover have "length cs3 \<le> length cs2" using scan_lengths(4) a(6-8) by metis
  moreover have "length cs4 \<le> length cs3" using scan_lengths(5)[of cs3] by (simp flip: a(9))
  moreover have "length cs5 \<le> length cs4" using scan_lengths(6) a(10,11) by metis
  ultimately show "((end, cs5, args'', st'), end, c # cs, args, st) \<in> measure (\<lambda>(_, cs, _). length cs)" by simp
qed simp_all

definition rt_vsnprintf ::
  "rt_uint32 \<Rightarrow> rt_size \<Rightarrow> rt_uint8 list \<Rightarrow> varg list \<Rightarrow> memory \<Rightarrow> (rt_uint32 \<times> memory) option" where
  "rt_vsnprintf buf sz fmt args m =
    (let end0 = buf + sz - 1;
         end = (if end0 < buf then - 1 else end0)
     in case format_loop end fmt args (buf, m) of
          None \<Rightarrow> None
        | Some (str, m) \<Rightarrow>
            Some (str - buf, if str \<le> end then m(str := 0) else m(end := 0)))"

definition rt_snprintf ::
  "rt_uint32 \<Rightarrow> rt_size \<Rightarrow> rt_uint8 list \<Rightarrow> varg list \<Rightarrow> memory \<Rightarrow> (rt_uint32 \<times> memory) option" where
  "rt_snprintf buf sz fmt args m = rt_vsnprintf buf sz fmt args m"

definition rt_vsprintf ::
  "rt_uint32 \<Rightarrow> rt_uint8 list \<Rightarrow> varg list \<Rightarrow> memory \<Rightarrow> (rt_uint32 \<times> memory) option" where
  "rt_vsprintf buf fmt args m = rt_vsnprintf buf (- 1) fmt args m"

definition rt_sprintf ::
  "rt_uint32 \<Rightarrow> rt_uint8 list \<Rightarrow> varg list \<Rightarrow> memory \<Rightarrow> (rt_uint32 \<times> memory) option" where
  "rt_sprintf buf fmt args m = rt_vsprintf buf fmt args m"

end
