(* ===== verification/RT_Printf_Ref.thy ===== *)
theory RT_Printf_Ref
  imports RT_Printf
begin

text \<open>What the formatted output has to be, as a list of characters, the loops of RT\_Printf as lists
  of written characters, and when two texts agree up to the end of the buffer.\<close>

section \<open>The reference\<close>

fun nat_digits :: "bool \<Rightarrow> nat \<Rightarrow> nat \<Rightarrow> rt_uint8 list" where
  "nat_digits large b n =
    (if b \<le> 1 \<or> n < b then [digit_char large n]
     else nat_digits large b (n div b) @ [digit_char large (n mod b)])"

declare nat_digits.simps [simp del]

abbreviation spaces :: "nat \<Rightarrow> rt_uint8 list" where
  "spaces n \<equiv> replicate n (ch CHR '' '')"

text \<open>A text of a sign and digits in a field: to the left, padded with zeros, or to the right.\<close>

definition justify :: "rt_uint8 \<Rightarrow> int \<Rightarrow> rt_uint8 list \<Rightarrow> rt_uint8 list \<Rightarrow> rt_uint8 list" where
  "justify flags w sg tx =
    (let n = nat (w - int (length sg + length tx)) in
     if flags AND LEFT \<noteq> 0 then sg @ tx @ spaces n
     else if flags AND ZEROPAD \<noteq> 0 then sg @ replicate n (ch CHR ''0'') @ tx
     else spaces n @ sg @ tx)"

text \<open>The digits of a number, with zeros up to the precision.\<close>

definition render_number :: "rt_uint8 \<Rightarrow> int \<Rightarrow> int \<Rightarrow> nat \<Rightarrow> rt_uint32 \<Rightarrow> rt_uint8 list" where
  "render_number flags w precision b num =
    (let signed = (flags AND SIGN \<noteq> 0);
         v = (if signed then sint num else uint num);
         sg = (if v < 0 then [ch CHR ''-''] else if signed \<and> flags AND PLUS \<noteq> 0 then [ch CHR ''+'']
                else if signed \<and> flags AND SPACE \<noteq> 0 then [ch CHR '' ''] else []);
         ds = nat_digits (flags AND LARGE \<noteq> 0) b (nat \<bar>v\<bar>)
     in justify flags w sg (replicate (nat precision - length ds) (ch CHR ''0'') @ ds))"

text \<open>Characters and strings are never padded with zeros.\<close>

definition render_text :: "rt_uint8 \<Rightarrow> int \<Rightarrow> rt_uint8 list \<Rightarrow> rt_uint8 list" where
  "render_text flags w tx = justify (flags AND NOT ZEROPAD) w [] tx"

definition render_int ::
  "rt_uint8 \<Rightarrow> int \<Rightarrow> int \<Rightarrow> rt_uint8 \<Rightarrow> nat \<Rightarrow> varg list \<Rightarrow> (varg list \<times> rt_uint8 list) option" where
  "render_int flags w pr q b args =
    (case args of
       VInt v # args \<Rightarrow> if pr < 2 ^ 31 - 8 then Some (args, render_number flags w pr b (int_arg q flags v)) else None
     | _ \<Rightarrow> None)"

text \<open>The strings that pointers point to are the argument \<^verbatim>\<open>str\<close>; the base of \<^verbatim>\<open>%o\<close> is \<^verbatim>\<open>ob\<close>.\<close>

fun render_directive ::
  "(rt_uint32 \<Rightarrow> rt_uint8 list option) \<Rightarrow> nat \<Rightarrow> rt_uint8 \<Rightarrow> int \<Rightarrow> int \<Rightarrow> rt_uint8 \<Rightarrow> rt_uint8 list \<Rightarrow> varg list
    \<Rightarrow> (rt_uint8 list \<times> varg list \<times> rt_uint8 list) option" where
  "render_directive str ob flags w pr q [] args = Some ([], args, [ch CHR ''%''])"
| "render_directive str ob flags w pr q (c # cs) args =
    map_option (Pair cs)
     (if c = ch CHR ''c'' then
        (case args of VInt v # args \<Rightarrow> Some (args, render_text flags w [ucast v]) | _ \<Rightarrow> None)
      else if c = ch CHR ''s'' then
        (case args of
           VPtr s # args \<Rightarrow>
             (case (if s = 0 then Some null_text else str s) of
                Some tx \<Rightarrow>
                  if length tx < 2 ^ 31 then Some (args, render_text flags w (if pr > 0 then take (nat pr) tx else tx))
                  else None
              | None \<Rightarrow> None)
         | _ \<Rightarrow> None)
      else if c = ch CHR ''p'' then
        (case args of VPtr p # args \<Rightarrow>
             if pr < 2 ^ 31 - 8
             then Some (args, if w = - 1 then render_number (flags OR ZEROPAD) 8 pr 16 p else render_number flags w pr 16 p)
             else None
         | _ \<Rightarrow> None)
      else if c = ch CHR ''%'' then Some (args, [ch CHR ''%''])
      else if c = ch CHR ''o'' then render_int flags w pr q ob args
      else if c = ch CHR ''X'' then render_int (flags OR LARGE) w pr q 16 args
      else if c = ch CHR ''x'' then render_int flags w pr q 16 args
      else if c = ch CHR ''d'' \<or> c = ch CHR ''i'' then render_int (flags OR SIGN) w pr q 10 args
      else if c = ch CHR ''u'' then render_int flags w pr q 10 args
      else Some (args, [ch CHR ''%'', c]))"

lemma render_directive_length:
  "render_directive str ob f w pr q cs args = Some (cs', r) \<Longrightarrow> length cs' \<le> length cs"
  by (cases cs) auto

function render ::
  "(rt_uint32 \<Rightarrow> rt_uint8 list option) \<Rightarrow> nat \<Rightarrow> rt_uint8 list \<Rightarrow> varg list \<Rightarrow> rt_uint8 list option" where
  "render str ob [] args = Some []"
| "render str ob (c # cs) args =
    (if c \<noteq> ch CHR ''%'' then map_option (Cons c) (render str ob cs args)
     else case scan_flags 0 cs of (flags, cs1) \<Rightarrow>
       (case scan_width flags cs1 args of
          None \<Rightarrow> None
        | Some (w, flags, cs2, args) \<Rightarrow>
            (case scan_precision cs2 args of
               None \<Rightarrow> None
             | Some (pr, cs3, args) \<Rightarrow>
                 (case scan_qualifier cs3 of (q, cs4) \<Rightarrow>
                    (case render_directive str ob flags w pr q cs4 args of
                       None \<Rightarrow> None
                     | Some (cs5, args, tx) \<Rightarrow> map_option (append tx) (render str ob cs5 args))))))"
  by pat_completeness auto
termination
proof (relation "measure (\<lambda>(_, _, cs, _). length cs)")
  fix flags cs1 cs args x2 w y flags' z cs2 args' xp pr yp cs3 argsp q cs4 x2a cs5 ya args'' tx
    and c :: rt_uint8 and str :: "rt_uint32 \<Rightarrow> rt_uint8 list option" and ob :: nat
  assume a: "(flags, cs1) = scan_flags 0 cs" "scan_width flags cs1 args = Some x2"
    "(w, y) = x2" "(flags', z) = y" "(cs2, args') = z" "scan_precision cs2 args' = Some xp"
    "(pr, yp) = xp" "(cs3, argsp) = yp" "(q, cs4) = scan_qualifier cs3"
    "render_directive str ob flags' w pr q cs4 argsp = Some x2a" "(cs5, ya) = x2a" "(args'', tx) = ya"
  have "length cs1 \<le> length cs" using scan_lengths(1)[of 0 cs] by (simp flip: a(1))
  moreover have "length cs2 \<le> length cs1" using scan_lengths(3) a(2-5) by metis
  moreover have "length cs3 \<le> length cs2" using scan_lengths(4) a(6-8) by metis
  moreover have "length cs4 \<le> length cs3" using scan_lengths(5)[of cs3] by (simp flip: a(9))
  moreover have "length cs5 \<le> length cs4" using render_directive_length a(10,11) by metis
  ultimately show "((str, ob, cs5, args''), str, ob, c # cs, args) \<in> measure (\<lambda>(_, _, cs, _). length cs)" by simp
qed simp_all

section \<open>Writing lists of characters\<close>

lemma emits_simps [simp]:
  "emits end [] st = st" "emits end (c # cs) st = emits end cs (emit end c st)"
  "emits end cs (emits end bs st) = emits end (bs @ cs) st"
  by (simp_all add: emits_def)

lemma emits_one: "emit end c st = emits end [c] st"
  by simp

lemma emits_fst: "fst (emits end cs st) = fst st + of_nat (length cs)"
  by (induction cs arbitrary: st) (auto simp: emit_def split: prod.split)

lemma pad_emits: "pad end c sz st = (if sz > 0 then - 1 else sz - 1, emits end (replicate (nat sz) c) st)"
proof (induction "nat sz" arbitrary: sz st)
  case 0
  then show ?case by (subst pad.simps) simp
next
  case (Suc n)
  then have "sz > 0" "n = nat (sz - 1)" by linarith+
  with Suc(1)[of "sz - 1"] show ?case
    by (subst pad.simps) (simp add: emits_one Suc(2)[symmetric] del: emits_simps(2))
qed

lemma pad_pre_emits:
  "pad_pre end w st = (if w > 1 then 0 else w - 1, emits end (spaces (nat (w - 1))) st)"
proof (induction "nat w" arbitrary: w st)
  case 0
  then show ?case by (subst pad_pre.simps) simp
next
  case (Suc n)
  show ?case
  proof (cases "w > 1")
    case True
    then have e: "nat (w - 1) = Suc (nat (w - 1 - 1))" "n = nat (w - 1)" using Suc(2) by linarith+
    show ?thesis using True Suc(1)[OF e(2)] unfolding e(1)
      by (subst pad_pre.simps) (simp add: nat_diff_distrib)
  next
    case False
    then show ?thesis by (subst pad_pre.simps) simp
  qed
qed

lemma pad_len_emits:
  "pad_len end c len w st = (if len < w then len - 1 else w - 1, emits end (replicate (nat (w - len)) c) st)"
proof (induction "nat (w - len)" arbitrary: w st)
  case 0
  then show ?case by (subst pad_len.simps) simp
next
  case (Suc n)
  then have e: "nat (w - len) = Suc (nat (w - 1 - len))" "n = nat (w - 1 - len)" "len < w" by linarith+
  show ?case using e(3) Suc(1)[OF e(2)] unfolding e(1) by (subst pad_len.simps) simp
qed

section \<open>Digits\<close>

lemma number_digits_rev:
  assumes "num \<noteq> 0"
  shows "rev (number_digits large num base) = nat_digits large (if base = 10 then 10 else 16) (unat num)"
  using assms
proof (induction large num base rule: number_digits.induct)
  case (1 large num base)
  let ?b = "if base = 10 then 10 else 16 :: nat"
  have d: "unat (fst (divide num base)) = unat num mod ?b" "unat (snd (divide num base)) = unat num div ?b"
    by (simp_all add: divide_def unat_mod unat_div)
  show ?case
  proof (cases "snd (divide num base) = 0")
    case True
    then have "unat num div ?b = 0" using d(2) by simp
    then have "unat num < ?b" by (auto simp: div_eq_0_iff split: if_splits)
    then show ?thesis using 1(2) True d(1)
      by (simp add: number_digits.simps[of large num] number_digits.simps[of large 0] nat_digits.simps[of large _ "unat num"])
  next
    case False
    then have "unat num div ?b \<noteq> 0" using d(2) by (metis unat_eq_zero)
    then have "\<not> unat num < ?b" by (auto split: if_splits)
    then show ?thesis using 1(1)[OF 1(2) False] 1(2) d
      by (simp add: number_digits.simps[of large num] nat_digits.simps[of large _ "unat num"])
  qed
qed

lemma number_digits_length:
  "unat num < (if base = 10 then 10 else 16) ^ k \<Longrightarrow> length (number_digits large num base) \<le> k"
proof (induction large num base arbitrary: k rule: number_digits.induct)
  case (1 large num base)
  let ?b = "if base = 10 then 10 else 16 :: nat"
  have d: "unat (snd (divide num base)) = unat num div ?b" by (simp add: divide_def unat_div)
  show ?case
  proof (cases "num = 0")
    case True
    then show ?thesis by (simp add: number_digits.simps[of large 0])
  next
    case False
    then have "0 < unat num" by (simp add: unat_gt_0)
    then obtain k' where k: "k = Suc k'" using 1(2) by (cases k) auto
    have "unat num div ?b < ?b ^ k'" using 1(2) unfolding k by (auto simp: less_mult_imp_div_less mult.commute)
    then have "length (number_digits large (snd (divide num base)) base) \<le> k'"
      using 1(1)[OF False, of k'] d by simp
    then show ?thesis using False k by (simp add: number_digits.simps[of large num])
  qed
qed

lemma number_digits_fit: "length (number_digits large num base) \<le> 10"
proof -
  have "unat num < 2 ^ LENGTH(32)" by (rule unsigned_less)
  then have "unat num < (if base = 10 then 10 else 16) ^ 10" by simp
  then show ?thesis by (rule number_digits_length)
qed

text \<open>The temporary buffer, written out in reverse.\<close>

definition number_tmp :: "bool \<Rightarrow> rt_uint32 \<Rightarrow> rt_uint8 \<Rightarrow> rt_uint8 list" where
  "number_tmp large num base = (if num = 0 then [ch CHR ''0''] else number_digits large num base)"

lemma number_tmp_spec:
  "rev (number_tmp large num base) = nat_digits large (if base = 10 then 10 else 16) (unat num)"
  "length (number_tmp large num base) \<le> 16" "number_tmp large num base \<noteq> []"
proof -
  show "rev (number_tmp large num base) = nat_digits large (if base = 10 then 10 else 16) (unat num)"
  proof (cases "num = 0")
    case True
    then show ?thesis by (simp add: number_tmp_def nat_digits.simps[of large _ 0] digit_char_def)
  next
    case False
    then have "number_tmp large num base = number_digits large num base" by (simp add: number_tmp_def)
    then show ?thesis by (simp only: number_digits_rev[OF False])
  qed
  show "length (number_tmp large num base) \<le> 16"
    using number_digits_fit[of large num base] by (simp add: number_tmp_def)
  show "number_tmp large num base \<noteq> []"
    by (simp add: number_tmp_def number_digits.simps[of large num])
qed

section \<open>Agreement up to the end of the buffer\<close>

definition room :: "rt_uint32 \<Rightarrow> rt_uint32 \<Rightarrow> nat" where
  "room end str = Suc (unat end) - unat str"

lemma room_pos: "str \<le> end \<longleftrightarrow> 0 < room end str"
  by (auto simp: room_def word_le_nat_alt)

lemma room_add:
  assumes "unat str + n < 2 ^ 32"
  shows "room end (str + of_nat n) = room end str - n"
proof -
  have "unat (str + of_nat n) = unat str + n" using assms by (simp add: unat_word_ariths unat_of_nat)
  then show ?thesis by (simp add: room_def)
qed

text \<open>The texts are the same, or so within the room.\<close>

definition agree :: "nat \<Rightarrow> 'a list \<Rightarrow> 'a list \<Rightarrow> bool" where
  "agree k a b = (a = b \<or> (k \<le> length a \<and> k \<le> length b \<and> take k a = take k b))"

lemma agree_refl [simp]: "agree k a a"
  by (simp add: agree_def)

lemma agree_0 [simp]: "agree 0 a b"
  by (simp add: agree_def)

lemma agree_append:
  assumes "agree k a a'" "agree (k - length a) b b'"
  shows "agree k (a @ b) (a' @ b')"
  using assms by (auto simp: agree_def min_def)

lemma agree_take: "agree k a b \<Longrightarrow> take k a = take k b"
  by (auto simp: agree_def)

lemma agree_short: "agree k a b \<Longrightarrow> length b < k \<Longrightarrow> a = b"
  by (auto simp: agree_def)

text \<open>An operation writes a text up to the end of the buffer, and at most one character more behind it.\<close>

definition writes :: "rt_uint32 \<Rightarrow> out \<Rightarrow> rt_uint8 list \<Rightarrow> out \<Rightarrow> bool" where
  "writes end st tx st' =
    (\<exists>tx'. st' = emits end tx' st \<and> agree (room end (fst st)) tx' tx \<and> length tx' \<le> Suc (length tx))"

lemma writes_emits [simp]: "writes end st tx (emits end tx st)"
  by (auto simp: writes_def)

end
