(* ===== verification/RT_Printf_Spec.thy ===== *)
theory RT_Printf_Spec
  imports RT_Printf_Ref
begin

text \<open>Every conversion of RT\_Printf, and the loop over the format, write the text of the reference.\<close>

section \<open>Numbers in fields\<close>

lemma flag_bits:
  "(f AND ZEROPAD \<noteq> 0) = bit f 0" "(f AND SIGN \<noteq> 0) = bit f 1" "(f AND PLUS \<noteq> 0) = bit f 2"
  "(f AND SPACE \<noteq> 0) = bit f 3" "(f AND LEFT \<noteq> 0) = bit f 4" "(f AND LARGE \<noteq> 0) = bit f 6"
  "(f AND (ZEROPAD OR LEFT) \<noteq> 0) = (bit f 0 \<or> bit f 4)"
proof -
  have b: "(f AND 2 ^ n \<noteq> 0) = bit f n" for n by (simp add: and_exp_eq_0_iff_not_bit)
  show "(f AND ZEROPAD \<noteq> 0) = bit f 0" "(f AND SIGN \<noteq> 0) = bit f 1" "(f AND PLUS \<noteq> 0) = bit f 2"
    "(f AND SPACE \<noteq> 0) = bit f 3" "(f AND LEFT \<noteq> 0) = bit f 4" "(f AND LARGE \<noteq> 0) = bit f 6"
    using b[of 0] b[of 1] b[of 2] b[of 3] b[of 4] b[of 6]
    by (simp_all add: ZEROPAD_def SIGN_def PLUS_def SPACE_def LEFT_def LARGE_def)
  have "f AND (ZEROPAD OR LEFT) = 0 \<longleftrightarrow> f AND ZEROPAD = 0 \<and> f AND LEFT = 0"
    by (simp add: bit.conj_disj_distrib or_eq_0_iff)
  then show "(f AND (ZEROPAD OR LEFT) \<noteq> 0) = (bit f 0 \<or> bit f 4)"
    using b[of 0] b[of 4] by (simp add: ZEROPAD_def LEFT_def)
qed

lemma no_zeropad:
  "bit (f AND NOT ZEROPAD) n = (bit f n \<and> n \<noteq> 0)"
proof -
  have "bit ZEROPAD n = (n = 0)" by (simp add: ZEROPAD_def bit_1_iff)
  moreover have "bit f n \<Longrightarrow> n < 8" using bit_imp_le_length[of f n] by simp
  ultimately show ?thesis by (auto simp: bit_simps)
qed

text \<open>Padding with zeros or to the left, a sign behind the end of the buffer is not counted, so that
  one character more follows; without these flags the text is the reference.\<close>

lemma sign_abs:
  fixes num :: rt_uint32
  shows "unat (if sint num < 0 then - num else num) = nat \<bar>sint num\<bar>"
proof -
  have r: "- (2 ^ 31) \<le> sint num" "sint num < 2 ^ 31"
    using sint_greater_eq[of num] sint_less[of num] by simp_all
  have abs: "(if sint num < 0 then - num else num) = word_of_int \<bar>sint num\<bar>" by simp
  have "uint (word_of_int \<bar>sint num\<bar> :: rt_uint32) = \<bar>sint num\<bar>"
    unfolding uint_word_of_int using r by (intro mod_pos_pos_trivial) (simp_all add: abs_if)
  then show ?thesis unfolding abs unat_eq_nat_uint by simp
qed

definition sign_text :: "rt_uint8 \<Rightarrow> rt_uint8 list" where
  "sign_text c = (if c = 0 then [] else [c])"

text \<open>The text \<^verbatim>\<open>print_number\<close> writes, which depends on whether the sign fits into the buffer.\<close>

definition number_out :: "bool \<Rightarrow> bool \<Rightarrow> bool \<Rightarrow> int \<Rightarrow> rt_uint8 \<Rightarrow> rt_uint8 list \<Rightarrow> rt_uint8 list" where
  "number_out fit left zero w sign ds =
    (let sz = w - int (length ds); k = nat (if sign \<noteq> 0 \<and> fit then sz - 1 else sz) in
     if left then sign_text sign @ ds @ spaces k
     else if zero then sign_text sign @ replicate k (ch CHR ''0'') @ ds
     else spaces (nat (sz - int (length (sign_text sign)))) @ sign_text sign @ ds)"

lemma print_number_out:
  assumes sn_def: "sn = number_sign flags num" and tmp_def: "tmp = number_tmp (bit flags 6) (snd sn) base"
    and pr: "pr < 2 ^ 31 - 8"
  shows "print_number end num base w pr flags st
    = Some (emits end (number_out (fst st \<le> end) (bit flags 4) (bit flags 0 \<and> \<not> bit flags 4) w (fst sn)
        (replicate (nat pr - length tmp) (ch CHR ''0'') @ rev tmp)) st)"
proof -
  let ?t = "if bit flags 4 then flags AND NOT ZEROPAD else flags"
  have tb: "bit ?t 0 = (bit flags 0 \<and> \<not> bit flags 4)" "bit ?t 4 = bit flags 4"
    "bit ?t 1 = bit flags 1" "bit ?t 2 = bit flags 2" "bit ?t 3 = bit flags 3"
    by (simp_all add: no_zeropad)
  have sn: "number_sign ?t num = sn" unfolding sn_def number_sign_def flag_bits tb by (rule refl)
  have z: "(?t AND (ZEROPAD OR LEFT) = 0) = (\<not> bit flags 0 \<and> \<not> bit flags 4)"
    "(?t AND LEFT = 0) = (\<not> bit flags 4)" "(?t AND ZEROPAD \<noteq> 0) = (bit flags 0 \<and> \<not> bit flags 4)"
    using flag_bits(7)[of ?t] flag_bits(5)[of ?t] flag_bits(1)[of ?t] tb by auto
  have tl: "length tmp \<le> 16" unfolding tmp_def by (rule number_tmp_spec)
  obtain sign num' where p: "sn = (sign, num')" by (cases sn)
  have tmp: "(if num' = 0 then [ch CHR ''0''] else number_digits (bit flags 6) num' base) = tmp"
    by (simp add: tmp_def p number_tmp_def)
  obtain prec where prec: "(if int (length tmp) > pr then int (length tmp) else pr) = prec" by blast
  then have p1: "nat (prec - int (length tmp)) = nat pr - length tmp" "prec < 2 ^ 31 - 8" using tl pr by auto
  let ?z = "replicate (nat pr - length tmp) (ch CHR ''0'')"
  have p2: "int (length (?z @ rev tmp)) = prec" using prec by auto
  have digits: "emits end (rev tmp) (emits end ?z st') = emits end (?z @ rev tmp) st'" for st' by simp
  show ?thesis
    unfolding print_number_def flag_bits(5,6) Let_def sn z p split_beta prod.sel fst_conv snd_conv tmp prec
      pad_emits pad_len_emits p1(1) digits number_out_def p2
    using tl p1(2)
    by (cases "bit flags 4"; cases "bit flags 0"; cases "sign = 0"; cases "fst st \<le> end")
      (auto simp: sign_text_def emits_one simp del: emits_simps(2))
qed

lemma number_sign_spec:
  fixes flags :: rt_uint8 and w :: rt_uint32
  defines "v \<equiv> if bit flags 1 then sint w else uint w"
  shows "unat (snd (number_sign flags w)) = nat \<bar>v\<bar>"
    and "sign_text (fst (number_sign flags w)) =
      (if v < 0 then [ch CHR ''-''] else if bit flags 1 \<and> bit flags 2 then [ch CHR ''+'']
       else if bit flags 1 \<and> bit flags 3 then [ch CHR '' ''] else [])"
proof -
  have u: "uint w \<ge> 0" by simp
  show "unat (snd (number_sign flags w)) = nat \<bar>v\<bar>"
    using sign_abs[of w] unfolding v_def number_sign_def flag_bits by auto
  show "sign_text (fst (number_sign flags w)) =
      (if v < 0 then [ch CHR ''-''] else if bit flags 1 \<and> bit flags 2 then [ch CHR ''+'']
       else if bit flags 1 \<and> bit flags 3 then [ch CHR '' ''] else [])"
    using u unfolding v_def number_sign_def flag_bits sign_text_def by auto
qed

lemma render_number_out:
  "render_number flags w pr b num
    = number_out True (bit flags 4) (bit flags 0 \<and> \<not> bit flags 4) w (fst (number_sign flags num))
        (let ds = nat_digits (bit flags 6) b (unat (snd (number_sign flags num)))
         in replicate (nat pr - length ds) (ch CHR ''0'') @ ds)"
proof -
  note N = number_sign_spec[where flags = flags and w = num]
  have l: "nat (w - int (length sg + length ds)) = nat (w - int (length ds) - int (length sg))"
    for sg ds :: "rt_uint8 list" by simp
  have k: "nat (if c \<noteq> 0 \<and> True then z - 1 else z) = nat (z - int (length (sign_text c)))" for c z
    by (simp add: sign_text_def)
  show ?thesis
    unfolding render_number_def Let_def flag_bits number_out_def k N(1) unfolding N(2) justify_def Let_def flag_bits l
    by auto
qed

lemma number_out_fit:
  "number_out True l z w c ds = number_out False l z w c ds \<or> c \<noteq> 0"
  "length (number_out fit l z w c ds) \<le> Suc (length (number_out True l z w c ds))"
  by (auto simp: number_out_def Let_def sign_text_def)

lemma print_number_writes:
  assumes "pr < 2 ^ 31 - 8"
  shows "\<exists>st'. print_number end num base w pr flags st = Some st'
    \<and> writes end st (render_number flags w pr (if base = 10 then 10 else 16) num) st'"
proof -
  let ?sn = "number_sign flags num"
  let ?tmp = "number_tmp (bit flags 6) (snd ?sn) base"
  let ?ds = "replicate (nat pr - length ?tmp) (ch CHR ''0'') @ rev ?tmp"
  let ?out = "\<lambda>fit. number_out fit (bit flags 4) (bit flags 0 \<and> \<not> bit flags 4) w (fst ?sn) ?ds"
  have "length ?tmp = length (rev ?tmp)" by simp
  then have r: "render_number flags w pr (if base = 10 then 10 else 16) num = ?out True"
    by (simp only: render_number_out number_tmp_spec(1) Let_def)
  have p: "print_number end num base w pr flags st = Some (emits end (?out (fst st \<le> end)) st)"
    by (rule print_number_out) (use assms in simp_all)
  have "agree (room end (fst st)) (?out (fst st \<le> end)) (?out True)"
    using room_pos[of "fst st" "end"] by (cases "fst st \<le> end") simp_all
  then have "writes end st (?out True) (emits end (?out (fst st \<le> end)) st)"
    unfolding writes_def using number_out_fit(2) by blast
  then show ?thesis using p r by auto
qed

section \<open>Characters and strings in fields\<close>

lemma render_text_eq:
  "render_text flags w tx = (if bit flags 4 then tx @ spaces (nat (w - int (length tx)))
     else spaces (nat (w - int (length tx))) @ tx)"
proof -
  have "(flags AND NOT ZEROPAD) AND LEFT \<noteq> 0 \<longleftrightarrow> bit flags 4" "(flags AND NOT ZEROPAD) AND ZEROPAD = 0"
    using flag_bits(5)[of "flags AND NOT ZEROPAD"] flag_bits(1)[of "flags AND NOT ZEROPAD"] no_zeropad by auto
  then show ?thesis by (simp add: render_text_def justify_def Let_def)
qed

lemma format_char_emits: "format_char end flags w c st = emits end (render_text flags w [c]) st"
  using flag_bits(5)[of flags]
  by (auto simp: format_char_def render_text_eq pad_pre_emits emits_one simp del: emits_simps(2))

text \<open>A string whose bytes are not in the buffer is read as it was before.\<close>

definition outside :: "rt_uint32 \<Rightarrow> rt_uint32 \<Rightarrow> rt_uint32 \<Rightarrow> bool" where
  "outside buf end a = (a < buf \<or> end < a)"

lemma emit_string_emits:
  assumes "\<forall>i < length tx. m (s + of_nat i) = tx ! i" "\<forall>i < length tx. outside buf end (s + of_nat i)"
    and "unat (fst st) + length tx < 2 ^ 32" "buf \<le> fst st" "\<forall>a. outside buf end a \<longrightarrow> snd st a = m a"
  shows "emit_string end (length tx) s st = emits end tx st"
  using assms
proof (induction tx arbitrary: s st)
  case (Cons c cs)
  obtain str m1 where st: "st = (str, m1)" by (cases st)
  have c: "m1 s = c" using Cons.prems(1,2,5)[rule_format, of 0] Cons.prems(5) st by simp
  have s1: "\<forall>i < length cs. m (s + 1 + of_nat i) = cs ! i"
    and o1: "\<forall>i < length cs. outside buf end (s + 1 + of_nat i)"
  proof -
    have "i < length cs \<Longrightarrow> m (s + 1 + of_nat i) = cs ! i \<and> outside buf end (s + 1 + of_nat i)" for i
      using Cons.prems(1,2)[rule_format, of "Suc i"] by (simp add: add.assoc)
    then show "\<forall>i < length cs. m (s + 1 + of_nat i) = cs ! i" "\<forall>i < length cs. outside buf end (s + 1 + of_nat i)"
      by simp_all
  qed
  have u: "unat (str + 1) = Suc (unat str)" using Cons.prems(3) st by (simp add: unat_word_ariths)
  have "buf \<le> fst (emit end c st)" using Cons.prems(4) u by (simp add: st emit_def word_le_nat_alt)
  moreover have "\<forall>a. outside buf end a \<longrightarrow> snd (emit end c st) a = m a"
    using Cons.prems(4,5) by (auto simp: st emit_def outside_def)
  moreover have "unat (fst (emit end c st)) + length cs < 2 ^ 32" using Cons.prems(3) u by (simp add: st emit_def)
  ultimately show ?case using Cons.IH[OF s1 o1, of "emit end c st"] c by (simp add: st)
qed simp

section \<open>The loop over the format\<close>

text \<open>Outside of the buffer the memory is as it was.\<close>

definition good_out :: "rt_uint32 \<Rightarrow> rt_uint32 \<Rightarrow> memory \<Rightarrow> out \<Rightarrow> bool" where
  "good_out buf end m st = (buf \<le> fst st \<and> (\<forall>a. outside buf end a \<longrightarrow> snd st a = m a))"

lemma good_out_emit:
  assumes "good_out buf end m (str, m1)" "unat str + 1 < 2 ^ 32"
  shows "good_out buf end m (emit end c (str, m1))"
proof -
  have "unat (str + 1) = Suc (unat str)" using assms(2) by (simp add: unat_word_ariths)
  moreover have "buf \<le> str" using assms(1) by (simp add: good_out_def)
  ultimately have "buf \<le> str + 1" by (simp add: word_le_nat_alt)
  moreover have "a \<noteq> str" if "str \<le> end" "outside buf end a" for a
    using that \<open>buf \<le> str\<close> unfolding outside_def by (meson leD)
  ultimately show ?thesis using assms(1) by (auto simp: good_out_def emit_def)
qed

lemma good_out_emits:
  "good_out buf end m st \<Longrightarrow> unat (fst st) + length tx < 2 ^ 32 \<Longrightarrow> good_out buf end m (emits end tx st)"
proof (induction tx arbitrary: st)
  case (Cons c cs)
  obtain str m1 where st: "st = (str, m1)" by (cases st)
  have u: "unat (str + 1) = Suc (unat str)" using Cons.prems(2) st by (simp add: unat_word_ariths)
  have "good_out buf end m (emit end c st)"
    using Cons.prems unfolding st by (intro good_out_emit) auto
  moreover have "unat (fst (emit end c st)) + length cs < 2 ^ 32" using Cons.prems(2) u by (simp add: st emit_def)
  ultimately show ?case using Cons.IH by simp
qed simp

lemma emits_pos:
  assumes "unat (fst st) + length tx < 2 ^ 32"
  shows "unat (fst (emits end tx st)) = unat (fst st) + length tx"
  using assms by (simp add: emits_fst unat_word_ariths unat_of_nat)

text \<open>The strings that \<^verbatim>\<open>str\<close> names are in memory, outside of the buffer.\<close>

definition strings_ok :: "rt_uint32 \<Rightarrow> rt_uint32 \<Rightarrow> memory \<Rightarrow> (rt_uint32 \<Rightarrow> rt_uint8 list option) \<Rightarrow> bool" where
  "strings_ok buf end m str =
    (\<forall>s tx. str s = Some tx \<longrightarrow> string_at m s tx \<and> (\<forall>i \<le> length tx. outside buf end (s + of_nat i)))"

lemma strlen_good:
  assumes "good_out buf end m st" "string_at m s tx" "\<forall>i \<le> length tx. outside buf end (s + of_nat i)"
  shows "rt_strlen s (snd st) = Some (of_nat (length tx))"
proof (rule rt_strlen_string)
  show "string_at (snd st) s tx" using assms by (simp add: string_at_def good_out_def)
qed

lemma format_string_emits:
  assumes g: "good_out buf end m st" and ok: "strings_ok buf end m str"
    and tx: "(if s = 0 then Some null_text else str s) = Some tx" "length tx < 2 ^ 31"
    and t_def: "t = (if pr > 0 then take (nat pr) tx else tx)"
    and l: "unat (fst st) + length (render_text flags w t) < 2 ^ 32"
  shows "format_string end flags w pr s st = Some (emits end (render_text flags w t) st)"
proof -
  have len: "(if s = 0 then Some (length null_text) else map_option unat (rt_strlen s (snd st))) = Some (length tx)"
  proof (cases "s = 0")
    case False
    then have "string_at m s tx" "\<forall>i \<le> length tx. outside buf end (s + of_nat i)"
      using tx(1) ok by (auto simp: strings_ok_def)
    from strlen_good[OF g this] False tx(2) show ?thesis by (simp add: unat_of_nat)
  qed (use tx(1) in simp)
  have k: "(if pr > 0 \<and> int (length tx) > pr then nat pr else length tx) = length t" "t = take (length t) tx"
    by (auto simp: t_def min_def)
  have str: "(if s = 0 then emits end (take (length t) null_text) st' else emit_string end (length t) s st') = emits end t st'"
    if g': "good_out buf end m st'" and l': "unat (fst st') + length t < 2 ^ 32" for st'
  proof (cases "s = 0")
    case False
    then have "string_at m s tx" "\<forall>i \<le> length tx. outside buf end (s + of_nat i)"
      using tx(1) ok by (auto simp: strings_ok_def)
    then have "\<forall>i < length t. m (s + of_nat i) = t ! i" "\<forall>i < length t. outside buf end (s + of_nat i)"
      by (auto simp: t_def string_at_def)
    with emit_string_emits[OF this l'] g' False show ?thesis by (simp add: good_out_def)
  qed (use tx(1) k(2) in simp)
  have flags: "(flags AND LEFT = 0) = (\<not> bit flags 4)" using flag_bits(5)[of flags] by blast
  have body: "format_string end flags w pr s st =
      (let (w, st) = (if bit flags 4 then (w, st) else pad_len end (ch CHR '' '') (int (length t)) w st);
           st = (if s = 0 then emits end (take (length t) null_text) st else emit_string end (length t) s st)
       in Some (snd (pad_len end (ch CHR '' '') (int (length t)) w st)))"
    using tx(2) unfolding format_string_def len flags Option.bind.simps k(1) Let_def by simp
  show ?thesis
  proof (cases "bit flags 4")
    case True
    then have lt: "unat (fst st) + length t < 2 ^ 32" using l by (simp add: render_text_eq)
    show ?thesis unfolding body using True str[OF g lt] by (simp only: Let_def if_True prod.case pad_len_emits render_text_eq emits_simps snd_conv)
  next
    case False
    let ?p = "spaces (nat (w - int (length t)))"
    have lp: "unat (fst st) + length ?p < 2 ^ 32" "unat (fst (emits end ?p st)) + length t < 2 ^ 32"
      using l False emits_pos[of st ?p "end"] by (simp_all add: render_text_eq)
    have z: "nat ((if int (length t) < w then int (length t) - 1 else w - 1) - int (length t)) = 0" by simp
    show ?thesis unfolding body using False str[OF good_out_emits[OF g lp(1)] lp(2)]
      by (simp only: Let_def if_False prod.case pad_len_emits render_text_eq emits_simps snd_conv z replicate.simps)
  qed
qed

lemma format_int_writes:
  assumes "render_int flags w pr q (if base = 10 then 10 else 16) args = Some (args', tx)"
  shows "\<exists>st'. format_int end flags w pr q base args st = Some (args', st') \<and> writes end st tx st'"
proof -
  from assms obtain v where v: "args = VInt v # args'" "pr < 2 ^ 31 - 8"
    "tx = render_number flags w pr (if base = 10 then 10 else 16) (int_arg q flags v)"
    by (auto simp: render_int_def split: list.splits varg.splits if_splits)
  with print_number_writes[OF v(2), of "end" "int_arg q flags v" base w flags st] show ?thesis
    by (auto simp: format_int_def)
qed

lemma directive_writes:
  assumes g: "good_out buf end m st" and ok: "strings_ok buf end m str"
    and r: "render_directive str 16 flags w pr q cs args = Some (cs', args', tx)"
    and l: "unat (fst st) + length tx < 2 ^ 32"
  shows "\<exists>st'. format_directive end flags w pr q cs args st = Some (cs', args', st') \<and> writes end st tx st'"
proof (cases cs)
  case Nil
  then show ?thesis using r by (auto simp: emits_one simp del: emits_simps(2))
next
  case (Cons c cs0)
  have W: "\<exists>a b. emits end t st = (a, b) \<and> writes end st t (a, b)" for t
    using writes_emits[of "end" st t] by (cases "emits end t st") simp
  have s: "\<exists>a b. format_string end flags w pr p st = Some (a, b) \<and> writes end st tx (a, b)"
    if "(if p = 0 then Some null_text else str p) = Some t" "length t < 2 ^ 31"
      "tx = render_text flags w (if pr > 0 then take (nat pr) t else t)" for p t
    using format_string_emits[OF g ok that(1,2) refl, where pr = pr and flags = flags and w = w] l that(3) W[of tx] by auto
  note I = format_int_writes[of _ w pr q 8, simplified] format_int_writes[of _ w pr q 16, simplified]
    format_int_writes[of _ w pr q 10, simplified]
  note P = print_number_writes[of pr "end" _ 16, simplified]
  show ?thesis
    using r s[of 0] s unfolding Cons
    by (auto simp: format_char_emits emits_one I P W simp del: emits_simps(2)
      split: if_splits list.splits varg.splits option.splits)
qed

lemma format_loop_writes:
  assumes "render str 16 fmt args = Some r" "good_out buf end m st" "strings_ok buf end m str"
    and "unat (fst st) + length r + length fmt < 2 ^ 32"
  shows "\<exists>tx. format_loop end fmt args st = Some (emits end tx st)
    \<and> agree (room end (fst st)) tx r \<and> length tx \<le> length r + length fmt"
  using assms
proof (induction fmt arbitrary: args r st rule: measure_induct_rule[of length])
  case (less fmt)
  have step: "\<exists>tx. format_loop end cs' args' (emits end t' st) = Some (emits end tx st)
      \<and> agree (room end (fst st)) tx (t @ r') \<and> length tx \<le> length (t @ r') + length fmt"
    if r': "render str 16 cs' args' = Some r'" and len: "length cs' < length fmt" and rr: "r = t @ r'"
      and t': "agree (room end (fst st)) t' t" "length t' \<le> Suc (length t)" for cs' args' r' t t'
  proof -
    have b: "unat (fst st) + length t' < 2 ^ 32" using less.prems(4) t'(2) rr len by simp
    have p: "unat (fst (emits end t' st)) = unat (fst st) + length t'" by (rule emits_pos[OF b])
    have room: "room end (fst (emits end t' st)) = room end (fst st) - length t'"
      unfolding emits_fst by (rule room_add[OF b])
    from less.IH[OF len r' good_out_emits[OF less.prems(2) b] less.prems(3)] less.prems(4) p t'(2) rr len
    obtain tx where tx: "format_loop end cs' args' (emits end t' st) = Some (emits end tx (emits end t' st))"
      "agree (room end (fst st) - length t') tx r'" "length tx \<le> length r' + length cs'"
      unfolding room by auto
    have "agree (room end (fst st)) (t' @ tx) (t @ r')" by (rule agree_append[OF t'(1) tx(2)])
    then show ?thesis using tx t'(2) len by (intro exI[of _ "t' @ tx"]) simp
  qed
  show ?case
  proof (cases fmt)
    case Nil
    then show ?thesis using less.prems(1) by (intro exI[of _ "[]"]) simp
  next
    case (Cons c cs)
    show ?thesis
    proof (cases "c = ch CHR ''%''")
      case False
      then obtain r' where r': "render str 16 cs args = Some r'" "r = [c] @ r'"
        using less.prems(1) Cons by auto
      show ?thesis using step[OF r'(1) _ r'(2), of "[c]"] False Cons r'(2) by simp
    next
      case True
      obtain flags cs1 where 1: "scan_flags 0 cs = (flags, cs1)" by fastforce
      obtain w flags' cs2 args2 where 2: "scan_width flags cs1 args = Some (w, flags', cs2, args2)"
        using less.prems(1) True 1 unfolding Cons by (auto split: option.splits)
      obtain pr cs3 args3 where 3: "scan_precision cs2 args2 = Some (pr, cs3, args3)"
        using less.prems(1) True 1 2 unfolding Cons by (auto split: option.splits)
      obtain q cs4 where 4: "scan_qualifier cs3 = (q, cs4)" by fastforce
      obtain cs5 args5 t where 5: "render_directive str 16 flags' w pr q cs4 args3 = Some (cs5, args5, t)"
        using less.prems(1) True 1 2 3 4 unfolding Cons by (auto split: option.splits)
      obtain r' where 6: "render str 16 cs5 args5 = Some r'" "r = t @ r'"
        using less.prems(1) True 1 2 3 4 5 unfolding Cons by auto
      have l: "length cs1 \<le> length cs" "length cs2 \<le> length cs1" "length cs3 \<le> length cs2"
        "length cs4 \<le> length cs3" "length cs5 \<le> length cs4"
        using scan_lengths(1)[of 0 cs] scan_lengths(3)[OF 2] scan_lengths(4)[OF 3] scan_lengths(5)[of cs3]
          render_directive_length[OF 5] 1 4 by simp_all
      have "unat (fst st) + length t < 2 ^ 32" using less.prems(4) 6(2) by simp
      from directive_writes[OF less.prems(2,3) 5 this] obtain t' where
        t': "format_directive end flags' w pr q cs4 args3 st = Some (cs5, args5, emits end t' st)"
        "agree (room end (fst st)) t' t" "length t' \<le> Suc (length t)"
        by (auto simp: writes_def)
      have "length cs5 < length fmt" using l Cons by simp
      from step[OF 6(1) this 6(2) t'(2,3)] show ?thesis
        using True 1 2 3 4 t'(1) Cons 6(2) by simp
    qed
  qed
qed

end
