(* ===== verification/RT_Printf_Run.thy ===== *)
theory RT_Printf_Run
  imports RT_Printf_Spec
begin

text \<open>The calls of the formatted output on memory: what the buffer holds and what is returned, and
  what the code makes of \<^verbatim>\<open>%o\<close> and of a size of 0.\<close>

section \<open>The buffer\<close>

text \<open>A text placed in memory, and nothing else changed.\<close>

definition placed :: "rt_uint32 \<Rightarrow> rt_uint8 list \<Rightarrow> memory \<Rightarrow> memory" where
  "placed p xs m = (\<lambda>a. if unat (a - p) < length xs then xs ! unat (a - p) else m a)"

lemma placed_Nil [simp]: "placed p [] m = m"
  by (simp add: placed_def)

lemma unat_minus_one_32: "unat (- 1 :: rt_uint32) = 2 ^ 32 - 1"
  by (simp add: unsigned_minus_1_eq_mask mask_eq_exp_minus_1)

lemma placed_Cons:
  assumes "Suc (length xs) \<le> 2 ^ 32"
  shows "placed p (x # xs) m = placed (p + 1) xs (m(p := x))"
proof
  fix a
  show "placed p (x # xs) m a = placed (p + 1) xs (m(p := x)) a"
  proof (cases "a = p")
    case True
    have "p - (p + 1) = - 1" by simp
    then have "unat (p - (p + 1)) = 2 ^ 32 - 1" by (simp only: unat_minus_one_32)
    then show ?thesis using assms True by (simp add: placed_def)
  next
    case False
    then obtain k where "unat (a - p) = Suc k" by (metis not0_implies_Suc unat_eq_zero right_minus_eq)
    moreover have "unat (a - (p + 1)) = unat (a - p) - 1" using False unat_minus_one[of "a - p"] by (simp add: diff_diff_eq)
    ultimately show ?thesis using False by (simp add: placed_def)
  qed
qed

lemma placed_upd:
  assumes "length xs < 2 ^ 32"
  shows "(placed p xs m)(p + of_nat (length xs) := x) = placed p (xs @ [x]) m"
proof
  fix a
  have "unat (a - p) = length xs \<longleftrightarrow> a = p + of_nat (length xs)"
  proof
    assume "unat (a - p) = length xs"
    then have "a - p = of_nat (length xs)" by (metis of_nat_unat ucast_id)
    then show "a = p + of_nat (length xs)" by (simp add: algebra_simps)
  qed (use assms in \<open>simp add: unat_of_nat\<close>)
  then show "((placed p xs m)(p + of_nat (length xs) := x)) a = placed p (xs @ [x]) m a"
    by (auto simp: placed_def nth_append less_Suc_eq)
qed

lemma placed_replace_last: "xs \<noteq> [] \<Longrightarrow> length xs < 2 ^ 32 \<Longrightarrow>
  (placed p xs m)(p + of_nat (length xs - 1) := x) = placed p (butlast xs @ [x]) m"
proof -
  assume a: "xs \<noteq> []" "length xs < 2 ^ 32"
  then obtain ys y where xs: "xs = ys @ [y]" by (metis append_butlast_last_id)
  with a have l: "length ys < 2 ^ 32" by simp
  show ?thesis using placed_upd[OF l, of p m y] placed_upd[OF l, of p m x] xs by (metis butlast_snoc fun_upd_upd length_append_singleton diff_Suc_1)
qed

lemma emits_mem:
  "unat str + length tx < 2 ^ 32 \<Longrightarrow> snd (emits end tx (str, m)) = placed str (take (room end str) tx) m"
proof (induction tx arbitrary: str m)
  case (Cons c cs)
  have u: "unat (str + 1) = Suc (unat str)" using Cons.prems by (simp add: unat_word_ariths)
  have IH: "snd (emits end cs (str + 1, m1)) = placed (str + 1) (take (room end (str + 1)) cs) m1" for m1
    using Cons.IH[of "str + 1" m1] Cons.prems u by simp
  have room: "room end (str + 1) = room end str - 1" using u by (simp add: room_def)
  show ?case
  proof (cases "str \<le> end")
    case True
    then have "0 < room end str" by (simp add: room_pos)
    then have t: "take (room end str) (c # cs) = c # take (room end (str + 1)) cs" by (simp add: room take_Cons')
    have "Suc (length (take (room end (str + 1)) cs)) \<le> 2 ^ 32" using Cons.prems by simp
    from placed_Cons[OF this] IH True show ?thesis unfolding t by (simp add: emit_def)
  next
    case False
    then have "room end str = 0" using room_pos[of str "end"] by simp
    then show ?thesis using IH False room by (simp add: emit_def)
  qed
qed (simp add: placed_def)

text \<open>The whole call: as much of the text as fits, and the final zero.\<close>

lemma rt_vsnprintf_renders:
  assumes r: "render str 16 fmt args = Some r"
    and sz: "1 \<le> unat sz" "unat buf + unat sz \<le> 2 ^ 32" "unat buf + length r + length fmt < 2 ^ 32"
    and ok: "strings_ok buf (buf + sz - 1) m str"
  shows "\<exists>n. rt_vsnprintf buf sz fmt args m = Some (n, placed buf (take (unat sz - 1) r @ [0]) m)
    \<and> (if length r < unat sz then n = of_nat (length r) else sz \<le> n)"
proof -
  let ?e = "buf + sz - 1"
  have "unat (sz - 1) = unat sz - 1" using sz(1) by (intro unat_minus_one) auto
  then have "unat (buf + (sz - 1)) = unat buf + unat sz - 1"
    using sz unfolding unat_word_ariths(1) by simp
  then have e: "unat ?e = unat buf + unat sz - 1" by (simp add: add_diff_eq)
  have le: "\<not> ?e < buf" using e sz(1) by (simp add: word_less_nat_alt)
  have room: "room ?e buf = unat sz" using e sz(1) by (simp add: room_def)
  have "good_out buf ?e m (buf, m)" by (simp add: good_out_def)
  from format_loop_writes[OF r this ok] sz(3) room obtain tx where
    tx: "format_loop ?e fmt args (buf, m) = Some (emits ?e tx (buf, m))"
    "agree (unat sz) tx r" "length tx \<le> length r + length fmt" by auto
  have b: "unat buf + length tx < 2 ^ 32" using tx(3) sz(3) by simp
  have lt: "unat (of_nat (length tx) :: rt_uint32) = length tx" using b by (simp add: unat_of_nat)
  have mem: "emits ?e tx (buf, m) = (buf + of_nat (length tx), placed buf (take (unat sz) tx) m)"
    using emits_mem[OF b] room by (intro prod_eqI) (simp_all add: emits_fst)
  have pos: "unat (buf + of_nat (length tx)) = unat buf + length tx"
    using emits_pos[of "(buf, m)" tx ?e] b by (simp add: emits_fst)
  have call: "rt_vsnprintf buf sz fmt args m = Some (of_nat (length tx),
      (placed buf (take (unat sz) tx) m)((if length tx < unat sz then buf + of_nat (length tx) else ?e) := 0))"
    using tx(1) le mem e pos sz(1) by (auto simp: rt_vsnprintf_def Let_def word_le_nat_alt)
  show ?thesis
  proof (cases "length r < unat sz")
    case True
    then have "tx = r" using agree_short[OF tx(2)] by simp
    then show ?thesis using call True placed_upd[of r buf m 0] b by simp
  next
    case False
    then have l: "unat sz \<le> length tx" and t: "take (unat sz) tx = take (unat sz) r"
      using tx(2) agree_take[OF tx(2)] by (auto simp: agree_def)
    have n: "sz \<le> of_nat (length tx)" using l lt by (simp add: word_le_nat_alt)
    let ?x = "take (unat sz) r"
    have x: "length ?x = unat sz" "?x \<noteq> []" "length ?x < 2 ^ 32" using False sz(1) l b by auto
    have "buf + of_nat (length ?x - 1) = ?e" using x(1) sz(1) by simp
    moreover have "butlast ?x = take (unat sz - 1) r" using False by (simp add: butlast_take)
    ultimately have "(placed buf ?x m)(?e := 0) = placed buf (take (unat sz - 1) r @ [0]) m"
      using placed_replace_last[OF x(2,3), of buf m 0] by (simp only:)
    then show ?thesis using call False l t n by simp
  qed
qed

section \<open>The properties of the output\<close>

text \<open>A format without \<^verbatim>\<open>%o\<close> does not depend on the base of \<^verbatim>\<open>%o\<close>.\<close>

lemma scan_sets:
  "set (snd (scan_flags f cs)) \<subseteq> set cs"
  "skip_atoi i cs = Some (w, cs') \<Longrightarrow> set cs' \<subseteq> set cs"
  "scan_width f cs args = Some (w, f', cs', args') \<Longrightarrow> set cs' \<subseteq> set cs"
  "scan_precision cs args = Some (pr, cs', args') \<Longrightarrow> set cs' \<subseteq> set cs"
  "set (snd (scan_qualifier cs)) \<subseteq> set cs"
  "render_directive str ob f w pr q cs args = Some (cs', r) \<Longrightarrow> set cs' \<subseteq> set cs"
proof -
  show "set (snd (scan_flags f cs)) \<subseteq> set cs" by (induction f cs rule: scan_flags.induct) auto
  show s: "skip_atoi i cs = Some (w, cs') \<Longrightarrow> set cs' \<subseteq> set cs" for i cs w cs'
    by (induction i cs rule: skip_atoi.induct) (auto split: if_splits)
  show "scan_width f cs args = Some (w, f', cs', args') \<Longrightarrow> set cs' \<subseteq> set cs"
    by (cases cs) (auto split: if_splits list.splits varg.splits simp del: skip_atoi.simps dest!: s)
  show "scan_precision cs args = Some (pr, cs', args') \<Longrightarrow> set cs' \<subseteq> set cs"
    by (cases cs) (auto split: if_splits list.splits varg.splits simp del: skip_atoi.simps dest!: s)
  show "set (snd (scan_qualifier cs)) \<subseteq> set cs" by (cases cs) auto
  show "render_directive str ob f w pr q cs args = Some (cs', r) \<Longrightarrow> set cs' \<subseteq> set cs"
    by (cases cs) auto
qed

lemma render_no_octal:
  "ch CHR ''o'' \<notin> set fmt \<Longrightarrow> render str ob fmt args = render str 16 fmt args"
proof (induction fmt arbitrary: args rule: measure_induct_rule[of length])
  case (less fmt)
  show ?case
  proof (cases fmt)
    case (Cons c cs)
    show ?thesis
    proof (cases "c = ch CHR ''%''")
      case False
      then show ?thesis using less Cons by simp
    next
      case True
      obtain flags cs1 where 1: "scan_flags 0 cs = (flags, cs1)" by fastforce
      show ?thesis
      proof (cases "scan_width flags cs1 args")
        case None
        then show ?thesis using Cons True 1 by simp
      next
        case (Some wf)
        then obtain w flags' cs2 args2 where 2: "scan_width flags cs1 args = Some (w, flags', cs2, args2)"
          by (cases wf) auto
        show ?thesis
        proof (cases "scan_precision cs2 args2")
          case None
          then show ?thesis using Cons True 1 2 by simp
        next
          case (Some xp)
          then obtain pr cs3 args3 where 3: "scan_precision cs2 args2 = Some (pr, cs3, args3)" by (cases xp) auto
          obtain q cs4 where 4: "scan_qualifier cs3 = (q, cs4)" by fastforce
          have sets: "set cs1 \<subseteq> set cs" "set cs2 \<subseteq> set cs1" "set cs3 \<subseteq> set cs2" "set cs4 \<subseteq> set cs3"
            and len: "length cs1 \<le> length cs" "length cs2 \<le> length cs1" "length cs3 \<le> length cs2" "length cs4 \<le> length cs3"
            using scan_sets(1)[of 0 cs] scan_sets(3)[OF 2] scan_sets(4)[OF 3] scan_sets(5)[of cs3]
              scan_lengths(1)[of 0 cs] scan_lengths(3)[OF 2] scan_lengths(4)[OF 3] scan_lengths(5)[of cs3] 1 4 by simp_all
          then have "ch CHR ''o'' \<notin> set cs4" using less.prems Cons by auto
          then have d: "render_directive str ob flags' w pr q cs4 args3 = render_directive str 16 flags' w pr q cs4 args3"
            by (cases cs4) auto
          show ?thesis
          proof (cases "render_directive str 16 flags' w pr q cs4 args3")
            case None
            then show ?thesis using Cons True 1 2 3 4 d by simp
          next
            case (Some dr)
            then obtain cs5 args5 t where 5: "render_directive str 16 flags' w pr q cs4 args3 = Some (cs5, args5, t)"
              by (cases dr) auto
            have "set cs5 \<subseteq> set cs" using scan_sets(6)[OF 5] sets by blast
            then have "ch CHR ''o'' \<notin> set cs5" "length cs5 < length fmt"
              using render_directive_length[OF 5] sets len less.prems Cons by auto
            then have "render str ob cs5 args5 = render str 16 cs5 args5" by (intro less.IH)
            then show ?thesis using Cons True 1 2 3 4 5 d by simp
          qed
        qed
      qed
    qed
  qed simp
qed

text \<open>C21. The formatted output is the reference: for a format without \<^verbatim>\<open>%o\<close> and arguments that fit to it,
  \<^verbatim>\<open>rt_snprintf\<close> writes the first size minus one characters of the standard text and a final zero, and
  changes no other byte; it returns the length of the whole text when this text fits, and otherwise
  at least the size, so that a caller can see that it was cut.\<close>

theorem rt_snprintf_renders:
  assumes "render str 8 fmt args = Some r" "ch CHR ''o'' \<notin> set fmt"
    and "1 \<le> unat sz" "unat buf + unat sz \<le> 2 ^ 32" "unat buf + length r + length fmt < 2 ^ 32"
    and "strings_ok buf (buf + sz - 1) m str"
  shows "\<exists>n. rt_snprintf buf sz fmt args m = Some (n, placed buf (take (unat sz - 1) r @ [0]) m)
    \<and> (if length r < unat sz then n = of_nat (length r) else sz \<le> n)"
  unfolding rt_snprintf_def
  by (rule rt_vsnprintf_renders) (use assms render_no_octal[OF assms(2), of str 8 args] in simp_all)

lemma number_digits_8: "number_digits large num 8 = number_digits large num 16"
proof (induction large num "16 :: rt_uint8" rule: number_digits.induct)
  case (1 large num)
  have "divide num 8 = divide num 16" by (simp add: divide_def)
  with 1 show ?case by (simp add: number_digits.simps[of large num])
qed

lemma print_number_8: "print_number end num 8 s pr type st = print_number end num 16 s pr type st"
  by (simp only: print_number_def number_digits_8)

text \<open>C22. Where the conversions leave the standard. \<^verbatim>\<open>%o\<close> does not print octal numbers: \<^verbatim>\<open>divide\<close> takes
  the base 8 for 16, so that the text is that of \<^verbatim>\<open>%x\<close>, with every flag, width and precision and every
  argument; 8 gives the character 8 and not the characters 10. A precision of 0 does not cut
  a string: \<^verbatim>\<open>%.0s\<close> writes all of it, as \<^verbatim>\<open>%s\<close> does.\<close>

theorem printf_deviations:
  "format_directive end flags w pr q (ch CHR ''o'' # cs) args st = format_directive end flags w pr q (ch CHR ''x'' # cs) args st
   \<and> rt_sprintf 100 (map of_char ''%o'') [VInt 8] m = Some (1, m(100 := ch CHR ''8'', 101 := 0))
   \<and> format_directive end flags w 0 q (ch CHR ''s'' # cs) args st = format_directive end flags w (- 1) q (ch CHR ''s'' # cs) args st"
proof (intro conjI)
  show "format_directive end flags w pr q (ch CHR ''o'' # cs) args st = format_directive end flags w pr q (ch CHR ''x'' # cs) args st"
    by (auto simp: format_int_def print_number_8 split: list.splits varg.splits)
  have "divide 8 8 = (8, 0)" by (simp add: divide_def)
  then have "number_digits large 8 8 = [ch CHR ''8'']" for large
    by (simp add: number_digits.simps[of large 8] number_digits.simps[of large 0] digit_char_def)
  then show "rt_sprintf 100 (map of_char ''%o'') [VInt 8] m = Some (1, m(100 := ch CHR ''8'', 101 := 0))"
    by (simp add: rt_sprintf_def rt_vsprintf_def rt_vsnprintf_def is_digit_def format_int_def int_arg_def
        print_number_def number_sign_def emit_def pad.simps pad_len.simps)
  have "format_string end flags w 0 s st = format_string end flags w (- 1) s st" for s
    unfolding format_string_def by (intro arg_cong[where f = "Option.bind _"] ext) simp
  then show "format_directive end flags w 0 q (ch CHR ''s'' # cs) args st = format_directive end flags w (- 1) q (ch CHR ''s'' # cs) args st"
    by (auto split: list.splits varg.splits)
qed

text \<open>C23. A size of 0 does not stop \<^verbatim>\<open>rt_snprintf\<close>: the end of the buffer becomes the end of the address
  space, and the call is the unbounded \<^verbatim>\<open>rt_sprintf\<close>.\<close>

theorem rt_snprintf_size_0:
  assumes "2 \<le> unat buf"
  shows "rt_snprintf buf 0 fmt args m = rt_sprintf buf fmt args m"
proof -
  have 1: "unat (buf - 1) = unat buf - 1" using assms by (intro unat_minus_one) auto
  then have "buf - 1 \<noteq> 0" using assms by auto
  then have "unat (buf - 1 - 1) = unat buf - 1 - 1" using unat_minus_one[of "buf - 1"] 1 by metis
  with 1 have "buf - 1 < buf" "buf - 1 - 1 < buf" using assms by (simp_all add: word_less_nat_alt)
  then have "buf + 0 - 1 < buf" "buf + - 1 - 1 < buf" by simp_all
  then show ?thesis by (simp add: rt_snprintf_def rt_sprintf_def rt_vsprintf_def rt_vsnprintf_def)
qed

section \<open>Reading a number back\<close>

lemma skip_atoi_digit:
  assumes "0 \<le> i" "d < 10" "i * 10 + int d < 2 ^ 31 - 48"
  shows "skip_atoi i (digit_char large d # cs) = skip_atoi (i * 10 + int d) cs"
proof -
  have u: "uint (digit_char large d) = 48 + int d"
    using assms(2) by (simp add: digit_char_def uint_word_ariths unsigned_of_nat take_bit_nat_eq_self)
  have "ucast (digit_char large d) - 48 = (of_nat d :: rt_uint32)"
  proof -
    have "uint (ucast (digit_char large d) :: rt_uint32) = 48 + int d" using u assms(2) by (simp add: uint_up_ucast is_up)
    then have "(ucast (digit_char large d) :: rt_uint32) = word_of_int (48 + int d)" by (metis word_of_int_uint)
    then show ?thesis by simp
  qed
  then have "is_digit (digit_char large d)"
    using assms(2) unfolding is_digit_def by (simp add: word_less_nat_alt unat_of_nat)
  then show ?thesis using u assms by simp
qed

lemma skip_atoi_digits:
  assumes "n < 2 ^ 31 - 48"
  shows "skip_atoi 0 (nat_digits large 10 n @ cs) = skip_atoi (int n) cs"
  using assms
proof (induction large "10 :: nat" n arbitrary: cs rule: nat_digits.induct)
  case (1 large n)
  show ?case
  proof (cases "n < 10")
    case True
    then show ?thesis using 1(2) skip_atoi_digit[of 0 n] by (simp add: nat_digits.simps[of large 10 n])
  next
    case False
    have e: "int (n div 10) * 10 + int (n mod 10) = int n" by (metis div_mult_mod_eq of_nat_add of_nat_mult of_nat_numeral)
    have "skip_atoi (int (n div 10)) (digit_char large (n mod 10) # cs) = skip_atoi (int (n div 10) * 10 + int (n mod 10)) cs"
      using 1(2) skip_atoi_digit[of "int (n div 10)" "n mod 10" large cs] unfolding e by simp
    then show ?thesis using False 1 unfolding e by (simp add: nat_digits.simps[of large 10 n])
  qed
qed

lemma placed_read:
  assumes "length xs < 2 ^ 32"
  shows "map (\<lambda>i. placed p xs m (p + of_nat i)) [0..<length xs] = xs"
proof (rule nth_equalityI)
  fix i assume "i < length (map (\<lambda>i. placed p xs m (p + of_nat i)) [0..<length xs])"
  then show "map (\<lambda>i. placed p xs m (p + of_nat i)) [0..<length xs] ! i = xs ! i"
    using assms by (simp add: placed_def unat_of_nat)
qed simp

text \<open>C24. What \<^verbatim>\<open>%u\<close> prints, the loop that reads a field width reads back: the round trip of
  \<^verbatim>\<open>rt_sprintf\<close> and \<^verbatim>\<open>skip_atoi\<close> over the buffer, for every number below the greatest \<^verbatim>\<open>int\<close> by 48,
  the room that the digit character itself takes in the sum of \<^verbatim>\<open>skip_atoi\<close>.\<close>

theorem print_read_roundtrip:
  assumes "uint v < 2 ^ 31 - 48" "unat buf < 2 ^ 32 - 16"
  shows "\<exists>k m'. rt_snprintf buf 16 (map of_char ''%u'') [VInt v] m = Some (of_nat k, m')
    \<and> skip_atoi 0 (map (\<lambda>i. m' (buf + of_nat i)) [0..<Suc k]) = Some (uint v, [0])"
proof -
  let ?d = "nat_digits False 10 (unat v)"
  have l: "length ?d \<le> 10" 
    using arg_cong[OF number_tmp_spec(1)[of False v 10], of length] number_digits_fit[of False v 10]
    by (simp add: number_tmp_def split: if_splits)
  have r: "render (\<lambda>_. None) 16 (map of_char ''%u'') [VInt v] = Some ?d"
  proof -
    have "scan_flags 0 [ch CHR ''u''] = (0, [ch CHR ''u''])" by simp
    moreover have "scan_width 0 [ch CHR ''u''] [VInt v] = Some (- 1, 0, [ch CHR ''u''], [VInt v])" by (simp add: is_digit_def)
    moreover have "scan_precision [ch CHR ''u''] [VInt v] = Some (- 1, [ch CHR ''u''], [VInt v])" by simp
    moreover have "scan_qualifier [ch CHR ''u''] = (0, [ch CHR ''u''])" by simp
    moreover have "render_number 0 (- 1) (- 1) 10 v = ?d"
      unfolding render_number_def justify_def Let_def by simp
    then have "render_directive (\<lambda>_. None) 16 0 (- 1) (- 1) 0 [ch CHR ''u''] [VInt v] = Some ([], [], ?d)"
      by (simp add: render_int_def int_arg_def)
    ultimately show ?thesis by simp
  qed
  have t: "take 15 ?d = ?d" using l by simp
  have "strings_ok buf (buf + 16 - 1) m (\<lambda>_. None)" by (simp add: strings_ok_def)
  moreover have "unat (16 :: rt_uint32) = 16" by simp
  ultimately have "\<exists>n. rt_vsnprintf buf 16 (map of_char ''%u'') [VInt v] m = Some (n, placed buf (take (16 - 1) ?d @ [0]) m)
      \<and> (if length ?d < 16 then n = of_nat (length ?d) else 16 \<le> n)"
    using rt_vsnprintf_renders[OF r, of 16 buf m] l assms(2) by simp
  then have c: "rt_snprintf buf 16 (map of_char ''%u'') [VInt v] m = Some (of_nat (length ?d), placed buf (?d @ [0]) m)"
    using l t unfolding rt_snprintf_def by (elim exE) (simp del: list.map)
  have "map (\<lambda>i. placed buf (?d @ [0]) m (buf + of_nat i)) [0..<Suc (length ?d)] = ?d @ [0]"
    using placed_read[of "?d @ [0]" buf m] l by simp
  moreover have "skip_atoi 0 (?d @ [0]) = Some (uint v, [0])"
  proof -
    have u: "int (unat v) = uint v" by simp
    then have "int (unat v) < int (2 ^ 31 - 48)" using assms(1) by simp
    then have "unat v < 2 ^ 31 - 48" by (simp only: of_nat_less_iff)
    moreover have "skip_atoi (uint v) [0] = Some (uint v, [0])" by (simp add: is_digit_def)
    ultimately show ?thesis using skip_atoi_digits[of "unat v" False "[0]"] unfolding u by (simp only:)
  qed
  ultimately show ?thesis using c by (intro exI[of _ "length ?d"] exI[of _ "placed buf (?d @ [0]) m"]) (simp only:)
qed

section \<open>Witnesses\<close>

lemma rt_snprintf_renders_witness:
  "\<exists>n. rt_snprintf 100 4 (map of_char ''a%c'') [VInt 98] (\<lambda>_. 7)
      = Some (n, placed 100 (take (unat (4 :: rt_uint32) - 1) [97, 98] @ [0]) (\<lambda>_. 7))
    \<and> (if length [97, 98 :: rt_uint8] < unat (4 :: rt_uint32) then n = of_nat (length [97, 98 :: rt_uint8]) else 4 \<le> n)"
  by (rule rt_snprintf_renders[where str = "\<lambda>_. None"])
    (simp_all add: is_digit_def render_text_def justify_def strings_ok_def)

lemma rt_snprintf_size_0_witness:
  "rt_snprintf 100 0 (map of_char ''%d'') [VInt 5] (\<lambda>_. 7) = rt_sprintf 100 (map of_char ''%d'') [VInt 5] (\<lambda>_. 7)"
  by (rule rt_snprintf_size_0) simp

lemma print_read_roundtrip_witness:
  "\<exists>k m'. rt_snprintf 100 16 (map of_char ''%u'') [VInt 1234] (\<lambda>_. 7) = Some (of_nat k, m')
    \<and> skip_atoi 0 (map (\<lambda>i. m' (100 + of_nat i)) [0..<Suc k]) = Some (uint (1234 :: rt_uint32), [0])"
  by (rule print_read_roundtrip) simp_all

end
