(* ===== verification/RT_Memheap.thy ===== *)
theory RT_Memheap
  imports RT_List RT_Mem RT_Errno
begin

text \<open>The memory heaps of src/memheap.c: blocks in a circle ordered by their addresses, and the free
  ones in a second circle through the header of the heap. The fields of a block header
  (\<^verbatim>\<open>struct rt_memheap_item\<close>) are functions of its address; the pairs next, prev and next\_free,
  prev\_free are two records of links. As in RT\_Mem the headers are kept apart from the other bytes.\<close>

section \<open>State\<close>

record rt_memheap =
  start_addr :: rt_uint32
  pool_size :: rt_uint32
  available_size :: rt_uint32
  max_used_size :: rt_uint32
  block_list :: rt_uint32
  free_list :: rt_uint32
  free_header :: rt_uint32   \<comment> \<open>the address of the header in the heap object\<close>
  mh_lock :: nat             \<comment> \<open>the semaphore of the heap object\<close>

record memheaps =
  it_magic :: "rt_uint32 \<Rightarrow> rt_uint32"
  it_pool :: "rt_uint32 \<Rightarrow> nat"
  it_links :: "rt_uint32 links"
  it_free :: "rt_uint32 links"
  heaps :: "nat \<Rightarrow> rt_memheap"
  heap_bytes :: memory

definition RT_MEMHEAP_MAGIC :: rt_uint32 where "RT_MEMHEAP_MAGIC = 0x1ea01ea0"
definition RT_MEMHEAP_MASK :: rt_uint32 where "RT_MEMHEAP_MASK = 0xfffffffe"
definition RT_MEMHEAP_USED :: rt_uint32 where "RT_MEMHEAP_USED = 1"
definition RT_MEMHEAP_MINIALLOC :: rt_uint32 where "RT_MEMHEAP_MINIALLOC = 12"
definition RT_MEMHEAP_SIZE :: rt_uint32 where "RT_MEMHEAP_SIZE = 24"

definition is_used :: "memheaps \<Rightarrow> rt_uint32 \<Rightarrow> bool" where
  "is_used m a = (it_magic m a AND RT_MEMHEAP_USED \<noteq> 0)"

definition MEMITEM_SIZE :: "memheaps \<Rightarrow> rt_uint32 \<Rightarrow> rt_uint32" where
  "MEMITEM_SIZE m a = nxt (it_links m) a - a - RT_MEMHEAP_SIZE"

definition upd_heap :: "nat \<Rightarrow> (rt_memheap \<Rightarrow> rt_memheap) \<Rightarrow> memheaps \<Rightarrow> memheaps" where
  "upd_heap p f m = m\<lparr>heaps := (heaps m)(p := f (heaps m p))\<rparr>"

definition set_magic :: "rt_uint32 \<Rightarrow> rt_uint32 \<Rightarrow> memheaps \<Rightarrow> memheaps" where
  "set_magic a v m = m\<lparr>it_magic := (it_magic m)(a := v)\<rparr>"

definition set_pool :: "rt_uint32 \<Rightarrow> nat \<Rightarrow> memheaps \<Rightarrow> memheaps" where
  "set_pool a p m = m\<lparr>it_pool := (it_pool m)(a := p)\<rparr>"

text \<open>Assignments to next, prev, next\_free and prev\_free of a header.\<close>

definition on_links :: "(rt_uint32 links \<Rightarrow> rt_uint32 links) \<Rightarrow> memheaps \<Rightarrow> memheaps" where
  "on_links f m = m\<lparr>it_links := f (it_links m)\<rparr>"

definition on_free :: "(rt_uint32 links \<Rightarrow> rt_uint32 links) \<Rightarrow> memheaps \<Rightarrow> memheaps" where
  "on_free f m = m\<lparr>it_free := f (it_free m)\<rparr>"

section \<open>The assignments the operations share\<close>

text \<open>A new block behind another one.\<close>

definition link_behind :: "rt_uint32 \<Rightarrow> rt_uint32 \<Rightarrow> rt_uint32 links \<Rightarrow> rt_uint32 links" where
  "link_behind header_ptr new_ptr st =
    (let st = set_prev new_ptr header_ptr st;
         st = set_next new_ptr (nxt st header_ptr) st;
         st = set_prev (nxt st header_ptr) new_ptr st
     in set_next header_ptr new_ptr st)"

text \<open>The same for the free blocks, behind the header of the free list.\<close>

definition free_insert :: "rt_uint32 \<Rightarrow> rt_uint32 \<Rightarrow> rt_uint32 links \<Rightarrow> rt_uint32 links" where
  "free_insert list new_ptr st =
    (let st = set_next new_ptr (nxt st list) st;
         st = set_prev new_ptr list st;
         st = set_prev (nxt st list) new_ptr st
     in set_next list new_ptr st)"

text \<open>A free block out of the free list; its own links stay.\<close>

definition free_unlink :: "rt_uint32 \<Rightarrow> rt_uint32 links \<Rightarrow> rt_uint32 links" where
  "free_unlink a st =
    (let st = set_prev (nxt st a) (prv st a) st
     in set_next (prv st a) (nxt st a) st)"

definition free_clear :: "rt_uint32 \<Rightarrow> rt_uint32 links \<Rightarrow> rt_uint32 links" where
  "free_clear a st = set_prev a 0 (set_next a 0 st)"

definition note_max_used :: "nat \<Rightarrow> memheaps \<Rightarrow> memheaps" where
  "note_max_used p m =
    (let h = heaps m p in
     if pool_size h - available_size h > max_used_size h
     then upd_heap p (\<lambda>h. h\<lparr>max_used_size := pool_size h - available_size h\<rparr>) m else m)"

definition take_bytes :: "nat \<Rightarrow> rt_uint32 \<Rightarrow> memheaps \<Rightarrow> memheaps" where
  "take_bytes p n m = note_max_used p (upd_heap p (\<lambda>h. h\<lparr>available_size := available_size h - n\<rparr>) m)"

definition give_bytes :: "nat \<Rightarrow> rt_uint32 \<Rightarrow> memheaps \<Rightarrow> memheaps" where
  "give_bytes p n = upd_heap p (\<lambda>h. h\<lparr>available_size := available_size h + n\<rparr>)"

text \<open>The header of a new free block behind a block.\<close>

definition new_block :: "nat \<Rightarrow> rt_uint32 \<Rightarrow> rt_uint32 \<Rightarrow> memheaps \<Rightarrow> memheaps" where
  "new_block p header_ptr new_ptr m =
    on_links (link_behind header_ptr new_ptr) (set_pool new_ptr p (set_magic new_ptr RT_MEMHEAP_MAGIC m))"

section \<open>Initialisation\<close>

definition mh_first_blocks :: "nat \<Rightarrow> memheaps \<Rightarrow> memheaps" where
  "mh_first_blocks p m =
    (let h = heaps m p; item = free_header h;
         m = set_pool item p (set_magic item RT_MEMHEAP_MAGIC m);
         m = on_links (set_prev item 0 \<circ> set_next item 0) m;
         m = on_free (set_prev item item \<circ> set_next item item) m;
         m = upd_heap p (\<lambda>h. h\<lparr>free_list := item\<rparr>) m;
         item = start_addr h;
         m = set_pool item p (set_magic item RT_MEMHEAP_MAGIC m);
         m = on_links (set_prev item 0 \<circ> set_next item 0) m;
         m = on_free (set_prev item item \<circ> set_next item item) m;
         m = on_links (set_next item (item + available_size h + RT_MEMHEAP_SIZE)) m;
         m = on_links (\<lambda>st. set_prev item (nxt st item) st) m;
         m = upd_heap p (\<lambda>h. h\<lparr>block_list := item\<rparr>) m;
         m = on_free (free_insert (free_list (heaps m p)) item) m;
         item = nxt (it_links m) item;
         m = set_pool item p (set_magic item (RT_MEMHEAP_MAGIC OR RT_MEMHEAP_USED) m);
         m = on_links (set_prev item (start_addr h) \<circ> set_next item (start_addr h)) m
     in on_free (free_clear item) m)"

definition rt_memheap_init ::
  "nat \<Rightarrow> rt_uint8 list \<Rightarrow> rt_uint32 \<Rightarrow> rt_size \<Rightarrow> memheaps \<Rightarrow> kernel \<Rightarrow> (rt_err \<times> memheaps \<times> kernel) option" where
  "rt_memheap_init p nm start sz m s = do {
     s \<leftarrow> rt_object_init (OMemheap p) RT_Object_Class_MemHeap nm s;
     let m = upd_heap p (\<lambda>h. h\<lparr>start_addr := start, pool_size := RT_ALIGN_DOWN sz 4\<rparr>) m;
     let m = upd_heap p (\<lambda>h. h\<lparr>available_size := pool_size h - 2 * RT_MEMHEAP_SIZE\<rparr>) m;
     let m = upd_heap p (\<lambda>h. h\<lparr>max_used_size := pool_size h - available_size h\<rparr>) m;
     let m = mh_first_blocks p m;
     (_, s) \<leftarrow> rt_sem_init (mh_lock (heaps m p)) nm 1 RT_IPC_FLAG_FIFO s;
     Some (RT_EOK, m, s)
   }"

definition is_memheap :: "nat \<Rightarrow> kernel \<Rightarrow> bool" where
  "is_memheap p s = (rt_object_get_type (OMemheap p) s = class_code RT_Object_Class_MemHeap)"

definition rt_memheap_detach :: "nat \<Rightarrow> memheaps \<Rightarrow> kernel \<Rightarrow> (rt_err \<times> kernel) option" where
  "rt_memheap_detach p m s = do {
     RT_ASSERT (is_memheap p s);
     RT_ASSERT (rt_object_is_systemobject (OMemheap p) s);
     let s = rt_object_detach (OSem (mh_lock (heaps m p))) s;
     Some (RT_EOK, rt_object_detach (OMemheap p) s)
   }"

section \<open>Allocation\<close>

text \<open>The walk along the free list, with the size of the block last looked at.\<close>

partial_function (option) mh_search ::
  "rt_uint32 \<Rightarrow> rt_size \<Rightarrow> memheaps \<Rightarrow> rt_uint32 \<Rightarrow> rt_uint32 \<Rightarrow> (rt_uint32 \<times> rt_uint32) option" where
  "mh_search list sz m header_ptr free_size =
    (if header_ptr \<noteq> list \<and> free_size < sz then
       (let free_size = MEMITEM_SIZE m header_ptr in
        mh_search list sz m (if free_size < sz then nxt (it_free m) header_ptr else header_ptr) free_size)
     else Some (header_ptr, free_size))"

definition mh_take :: "nat \<Rightarrow> rt_size \<Rightarrow> rt_uint32 \<Rightarrow> rt_uint32 \<Rightarrow> memheaps \<Rightarrow> memheaps" where
  "mh_take p sz header_ptr free_size m =
    (let m =
       (if free_size \<ge> sz + RT_MEMHEAP_SIZE + RT_MEMHEAP_MINIALLOC then
          (let new_ptr = header_ptr + sz + RT_MEMHEAP_SIZE;
               m = new_block p header_ptr new_ptr m;
               m = on_free (free_clear header_ptr \<circ> free_unlink header_ptr) m;
               m = on_free (free_insert (free_list (heaps m p)) new_ptr) m
           in take_bytes p (sz + RT_MEMHEAP_SIZE) m)
        else on_free (free_clear header_ptr \<circ> free_unlink header_ptr) (take_bytes p free_size m))
     in set_magic header_ptr (it_magic m header_ptr OR RT_MEMHEAP_USED) m)"

text \<open>The part of the allocation under the semaphore: the header of the block, if there is one.\<close>

definition mh_alloc :: "nat \<Rightarrow> rt_size \<Rightarrow> memheaps \<Rightarrow> (rt_uint32 option \<times> memheaps) option" where
  "mh_alloc p sz m = do {
     let list = free_list (heaps m p);
     (header_ptr, free_size) \<leftarrow> mh_search list sz m (nxt (it_free m) list) 0;
     Some (if free_size \<ge> sz then (Some header_ptr, mh_take p sz header_ptr free_size m) else (None, m))
   }"

text \<open>What follows the take of the semaphore, with its result.\<close>

definition rt_memheap_alloc_locked ::
  "nat \<Rightarrow> rt_size \<Rightarrow> rt_err \<Rightarrow> memheaps \<Rightarrow> kernel \<Rightarrow> (rt_uint32 call \<times> memheaps \<times> kernel) option" where
  "rt_memheap_alloc_locked p sz result m s =
    (if result \<noteq> RT_EOK then Some (Done 0, m, rt_set_errno result s)
     else do {
       (r, m) \<leftarrow> mh_alloc p sz m;
       (_, s) \<leftarrow> rt_sem_release (mh_lock (heaps m p)) s;
       Some (case r of None \<Rightarrow> (Done 0, m, s) | Some h \<Rightarrow> (Done (h + RT_MEMHEAP_SIZE), m, s))
     })"

definition memheap_size :: "rt_size \<Rightarrow> rt_size" where
  "memheap_size sz = (let sz = RT_ALIGN sz 4 in if sz < RT_MEMHEAP_MINIALLOC then RT_MEMHEAP_MINIALLOC else sz)"

definition rt_memheap_alloc ::
  "nat \<Rightarrow> rt_size \<Rightarrow> memheaps \<Rightarrow> kernel \<Rightarrow> (rt_uint32 call \<times> memheaps \<times> kernel) option" where
  "rt_memheap_alloc p sz m s = do {
     RT_ASSERT (is_memheap p s);
     let sz = memheap_size sz;
     (if sz < available_size (heaps m p) then do {
        (r, s) \<leftarrow> rt_sem_take (mh_lock (heaps m p)) WAITING_FOREVER s;
        (case r of
           Blocked \<Rightarrow> Some (Blocked, m, s)
         | Done result \<Rightarrow> rt_memheap_alloc_locked p sz result m s)
      } else Some (Done 0, m, s))
   }"

section \<open>Release\<close>

text \<open>The block joins the free block before it, or stays; then it takes in a free block behind it.\<close>

definition merge_left :: "nat \<Rightarrow> rt_uint32 \<Rightarrow> memheaps \<Rightarrow> rt_uint32 \<times> bool \<times> memheaps" where
  "merge_left p header_ptr m =
    (if \<not> is_used m (prv (it_links m) header_ptr) then
       (let m = give_bytes p RT_MEMHEAP_SIZE m;
            m = on_links (\<lambda>st. set_next (prv st header_ptr) (nxt st header_ptr) st) m;
            m = on_links (\<lambda>st. set_prev (nxt st header_ptr) (prv st header_ptr) st) m
        in (prv (it_links m) header_ptr, False, m))
     else (header_ptr, True, m))"

definition merge_right :: "nat \<Rightarrow> rt_uint32 \<Rightarrow> memheaps \<Rightarrow> memheaps" where
  "merge_right p header_ptr m =
    (if \<not> is_used m (nxt (it_links m) header_ptr) then
       (let m = give_bytes p RT_MEMHEAP_SIZE m;
            new_ptr = nxt (it_links m) header_ptr;
            m = on_links (\<lambda>st. set_prev (nxt st new_ptr) header_ptr st) m;
            m = on_links (\<lambda>st. set_next header_ptr (nxt st new_ptr) st) m
        in on_free (free_unlink new_ptr) m)
     else m)"

definition mh_release :: "nat \<Rightarrow> rt_uint32 \<Rightarrow> memheaps \<Rightarrow> memheaps" where
  "mh_release p header_ptr m =
    (let m = set_magic header_ptr (it_magic m header_ptr AND NOT RT_MEMHEAP_USED) m;
         m = give_bytes p (MEMITEM_SIZE m header_ptr) m;
         (header_ptr, insert_header, m) = merge_left p header_ptr m;
         m = merge_right p header_ptr m
     in if insert_header then on_free (free_insert (free_list (heaps m p)) header_ptr) m else m)"

definition rt_memheap_free_locked ::
  "nat \<Rightarrow> rt_uint32 \<Rightarrow> rt_err \<Rightarrow> memheaps \<Rightarrow> kernel \<Rightarrow> (unit call \<times> memheaps \<times> kernel) option" where
  "rt_memheap_free_locked p header_ptr result m s =
    (if result \<noteq> RT_EOK then Some (Done (), m, rt_set_errno result s)
     else do {
       let m = mh_release p header_ptr m;
       (_, s) \<leftarrow> rt_sem_release (mh_lock (heaps m p)) s;
       Some (Done (), m, s)
     })"

definition rt_memheap_free :: "rt_uint32 \<Rightarrow> memheaps \<Rightarrow> kernel \<Rightarrow> (unit call \<times> memheaps \<times> kernel) option" where
  "rt_memheap_free ptr m s =
    (if ptr = 0 then Some (Done (), m, s)
     else do {
       let header_ptr = ptr - RT_MEMHEAP_SIZE;
       RT_ASSERT (it_magic m header_ptr AND RT_MEMHEAP_MASK = RT_MEMHEAP_MAGIC);
       RT_ASSERT (it_magic m header_ptr AND RT_MEMHEAP_USED \<noteq> 0);
       RT_ASSERT (it_magic m (nxt (it_links m) header_ptr) AND RT_MEMHEAP_MASK = RT_MEMHEAP_MAGIC);
       let p = it_pool m header_ptr;
       RT_ASSERT (is_memheap p s);
       (r, s) \<leftarrow> rt_sem_take (mh_lock (heaps m p)) WAITING_FOREVER s;
       (case r of
          Blocked \<Rightarrow> Some (Blocked, m, s)
        | Done result \<Rightarrow> rt_memheap_free_locked p header_ptr result m s)
     })"

section \<open>Changing the size of a block\<close>

text \<open>Growing into the free block behind, under the semaphore; nothing when it is not enough.\<close>

definition mh_grow :: "nat \<Rightarrow> rt_uint32 \<Rightarrow> rt_size \<Rightarrow> rt_size \<Rightarrow> memheaps \<Rightarrow> memheaps option" where
  "mh_grow p ptr oldsize newsize m =
    (let header_ptr = ptr - RT_MEMHEAP_SIZE; next_ptr = nxt (it_links m) header_ptr;
         nextsize = MEMITEM_SIZE m next_ptr in
     if \<not> is_used m next_ptr \<and> nextsize + oldsize > newsize + RT_MEMHEAP_MINIALLOC then
       (let m = take_bytes p (newsize - oldsize) m;
            m = on_free (free_unlink next_ptr) m;
            m = on_links (\<lambda>st. set_prev (nxt st next_ptr) (prv st next_ptr) st) m;
            m = on_links (\<lambda>st. set_next (prv st next_ptr) (nxt st next_ptr) st) m;
            next_ptr = ptr + newsize;
            m = new_block p header_ptr next_ptr m
        in Some (on_free (free_insert (free_list (heaps m p)) next_ptr) m))
     else None)"

text \<open>Cutting a block down, under the semaphore.\<close>

definition mh_shrink :: "nat \<Rightarrow> rt_uint32 \<Rightarrow> rt_size \<Rightarrow> memheaps \<Rightarrow> memheaps" where
  "mh_shrink p header_ptr newsize m =
    (let new_ptr = header_ptr + newsize + RT_MEMHEAP_SIZE;
         m = new_block p header_ptr new_ptr m;
         m = (if \<not> is_used m (nxt (it_links m) new_ptr) then
           (let free_ptr = nxt (it_links m) new_ptr;
                m = upd_heap p (\<lambda>h. h\<lparr>available_size := available_size h - MEMITEM_SIZE m free_ptr\<rparr>) m;
                m = on_links (\<lambda>st. set_prev (nxt st free_ptr) new_ptr st) m;
                m = on_links (\<lambda>st. set_next new_ptr (nxt st free_ptr) st) m
            in on_free (free_unlink free_ptr) m) else m);
         m = on_free (free_insert (free_list (heaps m p)) new_ptr) m
     in give_bytes p (MEMITEM_SIZE m new_ptr) m)"

text \<open>After the new block was allocated: the copy and the release of the old one.\<close>

definition memheap_moved ::
  "rt_uint32 \<Rightarrow> rt_size \<Rightarrow> rt_size \<Rightarrow> rt_uint32 \<Rightarrow> memheaps \<Rightarrow> kernel \<Rightarrow> (rt_uint32 call \<times> memheaps \<times> kernel) option" where
  "memheap_moved ptr oldsize newsize new_ptr m s =
    (if new_ptr \<noteq> 0 then do {
       b \<leftarrow> rt_memcpy new_ptr ptr (if oldsize < newsize then oldsize else newsize) (heap_bytes m);
       (r, m, s) \<leftarrow> rt_memheap_free ptr (m\<lparr>heap_bytes := b\<rparr>) s;
       Some (case r of Blocked \<Rightarrow> Blocked | Done _ \<Rightarrow> Done new_ptr, m, s)
     } else Some (Done new_ptr, m, s))"

definition memheap_grow_locked ::
  "nat \<Rightarrow> rt_uint32 \<Rightarrow> rt_size \<Rightarrow> rt_size \<Rightarrow> rt_err \<Rightarrow> memheaps \<Rightarrow> kernel \<Rightarrow> (rt_uint32 call \<times> memheaps \<times> kernel) option" where
  "memheap_grow_locked p ptr oldsize newsize result m s =
    (if result \<noteq> RT_EOK then Some (Done 0, m, rt_set_errno result s)
     else do {
       RT_ASSERT (nxt (it_links m) (ptr - RT_MEMHEAP_SIZE) > ptr - RT_MEMHEAP_SIZE);
       (case mh_grow p ptr oldsize newsize m of
          Some m \<Rightarrow> do {
            (_, s) \<leftarrow> rt_sem_release (mh_lock (heaps m p)) s;
            Some (Done ptr, m, s)
          }
        | None \<Rightarrow> do {
            (_, s) \<leftarrow> rt_sem_release (mh_lock (heaps m p)) s;
            (r, m, s) \<leftarrow> rt_memheap_alloc p newsize m s;
            (case r of
               Blocked \<Rightarrow> Some (Blocked, m, s)
             | Done new_ptr \<Rightarrow> memheap_moved ptr oldsize newsize new_ptr m s)
          })
     })"

definition memheap_shrink_locked ::
  "nat \<Rightarrow> rt_uint32 \<Rightarrow> rt_size \<Rightarrow> rt_err \<Rightarrow> memheaps \<Rightarrow> kernel \<Rightarrow> (rt_uint32 call \<times> memheaps \<times> kernel) option" where
  "memheap_shrink_locked p ptr newsize result m s =
    (if result \<noteq> RT_EOK then Some (Done 0, m, rt_set_errno result s)
     else do {
       let m = mh_shrink p (ptr - RT_MEMHEAP_SIZE) newsize m;
       (_, s) \<leftarrow> rt_sem_release (mh_lock (heaps m p)) s;
       Some (Done ptr, m, s)
     })"

definition memheap_resize ::
  "nat \<Rightarrow> rt_uint32 \<Rightarrow> rt_size \<Rightarrow> memheaps \<Rightarrow> kernel \<Rightarrow> (rt_uint32 call \<times> memheaps \<times> kernel) option" where
  "memheap_resize p ptr newsize m s =
    (let oldsize = MEMITEM_SIZE m (ptr - RT_MEMHEAP_SIZE) in
     if newsize > oldsize then do {
       (r, s) \<leftarrow> rt_sem_take (mh_lock (heaps m p)) WAITING_FOREVER s;
       (case r of
          Blocked \<Rightarrow> Some (Blocked, m, s)
        | Done result \<Rightarrow> memheap_grow_locked p ptr oldsize newsize result m s)
     }
     else if newsize + RT_MEMHEAP_SIZE + RT_MEMHEAP_MINIALLOC \<ge> oldsize then Some (Done ptr, m, s)
     else do {
       (r, s) \<leftarrow> rt_sem_take (mh_lock (heaps m p)) WAITING_FOREVER s;
       (case r of
          Blocked \<Rightarrow> Some (Blocked, m, s)
        | Done result \<Rightarrow> memheap_shrink_locked p ptr newsize result m s)
     })"

definition rt_memheap_realloc ::
  "nat \<Rightarrow> rt_uint32 \<Rightarrow> rt_size \<Rightarrow> memheaps \<Rightarrow> kernel \<Rightarrow> (rt_uint32 call \<times> memheaps \<times> kernel) option" where
  "rt_memheap_realloc p ptr newsize m s = do {
     RT_ASSERT (is_memheap p s);
     (if newsize = 0 then do {
        (r, m, s) \<leftarrow> rt_memheap_free ptr m s;
        Some (case r of Blocked \<Rightarrow> Blocked | Done _ \<Rightarrow> Done 0, m, s)
      }
      else (let newsize = memheap_size newsize in
        if ptr = 0 then rt_memheap_alloc p newsize m s
        else memheap_resize p ptr newsize m s))
   }"

end
