(* ===== verification/RT_Memheap_Inv.thy ===== *)
theory RT_Memheap_Inv
  imports RT_Memheap RT_Mem_Run
begin

text \<open>A memory heap as the list of its pieces: the circle of blocks, the circle of the free ones, the
  account of the free bytes, the invariant and the search.\<close>

section \<open>The shared assignments on circles\<close>

lemma link_behind_insert:
  assumes "nxt st c = x" "prv st x = c" "n \<noteq> c" "n \<noteq> x"
  shows "link_behind c n st = rt_list_insert_before x n st"
  using assms by (cases st) (auto simp: link_behind_def link_defs)

lemma dlist_link_behind:
  assumes "dlist st l (xs @ ys)" "n \<notin> set (l # xs @ ys)" "c = last (l # xs)"
  shows "dlist (link_behind c n st) l (xs @ n # ys)"
proof -
  have "c \<in> set (l # xs)" unfolding assms(3) by (rule last_in_set) simp
  then have nc: "n \<noteq> c" using assms(2) by auto
  show ?thesis
  proof (cases ys)
    case Nil
    then have "chain st l xs l" using assms(1) by (simp add: dlist_def)
    then have p: "prv st l = c" unfolding assms(3) by (rule chain_prev)
    have "nxt st c = l" using assms(1) unfolding Nil assms(3) dlist_def
      by (cases xs rule: rev_cases) (auto simp: chain_append)
    with p nc assms(2) have "link_behind c n st = rt_list_insert_before l n st"
      by (intro link_behind_insert) auto
    then show ?thesis using dlist_insert_before[of st l xs n] assms(1,2) Nil by simp
  next
    case (Cons y ys')
    then have ch: "chain st l xs y" using assms(1) by (simp add: dlist_def chain_append)
    have p: "prv st y = c" unfolding assms(3) by (rule chain_prev[OF ch])
    have "nxt st c = y" using ch unfolding assms(3) by (cases xs rule: rev_cases) (auto simp: chain_append)
    with p nc assms(2) Cons have "link_behind c n st = rt_list_insert_before y n st"
      by (intro link_behind_insert) auto
    then show ?thesis using dlist_insert_before_elem[of st l xs y ys' n] assms(1,2) Cons by simp
  qed
qed

lemma dlist_free_insert:
  assumes "dlist st l ns" "n \<notin> set (l # ns)"
  shows "dlist (free_insert l n st) l (n # ns)"
proof -
  have "nxt st l \<noteq> n" using assms chain_next[of st l ns l] by (cases ns) (auto simp: dlist_def)
  then have "free_insert l n st = rt_list_insert_after l n st"
    using assms(2) by (cases st) (auto simp: free_insert_def link_defs)
  then show ?thesis using dlist_insert_after[OF assms] by simp
qed

lemma dlist_neighbours:
  assumes "dlist st l (xs @ n # ys)"
  shows "nxt st n = hd (ys @ [l])" "prv st n = last (l # xs)" "nxt st n \<noteq> n" "prv st n \<noteq> n"
proof -
  have c: "chain st l xs n" "chain st n ys l" and d: "distinct (l # xs @ n # ys)"
    using assms by (auto simp: dlist_def chain_append)
  show "nxt st n = hd (ys @ [l])" "prv st n = last (l # xs)" using chain_next[OF c(2)] chain_prev[OF c(1)] by auto
  then show "nxt st n \<noteq> n" "prv st n \<noteq> n" using d by (cases ys; cases xs rule: rev_cases; auto)+
qed

lemma dlist_free_unlink:
  assumes "dlist st l (xs @ n # ys)"
  shows "dlist (free_unlink n st) l (xs @ ys)"
proof (rule dlist_frame[OF dlist_remove(1)[OF assms]])
  fix x assume "x \<in> set (l # xs @ ys)"
  then have "x \<noteq> n" using assms by (auto simp: dlist_def)
  then show "nxt (free_unlink n st) x = nxt (rt_list_remove n st) x \<and>
      prv (free_unlink n st) x = prv (rt_list_remove n st) x"
    by (auto simp: free_unlink_def link_defs)
qed

lemma dlist_free_clear:
  assumes "dlist st l ns" "n \<notin> set (l # ns)"
  shows "dlist (free_clear n st) l ns"
  by (rule dlist_frame[OF assms(1)]) (use assms(2) in \<open>auto simp: free_clear_def link_defs\<close>)

text \<open>The other orders of these assignments in the source come to the same.\<close>

lemma unlink_next_first:
  assumes "nxt st n \<noteq> n" "prv st n \<noteq> n"
  shows "(let st1 = set_next (prv st n) (nxt st n) st in set_prev (nxt st1 n) (prv st1 n) st1) = free_unlink n st"
    "(let st1 = set_prev (nxt st n) (prv st n) st in set_next (prv st1 n) (nxt st1 n) st1) = free_unlink n st"
    "prv st n = h \<Longrightarrow> (let st1 = set_prev (nxt st n) h st in set_next h (nxt st1 n) st1) = free_unlink n st"
  using assms by (cases st; auto simp: free_unlink_def link_defs)+

section \<open>Addresses\<close>

fun ends :: "nat \<Rightarrow> piece list \<Rightarrow> nat list" where
  "ends a [] = []"
| "ends a ((u, n) # bs) = (a + n) # ends (a + n) bs"

fun cells :: "nat \<Rightarrow> piece list \<Rightarrow> (nat \<times> bool) list" where
  "cells a [] = []"
| "cells a ((u, n) # bs) = (a, u) # cells (a + n) bs"

lemma ends_append: "ends a (xs @ ys) = ends a xs @ ends (a + psize xs) ys"
  by (induction a xs rule: ends.induct) (simp_all add: add.assoc)

lemma cells_append: "cells a (xs @ ys) = cells a xs @ cells (a + psize xs) ys"
  by (induction a xs rule: cells.induct) (simp_all add: add.assoc)

lemma ends_last: "last (a # ends a bs) = a + psize bs"
  by (induction a bs rule: ends.induct) (simp_all add: add.assoc)

definition sizes_ok :: "piece list \<Rightarrow> bool" where
  "sizes_ok bs = (\<forall>(u, n) \<in> set bs. 24 < n \<and> 4 dvd n)"

lemma sizes_ok_simps [simp]:
  "sizes_ok []" "sizes_ok ((u, n) # bs) = (24 < n \<and> 4 dvd n \<and> sizes_ok bs)"
  "sizes_ok (xs @ ys) = (sizes_ok xs \<and> sizes_ok ys)"
  by (auto simp: sizes_ok_def)

lemma ends_bounds: "sizes_ok bs \<Longrightarrow> x \<in> set (ends a bs) \<Longrightarrow> a < x \<and> x \<le> a + psize bs"
  by (induction a bs rule: ends.induct) fastforce+

lemma cells_bounds: "sizes_ok bs \<Longrightarrow> (x, u) \<in> set (cells a bs) \<Longrightarrow> a \<le> x \<and> x < a + psize bs"
  by (induction a bs rule: cells.induct) fastforce+

lemma frees_cells: "frees a bs = {x. (x, False) \<in> set (cells a bs)}"
  by (induction a bs rule: cells.induct) (auto split: if_splits)

lemma sizes_dvd: "sizes_ok bs \<Longrightarrow> 4 dvd psize bs"
  by (induction bs) auto

lemma sizes_pos: "sizes_ok bs \<Longrightarrow> bs \<noteq> [] \<Longrightarrow> 24 < psize bs"
  by (cases bs) auto

text \<open>The magic numbers and the owner of the headers.\<close>

definition tags :: "(rt_uint32 \<Rightarrow> rt_uint32) \<Rightarrow> (rt_uint32 \<Rightarrow> nat) \<Rightarrow> nat \<Rightarrow> (nat \<times> bool) list \<Rightarrow> bool" where
  "tags M P p cs = (\<forall>(x, u) \<in> set cs. M (of_nat x) = RT_MEMHEAP_MAGIC OR (if u then RT_MEMHEAP_USED else 0)
     \<and> P (of_nat x) = p)"

lemma tags_simps [simp]:
  "tags M P p []" "tags M P p ((x, u) # cs) = ((M (of_nat x) = RT_MEMHEAP_MAGIC OR (if u then RT_MEMHEAP_USED else 0)
     \<and> P (of_nat x) = p) \<and> tags M P p cs)"
  "tags M P p (xs @ ys) = (tags M P p xs \<and> tags M P p ys)"
  by (auto simp: tags_def)

lemma tags_upd:
  assumes "tags M P p cs" "\<forall>(x, u) \<in> set cs. x < 2 ^ 32 \<and> x \<noteq> y" "y < 2 ^ 32"
  shows "tags (M(of_nat y := v)) P p cs" "tags M (P(of_nat y := q)) p cs"
  using assms of_nat32_inj[OF _ assms(3)] unfolding tags_def by fastforce+

lemma magic_bits:
  "(RT_MEMHEAP_MAGIC OR (if u then RT_MEMHEAP_USED else 0)) AND RT_MEMHEAP_USED \<noteq> 0 \<longleftrightarrow> u"
  "(RT_MEMHEAP_MAGIC OR (if u then RT_MEMHEAP_USED else 0)) AND RT_MEMHEAP_MASK = RT_MEMHEAP_MAGIC"
  "(RT_MEMHEAP_MAGIC OR (if u then RT_MEMHEAP_USED else 0)) OR RT_MEMHEAP_USED = RT_MEMHEAP_MAGIC OR RT_MEMHEAP_USED"
  "(RT_MEMHEAP_MAGIC OR (if u then RT_MEMHEAP_USED else 0)) AND NOT RT_MEMHEAP_USED = RT_MEMHEAP_MAGIC"
  by (simp_all add: RT_MEMHEAP_MAGIC_def RT_MEMHEAP_USED_def RT_MEMHEAP_MASK_def)

section \<open>The invariant\<close>

definition free_bytes :: "piece list \<Rightarrow> nat" where
  "free_bytes bs = sum_list (map (\<lambda>(u, n). if u then 0 else n - 24) bs)"

lemma free_bytes_simps [simp]:
  "free_bytes [] = 0" "free_bytes ((u, n) # bs) = (if u then 0 else n - 24) + free_bytes bs"
  "free_bytes (xs @ ys) = free_bytes xs + free_bytes ys"
  by (simp_all add: free_bytes_def)

lemma free_bytes_le: "free_bytes bs \<le> psize bs"
  by (induction bs) auto

abbreviation mh_start :: "nat \<Rightarrow> memheaps \<Rightarrow> nat" where
  "mh_start p m \<equiv> unat (start_addr (heaps m p))"

text \<open>The place of the pool, and the fields of the heap object that stay as they are.\<close>

definition mh_place :: "nat \<Rightarrow> memheaps \<Rightarrow> nat \<Rightarrow> bool" where
  "mh_place p m n =
    (let h = heaps m p; a = unat (start_addr h); f = unat (free_header h) in
     0 < a \<and> 4 dvd a \<and> a + n + 24 \<le> 2 ^ 32 \<and> pool_size h = of_nat (n + 24) \<and>
     block_list h = start_addr h \<and> free_list h = free_header h \<and> (f < a \<or> a + n + 24 \<le> f))"

text \<open>The circle of the blocks, with the used block of size 0 at the end of the pool.\<close>

definition mh_blocks :: "nat \<Rightarrow> memheaps \<Rightarrow> piece list \<Rightarrow> bool" where
  "mh_blocks p m bs =
    (bs \<noteq> [] \<and> sizes_ok bs \<and> mh_place p m (psize bs) \<and>
     dlist (it_links m) (start_addr (heaps m p)) (map of_nat (ends (mh_start p m) bs)) \<and>
     tags (it_magic m) (it_pool m) p (cells (mh_start p m) bs @ [(mh_start p m + psize bs, True)]))"

text \<open>The circle of the free blocks; those of the set \<^term>\<open>X\<close> are not linked into it.\<close>

definition mh_frees :: "nat \<Rightarrow> memheaps \<Rightarrow> piece list \<Rightarrow> nat set \<Rightarrow> rt_uint32 list \<Rightarrow> bool" where
  "mh_frees p m bs X fl =
    (dlist (it_free m) (free_header (heaps m p)) fl \<and> set fl = of_nat ` (frees (mh_start p m) bs - X))"

definition mh_account :: "nat \<Rightarrow> memheaps \<Rightarrow> piece list \<Rightarrow> bool" where
  "mh_account p m bs =
    (available_size (heaps m p) = of_nat (free_bytes bs) \<and>
     pool_size (heaps m p) - available_size (heaps m p) \<le> max_used_size (heaps m p))"

definition mh_inv :: "nat \<Rightarrow> memheaps \<Rightarrow> piece list \<Rightarrow> rt_uint32 list \<Rightarrow> bool" where
  "mh_inv p m bs fl = (mh_blocks p m bs \<and> mh_frees p m bs {} fl \<and> mh_account p m bs \<and> no_holes bs)"

lemma mh_placeD:
  assumes "mh_place p m n"
  shows "0 < mh_start p m" "4 dvd mh_start p m" "mh_start p m + n + 24 \<le> 2 ^ 32"
    "free_list (heaps m p) = free_header (heaps m p)" "start_addr (heaps m p) = of_nat (mh_start p m)"
    "pool_size (heaps m p) = of_nat (n + 24)"
    "unat (free_header (heaps m p)) < mh_start p m \<or> mh_start p m + n + 24 \<le> unat (free_header (heaps m p))"
  using assms unfolding mh_place_def Let_def by auto

lemma mh_blocksD:
  assumes "mh_blocks p m bs"
  shows "bs \<noteq> []" "sizes_ok bs" "mh_place p m (psize bs)" "mh_start p m + psize bs + 24 \<le> 2 ^ 32"
    "dlist (it_links m) (of_nat (mh_start p m)) (map of_nat (ends (mh_start p m) bs))"
    "tags (it_magic m) (it_pool m) p (cells (mh_start p m) bs @ [(mh_start p m + psize bs, True)])"
  using assms mh_placeD(3,5)[of p m "psize bs"] unfolding mh_blocks_def by auto

text \<open>An operation on the heap \<^term>\<open>p\<close> changes its account only, and no data bytes.\<close>

definition same_mh :: "nat \<Rightarrow> memheaps \<Rightarrow> memheaps \<Rightarrow> bool" where
  "same_mh p m m' =
    (heap_bytes m' = heap_bytes m \<and> (\<forall>q. q \<noteq> p \<longrightarrow> heaps m' q = heaps m q) \<and>
     (\<exists>v x. heaps m' p = (heaps m p)\<lparr>available_size := v, max_used_size := x\<rparr>))"

lemma same_mh_refl: "same_mh p m m"
  unfolding same_mh_def by (metis rt_memheap.surjective rt_memheap.update_convs(3,4))

lemma same_mh_trans: "same_mh p a b \<Longrightarrow> same_mh p b c \<Longrightarrow> same_mh p a c"
  unfolding same_mh_def by fastforce

lemma same_mhD:
  assumes "same_mh p m m'"
  shows "mh_start p m' = mh_start p m" "mh_place p m' n = mh_place p m n" "free_header (heaps m' p) = free_header (heaps m p)"
    "free_list (heaps m' p) = free_list (heaps m p)" "start_addr (heaps m' p) = start_addr (heaps m p)"
    "mh_lock (heaps m' p) = mh_lock (heaps m p)" "heap_bytes m' = heap_bytes m"
  using assms unfolding same_mh_def mh_place_def Let_def by auto

lemma mh_upd_simps [simp]:
  "heaps (on_links f m) = heaps m" "it_links (on_links f m) = f (it_links m)" "it_free (on_links f m) = it_free m"
  "it_magic (on_links f m) = it_magic m" "it_pool (on_links f m) = it_pool m" "heap_bytes (on_links f m) = heap_bytes m"
  "heaps (on_free f m) = heaps m" "it_links (on_free f m) = it_links m" "it_free (on_free f m) = f (it_free m)"
  "it_magic (on_free f m) = it_magic m" "it_pool (on_free f m) = it_pool m" "heap_bytes (on_free f m) = heap_bytes m"
  "heaps (set_magic a v m) = heaps m" "it_links (set_magic a v m) = it_links m" "it_free (set_magic a v m) = it_free m"
  "it_magic (set_magic a v m) = (it_magic m)(a := v)" "it_pool (set_magic a v m) = it_pool m"
  "heap_bytes (set_magic a v m) = heap_bytes m"
  "heaps (set_pool a q m) = heaps m" "it_links (set_pool a q m) = it_links m" "it_free (set_pool a q m) = it_free m"
  "it_magic (set_pool a q m) = it_magic m" "it_pool (set_pool a q m) = (it_pool m)(a := q)"
  "heap_bytes (set_pool a q m) = heap_bytes m"
  "heaps (upd_heap p g m) = (heaps m)(p := g (heaps m p))" "it_links (upd_heap p g m) = it_links m"
  "it_free (upd_heap p g m) = it_free m" "it_magic (upd_heap p g m) = it_magic m"
  "it_pool (upd_heap p g m) = it_pool m" "heap_bytes (upd_heap p g m) = heap_bytes m"
  by (simp_all add: on_links_def on_free_def set_magic_def set_pool_def upd_heap_def)

lemma mh_account_simps [simp]:
  "it_links (take_bytes p n m) = it_links m" "it_free (take_bytes p n m) = it_free m"
  "it_magic (take_bytes p n m) = it_magic m" "it_pool (take_bytes p n m) = it_pool m"
  "it_links (give_bytes p n m) = it_links m" "it_free (give_bytes p n m) = it_free m"
  "it_magic (give_bytes p n m) = it_magic m" "it_pool (give_bytes p n m) = it_pool m"
  by (simp_all add: take_bytes_def give_bytes_def note_max_used_def Let_def)

lemma same_mh_simps:
  "same_mh p m (on_links f m)" "same_mh p m (on_free f m)" "same_mh p m (set_magic a v m)" "same_mh p m (set_pool a q m)"
  "same_mh p m (give_bytes p n m)" "same_mh p m (take_bytes p n m)"
proof -
  show "same_mh p m (on_links f m)" "same_mh p m (on_free f m)" "same_mh p m (set_magic a v m)" "same_mh p m (set_pool a q m)"
    using same_mh_refl[of p m] by (simp_all add: same_mh_def)
  show "same_mh p m (give_bytes p n m)"
    unfolding same_mh_def give_bytes_def
    by (intro conjI exI[of _ "available_size (heaps m p) + n"] exI[of _ "max_used_size (heaps m p)"]) auto
  show "same_mh p m (take_bytes p n m)"
    unfolding same_mh_def take_bytes_def note_max_used_def Let_def
    by (intro conjI exI[of _ "available_size (heaps m p) - n"]
      exI[of _ "max (max_used_size (heaps m p)) (pool_size (heaps m p) - (available_size (heaps m p) - n))"]) (auto simp: max_def)
qed

text \<open>The parts of the invariant depend on the parts of the state they name.\<close>

lemma mh_cong:
  assumes "same_mh p m m'"
  shows "it_links m' = it_links m \<Longrightarrow> it_magic m' = it_magic m \<Longrightarrow> it_pool m' = it_pool m \<Longrightarrow> mh_blocks p m' bs = mh_blocks p m bs"
    "it_free m' = it_free m \<Longrightarrow> mh_frees p m' bs X fl = mh_frees p m bs X fl"
  using same_mhD[OF assms] by (simp_all add: mh_blocks_def mh_frees_def)

section \<open>The links of a block\<close>

lemma block_links:
  assumes "mh_blocks p m (pre @ (u, n) # post)" "c = mh_start p m + psize pre"
  shows "nxt (it_links m) (of_nat c) = of_nat (c + n)"
    "pre = [] \<Longrightarrow> prv (it_links m) (of_nat c) = of_nat (c + n + psize post)"
    "pre = qs @ [(v, k)] \<Longrightarrow> prv (it_links m) (of_nat c) = of_nat (c - k)"
    "is_used m (of_nat c) = u" "c + n + psize post + 24 \<le> 2 ^ 32" "24 < n"
    "it_magic m (of_nat c) = RT_MEMHEAP_MAGIC OR (if u then RT_MEMHEAP_USED else 0)" "it_pool m (of_nat c) = p"
proof -
  note D = mh_blocksD[OF assms(1)]
  let ?a = "mh_start p m"
  have e: "map of_nat (ends ?a (pre @ (u, n) # post)) =
      map of_nat (ends ?a pre) @ (of_nat (c + n) :: rt_uint32) # map of_nat (ends (c + n) post)"
    by (simp add: ends_append assms(2))
  have last: "(of_nat c :: rt_uint32) = last (of_nat ?a # map of_nat (ends ?a pre))"
    using ends_last[of ?a pre] last_map[of "?a # ends ?a pre" "of_nat :: nat \<Rightarrow> rt_uint32"] assms(2) by simp
  have ch: "chain (it_links m) (of_nat ?a) (map of_nat (ends ?a pre)) (of_nat (c + n))"
    using D(5) unfolding dlist_def e chain_append by blast
  show "nxt (it_links m) (of_nat c) = of_nat (c + n)"
    using ch unfolding last by (cases "ends ?a pre" rule: rev_cases) (auto simp: chain_append)
  show "24 < n" "c + n + psize post + 24 \<le> 2 ^ 32" using D(2,4) assms(2) by simp_all
  show "it_magic m (of_nat c) = RT_MEMHEAP_MAGIC OR (if u then RT_MEMHEAP_USED else 0)" "it_pool m (of_nat c) = p"
    using D(6) by (simp_all add: cells_append assms(2))
  then show "is_used m (of_nat c) = u" by (simp only: is_used_def magic_bits)
  show "prv (it_links m) (of_nat c) = of_nat (c + n + psize post)" if "pre = []"
  proof -
    have "prv (it_links m) (of_nat ?a) = last (of_nat ?a # map of_nat (ends ?a ((u, n) # post)))"
      using D(5) that unfolding dlist_def by (intro chain_prev) simp
    also have "\<dots> = of_nat (last (?a # ends ?a ((u, n) # post)))"
      using last_map[of "?a # ends ?a ((u, n) # post)" "of_nat :: nat \<Rightarrow> rt_uint32"] by simp
    finally show ?thesis unfolding ends_last using assms(2) that by (simp add: add.assoc)
  qed
  show "prv (it_links m) (of_nat c) = of_nat (c - k)" if pre: "pre = qs @ [(v, k)]"
  proof -
    have ck: "ends ?a pre = ends ?a qs @ [c]" "c - k = ?a + psize qs" by (simp_all add: pre ends_append assms(2) add.assoc)
    then have "chain (it_links m) (of_nat ?a) (map of_nat (ends ?a qs)) (of_nat c)"
      using ch by (simp add: chain_append)
    then have "prv (it_links m) (of_nat c) = last (of_nat ?a # map of_nat (ends ?a qs))" by (rule chain_prev)
    also have "\<dots> = of_nat (c - k)"
      using ends_last[of ?a qs] last_map[of "?a # ends ?a qs" "of_nat :: nat \<Rightarrow> rt_uint32"] ck(2) by simp
    finally show ?thesis .
  qed
qed

lemma item_size:
  assumes "mh_blocks p m (pre @ (u, n) # post)"
  shows "MEMITEM_SIZE m (of_nat (mh_start p m + psize pre)) = of_nat (n - 24)"
proof -
  note L = block_links[OF assms refl]
  have "(of_nat (mh_start p m + psize pre + n) :: rt_uint32) - of_nat (mh_start p m + psize pre) - of_nat 24 = of_nat (n - 24)"
    using L(6) by simp
  then show ?thesis unfolding MEMITEM_SIZE_def L(1) RT_MEMHEAP_SIZE_def by (simp only: of_nat_numeral)
qed

text \<open>The block behind the last piece is used.\<close>

lemma tail_used:
  assumes "mh_blocks p m bs"
  shows "is_used m (of_nat (mh_start p m + psize bs))"
proof -
  have "it_magic m (of_nat (mh_start p m + psize bs)) = RT_MEMHEAP_MAGIC OR (if True then RT_MEMHEAP_USED else 0)"
    using mh_blocksD(6)[OF assms] by simp
  then show ?thesis by (simp only: is_used_def magic_bits)
qed

section \<open>Marking, splitting and merging pieces\<close>

lemma piece_cells:
  "cells a (pre @ (u, n) # post) @ [(a + psize (pre @ (u, n) # post), True)]
    = cells a pre @ (a + psize pre, u) # cells (a + psize pre + n) post @ [(a + psize pre + n + psize post, True)]"
  by (simp add: cells_append add.assoc)

text \<open>The other headers of a pool are not at the address of a new one inside of a piece.\<close>

lemma other_cells:
  assumes "sizes_ok (pre @ (u, n) # post)" "a + psize (pre @ (u, n) # post) + 24 \<le> 2 ^ 32"
    and "a + psize pre \<le> y" "y < a + psize pre + n"
  shows "\<forall>(x, v) \<in> set (cells a pre). x < 2 ^ 32 \<and> x \<noteq> y"
    "\<forall>(x, v) \<in> set (cells (a + psize pre + n) post @ [(a + psize pre + n + psize post, True)]). x < 2 ^ 32 \<and> x \<noteq> y"
  using assms cells_bounds[of pre _ _ a] cells_bounds[of post _ _ "a + psize pre + n"] by fastforce+

lemma mh_blocks_mark:
  assumes "mh_blocks p m (pre @ (u, n) # post)" "c = mh_start p m + psize pre" "same_mh p m m'"
    and "it_links m' = it_links m" "it_pool m' = it_pool m"
    and "it_magic m' = (it_magic m)(of_nat c := RT_MEMHEAP_MAGIC OR (if v then RT_MEMHEAP_USED else 0))"
  shows "mh_blocks p m' (pre @ (v, n) # post)"
proof -
  note D = mh_blocksD[OF assms(1)] and S = same_mhD[OF assms(3)] and L = block_links[OF assms(1,2)]
  have c: "mh_start p m + psize pre \<le> c" "c < mh_start p m + psize pre + n" "c < 2 ^ 32" using L(5,6) assms(2) by simp_all
  note O = other_cells[OF D(2,4) c(1,2)]
  have t: "tags (it_magic m) (it_pool m) p (cells (mh_start p m) pre)"
    "tags (it_magic m) (it_pool m) p (cells (c + n) post @ [(c + n + psize post, True)])"
    using D(6) unfolding piece_cells assms(2) by simp_all
  have "tags (it_magic m') (it_pool m') p (cells (mh_start p m) (pre @ (v, n) # post) @ [(mh_start p m + psize (pre @ (v, n) # post), True)])"
    using tags_upd(1)[OF t(1) O(1) c(3)] tags_upd(1)[OF t(2) O(2)[folded assms(2)] c(3)] L(8)
    unfolding piece_cells assms(2)[symmetric] assms(5,6) by simp
  moreover have "ends (mh_start p m) (pre @ (v, n) # post) = ends (mh_start p m) (pre @ (u, n) # post)" by (simp add: ends_append)
  ultimately show ?thesis using assms(1) unfolding mh_blocks_def S assms(4) by simp
qed

lemma mh_blocks_split:
  assumes "mh_blocks p m (pre @ (u, n) # post)" "c = mh_start p m + psize pre" "same_mh p m m'"
    and k: "24 < k" "4 dvd k" "k + 24 < n"
    and "it_links m' = link_behind (of_nat c) (of_nat (c + k)) (it_links m)"
    and "it_magic m' = (it_magic m)(of_nat (c + k) := RT_MEMHEAP_MAGIC)" "it_pool m' = (it_pool m)(of_nat (c + k) := p)"
  shows "mh_blocks p m' (pre @ (u, k) # (False, n - k) # post)"
proof -
  let ?bs = "pre @ (u, k) # (False, n - k) # post" and ?a = "mh_start p m"
  note D = mh_blocksD[OF assms(1)] and S = same_mhD[OF assms(3)] and L = block_links[OF assms(1,2)]
  have ck: "?a + psize pre \<le> c + k" "c + k < ?a + psize pre + n" "c + k < 2 ^ 32" "c < 2 ^ 32"
    using L(5,6) assms(2) k by simp_all
  note O = other_cells[OF D(2,4) ck(1,2)]
  have size: "psize ?bs = psize (pre @ (u, n) # post)" using k by simp
  have "4 dvd n - k" using D(2) k(2) by (auto intro: dvd_diff_nat)
  then have sz: "sizes_ok ?bs" using D(2) k by auto
  have ne: "(of_nat (c + k) :: rt_uint32) \<noteq> of_nat c" using ck k by (subst of_nat32_inj) auto
  have t: "tags (it_magic m) (it_pool m) p (cells ?a pre)"
    "tags (it_magic m) (it_pool m) p (cells (c + n) post @ [(c + n + psize post, True)])"
    using D(6) unfolding piece_cells assms(2) by simp_all
  have T1: "tags (it_magic m') (it_pool m') p (cells ?a pre)"
    unfolding assms(8,9) by (rule tags_upd(2)[OF tags_upd(1)[OF t(1) O(1) ck(3)] O(1) ck(3)])
  have T2: "tags (it_magic m') (it_pool m') p (cells (c + n) post @ [(c + n + psize post, True)])"
    unfolding assms(8,9) by (rule tags_upd(2)[OF tags_upd(1)[OF t(2) O(2)[folded assms(2)] ck(3)] O(2)[folded assms(2)] ck(3)])
  have T3: "it_magic m' (of_nat c) = RT_MEMHEAP_MAGIC OR (if u then RT_MEMHEAP_USED else 0)" "it_pool m' (of_nat c) = p"
    unfolding assms(8,9) fun_upd_other[OF ne[symmetric]] by (rule L)+
  have T4: "it_magic m' (of_nat (c + k)) = RT_MEMHEAP_MAGIC" "it_pool m' (of_nat (c + k)) = p"
    unfolding assms(8,9) by (rule fun_upd_same)+
  have "cells ?a ?bs @ [(?a + psize ?bs, True)] = cells ?a pre @ (c, u) # (c + k, False) # cells (c + n) post @ [(c + n + psize post, True)]"
    unfolding piece_cells assms(2)[symmetric] using k by (simp add: assms(2) add.assoc)
  then have "tags (it_magic m') (it_pool m') p (cells ?a ?bs @ [(?a + psize ?bs, True)])"
    using T1 T2 T3 T4 by (simp only: tags_simps if_False or.right_neutral)
  moreover have "dlist (it_links m') (of_nat ?a) (map of_nat (ends ?a ?bs))"
  proof -
    let ?xs = "map of_nat (ends ?a pre)" and ?ys = "map of_nat ((c + n) # ends (c + n) post)"
    have e: "map of_nat (ends ?a (pre @ (u, n) # post)) = (?xs @ ?ys :: rt_uint32 list)"
      "map of_nat (ends ?a ?bs) = (?xs @ of_nat (c + k) # ?ys :: rt_uint32 list)"
      using k by (simp_all add: ends_append assms(2) add.assoc)
    have last: "(of_nat c :: rt_uint32) = last (of_nat ?a # ?xs)"
      using ends_last[of ?a pre] last_map[of "?a # ends ?a pre" "of_nat :: nat \<Rightarrow> rt_uint32"] assms(2) by simp
    have "(of_nat (c + k) :: rt_uint32) \<notin> set (of_nat ?a # ?xs @ ?ys)"
    proof
      assume "(of_nat (c + k) :: rt_uint32) \<in> set (of_nat ?a # ?xs @ ?ys)"
      moreover have "(of_nat ?a :: rt_uint32) # ?xs @ ?ys = map of_nat (?a # ends ?a pre @ (c + n) # ends (c + n) post)"
        by simp
      ultimately have "(of_nat (c + k) :: rt_uint32) \<in> of_nat ` set (?a # ends ?a pre @ (c + n) # ends (c + n) post)"
        by (simp only: set_map)
      then obtain y where y: "of_nat (c + k) = (of_nat y :: rt_uint32)" "y \<in> set (?a # ends ?a pre @ (c + n) # ends (c + n) post)"
        by (rule imageE)
      have "y \<le> c \<or> (c + n \<le> y \<and> y \<le> c + n + psize post)"
        using y(2) ends_bounds[of pre y ?a] ends_bounds[of post y "c + n"] D(2) assms(2) by auto
      then have "y < 2 ^ 32" "y \<noteq> c + k" using L(5) k by auto
      then show False using y(1) of_nat32_inj[OF ck(3), of y] by simp
    qed
    from dlist_link_behind[OF D(5)[unfolded e(1)] this last] show ?thesis unfolding e(2) assms(7) .
  qed
  ultimately show ?thesis using sz mh_blocksD(3)[OF assms(1)] unfolding mh_blocks_def S size by simp
qed

lemma mh_blocks_merge:
  assumes "mh_blocks p m (pre @ (u, n) # (v, k) # post)" "c = mh_start p m + psize pre" "same_mh p m m'"
    and "it_links m' = free_unlink (of_nat (c + n)) (it_links m)" "it_magic m' = it_magic m" "it_pool m' = it_pool m"
  shows "mh_blocks p m' (pre @ (u, n + k) # post)"
proof -
  let ?a = "mh_start p m"
  note D = mh_blocksD[OF assms(1)] and S = same_mhD[OF assms(3)]
  have e: "map of_nat (ends ?a (pre @ (u, n) # (v, k) # post))
      = (map of_nat (ends ?a pre) @ of_nat (c + n) # map of_nat ((c + n + k) # ends (c + n + k) post) :: rt_uint32 list)"
    "map of_nat (ends ?a (pre @ (u, n + k) # post))
      = (map of_nat (ends ?a pre) @ map of_nat ((c + n + k) # ends (c + n + k) post) :: rt_uint32 list)"
    by (simp_all add: ends_append assms(2) add.assoc)
  have "dlist (it_links m') (of_nat ?a) (map of_nat (ends ?a (pre @ (u, n + k) # post)))"
    unfolding e(2) assms(4) by (rule dlist_free_unlink[OF D(5)[unfolded e(1)]])
  moreover have "tags (it_magic m') (it_pool m') p (cells ?a (pre @ (u, n + k) # post) @ [(?a + psize (pre @ (u, n + k) # post), True)])"
    using D(6) unfolding assms(5,6) by (simp add: cells_append add.assoc)
  moreover have "psize (pre @ (u, n + k) # post) = psize (pre @ (u, n) # (v, k) # post)" by simp
  moreover have "sizes_ok (pre @ (u, n + k) # post)" using D(2) by simp
  ultimately show ?thesis using D(3) unfolding mh_blocks_def S by (simp add: add.assoc)
qed

section \<open>The free list\<close>

lemma free_address:
  assumes "mh_blocks p m bs" "x \<in> frees (mh_start p m) bs"
  shows "mh_start p m \<le> x" "x < mh_start p m + psize bs" "x < 2 ^ 32" "of_nat x \<noteq> free_header (heaps m p)"
proof -
  note D = mh_blocksD[OF assms(1)]
  show b: "mh_start p m \<le> x" "x < mh_start p m + psize bs"
    using assms(2) cells_bounds[OF D(2)] unfolding frees_cells by auto
  then show x: "x < 2 ^ 32" using D(4) by simp
  show "of_nat x \<noteq> free_header (heaps m p)"
  proof
    assume "of_nat x = free_header (heaps m p)"
    then have "unat (free_header (heaps m p)) = x" using unat_small32[OF x] by simp
    then show False using mh_placeD(7)[OF D(3)] b by auto
  qed
qed

lemma mh_frees_mem:
  assumes "mh_blocks p m bs" "mh_frees p m bs X fl" "x < 2 ^ 32"
  shows "of_nat x \<in> set fl \<longleftrightarrow> x \<in> frees (mh_start p m) bs - X"
  using assms(2) of_nat32_inj[OF assms(3)] free_address(3)[OF assms(1)] unfolding mh_frees_def by (auto simp: image_iff)

lemma mh_frees_split:
  assumes "mh_blocks p m bs" "mh_frees p m bs X fl" "x \<in> frees (mh_start p m) bs" "x \<notin> X"
  shows "\<exists>fs gs. fl = fs @ of_nat x # gs \<and> of_nat x \<notin> set (fs @ gs)"
proof -
  have "of_nat x \<in> set fl" using mh_frees_mem[OF assms(1,2) free_address(3)[OF assms(1,3)]] assms(3,4) by simp
  then obtain fs gs where "fl = fs @ of_nat x # gs" by (meson split_list)
  then show ?thesis using assms(2) by (auto simp: mh_frees_def dlist_def)
qed

text \<open>Taking a block out of the free list, and putting one in.\<close>

lemma mh_frees_remove:
  assumes "mh_blocks p m bs" "mh_frees p m bs X (fs @ of_nat x # gs)" "x < 2 ^ 32"
    and "same_mh p m m'" "it_free m' = free_unlink (of_nat x) (it_free m)"
  shows "mh_frees p m' bs (insert x X) (fs @ gs)"
proof -
  have d: "dlist (it_free m) (free_header (heaps m p)) (fs @ of_nat x # gs)" using assms(2) by (simp add: mh_frees_def)
  then have nx: "of_nat x \<notin> set (fs @ gs)" by (auto simp: dlist_def)
  have "set (fs @ gs) = set (fs @ of_nat x # gs) - {of_nat x}" using nx by auto
  also have "\<dots> = of_nat ` (frees (mh_start p m) bs - X) - {of_nat x}" using assms(2) by (simp add: mh_frees_def)
  also have "\<dots> = of_nat ` (frees (mh_start p m) bs - insert x X)"
    using of_nat32_inj[OF _ assms(3)] free_address(3)[OF assms(1)] by fastforce
  finally show ?thesis using dlist_free_unlink[OF d] by (simp add: mh_frees_def same_mhD[OF assms(4)] assms(5))
qed

lemma mh_frees_insert:
  assumes "mh_blocks p m bs" "mh_frees p m bs X fl" "x \<in> frees (mh_start p m) bs" "x \<in> X"
    and "same_mh p m m'" "it_free m' = free_insert (free_header (heaps m p)) (of_nat x) (it_free m)"
  shows "mh_frees p m' bs (X - {x}) (of_nat x # fl)"
proof -
  note F = free_address[OF assms(1,3)]
  have "of_nat x \<notin> set (free_header (heaps m p) # fl)" using F(4) mh_frees_mem[OF assms(1,2) F(3)] assms(4) by auto
  then have "dlist (it_free m') (free_header (heaps m p)) (of_nat x # fl)"
    using dlist_free_insert assms(2,6) by (metis mh_frees_def)
  moreover have "set (of_nat x # fl) = (of_nat ` (frees (mh_start p m) bs - (X - {x})) :: rt_uint32 set)"
    using assms(2,3) by (auto simp: mh_frees_def)
  ultimately show ?thesis by (simp add: mh_frees_def same_mhD[OF assms(5)])
qed

lemma mh_frees_clear:
  assumes "mh_blocks p m bs" "mh_frees p m bs X fl" "x \<in> frees (mh_start p m) bs" "x \<in> X"
    and "same_mh p m m'" "it_free m' = free_clear (of_nat x) (it_free m)"
  shows "mh_frees p m' bs X fl"
proof -
  note F = free_address[OF assms(1,3)]
  have "of_nat x \<notin> set (free_header (heaps m p) # fl)" using F(4) mh_frees_mem[OF assms(1,2) F(3)] assms(4) by auto
  then show ?thesis using assms(2,6) dlist_free_clear by (simp add: mh_frees_def same_mhD[OF assms(5)])
qed

lemma mh_frees_same:
  assumes "mh_frees p m bs X fl" "same_mh p m m'" "it_free m' = it_free m"
    and "frees (mh_start p m) bs' - X' = frees (mh_start p m) bs - X"
  shows "mh_frees p m' bs' X' fl"
  using assms by (simp add: mh_frees_def same_mhD[OF assms(2)])

end
