(* ===== verification/RT_Memheap_Ops.thy ===== *)
theory RT_Memheap_Ops
  imports RT_Memheap_Inv
begin

text \<open>The critical sections of the memory heaps on the list of pieces: the search, taking a block,
  releasing one with the merging of its neighbours, growing and cutting down, and the fresh heap.\<close>

section \<open>The search\<close>

lemma mh_search_chain:
  assumes "chain (it_free m) a fl list" "list \<notin> set fl" "f < sz"
  shows "(\<exists>g < sz. (\<forall>x \<in> set fl. MEMITEM_SIZE m x < sz) \<and> mh_search list sz m (hd (fl @ [list])) f = Some (list, g)) \<or>
    (\<exists>fs x gs. fl = fs @ x # gs \<and> (\<forall>y \<in> set fs. MEMITEM_SIZE m y < sz) \<and> MEMITEM_SIZE m x \<ge> sz \<and>
       mh_search list sz m (hd (fl @ [list])) f = Some (x, MEMITEM_SIZE m x))"
  using assms
proof (induction fl arbitrary: a f)
  case Nil
  then show ?case by (intro disjI1 exI[of _ f]) (subst mh_search.simps, simp)
next
  case (Cons x fl)
  let ?f = "MEMITEM_SIZE m x"
  show ?case
  proof (cases "?f < sz")
    case True
    have ch: "chain (it_free m) x fl list" using Cons.prems(1) by simp
    have nx: "nxt (it_free m) x = hd (fl @ [list])" by (rule chain_next[OF ch])
    have e: "mh_search list sz m (hd ((x # fl) @ [list])) f = mh_search list sz m (hd (fl @ [list])) ?f"
      using Cons.prems True nx by (subst mh_search.simps) (auto simp: Let_def)
    from Cons.IH[OF ch _ True] Cons.prems(2)
    have "(\<exists>g < sz. (\<forall>x \<in> set fl. MEMITEM_SIZE m x < sz) \<and> mh_search list sz m (hd (fl @ [list])) ?f = Some (list, g)) \<or>
      (\<exists>fs y gs. fl = fs @ y # gs \<and> (\<forall>z \<in> set fs. MEMITEM_SIZE m z < sz) \<and> MEMITEM_SIZE m y \<ge> sz \<and>
         mh_search list sz m (hd (fl @ [list])) ?f = Some (y, MEMITEM_SIZE m y))" by simp
    then show ?thesis
    proof (elim disjE exE conjE)
      fix g assume "g < sz" "\<forall>x \<in> set fl. MEMITEM_SIZE m x < sz" "mh_search list sz m (hd (fl @ [list])) ?f = Some (list, g)"
      then show ?thesis using True unfolding e by auto
    next
      fix fs y gs assume y: "fl = fs @ y # gs" "\<forall>z \<in> set fs. MEMITEM_SIZE m z < sz" "MEMITEM_SIZE m y \<ge> sz"
        "mh_search list sz m (hd (fl @ [list])) ?f = Some (y, MEMITEM_SIZE m y)"
      have "x # fl = (x # fs) @ y # gs" "\<forall>z \<in> set (x # fs). MEMITEM_SIZE m z < sz" using y True by simp_all
      then show ?thesis using y(3,4) unfolding e by blast
    qed
  next
    case False
    have "mh_search list sz m (hd ((x # fl) @ [list])) f = mh_search list sz m x ?f"
      using Cons.prems False by (subst mh_search.simps) (auto simp: Let_def)
    also have "\<dots> = Some (x, ?f)" using False by (subst mh_search.simps) simp
    finally have "x # fl = [] @ x # fl \<and> (\<forall>y \<in> set []. MEMITEM_SIZE m y < sz) \<and> ?f \<ge> sz \<and>
        mh_search list sz m (hd ((x # fl) @ [list])) f = Some (x, ?f)" using False by simp
    then show ?thesis by blast
  qed
qed

section \<open>Taking a block\<close>

text \<open>The pieces of a block of \<^verbatim>\<open>n\<close> bytes that is taken for \<^verbatim>\<open>k\<close> bytes of data.\<close>

definition cut_piece :: "nat \<Rightarrow> nat \<Rightarrow> piece list" where
  "cut_piece k n = (if k + 60 \<le> n then [(True, k + 24), (False, n - (k + 24))] else [(True, n)])"

lemma take_bytes_account:
  "available_size (heaps (take_bytes p n m) p) = available_size (heaps m p) - n"
  "pool_size (heaps (take_bytes p n m) p) - available_size (heaps (take_bytes p n m) p) \<le> max_used_size (heaps (take_bytes p n m) p)"
  by (auto simp: take_bytes_def note_max_used_def Let_def)

lemma give_bytes_account:
  "available_size (heaps (give_bytes p n m) p) = available_size (heaps m p) + n"
  "pool_size (heaps (give_bytes p n m) p) = pool_size (heaps m p)" "max_used_size (heaps (give_bytes p n m) p) = max_used_size (heaps m p)"
  by (simp_all add: give_bytes_def)

lemma take_account:
  assumes "mh_account p m bs" "k \<le> free_bytes bs" "free_bytes bs' = free_bytes bs - k"
    and "heaps m1 p = heaps m p" "heaps m' p = heaps (take_bytes p (of_nat k) m1) p"
  shows "mh_account p m' bs'"
  using assms(1-4) take_bytes_account[of p "of_nat k" m1] by (simp add: mh_account_def assms(5))

lemma give_account:
  assumes "mh_account p m bs" "free_bytes bs' = free_bytes bs + k" "pool_size (heaps m p) = of_nat P"
    and "free_bytes bs' \<le> P" "P < 2 ^ 32" "heaps mm p = heaps m p" "heaps m' p = heaps (give_bytes p (of_nat k) mm) p"
  shows "mh_account p m' bs'"
proof -
  have d: "(of_nat P :: rt_uint32) - of_nat x = of_nat (P - x)" if "x \<le> P" for x using that by simp
  have "(of_nat P :: rt_uint32) - of_nat (free_bytes bs') \<le> of_nat P - of_nat (free_bytes bs)"
    using assms(2,4,5) unfolding word_le_nat_alt by (subst d, simp)+ (simp add: unat_of_nat del: of_nat_diff)
  also have "\<dots> \<le> max_used_size (heaps m p)" using assms(1,3) unfolding mh_account_def by metis
  finally show ?thesis using assms(1-3,6) give_bytes_account[of p "of_nat k" mm] by (simp add: mh_account_def assms(7))
qed

lemma no_holes_cut: "no_holes (pre @ (False, n) # post) \<Longrightarrow> no_holes (pre @ cut_piece k n @ post)"
  by (auto simp: no_holes_def cut_piece_def successively_append_iff successively_Cons)

lemma frees_at:
  "frees a (pre @ (u, n) # post) = frees a pre \<union> (if u then {} else {a + psize pre}) \<union> frees (a + psize pre + n) post"
  by (auto simp: frees_append)

text \<open>The addresses before and behind a piece are other ones.\<close>

lemma frees_apart:
  assumes "mh_blocks p m (pre @ (u, n) # post)" "c = mh_start p m + psize pre"
  shows "x \<in> frees (mh_start p m) pre \<Longrightarrow> x < c" "x \<in> frees (c + n) post \<Longrightarrow> c + n \<le> x"
  using mh_blocksD(2)[OF assms(1)] cells_bounds[of pre x False "mh_start p m"] cells_bounds[of post x False "c + n"]
  unfolding frees_cells assms(2) by auto

lemma frees_mark:
  assumes "mh_blocks p m (pre @ (u, n) # post)" "c = mh_start p m + psize pre"
  shows "frees (mh_start p m) (pre @ (True, n) # post) = frees (mh_start p m) (pre @ (False, n) # post) - {c}"
    "frees (mh_start p m) (pre @ (False, n) # post) = insert c (frees (mh_start p m) (pre @ (True, n) # post))"
proof -
  have "0 < n" using block_links(6)[OF assms] by simp
  then have "c \<notin> frees (mh_start p m) pre" "c \<notin> frees (c + n) post" using frees_apart[OF assms] by fastforce+
  then show "frees (mh_start p m) (pre @ (True, n) # post) = frees (mh_start p m) (pre @ (False, n) # post) - {c}"
    "frees (mh_start p m) (pre @ (False, n) # post) = insert c (frees (mh_start p m) (pre @ (True, n) # post))"
    unfolding frees_at assms(2)[symmetric] by auto
qed

lemma new_block_simps [simp]:
  "it_links (new_block p h x m) = link_behind h x (it_links m)" "it_free (new_block p h x m) = it_free m"
  "it_magic (new_block p h x m) = (it_magic m)(x := RT_MEMHEAP_MAGIC)" "it_pool (new_block p h x m) = (it_pool m)(x := p)"
  "heaps (new_block p h x m) = heaps m" "same_mh p m (new_block p h x m)"
proof -
  show "same_mh p m (new_block p h x m)" unfolding new_block_def using same_mh_simps same_mh_trans by meson
qed (simp_all add: new_block_def)

text \<open>A new free block in a piece: its address is free and not yet in the list.\<close>

lemma new_block_pieces:
  assumes "mh_blocks p m (pre @ (u, n) # post)" "c = mh_start p m + psize pre" "mh_frees p m (pre @ (u, n) # post) X fl"
    and k: "24 < k" "4 dvd k" "k + 24 < n" and X: "X \<subseteq> {c}"
  shows "mh_blocks p (new_block p (of_nat c) (of_nat (c + k)) m) (pre @ (u, k) # (False, n - k) # post)"
    "mh_frees p (new_block p (of_nat c) (of_nat (c + k)) m) (pre @ (u, k) # (False, n - k) # post) (insert (c + k) X) fl"
proof -
  let ?m = "new_block p (of_nat c) (of_nat (c + k)) m"
  show "mh_blocks p ?m (pre @ (u, k) # (False, n - k) # post)"
    by (rule mh_blocks_split[OF assms(1,2) _ k]) simp_all
  note A = frees_apart[OF assms(1,2)]
  have "c + k \<notin> frees (mh_start p m) pre" "c + k \<notin> frees (c + n) post" using A k by fastforce+
  then show "mh_frees p ?m (pre @ (u, k) # (False, n - k) # post) (insert (c + k) X) fl"
    using k X by (intro mh_frees_same[OF assms(3)]) (auto simp: frees_at assms(2) add.assoc)
qed

lemma size_words:
  assumes "mh_blocks p m (pre @ (u, n) # post)" "unat sz + 24 \<le> n"
  shows "(of_nat (n - 24) \<ge> sz + RT_MEMHEAP_SIZE + RT_MEMHEAP_MINIALLOC) = (unat sz + 60 \<le> n)"
    "sz + RT_MEMHEAP_SIZE = of_nat (unat sz + 24)"
proof -
  note L = block_links[OF assms(1) refl]
  have "unat (sz + RT_MEMHEAP_SIZE + RT_MEMHEAP_MINIALLOC) = unat sz + 36"
    using L(5) assms(2) by (simp add: RT_MEMHEAP_SIZE_def RT_MEMHEAP_MINIALLOC_def unat_word_ariths)
  then show "(of_nat (n - 24) \<ge> sz + RT_MEMHEAP_SIZE + RT_MEMHEAP_MINIALLOC) = (unat sz + 60 \<le> n)"
    using L(5,6) unat_small32[of "n - 24"] unfolding word_le_nat_alt by auto
  show "sz + RT_MEMHEAP_SIZE = of_nat (unat sz + 24)" by (simp add: RT_MEMHEAP_SIZE_def)
qed

lemma mh_take_split:
  assumes inv: "mh_inv p m (pre @ (False, n) # post) fl" and c: "c = mh_start p m + psize pre"
    and k: "k = unat sz + 24" "12 \<le> unat sz" "4 dvd unat sz" "unat sz + 60 \<le> n"
  shows "\<exists>fl'. mh_inv p (mh_take p sz (of_nat c) (of_nat (n - 24)) m)
      (pre @ (True, k) # (False, n - k) # post) fl' \<and>
    same_mh p m (mh_take p sz (of_nat c) (of_nat (n - 24)) m)"
proof -
  let ?a = "mh_start p m"
  let ?b1 = "pre @ (False, k) # (False, n - k) # post" and ?b2 = "pre @ (True, k) # (False, n - k) # post"
  have B: "mh_blocks p m (pre @ (False, n) # post)" and F: "mh_frees p m (pre @ (False, n) # post) {} fl"
    and acc: "mh_account p m (pre @ (False, n) # post)" and nh: "no_holes (pre @ (False, n) # post)"
    using inv by (simp_all add: mh_inv_def)
  note L = block_links[OF B c] and W = size_words[OF B, of sz]
  have kk: "24 < k" "4 dvd k" "k + 24 < n" using k by auto
  have lst: "free_list (heaps m p) = free_header (heaps m p)" by (rule mh_placeD(4)[OF mh_blocksD(3)[OF B]])
  let ?m1 = "new_block p (of_nat c) (of_nat (c + k)) m"
  note N = new_block_pieces[OF B c F kk empty_subsetI]
  have c1: "c \<in> frees (mh_start p ?m1) ?b1" "c + k \<in> frees (mh_start p ?m1) ?b1"
    using c by (simp_all add: frees_at same_mhD[OF new_block_simps(6)])
  have nf: "free_header (heaps ?m1 p) = free_header (heaps m p)" by simp
  obtain fs gs where fg: "fl = fs @ of_nat c # gs" using mh_frees_split[OF N(1,2) c1(1)] kk(1) by auto
  let ?m2 = "on_free (free_unlink (of_nat c)) ?m1"
  have F2: "mh_frees p ?m2 ?b1 {c, c + k} (fs @ gs)"
    using mh_frees_remove[OF N(1) N(2)[unfolded fg] _ same_mh_simps(2)] L(5,6) by simp
  have B2: "mh_blocks p ?m2 ?b1" using N(1) mh_cong(1)[OF same_mh_simps(2)[of p ?m1 "free_unlink (of_nat c)"]] by simp
  let ?m3 = "on_free (free_clear (of_nat c) \<circ> free_unlink (of_nat c)) ?m1"
  have s3: "same_mh p ?m2 ?m3" using same_mh_refl[of p ?m1] by (simp add: same_mh_def)
  have F3: "mh_frees p ?m3 ?b1 {c, c + k} (fs @ gs)"
    by (rule mh_frees_clear[OF B2 F2 _ _ s3]) (use c1(1) in simp_all)
  have B3: "mh_blocks p ?m3 ?b1" using B2 mh_cong(1)[OF s3] by simp
  let ?m4 = "on_free (free_insert (free_list (heaps ?m3 p)) (of_nat (c + k))) ?m3"
  have F4: "mh_frees p ?m4 ?b1 {c} (of_nat (c + k) # fs @ gs)"
  proof -
    have "{c, c + k} - {c + k} = {c}" using kk by auto
    moreover have "mh_frees p ?m4 ?b1 ({c, c + k} - {c + k}) (of_nat (c + k) # fs @ gs)"
      by (rule mh_frees_insert[OF B3 F3 _ _ same_mh_simps(2)]) (use c1(2) lst in \<open>simp_all del: of_nat_add\<close>)
    ultimately show ?thesis by simp
  qed
  have B4: "mh_blocks p ?m4 ?b1" using B3 mh_cong(1)[OF same_mh_simps(2)] by simp
  let ?m5 = "take_bytes p (sz + RT_MEMHEAP_SIZE) ?m4"
  have F5: "mh_frees p ?m5 ?b1 {c} (of_nat (c + k) # fs @ gs)" using F4 mh_cong(2)[OF same_mh_simps(6)] by simp
  have B5: "mh_blocks p ?m5 ?b1" using B4 mh_cong(1)[OF same_mh_simps(6)] by simp
  let ?m6 = "set_magic (of_nat c) (it_magic ?m5 (of_nat c) OR RT_MEMHEAP_USED) ?m5"
  have st: "mh_start p ?m5 = ?a" "mh_start p ?m6 = ?a" by (simp_all add: same_mhD[OF same_mh_simps(6)])
  have c5: "c = mh_start p ?m5 + psize pre" unfolding st(1) by (rule c)
  have mg: "it_magic ?m5 (of_nat c) = RT_MEMHEAP_MAGIC"
    using block_links(7)[OF B5 c5] by (simp only: if_False or.right_neutral)
  have B6: "mh_blocks p ?m6 ?b2"
  proof (rule mh_blocks_mark[OF B5 c5 same_mh_simps(3)])
    show "it_magic ?m6 = (it_magic ?m5)(of_nat c := RT_MEMHEAP_MAGIC OR (if True then RT_MEMHEAP_USED else 0))"
      unfolding mg if_True by (simp add: set_magic_def)
  qed (simp_all add: set_magic_def)
  have F6: "mh_frees p ?m6 ?b2 {} (of_nat (c + k) # fs @ gs)"
  proof (rule mh_frees_same[OF F5 same_mh_simps(3)])
    show "frees (mh_start p ?m5) ?b2 - {} = frees (mh_start p ?m5) ?b1 - {c}"
      unfolding Diff_empty by (rule frees_mark(1)[OF B5 c5])
  qed (simp add: set_magic_def)
  have "free_bytes ?b2 = free_bytes (pre @ (False, n) # post) - k" "k \<le> free_bytes (pre @ (False, n) # post)"
    using kk by simp_all
  then have A6: "mh_account p ?m6 ?b2"
    using take_account[OF acc, of k ?b2 ?m4 ?m6] k(1) W(2) by simp
  have "no_holes ?b2"
    using no_holes_cut[OF nh, of "unat sz"] k by (simp add: cut_piece_def)
  then have "mh_inv p ?m6 ?b2 (of_nat (c + k) # fs @ gs)" using B6 F6 A6 by (simp add: mh_inv_def)
  moreover have "mh_take p sz (of_nat c) (of_nat (n - 24)) m = ?m6"
    using W(1) k by (simp add: mh_take_def Let_def add.assoc k(1) RT_MEMHEAP_SIZE_def)
  moreover have "same_mh p m ?m6" using new_block_simps(6) same_mh_simps same_mh_trans by meson
  ultimately show ?thesis by metis
qed

section \<open>Blocks and free list together\<close>

definition mh_shape :: "nat \<Rightarrow> memheaps \<Rightarrow> piece list \<Rightarrow> nat set \<Rightarrow> rt_uint32 list \<Rightarrow> bool" where
  "mh_shape p m bs X fl = (mh_blocks p m bs \<and> mh_frees p m bs X fl)"

lemma bytes_heaps [simp]:
  "start_addr (heaps (take_bytes p n m) q) = start_addr (heaps m q)"
  "free_header (heaps (take_bytes p n m) q) = free_header (heaps m q)"
  "free_list (heaps (take_bytes p n m) q) = free_list (heaps m q)"
  "mh_lock (heaps (take_bytes p n m) q) = mh_lock (heaps m q)"
  "start_addr (heaps (give_bytes p n m) q) = start_addr (heaps m q)"
  "free_header (heaps (give_bytes p n m) q) = free_header (heaps m q)"
  "free_list (heaps (give_bytes p n m) q) = free_list (heaps m q)"
  "mh_lock (heaps (give_bytes p n m) q) = mh_lock (heaps m q)"
  by (simp_all add: take_bytes_def give_bytes_def note_max_used_def Let_def)

lemma shape_bytes [simp]:
  "mh_shape p (take_bytes p n m) bs X fl = mh_shape p m bs X fl"
  "mh_shape p (give_bytes p n m) bs X fl = mh_shape p m bs X fl"
  using mh_cong[OF same_mh_simps(6)] mh_cong[OF same_mh_simps(5)] by (simp_all add: mh_shape_def)

lemma shape_list: "mh_shape p m bs X fl \<Longrightarrow> free_list (heaps m p) = free_header (heaps m p)"
  unfolding mh_shape_def using mh_placeD(4)[OF mh_blocksD(3)] by blast

lemma shape_free:
  assumes "mh_shape p m bs X fl"
  shows "mh_blocks p (on_free f m) bs"
  using assms mh_cong(1)[OF same_mh_simps(2)[of p m f]] by (simp add: mh_shape_def)

lemma shape_unlink:
  assumes "mh_shape p m bs X (fs @ of_nat x # gs)" "x < 2 ^ 32"
  shows "mh_shape p (on_free (free_unlink (of_nat x)) m) bs (insert x X) (fs @ gs)"
  unfolding mh_shape_def using assms
  by (intro conjI shape_free[OF assms(1)] mh_frees_remove[OF _ _ _ same_mh_simps(2)]) (simp_all add: mh_shape_def)

lemma shape_clear:
  assumes "mh_shape p m bs X fl" "x \<in> frees (mh_start p m) bs" "x \<in> X"
  shows "mh_shape p (on_free (free_clear (of_nat x)) m) bs X fl"
  unfolding mh_shape_def using assms
  by (intro conjI shape_free[OF assms(1)] mh_frees_clear[OF _ _ _ _ same_mh_simps(2)]) (simp_all add: mh_shape_def)

lemma shape_insert:
  assumes "mh_shape p m bs X fl" "x \<in> frees (mh_start p m) bs" "x \<in> X" "l = free_header (heaps m p)"
  shows "mh_shape p (on_free (free_insert l (of_nat x)) m) bs (X - {x}) (of_nat x # fl)"
  unfolding mh_shape_def using assms
  by (intro conjI shape_free[OF assms(1)] mh_frees_insert[OF _ _ _ _ same_mh_simps(2)]) (simp_all add: mh_shape_def)

lemma shape_mark:
  assumes "mh_shape p m (pre @ (u, n) # post) X fl" "c = mh_start p m + psize pre" "x = of_nat c"
    and "w = RT_MEMHEAP_MAGIC OR (if v then RT_MEMHEAP_USED else 0)"
    and "frees (mh_start p m) (pre @ (v, n) # post) - Y = frees (mh_start p m) (pre @ (u, n) # post) - X"
  shows "mh_shape p (set_magic x w m) (pre @ (v, n) # post) Y fl"
proof -
  have B: "mh_blocks p m (pre @ (u, n) # post)" and F: "mh_frees p m (pre @ (u, n) # post) X fl"
    using assms(1) by (simp_all add: mh_shape_def)
  have "mh_blocks p (set_magic x w m) (pre @ (v, n) # post)"
    by (rule mh_blocks_mark[OF B assms(2) same_mh_simps(3)]) (simp_all add: assms(3,4) set_magic_def)
  moreover have "mh_frees p (set_magic x w m) (pre @ (v, n) # post) Y fl"
    by (rule mh_frees_same[OF F same_mh_simps(3) _ assms(5)]) (simp add: set_magic_def)
  ultimately show ?thesis by (simp add: mh_shape_def)
qed

lemma shape_merge:
  assumes "mh_shape p m (pre @ (u, n) # (False, k) # post) X fl" "c = mh_start p m + psize pre" "c + n \<in> X"
    and "f (it_links m) = free_unlink (of_nat (c + n)) (it_links m)"
  shows "mh_shape p (on_links f m) (pre @ (u, n + k) # post) (X - {c + n}) fl"
proof -
  have B: "mh_blocks p m (pre @ (u, n) # (False, k) # post)" and F: "mh_frees p m (pre @ (u, n) # (False, k) # post) X fl"
    using assms(1) by (simp_all add: mh_shape_def)
  have "mh_blocks p (on_links f m) (pre @ (u, n + k) # post)"
    by (rule mh_blocks_merge[OF B assms(2) same_mh_simps(1)]) (simp_all add: assms(4))
  moreover have "mh_frees p (on_links f m) (pre @ (u, n + k) # post) (X - {c + n}) fl"
  proof (rule mh_frees_same[OF F same_mh_simps(1)])
    note A = frees_apart[OF B assms(2)]
    have "frees (mh_start p m) (pre @ (u, n) # (False, k) # post)
        = insert (c + n) (frees (mh_start p m) (pre @ (u, n + k) # post))"
      by (auto simp: frees_at assms(2) add.assoc)
    moreover have "c + n \<notin> frees (mh_start p m) (pre @ (u, n + k) # post)"
    proof -
      have "c + n \<notin> frees (c + n + k) post"
        using cells_bounds[of post "c + n" False "c + n + k"] mh_blocksD(2)[OF B] by (auto simp: frees_cells)
      moreover have "c + n \<notin> frees (mh_start p m) pre" "c + n \<noteq> c"
        using A(1)[of "c + n"] block_links(6)[OF B assms(2)] by auto
      ultimately show ?thesis unfolding frees_at assms(2)[symmetric] by (simp add: add.assoc)
    qed
    ultimately show "frees (mh_start p m) (pre @ (u, n + k) # post) - (X - {c + n})
        = frees (mh_start p m) (pre @ (u, n) # (False, k) # post) - X" using assms(3) by auto
  qed simp
  ultimately show ?thesis by (simp add: mh_shape_def)
qed

text \<open>The two circles are independent.\<close>

lemma links_free_commute: "on_free f (on_links g m) = on_links g (on_free f m)"
  by (simp add: on_free_def on_links_def)

lemma on_links_on_links: "on_links f (on_links g m) = on_links (f \<circ> g) m" "on_free f (on_free g m) = on_free (f \<circ> g) m"
  by (simp_all add: on_links_def on_free_def)

lemma mh_take_whole:
  assumes inv: "mh_inv p m (pre @ (False, n) # post) fl" and c: "c = mh_start p m + psize pre"
    and k: "\<not> unat sz + 60 \<le> n" "unat sz + 24 \<le> n"
  shows "\<exists>fl'. mh_inv p (mh_take p sz (of_nat c) (of_nat (n - 24)) m) (pre @ (True, n) # post) fl' \<and>
    same_mh p m (mh_take p sz (of_nat c) (of_nat (n - 24)) m)"
proof -
  let ?b = "pre @ (False, n) # post"
  have B: "mh_blocks p m ?b" and S: "mh_shape p m ?b {} fl"
    and acc: "mh_account p m ?b" and nh: "no_holes ?b"
    using inv by (simp_all add: mh_inv_def mh_shape_def)
  note L = block_links[OF B c] and W = size_words[OF B k(2)]
  have cf: "c \<in> frees (mh_start p m) ?b" by (simp add: frees_at c)
  have c32: "c < 2 ^ 32" by (rule free_address(3)[OF B cf])
  obtain fs gs where fg: "fl = fs @ of_nat c # gs"
    using mh_frees_split[OF B _ cf, of "{}" fl] S by (auto simp: mh_shape_def)
  let ?m1 = "take_bytes p (of_nat (n - 24)) m"
  have S1: "mh_shape p ?m1 ?b {} (fs @ of_nat c # gs)" using S fg by simp
  note S2 = shape_clear[OF shape_unlink[OF S1 c32], of c]
  let ?m2 = "on_free (free_clear (of_nat c)) (on_free (free_unlink (of_nat c)) ?m1)"
  let ?m3 = "set_magic (of_nat c) (RT_MEMHEAP_MAGIC OR RT_MEMHEAP_USED) ?m2"
  have S3: "mh_shape p ?m3 (pre @ (True, n) # post) {} (fs @ gs)"
    by (rule shape_mark[OF S2 _ refl]) (use cf c frees_mark(1)[OF B c] in simp_all)
  have "free_bytes (pre @ (True, n) # post) = free_bytes ?b - (n - 24)" "n - 24 \<le> free_bytes ?b" by simp_all
  then have "mh_account p ?m3 (pre @ (True, n) # post)" using take_account[OF acc, of "n - 24" _ m ?m3] by simp
  moreover have "no_holes (pre @ (True, n) # post)" using no_holes_cut[OF nh, of "unat sz"] k by (simp add: cut_piece_def)
  ultimately have "mh_inv p ?m3 (pre @ (True, n) # post) (fs @ gs)" using S3 by (simp add: mh_inv_def mh_shape_def)
  moreover have "mh_take p sz (of_nat c) (of_nat (n - 24)) m = ?m3"
  proof -
    have "it_magic m (of_nat c) = RT_MEMHEAP_MAGIC" using L(7) by simp
    then show ?thesis using W(1) k by (simp add: mh_take_def Let_def on_links_on_links)
  qed
  moreover have "same_mh p m ?m3" using same_mh_simps same_mh_trans by meson
  ultimately show ?thesis by metis
qed

lemma mh_take_pieces:
  assumes "mh_inv p m (pre @ (False, n) # post) fl" "c = mh_start p m + psize pre"
    and "12 \<le> unat sz" "4 dvd unat sz" "unat sz + 24 \<le> n"
  shows "\<exists>fl'. mh_inv p (mh_take p sz (of_nat c) (of_nat (n - 24)) m) (pre @ cut_piece (unat sz) n @ post) fl' \<and>
    same_mh p m (mh_take p sz (of_nat c) (of_nat (n - 24)) m)"
proof (cases "unat sz + 60 \<le> n")
  case True
  then show ?thesis using mh_take_split[OF assms(1,2) refl assms(3,4)] by (simp add: cut_piece_def)
next
  case False
  then show ?thesis using mh_take_whole[OF assms(1,2)] assms(5) by (simp add: cut_piece_def)
qed

text \<open>Allocation fails when every free block is too small, and otherwise takes the first block of the
  free list that is large enough.\<close>

definition all_small :: "nat \<Rightarrow> piece list \<Rightarrow> bool" where
  "all_small k bs = (\<forall>(u, n) \<in> set bs. u \<or> n < k + 24)"

definition first_free :: "memheaps \<Rightarrow> rt_size \<Rightarrow> rt_uint32 list \<Rightarrow> rt_uint32 \<Rightarrow> bool" where
  "first_free m sz fl x = (\<exists>fs gs. fl = fs @ x # gs \<and> (\<forall>y \<in> set fs. MEMITEM_SIZE m y < sz))"

lemma frees_piece_at:
  "x \<in> frees a bs \<Longrightarrow> \<exists>pre n post. bs = pre @ (False, n) # post \<and> x = a + psize pre"
proof (induction a bs rule: frees.induct)
  case (2 a u n bs)
  show ?case
  proof (cases "\<not> u \<and> x = a")
    case True
    then have "(u, n) # bs = [] @ (False, n) # bs \<and> x = a + psize []" by simp
    then show ?thesis by blast
  next
    case False
    then obtain pre k post where "bs = pre @ (False, k) # post" "x = a + n + psize pre"
      using 2 by (cases u) auto
    then have "(u, n) # bs = ((u, n) # pre) @ (False, k) # post \<and> x = a + psize ((u, n) # pre)" by simp
    then show ?thesis by blast
  qed
qed simp

lemma item_size_small:
  assumes "mh_blocks p m (pre @ (u, n) # post)"
  shows "(MEMITEM_SIZE m (of_nat (mh_start p m + psize pre)) < sz) = (n < unat sz + 24)"
    "unat (MEMITEM_SIZE m (of_nat (mh_start p m + psize pre))) = n - 24"
proof -
  have "n - 24 < 2 ^ 32" "24 < n" using block_links(5,6)[OF assms refl] by simp_all
  then show "(MEMITEM_SIZE m (of_nat (mh_start p m + psize pre)) < sz) = (n < unat sz + 24)"
    "unat (MEMITEM_SIZE m (of_nat (mh_start p m + psize pre))) = n - 24"
    unfolding item_size[OF assms] word_less_nat_alt unat_small32[OF \<open>n - 24 < 2 ^ 32\<close>] by auto
qed

lemma mh_alloc_pieces:
  assumes inv: "mh_inv p m bs fl" and k: "12 \<le> unat sz" "4 dvd unat sz"
  shows "(mh_alloc p sz m = Some (None, m) \<and> all_small (unat sz) bs) \<or>
    (\<exists>pre n post m' fl'. bs = pre @ (False, n) # post \<and> unat sz + 24 \<le> n \<and>
       first_free m sz fl (of_nat (mh_start p m + psize pre)) \<and>
       mh_alloc p sz m = Some (Some (of_nat (mh_start p m + psize pre)), m') \<and>
       mh_inv p m' (pre @ cut_piece (unat sz) n @ post) fl' \<and> same_mh p m m')"
proof -
  have B: "mh_blocks p m bs" and F: "mh_frees p m bs {} fl" using inv by (simp_all add: mh_inv_def)
  have d: "dlist (it_free m) (free_list (heaps m p)) fl"
    using F mh_placeD(4)[OF mh_blocksD(3)[OF B]] by (simp add: mh_frees_def)
  let ?l = "free_list (heaps m p)"
  have hd: "nxt (it_free m) ?l = hd (fl @ [?l])" using d chain_next unfolding dlist_def by fast
  have "0 < sz" using k(1) by (simp add: word_less_nat_alt)
  with mh_search_chain[of m ?l fl ?l 0 sz] d have
    "(\<exists>g < sz. (\<forall>x \<in> set fl. MEMITEM_SIZE m x < sz) \<and> mh_search ?l sz m (nxt (it_free m) ?l) 0 = Some (?l, g)) \<or>
     (\<exists>fs x gs. fl = fs @ x # gs \<and> (\<forall>y \<in> set fs. MEMITEM_SIZE m y < sz) \<and> MEMITEM_SIZE m x \<ge> sz \<and>
       mh_search ?l sz m (nxt (it_free m) ?l) 0 = Some (x, MEMITEM_SIZE m x))"
    unfolding hd dlist_def by auto
  then show ?thesis
  proof (elim disjE exE conjE)
    fix g assume g: "g < sz" "\<forall>x \<in> set fl. MEMITEM_SIZE m x < sz" "mh_search ?l sz m (nxt (it_free m) ?l) 0 = Some (?l, g)"
    have "n < unat sz + 24" if "(False, n) \<in> set bs" for n
    proof -
      from that obtain pre post where b: "bs = pre @ (False, n) # post" by (meson split_list)
      then have "of_nat (mh_start p m + psize pre) \<in> set fl"
        using F unfolding mh_frees_def by (auto simp: frees_at)
      then show "n < unat sz + 24" using g(2) item_size_small(1)[OF B[unfolded b]] by blast
    qed
    then have "all_small (unat sz) bs" unfolding all_small_def by (auto intro: ccontr)
    moreover have "mh_alloc p sz m = Some (None, m)" using g(1,3) by (simp add: mh_alloc_def Let_def)
    ultimately show ?thesis by blast
  next
    fix fs x gs assume x: "fl = fs @ x # gs" "\<forall>y \<in> set fs. MEMITEM_SIZE m y < sz" "MEMITEM_SIZE m x \<ge> sz"
      "mh_search ?l sz m (nxt (it_free m) ?l) 0 = Some (x, MEMITEM_SIZE m x)"
    have "x \<in> of_nat ` frees (mh_start p m) bs" using F x(1) unfolding mh_frees_def by auto
    then obtain pre n post where b: "bs = pre @ (False, n) # post" "x = of_nat (mh_start p m + psize pre)"
      using frees_piece_at by blast
    have n: "unat sz + 24 \<le> n" 
      using x(3) item_size_small(1)[OF B[unfolded b(1)], of sz] unfolding b(2) by (meson not_less)
    obtain fl' where "mh_inv p (mh_take p sz x (of_nat (n - 24)) m) (pre @ cut_piece (unat sz) n @ post) fl'"
      "same_mh p m (mh_take p sz x (of_nat (n - 24)) m)"
      using mh_take_pieces[OF inv[unfolded b(1)] refl k n] b(2) by blast
    moreover have "mh_alloc p sz m = Some (Some x, mh_take p sz x (of_nat (n - 24)) m)"
      using x(3,4) item_size[OF B[unfolded b(1)]] b(2) by (simp add: mh_alloc_def Let_def)
    moreover have "first_free m sz fl x" unfolding first_free_def using x(1,2) by blast
    ultimately show ?thesis using b n by blast
  qed
qed

section \<open>Merging\<close>

lemma block_neq:
  assumes "mh_blocks p m (pre @ (u, n) # post)" "c = mh_start p m + psize pre" "pre \<noteq> []"
  shows "nxt (it_links m) (of_nat c) \<noteq> of_nat c" "prv (it_links m) (of_nat c) \<noteq> of_nat c"
proof -
  obtain qs v k where pre: "pre = qs @ [(v, k)]" using assms(3) by (metis rev_exhaust surj_pair)
  have "map of_nat (ends (mh_start p m) (pre @ (u, n) # post))
      = map of_nat (ends (mh_start p m) qs) @ (of_nat c :: rt_uint32) # map of_nat ((c + n) # ends (c + n) post)"
    by (simp add: pre ends_append assms(2) add.assoc)
  from dlist_neighbours(3,4)[OF mh_blocksD(5)[OF assms(1), unfolded this]]
  show "nxt (it_links m) (of_nat c) \<noteq> of_nat c" "prv (it_links m) (of_nat c) \<noteq> of_nat c" .
qed

lemma account_merge:
  assumes "mh_account p m (pre @ (False, n) # (False, k) # post)" "mh_blocks p m (pre @ (u, n) # (v, k) # post)"
    and "heaps m' p = heaps (give_bytes p RT_MEMHEAP_SIZE m) p"
  shows "mh_account p m' (pre @ (False, n + k) # post)"
proof -
  note D = mh_blocksD[OF assms(2)]
  let ?P = "psize (pre @ (False, n) # (False, k) # post) + 24"
  have "?P < 2 ^ 32" using D(4) mh_placeD(1)[OF D(3)] by simp
  moreover have "24 < n" "24 < k" using D(2) by simp_all
  ultimately show ?thesis
    using assms(3) mh_placeD(6)[OF D(3)] free_bytes_le[of pre] free_bytes_le[of post]
    by (intro give_account[OF assms(1), where k = 24 and P = ?P and mm = m]) (simp_all add: RT_MEMHEAP_SIZE_def)
qed

lemma merge_left_pieces:
  assumes S: "mh_shape p m (pre @ (False, n) # post) {c} fl" and c: "c = mh_start p m + psize pre"
    and acc: "mh_account p m (pre @ (False, n) # post)"
  shows "\<exists>b m' pre' n'. merge_left p (of_nat c) m = (of_nat (mh_start p m + psize pre'), b, m') \<and>
    mh_shape p m' (pre' @ (False, n') # post) (if b then {mh_start p m + psize pre'} else {}) fl \<and>
    mh_account p m' (pre' @ (False, n') # post) \<and> same_mh p m m' \<and> pre' @ [(False, n')] = merge_prev (rev pre) n"
proof (cases "\<exists>qs k. pre = qs @ [(False, k)]")
  case True
  then obtain qs k where pre: "pre = qs @ [(False, k)]" by blast
  have B: "mh_blocks p m (pre @ (False, n) # post)" using S by (simp add: mh_shape_def)
  have B': "mh_blocks p m (qs @ (False, k) # (False, n) # post)" using B pre by simp
  let ?d = "mh_start p m + psize qs"
  have d: "c - k = ?d" "?d + k = c" using c pre by simp_all
  note L = block_links[OF B c] and L' = block_links[OF B' refl] and N = block_neq[OF B c]
  have prv: "prv (it_links m) (of_nat c) = of_nat ?d" using L(3)[OF pre] d by simp
  let ?f = "\<lambda>st. set_next (prv st (of_nat c)) (nxt st (of_nat c)) st"
  let ?g = "\<lambda>st. set_prev (nxt st (of_nat c)) (prv st (of_nat c)) st"
  let ?m = "on_links (?g \<circ> ?f) (give_bytes p RT_MEMHEAP_SIZE m)"
  have fg: "(?g \<circ> ?f) (it_links m) = free_unlink (of_nat c) (it_links m)"
    using unlink_next_first(1)[OF N] pre by (simp add: Let_def)
  have "mh_shape p ?m (qs @ (False, k + n) # post) ({c} - {?d + k}) fl"
    by (rule shape_merge[where c = ?d]) (use S pre d fg in simp_all)
  moreover have "mh_account p ?m (qs @ (False, k + n) # post)"
    by (rule account_merge[OF _ B']) (use acc pre in simp_all)
  moreover have "merge_left p (of_nat c) m = (of_nat ?d, False, ?m)"
  proof -
    have "prv (it_links ?m) (of_nat c) = of_nat ?d"
      unfolding mh_upd_simps mh_account_simps fg using N pre prv by (simp add: free_unlink_def link_defs)
    then show ?thesis using prv L'(4) by (simp add: merge_left_def Let_def on_links_on_links del: of_nat_add)
  qed
  moreover have "same_mh p m ?m" using same_mh_simps same_mh_trans by meson
  moreover have "qs @ [(False, k + n)] = merge_prev (rev pre) n" by (simp add: pre)
  ultimately show ?thesis using d by fastforce
next
  case False
  have B: "mh_blocks p m (pre @ (False, n) # post)" using S by (simp add: mh_shape_def)
  note L = block_links[OF B c]
  have "is_used m (prv (it_links m) (of_nat c))"
  proof (cases pre rule: rev_cases)
    case Nil
    then show ?thesis using L(2) tail_used[OF B] c by (simp add: add.assoc)
  next
    case (snoc qs x)
    then obtain k where pre: "pre = qs @ [(True, k)]" using False by (cases x) auto
    have B': "mh_blocks p m (qs @ (True, k) # (False, n) # post)" using B pre by simp
    have "c - k = mh_start p m + psize qs" using c pre by simp
    then show ?thesis using L(3)[OF pre] block_links(4)[OF B' refl] by simp
  qed
  then have "merge_left p (of_nat c) m = (of_nat c, True, m)" by (simp add: merge_left_def)
  moreover have "pre @ [(False, n)] = merge_prev (rev pre) n"
    using False by (cases "rev pre") (metis append_self_conv2 merge_prev.simps(2) rev_is_Nil_conv,
      metis (full_types) merge_prev.simps(3) prod.exhaust_sel rev.simps(2) rev_rev_ident)
  ultimately show ?thesis using S acc c same_mh_refl by fastforce
qed

text \<open>The block behind a piece is used when the next piece is not free.\<close>

lemma next_used:
  assumes B: "mh_blocks p m (pre @ (u, n) # post)" and c: "c = mh_start p m + psize pre"
    and no: "\<nexists>k post'. post = (False, k) # post'"
  shows "is_used m (of_nat (c + n))"
proof (cases post)
  case Nil
  then show ?thesis using tail_used[OF B] c by (simp add: add.assoc)
next
  case (Cons b post')
  then obtain k where post: "post = (True, k) # post'" using no by (cases b) auto
  have B': "mh_blocks p m ((pre @ [(u, n)]) @ (True, k) # post')" using B post by simp
  show ?thesis using block_links(4)[OF B', of "c + n"] c by simp
qed

lemma merge_next_shape:
  assumes S: "mh_shape p m (pre @ (u, n) # (False, k) # post) X fl" and c: "c = mh_start p m + psize pre" and X: "X \<subseteq> {c}"
    and g: "\<And>st. prv st (of_nat (c + n)) = of_nat c \<Longrightarrow> nxt st (of_nat (c + n)) \<noteq> of_nat (c + n) \<Longrightarrow>
      prv st (of_nat (c + n)) \<noteq> of_nat (c + n) \<Longrightarrow> g st = free_unlink (of_nat (c + n)) st"
  shows "\<exists>fl'. mh_shape p (on_free (free_unlink (of_nat (c + n))) (on_links g m)) (pre @ (u, n + k) # post) X fl'"
proof -
  have B: "mh_blocks p m (pre @ (u, n) # (False, k) # post)" using S by (simp add: mh_shape_def)
  have B': "mh_blocks p m ((pre @ [(u, n)]) @ (False, k) # post)" using B by simp
  let ?x = "c + n"
  have x: "?x = mh_start p m + psize (pre @ [(u, n)])" by (simp add: c)
  have xc: "?x \<noteq> c" using block_links(6)[OF B c] by simp
  have xf: "?x \<in> frees (mh_start p m) (pre @ (u, n) # (False, k) # post)" by (simp add: frees_at c)
  note x32 = free_address(3)[OF B xf]
  have "?x \<notin> X" using X xc by auto
  then obtain fs gs where fl: "fl = fs @ of_nat ?x # gs"
    using mh_frees_split[OF B _ xf, of X fl] S by (auto simp: mh_shape_def)
  note S1 = shape_unlink[OF S[unfolded fl] x32]
  have prv: "prv (it_links m) (of_nat ?x) = of_nat c" using block_links(3)[OF B' x, of pre u n] c by simp
  note N = block_neq[OF B' x]
  have "g (it_links m) = free_unlink (of_nat ?x) (it_links m)" using g[OF prv] N by simp
  then have "mh_shape p (on_links g (on_free (free_unlink (of_nat ?x)) m)) (pre @ (u, n + k) # post) (insert ?x X - {?x}) (fs @ gs)"
    using shape_merge[OF S1, of c g] c by simp
  moreover have "insert ?x X - {?x} = X" using X xc by auto
  ultimately show ?thesis unfolding links_free_commute by metis
qed

lemma merge_right_pieces:
  assumes S: "mh_shape p m (pre @ (False, n) # post) X fl" and c: "c = mh_start p m + psize pre" and X: "X \<subseteq> {c}"
    and acc: "mh_account p m (pre @ (False, n) # post)"
  shows "\<exists>fl'. mh_shape p (merge_right p (of_nat c) m) (pre @ merge_next n post) X fl' \<and>
    mh_account p (merge_right p (of_nat c) m) (pre @ merge_next n post) \<and> same_mh p m (merge_right p (of_nat c) m)"
proof (cases "\<exists>k post'. post = (False, k) # post'")
  case True
  then obtain k post' where post: "post = (False, k) # post'" by blast
  have B: "mh_blocks p m (pre @ (False, n) # (False, k) # post')" using S post by (simp add: mh_shape_def)
  have B': "mh_blocks p m ((pre @ [(False, n)]) @ (False, k) # post')" using B by simp
  let ?x = "c + n" and ?g = "\<lambda>st. (let st1 = set_prev (nxt st (of_nat (c + n))) (of_nat c) st
      in set_next (of_nat c) (nxt st1 (of_nat (c + n))) st1)"
  let ?m = "give_bytes p RT_MEMHEAP_SIZE m"
  have x: "?x = mh_start p m + psize (pre @ [(False, n)])" by (simp add: c)
  have S1: "mh_shape p ?m (pre @ (False, n) # (False, k) # post') X fl" using S post by simp
  let ?r = "on_free (free_unlink (of_nat ?x)) (on_links ?g ?m)"
  obtain fl' where "mh_shape p ?r (pre @ (False, n + k) # post') X fl'"
    using merge_next_shape[OF S1 _ X, of ?g] c unlink_next_first(3) by fastforce
  moreover have "mh_account p ?r (pre @ (False, n + k) # post')"
    by (rule account_merge[OF _ B]) (use acc post in simp_all)
  moreover have "merge_right p (of_nat c) m = ?r"
    using block_links(1)[OF B c] block_links(4)[OF B' x]
    by (simp add: merge_right_def Let_def on_links_on_links comp_def del: of_nat_add)
  moreover have "same_mh p m ?r" using same_mh_simps same_mh_trans by meson
  ultimately show ?thesis by (auto simp: post)
next
  case False
  have B: "mh_blocks p m (pre @ (False, n) # post)" using S by (simp add: mh_shape_def)
  note L = block_links[OF B c]
  have "is_used m (of_nat (c + n))" by (rule next_used[OF B c False])
  then have "merge_right p (of_nat c) m = m" using L(1) by (simp add: merge_right_def del: of_nat_add)
  moreover have "merge_next n post = (False, n) # post" using False by (cases "(n, post)" rule: merge_next.cases) auto
  ultimately show ?thesis using S acc same_mh_refl by metis
qed

text \<open>Releasing a block: the pieces are those of the small memory allocator after a release.\<close>

lemma coalesce_left:
  assumes "pre' @ [(False, n')] = merge_prev (rev pre) n"
  shows "pre' @ merge_next n' post = coalesce pre n post"
proof (cases "rev pre")
  case Nil
  then have "pre' = []" "n' = n" "pre = []" using assms by (auto simp: append_eq_Cons_conv)
  then show ?thesis using merge_next_Cons[of n post] by (simp add: coalesce_def)
next
  case (Cons b rest)
  obtain u k where b: "b = (u, k)" by (cases b)
  have pre: "pre = rev rest @ [(u, k)]" using Cons b by (metis rev.simps(2) rev_rev_ident)
  show ?thesis
  proof (cases u)
    case True
    then have "pre' = pre" "n' = n" using assms pre by auto
    then show ?thesis using merge_next_Cons[of n post] pre True by (simp add: coalesce_def)
  next
    case False
    then have "pre' = rev rest" "n' = k + n" using assms pre by auto
    then show ?thesis using pre False by (cases "(n, post)" rule: merge_next.cases) (simp_all add: coalesce_def add.assoc)
  qed
qed

lemma mh_release_pieces:
  assumes inv: "mh_inv p m (pre @ (True, n) # post) fl" and c: "c = mh_start p m + psize pre"
  shows "\<exists>fl'. mh_inv p (mh_release p (of_nat c) m) (coalesce pre n post) fl' \<and> same_mh p m (mh_release p (of_nat c) m)"
proof -
  have B: "mh_blocks p m (pre @ (True, n) # post)" and S: "mh_shape p m (pre @ (True, n) # post) {} fl"
    and acc: "mh_account p m (pre @ (True, n) # post)" and nh: "no_holes (pre @ (True, n) # post)"
    using inv by (simp_all add: mh_inv_def mh_shape_def)
  note L = block_links[OF B c] and D = mh_blocksD[OF B]
  let ?b = "pre @ (False, n) # post"
  let ?m1 = "set_magic (of_nat c) (it_magic m (of_nat c) AND NOT RT_MEMHEAP_USED) m"
  have mg: "it_magic m (of_nat c) AND NOT RT_MEMHEAP_USED = RT_MEMHEAP_MAGIC"
    unfolding L(7) by (rule magic_bits)
  have S1: "mh_shape p ?m1 ?b {c} fl"
    unfolding mg by (rule shape_mark[OF S c refl]) (use frees_mark(1)[OF B c] in simp_all)
  have size: "MEMITEM_SIZE ?m1 (of_nat c) = of_nat (n - 24)"
    using item_size[of p ?m1 pre False n post] S1 c by (simp add: mh_shape_def)
  let ?m2 = "give_bytes p (of_nat (n - 24)) ?m1"
  have S2: "mh_shape p ?m2 ?b {c} fl" using S1 by simp
  have st2: "mh_start p ?m2 = mh_start p m" by simp
  have c2: "c = mh_start p ?m2 + psize pre" unfolding st2 by (rule c)
  have acc2: "mh_account p ?m2 ?b"
    by (rule give_account[OF acc, where k = "n - 24" and P = "psize ?b + 24" and mm = ?m1])
      (use mh_placeD(1,6)[OF D(3)] D(4) free_bytes_le[of ?b] in simp_all)
  from merge_left_pieces[OF S2 c2 acc2, unfolded st2] obtain b m3 pre' n' where
    l: "merge_left p (of_nat c) ?m2 = (of_nat (mh_start p m + psize pre'), b, m3)"
      "mh_shape p m3 (pre' @ (False, n') # post) (if b then {mh_start p m + psize pre'} else {}) fl"
      "mh_account p m3 (pre' @ (False, n') # post)" "same_mh p ?m2 m3" "pre' @ [(False, n')] = merge_prev (rev pre) n"
    by blast
  let ?c' = "mh_start p m + psize pre'" and ?cs = "coalesce pre n post"
  have st3: "mh_start p m3 = mh_start p m" using same_mhD(1)[OF l(4)] by simp
  have c3: "?c' = mh_start p m3 + psize pre'" unfolding st3 by (rule refl)
  have X: "(if b then {?c'} else {}) \<subseteq> {?c'}" by simp
  let ?m4 = "merge_right p (of_nat ?c') m3"
  obtain fl' where
    r: "mh_shape p ?m4 ?cs (if b then {?c'} else {}) fl'" "mh_account p ?m4 ?cs" "same_mh p m3 ?m4"
    using merge_right_pieces[OF l(2) c3 X l(3), unfolded coalesce_left[OF l(5)]] by blast
  have st4: "mh_start p ?m4 = mh_start p m" using same_mhD(1)[OF r(3)] st3 by simp
  have nh': "no_holes ?cs"
    using nh by (intro no_holes_coalesce) (auto simp: no_holes_def successively_append_iff successively_Cons)
  have same4: "same_mh p m ?m4" using same_mh_simps same_mh_trans l(4) r(3) by meson
  have e: "mh_release p (of_nat c) m
      = (if b then on_free (free_insert (free_list (heaps ?m4 p)) (of_nat ?c')) ?m4 else ?m4)"
    unfolding mh_release_def Let_def size l(1) by simp
  show ?thesis
  proof (cases b)
    case True
    obtain k ys where mn: "merge_next n' post = (False, k) # ys" using merge_next_Cons by blast
    have "?c' \<in> frees (mh_start p ?m4) ?cs"
      unfolding st4 coalesce_left[OF l(5), symmetric] mn by (simp add: frees_at)
    then have "mh_shape p (on_free (free_insert (free_list (heaps ?m4 p)) (of_nat ?c')) ?m4) ?cs {} (of_nat ?c' # fl')"
      using shape_insert[OF r(1), of ?c'] shape_list[OF r(1)] True by simp
    then show ?thesis using e True r(2) nh' same_mh_trans[OF same4 same_mh_simps(2)]
      by (auto simp: mh_inv_def mh_shape_def mh_account_def)
  next
    case False
    then show ?thesis using e r nh' same4 by (auto simp: mh_inv_def mh_shape_def)
  qed
qed

end
