(* ===== verification/RT_Memheap_Resize.thy ===== *)
theory RT_Memheap_Resize
  imports RT_Memheap_Ops
begin

text \<open>Growing and cutting down a block of a memory heap, and the fresh heap, on the list of pieces.\<close>

section \<open>Growing\<close>

lemma mh_grow_pieces:
  assumes inv: "mh_inv p m (pre @ (True, n) # (False, k) # post) fl" and c: "c = mh_start p m + psize pre"
    and a: "4 dvd unat ns" "n < unat ns + 24" "unat ns + 60 < n + k" "0 < unat ns"
  shows "\<exists>m' fl'. mh_grow p (of_nat (c + 24)) (of_nat (n - 24)) ns m = Some m' \<and>
    mh_inv p m' (pre @ (True, unat ns + 24) # (False, n + k - (unat ns + 24)) # post) fl' \<and> same_mh p m m'"
proof -
  let ?K = "unat ns + 24" and ?x = "c + n"
  let ?b0 = "pre @ (True, n) # (False, k) # post" and ?b1 = "pre @ (True, n + k) # post"
  let ?b2 = "pre @ (True, ?K) # (False, n + k - ?K) # post"
  have B: "mh_blocks p m ?b0" and S: "mh_shape p m ?b0 {} fl" and acc: "mh_account p m ?b0" and nh: "no_holes ?b0"
    using inv by (simp_all add: mh_inv_def mh_shape_def)
  have B': "mh_blocks p m ((pre @ [(True, n)]) @ (False, k) # post)" using B by simp
  have x: "?x = mh_start p m + psize (pre @ [(True, n)])" by (simp add: c)
  note L = block_links[OF B c] and L' = block_links[OF B' x]
  have KK: "24 < ?K" "4 dvd ?K" "?K + 24 < n + k" using a by auto
  have w: "(of_nat (c + 24) :: rt_uint32) - RT_MEMHEAP_SIZE = of_nat c" by (simp add: RT_MEMHEAP_SIZE_def)
  have nsz: "MEMITEM_SIZE m (of_nat ?x) = of_nat (k - 24)" unfolding x by (rule item_size[OF B'])
  have enough: "of_nat (k - 24) + of_nat (n - 24) > ns + RT_MEMHEAP_MINIALLOC"
  proof -
    have "(of_nat (k - 24) + of_nat (n - 24) :: rt_uint32) = of_nat (k - 24 + (n - 24))" by simp
    moreover have "k - 24 + (n - 24) < 2 ^ 32" using L(5) by simp
    moreover have "unat (ns + RT_MEMHEAP_MINIALLOC) = unat ns + 12"
      using a L(5) by (simp add: RT_MEMHEAP_MINIALLOC_def unat_word_ariths)
    moreover have "unat ns + 12 < k - 24 + (n - 24)" using a(3) L(6) L'(6) by linarith
    ultimately show ?thesis unfolding word_less_nat_alt by (simp only: unat_small32)
  qed
  let ?m1 = "take_bytes p (ns - of_nat (n - 24)) m"
  let ?g = "\<lambda>st. (let st1 = set_prev (nxt st (of_nat ?x)) (prv st (of_nat ?x)) st
      in set_next (prv st1 (of_nat ?x)) (nxt st1 (of_nat ?x)) st1)"
  let ?m2 = "on_free (free_unlink (of_nat ?x)) (on_links ?g ?m1)"
  have S1: "mh_shape p ?m1 ?b0 {} fl" using S by simp
  have st1: "mh_start p ?m1 = mh_start p m" by simp
  have c1: "c = mh_start p ?m1 + psize pre" unfolding st1 by (rule c)
  from merge_next_shape[OF S1 c1 empty_subsetI, of ?g] unlink_next_first(2)
  obtain fl1 where S2: "mh_shape p ?m2 ?b1 {} fl1" by blast
  have st2: "mh_start p ?m2 = mh_start p m" by simp
  have c2: "c = mh_start p ?m2 + psize pre" unfolding st2 by (rule c)
  let ?m3 = "new_block p (of_nat c) (of_nat (c + ?K)) ?m2"
  have "mh_blocks p ?m2 ?b1" "mh_frees p ?m2 ?b1 {} fl1" using S2 by (simp_all add: mh_shape_def)
  from new_block_pieces[OF this(1) c2 this(2) KK empty_subsetI]
  have S3: "mh_shape p ?m3 ?b2 {c + ?K} fl1" by (simp add: mh_shape_def)
  have st3: "mh_start p ?m3 = mh_start p m" by simp
  have "c + ?K \<in> frees (mh_start p ?m3) ?b2" unfolding st3 c by (simp add: frees_at add.assoc)
  from shape_insert[OF S3 this singletonI refl]
  have S4: "mh_shape p (on_free (free_insert (free_header (heaps ?m3 p)) (of_nat (c + ?K))) ?m3) ?b2 {} (of_nat (c + ?K) # fl1)"
    by simp
  let ?m4 = "on_free (free_insert (free_list (heaps ?m3 p)) (of_nat (c + ?K))) ?m3"
  have S4': "mh_shape p ?m4 ?b2 {} (of_nat (c + ?K) # fl1)" using S4 shape_list[OF S3] by simp
  have "mh_account p ?m4 ?b2"
  proof (rule take_account[OF acc, where k = "?K - n"])
    have "ns - of_nat (n - 24) = (of_nat (unat ns) - of_nat (n - 24) :: rt_uint32)" by simp
    also have "\<dots> = of_nat (?K - n)" using a(2) L(6) by (subst word_sub_nat) (simp_all add: algebra_simps)
    finally show "heaps ?m4 p = heaps (take_bytes p (of_nat (?K - n)) m) p" by simp
  qed (use a(2,3) L'(6) in simp_all)
  moreover have "no_holes ?b2" using nh by (simp add: no_holes_def successively_append_iff successively_Cons)
  ultimately have "mh_inv p ?m4 ?b2 (of_nat (c + ?K) # fl1)" using S4' by (simp add: mh_inv_def mh_shape_def)
  moreover have "mh_grow p (of_nat (c + 24)) (of_nat (n - 24)) ns m = Some ?m4"
  proof -
    have e: "(of_nat (c + 24) :: rt_uint32) + ns = of_nat (c + ?K)" by simp
    show ?thesis
      unfolding mh_grow_def Let_def w L(1) nsz L'(4) e using enough
      by (simp add: links_free_commute on_links_on_links comp_def del: of_nat_add)
  qed
  moreover have "same_mh p m ?m4" using new_block_simps(6) same_mh_simps same_mh_trans by meson
  ultimately show ?thesis by blast
qed

lemma mh_grow_cases:
  assumes inv: "mh_inv p m (pre @ (True, n) # post) fl" and c: "c = mh_start p m + psize pre"
    and ns: "unat ns + 12 < 2 ^ 32"
  shows "mh_grow p (of_nat (c + 24)) (of_nat (n - 24)) ns m = None \<or>
    (\<exists>k post'. post = (False, k) # post' \<and> unat ns + 60 < n + k)"
proof -
  have B: "mh_blocks p m (pre @ (True, n) # post)" using inv by (simp add: mh_inv_def)
  note L = block_links[OF B c]
  have w: "(of_nat (c + 24) :: rt_uint32) - RT_MEMHEAP_SIZE = of_nat c" by (simp add: RT_MEMHEAP_SIZE_def)
  show ?thesis
  proof (cases "\<exists>k post'. post = (False, k) # post'")
    case True
    then obtain k post' where post: "post = (False, k) # post'" by blast
    have B': "mh_blocks p m ((pre @ [(True, n)]) @ (False, k) # post')" using B post by simp
    have x: "c + n = mh_start p m + psize (pre @ [(True, n)])" by (simp add: c)
    have nsz: "MEMITEM_SIZE m (of_nat (c + n)) = of_nat (k - 24)" unfolding x by (rule item_size[OF B'])
    have k: "24 < k" using block_links(6)[OF B' x] .
    show ?thesis
    proof (cases "of_nat (k - 24) + of_nat (n - 24) > ns + RT_MEMHEAP_MINIALLOC")
      case True
      have "(of_nat (k - 24) + of_nat (n - 24) :: rt_uint32) = of_nat (k - 24 + (n - 24))" by simp
      moreover have "k - 24 + (n - 24) < 2 ^ 32" using L(5) post by simp
      moreover have "unat (ns + RT_MEMHEAP_MINIALLOC) = unat ns + 12"
        using ns by (simp add: RT_MEMHEAP_MINIALLOC_def unat_word_ariths)
      ultimately have "unat ns + 12 < k - 24 + (n - 24)"
        using True unfolding word_less_nat_alt by (simp only: unat_small32)
      then show ?thesis using post k L(6) by auto
    next
      case False
      then show ?thesis by (simp add: mh_grow_def Let_def w L(1) nsz del: of_nat_add)
    qed
  next
    case False
    then show ?thesis using next_used[OF B c] by (simp add: mh_grow_def Let_def w L(1) del: of_nat_add)
  qed
qed

section \<open>Cutting down\<close>

lemma minus_bytes: "upd_heap p (\<lambda>h. h\<lparr>available_size := available_size h - x\<rparr>) m = give_bytes p (- x) m"
  by (simp add: give_bytes_def upd_heap_def)

lemma shrink_merge:
  assumes S: "mh_shape p m (pre @ (False, n) # post) {c} fl" and c: "c = mh_start p m + psize pre"
  shows "\<exists>m' fl' N post' d. (if \<not> is_used m (nxt (it_links m) (of_nat c)) then
           (let free_ptr = nxt (it_links m) (of_nat c);
                m = upd_heap p (\<lambda>h. h\<lparr>available_size := available_size h - MEMITEM_SIZE m free_ptr\<rparr>) m;
                m = on_links (\<lambda>st. set_prev (nxt st free_ptr) (of_nat c) st) m;
                m = on_links (\<lambda>st. set_next (of_nat c) (nxt st free_ptr) st) m
            in on_free (free_unlink free_ptr) m) else m) = m' \<and>
    merge_next n post = (False, N) # post' \<and> free_bytes post = free_bytes post' + d \<and> n + d \<le> N \<and>
    mh_shape p m' (pre @ (False, N) # post') {c} fl' \<and> heaps m' = heaps (give_bytes p (- of_nat d) m) \<and> same_mh p m m'"
proof (cases "\<exists>k post'. post = (False, k) # post'")
  case True
  then obtain k post' where post: "post = (False, k) # post'" by blast
  have B: "mh_blocks p m (pre @ (False, n) # (False, k) # post')" using S post by (simp add: mh_shape_def)
  have B': "mh_blocks p m ((pre @ [(False, n)]) @ (False, k) # post')" using B by simp
  let ?x = "c + n" and ?g = "\<lambda>st. (let st1 = set_prev (nxt st (of_nat (c + n))) (of_nat c) st
      in set_next (of_nat c) (nxt st1 (of_nat (c + n))) st1)"
  let ?m = "give_bytes p (- of_nat (k - 24)) m"
  have x: "?x = mh_start p m + psize (pre @ [(False, n)])" by (simp add: c)
  have sz: "MEMITEM_SIZE m (of_nat ?x) = of_nat (k - 24)" unfolding x by (rule item_size[OF B'])
  have S1: "mh_shape p ?m (pre @ (False, n) # (False, k) # post') {c} fl" using S post by simp
  have st: "mh_start p ?m = mh_start p m" by simp
  have c1: "c = mh_start p ?m + psize pre" unfolding st by (rule c)
  let ?r = "on_free (free_unlink (of_nat ?x)) (on_links ?g ?m)"
  obtain fl' where R: "mh_shape p ?r (pre @ (False, n + k) # post') {c} fl'"
    using merge_next_shape[OF S1 c1 order.refl, of ?g] unlink_next_first(3) by blast
  have u: "\<not> is_used m (of_nat ?x)" using block_links(4)[OF B' x] by simp
  note N = block_links(1)[OF B c]
  have "same_mh p m ?r" using same_mh_simps same_mh_trans by meson
  then show ?thesis
    unfolding N using u R sz
    by (intro exI[of _ ?r] exI[of _ fl'] exI[of _ "n + k"] exI[of _ post'] exI[of _ "k - 24"])
      (simp add: Let_def minus_bytes on_links_on_links comp_def post del: of_nat_add of_nat_diff)
next
  case False
  have B: "mh_blocks p m (pre @ (False, n) # post)" using S by (simp add: mh_shape_def)
  have "is_used m (of_nat (c + n))" by (rule next_used[OF B c False])
  moreover have "merge_next n post = (False, n) # post" using False by (cases "(n, post)" rule: merge_next.cases) auto
  moreover have "heaps m = heaps (give_bytes p (- of_nat 0) m)" by (simp add: give_bytes_def)
  ultimately show ?thesis using S block_links(1)[OF B c] same_mh_refl[of p m]
    by (intro exI[of _ m] exI[of _ fl] exI[of _ n] exI[of _ post] exI[of _ 0]) (simp del: of_nat_add)
qed

lemma mh_shrink_pieces:
  assumes inv: "mh_inv p m (pre @ (True, n) # post) fl" and c: "c = mh_start p m + psize pre"
    and a: "4 dvd unat ns" "0 < unat ns" "unat ns + 60 < n"
  shows "\<exists>fl'. mh_inv p (mh_shrink p (of_nat c) ns m) (pre @ (True, unat ns + 24) # merge_next (n - (unat ns + 24)) post) fl' \<and>
    same_mh p m (mh_shrink p (of_nat c) ns m)"
proof -
  let ?K = "unat ns + 24" and ?n = "n - (unat ns + 24)" and ?b0 = "pre @ (True, n) # post"
  let ?qs = "pre @ [(True, unat ns + 24)]"
  have B: "mh_blocks p m ?b0" and F: "mh_frees p m ?b0 {} fl" and acc: "mh_account p m ?b0" and nh: "no_holes ?b0"
    using inv by (simp_all add: mh_inv_def)
  note L = block_links[OF B c] and D = mh_blocksD[OF B]
  have KK: "24 < ?K" "4 dvd ?K" "?K + 24 < n" using a by auto
  let ?x = "c + ?K" and ?m1 = "new_block p (of_nat c) (of_nat (c + ?K)) m"
  have S1: "mh_shape p ?m1 (?qs @ (False, ?n) # post) {?x} fl"
    using new_block_pieces[OF B c F KK empty_subsetI] by (simp add: mh_shape_def)
  have st1: "mh_start p ?m1 = mh_start p m" by simp
  have c1: "?x = mh_start p ?m1 + psize ?qs" unfolding st1 by (simp add: c)
  from shrink_merge[OF S1 c1] obtain m2 fl2 N post' d where
    m2: "(if \<not> is_used ?m1 (nxt (it_links ?m1) (of_nat ?x)) then
           (let free_ptr = nxt (it_links ?m1) (of_nat ?x);
                m = upd_heap p (\<lambda>h. h\<lparr>available_size := available_size h - MEMITEM_SIZE ?m1 free_ptr\<rparr>) ?m1;
                m = on_links (\<lambda>st. set_prev (nxt st free_ptr) (of_nat ?x) st) m;
                m = on_links (\<lambda>st. set_next (of_nat ?x) (nxt st free_ptr) st) m
            in on_free (free_unlink free_ptr) m) else ?m1) = m2"
    and mn: "merge_next ?n post = (False, N) # post'" and d: "free_bytes post = free_bytes post' + d" "?n + d \<le> N"
    and S2: "mh_shape p m2 (?qs @ (False, N) # post') {?x} fl2" and h2: "heaps m2 = heaps (give_bytes p (- of_nat d) ?m1)"
    and s2: "same_mh p ?m1 m2" by blast
  let ?m3 = "on_free (free_insert (free_list (heaps m2 p)) (of_nat ?x)) m2" and ?b3 = "?qs @ (False, N) # post'"
  have st2: "mh_start p m2 = mh_start p m" unfolding h2 by simp
  have "?x \<in> frees (mh_start p m2) ?b3" unfolding st2 by (simp add: frees_at c add.assoc)
  from shape_insert[OF S2 this singletonI shape_list[OF S2]]
  have S3: "mh_shape p ?m3 ?b3 {} (of_nat ?x # fl2)" by simp
  have c3: "?x = mh_start p ?m3 + psize ?qs" unfolding mh_upd_simps st2 by (simp add: c)
  have B3: "mh_blocks p ?m3 ?b3" using S3 by (simp add: mh_shape_def)
  have sz: "MEMITEM_SIZE ?m3 (of_nat ?x) = of_nat (N - 24)" by (rule item_size[OF B3, folded c3])
  let ?m4 = "give_bytes p (of_nat (N - 24)) ?m3"
  have e: "mh_shrink p (of_nat c) ns m = ?m4"
  proof -
    have w: "(of_nat c :: rt_uint32) + ns + RT_MEMHEAP_SIZE = of_nat ?x" by (simp add: RT_MEMHEAP_SIZE_def)
    show ?thesis unfolding mh_shrink_def w Let_def m2[unfolded Let_def] sz ..
  qed
  have "mh_account p ?m4 ?b3"
  proof (rule give_account[OF acc, where k = "N - 24 - d" and P = "psize ?b0 + 24" and mm = m])
    have N: "24 + d \<le> N" using d(2) KK by linarith
    show "free_bytes ?b3 = free_bytes ?b0 + (N - 24 - d)" using d N by simp
    have "psize ?b3 = psize ?b0"
      using KK arg_cong[OF mn, of psize] by (cases "(?n, post)" rule: merge_next.cases) auto
    then show "free_bytes ?b3 \<le> psize ?b0 + 24" using free_bytes_le[of ?b3] by simp
    have "(of_nat (N - 24 - d) :: rt_uint32) = - of_nat d + of_nat (N - 24)" using N by simp
    then show "heaps ?m4 p = heaps (give_bytes p (of_nat (N - 24 - d)) m) p"
      by (simp add: give_bytes_def h2 add.assoc del: of_nat_diff)
  qed (use mh_placeD(1,6)[OF D(3)] D(4) in simp_all)
  moreover have "no_holes ?b3"
  proof -
    have "no_holes (?qs @ merge_next ?n post)"
      using nh by (cases "(?n, post)" rule: merge_next.cases) (auto simp: no_holes_def successively_append_iff successively_Cons)
    then show ?thesis by (simp add: mn)
  qed
  moreover have "mh_shape p ?m4 ?b3 {} (of_nat ?x # fl2)" using S3 by simp
  ultimately have "mh_inv p ?m4 ?b3 (of_nat ?x # fl2)" by (simp only: mh_inv_def mh_shape_def simp_thms)
  moreover have "same_mh p m ?m4"
  proof -
    have "same_mh p m m2" by (rule same_mh_trans[OF new_block_simps(6) s2])
    then show ?thesis using same_mh_simps same_mh_trans by meson
  qed
  ultimately show ?thesis unfolding e mn by auto
qed

end
