(* ===== verification/RT_Memheap_Run.thy ===== *)
theory RT_Memheap_Run
  imports RT_Memheap_Resize RT_Mem_Calls
begin

text \<open>The live blocks of a memory heap, its interpretation as an allocator, and the calls with the
  semaphore of the heap.\<close>

section \<open>Live blocks\<close>

fun mlive :: "nat \<Rightarrow> piece list \<Rightarrow> (nat \<times> nat) set" where
  "mlive a [] = {}"
| "mlive a ((u, n) # bs) = (if u then insert (a + 24, n - 24) (mlive (a + n) bs) else mlive (a + n) bs)"

lemma mlive_append: "mlive a (xs @ ys) = mlive a xs \<union> mlive (a + psize xs) ys"
  by (induction a xs rule: mlive.induct) (simp_all add: add.assoc)

lemma mlive_bounds: "sizes_ok bs \<Longrightarrow> (x, m) \<in> mlive a bs \<Longrightarrow> 0 < m \<and> a + 24 \<le> x \<and> x + m \<le> a + psize bs"
  by (induction a bs rule: mlive.induct) (fastforce split: if_splits)+

lemma mlive_disjoint:
  "sizes_ok bs \<Longrightarrow> (x, m) \<in> mlive a bs \<Longrightarrow> (y, k) \<in> mlive a bs \<Longrightarrow> (x, m) = (y, k) \<or> x + m \<le> y \<or> y + k \<le> x"
proof (induction a bs rule: mlive.induct)
  case (2 a u n bs)
  show ?case
  proof (cases "(x, m) \<in> mlive (a + n) bs \<and> (y, k) \<in> mlive (a + n) bs")
    case True
    then show ?thesis using 2 by (cases u) auto
  next
    case False
    then show ?thesis
      using 2(3-5) mlive_bounds[of bs x m "a + n"] mlive_bounds[of bs y k "a + n"] by (auto split: if_splits)
  qed
qed simp

lemma mlive_piece:
  "sizes_ok bs \<Longrightarrow> (x, m) \<in> mlive a bs \<Longrightarrow> \<exists>pre post. bs = pre @ (True, m + 24) # post \<and> x = a + psize pre + 24"
proof (induction a bs rule: mlive.induct)
  case (2 a u n bs)
  show ?case
  proof (cases "(x, m) \<in> mlive (a + n) bs")
    case True
    then obtain pre post where "bs = pre @ (True, m + 24) # post" "x = a + n + psize pre + 24"
      using 2 by (cases u) auto
    then have "(u, n) # bs = ((u, n) # pre) @ (True, m + 24) # post \<and> x = a + psize ((u, n) # pre) + 24" by simp
    then show ?thesis by blast
  next
    case False
    then have "u" "x = a + 24" "m = n - 24" using 2(4) by (auto split: if_splits)
    then have "(u, n) # bs = [] @ (True, m + 24) # bs \<and> x = a + psize [] + 24" using 2(3) by simp
    then show ?thesis by blast
  qed
qed simp

lemma mlive_used:
  assumes "sizes_ok (pre @ (u, n) # post)"
  shows "mlive a (pre @ (True, n) # post) = insert (a + psize pre + 24, n - 24) (mlive a (pre @ (False, n) # post))"
    "(a + psize pre + 24, k) \<notin> mlive a (pre @ (False, n) # post)"
  using assms mlive_bounds[of pre "a + psize pre + 24" k a] mlive_bounds[of post "a + psize pre + 24" k "a + psize pre + n"]
  by (auto simp: mlive_append)

lemma mlive_cut:
  assumes "k + 24 \<le> n"
  shows "\<exists>m. k \<le> m \<and> mlive a (pre @ cut_piece k n @ post) =
    insert (a + psize pre + 24, m) (mlive a (pre @ (False, n) # post))"
  using assms by (intro exI[of _ "if k + 60 \<le> n then k else n - 24"]) (auto simp: cut_piece_def mlive_append add.assoc)

lemma mlive_coalesce: "mlive a (coalesce pre n post) = mlive a (pre @ (False, n) # post)"
proof -
  have n: "mlive b (merge_next n post) = mlive b ((False, n) # post)" for b
    by (cases "(n, post)" rule: merge_next.cases) (simp_all add: add.assoc)
  have p: "mlive b (merge_prev (rev pre) m) = mlive b pre \<and> psize (merge_prev (rev pre) m) = psize pre + m" for b m
  proof (cases "rev pre")
    case (Cons c rest)
    then have "pre = rev rest @ [c]" by (metis rev.simps(2) rev_rev_ident)
    then show ?thesis using Cons by (cases c; cases "fst c") (auto simp: mlive_append)
  qed simp
  define m ys where "m = snd (hd (merge_next n post))" and "ys = tl (merge_next n post)"
  have "merge_next n post = (False, m) # ys" unfolding m_def ys_def by (rule merge_next_Cons)
  then show ?thesis using n[of "a + psize pre"]
    by (simp add: coalesce_def mlive_append p m_def[symmetric] ys_def[symmetric] add.assoc)
qed

lemma mlive_resized:
  assumes "24 < k" "k < n"
  shows "mlive a (pre @ (True, k) # (False, n - k) # post) = insert (a + psize pre + 24, k - 24) (mlive a (pre @ (False, n) # post))"
    "mlive a (pre @ (True, k) # merge_next (n - k) post) = insert (a + psize pre + 24, k - 24) (mlive a (pre @ (False, n) # post))"
  using assms by (simp_all add: mlive_append add.assoc)
    (cases "(n - k, post)" rule: merge_next.cases; simp add: add.assoc)

lemma mlive_joined: "mlive a (pre @ (False, n) # (False, j) # post) = mlive a (pre @ (False, n + j) # post)"
  by (simp add: mlive_append add.assoc)

text \<open>The pieces are determined by the headers.\<close>

fun mseg :: "memheaps \<Rightarrow> nat \<Rightarrow> piece list \<Rightarrow> bool" where
  "mseg m a [] = True"
| "mseg m a ((u, n) # bs) =
    (nxt (it_links m) (of_nat a) = of_nat (a + n) \<and> is_used m (of_nat a) = u \<and> 24 < n \<and> mseg m (a + n) bs)"

lemma mh_blocks_mseg: "mh_blocks p m (pre @ bs) \<Longrightarrow> mseg m (mh_start p m + psize pre) bs"
proof (induction bs arbitrary: pre)
  case (Cons b bs)
  obtain u n where b: "b = (u, n)" by (cases b)
  then have B: "mh_blocks p m (pre @ (u, n) # bs)" using Cons.prems by simp
  have "mh_blocks p m ((pre @ [b]) @ bs)" using Cons.prems by simp
  from Cons.IH[OF this] block_links(1,4,6)[OF B refl] show ?case using b by (simp add: add.assoc)
qed simp

lemma mseg_unique:
  "mseg m a bs \<Longrightarrow> mseg m a cs \<Longrightarrow> psize bs = psize cs \<Longrightarrow> a + psize bs < 2 ^ 32 \<Longrightarrow> bs = cs"
proof (induction bs arbitrary: a cs)
  case Nil
  then show ?case by (cases cs) auto
next
  case (Cons b bs)
  obtain u n where b: "b = (u, n)" by (cases b)
  obtain c cs' where c: "cs = c # cs'" using Cons.prems(1,3) b by (cases cs) auto
  obtain v k where v: "c = (v, k)" by (cases c)
  have lt: "a + n < 2 ^ 32" "a + k < 2 ^ 32" using Cons.prems(3,4) b c v by auto
  have "u = v" "(of_nat (a + n) :: 32 word) = of_nat (a + k)"
    using Cons.prems(1,2) b c v by (auto simp del: of_nat_add)
  then have n: "n = k" using of_nat32_inj[OF lt] by simp
  have "bs = cs'" using Cons.IH[of "a + n" cs'] Cons.prems b c v n by auto
  then show ?case using b c v n \<open>u = v\<close> by simp
qed

lemma mh_inv_unique:
  assumes "mh_inv p m bs fl" "mh_inv p m cs gl"
  shows "bs = cs"
proof -
  have B: "mh_blocks p m bs" "mh_blocks p m cs" using assms by (simp_all add: mh_inv_def)
  note D = mh_blocksD[OF B(1)] and D' = mh_blocksD[OF B(2)]
  have "0 < mh_start p m" by (rule mh_placeD(1)[OF D(3)])
  then have l: "psize bs + 24 < 2 ^ 32" "psize cs + 24 < 2 ^ 32" using D(4) D'(4) by simp_all
  have "(of_nat (psize bs + 24) :: rt_uint32) = of_nat (psize cs + 24)"
    using mh_placeD(6)[OF D(3)] mh_placeD(6)[OF D'(3)] by simp
  then have "psize bs = psize cs" using of_nat32_inj[OF l] by simp
  then show ?thesis
    using mseg_unique[of m "mh_start p m" bs cs] mh_blocks_mseg[of p m "[]" bs] mh_blocks_mseg[of p m "[]" cs] B D(4) by simp
qed

definition mh_ok :: "nat \<Rightarrow> memheaps \<Rightarrow> bool" where
  "mh_ok p m = (\<exists>bs fl. mh_inv p m bs fl)"

definition mh_live :: "nat \<Rightarrow> memheaps \<Rightarrow> (nat \<times> nat) set" where
  "mh_live p m = {x. \<exists>bs fl. mh_inv p m bs fl \<and> x \<in> mlive (mh_start p m) bs}"

lemma mh_live_eq: "mh_inv p m bs fl \<Longrightarrow> mh_live p m = mlive (mh_start p m) bs"
  unfolding mh_live_def using mh_inv_unique by blast

lemma mh_invD:
  assumes "mh_inv p m bs fl"
  shows "mh_blocks p m bs" "sizes_ok bs" "mh_start p m + psize bs + 24 \<le> 2 ^ 32" "0 < mh_start p m" "4 dvd mh_start p m"
    "available_size (heaps m p) = of_nat (free_bytes bs)"
proof -
  show B: "mh_blocks p m bs" using assms by (simp add: mh_inv_def)
  show "sizes_ok bs" "mh_start p m + psize bs + 24 \<le> 2 ^ 32" by (rule mh_blocksD[OF B])+
  show "0 < mh_start p m" "4 dvd mh_start p m" using mh_placeD(1,2)[OF mh_blocksD(3)[OF B]] .
  show "available_size (heaps m p) = of_nat (free_bytes bs)" using assms by (simp add: mh_inv_def mh_account_def)
qed

lemma mh_live_bounds:
  assumes "mh_inv p m bs fl" "(x, n) \<in> mh_live p m"
  shows "0 < n" "mh_start p m + 24 \<le> x" "x + n \<le> 2 ^ 32"
  using mlive_bounds[of bs x n "mh_start p m"] mh_invD(2,3)[OF assms(1)] assms(2) mh_live_eq[OF assms(1)] by auto

section \<open>The allocator interface\<close>

lemma memheap_size_malloc: "memheap_size = malloc_size"
  unfolding memheap_size_def malloc_size_def RT_MEMHEAP_MINIALLOC_def MIN_SIZE_ALIGNED_def ..

lemmas memheap_size_nat = malloc_size_nat(1,2,4)[folded memheap_size_malloc]

definition mh_get :: "nat \<Rightarrow> nat \<Rightarrow> memheaps \<Rightarrow> nat option \<times> memheaps" where
  "mh_get p k m =
    (let sz = memheap_size (of_nat k) in
     if sz < available_size (heaps m p) then
       (case mh_alloc p sz m of
          Some (Some h, m') \<Rightarrow> (Some (unat (h + RT_MEMHEAP_SIZE)), m')
        | Some (None, m') \<Rightarrow> (None, m')
        | None \<Rightarrow> (None, m))
     else (None, m))"

definition mh_put :: "nat \<Rightarrow> nat \<Rightarrow> memheaps \<Rightarrow> memheaps" where
  "mh_put p a m = mh_release p (of_nat a - RT_MEMHEAP_SIZE) m"

definition mh_fits :: "memheaps \<Rightarrow> nat \<Rightarrow> bool" where
  "mh_fits m k = (k \<le> 2 ^ 32 - 4)"

lemma mh_data_address:
  assumes "mh_inv p m (pre @ (u, n) # post) fl" "c = mh_start p m + psize pre"
  shows "unat (of_nat c + RT_MEMHEAP_SIZE :: rt_uint32) = c + 24" "of_nat (c + 24) - RT_MEMHEAP_SIZE = (of_nat c :: rt_uint32)"
    "c + n + 24 \<le> 2 ^ 32" "24 < n"
proof -
  note D = mh_invD[OF assms(1)]
  show l: "c + n + 24 \<le> 2 ^ 32" "24 < n" using D(2,3) assms(2) by simp_all
  have "(of_nat c + RT_MEMHEAP_SIZE :: rt_uint32) = of_nat (c + 24)" by (simp add: RT_MEMHEAP_SIZE_def)
  then show "unat (of_nat c + RT_MEMHEAP_SIZE :: rt_uint32) = c + 24" using l unat_small32[of "c + 24"] by simp
  show "of_nat (c + 24) - RT_MEMHEAP_SIZE = (of_nat c :: rt_uint32)" by (simp add: RT_MEMHEAP_SIZE_def)
qed

lemma mh_live_cut:
  assumes inv: "mh_inv p m (pre @ (False, n) # post) fl" and k: "k + 24 \<le> n"
    and m': "mh_inv p m' (pre @ cut_piece k n @ post) fl'" "same_mh p m m'"
  shows "\<exists>j. k \<le> j \<and> mh_live p m' = insert (mh_start p m + psize pre + 24, j) (mh_live p m) \<and>
    (mh_start p m + psize pre + 24, j) \<notin> mh_live p m"
  using mlive_cut[OF k, of "mh_start p m" pre post] mlive_used(2)[OF mh_invD(2)[OF inv], of "mh_start p m"]
  unfolding mh_live_eq[OF inv] mh_live_eq[OF m'(1)] same_mhD(1)[OF m'(2)] by metis

lemma mh_get_cases:
  assumes inv: "mh_inv p m bs fl" and f: "mh_fits m k"
  shows "mh_get p k m = (None, m) \<or>
    (\<exists>a n m' cs gl. mh_get p k m = (Some a, m') \<and> mh_inv p m' cs gl \<and> same_mh p m m' \<and> k \<le> n \<and>
      (a, n) \<notin> mh_live p m \<and> mh_live p m' = insert (a, n) (mh_live p m))"
proof (cases "memheap_size (of_nat k) < available_size (heaps m p)")
  case True
  let ?z = "memheap_size (of_nat k)"
  have "unat (of_nat k :: rt_size) = k" using f by (intro unat_small32) (simp add: mh_fits_def)
  then have kz: "k \<le> unat ?z" using memheap_size_nat(3)[of "of_nat k"] f by (simp add: mh_fits_def)
  from mh_alloc_pieces[OF inv memheap_size_nat(1,2)[of "of_nat k"]] show ?thesis
  proof (elim disjE exE conjE)
    assume "mh_alloc p ?z m = Some (None, m)"
    then show ?thesis using True by (simp add: mh_get_def)
  next
    fix pre n post m' gl
    assume b: "bs = pre @ (False, n) # post" "unat ?z + 24 \<le> n"
      and a: "mh_alloc p ?z m = Some (Some (of_nat (mh_start p m + psize pre)), m')"
      and m': "mh_inv p m' (pre @ cut_piece (unat ?z) n @ post) gl" "same_mh p m m'"
    let ?a = "mh_start p m + psize pre + 24"
    obtain j where j: "unat ?z \<le> j" "mh_live p m' = insert (?a, j) (mh_live p m)" "(?a, j) \<notin> mh_live p m"
      using mh_live_cut[OF inv[unfolded b(1)] b(2) m'] by blast
    have "mh_get p k m = (Some ?a, m')"
      using True a mh_data_address(1)[OF inv[unfolded b(1)] refl] by (simp add: mh_get_def Let_def del: of_nat_add)
    then show ?thesis using j m' kz le_trans by blast
  qed
qed (simp add: mh_get_def Let_def)

lemma mh_put_cases:
  assumes inv: "mh_inv p m bs fl" and l: "(a, n) \<in> mh_live p m"
  shows "\<exists>pre post gl. bs = pre @ (True, n + 24) # post \<and> a = mh_start p m + psize pre + 24 \<and>
    mh_put p a m = mh_release p (of_nat (mh_start p m + psize pre)) m \<and>
    mh_inv p (mh_put p a m) (coalesce pre (n + 24) post) gl \<and> same_mh p m (mh_put p a m) \<and>
    mh_live p (mh_put p a m) = mh_live p m - {(a, n)}"
proof -
  note D = mh_invD[OF inv]
  have "(a, n) \<in> mlive (mh_start p m) bs" using l mh_live_eq[OF inv] by simp
  from mlive_piece[OF D(2) this] obtain pre post where
    b: "bs = pre @ (True, n + 24) # post" "a = mh_start p m + psize pre + 24" by blast
  have e: "mh_put p a m = mh_release p (of_nat (mh_start p m + psize pre)) m"
    unfolding mh_put_def b(2) mh_data_address(2)[OF inv[unfolded b(1)] refl] ..
  from mh_release_pieces[OF inv[unfolded b(1)] refl, folded e] obtain gl where
    m': "mh_inv p (mh_put p a m) (coalesce pre (n + 24) post) gl" "same_mh p m (mh_put p a m)" by blast
  note U = mlive_used[OF D(2)[unfolded b(1)], of "mh_start p m"]
  have "mh_live p (mh_put p a m) = mh_live p m - {(a, n)}"
    using U(2)[of n, folded b(2)]
    unfolding mh_live_eq[OF m'(1)] mlive_coalesce same_mhD(1)[OF m'(2)] mh_live_eq[OF inv] b(1) U(1) b(2)[symmetric] by simp
  then show ?thesis using b e m' by blast
qed

interpretation mem_heap: allocator "mh_ok p" "mh_live p" "mh_get p" "mh_put p" mh_fits for p
proof unfold_locales
  fix h a n b m
  assume "mh_ok p h" and l: "(a, n) \<in> mh_live p h"
  then obtain bs fl where i: "mh_inv p h bs fl" by (auto simp: mh_ok_def)
  show "0 < n" by (rule mh_live_bounds(1)[OF i l])
  assume "(b, m) \<in> mh_live p h"
  then show "(a, n) = (b, m) \<or> a + n \<le> b \<or> b + m \<le> a"
    using l mlive_disjoint[OF mh_invD(2)[OF i]] mh_live_eq[OF i] by blast
next
  fix h k a
  assume "mh_ok p h" and f: "mh_fits h k"
  then obtain bs fl where i: "mh_inv p h bs fl" by (auto simp: mh_ok_def)
  note C = mh_get_cases[OF i f]
  show "mh_ok p (snd (mh_get p k h))" using C i unfolding mh_ok_def by fastforce
  show "mh_live p (snd (mh_get p k h)) = mh_live p h" if "fst (mh_get p k h) = None"
    using C that by auto
  show "\<exists>n. k \<le> n \<and> (a, n) \<notin> mh_live p h \<and> mh_live p (snd (mh_get p k h)) = insert (a, n) (mh_live p h)"
    if "fst (mh_get p k h) = Some a"
    using C that by auto
next
  fix h a n
  assume "mh_ok p h" and l: "(a, n) \<in> mh_live p h"
  then obtain bs fl where i: "mh_inv p h bs fl" by (auto simp: mh_ok_def)
  from mh_put_cases[OF i l] show "mh_ok p (mh_put p a h)" "mh_live p (mh_put p a h) = mh_live p h - {(a, n)}"
    unfolding mh_ok_def by blast+
qed (simp_all add: mh_fits_def)

end
