(* ===== verification/RT_Memheap_Calls.thy ===== *)
theory RT_Memheap_Calls
  imports RT_Memheap_Run
begin

text \<open>The calls on a memory heap with its semaphore: allocation, release and the change of the size
  of a block, with the contents of the blocks.\<close>

section \<open>Allocation and release\<close>

abbreviation mh_free_to_use :: "nat \<Rightarrow> memheaps \<Rightarrow> kernel \<Rightarrow> bool" where
  "mh_free_to_use p m s \<equiv> is_memheap p s \<and> heap_unlocked (mh_lock (heaps m p)) s"

lemma mh_lock_cycle:
  assumes "mh_free_to_use p m s"
  obtains s1 where "rt_sem_take (mh_lock (heaps m p)) WAITING_FOREVER s = Some (Done RT_EOK, s1)"
    "rt_sem_release (mh_lock (heaps m p)) s1 = Some (RT_EOK, s)"
  using heap_lock_cycle assms by blast

lemma mh_aligned:
  assumes "mh_inv p m (pre @ (u, n) # post) fl" "unat r = mh_start p m + psize pre + 24"
  shows "r AND 3 = 0" "r \<noteq> 0" "r - RT_MEMHEAP_SIZE = of_nat (mh_start p m + psize pre)"
    "of_nat (mh_start p m + psize pre) + RT_MEMHEAP_SIZE = r"
proof -
  note D = mh_invD[OF assms(1)]
  have "sizes_ok pre" using D(2) by simp
  from sizes_dvd[OF this] D(5) have "4 dvd unat r" unfolding assms(2) by simp
  from and_mod4(1)[OF this] show "r AND 3 = 0" by simp
  show "r \<noteq> 0" using assms(2) by auto
  have r: "r = of_nat (mh_start p m + psize pre + 24)" unfolding assms(2)[symmetric] by simp
  show "r - RT_MEMHEAP_SIZE = of_nat (mh_start p m + psize pre)"
    unfolding r by (rule mh_data_address(2)[OF assms(1) refl])
  then show "of_nat (mh_start p m + psize pre) + RT_MEMHEAP_SIZE = r" by (metis diff_add_cancel)
qed

lemma rt_memheap_alloc_result:
  assumes inv: "mh_inv p m bs fl" and lk: "mh_free_to_use p m s"
  shows "(rt_memheap_alloc p sz m s = Some (Done 0, m, s) \<and> mh_get p (unat sz) m = (None, m) \<and>
      (memheap_size sz \<ge> available_size (heaps m p) \<or> all_small (unat (memheap_size sz)) bs)) \<or>
    (\<exists>pre n post r m' gl. rt_memheap_alloc p sz m s = Some (Done r, m', s) \<and>
       mh_get p (unat sz) m = (Some (unat r), m') \<and> bs = pre @ (False, n) # post \<and>
       unat (memheap_size sz) + 24 \<le> n \<and> first_free m (memheap_size sz) fl (r - RT_MEMHEAP_SIZE) \<and>
       unat r = mh_start p m + psize pre + 24 \<and> r \<noteq> 0 \<and> r AND 3 = 0 \<and>
       mh_inv p m' (pre @ cut_piece (unat (memheap_size sz)) n @ post) gl \<and> same_mh p m m')"
proof (cases "memheap_size sz < available_size (heaps m p)")
  case False
  then show ?thesis using lk by (auto simp: rt_memheap_alloc_def mh_get_def Let_def)
next
  case True
  let ?z = "memheap_size sz"
  obtain s1 where s1: "rt_sem_take (mh_lock (heaps m p)) WAITING_FOREVER s = Some (Done RT_EOK, s1)"
    "rt_sem_release (mh_lock (heaps m p)) s1 = Some (RT_EOK, s)" using mh_lock_cycle[OF lk] .
  have call: "rt_memheap_alloc p sz m s = rt_memheap_alloc_locked p ?z RT_EOK m s1"
    using True s1(1) lk by (simp add: rt_memheap_alloc_def Let_def)
  from mh_alloc_pieces[OF inv memheap_size_nat(1,2)[of sz]] show ?thesis
  proof (elim disjE exE conjE)
    assume "mh_alloc p ?z m = Some (None, m)" "all_small (unat ?z) bs"
    then show ?thesis using s1(2) call by (simp add: rt_memheap_alloc_locked_def mh_get_def Let_def)
  next
    fix pre n post m' gl
    assume b: "bs = pre @ (False, n) # post" "unat ?z + 24 \<le> n"
      and f: "first_free m ?z fl (of_nat (mh_start p m + psize pre))"
      and a: "mh_alloc p ?z m = Some (Some (of_nat (mh_start p m + psize pre)), m')"
      and m': "mh_inv p m' (pre @ cut_piece (unat ?z) n @ post) gl" "same_mh p m m'"
    let ?r = "of_nat (mh_start p m + psize pre) + RT_MEMHEAP_SIZE"
    have ur: "unat ?r = mh_start p m + psize pre + 24" by (rule mh_data_address(1)[OF inv[unfolded b(1)] refl])
    note R = mh_aligned[OF inv[unfolded b(1)] ur]
    have "rt_memheap_alloc p sz m s = Some (Done ?r, m', s)"
      using call a s1(2) same_mhD(6)[OF m'(2)] by (simp add: rt_memheap_alloc_locked_def)
    moreover have "mh_get p (unat sz) m = (Some (unat ?r), m')" using True a by (simp add: mh_get_def)
    moreover have "first_free m ?z fl (?r - RT_MEMHEAP_SIZE)" using f R(3) by simp
    ultimately show ?thesis using b ur R(1,2) m' by blast
  qed
qed

lemma next_magic:
  assumes "mh_blocks p m (pre @ (u, n) # post)" "c = mh_start p m + psize pre"
  shows "it_magic m (of_nat (c + n)) AND RT_MEMHEAP_MASK = RT_MEMHEAP_MAGIC"
proof -
  have t: "tags (it_magic m) (it_pool m) p (cells (c + n) post @ [(c + n + psize post, True)])"
    using mh_blocksD(6)[OF assms(1)] unfolding piece_cells assms(2) by simp
  have "\<exists>v rest. cells (c + n) post @ [(c + n + psize post, True)] = (c + n, v) # rest"
    by (cases "(c + n, post)" rule: cells.cases) auto
  then obtain v rest where "cells (c + n) post @ [(c + n + psize post, True)] = (c + n, v) # rest" by blast
  with t have "it_magic m (of_nat (c + n)) = RT_MEMHEAP_MAGIC OR (if v then RT_MEMHEAP_USED else 0)"
    by (simp del: of_nat_add)
  then show ?thesis by (simp only: magic_bits)
qed

lemma rt_memheap_free_result:
  assumes inv: "mh_inv p m bs fl" and lk: "mh_free_to_use p m s" and l: "(unat r, n) \<in> mh_live p m"
  shows "rt_memheap_free r m s = Some (Done (), mh_put p (unat r) m, s)"
proof -
  from mh_put_cases[OF inv l] obtain pre post where
    b: "bs = pre @ (True, n + 24) # post" "unat r = mh_start p m + psize pre + 24"
    and put: "mh_put p (unat r) m = mh_release p (of_nat (mh_start p m + psize pre)) m"
    and same: "same_mh p m (mh_put p (unat r) m)" by blast
  have B: "mh_blocks p m (pre @ (True, n + 24) # post)" using mh_invD(1)[OF inv] b(1) by simp
  note R = mh_aligned[OF inv[unfolded b(1)] b(2)] and L = block_links[OF B refl] and N = next_magic[OF B refl]
  obtain s1 where s1: "rt_sem_take (mh_lock (heaps m p)) WAITING_FOREVER s = Some (Done RT_EOK, s1)"
    "rt_sem_release (mh_lock (heaps m p)) s1 = Some (RT_EOK, s)" using mh_lock_cycle[OF lk] .
  have used: "it_magic m (of_nat (mh_start p m + psize pre)) AND RT_MEMHEAP_USED \<noteq> 0"
    using L(4) by (simp add: is_used_def)
  have magic: "it_magic m (of_nat (mh_start p m + psize pre)) AND RT_MEMHEAP_MASK = RT_MEMHEAP_MAGIC"
    unfolding L(7) by (rule magic_bits)
  have "rt_memheap_free_locked p (of_nat (mh_start p m + psize pre)) RT_EOK m s1 = Some (Done (), mh_put p (unat r) m, s)"
    unfolding rt_memheap_free_locked_def put[symmetric] using s1(2) same_mhD(6)[OF same] by simp
  then show ?thesis
    unfolding rt_memheap_free_def Let_def R(3) L(1,8) using R(2) used magic N lk s1(1) by simp
qed

section \<open>Contents\<close>

definition mh_bytes :: "memheaps \<Rightarrow> nat \<Rightarrow> nat \<Rightarrow> rt_uint8 list" where
  "mh_bytes m a n = map (\<lambda>j. heap_bytes m (of_nat (a + j))) [0..<n]"

lemma mh_bytes_at: "mh_bytes m a n = bytes_at (h\<lparr>mem_bytes := heap_bytes m\<rparr>) a n"
  by (simp add: mh_bytes_def bytes_at_def)

lemma mh_bytes_same: "same_mh p m m' \<Longrightarrow> mh_bytes m' a n = mh_bytes m a n"
  by (simp add: mh_bytes_def same_mhD(7))

lemma mh_bytes_take: "k \<le> n \<Longrightarrow> mh_bytes m' b n = mh_bytes m a n \<Longrightarrow> mh_bytes m' b k = mh_bytes m a k"
  unfolding mh_bytes_at[of _ _ _ undefined] by (rule bytes_at_take)

lemma mh_bytes_copied:
  assumes "heap_bytes m' = block_copied (of_nat p) (of_nat a) c (heap_bytes m)" "p + c \<le> 2 ^ 32"
  shows "mh_bytes m' p c = mh_bytes m a c"
    "x + n \<le> p \<or> p + c \<le> x \<Longrightarrow> x + n \<le> 2 ^ 32 \<Longrightarrow> mh_bytes m' x n = mh_bytes m x n"
  unfolding mh_bytes_at[of _ _ _ undefined]
  using block_copied_bytes[of "undefined\<lparr>mem_bytes := heap_bytes m'\<rparr>" p a c "undefined\<lparr>mem_bytes := heap_bytes m\<rparr>"] assms
  by simp_all

text \<open>The other live blocks of the heap are there, with their contents.\<close>

definition mh_kept :: "nat \<Rightarrow> memheaps \<Rightarrow> memheaps \<Rightarrow> nat \<times> nat \<Rightarrow> bool" where
  "mh_kept p m m' b \<longleftrightarrow>
    (\<forall>(x, k) \<in> mh_live p m - {b}. (x, k) \<in> mh_live p m' \<and> mh_bytes m' x k = mh_bytes m x k)"

text \<open>The block has moved or was resized: in the place of the old block there is exactly one new one, which
  begins with the old contents.\<close>

definition mh_resized :: "nat \<Rightarrow> memheaps \<Rightarrow> rt_uint32 \<Rightarrow> nat \<Rightarrow> rt_size \<Rightarrow> rt_uint32 \<Rightarrow> memheaps \<Rightarrow> bool" where
  "mh_resized p m r n newsize q m' \<longleftrightarrow>
    mh_ok p m' \<and> (\<exists>j \<ge> unat newsize. mh_live p m' = insert (unat q, j) (mh_live p m - {(unat r, n)}) \<and>
      mh_bytes m' (unat q) (min n (unat newsize)) = mh_bytes m (unat r) (min n (unat newsize))) \<and>
    mh_kept p m m' (unat r, n)"

lemma mh_bytes_frame: "mh_inv p (m\<lparr>heap_bytes := b\<rparr>) bs fl = mh_inv p m bs fl"
  "mh_live p (m\<lparr>heap_bytes := b\<rparr>) = mh_live p m" "is_used (m\<lparr>heap_bytes := b\<rparr>) a = is_used m a"
proof -
  show i: "mh_inv p (m\<lparr>heap_bytes := b\<rparr>) bs fl = mh_inv p m bs fl" for bs fl
    by (simp add: mh_inv_def mh_blocks_def mh_frees_def mh_account_def mh_place_def)
  show "mh_live p (m\<lparr>heap_bytes := b\<rparr>) = mh_live p m" by (simp add: mh_live_def i)
  show "is_used (m\<lparr>heap_bytes := b\<rparr>) a = is_used m a" by (simp add: is_used_def)
qed

lemma resized_in_place:
  assumes "mh_inv p m' cs gl" "same_mh p m m'" "mh_live p m' = insert (unat r, w) (mh_live p m - {(unat r, n)})"
    and "unat newsize \<le> w"
  shows "mh_resized p m r n newsize r m'"
  using assms(1,3,4) mh_bytes_same[OF assms(2)] by (auto simp: mh_resized_def mh_kept_def mh_ok_def)

lemma memheap_moved_result:
  assumes inv: "mh_inv p m bs fl" and l: "(unat r, n) \<in> mh_live p m" and lk: "mh_free_to_use p m s"
    and m1: "mh_inv p m1 cs gl" "same_mh p m m1" "mh_live p m1 = insert (unat q, j) (mh_live p m)" "(unat q, j) \<notin> mh_live p m"
    and os: "unat os = n" and c: "unat ns \<le> j" "unat newsize \<le> unat ns" and al: "q AND 3 = 0" "r AND 3 = 0" "q \<noteq> 0"
  shows "\<exists>m'. memheap_moved r os ns q m1 s = Some (Done q, m', s) \<and> mh_resized p m r n newsize q m'"
proof -
  let ?cnt = "if os < ns then os else ns"
  have cnt: "unat ?cnt = min n (unat ns)" using os by (auto simp: word_less_nat_alt min_def)
  have l1: "(unat r, n) \<in> mh_live p m1" "(unat q, j) \<in> mh_live p m1" using l m1(3) by auto
  note bq = mh_live_bounds[OF m1(1) l1(2)] and br = mh_live_bounds[OF inv l]
  have apart: "unat q + j \<le> x \<or> x + k \<le> unat q" if "(x, k) \<in> mh_live p m" for x k
  proof -
    have "(x, k) \<in> mh_live p m1" "(x, k) \<noteq> (unat q, j)" using that m1(3,4) by auto
    moreover have "mh_ok p m1" using m1(1) by (auto simp: mh_ok_def)
    ultimately show ?thesis using mem_heap.live_disjoint[of p m1 x k "unat q" j] l1(2) by auto
  qed
  have "up_safe q r (unat ?cnt)"
    unfolding up_safe_def unat_sub32[of q r] cnt using apart[OF l] bq br c by auto
  then have cp: "rt_memcpy q r ?cnt (heap_bytes m1) = Some (block_copied q r (unat ?cnt) (heap_bytes m1))"
    using al by (intro rt_memcpy_block) auto
  let ?b = "block_copied q r (unat ?cnt) (heap_bytes m1)"
  let ?m2 = "m1\<lparr>heap_bytes := ?b\<rparr>"
  let ?m' = "mh_put p (unat r) ?m2"
  have i2: "mh_inv p ?m2 cs gl" and l2: "(unat r, n) \<in> mh_live p ?m2" using m1(1) l1 by (simp_all add: mh_bytes_frame)
  have lk2: "mh_free_to_use p ?m2 s" using lk same_mhD(6)[OF m1(2)] by simp
  from mh_put_cases[OF i2 l2] obtain ds hl where
    put: "mh_inv p ?m' ds hl" "same_mh p ?m2 ?m'" "mh_live p ?m' = mh_live p ?m2 - {(unat r, n)}" by blast
  have hm: "heap_bytes ?m' = block_copied (of_nat (unat q)) (of_nat (unat r)) (min n (unat ns)) (heap_bytes m)"
    using same_mhD(7)[OF put(2)] same_mhD(7)[OF m1(2)] cnt by simp
  have pc: "unat q + min n (unat ns) \<le> 2 ^ 32" using bq(3) c by simp
  note copied = mh_bytes_copied[OF hm pc]
  have "(unat q, j) \<noteq> (unat r, n)" using m1(4) l by auto
  then have lv: "mh_live p ?m' = insert (unat q, j) (mh_live p m - {(unat r, n)})"
    unfolding put(3) mh_bytes_frame(2) m1(3) by auto
  have "mh_kept p m ?m' (unat r, n)" unfolding mh_kept_def
  proof
    fix y assume y: "y \<in> mh_live p m - {(unat r, n)}"
    obtain x k where xk: "y = (x, k)" by (cases y)
    then have x: "(x, k) \<in> mh_live p m" "(x, k) \<noteq> (unat r, n)" using y by auto
    have "x + k \<le> unat q \<or> unat q + min n (unat ns) \<le> x" using apart[OF x(1)] c by fastforce
    from copied(2)[OF this mh_live_bounds(3)[OF inv x(1)]]
    show "case y of (x, k) \<Rightarrow> (x, k) \<in> mh_live p ?m' \<and> mh_bytes ?m' x k = mh_bytes m x k" using lv x xk by auto
  qed
  moreover have "min n (unat newsize) \<le> min n (unat ns)" using c by simp
  from mh_bytes_take[OF this copied(1)]
  have "mh_bytes ?m' (unat q) (min n (unat newsize)) = mh_bytes m (unat r) (min n (unat newsize))" .
  ultimately have "mh_resized p m r n newsize q ?m'"
    using put(1) lv c unfolding mh_resized_def mh_ok_def by (blast intro: le_trans)
  moreover have "memheap_moved r os ns q m1 s = Some (Done q, ?m', s)"
    using cp al(3) rt_memheap_free_result[OF i2 lk2 l2] by (simp add: memheap_moved_def)
  ultimately show ?thesis by blast
qed

section \<open>Changing the size\<close>

lemma memheap_size_bounds:
  assumes "unat x \<le> 0xfffffff0"
  shows "unat (memheap_size x) + 12 < 2 ^ 32" "unat x \<le> unat (memheap_size x)" "12 \<le> unat (memheap_size x)"
    "4 dvd unat (memheap_size x)"
proof -
  have e: "unat (RT_ALIGN x 4) = (unat x + 3) div 4 * 4" by (rule unat_RT_ALIGN4) (use assms in simp)
  have "unat (RT_ALIGN x 4) + 12 < 2 ^ 32" unfolding e
  proof -
    have "(unat x + 3) div 4 * 4 \<le> unat x + 3" by presburger
    then show "(unat x + 3) div 4 * 4 + 12 < 2 ^ 32" using assms by simp
  qed
  then show "unat (memheap_size x) + 12 < 2 ^ 32" by (simp add: memheap_size_def Let_def RT_MEMHEAP_MINIALLOC_def)
  show "unat x \<le> unat (memheap_size x)" "12 \<le> unat (memheap_size x)" "4 dvd unat (memheap_size x)"
    using memheap_size_nat[of x] assms by simp_all
qed

lemma mh_live_other:
  assumes "mh_inv p m (pre @ (True, n + 24) # post) fl" "unat r = mh_start p m + psize pre + 24"
  shows "mlive (mh_start p m) (pre @ (False, n + 24) # post) = mh_live p m - {(unat r, n)}"
  using mlive_used[OF mh_invD(2)[OF assms(1)], of "mh_start p m"] unfolding mh_live_eq[OF assms(1)] assms(2) by simp

lemma grow_in_place:
  assumes inv: "mh_inv p m (pre @ (True, n + 24) # post) fl" and r: "unat r = mh_start p m + psize pre + 24"
    and ns: "unat ns + 12 < 2 ^ 32" "4 dvd unat ns" "unat newsize \<le> unat ns" "n < unat ns"
    and g: "mh_grow p r (of_nat n) ns m = Some m'"
  shows "mh_resized p m r n newsize r m' \<and> same_mh p m m'"
proof -
  have r': "r = of_nat (mh_start p m + psize pre + 24)" unfolding r[symmetric] by simp
  from mh_grow_cases[OF inv refl ns(1)] g obtain k post' where
    k: "post = (False, k) # post'" "unat ns + 60 < n + 24 + k" unfolding r' by auto
  have nn: "n + 24 < unat ns + 24" and pos: "0 < unat ns" using ns(4) by simp_all
  from mh_grow_pieces[OF inv[unfolded k(1)] refl ns(2) nn k(2) pos] g obtain gl where
    m': "mh_inv p m' (pre @ (True, unat ns + 24) # (False, n + 24 + k - (unat ns + 24)) # post') gl" "same_mh p m m'"
    unfolding r' by auto
  have "mh_live p m' = insert (unat r, unat ns) (mh_live p m - {(unat r, n)})"
    unfolding mh_live_other[OF inv r, symmetric] mh_live_eq[OF m'(1)] same_mhD(1)[OF m'(2)] k(1)
    using mlive_resized(1)[of "unat ns + 24" "n + 24 + k" "mh_start p m" pre post', folded r] k(2) pos
    by (simp add: mlive_joined)
  from resized_in_place[OF m' this ns(3)] m'(2) show ?thesis by blast
qed

lemma grow_by_moving:
  assumes inv: "mh_inv p m bs fl" and lk: "mh_free_to_use p m s" and l: "(unat r, n) \<in> mh_live p m"
    and ns: "unat ns + 12 < 2 ^ 32" "unat newsize \<le> unat ns" and os: "unat os = n" and al: "r AND 3 = 0"
  shows "rt_memheap_alloc p ns m s = Some (Done 0, m, s) \<or>
    (\<exists>q m1 m'. rt_memheap_alloc p ns m s = Some (Done q, m1, s) \<and> q \<noteq> 0 \<and>
      memheap_moved r os ns q m1 s = Some (Done q, m', s) \<and> mh_resized p m r n newsize q m')"
proof -
  consider (none) "rt_memheap_alloc p ns m s = Some (Done 0, m, s)"
    | (some) qs k ys q m1 gl where "rt_memheap_alloc p ns m s = Some (Done q, m1, s)" "bs = qs @ (False, k) # ys"
      "unat (memheap_size ns) + 24 \<le> k" "unat q = mh_start p m + psize qs + 24" "q \<noteq> 0" "q AND 3 = 0"
      "mh_inv p m1 (qs @ cut_piece (unat (memheap_size ns)) k @ ys) gl" "same_mh p m m1"
    using rt_memheap_alloc_result[OF inv lk, of ns] by blast
  then show ?thesis
  proof cases
    case some
    note a = some(1-6) and m1 = some(7,8)
    obtain j where j: "unat (memheap_size ns) \<le> j" "mh_live p m1 = insert (unat q, j) (mh_live p m)"
      "(unat q, j) \<notin> mh_live p m"
      using mh_live_cut[OF inv[unfolded a(2)] a(3) m1] unfolding a(4) by blast
    have "unat ns \<le> unat (memheap_size ns)" using memheap_size_nat(3)[of ns] ns(1) by simp
    then have "unat ns \<le> j" using j(1) by simp
    from memheap_moved_result[OF inv l lk m1 j(2,3) os this ns(2) a(6) al a(5)] a(1,5) show ?thesis by blast
  qed simp
qed

lemma memheap_grow_result:
  assumes inv: "mh_inv p m (pre @ (True, n + 24) # post) fl" and lk: "mh_free_to_use p m s"
    and r: "unat r = mh_start p m + psize pre + 24" and s1: "rt_sem_release (mh_lock (heaps m p)) s1 = Some (RT_EOK, s)"
    and ns: "unat ns + 12 < 2 ^ 32" "4 dvd unat ns" "unat newsize \<le> unat ns" "n < unat ns"
  shows "memheap_grow_locked p r (of_nat n) ns RT_EOK m s1 = Some (Done 0, m, s) \<or>
    (\<exists>q m'. memheap_grow_locked p r (of_nat n) ns RT_EOK m s1 = Some (Done q, m', s) \<and> q \<noteq> 0 \<and>
      mh_resized p m r n newsize q m')"
proof -
  let ?c = "mh_start p m + psize pre"
  note R = mh_aligned[OF inv r] and L = block_links[OF mh_invD(1)[OF inv] refl]
  have un: "unat (of_nat n :: rt_size) = n" using L(5) by (intro unat_small32) simp
  have "unat (of_nat (?c + (n + 24)) :: rt_uint32) = ?c + (n + 24)" "unat (of_nat ?c :: rt_uint32) = ?c"
    using L(5) by (intro unat_small32; simp)+
  then have up: "nxt (it_links m) (of_nat ?c) > of_nat ?c" unfolding L(1) word_less_nat_alt by simp
  have g: "memheap_grow_locked p r (of_nat n) ns RT_EOK m s1 =
      (case mh_grow p r (of_nat n) ns m of
         Some m \<Rightarrow> do { (_, s) \<leftarrow> rt_sem_release (mh_lock (heaps m p)) s1; Some (Done r, m, s) }
       | None \<Rightarrow> do {
           (x, m, s) \<leftarrow> rt_memheap_alloc p ns m s;
           (case x of Blocked \<Rightarrow> Some (Blocked, m, s)
            | Done new_ptr \<Rightarrow> memheap_moved r (of_nat n) ns new_ptr m s) })"
    using up s1 unfolding memheap_grow_locked_def R(3) by (simp split: option.split)
  show ?thesis
  proof (cases "mh_grow p r (of_nat n) ns m")
    case None
    have "(unat r, n) \<in> mh_live p m"
      using mlive_used(1)[OF mh_invD(2)[OF inv], of "mh_start p m"] unfolding mh_live_eq[OF inv] r by simp
    from grow_by_moving[OF inv lk this ns(1,3) un R(1)] show ?thesis
      using g None by (auto simp: memheap_moved_def)
  next
    case (Some m')
    from grow_in_place[OF inv r ns Some] show ?thesis using g Some s1 R(2) same_mhD(6) by auto
  qed
qed

lemma memheap_shrink_result:
  assumes inv: "mh_inv p m (pre @ (True, n + 24) # post) fl" and r: "unat r = mh_start p m + psize pre + 24"
    and s1: "rt_sem_release (mh_lock (heaps m p)) s1 = Some (RT_EOK, s)"
    and ns: "4 dvd unat ns" "0 < unat ns" "unat newsize \<le> unat ns" "unat ns + 60 < n + 24"
  shows "\<exists>m'. memheap_shrink_locked p r ns RT_EOK m s1 = Some (Done r, m', s) \<and> mh_resized p m r n newsize r m'"
proof -
  let ?m = "mh_shrink p (of_nat (mh_start p m + psize pre)) ns m"
  note R = mh_aligned[OF inv r]
  from mh_shrink_pieces[OF inv refl ns(1,2,4)] obtain gl where
    m': "mh_inv p ?m (pre @ (True, unat ns + 24) # merge_next (n + 24 - (unat ns + 24)) post) gl" "same_mh p m ?m"
    by blast
  have "mh_live p ?m = insert (unat r, unat ns) (mh_live p m - {(unat r, n)})"
    unfolding mh_live_other[OF inv r, symmetric] mh_live_eq[OF m'(1)] same_mhD(1)[OF m'(2)]
    using mlive_resized(2)[of "unat ns + 24" "n + 24" "mh_start p m" pre post, folded r] ns by simp
  from resized_in_place[OF m' this ns(3)] show ?thesis
    using s1 same_mhD(6)[OF m'(2)] by (auto simp: memheap_shrink_locked_def R(3) simp del: of_nat_add)
qed

lemma rt_memheap_realloc_result:
  assumes inv: "mh_inv p m bs fl" and lk: "mh_free_to_use p m s" and l: "(unat r, n) \<in> mh_live p m"
    and newsize: "0 < unat newsize" "unat newsize \<le> 0xfffffff0"
  shows "rt_memheap_realloc p r newsize m s = Some (Done 0, m, s) \<or>
    (\<exists>q m'. rt_memheap_realloc p r newsize m s = Some (Done q, m', s) \<and> q \<noteq> 0 \<and> mh_resized p m r n newsize q m')"
proof -
  let ?ns = "memheap_size newsize"
  note W = memheap_size_bounds[OF newsize(2)]
  from mh_put_cases[OF inv l] obtain pre post where
    b: "bs = pre @ (True, n + 24) # post" "unat r = mh_start p m + psize pre + 24" by blast
  let ?c = "mh_start p m + psize pre"
  note inv' = inv[unfolded b(1)]
  note B = mh_invD(1)[OF inv'] and R = mh_aligned[OF inv' b(2)]
  note L = block_links[OF B refl]
  have sz: "MEMITEM_SIZE m (of_nat ?c) = of_nat n" using item_size[OF B] by simp
  have un: "unat (of_nat n :: rt_size) = n" using L(5) by (intro unat_small32) simp
  obtain s1 where s1: "rt_sem_take (mh_lock (heaps m p)) WAITING_FOREVER s = Some (Done RT_EOK, s1)"
    "rt_sem_release (mh_lock (heaps m p)) s1 = Some (RT_EOK, s)" using mh_lock_cycle[OF lk] .
  have nz: "newsize \<noteq> 0" using newsize(1) by auto
  have call: "rt_memheap_realloc p r newsize m s =
      (if ?ns > of_nat n then memheap_grow_locked p r (of_nat n) ?ns RT_EOK m s1
       else if ?ns + RT_MEMHEAP_SIZE + RT_MEMHEAP_MINIALLOC \<ge> of_nat n then Some (Done r, m, s)
       else memheap_shrink_locked p r ?ns RT_EOK m s1)"
    using nz R(2) lk s1(1) by (simp add: rt_memheap_realloc_def memheap_resize_def Let_def R(3) sz del: of_nat_add)
  have grow: "(?ns > of_nat n) = (n < unat ?ns)" by (simp add: word_less_nat_alt un)
  show ?thesis
  proof (cases "n < unat ?ns")
    case True
    from memheap_grow_result[OF inv' lk b(2) s1(2) W(1,4,2) True] show ?thesis using call grow True by auto
  next
    case False
    have "unat (?ns + RT_MEMHEAP_SIZE + RT_MEMHEAP_MINIALLOC) = unat ?ns + 36"
      using False L(5) by (simp add: RT_MEMHEAP_SIZE_def RT_MEMHEAP_MINIALLOC_def unat_word_ariths)
    then have c: "(?ns + RT_MEMHEAP_SIZE + RT_MEMHEAP_MINIALLOC \<ge> of_nat n) = (n \<le> unat ?ns + 36)"
      by (simp add: word_le_nat_alt un)
    show ?thesis
    proof (cases "n \<le> unat ?ns + 36")
      case True
      have "mh_live p m = insert (unat r, n) (mh_live p m - {(unat r, n)})" using l by auto
      from resized_in_place[OF inv same_mh_refl this] False W(2)
      show ?thesis using call grow False c True R(2) by auto
    next
      case shrink: False
      then have "0 < unat ?ns" "unat ?ns + 60 < n + 24" using W(3) by simp_all
      from memheap_shrink_result[OF inv' b(2) s1(2) W(4) this(1) W(2) this(2)]
      show ?thesis using call grow False c shrink R(2) by auto
    qed
  qed
qed

end
