(* ===== verification/RT_Memheap_Spec.thy ===== *)
theory RT_Memheap_Spec
  imports RT_Memheap_Calls
begin

text \<open>The fresh memory heap, the wrap-around cases, and the properties of the memory heaps.\<close>

section \<open>The fresh heap\<close>

lemma mh_first_blocks_pieces:
  assumes a: "a = unat (start_addr (heaps m p))" "0 < a" "4 dvd a"
    and P: "pool_size (heaps m p) = of_nat P" "48 < P" "4 dvd P" "a + P \<le> 2 ^ 32"
    and av: "available_size (heaps m p) = of_nat (P - 48)" "max_used_size (heaps m p) = 48"
    and f: "unat (free_header (heaps m p)) < a \<or> a + P \<le> unat (free_header (heaps m p))"
  shows "mh_inv p (mh_first_blocks p m) [(False, P - 24)] [of_nat a]"
    "heaps (mh_first_blocks p m) p = (heaps m p)\<lparr>free_list := free_header (heaps m p), block_list := of_nat a\<rparr>"
    "\<forall>q. q \<noteq> p \<longrightarrow> heaps (mh_first_blocks p m) q = heaps m q" "heap_bytes (mh_first_blocks p m) = heap_bytes m"
proof -
  let ?m = "mh_first_blocks p m"
  let ?s = "of_nat a :: rt_uint32" and ?h = "free_header (heaps m p)" and ?t = "of_nat (a + (P - 24)) :: rt_uint32"
  have s: "start_addr (heaps m p) = ?s" by (simp add: a(1))
  have t: "?s + available_size (heaps m p) + RT_MEMHEAP_SIZE = ?t"
    using P(2) by (simp add: av RT_MEMHEAP_SIZE_def)
  have us: "unat ?s = a" "unat ?t = a + (P - 24)" using P by (intro unat_small32; simp)+
  have ne: "?s \<noteq> ?h" "?t \<noteq> ?h" "?s \<noteq> ?t" using f us P(2) by auto
  note ne' = ne[symmetric] ne
  show hp: "heaps ?m p = (heaps m p)\<lparr>free_list := ?h, block_list := ?s\<rparr>"
    "\<forall>q. q \<noteq> p \<longrightarrow> heaps ?m q = heaps m q" "heap_bytes ?m = heap_bytes m"
    by (simp_all add: mh_first_blocks_def Let_def s)
  have links: "nxt (it_links ?m) ?s = ?t" "prv (it_links ?m) ?s = ?t" "nxt (it_links ?m) ?t = ?s" "prv (it_links ?m) ?t = ?s"
    using ne' by (simp_all add: mh_first_blocks_def s t link_defs del: of_nat_add)
  have free: "nxt (it_free ?m) ?h = ?s" "prv (it_free ?m) ?h = ?s" "nxt (it_free ?m) ?s = ?h" "prv (it_free ?m) ?s = ?h"
    using ne' by (simp_all add: mh_first_blocks_def s t link_defs free_insert_def free_clear_def del: of_nat_add)
  have mag: "it_magic ?m ?s = RT_MEMHEAP_MAGIC" "it_magic ?m ?t = RT_MEMHEAP_MAGIC OR RT_MEMHEAP_USED"
    "it_pool ?m ?s = p" "it_pool ?m ?t = p"
    using ne' by (simp_all add: mh_first_blocks_def s t link_defs del: of_nat_add)
  have "mh_place p ?m (P - 24)"
    using a P f by (simp add: mh_place_def Let_def hp)
  moreover have "dlist (it_links ?m) ?s [?t]" using links ne by (simp add: dlist_def)
  moreover have "dlist (it_free ?m) ?h [?s]" using free ne by (simp add: dlist_def)
  moreover have "sizes_ok [(False, P - 24)]" using P by auto
  ultimately show "mh_inv p ?m [(False, P - 24)] [?s]"
    using mag P(2) us
    by (simp add: mh_inv_def mh_blocks_def mh_frees_def mh_account_def no_holes_def hp av P(1) s del: of_nat_add)
qed

lemma rt_memheap_init_result:
  assumes a: "0 < unat start" "4 dvd unat start" "unat start + unat sz div 4 * 4 \<le> 2 ^ 32" "48 < unat sz div 4 * 4"
    and f: "unat (free_header (heaps m p)) < unat start \<or> unat start + unat sz div 4 * 4 \<le> unat (free_header (heaps m p))"
    and nest: "rt_interrupt_nest s = 0"
  shows "\<exists>m' s'. rt_memheap_init p nm start sz m s = Some (RT_EOK, m', s') \<and>
    mh_inv p m' [(False, unat sz div 4 * 4 - 24)] [start] \<and> mh_start p m' = unat start \<and>
    heap_bytes m' = heap_bytes m \<and> mh_free_to_use p m' s'"
proof -
  let ?P = "unat sz div 4 * 4"
  let ?m1 = "upd_heap p (\<lambda>h. h\<lparr>start_addr := start, pool_size := RT_ALIGN_DOWN sz 4\<rparr>) m"
  let ?m2 = "upd_heap p (\<lambda>h. h\<lparr>available_size := pool_size h - 2 * RT_MEMHEAP_SIZE\<rparr>) ?m1"
  let ?m3 = "upd_heap p (\<lambda>h. h\<lparr>max_used_size := pool_size h - available_size h\<rparr>) ?m2"
  let ?m4 = "mh_first_blocks p ?m3"
  have down: "RT_ALIGN_DOWN sz 4 = of_nat ?P" unfolding unat_RT_ALIGN_DOWN4[symmetric] by simp
  have pool: "pool_size (heaps ?m3 p) = of_nat ?P" using down by simp
  have avail: "available_size (heaps ?m3 p) = of_nat (?P - 48)" "max_used_size (heaps ?m3 p) = 48"
    using a(4) by (simp_all add: down RT_MEMHEAP_SIZE_def)
  have st: "unat start = unat (start_addr (heaps ?m3 p))" by simp
  have fh: "unat (free_header (heaps ?m3 p)) < unat start \<or> unat start + ?P \<le> unat (free_header (heaps ?m3 p))"
    using f by simp
  note F = mh_first_blocks_pieces[OF st a(1,2) pool a(4) dvd_triv_right a(3) avail fh]
  define i s1 where "i = mh_lock (heaps m p)" and "s1 = the (rt_object_init (OMemheap p) RT_Object_Class_MemHeap nm s)"
  have o: "rt_object_init (OMemheap p) RT_Object_Class_MemHeap nm s = Some s1" "is_memheap p s1" "rt_interrupt_nest s1 = 0"
    by (simp_all add: s1_def rt_object_init_Some rt_object_container_def is_memheap_def rt_object_get_type_def
      RT_Object_Class_Static_def nest)
  obtain s2 where sem: "rt_sem_init i nm 1 RT_IPC_FLAG_FIFO s1 = Some (RT_EOK, s2)" "is_memheap p s2" "heap_unlocked i s2"
    using o(2,3) by (simp add: rt_sem_init_def rt_object_init_Some rt_object_container_def is_memheap_def
      rt_object_get_type_def heap_unlocked_def sem_ready_def sem_inv_def flag_ok_def
      rt_ipc_object_init_def kernel_defs RT_Object_Class_Static_def)
  have "rt_memheap_init p nm start sz m s = Some (RT_EOK, ?m4, s2)"
    using o(1) sem(1) by (simp add: rt_memheap_init_def Let_def F(2) i_def)
  then show ?thesis using F sem by (auto simp: i_def)
qed

section \<open>Wrap-around\<close>

lemma magic_used:
  fixes w :: rt_uint32
  assumes "w AND RT_MEMHEAP_MASK = RT_MEMHEAP_MAGIC" "w AND RT_MEMHEAP_USED \<noteq> 0"
  shows "w = RT_MEMHEAP_MAGIC OR RT_MEMHEAP_USED"
proof -
  have "RT_MEMHEAP_MASK = NOT RT_MEMHEAP_USED" by (simp add: RT_MEMHEAP_MASK_def RT_MEMHEAP_USED_def)
  then have "w = (w AND RT_MEMHEAP_MASK) OR (w AND RT_MEMHEAP_USED)"
    by (metis bit.conj_disj_distrib bit.disj_cancel_left and.right_neutral)
  moreover have "w AND RT_MEMHEAP_USED = RT_MEMHEAP_USED"
    using assms(2) unfolding RT_MEMHEAP_USED_def by (simp add: and_one_eq odd_iff_mod_2_eq_one split: if_splits)
  ultimately show ?thesis using assms(1) by metis
qed

text \<open>For a new size near 2 to the 32 the test of the room behind the block wraps.\<close>

lemma wrapping_size:
  assumes "0xfffffff0 < unat x" "unat x \<le> 0xfffffffc"
  shows "0xfffffff4 \<le> unat (memheap_size x)" "unat (memheap_size x) \<le> 0xfffffffc"
    "unat (memheap_size x + RT_MEMHEAP_MINIALLOC) \<le> 8"
proof -
  have e: "unat (RT_ALIGN x 4) = (unat x + 3) div 4 * 4" by (rule unat_RT_ALIGN4) (use assms in simp)
  have q: "0xfffffff4 \<le> (unat x + 3) div 4 * 4" "(unat x + 3) div 4 * 4 \<le> 0xfffffffc" using assms by presburger+
  have "\<not> RT_ALIGN x 4 < RT_MEMHEAP_MINIALLOC" using q e by (simp add: word_less_nat_alt RT_MEMHEAP_MINIALLOC_def)
  then have m: "memheap_size x = RT_ALIGN x 4" by (simp add: memheap_size_def)
  show b: "0xfffffff4 \<le> unat (memheap_size x)" "unat (memheap_size x) \<le> 0xfffffffc" using q e m by simp_all
  have "unat (memheap_size x + 12) = (unat (memheap_size x) + 12) mod 2 ^ 32" by (simp add: unat_word_ariths)
  also have "\<dots> = unat (memheap_size x) + 12 - 2 ^ 32" using b by (simp add: mod_if)
  finally show "unat (memheap_size x + RT_MEMHEAP_MINIALLOC) \<le> 8" using b by (simp add: RT_MEMHEAP_MINIALLOC_def)
qed

lemma mh_grow_next:
  assumes "\<not> is_used m (nxt (it_links m) (r - RT_MEMHEAP_SIZE))"
    and "MEMITEM_SIZE m (nxt (it_links m) (r - RT_MEMHEAP_SIZE)) + os > ns + RT_MEMHEAP_MINIALLOC"
  shows "\<exists>m'. mh_grow p r os ns m = Some m' \<and> nxt (it_links m') (r - RT_MEMHEAP_SIZE) = r + ns \<and> mh_lock (heaps m' p) = mh_lock (heaps m p)"
  using assms by (simp add: mh_grow_def Let_def link_behind_def link_defs)

section \<open>Properties\<close>

text \<open>C10. rt\_memheap\_init of a pool of more than 48 bytes that ends below the end of the address space,
  and has not the header of the free list inside, returns a heap without live blocks whose semaphore is
  free. In every run of a program on that heap, whatever it allocates and in whatever order it releases
  its blocks, the circles of the blocks and of the free blocks stay well formed, what is live is exactly
  what was given and not yet released, and any two live blocks are disjoint.\<close>

theorem memheap_run_safe:
  assumes "0 < unat start" "4 dvd unat start" "unat start + unat sz div 4 * 4 \<le> 2 ^ 32" "48 < unat sz div 4 * 4"
    and "unat (free_header (heaps m p)) < unat start \<or> unat start + unat sz div 4 * 4 \<le> unat (free_header (heaps m p))"
    and "rt_interrupt_nest s = 0"
  shows "\<exists>m0 s0. rt_memheap_init p nm start sz m s = Some (RT_EOK, m0, s0) \<and> mh_live p m0 = {} \<and>
    is_memheap p s0 \<and> heap_unlocked (mh_lock (heaps m0 p)) s0 \<and>
    (\<forall>as fs m'. mem_heap.run p m0 as fs m' \<longrightarrow> mh_ok p m' \<and>
      (\<forall>b. count_list as b = count_list fs b + (if b \<in> mh_live p m' then 1 else 0)) \<and>
      (\<forall>(x, i) \<in> mh_live p m'. \<forall>(y, k) \<in> mh_live p m'. (x, i) = (y, k) \<or> x + i \<le> y \<or> y + k \<le> x))"
proof -
  obtain m0 s0 where i: "rt_memheap_init p nm start sz m s = Some (RT_EOK, m0, s0)"
    "mh_inv p m0 [(False, unat sz div 4 * 4 - 24)] [start]" "mh_free_to_use p m0 s0"
    using rt_memheap_init_result[OF assms] by blast
  have ok: "mh_ok p m0" "mh_live p m0 = {}" using i(2) mh_live_eq[OF i(2)] by (auto simp: mh_ok_def)
  have "mh_ok p m' \<and> (\<forall>b. count_list as b = count_list fs b + (if b \<in> mh_live p m' then 1 else 0)) \<and>
      (\<forall>(x, i) \<in> mh_live p m'. \<forall>(y, k) \<in> mh_live p m'. (x, i) = (y, k) \<or> x + i \<le> y \<or> y + k \<le> x)"
    if run: "mem_heap.run p m0 as fs m'" for as fs m'
  proof -
    have ok': "mh_ok p m'" by (rule mem_heap.run_inv[OF run ok(1)])
    then show ?thesis using mem_heap.run_balance[OF run ok] mem_heap.live_disjoint[OF ok'] by blast
  qed
  with i ok(2) show ?thesis by blast
qed

text \<open>C30. rt\_memheap\_alloc on a heap that is not locked always returns. It returns the null pointer and
  changes nothing only when the rounded size is not below the number of the free bytes, or every free
  block is too small for it; otherwise it takes the first block of the free list that is large enough,
  and cuts off what is left when that is enough for another block. The address is aligned, the block is new, as
  long as asked for and disjoint from the live ones, which all stay; the answer is the one that
  the allocator gives in such a run.\<close>

theorem rt_memheap_alloc_correct:
  assumes "mh_inv p m bs fl" "is_memheap p s" "heap_unlocked (mh_lock (heaps m p)) s"
  shows "(rt_memheap_alloc p sz m s = Some (Done 0, m, s) \<and> mh_get p (unat sz) m = (None, m) \<and>
      (memheap_size sz \<ge> available_size (heaps m p) \<or> all_small (unat (memheap_size sz)) bs)) \<or>
    (\<exists>pre n post r m' gl j. rt_memheap_alloc p sz m s = Some (Done r, m', s) \<and>
       mh_get p (unat sz) m = (Some (unat r), m') \<and> bs = pre @ (False, n) # post \<and>
       first_free m (memheap_size sz) fl (r - RT_MEMHEAP_SIZE) \<and>
       unat r = mh_start p m + psize pre + 24 \<and> r AND 3 = 0 \<and>
       mh_inv p m' (pre @ cut_piece (unat (memheap_size sz)) n @ post) gl \<and>
       (sz \<le> 0xfffffffc \<longrightarrow> unat sz \<le> j) \<and> mh_live p m' = insert (unat r, j) (mh_live p m) \<and>
       (\<forall>(x, k) \<in> mh_live p m. unat r + j \<le> x \<or> x + k \<le> unat r))"
proof -
  have lk: "mh_free_to_use p m s" using assms(2,3) by blast
  from rt_memheap_alloc_result[OF assms(1) lk, of sz] show ?thesis
  proof (elim disjE[of "_ \<and> _"])
    assume "\<exists>pre n post r m' gl. rt_memheap_alloc p sz m s = Some (Done r, m', s) \<and>
       mh_get p (unat sz) m = (Some (unat r), m') \<and> bs = pre @ (False, n) # post \<and>
       unat (memheap_size sz) + 24 \<le> n \<and> first_free m (memheap_size sz) fl (r - RT_MEMHEAP_SIZE) \<and>
       unat r = mh_start p m + psize pre + 24 \<and> r \<noteq> 0 \<and> r AND 3 = 0 \<and>
       mh_inv p m' (pre @ cut_piece (unat (memheap_size sz)) n @ post) gl \<and> same_mh p m m'"
    then obtain pre n post r m' gl where
      a: "rt_memheap_alloc p sz m s = Some (Done r, m', s)" "mh_get p (unat sz) m = (Some (unat r), m')"
        "bs = pre @ (False, n) # post" "unat (memheap_size sz) + 24 \<le> n"
        "first_free m (memheap_size sz) fl (r - RT_MEMHEAP_SIZE)" "unat r = mh_start p m + psize pre + 24" "r AND 3 = 0"
      and m': "mh_inv p m' (pre @ cut_piece (unat (memheap_size sz)) n @ post) gl" "same_mh p m m'" by blast
    obtain j where j: "unat (memheap_size sz) \<le> j" "mh_live p m' = insert (unat r, j) (mh_live p m)" "(unat r, j) \<notin> mh_live p m"
      using mh_live_cut[OF assms(1)[unfolded a(3)] a(4) m'] unfolding a(6) by blast
    have ok': "mh_ok p m'" using m'(1) by (auto simp: mh_ok_def)
    have "unat r + j \<le> x \<or> x + k \<le> unat r" if "(x, k) \<in> mh_live p m" for x k
      using mem_heap.live_disjoint[OF ok', of "unat r" j x k] that j(2,3) by auto
    moreover have "sz \<le> 0xfffffffc \<longrightarrow> unat sz \<le> j"
      using memheap_size_nat(3)[of sz] j(1) by (auto simp: word_le_nat_alt)
    ultimately show ?thesis using a m'(1) j(2) by (intro disjI2) blast
  qed simp
qed

text \<open>C31. rt\_memheap\_free of a live block of a heap that is not locked always returns; that block alone
  stops being live, its piece is merged with the free pieces before and behind it, and no data byte
  changes. The null pointer is ignored, and a pointer whose header has not the magic number and the used
  bit stops the system.\<close>

theorem rt_memheap_free_correct:
  assumes "mh_inv p m bs fl" "is_memheap p s" "heap_unlocked (mh_lock (heaps m p)) s" "(unat r, n) \<in> mh_live p m"
  shows "(\<exists>pre post gl. bs = pre @ (True, n + 24) # post \<and>
      rt_memheap_free r m s = Some (Done (), mh_put p (unat r) m, s) \<and>
      mh_inv p (mh_put p (unat r) m) (coalesce pre (n + 24) post) gl \<and>
      mh_live p (mh_put p (unat r) m) = mh_live p m - {(unat r, n)} \<and>
      heap_bytes (mh_put p (unat r) m) = heap_bytes m) \<and>
    rt_memheap_free 0 m s = Some (Done (), m, s) \<and>
    (q \<noteq> 0 \<longrightarrow> it_magic m (q - RT_MEMHEAP_SIZE) \<noteq> RT_MEMHEAP_MAGIC OR RT_MEMHEAP_USED \<longrightarrow>
      rt_memheap_free q m s = None)"
proof -
  have lk: "mh_free_to_use p m s" using assms(2,3) by blast
  from mh_put_cases[OF assms(1,4)] obtain pre post gl where
    "bs = pre @ (True, n + 24) # post" "mh_inv p (mh_put p (unat r) m) (coalesce pre (n + 24) post) gl"
    "mh_live p (mh_put p (unat r) m) = mh_live p m - {(unat r, n)}" and same: "same_mh p m (mh_put p (unat r) m)" by blast
  with rt_memheap_free_result[OF assms(1) lk assms(4)] same_mhD(7)[OF same]
  have "\<exists>pre post gl. bs = pre @ (True, n + 24) # post \<and>
      rt_memheap_free r m s = Some (Done (), mh_put p (unat r) m, s) \<and>
      mh_inv p (mh_put p (unat r) m) (coalesce pre (n + 24) post) gl \<and>
      mh_live p (mh_put p (unat r) m) = mh_live p m - {(unat r, n)} \<and>
      heap_bytes (mh_put p (unat r) m) = heap_bytes m" by blast
  moreover have "rt_memheap_free 0 m s = Some (Done (), m, s)" by (simp add: rt_memheap_free_def)
  moreover have "rt_memheap_free q m s = None"
    if "q \<noteq> 0" "it_magic m (q - RT_MEMHEAP_SIZE) \<noteq> RT_MEMHEAP_MAGIC OR RT_MEMHEAP_USED"
  proof (rule ccontr)
    assume "rt_memheap_free q m s \<noteq> None"
    then have "it_magic m (q - RT_MEMHEAP_SIZE) AND RT_MEMHEAP_MASK = RT_MEMHEAP_MAGIC"
      "it_magic m (q - RT_MEMHEAP_SIZE) AND RT_MEMHEAP_USED \<noteq> 0"
      using that(1) unfolding rt_memheap_free_def Let_def RT_ASSERT_def by (auto split: if_splits)
    then have "it_magic m (q - RT_MEMHEAP_SIZE) = RT_MEMHEAP_MAGIC OR RT_MEMHEAP_USED" by (rule magic_used)
    with that(2) show False ..
  qed
  ultimately show ?thesis by blast
qed

text \<open>C32. rt\_memheap\_realloc of a live block of a heap that is not locked, to a new size between 1 and
  2 to the 32 minus 16, always returns: the null pointer, and nothing is changed, or the address of a
  live block of at least the new size that begins with the old contents, whether the block was cut
  down, grew into the free block behind it or moved; this block takes the place of the old one in the
  set of the live blocks, and every other live block is kept with its contents.\<close>

theorem rt_memheap_realloc_correct:
  assumes "mh_inv p m bs fl" "is_memheap p s" "heap_unlocked (mh_lock (heaps m p)) s" "(unat r, n) \<in> mh_live p m"
    and "0 < unat newsize" "unat newsize \<le> 0xfffffff0"
  shows "rt_memheap_realloc p r newsize m s = Some (Done 0, m, s) \<or>
    (\<exists>q m'. rt_memheap_realloc p r newsize m s = Some (Done q, m', s) \<and> q \<noteq> 0 \<and> mh_ok p m' \<and>
      (\<exists>j \<ge> unat newsize. mh_live p m' = insert (unat q, j) (mh_live p m - {(unat r, n)}) \<and>
        mh_bytes m' (unat q) (min n (unat newsize)) = mh_bytes m (unat r) (min n (unat newsize))) \<and>
      mh_kept p m m' (unat r, n))"
proof -
  have "mh_free_to_use p m s" using assms(2,3) by blast
  from rt_memheap_realloc_result[OF assms(1) this assms(4-6)] show ?thesis by (simp add: mh_resized_def)
qed

text \<open>C33. For a new size from 2 to the 32 minus 15 to 2 to the 32 minus 4 the addition in the test of
  the room behind the block wraps around: when the next block is free, rt\_memheap\_realloc reports that
  the block has grown in place, although no pool is that large, and puts the header of the next block
  at an address below the data of the block.\<close>

theorem memheap_realloc_wraps:
  assumes "mh_inv p m (pre @ (True, n + 24) # (False, k) # post) fl" "is_memheap p s"
    and "heap_unlocked (mh_lock (heaps m p)) s" "unat r = mh_start p m + psize pre + 24" "12 \<le> n"
    and "0xfffffff0 < unat newsize" "unat newsize \<le> 0xfffffffc"
  shows "\<exists>m'. rt_memheap_realloc p r newsize m s = Some (Done r, m', s) \<and>
    nxt (it_links m') (r - RT_MEMHEAP_SIZE) = r + memheap_size newsize \<and>
    unat (r + memheap_size newsize) < unat r \<and> unat (memheap_size newsize) > psize (pre @ (True, n + 24) # (False, k) # post)"
proof -
  let ?ns = "memheap_size newsize" and ?c = "mh_start p m + psize pre"
  have lk: "mh_free_to_use p m s" using assms(2,3) by blast
  note D = mh_invD[OF assms(1)] and W = wrapping_size[OF assms(6,7)] and R = mh_aligned[OF assms(1,4)]
  note L = block_links[OF D(1) refl]
  have B': "mh_blocks p m ((pre @ [(True, n + 24)]) @ (False, k) # post)" using D(1) by simp
  have x: "?c + (n + 24) = mh_start p m + psize (pre @ [(True, n + 24)])" by simp
  have k: "24 < k" "\<not> is_used m (of_nat (?c + (n + 24)))" using block_links(4,6)[OF B' x] by simp_all
  have sz: "MEMITEM_SIZE m (of_nat ?c) = of_nat n" using item_size[OF D(1)] by simp
  have nsz: "MEMITEM_SIZE m (of_nat (?c + (n + 24))) = of_nat (k - 24)" unfolding x by (rule item_size[OF B'])
  have un: "unat (of_nat n :: rt_size) = n" using L(5) by (intro unat_small32) simp
  have small: "n + psize pre + 24 + k + psize post + 24 < 2 ^ 32" using D(3,4) by simp
  have "unat (of_nat (k - 24) + of_nat n :: rt_size) = k - 24 + n"
    using small unat_small32[of "k - 24 + n"] by simp
  then have enough: "of_nat (k - 24) + of_nat n > ?ns + RT_MEMHEAP_MINIALLOC"
    unfolding word_less_nat_alt using W(3) assms(5) by simp
  have up: "nxt (it_links m) (of_nat ?c) > of_nat ?c"
  proof -
    have "unat (of_nat (?c + (n + 24)) :: rt_uint32) = ?c + (n + 24)" "unat (of_nat ?c :: rt_uint32) = ?c"
      using L(5) by (intro unat_small32; simp)+
    then show ?thesis unfolding L(1) word_less_nat_alt by simp
  qed
  have grow: "?ns > of_nat n" using W(1) small by (simp add: word_less_nat_alt un)
  obtain m' where m': "mh_grow p r (of_nat n) ?ns m = Some m'" "nxt (it_links m') (r - RT_MEMHEAP_SIZE) = r + ?ns"
    "mh_lock (heaps m' p) = mh_lock (heaps m p)"
    using mh_grow_next[of m r ?ns "of_nat n" p] enough k(2) unfolding R(3) L(1) nsz by auto
  obtain s1 where s1: "rt_sem_take (mh_lock (heaps m p)) WAITING_FOREVER s = Some (Done RT_EOK, s1)"
    "rt_sem_release (mh_lock (heaps m p)) s1 = Some (RT_EOK, s)" using mh_lock_cycle[OF lk] .
  have nz: "newsize \<noteq> 0" using assms(6) by auto
  have "rt_memheap_realloc p r newsize m s = Some (Done r, m', s)"
    using nz R(2) lk s1 grow up m'(1,3)
    by (simp add: rt_memheap_realloc_def memheap_resize_def memheap_grow_locked_def Let_def R(3) sz del: of_nat_add)
  moreover have "unat (r + ?ns) < unat r"
  proof -
    have "unat r < 2 ^ 32" using unsigned_less[of r] by simp
    then have "2 ^ 32 \<le> unat r + unat ?ns" "unat r + unat ?ns - 2 ^ 32 < 2 ^ 32" using W(1,2) assms(4) by simp_all
    then have "(unat r + unat ?ns) mod 2 ^ 32 = unat r + unat ?ns - 2 ^ 32" by (simp add: le_mod_geq del: diff_less)
    then have "unat (r + ?ns) = unat r + unat ?ns - 2 ^ 32" by (simp add: unat_word_ariths)
    then show ?thesis using W(1,2) assms(4) by simp
  qed
  moreover have "unat ?ns > psize (pre @ (True, n + 24) # (False, k) # post)" using W(1) D(3,4) by simp
  ultimately show ?thesis using m'(2) by blast
qed

section \<open>Witnesses\<close>

text \<open>A heap of 100 bytes at 0x1000 with a used block of 12 bytes and a free block of 16.\<close>

definition mh_demo :: memheaps where
  "mh_demo = \<lparr>it_magic = (\<lambda>a. if a = 0x1024 then 0x1ea01ea0 else 0x1ea01ea1), it_pool = (\<lambda>_. 0),
     it_links = \<lparr>nxt = (\<lambda>a. if a = 0x1000 then 0x1024 else if a = 0x1024 then 0x104c else 0x1000),
                 prv = (\<lambda>a. if a = 0x1000 then 0x104c else if a = 0x1024 then 0x1000 else 0x1024)\<rparr>,
     it_free = \<lparr>nxt = (\<lambda>a. if a = 0x1024 then 0x2000 else 0x1024),
                prv = (\<lambda>a. if a = 0x1024 then 0x2000 else 0x1024)\<rparr>,
     heaps = (\<lambda>_. \<lparr>start_addr = 0x1000, pool_size = 100, available_size = 16, max_used_size = 84,
       block_list = 0x1000, free_list = 0x2000, free_header = 0x2000, mh_lock = 1\<rparr>),
     heap_bytes = (\<lambda>a. ucast a)\<rparr>"

lemma mh_demo_inv: "mh_inv 0 mh_demo ([] @ (True, 12 + 24) # (False, 40) # []) [0x1024]"
  by (simp add: mh_inv_def mh_blocks_def mh_frees_def mh_account_def mh_place_def mh_demo_def dlist_def no_holes_def
    tags_def RT_MEMHEAP_MAGIC_def RT_MEMHEAP_USED_def)

lemma mh_demo_live: "mh_live 0 mh_demo = {(0x1018, 12)}"
  using mh_live_eq[OF mh_demo_inv] by (simp add: mh_demo_def)

lemma mh_demo_kernel: "is_memheap 0 heap_kernel" "heap_unlocked (mh_lock (heaps mh_demo 0)) heap_kernel"
  using heap_kernel_unlocked
  by (simp_all add: mh_demo_def is_memheap_def heap_kernel_def upd_sem_def rt_object_get_type_def demo_def demo_type_def
    RT_Object_Class_Static_def)

lemma memheap_run_safe_witness:
  "\<exists>m0 s0. rt_memheap_init 0 [109] 0x1000 100 mh_demo demo = Some (RT_EOK, m0, s0) \<and> mh_live 0 m0 = {}"
  using memheap_run_safe[of "0x1000" 100 mh_demo 0 demo "[109]"] by (simp add: mh_demo_def demo_def) blast

lemma rt_memheap_alloc_correct_witness:
  "\<exists>r m'. rt_memheap_alloc 0 5 mh_demo heap_kernel = Some (Done r, m', heap_kernel)"
  using rt_memheap_alloc_correct[OF mh_demo_inv mh_demo_kernel, of 5] by blast

lemma rt_memheap_free_correct_witness:
  "\<exists>m'. rt_memheap_free 0x1018 mh_demo heap_kernel = Some (Done (), m', heap_kernel) \<and> mh_live 0 m' = {}"
  using rt_memheap_free_correct[OF mh_demo_inv mh_demo_kernel, of "0x1018" 12 0] by (auto simp: mh_demo_live)

lemma rt_memheap_realloc_correct_witness:
  "rt_memheap_realloc 0 0x1018 20 mh_demo heap_kernel = Some (Done 0, mh_demo, heap_kernel) \<or>
   (\<exists>q m'. rt_memheap_realloc 0 0x1018 20 mh_demo heap_kernel = Some (Done q, m', heap_kernel) \<and> q \<noteq> 0 \<and>
     mh_bytes m' (unat q) 12 = mh_bytes mh_demo 0x1018 12)"
proof -
  have l: "(unat (0x1018 :: rt_uint32), 12) \<in> mh_live 0 mh_demo" by (simp add: mh_demo_live)
  have n: "0 < unat (20 :: rt_size)" "unat (20 :: rt_size) \<le> 0xfffffff0" by simp_all
  from rt_memheap_realloc_correct[OF mh_demo_inv mh_demo_kernel l n] show ?thesis by (auto simp: min_def)
qed

lemma memheap_realloc_wraps_witness:
  "\<exists>m'. rt_memheap_realloc 0 0x1018 0xfffffff8 mh_demo heap_kernel = Some (Done 0x1018, m', heap_kernel) \<and>
    nxt (it_links m') 0x1000 = 0x1010"
proof -
  have a: "unat (0x1018 :: rt_uint32) = mh_start 0 mh_demo + psize [] + 24" "(12 :: nat) \<le> 12"
    "0xfffffff0 < unat (0xfffffff8 :: rt_size)" "unat (0xfffffff8 :: rt_size) \<le> 0xfffffffc"
    by (simp_all add: mh_demo_def)
  have "memheap_size 0xfffffff8 = 0xfffffff8"
    by (simp add: memheap_size_def RT_ALIGN_def RT_MEMHEAP_MINIALLOC_def)
  with memheap_realloc_wraps[OF mh_demo_inv mh_demo_kernel a] show ?thesis
    by (auto simp: RT_MEMHEAP_SIZE_def)
qed

end
