(* ===== verification/Spec2Isabelle.thy ===== *)
theory Spec2Isabelle
  imports RT_List RT_Sched_Spec RT_Clock_Spec RT_Mutex_Run RT_Event RT_Mailbox_Run RT_Mq_Flow RT_Ring_Run RT_Mem_Calls RT_Device_Spec RT_Idle RT_Printf_Run RT_Memheap_Spec
begin

text \<open>A verification of the RT-Thread kernel of this repository, in the configuration of
  bsp/stm32f10x-HAL--LK/rtconfig.h: one 32-bit little-endian ARM processor, 32 priorities, 1000 ticks a
  second, names of 8 bytes, alignment to 4 bytes, hooks and overflow checks compiled in, the small
  memory heap, no timer thread, no signals, no modules. All paths below are relative to the directory
  rt-thread--backups--LK--12.8 of the sources.

  \<^bold>\<open>The program.\<close> src/ holds the kernel. Every kernel object begins with a
  \<^verbatim>\<open>struct rt_object\<close> (src/object.c) that names its class. Threads (src/thread.c) are queued through one
  embedded list node (include/rtservice.h), either in the ready queue of their priority, which the
  scheduler (src/scheduler.c) searches through a bitmap and \<^verbatim>\<open>__rt_ffs\<close> (src/kservice.c), or in the wait
  queue of an object. Each has a timer (src/timer.c), which the clock interrupt (src/clock.c,
  src/irq.c) checks. Semaphores, mutexes, events, mailboxes and message queues (src/ipc.c) and
  memory pools (src/mempool.c) suspend and resume threads and call the scheduler, and so do the data queues
  and completions of the drivers (components/drivers/src/dataqueue.c, completion.c). The small memory heap
  (src/mem.c) and the memory heaps (src/memheap.c) are each protected by a semaphore. The idle thread
  (src/idle.c) gives back the memory of ended threads. The device manager (src/device.c) calls the
  drivers; the ring buffer (components/drivers/src/ringbuffer.c) serves them. src/kservice.c also has the
  string and memory routines and the formatted output.

  \<^bold>\<open>How the code is modelled.\<close> The static data of the kernel and the stores of its objects are
  one record \<^typ>\<open>kernel\<close> (RT\_State); every operation is a function from it to an optional result.
  \<^const>\<open>None\<close> stands for what the code cannot go on from: a failed RT\_ASSERT, which stops the
  system, an access outside of the memory the code owns, or a loop that does not end. That an
  operation has a result is therefore proved, never assumed. Machine integers are words of their
  width. Error codes are integers as in include/rtdef.h. A critical section (interrupts disabled)
  is one step. A call that gives up the processor stops at \<^verbatim>\<open>rt_schedule\<close> with the result
  \<^verbatim>\<open>Blocked\<close>, and what it does when its thread runs again is a definition of its own, whose name
  ends in \<^verbatim>\<open>_wake\<close>; runs of a system interleave such calls freely with time-outs, releases
  and scheduling steps. Loops the code does not bound are \<^verbatim>\<open>partial_function\<close>s and their
  ends are proved; no fuel is used anywhere. The memory of the heap and of C's memory routines is a map from
  addresses to bytes (RT\_Memory).

  \<^bold>\<open>The theories, in the order of their layers.\<close>

  RT\_Prelude has the scalar types, error codes, assertions, and lemmas on words and lists. RT\_Order
  has a locale for ordered insertion, \<^verbatim>\<open>ordered_queue\<close>, which the timer list and the priority wait
  queues interpret. RT\_Queue has the locales of bounded queues, \<^verbatim>\<open>bounded_fifo\<close> and its extension
  \<^verbatim>\<open>bounded_deque\<close>, which mailboxes, ring buffers and message queues interpret; RT\_Alloc has the locale
  \<^verbatim>\<open>allocator\<close> with the runs of its clients, which the small heap, the memory heaps and the memory pools interpret;
  RT\_Wait has the locale \<^verbatim>\<open>waiting_object\<close> of objects whose invariant survives time-outs and scheduling,
  which semaphores, mutexes, events, mailboxes, message queues and memory pools interpret.

  RT\_List models the list operations as assignments to links and shows that on well-formed circles
  they are operations on sequences. RT\_Ffs is the search for the lowest bit. RT\_State has the records.
  RT\_Object is src/object.c, and RT\_Object\_Run has the runs of its operations with the typing of the object
  lists. RT\_Timer, RT\_Sched and RT\_Thread are the operations of src/timer.c,
  src/scheduler.c and src/thread.c. RT\_Sched states the invariant \<^verbatim>\<open>kinv\<close> of the kernel: no thread is in two
  queues; the ready queues hold exactly the ready threads except the running one, each by its
  priority; the bitmap shows which are empty; waiting threads are suspended; the timer list is
  sorted by the time left and its thread timers belong to suspended threads. RT\_Thread\_Inv and
  RT\_Thread\_Life prove that every thread operation keeps it. RT\_Sched\_Spec states an abstract
  scheduler and shows the refinement. RT\_Clock and RT\_Clock\_Spec are the tick, the time slice and the
  check of the timers; the functions that an application's timers call are the parameter \<^verbatim>\<open>cb\<close>. RT\_Timeout has
  the locale \<^verbatim>\<open>timeout_contract\<close> of what the check needs of them, and interprets it with all functions that are
  programs of calls on timers, threads and semaphores. RT\_Demo is a concrete state on which the theorems are applied.

  RT\_Ipc has what the communication objects share: waiting in arrival or priority order with a
  timeout and waking. RT\_Sem, RT\_Mutex, RT\_Event, RT\_Mailbox and RT\_Mq are the objects; the theories
  whose names end in \<^verbatim>\<open>_Run\<close> and \<^verbatim>\<open>_Flow\<close> state runs of whole systems and the properties over them: balance of a
  semaphore, mutual exclusion and priority inheritance, delivery in order. RT\_Mq\_Flow splits a send and a
  receive of a message queue at their two critical sections, so that any number of them overlap.
  RT\_Errno is the error number, and RT\_Mempool to RT\_Mempool\_Spec are the memory pools, whose runs are
  runs of the allocator interface. RT\_Dataqueue, RT\_Dataqueue\_Spec and RT\_Dataqueue\_Run are the data queues, whose
  state and that of the completions (RT\_Completion) and devices is in the field \<^verbatim>\<open>drv\<close> of the kernel; the
  notification of a data queue is the parameter \<^verbatim>\<open>notify_fn\<close>. RT\_Device, RT\_Device\_Spec and RT\_Device\_Run are
  src/device.c with the functions of a driver as the parameter \<^verbatim>\<open>device_ops\<close>: who opens and closes a device in
  whatever order, the count of its users is kept. The contract \<^verbatim>\<open>driver_ok\<close> of a driver is what the drivers of
  components/drivers keep to. RT\_Idle is src/idle.c, together with the small heap: every deleted thread is
  given back by rounds of the idle loop, its stack to the heap.

  RT\_Memory has memset, memcpy, memmove and memcmp with their word loops. RT\_Mem has the small heap;
  RT\_Mem\_Inv relates its headers to a list of pieces, RT\_Mem\_Ops shows what the critical sections
  do to the list, RT\_Mem\_Run interprets the allocator, and RT\_Mem\_Calls has the whole calls with the
  semaphore. RT\_Memheap to RT\_Memheap\_Spec do the same for src/memheap.c, with the second circle of the free
  blocks: RT\_Memheap\_Inv has the invariant, RT\_Memheap\_Ops and RT\_Memheap\_Resize the critical sections,
  RT\_Memheap\_Run the interpretation, RT\_Memheap\_Calls and RT\_Memheap\_Spec the calls and properties. RT\_String has the
  string routines; RT\_Printf is the formatted output on a buffer of bytes, RT\_Printf\_Ref and RT\_Printf\_Spec state
  what it should print and show that it does, and RT\_Printf\_Run has where it does not, and the reading of printed numbers. RT\_Ringbuffer and RT\_Ring\_Run are the ring buffer.

  \<^bold>\<open>Assumptions.\<close> Where a call waits, the theorems ask for \<^verbatim>\<open>can_block\<close>: the caller is the running
  ready thread, neither the scheduler is locked nor an interrupt served, and some other thread (the
  idle thread) is ready; waiting times are below half the range of the tick, as the code asserts for
  timers. RT\_KERNEL\_MALLOC answers for objects and pools are arguments of the creating operations.
  What these theorems exclude is shown separately where the code goes wrong: a semaphore taken with the
  scheduler locked, a memory pool after a timed-out allocation, a forced write to a ring buffer.

  \<^bold>\<open>Not modelled.\<close> Of the kernel: the multiprocessor variants (src/cpu.c and the parts under
  RT\_USING\_SMP), signals (src/signal.c), the slab heap (src/slab.c) and the timer thread, which the configuration
  leaves out; hooks, which are unset; stack contents except the guard byte; context switching in
  libcpu, which is assembly; the console, the start-up code (src/components.c) and the debug logs, which only print or
  call other parts. Outside of the kernel: the other driver frameworks, file systems,
  network stacks, shell and C library of components/, which this configuration uses little of and which
  are in large part other projects' code; the vendor's HAL and CMSIS under bsp/ and the register-level
  drivers.\<close>

end
